(* ===== verification/Prelude.thy ===== *)
theory Prelude
  imports Main "HOL-Library.Word"
begin

text \<open>
  The vocabulary every component shares: the machine integers of
  include/itch/core/types.hpp, the result type of an operation that may stop at an
  assertion, and the generic list and word facts the component proofs use.

  An operation that can fail returns \<open>'e + 'a\<close>: \<open>Inl e\<close> when it stops at the
  assertion \<open>e\<close>, \<open>Inr x\<close> when it returns \<open>x\<close>. \<open>andthen\<close> sequences two such
  operations and \<open>ensure\<close> is an assertion; proofs run a whole operation by rewriting
  with the collection \<open>result_simps\<close>.
\<close>

unbundle bit_operations_syntax

section \<open>Machine integers\<close>

type_synonym u8 = "8 word"
type_synonym u16 = "16 word"
type_synonym u32 = "32 word"
type_synonym u64 = "64 word"

section \<open>Operations that may stop at an assertion\<close>

named_theorems result_simps

definition andthen :: "'e + 'a \<Rightarrow> ('a \<Rightarrow> 'e + 'b) \<Rightarrow> 'e + 'b" where
  "andthen m f = (case m of Inl e \<Rightarrow> Inl e | Inr x \<Rightarrow> f x)"

definition ensure :: "bool \<Rightarrow> 'e \<Rightarrow> 'e + unit" where
  "ensure c e = (if c then Inr () else Inl e)"

lemma andthen_Inl [simp, result_simps]: "andthen (Inl e) f = Inl e"
  by (simp add: andthen_def)

lemma andthen_Inr [simp, result_simps]: "andthen (Inr x) f = f x"
  by (simp add: andthen_def)

lemma ensure_True [simp, result_simps]: "c \<Longrightarrow> ensure c e = Inr ()"
  by (simp add: ensure_def)

lemma ensure_False [simp, result_simps]: "\<not> c \<Longrightarrow> ensure c e = Inl e"
  by (simp add: ensure_def)

lemma andthen_eq_Inr: "andthen m f = Inr y \<longleftrightarrow> (\<exists>x. m = Inr x \<and> f x = Inr y)"
  by (cases m) auto

lemma ensure_eq_Inr: "ensure c e = Inr u \<longleftrightarrow> c"
  by (simp add: ensure_def)

lemma andthen_ensure_eq_Inr: "andthen (ensure c e) f = Inr y \<longleftrightarrow> c \<and> f () = Inr y"
  by (simp add: ensure_def)

lemmas result_dest = andthen_eq_Inr ensure_eq_Inr andthen_ensure_eq_Inr

lemma andthen_cong [fundef_cong]:
  "m = m' \<Longrightarrow> (\<And>x. m' = Inr x \<Longrightarrow> f x = f' x) \<Longrightarrow> andthen m f = andthen m' f'"
  by (cases m') auto

text \<open>A loop over a list that stops at the first failing turn.\<close>

primrec each :: "('a \<Rightarrow> 'e + unit) \<Rightarrow> 'a list \<Rightarrow> 'e + unit" where
  "each f [] = Inr ()"
| "each f (x # xs) = andthen (f x) (\<lambda>_. each f xs)"

lemma each_ok: "(\<And>x. x \<in> set xs \<Longrightarrow> f x = Inr ()) \<Longrightarrow> each f xs = Inr ()"
  by (induction xs) auto

section \<open>Lists\<close>

lemma nth_list_update_if:
  "i < length xs \<Longrightarrow> xs[i := v] ! j = (if i = j then v else xs ! j)"
  by (auto simp: nth_list_update)

section \<open>Words\<close>

lemma unat_plus_one_if:
  fixes w :: "'a::len word"
  shows "unat (w + 1) = (if Suc (unat w) < 2 ^ LENGTH('a) then Suc (unat w) else 0)"
proof -
  have e: "unat (w + 1) = (unat w + 1) mod 2 ^ LENGTH('a)"
    by (simp add: unat_word_ariths mod_simps)
  have "Suc (unat w) \<le> 2 ^ LENGTH('a)"
    by (rule Suc_leI) simp
  then show ?thesis by (cases "Suc (unat w) = 2 ^ LENGTH('a)") (auto simp: e)
qed

lemma unat_plus_one:
  fixes w :: "'a::len word"
  shows "Suc (unat w) < 2 ^ LENGTH('a) \<Longrightarrow> unat (w + 1) = Suc (unat w)"
  by (simp add: unat_plus_one_if)

lemma unat_minus_one':
  fixes w :: "'a::len word"
  shows "w \<noteq> 0 \<Longrightarrow> unat (w - 1) = unat w - 1"
  by (simp add: unat_minus_one)

lemma unat_and_mask: "unat (w AND mask k) = unat w mod 2 ^ k" for w :: "'a::len word"
  unfolding take_bit_eq_mask [symmetric] unsigned_take_bit_eq by (rule take_bit_eq_mod)

lemma unat_and_mask_le: "unat (w AND mask k) < 2 ^ k" for w :: "'a::len word"
  by (simp add: unat_and_mask)

lemma unat_step_mask:
  fixes w :: "'a::len word"
  assumes "k < LENGTH('a)" and "unat w < 2 ^ k"
  shows "unat ((w + 1) AND mask k) = Suc (unat w) mod 2 ^ k"
proof -
  have "Suc (unat w) \<le> 2 ^ k" using assms(2) by (rule Suc_leI)
  also have "(2::nat) ^ k < 2 ^ LENGTH('a)" using assms(1) by simp
  finally have "unat (w + 1) = Suc (unat w)" by (rule unat_plus_one)
  then show ?thesis by (simp only: unat_and_mask)
qed

lemma and_one_odd: "w AND 1 = 1 \<longleftrightarrow> odd w" for w :: "'a::len word"
  by (simp add: and_one_eq odd_iff_mod_2_eq_one)

lemma and_one_even: "w AND 1 = 0 \<longleftrightarrow> even w" for w :: "'a::len word"
  by (simp add: and_one_eq even_iff_mod_2_eq_zero)

end
