(* ===== verification/Assertions.thy ===== *)
theory Assertions
  imports Prelude
begin

text \<open>
  include/itch/core/assert.hpp and src/assert.cpp: the assertions of the project, as
  values. Every \<open>ITCH_ASSERT\<close>, \<open>ITCH_ASSERT_MSG\<close> and \<open>ITCH_INVARIANT\<close> of the modelled
  code is one constructor below; an operation that reaches a failing one returns
  \<open>Inl\<close> of it, because \<open>assert_failed\<close> never returns to its caller (shown at the end).
  The constructors marked \<open>[invariant]\<close> stand for \<open>ITCH_INVARIANT\<close> checks, which
  level 0 compiles out: the development models the build preset release-checked
  (\<open>ITCH_INVARIANT_LEVEL\<close> 1), and its theorems show that these checks never fail
  on the states they are about.
  \<open>Diverges\<close> is no assertion: it is the value of a loop of the source that does not end
  (its fuel ran out after as many steps as the loop has distinct states).
\<close>

section \<open>The assertions, by component\<close>

datatype handle_failure =
    IndexOutOfRange              \<comment> \<open>make: index < kMaxCapacity\<close>

datatype pool_failure =
    PoolNeedsSlot                \<comment> \<open>a pool needs at least one slot\<close>
  | CapacityTooLarge             \<comment> \<open>capacity exceeds what a 24-bit index can address\<close>
  | PoolExhausted                \<comment> \<open>order pool exhausted\<close>
  | AllocatedEven                \<comment> \<open>[invariant] allocate: the generation is odd\<close>
  | FreedOdd                     \<comment> \<open>[invariant] free: the generation is even\<close>
  | BadHandle                    \<comment> \<open>handle is null, out of range, or from another pool\<close>
  | StaleHandle                  \<comment> \<open>stale handle: the slot has been freed or reused\<close>
  | FreeListLeavesPool           \<comment> \<open>free list leaves the pool\<close>
  | FreeListCycle                \<comment> \<open>free list has a cycle\<close>
  | FreeListLive                 \<comment> \<open>a live slot is in the free list\<close>
  | SlotCensus                   \<comment> \<open>slots are neither live, free nor quarantined\<close>

datatype index_failure =
    IndexNullHandle              \<comment> \<open>cannot index a null handle\<close>
  | IndexHalfFull                \<comment> \<open>order index would exceed half full\<close>
  | IndexedTwice                 \<comment> \<open>[invariant] order reference inserted twice\<close>
  | NotIndexed                   \<comment> \<open>erasing a reference not in the index\<close>
  | IndexGap                     \<comment> \<open>an empty slot sits between an entry and its ideal slot\<close>
  | IndexCensus                  \<comment> \<open>index count disagrees with its contents\<close>

datatype levels_failure =
    LevelNullHandle              \<comment> \<open>cannot insert a null level handle\<close>
  | LevelExists                  \<comment> \<open>[invariant] a level already exists at this price\<close>
  | LevelMissing                 \<comment> \<open>erasing a level that is not there\<close>
  | LevelUnderflow               \<comment> \<open>erase: levels_ > 0\<close>
  | BestOnEmpty                  \<comment> \<open>best() on an empty side\<close>
  | BestNoPrice                  \<comment> \<open>best: from_window != kNoPrice\<close>
  | LevelCensus                  \<comment> \<open>level count (tree size) disagrees with its contents\<close>
  | LevelSlotNull                \<comment> \<open>occupied slot (overflow, node) holds a null handle\<close>
  | InWindowOverflow             \<comment> \<open>a price inside the window is in the overflow map\<close>
  | TreeEraseEmpty               \<comment> \<open>erasing from an empty tree\<close>
  | TreeOrder                    \<comment> \<open>tree is out of order\<close>
  | TreeHeight                   \<comment> \<open>stored height is wrong\<close>
  | TreeBalance                  \<comment> \<open>tree is not balanced\<close>

datatype book_failure =
    NoQuantity                   \<comment> \<open>an order with no quantity cannot rest\<close>
  | AddedTwice                   \<comment> \<open>order reference added twice ([invariant] in BookT)\<close>
  | HeadNotNull                  \<comment> \<open>[invariant] add: lvl.head.is_null()\<close>
  | CancelMissing                \<comment> \<open>cancel for an order that is not resting\<close>
  | CancelTooMuch                \<comment> \<open>cancel for more than the order holds\<close>
  | ExecuteMissing               \<comment> \<open>execution against an order that is not resting\<close>
  | ExecuteTooMuch               \<comment> \<open>execution for more than the order holds\<close>
  | DeleteMissing                \<comment> \<open>delete for an order that is not resting\<close>
  | ReplaceMissing               \<comment> \<open>replace of an order that is not resting\<close>
  | QueryMissing                 \<comment> \<open>side_of, price_of, qty_of, owner_of for a missing order\<close>
  | LevelNegative                \<comment> \<open>[invariant] level quantity would go negative\<close>
  | EmptyLevelQuantity           \<comment> \<open>([invariant] in BookT) empty level still holds quantity\<close>
  | EmptyLevelLinks              \<comment> \<open>[invariant] reduce: head and tail are null\<close>
  | LevelGone                    \<comment> \<open>order points at a level that does not exist\<close>
  | LevelEmpty                   \<comment> \<open>an empty level must not exist\<close>
  | LevelOrderCount              \<comment> \<open>queue length (order count) disagrees with the level\<close>
  | LevelOrdering                \<comment> \<open>levels are out of order\<close>
  | QueuedUnknown                \<comment> \<open>a queued order is not in the index\<close>
  | WrongLevel                   \<comment> \<open>order is on the wrong level\<close>
  | WrongSide                    \<comment> \<open>order is on the wrong side\<close>
  | ZeroResting                  \<comment> \<open>a zero quantity order is resting\<close>
  | LevelQuantity                \<comment> \<open>level quantity disagrees with its orders\<close>
  | BestCache                    \<comment> \<open>cached best disagrees with the ladder\<close>
  | Orphan                       \<comment> \<open>orphaned order in the index\<close>
  | TotalQuantity                \<comment> \<open>cached total quantity disagrees\<close>
  | TotalLevels                  \<comment> \<open>cached level count disagrees\<close>
  | TotalOrders                  \<comment> \<open>cached order count disagrees\<close>

datatype engine_failure =
    SubmitNoQuantity             \<comment> \<open>an order with no quantity cannot be submitted\<close>
  | LimitNoPrice                 \<comment> \<open>a limit order needs a price\<close>
  | TouchNoOrder                 \<comment> \<open>the best level has no resting order\<close>

datatype replay_failure =
    RemovedTooMuch               \<comment> \<open>removed more than was ever added\<close>
  | BookCrossed                  \<comment> \<open>book is crossed\<close>
  | NotConserved                 \<comment> \<open>[invariant] quantity conservation failed\<close>
  | BadIndicator                 \<comment> \<open>buy/sell indicator is neither B nor S\<close>

datatype wire_failure =
    CursorPastEnd                \<comment> \<open>[invariant] next: pos_ <= buf_.size()\<close>
  | BufferTooSmall               \<comment> \<open>frame buffer must hold at least one whole message\<close>

datatype failure =
    HandleF handle_failure
  | PoolF pool_failure
  | IndexF index_failure
  | LevelsF levels_failure
  | BookF book_failure
  | EngineF engine_failure
  | ReplayF replay_failure
  | WireF wire_failure
  | Diverges

section \<open>assert_failed never returns\<close>

text \<open>
  src/assert.cpp. A handler is a function of the program: it either returns, throws or
  ends the process. \<open>assert_failed\<close> calls the installed handler and then \<open>std::abort\<close>.
\<close>

record assert_info =
  ai_file :: string
  ai_line :: int
  ai_func :: string
  ai_expr :: string
  ai_msg :: "string option"

datatype handler_outcome = HandlerReturns | HandlerThrows | HandlerExits

type_synonym handler = "assert_info \<Rightarrow> handler_outcome"

datatype assert_outcome = Threw | Exited | Aborted

definition default_handler :: handler where
  "default_handler info = HandlerReturns"

text \<open>\<open>g_handler\<close> is the state; \<open>set_assert_handler\<close> returns the previous one first.\<close>

definition set_assert_handler :: "handler \<Rightarrow> handler option \<Rightarrow> handler \<times> handler" where
  "set_assert_handler g_handler handler =
     (let prev = g_handler;
          g_handler' = (case handler of Some h \<Rightarrow> h | None \<Rightarrow> default_handler)
      in (prev, g_handler'))"

definition assert_failed :: "handler \<Rightarrow> assert_info \<Rightarrow> assert_outcome" where
  "assert_failed g_handler info =
     (case g_handler info of
        HandlerReturns \<Rightarrow> Aborted
      | HandlerThrows \<Rightarrow> Threw
      | HandlerExits \<Rightarrow> Exited)"

text \<open>Installing a handler and then installing what was returned restores the first.\<close>

lemma set_assert_handler_restore:
  "snd (set_assert_handler (snd (set_assert_handler g h))
     (Some (fst (set_assert_handler g h)))) = g"
  by (simp add: set_assert_handler_def)

end
