(* ===== verification/Core_Types.thy ===== *)
theory Core_Types
  imports Assertions
begin

text \<open>
  include/itch/core/types.hpp: prices, quantities, references, the two sides of a book and
  the strong type of a ladder index. A pair of values indexed by side (\<open>T x[2]\<close> with
  \<open>side_index\<close>) is a function on \<open>side\<close>.
\<close>

type_synonym price = u32
type_synonym qty = u32
type_synonym order_ref = u64
type_synonym timestamp = u64

definition kPriceScale :: price where
  "kPriceScale = 10000"

definition kPennyUnits :: price where
  "kPennyUnits = 100"

datatype side = Buy | Sell

fun opposite :: "side \<Rightarrow> side" where
  "opposite Buy = Sell"
| "opposite Sell = Buy"

fun to_char :: "side \<Rightarrow> char" where
  "to_char Buy = CHR ''B''"
| "to_char Sell = CHR ''S''"

text \<open>\<open>static_cast<u8>(side)\<close> and \<open>static_cast<Side>(byte)\<close>; the enumerators are 0 and 1.\<close>

fun side_index :: "side \<Rightarrow> nat" where
  "side_index Buy = 0"
| "side_index Sell = 1"

fun side_to_u8 :: "side \<Rightarrow> u8" where
  "side_to_u8 Buy = 0"
| "side_to_u8 Sell = 1"

definition side_of_u8 :: "u8 \<Rightarrow> side" where
  "side_of_u8 b = (if b = 0 then Buy else Sell)"

lemma side_of_to_u8 [simp]: "side_of_u8 (side_to_u8 s) = s"
  by (cases s) (simp_all add: side_of_u8_def)

lemma opposite_opposite [simp]: "opposite (opposite s) = s"
  by (cases s) simp_all

lemma opposite_neq [simp]: "opposite s \<noteq> s" "s \<noteq> opposite s"
  by (cases s; simp)+

lemma all_sides: "(\<forall>s. P s) \<longleftrightarrow> P Buy \<and> P Sell"
  by (metis side.exhaust)

section \<open>The strong type of a ladder index\<close>

datatype ticks = Ticks (tick_v: int)

text \<open>The comparisons of the struct, which make the type a linear order.\<close>

definition ticks_le :: "ticks \<Rightarrow> ticks \<Rightarrow> bool" where
  "ticks_le a b = (tick_v a \<le> tick_v b)"

definition ticks_less :: "ticks \<Rightarrow> ticks \<Rightarrow> bool" where
  "ticks_less a b = (tick_v a < tick_v b)"

instantiation ticks :: linorder
begin

definition less_eq_ticks :: "ticks \<Rightarrow> ticks \<Rightarrow> bool" where
  "less_eq_ticks = ticks_le"

definition less_ticks :: "ticks \<Rightarrow> ticks \<Rightarrow> bool" where
  "less_ticks = ticks_less"

instance
  by standard (auto simp: less_eq_ticks_def less_ticks_def ticks_le_def ticks_less_def ticks.expand)

end

section \<open>No price, and the inside-first order of prices on a side\<close>

text \<open>book_types.hpp: the marker for an empty side.\<close>

definition kNoPrice :: price where
  "kNoPrice = 0"

text \<open>
  On the bid side a higher price is closer to the inside, on the ask side a lower one.
  This is the comparison \<open>s == Side::Buy ? a > b : a < b\<close> of the books.
\<close>

fun closer :: "side \<Rightarrow> price \<Rightarrow> price \<Rightarrow> bool" where
  "closer Buy a b = (b < a)"
| "closer Sell a b = (a < b)"

lemma closer_irrefl [simp]: "\<not> closer s p p"
  by (cases s) auto

lemma closer_trans: "closer s a b \<Longrightarrow> closer s b c \<Longrightarrow> closer s a c"
  by (cases s) auto

lemma closer_total: "closer s a b \<or> a = b \<or> closer s b a"
  by (cases s) auto

lemma closer_asym: "closer s a b \<Longrightarrow> \<not> closer s b a"
  by (cases s) auto

lemma not_closer: "\<not> closer s a b \<longleftrightarrow> a = b \<or> closer s b a"
  by (cases s) auto

lemma transp_closer [simp, intro]: "transp (closer s)"
  by (rule transpI) (rule closer_trans)

text \<open>The best of a non-empty set of prices: \<open>p\<close> is in it and nothing in it is closer.\<close>

definition is_best :: "side \<Rightarrow> price set \<Rightarrow> price \<Rightarrow> bool" where
  "is_best s P p \<longleftrightarrow> p \<in> P \<and> (\<forall>q \<in> P. \<not> closer s q p)"

lemma is_best_unique: "is_best s P p \<Longrightarrow> is_best s P q \<Longrightarrow> p = q"
  unfolding is_best_def using closer_total by blast

lemma is_best_insert:
  assumes "is_best s P q"
  shows "is_best s (insert p P) (if closer s p q then p else q)"
proof (cases "closer s p q")
  case True
  then have "\<not> closer s r p" if "r \<in> P" for r
    using assms that closer_trans [of s r p q] by (auto simp: is_best_def)
  with True show ?thesis by (simp add: is_best_def)
next
  case False
  with assms show ?thesis by (auto simp: is_best_def)
qed

lemma is_best_remove:
  "is_best s (insert p P) q \<Longrightarrow> q \<noteq> p \<Longrightarrow> is_best s P q"
  by (auto simp: is_best_def)

lemma is_best_cong: "P = Q \<Longrightarrow> is_best s P p \<longleftrightarrow> is_best s Q p"
  by simp

end
