(* ===== verification/Hash.thy ===== *)
theory Hash
  imports Core_Types
begin

text \<open>
  include/itch/core/hash.hpp: splitmix64's finaliser and the journal digest. All
  arithmetic is on 64-bit words and wraps.
\<close>

definition mix64 :: "u64 \<Rightarrow> u64" where
  "mix64 z0 =
     (let z1 = z0 + 0x9e3779b97f4a7c15;
          z2 = (z1 XOR drop_bit 30 z1) * 0xbf58476d1ce4e5b9;
          z3 = (z2 XOR drop_bit 27 z2) * 0x94d049bb133111eb
      in z3 XOR drop_bit 31 z3)"

section \<open>The digest\<close>

record digest =
  dg_h :: u64

definition kSeed :: u64 where
  "kSeed = 0x243f6a8885a308d3"

definition digest_new :: digest where
  "digest_new = \<lparr>dg_h = kSeed\<rparr>"

definition feed :: "digest \<Rightarrow> u64 \<Rightarrow> digest" where
  "feed d x = d\<lparr>dg_h := mix64 (dg_h d XOR mix64 x)\<rparr>"

definition feed_u8 :: "digest \<Rightarrow> u8 \<Rightarrow> digest" where
  "feed_u8 d x = feed d (ucast x)"

definition feed_u32 :: "digest \<Rightarrow> u32 \<Rightarrow> digest" where
  "feed_u32 d x = feed d (ucast x)"

definition feed_char :: "digest \<Rightarrow> char \<Rightarrow> digest" where
  "feed_char d c = feed d (ucast (of_char c :: u8))"

definition feed_bytes :: "digest \<Rightarrow> char list \<Rightarrow> digest" where
  "feed_bytes d p = foldl (\<lambda>d c. feed d (ucast (of_char c :: u8))) (feed d (of_nat (length p))) p"

definition feed_str :: "digest \<Rightarrow> char list \<Rightarrow> digest" where
  "feed_str d s = feed_bytes d s"

definition digest_value :: "digest \<Rightarrow> u64" where
  "digest_value d = dg_h d"

definition digest_reset :: "digest \<Rightarrow> digest" where
  "digest_reset d = d\<lparr>dg_h := kSeed\<rparr>"

text \<open>The state of a digest is one word, so a digest is its value.\<close>

lemma digest_reset_new: "digest_reset d = digest_new"
  by (simp add: digest_reset_def digest_new_def)

section \<open>mix64 loses nothing\<close>

text \<open>
  Each step of the finaliser is invertible: the addition, the two multiplications by odd
  constants, and the three xor-shifts. So different fields give different digests of
  one field.
\<close>

lemma xorshift_bit:
  "bit (z XOR drop_bit k z) i \<longleftrightarrow> (bit z i \<noteq> bit z (i + k))" for z :: u64
  by (simp add: bit_simps ac_simps)

lemma xorshift_inj:
  assumes "0 < k" and eq: "x XOR drop_bit k x = y XOR drop_bit k (y :: u64)"
  shows "x = y"
proof -
  have "bit x (64 - n) = bit y (64 - n)" if "n \<le> 64" for n
    using that
  proof (induction n rule: less_induct)
    case (less n)
    have step: "(bit x (64 - n) \<noteq> bit x (64 - n + k)) = (bit y (64 - n) \<noteq> bit y (64 - n + k))"
      using arg_cong [OF eq, of "\<lambda>w. bit w (64 - n)"] by (simp only: xorshift_bit)
    have "bit x (64 - n + k) = bit y (64 - n + k)"
    proof (cases "k \<le> n")
      case True
      then have "64 - n + k = 64 - (n - k)" using less.prems by linarith
      moreover have "bit x (64 - (n - k)) = bit y (64 - (n - k))"
        using less.IH [of "n - k"] less.prems True \<open>0 < k\<close> by simp
      ultimately show ?thesis by simp
    next
      case False
      then have "64 \<le> 64 - n + k" using less.prems by linarith
      then show ?thesis by (auto dest: bit_imp_le_length)
    qed
    with step show ?case by blast
  qed
  note all = this
  show ?thesis
  proof (rule bit_word_eqI)
    fix i
    assume "i < LENGTH(64)"
    then have "64 - (64 - i) = i" by simp
    with all [of "64 - i"] show "bit x i = bit y i" by simp
  qed
qed

lemma times_odd_inj:
  assumes "c * ci = (1 :: u64)" and "x * c = y * c"
  shows "x = y"
proof -
  have "x * (c * ci) = y * (c * ci)"
    using assms(2) by (metis mult.assoc)
  with assms(1) show ?thesis by simp
qed

lemma mix64_inj: "mix64 x = mix64 y \<Longrightarrow> x = y"
proof -
  assume eq: "mix64 x = mix64 y"
  let ?c1 = "0xbf58476d1ce4e5b9 :: u64" and ?c2 = "0x94d049bb133111eb :: u64"
  let ?m = "\<lambda>k z. z XOR drop_bit k (z :: u64)"
  have "?m 31 (?m 27 (?m 30 (x + 0x9e3779b97f4a7c15) * ?c1) * ?c2) =
        ?m 31 (?m 27 (?m 30 (y + 0x9e3779b97f4a7c15) * ?c1) * ?c2)"
    using eq by (simp only: mix64_def Let_def)
  then have "?m 27 (?m 30 (x + 0x9e3779b97f4a7c15) * ?c1) * ?c2 =
        ?m 27 (?m 30 (y + 0x9e3779b97f4a7c15) * ?c1) * ?c2"
    by (rule xorshift_inj [rotated]) simp
  then have "?m 27 (?m 30 (x + 0x9e3779b97f4a7c15) * ?c1) =
        ?m 27 (?m 30 (y + 0x9e3779b97f4a7c15) * ?c1)"
    by (rule times_odd_inj [where ci = "0x319642b2d24d8ec3", rotated]) simp
  then have "?m 30 (x + 0x9e3779b97f4a7c15) * ?c1 = ?m 30 (y + 0x9e3779b97f4a7c15) * ?c1"
    by (rule xorshift_inj [rotated]) simp
  then have "?m 30 (x + 0x9e3779b97f4a7c15) = ?m 30 (y + 0x9e3779b97f4a7c15)"
    by (rule times_odd_inj [where ci = "0x96de1b173f119089", rotated]) simp
  then have "x + 0x9e3779b97f4a7c15 = y + 0x9e3779b97f4a7c15"
    by (rule xorshift_inj [rotated]) simp
  then show "x = y" by simp
qed

lemma mix64_eq_iff [simp]: "mix64 x = mix64 y \<longleftrightarrow> x = y"
  using mix64_inj by blast

lemma xor_cancel_left: "a XOR b = a XOR c \<longleftrightarrow> b = (c :: u64)"
proof
  assume "a XOR b = a XOR c"
  then have "a XOR (a XOR b) = a XOR (a XOR c)" by simp
  then show "b = c" by (simp add: xor.assoc [symmetric])
qed simp

lemma feed_field_iff: "feed d x = feed d y \<longleftrightarrow> x = y"
  by (cases d) (simp add: feed_def xor_cancel_left)

lemma feed_state_iff: "feed d x = feed e x \<longleftrightarrow> d = e"
proof -
  have "dg_h d XOR mix64 x = dg_h e XOR mix64 x \<longleftrightarrow> dg_h d = dg_h e"
    using xor_cancel_left [of "mix64 x"] by (simp add: xor.commute)
  then show ?thesis by (cases d; cases e) (simp add: feed_def)
qed

lemma foldl_feed_state_iff: "foldl feed d xs = foldl feed e xs \<longleftrightarrow> d = e"
  by (induction xs arbitrary: d e) (simp_all add: feed_state_iff)

end
