(* ===== verification/Handles.thy ===== *)
theory Handles
  imports Core_Types
begin

text \<open>
  include/itch/book/handle.hpp: 32-bit handles, a 24-bit slot index over an 8-bit
  generation. The C++ tag parameter is the type parameter \<open>'tag\<close>, so order handles and
  level handles are different types here too.
\<close>

datatype 'tag handle = Handle (h_bits: u32)

datatype order_tag = OrderTag

datatype level_tag = LevelTag

type_synonym order_handle = "order_tag handle"
type_synonym level_handle = "level_tag handle"

definition kIndexBits :: nat where
  "kIndexBits = 24"

definition kGenerationBits :: nat where
  "kGenerationBits = 8"

definition kGenerationMask :: u32 where
  "kGenerationMask = push_bit kGenerationBits 1 - 1"

definition kNullIndex :: u32 where
  "kNullIndex = push_bit kIndexBits 1 - 1"

definition kMaxCapacity :: u32 where
  "kMaxCapacity = kNullIndex"

definition kNullBits :: u32 where
  "kNullBits = 0xFFFFFFFF"

definition null_handle :: "'tag handle" where
  "null_handle = Handle kNullBits"

definition h_make :: "u32 \<Rightarrow> u8 \<Rightarrow> failure + 'tag handle" where
  "h_make index generation =
     andthen (ensure (index < kMaxCapacity) (HandleF IndexOutOfRange)) (\<lambda>_.
       Inr (Handle (push_bit kGenerationBits index OR ucast generation)))"

definition h_index :: "'tag handle \<Rightarrow> u32" where
  "h_index h = drop_bit kGenerationBits (h_bits h)"

definition h_generation :: "'tag handle \<Rightarrow> u8" where
  "h_generation h = ucast (h_bits h AND kGenerationMask)"

definition is_null :: "'tag handle \<Rightarrow> bool" where
  "is_null h \<longleftrightarrow> h_bits h = kNullBits"

text \<open>The index as a position of the pool's vector.\<close>

definition h_pos :: "'tag handle \<Rightarrow> nat" where
  "h_pos h = unat (h_index h)"

lemmas handle_consts =
  kIndexBits_def kGenerationBits_def kGenerationMask_def kNullIndex_def kMaxCapacity_def
  kNullBits_def

lemma kMaxCapacity_value: "kMaxCapacity = 0xFFFFFF" "unat kMaxCapacity = 2 ^ 24 - 1"
  by (simp_all add: handle_consts push_bit_eq_mult)

lemma kGenerationMask_value: "kGenerationMask = mask 8"
  by (simp add: handle_consts mask_eq_exp_minus_1 push_bit_eq_mult)

section \<open>A handle is its index and its generation\<close>

lemma is_null_null_handle [simp]: "is_null null_handle"
  by (simp add: is_null_def null_handle_def)

lemma is_null_iff: "is_null h \<longleftrightarrow> h = null_handle"
  by (cases h) (simp add: is_null_def null_handle_def)

lemma handle_bits_split:
  "h_bits h = push_bit 8 (h_index h) OR ucast (h_generation h)"
proof (rule bit_word_eqI)
  fix n
  assume "n < LENGTH(32)"
  then show "bit (h_bits h) n = bit (push_bit 8 (h_index h) OR ucast (h_generation h)) n"
    by (cases "n < 8")
      (simp_all add: h_index_def h_generation_def kGenerationMask_value kGenerationBits_def bit_simps)
qed

lemma handle_eq_iff: "h = h' \<longleftrightarrow> h_index h = h_index h' \<and> h_generation h = h_generation h'"
proof
  assume "h_index h = h_index h' \<and> h_generation h = h_generation h'"
  then have "h_bits h = h_bits h'" by (subst (1 2) handle_bits_split) simp
  then show "h = h'" by (cases h; cases h') simp
qed simp

lemma h_pos_eq_iff: "h_pos h = h_pos h' \<longleftrightarrow> h_index h = h_index h'"
  by (simp add: h_pos_def word_unat_eq_iff)

lemma h_index_less: "h_pos h < 2 ^ 24"
proof -
  have "unat (drop_bit 8 (h_bits h)) < 2 ^ 24"
    using unat_drop_bit_eq [of 8 "h_bits h"] unsigned_less [of "h_bits h", where 'a = nat]
    by (simp add: drop_bit_eq_div less_mult_imp_div_less)
  then show ?thesis by (simp add: h_pos_def h_index_def kGenerationBits_def)
qed

text \<open>\<open>make\<close> is total below the capacity bound and the accessors read back its arguments.\<close>

lemma h_make_eq:
  "h_make i g = (if i < kMaxCapacity
     then Inr (Handle (push_bit 8 i OR ucast g)) else Inl (HandleF IndexOutOfRange))"
  by (simp add: h_make_def kGenerationBits_def ensure_def)

lemma small_index_bits: "i < kMaxCapacity \<Longrightarrow> bit i n \<Longrightarrow> n < 24"
proof -
  assume "i < kMaxCapacity" and "bit i n"
  then have "bit (unat i) n"
    by (auto simp: bit_unsigned_iff)
  then have "odd (unat i div 2 ^ n)"
    by (simp add: bit_iff_odd)
  then have "2 ^ n \<le> unat i" by (metis div_less even_zero not_le)
  also have "unat i < 2 ^ 24"
    using \<open>i < kMaxCapacity\<close> by (simp add: kMaxCapacity_value word_less_nat_alt)
  finally show "n < 24" by (rule power_less_imp_less_exp [rotated]) simp
qed

lemma h_make_index: "h_make i g = Inr h \<Longrightarrow> h_index h = i"
  by (auto simp: h_make_eq h_index_def kGenerationBits_def bit_simps
      split: if_splits intro!: bit_word_eqI dest: small_index_bits)
    (auto dest: bit_imp_le_length)

lemma h_make_generation: "h_make i g = Inr h \<Longrightarrow> h_generation h = g"
  by (auto simp: h_make_eq h_generation_def kGenerationMask_value bit_simps
      split: if_splits intro!: bit_word_eqI dest: bit_imp_le_length)

lemma null_index: "h_index null_handle = kNullIndex"
  by (simp add: null_handle_def h_index_def handle_consts drop_bit_eq_div push_bit_eq_mult)

lemma h_make_not_null: "h_make i g = Inr h \<Longrightarrow> \<not> is_null h"
  using h_make_index [of i g h]
  by (auto simp: is_null_iff h_make_eq null_index kMaxCapacity_def split: if_splits)

lemma h_make_Inr:
  assumes "i < kMaxCapacity"
  obtains h where "h_make i g = Inr h" and "h_index h = i" and "h_generation h = g"
    and "\<not> is_null h"
proof -
  from assms have m: "h_make i g = Inr (Handle (push_bit 8 i OR ucast g))"
    by (simp add: h_make_eq)
  show ?thesis
    by (rule that [OF m h_make_index [OF m] h_make_generation [OF m] h_make_not_null [OF m]])
qed

text \<open>No pool of a legal capacity has a slot at the index of the null handle.\<close>

lemma is_null_pos: "is_null h \<Longrightarrow> h_pos h = 2 ^ 24 - 1"
  by (simp add: is_null_iff h_pos_def null_index flip: kMaxCapacity_def)
    (simp add: kMaxCapacity_value)

end
