(* ===== verification/Order_Index.thy ===== *)
theory Order_Index
  imports Hash Handles
begin

text \<open>
  include/itch/book/order_index.hpp: the open-addressed table from order references to
  handles, with linear probing and backward-shift deletion (Knuth's algorithm R).

  The probing loops carry fuel, one unit per turn and as much as the table has slots: a
  probe that has seen every slot is back where it started, so it never ends and is
  \<open>Inl Diverges\<close>. \<open>probes_\<close>, a mutable instrumentation counter that const members
  write and nothing reads, is not part of the state; \<open>inserts_\<close>, \<open>shifts_\<close> and
  \<open>longest_shift_\<close> are. \<open>prefault\<close> writes each byte to itself.
\<close>

section \<open>State and operations\<close>

datatype index_hash = Identity | Mixed

record entry =
  e_ref :: order_ref
  e_handle :: order_handle

record order_index =
  ix_slots :: "entry list"
  ix_mask :: u64
  ix_live :: u32
  ix_inserts :: u64
  ix_shifts :: u64
  ix_longest_shift :: u64

text \<open>
  \<open>std::bit_ceil\<close>: the least power of two not below its argument, which is undefined in
  C++ when that does not fit the type.
\<close>

function bit_ceil_from :: "nat \<Rightarrow> nat \<Rightarrow> nat" where
  "bit_ceil_from p n = (if n \<le> p \<or> p = 0 then p else bit_ceil_from (2 * p) n)"
  by pat_completeness auto
termination
  by (relation "measure (\<lambda>(p, n). n - p)") auto

declare bit_ceil_from.simps [simp del]

definition bit_ceil :: "u32 \<Rightarrow> u32" where
  "bit_ceil w = of_nat (bit_ceil_from 1 (unat w))"

definition index_entries_for :: "u32 \<Rightarrow> u32" where
  "index_entries_for peak_live_orders =
     (let want = (if peak_live_orders < 512 then 512 else peak_live_orders * 12)
      in bit_ceil want)"

definition blank_entry :: entry where
  "blank_entry = \<lparr>e_ref = 0, e_handle = null_handle\<rparr>"

definition oi_new :: "u32 \<Rightarrow> order_index" where
  "oi_new capacity_hint =
     (let want = bit_ceil (if capacity_hint < 8 then 16 else capacity_hint * 2)
      in \<lparr>ix_slots = replicate (unat want) blank_entry, ix_mask = ucast (want - 1),
          ix_live = 0, ix_inserts = 0, ix_shifts = 0, ix_longest_shift = 0\<rparr>)"

fun hash :: "index_hash \<Rightarrow> order_ref \<Rightarrow> u64" where
  "hash Identity ref = ref"
| "hash Mixed ref = mix64 ref"

fun insert_probe :: "entry list \<Rightarrow> u64 \<Rightarrow> order_ref \<Rightarrow> nat \<Rightarrow> u64 \<Rightarrow> failure + u64" where
  "insert_probe ss m ref 0 i = Inl Diverges"
| "insert_probe ss m ref (Suc fuel) i =
     (if \<not> is_null (e_handle (ss ! unat i)) then
        andthen (ensure (e_ref (ss ! unat i) \<noteq> ref) (IndexF IndexedTwice)) (\<lambda>_.
          insert_probe ss m ref fuel ((i + 1) AND m))
      else Inr i)"

definition oi_insert :: "index_hash \<Rightarrow> order_index \<Rightarrow> order_ref \<Rightarrow> order_handle \<Rightarrow> failure + order_index" where
  "oi_insert H ix ref h =
     andthen (ensure (\<not> is_null h) (IndexF IndexNullHandle)) (\<lambda>_.
     andthen (ensure (unat (ix_live ix * 2) < length (ix_slots ix)) (IndexF IndexHalfFull)) (\<lambda>_.
     andthen (insert_probe (ix_slots ix) (ix_mask ix) ref (length (ix_slots ix))
                (hash H ref AND ix_mask ix)) (\<lambda>i.
       Inr (ix\<lparr>ix_slots := (ix_slots ix)[unat i := \<lparr>e_ref = ref, e_handle = h\<rparr>],
               ix_live := ix_live ix + 1,
               ix_inserts := ix_inserts ix + 1\<rparr>))))"

fun find_probe :: "entry list \<Rightarrow> u64 \<Rightarrow> order_ref \<Rightarrow> nat \<Rightarrow> u64 \<Rightarrow> failure + order_handle" where
  "find_probe ss m ref 0 i = Inl Diverges"
| "find_probe ss m ref (Suc fuel) i =
     (let e = ss ! unat i in
      if is_null (e_handle e) then Inr null_handle
      else if e_ref e = ref then Inr (e_handle e)
      else find_probe ss m ref fuel ((i + 1) AND m))"

definition oi_find :: "index_hash \<Rightarrow> order_index \<Rightarrow> order_ref \<Rightarrow> failure + order_handle" where
  "oi_find H ix ref =
     find_probe (ix_slots ix) (ix_mask ix) ref (length (ix_slots ix)) (hash H ref AND ix_mask ix)"

fun erase_probe :: "entry list \<Rightarrow> u64 \<Rightarrow> order_ref \<Rightarrow> nat \<Rightarrow> u64 \<Rightarrow> failure + u64" where
  "erase_probe ss m ref 0 i = Inl Diverges"
| "erase_probe ss m ref (Suc fuel) i =
     andthen (ensure (\<not> is_null (e_handle (ss ! unat i))) (IndexF NotIndexed)) (\<lambda>_.
     if e_ref (ss ! unat i) = ref then Inr i
     else erase_probe ss m ref fuel ((i + 1) AND m))"

definition clear_slot :: "entry list \<Rightarrow> u64 \<Rightarrow> entry list" where
  "clear_slot ss i = ss[unat i := (ss ! unat i)\<lparr>e_handle := null_handle\<rparr>]"

text \<open>
  The two nested loops of \<open>erase_at\<close> as one: \<open>i\<close> is the hole (already cleared), \<open>j\<close> the
  cursor. A turn advances the cursor and stops at an empty slot, passes an entry that
  stays, or moves an entry into the hole, which clears the slot the entry came from.
\<close>

fun shift_back :: "index_hash \<Rightarrow> entry list \<Rightarrow> u64 \<Rightarrow> nat \<Rightarrow> u64 \<Rightarrow> u64 \<Rightarrow> u64 \<Rightarrow> failure + entry list \<times> u64" where
  "shift_back H ss m 0 i j moved = Inl Diverges"
| "shift_back H ss m (Suc fuel) i j0 moved =
     (let j = (j0 + 1) AND m in
      if is_null (e_handle (ss ! unat j)) then Inr (ss, moved)
      else
        let k = hash H (e_ref (ss ! unat j)) AND m;
            stays = (if i \<le> j then i < k \<and> k \<le> j else i < k \<or> k \<le> j) in
        if stays then shift_back H ss m fuel i j moved
        else shift_back H (clear_slot (ss[unat i := ss ! unat j]) j) m fuel j j (moved + 1))"

definition erase_at :: "index_hash \<Rightarrow> order_index \<Rightarrow> u64 \<Rightarrow> failure + order_index" where
  "erase_at H ix i =
     andthen (shift_back H (clear_slot (ix_slots ix) i) (ix_mask ix) (length (ix_slots ix)) i i 0)
       (\<lambda>(ss, moved).
         Inr (ix\<lparr>ix_slots := ss,
                 ix_shifts := ix_shifts ix + moved,
                 ix_longest_shift :=
                   (if ix_longest_shift ix < moved then moved else ix_longest_shift ix)\<rparr>))"

definition oi_erase :: "index_hash \<Rightarrow> order_index \<Rightarrow> order_ref \<Rightarrow> failure + order_index" where
  "oi_erase H ix ref =
     andthen (erase_probe (ix_slots ix) (ix_mask ix) ref (length (ix_slots ix))
                (hash H ref AND ix_mask ix)) (\<lambda>i.
     andthen (erase_at H ix i) (\<lambda>ix'.
       Inr (ix'\<lparr>ix_live := ix_live ix' - 1\<rparr>)))"

definition oi_size :: "order_index \<Rightarrow> u32" where
  "oi_size ix = ix_live ix"

definition oi_capacity :: "order_index \<Rightarrow> nat" where
  "oi_capacity ix = length (ix_slots ix)"

text \<open>\<open>validate\<close>: from each entry's ideal slot to the entry no slot is empty.\<close>

fun gap_walk :: "entry list \<Rightarrow> u64 \<Rightarrow> nat \<Rightarrow> u64 \<Rightarrow> nat \<Rightarrow> failure + unit" where
  "gap_walk ss m 0 j i = Inl Diverges"
| "gap_walk ss m (Suc fuel) j i =
     (if unat j \<noteq> i then
        andthen (ensure (\<not> is_null (e_handle (ss ! unat j))) (IndexF IndexGap)) (\<lambda>_.
          gap_walk ss m fuel ((j + 1) AND m) i)
      else Inr ())"

definition oi_validate :: "index_hash \<Rightarrow> order_index \<Rightarrow> failure + unit" where
  "oi_validate H ix =
     (let ss = ix_slots ix;
          counted = length (filter (\<lambda>e. \<not> is_null (e_handle e)) ss) in
      andthen (each (\<lambda>i. if is_null (e_handle (ss ! i)) then Inr ()
                          else gap_walk ss (ix_mask ix) (length ss)
                                 (hash H (e_ref (ss ! i)) AND ix_mask ix) i) [0..<length ss]) (\<lambda>_.
        ensure (of_nat counted = ix_live ix) (IndexF IndexCensus)))"

end
