(* ===== verification/Order_Index_Find.thy ===== *)
theory Order_Index_Find
  imports Order_Index
begin

text \<open>
  The order index as a finite map: the table invariant (every entry is reached from its
  ideal slot over occupied slots, references are distinct, at least half the slots are
  empty), and lookup and insertion against it. Positions are naturals modulo the
  capacity \<open>N\<close>.
\<close>

section \<open>Positions around the table\<close>

lemma mod_add_inj:
  fixes h :: nat
  assumes "d < N" and "n < N" and "(h + d) mod N = (h + n) mod N"
  shows "d = n"
proof -
  have le: "a = b" if "a \<le> b" "b < N" "(h + a) mod N = (h + b) mod N" for a b
  proof -
    have "N dvd (h + b) - (h + a)"
      using that mod_eq_dvd_iff_nat [of "h + a" "h + b" N] by simp
    then have "N dvd b - a" by simp
    moreover have "b - a < N" using that by simp
    ultimately have "b - a = 0" by (meson dvd_imp_le gr0I leD)
    with that show ?thesis by simp
  qed
  show ?thesis
    using le [of d n] le [of n d] assms by (cases "d \<le> n") auto
qed

lemma mod_reaches:
  assumes "h < N" and "p < (N::nat)"
  shows "\<exists>n < N. (h + n) mod N = p"
proof (cases "h \<le> p")
  case True
  with assms show ?thesis by (intro exI [of _ "p - h"]) auto
next
  case False
  with assms show ?thesis by (intro exI [of _ "N - h + p"]) auto
qed

definition occ :: "entry list \<Rightarrow> nat \<Rightarrow> bool" where
  "occ ss p \<longleftrightarrow> \<not> is_null (e_handle (ss ! p))"

definition home :: "index_hash \<Rightarrow> u64 \<Rightarrow> order_ref \<Rightarrow> nat" where
  "home H m r = unat (hash H r AND m)"

text \<open>\<open>p\<close> is reached from \<open>h\<close> over occupied slots.\<close>

definition reach :: "entry list \<Rightarrow> nat \<Rightarrow> nat \<Rightarrow> bool" where
  "reach ss h p \<longleftrightarrow> (\<exists>n < length ss. p = (h + n) mod length ss \<and>
     (\<forall>d < n. occ ss ((h + d) mod length ss)))"

definition sized :: "entry list \<Rightarrow> u64 \<Rightarrow> bool" where
  "sized ss m \<longleftrightarrow> (\<exists>k. 0 < k \<and> k < 32 \<and> length ss = 2 ^ k \<and> m = mask k)"

definition distinct_refs :: "entry list \<Rightarrow> bool" where
  "distinct_refs ss \<longleftrightarrow> (\<forall>p < length ss. \<forall>q < length ss.
     occ ss p \<longrightarrow> occ ss q \<longrightarrow> e_ref (ss ! p) = e_ref (ss ! q) \<longrightarrow> p = q)"

definition table_inv :: "index_hash \<Rightarrow> entry list \<Rightarrow> u64 \<Rightarrow> bool" where
  "table_inv H ss m \<longleftrightarrow> sized ss m \<and> distinct_refs ss \<and>
     (\<forall>p < length ss. occ ss p \<longrightarrow> reach ss (home H m (e_ref (ss ! p))) p) \<and>
     (\<exists>e < length ss. \<not> occ ss e)"

definition occupied :: "entry list \<Rightarrow> nat set" where
  "occupied ss = {p. p < length ss \<and> occ ss p}"

definition oi_inv :: "index_hash \<Rightarrow> order_index \<Rightarrow> bool" where
  "oi_inv H ix \<longleftrightarrow> table_inv H (ix_slots ix) (ix_mask ix) \<and>
     unat (ix_live ix) = card (occupied (ix_slots ix)) \<and>
     2 * unat (ix_live ix) \<le> length (ix_slots ix)"

text \<open>The map the table stands for, and the room left in it.\<close>

definition oi_map :: "order_index \<Rightarrow> order_ref \<Rightarrow> order_handle option" where
  "oi_map ix r = map_option e_handle
     (List.find (\<lambda>e. \<not> is_null (e_handle e) \<and> e_ref e = r) (ix_slots ix))"

definition oi_room :: "order_index \<Rightarrow> bool" where
  "oi_room ix \<longleftrightarrow> 2 * unat (ix_live ix) < length (ix_slots ix)"

lemma finite_occupied [simp]: "finite (occupied ss)"
  by (simp add: occupied_def)

lemma sized_pos: "sized ss m \<Longrightarrow> 0 < length ss"
  by (auto simp: sized_def)

lemma sized_bound: "sized ss m \<Longrightarrow> length ss < 2 ^ 32"
  using power_strict_increasing [of _ 32 "2::nat"] by (auto simp: sized_def)

lemma sized_even: "sized ss m \<Longrightarrow> even (length ss)"
  by (auto simp: sized_def)

lemma home_less: "sized ss m \<Longrightarrow> home H m r < length ss"
  by (auto simp: sized_def home_def unat_and_mask_le)

lemma step_pos:
  "sized ss m \<Longrightarrow> unat i < length ss \<Longrightarrow> unat ((i + 1) AND m) = Suc (unat i) mod length ss"
  by (auto simp: sized_def unat_step_mask)

lemma oi_map_Some:
  assumes "distinct_refs (ix_slots ix)"
  shows "oi_map ix r = Some h \<longleftrightarrow> (\<exists>p < length (ix_slots ix). occ (ix_slots ix) p \<and>
     e_ref (ix_slots ix ! p) = r \<and> e_handle (ix_slots ix ! p) = h)"
proof
  assume "oi_map ix r = Some h"
  then show "\<exists>p < length (ix_slots ix). occ (ix_slots ix) p \<and>
     e_ref (ix_slots ix ! p) = r \<and> e_handle (ix_slots ix ! p) = h"
    by (auto simp: oi_map_def find_Some_iff occ_def)
next
  assume "\<exists>p < length (ix_slots ix). occ (ix_slots ix) p \<and>
     e_ref (ix_slots ix ! p) = r \<and> e_handle (ix_slots ix ! p) = h"
  then obtain p where p: "p < length (ix_slots ix)" "occ (ix_slots ix) p"
    "e_ref (ix_slots ix ! p) = r" "e_handle (ix_slots ix ! p) = h" by blast
  then have "List.find (\<lambda>e. \<not> is_null (e_handle e) \<and> e_ref e = r) (ix_slots ix) \<noteq> None"
    by (auto simp: find_None_iff occ_def intro: nth_mem)
  then obtain e where e: "List.find (\<lambda>e. \<not> is_null (e_handle e) \<and> e_ref e = r) (ix_slots ix) = Some e"
    by blast
  then obtain q where q: "q < length (ix_slots ix)" "occ (ix_slots ix) q"
    "e_ref (ix_slots ix ! q) = r" "e = ix_slots ix ! q"
    by (auto simp: find_Some_iff occ_def)
  with p assms have "q = p" by (auto simp: distinct_refs_def)
  with e q p show "oi_map ix r = Some h" by (simp add: oi_map_def)
qed

lemma oi_map_None:
  "oi_map ix r = None \<longleftrightarrow> (\<forall>p < length (ix_slots ix). occ (ix_slots ix) p \<longrightarrow> e_ref (ix_slots ix ! p) \<noteq> r)"
  by (auto simp: oi_map_def find_None_iff occ_def in_set_conv_nth)

section \<open>Probing\<close>

text \<open>The first empty slot from \<open>h\<close> on.\<close>

lemma first_empty:
  assumes "h < length ss" and "\<exists>e < length ss. \<not> occ ss e"
  obtains n where "n < length ss" and "\<not> occ ss ((h + n) mod length ss)"
    and "\<forall>d < n. occ ss ((h + d) mod length ss)"
proof -
  let ?P = "\<lambda>n. n < length ss \<and> \<not> occ ss ((h + n) mod length ss)"
  obtain e where "e < length ss" "\<not> occ ss e" using assms(2) by blast
  then have "\<exists>n. ?P n" using mod_reaches [OF assms(1)] by metis
  then have least: "?P (LEAST n. ?P n)" by (rule LeastI_ex)
  show ?thesis
  proof (rule that)
    show "\<forall>d < (LEAST n. ?P n). occ ss ((h + d) mod length ss)"
      using not_less_Least [of _ ?P] least by fastforce
  qed (use least in blast)+
qed

text \<open>
  A probe walks over occupied slots that do not hold the reference; the three probing
  loops have the same walk.
\<close>

lemma probe_walk:
  assumes sz: "sized ss m" and "unat i < length ss" and "n \<le> fuel"
    and "\<forall>d < n. occ ss ((unat i + d) mod length ss) \<and>
           e_ref (ss ! ((unat i + d) mod length ss)) \<noteq> ref"
  shows "\<exists>i'. unat i' = (unat i + n) mod length ss \<and>
    find_probe ss m ref fuel i = find_probe ss m ref (fuel - n) i' \<and>
    erase_probe ss m ref fuel i = erase_probe ss m ref (fuel - n) i' \<and>
    insert_probe ss m ref fuel i = insert_probe ss m ref (fuel - n) i'"
  using assms(2-)
proof (induction n arbitrary: i fuel)
  case 0
  then show ?case by (intro exI [of _ i]) simp
next
  case (Suc n)
  let ?N = "length ss" and ?j = "(i + 1) AND m"
  from Suc.prems obtain f where fuel: "fuel = Suc f" and f: "n \<le> f" by (cases fuel) auto
  have uj: "unat ?j = Suc (unat i) mod ?N" using sz Suc.prems(1) by (rule step_pos)
  have shift: "(unat ?j + d) mod ?N = (unat i + Suc d) mod ?N" for d
    by (simp add: uj mod_simps)
  have "unat ?j < ?N" using sized_pos [OF sz] by (simp add: uj)
  moreover have "\<forall>d < n. occ ss ((unat ?j + d) mod ?N) \<and> e_ref (ss ! ((unat ?j + d) mod ?N)) \<noteq> ref"
    using Suc.prems(3) by (intro allI impI) (drule_tac x = "Suc d" in spec, simp add: shift)
  ultimately obtain i' where i': "unat i' = (unat ?j + n) mod ?N"
    "find_probe ss m ref f ?j = find_probe ss m ref (f - n) i'"
    "erase_probe ss m ref f ?j = erase_probe ss m ref (f - n) i'"
    "insert_probe ss m ref f ?j = insert_probe ss m ref (f - n) i'"
    using Suc.IH [OF _ f] by blast
  have "occ ss (unat i)" and "e_ref (ss ! unat i) \<noteq> ref"
    using Suc.prems(1,3) by (auto dest: spec [of _ 0])
  then show ?case
    using i' fuel by (intro exI [of _ i']) (simp add: shift occ_def)
qed

lemma probe_hit:
  assumes inv: "table_inv H ss m" and p: "p < length ss" "occ ss p"
  shows "find_probe ss m (e_ref (ss ! p)) (length ss) (hash H (e_ref (ss ! p)) AND m) =
           Inr (e_handle (ss ! p))"
    and "\<exists>i. unat i = p \<and>
           erase_probe ss m (e_ref (ss ! p)) (length ss) (hash H (e_ref (ss ! p)) AND m) = Inr i"
    and "insert_probe ss m (e_ref (ss ! p)) (length ss) (hash H (e_ref (ss ! p)) AND m) =
           Inl (IndexF IndexedTwice)"
proof -
  let ?N = "length ss" and ?r = "e_ref (ss ! p)" and ?i = "hash H (e_ref (ss ! p)) AND m"
  have sz: "sized ss m" and dis: "distinct_refs ss" using inv by (auto simp: table_inv_def)
  have i: "unat ?i < ?N" using home_less [OF sz] by (simp add: home_def)
  obtain n where n: "n < ?N" "p = (unat ?i + n) mod ?N"
    "\<forall>d < n. occ ss ((unat ?i + d) mod ?N)"
    using inv p by (auto simp: table_inv_def reach_def home_def)
  have "e_ref (ss ! ((unat ?i + d) mod ?N)) \<noteq> ?r" if "d < n" for d
  proof
    assume "e_ref (ss ! ((unat ?i + d) mod ?N)) = ?r"
    moreover have "(unat ?i + d) mod ?N < ?N" using sized_pos [OF sz] by simp
    ultimately have "(unat ?i + d) mod ?N = p"
      using dis n(3) that p by (auto simp: distinct_refs_def)
    then have "d = n" using n that mod_add_inj [of d ?N n "unat ?i"] by simp
    with that show False by simp
  qed
  with n have "\<forall>d < n. occ ss ((unat ?i + d) mod ?N) \<and> e_ref (ss ! ((unat ?i + d) mod ?N)) \<noteq> ?r"
    by blast
  from probe_walk [OF sz i less_imp_le [OF n(1)] this]
  obtain i' where i': "unat i' = p"
    "find_probe ss m ?r ?N ?i = find_probe ss m ?r (?N - n) i'"
    "erase_probe ss m ?r ?N ?i = erase_probe ss m ?r (?N - n) i'"
    "insert_probe ss m ?r ?N ?i = insert_probe ss m ?r (?N - n) i'"
    using n(2) by auto
  obtain f where f: "?N - n = Suc f" using n(1) by (cases "?N - n") auto
  show "find_probe ss m ?r ?N ?i = Inr (e_handle (ss ! p))"
    using i' p f by (simp add: occ_def)
  show "\<exists>i. unat i = p \<and> erase_probe ss m ?r ?N ?i = Inr i"
    using i' p f by (intro exI [of _ i']) (simp add: occ_def)
  show "insert_probe ss m ?r ?N ?i = Inl (IndexF IndexedTwice)"
    using i' p f by (simp add: occ_def)
qed

lemma probe_miss:
  assumes inv: "table_inv H ss m"
    and absent: "\<forall>p < length ss. occ ss p \<longrightarrow> e_ref (ss ! p) \<noteq> r"
  obtains i n where "find_probe ss m r (length ss) (hash H r AND m) = Inr null_handle"
    and "erase_probe ss m r (length ss) (hash H r AND m) = Inl (IndexF NotIndexed)"
    and "insert_probe ss m r (length ss) (hash H r AND m) = Inr i"
    and "unat i < length ss" and "\<not> occ ss (unat i)" and "n < length ss"
    and "unat i = (home H m r + n) mod length ss"
    and "\<forall>d < n. occ ss ((home H m r + d) mod length ss)"
proof -
  let ?N = "length ss" and ?i = "hash H r AND m"
  have sz: "sized ss m" and ex: "\<exists>e < ?N. \<not> occ ss e" using inv by (auto simp: table_inv_def)
  have i: "unat ?i < ?N" using home_less [OF sz] by (simp add: home_def)
  obtain n where n: "n < ?N" "\<not> occ ss ((unat ?i + n) mod ?N)"
    "\<forall>d < n. occ ss ((unat ?i + d) mod ?N)"
    by (rule first_empty [OF i ex])
  have "\<forall>d < n. occ ss ((unat ?i + d) mod ?N) \<and> e_ref (ss ! ((unat ?i + d) mod ?N)) \<noteq> r"
    using n(3) absent sized_pos [OF sz] by simp
  from probe_walk [OF sz i less_imp_le [OF n(1)] this]
  obtain i' where i': "unat i' = (unat ?i + n) mod ?N"
    "find_probe ss m r ?N ?i = find_probe ss m r (?N - n) i'"
    "erase_probe ss m r ?N ?i = erase_probe ss m r (?N - n) i'"
    "insert_probe ss m r ?N ?i = insert_probe ss m r (?N - n) i'"
    by auto
  obtain f where f: "?N - n = Suc f" using n(1) by (cases "?N - n") auto
  have i'N: "unat i' < ?N" using i'(1) sized_pos [OF sz] by simp
  show ?thesis
    by (rule that [of i' n])
      (use i' i'N f n in \<open>simp_all add: occ_def home_def\<close>)
qed

section \<open>Lookup\<close>

lemma oi_inv_distinct: "oi_inv H ix \<Longrightarrow> distinct_refs (ix_slots ix)"
  by (simp add: oi_inv_def table_inv_def)

lemma oi_find_run:
  assumes "oi_inv H ix"
  shows "oi_find H ix r = Inr (case oi_map ix r of None \<Rightarrow> null_handle | Some h \<Rightarrow> h)"
proof (cases "oi_map ix r")
  case None
  then have "\<forall>p < length (ix_slots ix). occ (ix_slots ix) p \<longrightarrow> e_ref (ix_slots ix ! p) \<noteq> r"
    by (simp add: oi_map_None)
  with None assms show ?thesis
    by (auto simp: oi_find_def oi_inv_def elim!: probe_miss)
next
  case (Some h)
  then obtain p where "p < length (ix_slots ix)" "occ (ix_slots ix) p"
    "e_ref (ix_slots ix ! p) = r" "e_handle (ix_slots ix ! p) = h"
    using oi_map_Some [OF oi_inv_distinct [OF assms]] by blast
  with Some assms probe_hit(1) [of H "ix_slots ix" "ix_mask ix" p] show ?thesis
    by (simp add: oi_find_def oi_inv_def)
qed

lemma oi_map_not_null: "oi_map ix r = Some h \<Longrightarrow> \<not> is_null h"
  by (auto simp: oi_map_def find_Some_iff)

lemma oi_live_card:
  assumes "oi_inv H ix"
  shows "unat (oi_size ix) = card (dom (oi_map ix))" and "finite (dom (oi_map ix))"
proof -
  let ?ss = "ix_slots ix"
  have dis: "distinct_refs ?ss" using assms by (rule oi_inv_distinct)
  have "bij_betw (\<lambda>p. e_ref (?ss ! p)) (occupied ?ss) (dom (oi_map ix))"
  proof (rule bij_betw_imageI)
    show "inj_on (\<lambda>p. e_ref (?ss ! p)) (occupied ?ss)"
      using dis by (auto simp: inj_on_def occupied_def distinct_refs_def)
    show "(\<lambda>p. e_ref (?ss ! p)) ` occupied ?ss = dom (oi_map ix)"
      using oi_map_Some [OF dis] by (fastforce simp: occupied_def image_iff)
  qed
  then show "unat (oi_size ix) = card (dom (oi_map ix))" and "finite (dom (oi_map ix))"
    using assms bij_betw_same_card bij_betw_finite
    by (auto simp: oi_size_def oi_inv_def)
qed

section \<open>Insertion\<close>

lemma occupied_grow:
  assumes "i < length ss" and "\<not> occ ss i" and "\<not> is_null h"
  shows "occupied (ss[i := \<lparr>e_ref = r, e_handle = h\<rparr>]) = insert i (occupied ss)"
    and "i \<notin> occupied ss"
  using assms by (auto simp: occupied_def occ_def nth_list_update_if split: if_splits)

lemma reach_mono:
  assumes "reach ss h p" and "length ss' = length ss"
    and "\<And>q. q < length ss \<Longrightarrow> occ ss q \<Longrightarrow> occ ss' q"
  shows "reach ss' h p"
  using assms unfolding reach_def
  by (metis mod_less_divisor gr_implies_not0 not_gr_zero)

lemma table_insert:
  assumes inv: "table_inv H ss m" and i: "i < length ss" "\<not> occ ss i"
    and n: "n < length ss" "i = (home H m r + n) mod length ss"
      "\<forall>d < n. occ ss ((home H m r + d) mod length ss)"
    and h: "\<not> is_null h" and absent: "\<forall>p < length ss. occ ss p \<longrightarrow> e_ref (ss ! p) \<noteq> r"
    and more: "Suc (card (occupied ss)) < length ss"
  shows "table_inv H (ss[i := \<lparr>e_ref = r, e_handle = h\<rparr>]) m"
proof -
  let ?ss = "ss[i := \<lparr>e_ref = r, e_handle = h\<rparr>]" and ?N = "length ss"
  have at: "?ss ! p = (if p = i then \<lparr>e_ref = r, e_handle = h\<rparr> else ss ! p)" for p
    using i by (simp add: nth_list_update_if)
  have occ': "occ ?ss p \<longleftrightarrow> p = i \<or> occ ss p" for p
    using h by (auto simp: occ_def at)
  have "reach ?ss (home H m (e_ref (?ss ! p))) p" if p: "p < ?N" "occ ?ss p" for p
  proof (cases "p = i")
    case True
    have "reach ?ss (home H m r) i"
      unfolding reach_def
      by (rule exI [of _ n]) (use n(1,3) n(2) [symmetric] in \<open>simp add: occ'\<close>)
    with True show ?thesis by (simp add: at)
  next
    case False
    with p have "reach ss (home H m (e_ref (ss ! p))) p"
      using inv by (simp add: occ' table_inv_def)
    then have "reach ?ss (home H m (e_ref (ss ! p))) p"
      by (rule reach_mono) (simp_all add: occ')
    with False show ?thesis by (simp add: at)
  qed
  moreover have "\<exists>e < ?N. \<not> occ ?ss e"
  proof (rule ccontr)
    assume "\<not> (\<exists>e < ?N. \<not> occ ?ss e)"
    then have "{..<?N} \<subseteq> occupied ?ss" by (auto simp: occupied_def)
    then have "?N \<le> card (occupied ?ss)"
      by (metis card_lessThan card_mono finite_occupied)
    moreover have "card (occupied ?ss) = Suc (card (occupied ss))"
      using occupied_grow(1) [OF i h, of r] occupied_grow(2) [OF i h] by simp
    ultimately show False using more by simp
  qed
  moreover have "distinct_refs ?ss"
    using inv absent by (simp add: distinct_refs_def table_inv_def at occ') metis
  ultimately show ?thesis using inv by (simp add: table_inv_def sized_def)
qed

lemma oi_room_word:
  assumes "oi_inv H ix"
  shows "unat (ix_live ix * 2) < length (ix_slots ix) \<longleftrightarrow> oi_room ix"
    and "oi_room ix \<Longrightarrow> unat (ix_live ix + 1) = Suc (unat (ix_live ix))"
proof -
  have "length (ix_slots ix) < 2 ^ 32"
    using assms sized_bound by (auto simp: oi_inv_def table_inv_def)
  moreover have "2 * unat (ix_live ix) \<le> length (ix_slots ix)"
    using assms by (simp add: oi_inv_def)
  ultimately have "unat (ix_live ix * 2) = 2 * unat (ix_live ix)"
    and "Suc (unat (ix_live ix)) < 2 ^ 32 \<or> \<not> oi_room ix"
    by (auto simp: unat_word_ariths oi_room_def)
  then show "unat (ix_live ix * 2) < length (ix_slots ix) \<longleftrightarrow> oi_room ix"
    and "oi_room ix \<Longrightarrow> unat (ix_live ix + 1) = Suc (unat (ix_live ix))"
    by (auto simp: oi_room_def intro: unat_plus_one)
qed

lemma oi_insert_run:
  assumes inv: "oi_inv H ix" and h: "\<not> is_null h" and room: "oi_room ix" and new: "oi_map ix r = None"
  obtains ix' where "oi_insert H ix r h = Inr ix'" and "oi_inv H ix'"
    and "oi_map ix' = (oi_map ix)(r \<mapsto> h)"
    and "unat (ix_live ix') = Suc (unat (ix_live ix))"
    and "length (ix_slots ix') = length (ix_slots ix)"
proof -
  let ?ss = "ix_slots ix" and ?m = "ix_mask ix"
  have tab: "table_inv H ?ss ?m" and cnt: "unat (ix_live ix) = card (occupied ?ss)"
    using inv by (auto simp: oi_inv_def)
  have absent: "\<forall>p < length ?ss. occ ?ss p \<longrightarrow> e_ref (?ss ! p) \<noteq> r"
    using new by (simp add: oi_map_None)
  obtain i n where probe: "insert_probe ?ss ?m r (length ?ss) (hash H r AND ?m) = Inr i"
    and i: "unat i < length ?ss" "\<not> occ ?ss (unat i)"
    and n: "n < length ?ss" "unat i = (home H ?m r + n) mod length ?ss"
      "\<forall>d < n. occ ?ss ((home H ?m r + d) mod length ?ss)"
    by (rule probe_miss [OF tab absent])
  let ?ss' = "?ss[unat i := \<lparr>e_ref = r, e_handle = h\<rparr>]"
  let ?ix' = "ix\<lparr>ix_slots := ?ss', ix_live := ix_live ix + 1, ix_inserts := ix_inserts ix + 1\<rparr>"
  have even: "even (length ?ss)" using tab sized_even by (auto simp: table_inv_def)
  have half: "2 * Suc (unat (ix_live ix)) \<le> length ?ss"
    using room even by (auto simp: oi_room_def elim!: evenE)
  have nz: "2 \<le> length ?ss" using half by simp
  have tab': "table_inv H ?ss' ?m"
  proof (rule table_insert [OF tab i n h absent])
    show "Suc (card (occupied ?ss)) < length ?ss"
      using half cnt nz by (cases "unat (ix_live ix)") auto
  qed
  have live: "unat (ix_live ix + 1) = Suc (unat (ix_live ix))"
    using oi_room_word(2) [OF inv room] .
  have inv': "oi_inv H ?ix'"
    using tab' live half cnt occupied_grow(1) [OF i h, of r] occupied_grow(2) [OF i h] by (simp add: oi_inv_def)
  have at: "?ss' ! p = (if p = unat i then \<lparr>e_ref = r, e_handle = h\<rparr> else ?ss ! p)" for p
    using i by (simp add: nth_list_update_if)
  have occ': "occ ?ss' p \<longleftrightarrow> p = unat i \<or> occ ?ss p" for p
    using h by (auto simp: occ_def at)
  have dis': "distinct_refs (ix_slots ?ix')" using inv' by (rule oi_inv_distinct)
  have "oi_map ?ix' x = Some y \<longleftrightarrow> ((oi_map ix)(r \<mapsto> h)) x = Some y" for x y
    unfolding oi_map_Some [OF dis']
    using oi_map_Some [OF oi_inv_distinct [OF inv], of x y] i absent
    by (simp add: at occ') metis
  then have "oi_map ?ix' = (oi_map ix)(r \<mapsto> h)"
    by (intro ext) (metis not_None_eq)
  moreover have "oi_insert H ix r h = Inr ?ix'"
    using h room probe oi_room_word(1) [OF inv] by (simp add: oi_insert_def)
  ultimately show ?thesis
    using inv' live by (intro that [of ?ix']) simp_all
qed

lemma oi_insert_twice:
  assumes inv: "oi_inv H ix" and h: "\<not> is_null h" and room: "oi_room ix" and "oi_map ix r = Some g"
  shows "oi_insert H ix r h = Inl (IndexF IndexedTwice)"
proof -
  obtain p where "p < length (ix_slots ix)" "occ (ix_slots ix) p" "e_ref (ix_slots ix ! p) = r"
    using assms(4) oi_map_Some [OF oi_inv_distinct [OF inv]] by blast
  then show ?thesis
    using probe_hit(3) [of H "ix_slots ix" "ix_mask ix" p] inv h room oi_room_word(1) [OF inv]
    by (simp add: oi_insert_def oi_inv_def)
qed

lemma oi_insert_full:
  assumes "oi_inv H ix" and "\<not> is_null h" and "\<not> oi_room ix"
  shows "oi_insert H ix r h = Inl (IndexF IndexHalfFull)"
  using assms oi_room_word(1) [OF assms(1)] by (simp add: oi_insert_def)

end
