(* ===== verification/Order_Index_Erase.thy ===== *)
theory Order_Index_Erase
  imports Order_Index_Find
begin

text \<open>
  Erasure by backward shift keeps the table invariant: the proof unrolls the circular
  table at an empty slot \<open>e\<close>, where a run of occupied slots is an interval and an entry's
  ideal slot lies at or before the entry. Also construction and \<open>validate\<close>.
\<close>

section \<open>Coordinates from an empty slot\<close>

definition pos :: "entry list \<Rightarrow> nat \<Rightarrow> nat \<Rightarrow> nat" where
  "pos ss e t = (e + t) mod length ss"

lemma pos_if:
  assumes "e < length ss" and "t \<le> length ss"
  shows "pos ss e t = (if e + t < length ss then e + t else e + t - length ss)"
  using assms by (auto simp: pos_def mod_if)

lemma pos_less: "e < length ss \<Longrightarrow> pos ss e t < length ss"
  unfolding pos_def by (rule mod_less_divisor) linarith

lemma pos_inj:
  "t < length ss \<Longrightarrow> s < length ss \<Longrightarrow> pos ss e t = pos ss e s \<longleftrightarrow> t = s"
  using mod_add_inj [of t "length ss" s e] by (auto simp: pos_def)

lemma pos_surj: "e < length ss \<Longrightarrow> p < length ss \<Longrightarrow> \<exists>t < length ss. p = pos ss e t"
  using mod_reaches [of e "length ss" p] by (auto simp: pos_def)

lemma pos_Suc: "Suc (pos ss e t) mod length ss = pos ss e (Suc t)"
  by (simp add: pos_def mod_simps)

text \<open>
  \<open>erase\<close> decides whether an entry stays by comparing positions circularly; unrolled, an
  entry stays when its ideal slot lies after the hole.
\<close>

lemma stays_iff:
  assumes "e < length ss" and "ti < t" and "t < length ss" and "h \<le> t"
  shows "(if pos ss e ti \<le> pos ss e t
          then pos ss e ti < pos ss e h \<and> pos ss e h \<le> pos ss e t
          else pos ss e ti < pos ss e h \<or> pos ss e h \<le> pos ss e t) \<longleftrightarrow> ti < h"
  using assms pos_if [of e ss ti] pos_if [of e ss t] pos_if [of e ss h]
  by (simp split: if_splits) linarith+

text \<open>A run: the entry at \<open>t\<close> is reached from its ideal slot, the hole \<open>ti\<close> aside.\<close>

definition run_to :: "index_hash \<Rightarrow> entry list \<Rightarrow> u64 \<Rightarrow> nat \<Rightarrow> nat \<Rightarrow> nat \<Rightarrow> nat \<Rightarrow> bool" where
  "run_to H ss m e ti t h \<longleftrightarrow> 0 < h \<and> h \<le> t \<and> home H m (e_ref (ss ! pos ss e t)) = pos ss e h \<and>
     (\<forall>d. h \<le> d \<longrightarrow> d < t \<longrightarrow> d = ti \<or> occ ss (pos ss e d))"

lemma reach_run:
  assumes "reach ss (home H m (e_ref (ss ! pos ss e t))) (pos ss e t)"
    and e: "e < length ss" "\<not> occ ss e" and t: "t < length ss" "occ ss (pos ss e t)"
    and home: "home H m (e_ref (ss ! pos ss e t)) < length ss"
  shows "\<exists>h. run_to H ss m e ti t h"
proof -
  let ?N = "length ss"
  obtain h where h: "h < ?N" "home H m (e_ref (ss ! pos ss e t)) = pos ss e h"
    using pos_surj [OF e(1) home] by blast
  obtain n where n: "n < ?N" "pos ss e t = (pos ss e h + n) mod ?N"
    "\<forall>d < n. occ ss ((pos ss e h + d) mod ?N)"
    using assms(1) h(2) by (auto simp: reach_def)
  have at: "(pos ss e h + d) mod ?N = pos ss e (h + d)" for d
    by (simp add: pos_def mod_simps add.assoc)
  have wrap: "pos ss e ?N = e" using e(1) by (simp add: pos_def)
  have t0: "0 < t"
  proof (rule ccontr)
    assume "\<not> 0 < t"
    with t(2) e show False by (simp add: pos_def)
  qed
  have hn: "h + n < ?N"
  proof (rule ccontr)
    assume "\<not> h + n < ?N"
    then have le: "?N \<le> h + n" by simp
    show False
    proof (cases "?N = h + n")
      case True
      then have "pos ss e t = e" using n(2) at wrap by metis
      with t(2) e(2) show False by simp
    next
      case False
      with le h(1) have "?N - h < n" by linarith
      then have "occ ss (pos ss e (h + (?N - h)))" using n(3) at by metis
      with h(1) wrap e(2) show False by simp
    qed
  qed
  have "pos ss e t = pos ss e (h + n)" using n(2) at by simp
  then have th: "t = h + n" using pos_inj [OF t(1) hn] by simp
  have "0 < h"
  proof (rule ccontr)
    assume "\<not> 0 < h"
    then have "occ ss (pos ss e 0)" using n(3) at t0 th by (metis add_0 neq0_conv)
    with e show False by (simp add: pos_def)
  qed
  moreover have "occ ss (pos ss e d)" if "h \<le> d" "d < t" for d
    using n(3) at [of "d - h"] that th by (metis add_less_cancel_left le_add_diff_inverse)
  ultimately show ?thesis
    using h(2) th by (auto simp: run_to_def)
qed

lemma run_reach:
  assumes run: "run_to H ss m e ti t h" and e: "e < length ss" and t: "t < length ss"
    and no_hole: "\<not> (h \<le> ti \<and> ti < t)"
  shows "reach ss (home H m (e_ref (ss ! pos ss e t))) (pos ss e t)"
proof -
  have h: "h \<le> t" and home: "home H m (e_ref (ss ! pos ss e t)) = pos ss e h"
    and occ: "\<And>d. h \<le> d \<Longrightarrow> d < t \<Longrightarrow> occ ss (pos ss e d)"
    using run no_hole by (auto simp: run_to_def)
  have at: "(pos ss e h + d) mod length ss = pos ss e (h + d)" for d
    by (simp add: pos_def mod_simps add.assoc)
  have "pos ss e t = (pos ss e h + (t - h)) mod length ss"
    using at [of "t - h"] h by simp
  moreover have "\<forall>d < t - h. occ ss ((pos ss e h + d) mod length ss)"
    using occ by (simp add: at)
  moreover have "t - h < length ss" using t by simp
  ultimately show ?thesis
    unfolding reach_def home by (intro exI [of _ "t - h"] conjI)
qed

section \<open>The loop invariant\<close>

definition holds :: "entry list \<Rightarrow> order_ref \<Rightarrow> order_handle \<Rightarrow> bool" where
  "holds ss r h \<longleftrightarrow> (\<exists>p < length ss. occ ss p \<and> e_ref (ss ! p) = r \<and> e_handle (ss ! p) = h)"

definition hole_inv :: "index_hash \<Rightarrow> entry list \<Rightarrow> u64 \<Rightarrow> nat \<Rightarrow> nat \<Rightarrow> nat \<Rightarrow> bool" where
  "hole_inv H ss m e ti tj \<longleftrightarrow>
     sized ss m \<and> e < length ss \<and> \<not> occ ss e \<and> 0 < ti \<and> ti \<le> tj \<and> tj < length ss \<and>
     \<not> occ ss (pos ss e ti) \<and> distinct_refs ss \<and>
     (\<forall>t. ti < t \<longrightarrow> t \<le> tj \<longrightarrow> occ ss (pos ss e t)) \<and>
     (\<forall>t < length ss. occ ss (pos ss e t) \<longrightarrow>
        (\<exists>h. run_to H ss m e ti t h \<and> (ti < t \<longrightarrow> t \<le> tj \<longrightarrow> ti < h)))"

lemma oi_map_holds:
  assumes "distinct_refs (ix_slots ix)"
  shows "oi_map ix r = Some h \<longleftrightarrow> holds (ix_slots ix) r h"
  using oi_map_Some [OF assms] by (simp add: holds_def)

lemma hole_stop:
  assumes inv: "hole_inv H ss m e ti tj" and stop: "\<not> occ ss (pos ss e (Suc tj))"
  shows "table_inv H ss m"
proof -
  let ?N = "length ss"
  have e: "e < ?N" "\<not> occ ss e" and tij: "ti \<le> tj"
    and ent: "\<And>t. t < ?N \<Longrightarrow> occ ss (pos ss e t) \<Longrightarrow>
      \<exists>h. run_to H ss m e ti t h \<and> (ti < t \<longrightarrow> t \<le> tj \<longrightarrow> ti < h)"
    using inv by (auto simp: hole_inv_def)
  have "reach ss (home H m (e_ref (ss ! p))) p" if p: "p < ?N" "occ ss p" for p
  proof -
    obtain t where t: "t < ?N" "p = pos ss e t" using pos_surj [OF e(1) p(1)] by blast
    obtain h where h: "run_to H ss m e ti t h" "ti < t \<longrightarrow> t \<le> tj \<longrightarrow> ti < h"
      using ent [OF t(1)] t(2) p(2) by auto
    have "\<not> (h \<le> ti \<and> ti < t)"
    proof
      assume hole: "h \<le> ti \<and> ti < t"
      with h(2) have "tj < t" by auto
      moreover have "t \<noteq> Suc tj" using stop p(2) t(2) by auto
      ultimately have "Suc tj < t" by simp
      moreover have "h \<le> Suc tj" "Suc tj \<noteq> ti" using hole tij by simp_all
      ultimately have "occ ss (pos ss e (Suc tj))" using h(1) by (auto simp: run_to_def)
      with stop show False by simp
    qed
    with h(1) e(1) t show ?thesis by (simp add: run_reach)
  qed
  with inv show ?thesis by (auto simp: hole_inv_def table_inv_def)
qed

lemma hole_pass:
  assumes inv: "hole_inv H ss m e ti tj" and t: "Suc tj < length ss" "occ ss (pos ss e (Suc tj))"
    and h: "run_to H ss m e ti (Suc tj) h" "ti < h"
  shows "hole_inv H ss m e ti (Suc tj)"
proof -
  have ent: "\<exists>h. run_to H ss m e ti s h \<and> (ti < s \<longrightarrow> s \<le> Suc tj \<longrightarrow> ti < h)"
    if "s < length ss" "occ ss (pos ss e s)" for s
  proof (cases "s = Suc tj")
    case True
    with h show ?thesis by blast
  next
    case False
    then have "s \<le> Suc tj \<longleftrightarrow> s \<le> tj" by (simp add: le_Suc_eq)
    with inv that show ?thesis by (simp add: hole_inv_def)
  qed
  have "occ ss (pos ss e s)" if "ti < s" "s \<le> Suc tj" for s
    using inv t(2) that by (cases "s = Suc tj") (auto simp: hole_inv_def)
  with inv t ent show ?thesis by (simp add: hole_inv_def)
qed

text \<open>Moving the entry at \<open>t\<close> into the hole, which leaves the hole at \<open>t\<close>.\<close>

definition shift_one :: "entry list \<Rightarrow> nat \<Rightarrow> nat \<Rightarrow> entry list" where
  "shift_one ss p q = (let ss' = ss[p := ss ! q] in ss'[q := (ss' ! q)\<lparr>e_handle := null_handle\<rparr>])"

lemma fill_at:
  assumes "p < length ss" and "q < length ss" and "p \<noteq> q"
  shows "length (shift_one ss p q) = length ss"
    and "x < length ss \<Longrightarrow> occ (shift_one ss p q) x \<longleftrightarrow> x \<noteq> q \<and> (if x = p then occ ss q else occ ss x)"
    and "x \<noteq> q \<Longrightarrow> shift_one ss p q ! x = (if x = p then ss ! q else ss ! x)"
  using assms by (auto simp: shift_one_def Let_def occ_def nth_list_update_if)

lemma fill_holds:
  assumes "p < length ss" and "q < length ss" and "p \<noteq> q" and "\<not> occ ss p" and "occ ss q"
  shows "holds (shift_one ss p q) r h \<longleftrightarrow> holds ss r h"
proof
  assume "holds (shift_one ss p q) r h"
  then show "holds ss r h"
    using assms by (auto simp: holds_def fill_at split: if_splits)
next
  assume "holds ss r h"
  then obtain x where x: "x < length ss" "occ ss x" "e_ref (ss ! x) = r" "e_handle (ss ! x) = h"
    by (auto simp: holds_def)
  show "holds (shift_one ss p q) r h"
    unfolding holds_def
    by (rule exI [of _ "if x = q then p else x"]) (use x assms in \<open>auto simp: fill_at\<close>)
qed

lemma fill_distinct:
  assumes "p < length ss" and "q < length ss" and "p \<noteq> q" and "\<not> occ ss p" and "occ ss q"
    and "distinct_refs ss"
  shows "distinct_refs (shift_one ss p q)"
proof -
  let ?f = "\<lambda>x. if x = p then q else x"
  have at: "x \<noteq> q \<and> occ ss (?f x) \<and> e_ref (shift_one ss p q ! x) = e_ref (ss ! ?f x) \<and> ?f x < length ss"
    if "x < length ss" "occ (shift_one ss p q) x" for x
    using that assms(1-5) by (auto simp: fill_at split: if_splits)
  have "x = y" if "x < length ss" "y < length ss" "occ (shift_one ss p q) x" "occ (shift_one ss p q) y"
    "e_ref (shift_one ss p q ! x) = e_ref (shift_one ss p q ! y)" for x y
  proof -
    have "?f x = ?f y"
      using assms(6) at [OF that(1,3)] at [OF that(2,4)] that(5) unfolding distinct_refs_def by metis
    then show ?thesis
      using at [OF that(1,3)] at [OF that(2,4)] by (auto split: if_splits)
  qed
  then show ?thesis using fill_at(1) [OF assms(1-3)] by (simp add: distinct_refs_def)
qed

lemma hole_move:
  assumes inv: "hole_inv H ss m e ti tj" and t: "Suc tj < length ss" "occ ss (pos ss e (Suc tj))"
    and h: "run_to H ss m e ti (Suc tj) h" "h \<le> ti"
  shows "hole_inv H (shift_one ss (pos ss e ti) (pos ss e (Suc tj))) m e (Suc tj) (Suc tj)"
proof -
  let ?N = "length ss" and ?t = "Suc tj"
  let ?ss = "shift_one ss (pos ss e ti) (pos ss e ?t)"
  have sz: "sized ss m" and e: "e < ?N" "\<not> occ ss e" and tij: "ti \<le> tj" and ti: "0 < ti"
    and hole: "\<not> occ ss (pos ss e ti)" and dis: "distinct_refs ss"
    and ent: "\<And>s. s < ?N \<Longrightarrow> occ ss (pos ss e s) \<Longrightarrow> \<exists>h. run_to H ss m e ti s h"
    using inv by (auto simp: hole_inv_def)
  have pl: "pos ss e s < ?N" for s using e(1) by (rule pos_less)
  have ne: "pos ss e ti \<noteq> pos ss e ?t" using pos_inj [of ti ss ?t e] t tij by simp
  note at = fill_at [OF pl [of ti] pl [of ?t] ne]
  have pos': "pos ?ss e s = pos ss e s" for s using at(1) unfolding pos_def by simp
  have occ': "occ ?ss (pos ss e s) \<longleftrightarrow> s \<noteq> ?t \<and> (s = ti \<or> occ ss (pos ss e s))" if "s < ?N" for s
    using at(2) [OF pl [of s]] pos_inj [OF that, of _ e] t tij by auto
  have e0: "pos ss e 0 = e" using e by (simp add: pos_def)
  have "\<exists>h. run_to H ?ss m e ?t s h" if s: "s < ?N" "occ ?ss (pos ss e s)" for s
  proof (cases "s = ti")
    case True
    have "?ss ! pos ss e ti = ss ! pos ss e ?t" using at(3) ne by simp
    moreover have "occ ?ss (pos ss e d)" if "h \<le> d" "d < ti" for d
      using h(1) that tij t occ' [of d] by (auto simp: run_to_def)
    ultimately have "run_to H ?ss m e ?t ti h"
      using h by (simp add: run_to_def pos')
    with True show ?thesis by blast
  next
    case False
    with s occ' [OF s(1)] have "s \<noteq> ?t" "occ ss (pos ss e s)" by auto
    then obtain g where g: "run_to H ss m e ti s g" using ent s(1) by blast
    have "?ss ! pos ss e s = ss ! pos ss e s"
      using at(3) [of "pos ss e s"] pos_inj [OF s(1), of _ e] \<open>s \<noteq> ?t\<close> False t tij by simp
    moreover have "d = ?t \<or> occ ?ss (pos ss e d)" if "g \<le> d" "d < s" for d
      using g that s(1) occ' [of d] by (auto simp: run_to_def)
    ultimately have "run_to H ?ss m e ?t s g"
      using g by (simp add: run_to_def pos')
    then show ?thesis by blast
  qed
  moreover have "0 < ?N" using e(1) by linarith
  then have "\<not> occ ?ss e" using occ' [of 0] e(2) e0 ti by simp
  moreover have "\<not> occ ?ss (pos ss e ?t)" using occ' [of ?t] t by simp
  moreover have "distinct_refs ?ss" by (rule fill_distinct [OF pl pl ne hole t(2) dis])
  moreover have "sized ?ss m" using sz at(1) by (simp add: sized_def)
  ultimately show ?thesis
    using t e unfolding hole_inv_def by (simp add: at(1) pos')
qed

lemma clear_fill: "clear_slot (ss[unat i := ss ! unat j]) j = shift_one ss (unat i) (unat j)"
  by (simp add: clear_slot_def shift_one_def Let_def)

lemma shift_back_run:
  assumes "hole_inv H ss m e ti tj" and "unat i = pos ss e ti" and "unat j = pos ss e tj"
    and "length ss \<le> tj + fuel" and "0 < fuel"
  shows "\<exists>ss' moved'. shift_back H ss m fuel i j moved = Inr (ss', moved') \<and>
    table_inv H ss' m \<and> length ss' = length ss \<and> (\<forall>r h. holds ss' r h \<longleftrightarrow> holds ss r h)"
  using assms
proof (induction fuel arbitrary: ss ti tj i j moved)
  case 0
  then show ?case by simp
next
  case (Suc fuel)
  let ?j = "(j + 1) AND m" and ?t = "Suc tj" and ?N = "length ss"
  have sz: "sized ss m" and e: "e < ?N" "\<not> occ ss e" and tij: "ti \<le> tj" and tj: "tj < ?N"
    and hole: "\<not> occ ss (pos ss e ti)"
    and ent: "\<And>s. s < ?N \<Longrightarrow> occ ss (pos ss e s) \<Longrightarrow> \<exists>h. run_to H ss m e ti s h"
    using Suc.prems(1) by (auto simp: hole_inv_def)
  have pl: "pos ss e s < ?N" for s using e(1) by (rule pos_less)
  have uj: "unat ?j = pos ss e ?t"
    using step_pos [OF sz, of j] pl Suc.prems(3) pos_Suc by simp
  show ?case
  proof (cases "occ ss (pos ss e ?t)")
    case False
    with hole_stop [OF Suc.prems(1)] show ?thesis by (simp add: uj occ_def)
  next
    case True
    have tN: "?t < ?N"
    proof (rule ccontr)
      assume "\<not> ?t < ?N"
      with tj have "?t = ?N" by simp
      with True e show False by (simp add: pos_def)
    qed
    obtain h where h: "run_to H ss m e ti ?t h" using ent [OF tN True] by blast
    let ?k = "hash H (e_ref (ss ! unat ?j)) AND m"
    have uk: "unat ?k = pos ss e h" using h by (simp add: run_to_def uj home_def)
    have stays: "(if i \<le> ?j then i < ?k \<and> ?k \<le> ?j else i < ?k \<or> ?k \<le> ?j) \<longleftrightarrow> ti < h"
      unfolding word_le_nat_alt word_less_nat_alt Suc.prems(2) uk [unfolded uj] uj
      by (rule stays_iff [OF e(1)]) (use tij tN h in \<open>auto simp: run_to_def\<close>)
    have f: "?N \<le> ?t + fuel" "0 < fuel" using Suc.prems(4) tN by simp_all
    show ?thesis
    proof (cases "ti < h")
      case True
      have step: "shift_back H ss m (Suc fuel) i j moved = shift_back H ss m fuel i ?j moved"
        using stays [unfolded uj] True \<open>occ ss (pos ss e ?t)\<close> by (simp add: occ_def Let_def uj)
      show ?thesis
        unfolding step
        by (rule Suc.IH [OF hole_pass [OF Suc.prems(1) tN \<open>occ ss (pos ss e ?t)\<close> h True] Suc.prems(2) uj f])
    next
      case False
      let ?ss = "shift_one ss (pos ss e ti) (pos ss e ?t)"
      have ne: "pos ss e ti \<noteq> pos ss e ?t" using pos_inj [of ti ss ?t e] tN tij by simp
      have step: "shift_back H ss m (Suc fuel) i j moved = shift_back H ?ss m fuel ?j ?j (moved + 1)"
        using stays [unfolded uj] False True clear_fill [of ss i ?j, unfolded uj] Suc.prems(2)
        by (simp add: occ_def Let_def uj)
      have len: "length ?ss = ?N" by (simp add: shift_one_def Let_def)
      have pos': "unat ?j = pos ?ss e ?t" using uj len by (simp add: pos_def)
      have hle: "h \<le> ti" using False by simp
      have "hole_inv H ?ss m e ?t ?t" by (rule hole_move [OF Suc.prems(1) tN True h hle])
      from Suc.IH [OF this pos' pos', of "moved + 1"] f len
      obtain ss' moved' where "shift_back H ?ss m fuel ?j ?j (moved + 1) = Inr (ss', moved')"
        "table_inv H ss' m" "length ss' = length ss" "\<forall>r g. holds ss' r g \<longleftrightarrow> holds ?ss r g"
        by auto
      then show ?thesis
        unfolding step using fill_holds [OF pl pl ne hole True] by simp
    qed
  qed
qed

section \<open>Erasure\<close>

lemma length_clear_slot [simp]: "length (clear_slot ss i) = length ss"
  by (simp add: clear_slot_def)

lemma card_occupied:
  assumes "distinct_refs ss"
  shows "card (occupied ss) = card {r. \<exists>h. holds ss r h}"
proof -
  have "bij_betw (\<lambda>p. e_ref (ss ! p)) (occupied ss) {r. \<exists>h. holds ss r h}"
  proof (rule bij_betw_imageI)
    show "inj_on (\<lambda>p. e_ref (ss ! p)) (occupied ss)"
      using assms by (auto simp: inj_on_def occupied_def distinct_refs_def)
    show "(\<lambda>p. e_ref (ss ! p)) ` occupied ss = {r. \<exists>h. holds ss r h}"
      by (auto simp: occupied_def holds_def)
  qed
  then show ?thesis by (rule bij_betw_same_card)
qed

lemma clear_hole:
  assumes inv: "table_inv H ss m" and i: "unat i < length ss" "occ ss (unat i)"
  shows "\<exists>e ti. hole_inv H (clear_slot ss i) m e ti ti \<and> unat i = pos (clear_slot ss i) e ti"
    and "holds (clear_slot ss i) r h \<longleftrightarrow> r \<noteq> e_ref (ss ! unat i) \<and> holds ss r h"
proof -
  let ?ss = "clear_slot ss i" and ?N = "length ss"
  have sz: "sized ss m" and dis: "distinct_refs ss"
    and rch: "\<And>p. p < ?N \<Longrightarrow> occ ss p \<Longrightarrow> reach ss (home H m (e_ref (ss ! p))) p"
    using inv by (auto simp: table_inv_def)
  have len: "length ?ss = ?N" by (simp add: clear_slot_def)
  have occ': "occ ?ss p \<longleftrightarrow> p \<noteq> unat i \<and> occ ss p" for p
    using i by (simp add: clear_slot_def occ_def nth_list_update_if)
  have ref: "e_ref (?ss ! p) = e_ref (ss ! p)" for p
    using i by (simp add: clear_slot_def nth_list_update_if)
  have at: "p \<noteq> unat i \<Longrightarrow> ?ss ! p = ss ! p" for p
    by (simp add: clear_slot_def)
  show "holds ?ss r h \<longleftrightarrow> r \<noteq> e_ref (ss ! unat i) \<and> holds ss r h"
    using dis i unfolding holds_def len occ' distinct_refs_def by (metis at)
  obtain e where e: "e < ?N" "\<not> occ ss e" using inv by (auto simp: table_inv_def)
  obtain ti where ti: "ti < ?N" "unat i = pos ss e ti" using pos_surj [OF e(1) i(1)] by blast
  have pos': "pos ?ss e t = pos ss e t" for t using len unfolding pos_def by simp
  have "0 < ti"
  proof (rule ccontr)
    assume "\<not> 0 < ti"
    with ti(2) e i(2) show False by (simp add: pos_def)
  qed
  moreover have "\<exists>h. run_to H ?ss m e ti t h" if t: "t < ?N" "occ ?ss (pos ss e t)" for t
  proof -
    have o': "occ ss (pos ss e t)" using t(2) by (simp add: occ')
    have "\<exists>h. run_to H ss m e ti t h"
      by (rule reach_run [OF rch [OF pos_less [OF e(1)] o'] e t(1) o' home_less [OF sz]])
    then obtain h where h: "run_to H ss m e ti t h" by blast
    have "run_to H ?ss m e ti t h"
      unfolding run_to_def pos' ref occ'
    proof (intro conjI allI impI)
      fix d assume d: "h \<le> d" "d < t"
      show "d = ti \<or> pos ss e d \<noteq> unat i \<and> occ ss (pos ss e d)"
        using h d t(1) ti pos_inj [of d ss ti e] by (auto simp: run_to_def)
    qed (use h in \<open>auto simp: run_to_def\<close>)
    then show ?thesis by blast
  qed
  moreover have "distinct_refs ?ss"
    using dis unfolding distinct_refs_def len occ' ref by blast
  moreover have "sized ?ss m" using sz by (simp add: sized_def len)
  ultimately have "hole_inv H ?ss m e ti ti"
    using e ti unfolding hole_inv_def len pos' occ' by auto
  with ti(2) show "\<exists>e ti. hole_inv H ?ss m e ti ti \<and> unat i = pos ?ss e ti"
    by (metis pos')
qed

lemma oi_erase_run:
  assumes inv: "oi_inv H ix" and r: "oi_map ix r = Some h"
  obtains ix' where "oi_erase H ix r = Inr ix'" and "oi_inv H ix'"
    and "oi_map ix' = (oi_map ix)(r := None)"
    and "unat (ix_live ix) = Suc (unat (ix_live ix'))"
    and "length (ix_slots ix') = length (ix_slots ix)"
proof -
  let ?ss = "ix_slots ix" and ?m = "ix_mask ix"
  have tab: "table_inv H ?ss ?m" and dis: "distinct_refs ?ss"
    and live: "unat (ix_live ix) = card (occupied ?ss)"
    using inv by (auto simp: oi_inv_def table_inv_def)
  obtain p where p: "p < length ?ss" "occ ?ss p" "e_ref (?ss ! p) = r"
    using r oi_map_Some [OF dis] by blast
  obtain i where i: "unat i = p" "erase_probe ?ss ?m r (length ?ss) (hash H r AND ?m) = Inr i"
    using probe_hit(2) [OF tab p(1,2)] p(3) by auto
  obtain e ti where hole: "hole_inv H (clear_slot ?ss i) ?m e ti ti" "unat i = pos (clear_slot ?ss i) e ti"
    using clear_hole(1) [OF tab, of i] p i(1) by blast
  obtain ss' moved where run: "shift_back H (clear_slot ?ss i) ?m (length ?ss) i i 0 = Inr (ss', moved)"
    "table_inv H ss' ?m" "length ss' = length ?ss"
    "\<forall>x y. holds ss' x y \<longleftrightarrow> holds (clear_slot ?ss i) x y"
    using shift_back_run [OF hole(1) hole(2) hole(2), of "length ?ss" 0] p(1)
    by force
  have holds': "holds ss' x y \<longleftrightarrow> x \<noteq> r \<and> holds ?ss x y" for x y
    using run(4) clear_hole(2) [OF tab, of i x y] p i(1) by simp
  let ?ix = "ix\<lparr>ix_slots := ss', ix_shifts := ix_shifts ix + moved,
    ix_longest_shift := (if ix_longest_shift ix < moved then moved else ix_longest_shift ix),
    ix_live := ix_live ix - 1\<rparr>"
  have dis': "distinct_refs ss'" using run(2) by (simp add: table_inv_def)
  have "{x. \<exists>y. holds ?ss x y} = insert r {x. \<exists>y. holds ss' x y}" and "r \<notin> {x. \<exists>y. holds ss' x y}"
    using holds' r oi_map_holds [OF dis] by blast+
  moreover have "finite {x. \<exists>y. holds ss' x y}"
    using finite_subset [of "{x. \<exists>y. holds ss' x y}" "(\<lambda>p. e_ref (ss' ! p)) ` occupied ss'"]
    by (auto simp: holds_def occupied_def)
  ultimately have card: "card (occupied ?ss) = Suc (card (occupied ss'))"
    by (simp add: card_occupied dis dis')
  then have live': "unat (ix_live ix - 1) = card (occupied ss')"
    using live unat_minus_one' [of "ix_live ix"] by force
  have inv': "oi_inv H ?ix"
    using run(2,3) live' live card inv by (simp add: oi_inv_def)
  have "oi_map ?ix x = Some y \<longleftrightarrow> ((oi_map ix)(r := None)) x = Some y" for x y
    using oi_map_holds [of ?ix x y] oi_map_holds [of ix x y] dis dis' holds' by simp
  then have "oi_map ?ix = (oi_map ix)(r := None)"
    by (intro ext) (metis not_None_eq)
  moreover have "oi_erase H ix r = Inr ?ix"
    using i(2) run(1) by (simp add: oi_erase_def erase_at_def)
  ultimately show ?thesis
    using inv' live live' card run(3) by (intro that [of ?ix]) simp_all
qed

lemma oi_erase_missing:
  assumes inv: "oi_inv H ix" and "oi_map ix r = None"
  shows "oi_erase H ix r = Inl (IndexF NotIndexed)"
proof -
  have "\<forall>p < length (ix_slots ix). occ (ix_slots ix) p \<longrightarrow> e_ref (ix_slots ix ! p) \<noteq> r"
    using assms(2) by (simp add: oi_map_None)
  then have "erase_probe (ix_slots ix) (ix_mask ix) r (length (ix_slots ix)) (hash H r AND ix_mask ix)
    = Inl (IndexF NotIndexed)"
    using inv by (auto simp: oi_inv_def elim!: probe_miss)
  then show ?thesis by (simp add: oi_erase_def)
qed

end
