(* ===== verification/Order_Index_Laws.thy ===== *)
theory Order_Index_Laws
  imports Order_Index_Erase
begin

text \<open>
  Construction and \<open>validate\<close> of the order index, and the interface \<open>ref_index\<close> the books
  use: a finite map from references to handles, with a refusal for each misuse.
\<close>

section \<open>Construction\<close>

lemma bit_ceil_from_power:
  "\<exists>k \<ge> j. bit_ceil_from (2 ^ j) n = 2 ^ k \<and> n \<le> 2 ^ k \<and> (j < k \<longrightarrow> 2 ^ k < 2 * n)"
proof (induction "n - 2 ^ j" arbitrary: j rule: less_induct)
  case less
  show ?case
  proof (cases "n \<le> 2 ^ j")
    case True
    then show ?thesis
      by (intro exI [of _ j]) (subst bit_ceil_from.simps, simp)
  next
    case False
    then have step: "bit_ceil_from (2 ^ j) n = bit_ceil_from (2 ^ Suc j) n"
      by (subst bit_ceil_from.simps) simp
    have "n - 2 ^ Suc j < n - 2 ^ j" using False by (intro diff_less_mono2) simp_all
    from less [OF this] obtain k where k: "Suc j \<le> k" "bit_ceil_from (2 ^ Suc j) n = 2 ^ k"
      "n \<le> 2 ^ k" "Suc j < k \<longrightarrow> 2 ^ k < 2 * n" by blast
    have "2 ^ k < 2 * n" using k False by (cases "Suc j = k") auto
    with k step show ?thesis by (intro exI [of _ k]) auto
  qed
qed

lemma unat_of_nat_small: "n < 2 ^ 32 \<Longrightarrow> unat (of_nat n :: u32) = n"
  by (simp add: unat_of_nat)

lemma bit_ceil_value:
  assumes "1 < unat w" and "unat w \<le> 2 ^ 31"
  obtains k where "0 < k" and "k < 32" and "unat (bit_ceil w) = 2 ^ k" and "unat w \<le> 2 ^ k"
proof -
  obtain k where k: "bit_ceil_from (2 ^ 0) (unat w) = 2 ^ k" "unat w \<le> 2 ^ k"
    "0 < k \<longrightarrow> 2 ^ k < 2 * unat w"
    using bit_ceil_from_power [of 0 "unat w"] by blast
  have "k \<noteq> 0" using k(2) assms(1) by (cases k) auto
  then have less: "(2::nat) ^ k < 2 ^ 32" using k(3) assms(2) by simp
  have "k < 32" by (rule power_less_imp_less_exp [OF _ less]) simp
  moreover have "unat (bit_ceil w) = 2 ^ k"
    using k(1) unat_of_nat_small [OF less] by (simp only: bit_ceil_def power_0)
  ultimately show ?thesis using k(2) \<open>k \<noteq> 0\<close> by (intro that) simp_all
qed

lemma oi_new_ok:
  assumes "unat hint \<le> 2 ^ 30"
  shows "oi_inv H (oi_new hint)" and "oi_map (oi_new hint) = Map.empty"
    and "unat (ix_live (oi_new hint)) = 0"
    and "2 * unat hint \<le> length (ix_slots (oi_new hint))"
proof -
  let ?w = "if hint < 8 then 16 else hint * 2"
  have dbl: "unat (hint * 2) = 2 * unat hint"
    using assms by (simp add: unat_word_ariths)
  have small: "hint < 8 \<longleftrightarrow> unat hint < 8" by (simp add: word_less_nat_alt)
  have "1 < unat ?w \<and> unat ?w \<le> 2 ^ 31 \<and> 2 * unat hint \<le> unat ?w"
  proof (cases "hint < 8")
    case True
    then show ?thesis using small by simp
  next
    case False
    then have "8 \<le> unat hint" using small by simp
    with False assms show ?thesis by (simp add: dbl)
  qed
  then obtain w where w: "w = ?w" "1 < unat w" "unat w \<le> 2 ^ 31" "2 * unat hint \<le> unat w" by blast
  obtain k where k: "0 < k" "k < 32" "unat (bit_ceil w) = 2 ^ k" "unat w \<le> 2 ^ k"
    by (rule bit_ceil_value [OF w(2,3)])
  have "ucast (bit_ceil w - 1) = (mask k :: u64)"
  proof (rule word_unat_eq_iff [THEN iffD2])
    have nz: "bit_ceil w \<noteq> 0" using k(3) by (metis power_not_zero unat_0 zero_neq_numeral)
    have "unat (bit_ceil w - 1) = 2 ^ k - 1"
      using unat_minus_one' [OF nz] k(3) by simp
    moreover have "(2::nat) ^ k < 2 ^ 32" using k(2) by (intro power_strict_increasing) simp_all
    moreover have "unat (mask k :: u64) = unat (of_nat (mask k) :: u64)" by (simp only: of_nat_mask_eq)
    then have "unat (mask k :: u64) = mask k"
      using k(2) by (simp add: unsigned_of_nat take_bit_of_mask del: of_nat_mask_eq)
    then have "unat (mask k :: u64) = 2 ^ k - 1" by (simp only: mask_eq_exp_minus_1)
    ultimately show "unat (ucast (bit_ceil w - 1) :: u64) = unat (mask k :: u64)"
      using k(2) by (simp add: unsigned_ucast_eq take_bit_nat_eq_self)
  qed
  then have new: "ix_slots (oi_new hint) = replicate (2 ^ k) blank_entry"
    "ix_mask (oi_new hint) = mask k" "ix_live (oi_new hint) = 0"
    using k(3) by (simp_all add: oi_new_def Let_def flip: w(1))
  have none: "\<not> occ (replicate (2 ^ k) blank_entry) p" if "p < 2 ^ k" for p
    using that by (simp add: occ_def blank_entry_def)
  then have "occupied (replicate (2 ^ k) blank_entry) = {}" by (auto simp: occupied_def)
  moreover have "table_inv H (replicate (2 ^ k) blank_entry) (mask k)"
    using none k none [of 0] by (auto simp: table_inv_def sized_def distinct_refs_def intro!: exI [of _ 0])
  ultimately show "oi_inv H (oi_new hint)" using new by (simp add: oi_inv_def)
  show "oi_map (oi_new hint) = Map.empty"
    using new none by (intro ext) (simp add: oi_map_None)
  show "unat (ix_live (oi_new hint)) = 0" using new by simp
  show "2 * unat hint \<le> length (ix_slots (oi_new hint))" using new k(4) w(4) by simp
qed

section \<open>Validation\<close>

lemma gap_walk_run:
  assumes "sized ss m" and "unat j < length ss" and "i = (unat j + n) mod length ss"
    and "n < length ss" and "n < fuel" and "\<forall>d < n. occ ss ((unat j + d) mod length ss)"
  shows "gap_walk ss m fuel j i = Inr ()"
  using assms(2-)
proof (induction n arbitrary: j fuel)
  case 0
  then show ?case by (cases fuel) auto
next
  case (Suc n)
  let ?j = "(j + 1) AND m"
  from Suc.prems obtain f where f: "fuel = Suc f" "n < f" by (cases fuel) auto
  have N0: "0 < length ss" using Suc.prems(1) by linarith
  have uj: "unat ?j = Suc (unat j) mod length ss" using assms(1) Suc.prems(1) by (rule step_pos)
  have shift: "(unat ?j + d) mod length ss = (unat j + Suc d) mod length ss" for d
    by (simp add: uj mod_simps)
  have "unat j \<noteq> i"
    using mod_add_inj [OF N0 Suc.prems(3), of "unat j"] Suc.prems(1,2) by auto
  moreover have "occ ss (unat j)"
    using Suc.prems(1,5) by (auto dest: spec [of _ 0])
  moreover have "gap_walk ss m f ?j i = Inr ()"
  proof (rule Suc.IH [OF _ _ _ f(2)])
    show "unat ?j < length ss" using sized_pos [OF assms(1)] by (simp add: uj)
    show "i = (unat ?j + n) mod length ss" using Suc.prems(2) shift by simp
    show "n < length ss" using Suc.prems(3) by simp
    show "\<forall>d < n. occ ss ((unat ?j + d) mod length ss)"
      using Suc.prems(5) by (intro allI impI) (drule_tac x = "Suc d" in spec, simp add: shift)
  qed
  ultimately show ?case by (simp add: f(1) occ_def)
qed

lemma oi_validate_inv:
  assumes inv: "oi_inv H ix"
  shows "oi_validate H ix = Inr ()"
proof -
  let ?ss = "ix_slots ix" and ?m = "ix_mask ix"
  have tab: "table_inv H ?ss ?m" and sz: "sized ?ss ?m" and live: "unat (ix_live ix) = card (occupied ?ss)"
    using inv by (auto simp: oi_inv_def table_inv_def)
  have "length (filter (\<lambda>e. \<not> is_null (e_handle e)) ?ss) = card (occupied ?ss)"
    by (simp add: length_filter_conv_card occupied_def occ_def)
  then have "of_nat (length (filter (\<lambda>e. \<not> is_null (e_handle e)) ?ss)) = ix_live ix"
    by (simp flip: live)
  moreover have "gap_walk ?ss ?m (length ?ss) (hash H (e_ref (?ss ! p)) AND ?m) p = Inr ()"
    if p: "p < length ?ss" "occ ?ss p" for p
  proof -
    obtain n where "n < length ?ss" "p = (home H ?m (e_ref (?ss ! p)) + n) mod length ?ss"
      "\<forall>d < n. occ ?ss ((home H ?m (e_ref (?ss ! p)) + d) mod length ?ss)"
      using tab p unfolding table_inv_def reach_def by blast
    then show ?thesis
      using sz home_less [OF sz, of H] by (intro gap_walk_run) (auto simp: home_def)
  qed
  then have "each (\<lambda>i. if is_null (e_handle (?ss ! i)) then Inr ()
      else gap_walk ?ss ?m (length ?ss) (hash H (e_ref (?ss ! i)) AND ?m) i) [0..<length ?ss] = Inr ()"
    by (intro each_ok) (simp add: occ_def)
  ultimately show ?thesis by (simp add: oi_validate_def Let_def)
qed

section \<open>The interface\<close>

locale ref_index =
  fixes find :: "'t \<Rightarrow> order_ref \<Rightarrow> failure + order_handle"
    and insert :: "'t \<Rightarrow> order_ref \<Rightarrow> order_handle \<Rightarrow> failure + 't"
    and erase :: "'t \<Rightarrow> order_ref \<Rightarrow> failure + 't"
    and content :: "'t \<Rightarrow> order_ref \<Rightarrow> order_handle option"
    and inv :: "'t \<Rightarrow> bool"
    and live :: "'t \<Rightarrow> nat"
    and cap :: "'t \<Rightarrow> nat"
  assumes find_law: "inv t \<Longrightarrow>
      find t r = Inr (case content t r of None \<Rightarrow> null_handle | Some h \<Rightarrow> h)"
    and not_null: "inv t \<Longrightarrow> content t r = Some h \<Longrightarrow> \<not> is_null h"
    and insert_law: "inv t \<Longrightarrow> \<not> is_null h \<Longrightarrow> 2 * live t < cap t \<Longrightarrow> content t r = None \<Longrightarrow>
      \<exists>t'. insert t r h = Inr t' \<and> inv t' \<and> content t' = (content t)(r \<mapsto> h) \<and>
        live t' = Suc (live t) \<and> cap t' = cap t"
    and erase_law: "inv t \<Longrightarrow> content t r = Some h \<Longrightarrow>
      \<exists>t'. erase t r = Inr t' \<and> inv t' \<and> content t' = (content t)(r := None) \<and>
        live t = Suc (live t') \<and> cap t' = cap t"
    and erase_missing: "inv t \<Longrightarrow> content t r = None \<Longrightarrow> erase t r = Inl (IndexF NotIndexed)"
begin

lemma find_null_iff: "inv t \<Longrightarrow> (\<exists>h. find t r = Inr h \<and> is_null h) \<longleftrightarrow> content t r = None"
  using not_null by (auto simp: find_law null_handle_def is_null_def split: option.splits)

text \<open>A reference added and deleted leaves the map as it was.\<close>

lemma insert_erase:
  assumes "inv t" and "\<not> is_null h" and "2 * live t < cap t" and "content t r = None"
  shows "\<exists>t' t''. insert t r h = Inr t' \<and> find t' r = Inr h \<and> erase t' r = Inr t'' \<and>
    inv t'' \<and> content t'' = content t \<and> live t'' = live t"
proof -
  obtain t' where t': "insert t r h = Inr t'" "inv t'" "content t' = (content t)(r \<mapsto> h)"
    "live t' = Suc (live t)" using insert_law [OF assms] by blast
  moreover obtain t'' where "erase t' r = Inr t''" "inv t''" "content t'' = (content t')(r := None)"
    "live t' = Suc (live t'')" using erase_law [of t' r h] t' by auto
  ultimately show ?thesis using find_law [OF t'(2), of r] assms(4) by (auto simp: fun_upd_idem)
qed

text \<open>Any number of distinct references fits while the table is less than half full.\<close>

lemma insert_many:
  assumes "inv t" and "distinct (map fst xs)" and "\<forall>(r, h) \<in> set xs. \<not> is_null h \<and> content t r = None"
    and "2 * (live t + length xs) \<le> cap t"
  shows "\<exists>t'. foldl (\<lambda>a (r, h). andthen a (\<lambda>u. insert u r h)) (Inr t) xs = Inr t' \<and> inv t' \<and>
    content t' = content t ++ map_of xs \<and> live t' = live t + length xs"
  using assms
proof (induction xs arbitrary: t)
  case Nil
  then show ?case by simp
next
  case (Cons x xs)
  obtain r h where x: "x = (r, h)" by force
  obtain u where u: "insert t r h = Inr u" "inv u" "content u = (content t)(r \<mapsto> h)"
    "live u = Suc (live t)" "cap u = cap t"
    using insert_law [of t h r] Cons.prems x by auto
  have "\<forall>(r, h) \<in> set xs. \<not> is_null h \<and> content u r = None"
    using Cons.prems(2,3) u(3) x by (force simp: image_iff)
  with Cons.IH [of u] Cons.prems u obtain t' where
    "foldl (\<lambda>a (r, h). andthen a (\<lambda>u. insert u r h)) (Inr u) xs = Inr t'" "inv t'"
    "content t' = content u ++ map_of xs" "live t' = live u + length xs"
    by (metis (no_types, lifting) add_Suc add_Suc_right distinct.simps(2) length_Cons list.simps(9))
  moreover have "(content t)(r \<mapsto> h) ++ map_of xs = content t ++ map_of (x # xs)"
    using Cons.prems(2) x by (simp add: map_add_upd_left dom_map_of_conv_image_fst)
  then have "content u ++ map_of xs = content t ++ map_of (x # xs)" by (simp only: u(3))
  ultimately show ?case
    using u(1,4) x by (intro exI [of _ t']) (simp del: map_of.simps)
qed

end

interpretation order_ix: ref_index "oi_find H" "oi_insert H" "oi_erase H" oi_map "oi_inv H"
  "\<lambda>ix. unat (ix_live ix)" "\<lambda>ix. length (ix_slots ix)" for H
proof unfold_locales
  fix t r h
  show "oi_inv H t \<Longrightarrow> oi_find H t r = Inr (case oi_map t r of None \<Rightarrow> null_handle | Some h \<Rightarrow> h)"
    by (rule oi_find_run)
  show "oi_map t r = Some h \<Longrightarrow> \<not> is_null h" by (rule oi_map_not_null)
  show "\<exists>t'. oi_insert H t r h = Inr t' \<and> oi_inv H t' \<and> oi_map t' = (oi_map t)(r \<mapsto> h) \<and>
      unat (ix_live t') = Suc (unat (ix_live t)) \<and> length (ix_slots t') = length (ix_slots t)"
    if "oi_inv H t" "\<not> is_null h" "2 * unat (ix_live t) < length (ix_slots t)" "oi_map t r = None"
    using oi_insert_run [of H t h r] that by (metis oi_room_def)
  show "\<exists>t'. oi_erase H t r = Inr t' \<and> oi_inv H t' \<and> oi_map t' = (oi_map t)(r := None) \<and>
      unat (ix_live t) = Suc (unat (ix_live t')) \<and> length (ix_slots t') = length (ix_slots t)"
    if "oi_inv H t" "oi_map t r = Some h"
    using oi_erase_run [OF that] by metis
  show "oi_inv H t \<Longrightarrow> oi_map t r = None \<Longrightarrow> oi_erase H t r = Inl (IndexF NotIndexed)"
    by (rule oi_erase_missing)
qed

section \<open>Runs of operations\<close>

text \<open>
  A table built for \<open>hint\<close> orders accepts any sequence of insertions and erasures that
  keeps at most \<open>hint\<close> references, each inserted when absent and erased when present.
\<close>

datatype index_op = Put order_ref order_handle | Drop order_ref

primrec index_run :: "index_hash \<Rightarrow> index_op list \<Rightarrow> order_index \<Rightarrow> failure + order_index" where
  "index_run H [] ix = Inr ix"
| "index_run H (x # xs) ix =
     andthen (case x of Put r h \<Rightarrow> oi_insert H ix r h | Drop r \<Rightarrow> oi_erase H ix r) (index_run H xs)"

primrec content_run :: "index_op list \<Rightarrow> (order_ref \<Rightarrow> order_handle option) \<Rightarrow>
    order_ref \<Rightarrow> order_handle option" where
  "content_run [] m = m"
| "content_run (x # xs) m =
     content_run xs (case x of Put r h \<Rightarrow> m(r := Some h) | Drop r \<Rightarrow> m(r := None))"

primrec legal_run :: "nat \<Rightarrow> index_op list \<Rightarrow> (order_ref \<Rightarrow> order_handle option) \<Rightarrow> bool" where
  "legal_run room [] m \<longleftrightarrow> True"
| "legal_run room (x # xs) m \<longleftrightarrow>
     (case x of
        Put r h \<Rightarrow> 0 < room \<and> \<not> is_null h \<and> m r = None \<and> legal_run (room - 1) xs (m(r := Some h))
      | Drop r \<Rightarrow> m r \<noteq> None \<and> legal_run (Suc room) xs (m(r := None)))"

lemma index_run_refines:
  assumes "oi_inv H ix" and "legal_run room xs (oi_map ix)"
    and "2 * (unat (ix_live ix) + room) \<le> length (ix_slots ix)"
  shows "\<exists>ix'. index_run H xs ix = Inr ix' \<and> oi_inv H ix' \<and> oi_map ix' = content_run xs (oi_map ix)"
  using assms
proof (induction xs arbitrary: ix room)
  case Nil
  then show ?case by simp
next
  case (Cons x xs)
  show ?case
  proof (cases x)
    case (Put r h)
    with Cons.prems obtain ix1 where ix1: "oi_insert H ix r h = Inr ix1" "oi_inv H ix1"
      "oi_map ix1 = (oi_map ix)(r \<mapsto> h)" "unat (ix_live ix1) = Suc (unat (ix_live ix))"
      "length (ix_slots ix1) = length (ix_slots ix)"
      using order_ix.insert_law [of H ix h r] by auto
    have "legal_run (room - 1) xs (oi_map ix1)" "0 < room" using Cons.prems(2) Put ix1(3) by auto
    moreover have "2 * (unat (ix_live ix1) + (room - 1)) \<le> length (ix_slots ix1)"
      using Cons.prems(3) ix1(4,5) calculation(2) by (simp add: algebra_simps)
    ultimately have "\<exists>ix'. index_run H xs ix1 = Inr ix' \<and> oi_inv H ix' \<and>
        oi_map ix' = content_run xs (oi_map ix1)"
      using Cons.IH [OF ix1(2)] by blast
    then show ?thesis using Put by (simp only: index_run.simps content_run.simps index_op.case ix1(1,3) andthen_Inr)
  next
    case (Drop r)
    with Cons.prems obtain ix1 where ix1: "oi_erase H ix r = Inr ix1" "oi_inv H ix1"
      "oi_map ix1 = (oi_map ix)(r := None)" "unat (ix_live ix) = Suc (unat (ix_live ix1))"
      "length (ix_slots ix1) = length (ix_slots ix)"
      using order_ix.erase_law [of H ix r] by auto
    have "legal_run (Suc room) xs (oi_map ix1)" using Cons.prems(2) Drop ix1(3) by auto
    moreover have "2 * (unat (ix_live ix1) + (Suc room)) \<le> length (ix_slots ix1)"
      using Cons.prems(3) ix1(4,5) by simp
    ultimately have "\<exists>ix'. index_run H xs ix1 = Inr ix' \<and> oi_inv H ix' \<and>
        oi_map ix' = content_run xs (oi_map ix1)"
      using Cons.IH [OF ix1(2)] by blast
    then show ?thesis using Drop by (simp only: index_run.simps content_run.simps index_op.case ix1(1,3) andthen_Inr)
  qed
qed

end
