(* ===== verification/Pool.thy ===== *)
theory Pool
  imports Handles
begin

text \<open>
  include/itch/book/pool.hpp: a vector of slots with an intrusive free list and
  generation-checked handles. The concept \<open>PoolSlot\<close> (a slot lends the pool its link and
  its generation field) is the record \<open>slot_ops\<close> of the two fields' accessors; the locale
  \<open>pool_slot\<close> states what accessors of two distinct fields satisfy, and the pool's
  lemmas are proved inside it. A reference \<open>T& x = pool[h]\<close> is a checked read
  (\<open>pool_ref\<close>); a later write through it is \<open>pool_write\<close>, which like a C++ reference
  does not check again. \<open>prefault\<close> writes each byte to itself and is left out.
\<close>

section \<open>State and operations\<close>

record ('a, 'tag) slot_ops =
  pool_link :: "'a \<Rightarrow> 'tag handle"
  set_pool_link :: "'tag handle \<Rightarrow> 'a \<Rightarrow> 'a"
  pool_generation :: "'a \<Rightarrow> u8"
  set_pool_generation :: "u8 \<Rightarrow> 'a \<Rightarrow> 'a"

record ('a, 'tag) pool =
  slots :: "'a list"
  quarantine :: "u32 list"
  quarantine_limit :: nat
  free_head :: "'tag handle"
  live :: u32
  high_water :: u32

text \<open>
  The loop of the constructor gives slot \<open>i\<close> generation 0 and links it to \<open>i + 1\<close>, the
  last one to null. \<open>blank\<close> is the value-initialised slot of \<open>slots_(capacity)\<close>. The
  handles made here are in range once the capacity is.
\<close>

definition initial_link :: "u32 \<Rightarrow> nat \<Rightarrow> 'tag handle" where
  "initial_link capacity i =
     (if i + 1 < unat capacity
      then (case h_make (of_nat (i + 1)) 0 of Inr h \<Rightarrow> h | Inl _ \<Rightarrow> null_handle)
      else null_handle)"

definition pool_new :: "('a, 'tag) slot_ops \<Rightarrow> 'a \<Rightarrow> u32 \<Rightarrow> nat \<Rightarrow> failure + ('a, 'tag) pool" where
  "pool_new ops blank capacity limit =
     andthen (ensure (0 < capacity) (PoolF PoolNeedsSlot)) (\<lambda>_.
     andthen (ensure (capacity \<le> kMaxCapacity) (PoolF CapacityTooLarge)) (\<lambda>_.
     andthen (h_make 0 0) (\<lambda>head.
       Inr \<lparr>slots = map (\<lambda>i. set_pool_link ops (initial_link capacity i)
                              (set_pool_generation ops 0 blank)) [0..<unat capacity],
            quarantine = [], quarantine_limit = limit, free_head = head,
            live = 0, high_water = 0\<rparr>)))"

definition pool_write :: "('a, 'tag) pool \<Rightarrow> 'tag handle \<Rightarrow> ('a \<Rightarrow> 'a) \<Rightarrow> ('a, 'tag) pool" where
  "pool_write p h f = p\<lparr>slots := (slots p)[h_pos h := f (slots p ! h_pos h)]\<rparr>"

definition allocate :: "('a, 'tag) slot_ops \<Rightarrow> ('a, 'tag) pool \<Rightarrow> failure + ('a, 'tag) pool \<times> 'tag handle" where
  "allocate ops p =
     (let index = h_index (free_head p) in
      andthen (ensure (unat index < length (slots p)) (PoolF PoolExhausted)) (\<lambda>_.
      let slot = slots p ! unat index;
          generation = pool_generation ops slot + 1 in
      andthen (ensure (generation AND 1 = 1) (PoolF AllocatedEven)) (\<lambda>_.
      let n = live p + 1 in
      andthen (h_make index generation) (\<lambda>h.
        Inr (p\<lparr>slots := (slots p)[unat index := set_pool_generation ops generation slot],
               free_head := pool_link ops slot,
               live := n,
               high_water := (if high_water p < n then n else high_water p)\<rparr>, h)))))"

definition deref_checked :: "('a, 'tag) slot_ops \<Rightarrow> ('a, 'tag) pool \<Rightarrow> 'tag handle \<Rightarrow> failure + 'a" where
  "deref_checked ops p h =
     andthen (ensure (h_pos h < length (slots p)) (PoolF BadHandle)) (\<lambda>_.
     let slot = slots p ! h_pos h in
     andthen (ensure (pool_generation ops slot = h_generation h) (PoolF StaleHandle)) (\<lambda>_.
       Inr slot))"

definition pool_ref :: "('a, 'tag) slot_ops \<Rightarrow> ('a, 'tag) pool \<Rightarrow> 'tag handle \<Rightarrow> failure + 'a" where
  "pool_ref ops p h = deref_checked ops p h"

definition release :: "('a, 'tag) slot_ops \<Rightarrow> ('a, 'tag) pool \<Rightarrow> u32 \<Rightarrow> failure + ('a, 'tag) pool" where
  "release ops p index =
     (let ss = (slots p)[unat index := set_pool_link ops (free_head p) (slots p ! unat index)] in
      andthen (h_make index (pool_generation ops (ss ! unat index))) (\<lambda>h.
        Inr (p\<lparr>slots := ss, free_head := h\<rparr>)))"

definition pool_free :: "('a, 'tag) slot_ops \<Rightarrow> ('a, 'tag) pool \<Rightarrow> 'tag handle \<Rightarrow> failure + ('a, 'tag) pool" where
  "pool_free ops p h =
     andthen (deref_checked ops p h) (\<lambda>slot.
     let generation = pool_generation ops slot + 1 in
     andthen (ensure (generation AND 1 = 0) (PoolF FreedOdd)) (\<lambda>_.
     let p1 = pool_write p h (set_pool_generation ops generation);
         p2 = p1\<lparr>live := live p1 - 1\<rparr> in
     if 0 < quarantine_limit p2 then
       (let p3 = p2\<lparr>quarantine := quarantine p2 @ [h_index h]\<rparr> in
        if quarantine_limit p3 < length (quarantine p3) then
          andthen (release ops p3 (hd (quarantine p3))) (\<lambda>p4.
            Inr (p4\<lparr>quarantine := tl (quarantine p4)\<rparr>))
        else Inr p3)
     else release ops p2 (h_index h)))"

definition is_live :: "('a, 'tag) slot_ops \<Rightarrow> ('a, 'tag) pool \<Rightarrow> 'tag handle \<Rightarrow> bool" where
  "is_live ops p h =
     (if is_null h \<or> length (slots p) \<le> h_pos h then False
      else (let g = pool_generation ops (slots p ! h_pos h)
            in g = h_generation h \<and> g AND 1 = 1))"

definition pool_capacity :: "('a, 'tag) pool \<Rightarrow> u32" where
  "pool_capacity p = of_nat (length (slots p))"

definition quarantined :: "('a, 'tag) pool \<Rightarrow> u32" where
  "quarantined p = of_nat (length (quarantine p))"

text \<open>
  The walk of \<open>validate\<close>, with \<open>seen\<close> as the positions already marked. Every turn
  marks a new position, so it makes at most as many turns as the pool has slots.
\<close>

function validate_walk :: "('a, 'tag) slot_ops \<Rightarrow> 'a list \<Rightarrow> 'tag handle \<Rightarrow> nat list \<Rightarrow> failure + nat" where
  "validate_walk ops ss h seen =
     (if is_null h then Inr (length seen)
      else if \<not> h_pos h < length ss then Inl (PoolF FreeListLeavesPool)
      else if h_pos h \<in> set seen then Inl (PoolF FreeListCycle)
      else if pool_generation ops (ss ! h_pos h) AND 1 \<noteq> 0 then Inl (PoolF FreeListLive)
      else validate_walk ops ss (pool_link ops (ss ! h_pos h)) (h_pos h # seen))"
  by pat_completeness auto
termination
proof (relation "measure (\<lambda>(ops, ss, h, seen). card ({..<length ss} - set seen))", goal_cases)
  case (2 ops ss h seen)
  then have "{..<length ss} - set (h_pos h # seen) \<subset> {..<length ss} - set seen" by auto
  then show ?case by (simp add: psubset_card_mono)
qed simp

definition pool_validate :: "('a, 'tag) slot_ops \<Rightarrow> ('a, 'tag) pool \<Rightarrow> failure + unit" where
  "pool_validate ops p =
     andthen (validate_walk ops (slots p) (free_head p) []) (\<lambda>walked.
       ensure (walked + unat (live p) + length (quarantine p) = length (slots p))
         (PoolF SlotCensus))"

declare validate_walk.simps [simp del]

text \<open>A slot freed and allocated again, \<open>n\<close> times.\<close>

primrec recycle :: "('a, 'tag) slot_ops \<Rightarrow> nat \<Rightarrow> ('a, 'tag) pool \<Rightarrow> 'tag handle \<Rightarrow>
    failure + ('a, 'tag) pool \<times> 'tag handle" where
  "recycle ops 0 p h = Inr (p, h)"
| "recycle ops (Suc n) p h =
     andthen (pool_free ops p h) (\<lambda>p1. andthen (allocate ops p1) (\<lambda>(p2, h2). recycle ops n p2 h2))"

section \<open>What the pool promises\<close>

text \<open>The free list as the positions on it, from the head.\<close>

fun free_chain :: "('a, 'tag) slot_ops \<Rightarrow> 'a list \<Rightarrow> 'tag handle \<Rightarrow> nat list \<Rightarrow> bool" where
  "free_chain ops ss h [] = is_null h"
| "free_chain ops ss h (i # is) =
     (\<not> is_null h \<and> h_pos h = i \<and> i < length ss \<and> free_chain ops ss (pool_link ops (ss ! i)) is)"

text \<open>The positions that are not in use: on the free list or held back.\<close>

definition pool_inv_at :: "('a, 'tag) slot_ops \<Rightarrow> ('a, 'tag) pool \<Rightarrow> nat list \<Rightarrow> bool" where
  "pool_inv_at ops p fs \<longleftrightarrow>
     free_chain ops (slots p) (free_head p) fs \<and>
     distinct (fs @ map unat (quarantine p)) \<and>
     set (map unat (quarantine p)) \<subseteq> {..<length (slots p)} \<and>
     (\<forall>i < length (slots p). even (pool_generation ops (slots p ! i)) \<longleftrightarrow>
        i \<in> set fs \<union> set (map unat (quarantine p))) \<and>
     unat (live p) + length fs + length (quarantine p) = length (slots p) \<and>
     0 < length (slots p) \<and> length (slots p) \<le> unat kMaxCapacity"

text \<open>The same between two steps of \<open>free\<close>, with the positions \<open>gs\<close> in neither list.\<close>

definition pool_gap_at :: "('a, 'tag) slot_ops \<Rightarrow> ('a, 'tag) pool \<Rightarrow> nat list \<Rightarrow> nat list \<Rightarrow> bool" where
  "pool_gap_at ops p fs gs \<longleftrightarrow>
     free_chain ops (slots p) (free_head p) fs \<and>
     distinct (fs @ map unat (quarantine p) @ gs) \<and>
     set (map unat (quarantine p)) \<union> set gs \<subseteq> {..<length (slots p)} \<and>
     (\<forall>i < length (slots p). even (pool_generation ops (slots p ! i)) \<longleftrightarrow>
        i \<in> set fs \<union> set (map unat (quarantine p)) \<union> set gs) \<and>
     unat (live p) + length fs + length (quarantine p) + length gs = length (slots p) \<and>
     0 < length (slots p) \<and> length (slots p) \<le> unat kMaxCapacity"

definition pool_inv :: "('a, 'tag) slot_ops \<Rightarrow> ('a, 'tag) pool \<Rightarrow> bool" where
  "pool_inv ops p \<longleftrightarrow> (\<exists>fs. pool_inv_at ops p fs)"

text \<open>A handle in use, and the slot it names.\<close>

definition pool_live :: "('a, 'tag) slot_ops \<Rightarrow> ('a, 'tag) pool \<Rightarrow> 'tag handle \<Rightarrow> bool" where
  "pool_live ops p h \<longleftrightarrow> h_pos h < length (slots p) \<and>
     pool_generation ops (slots p ! h_pos h) = h_generation h \<and> odd (h_generation h)"

definition slot_at :: "('a, 'tag) pool \<Rightarrow> 'tag handle \<Rightarrow> 'a" where
  "slot_at p h = slots p ! h_pos h"

text \<open>How many allocations succeed before the next free.\<close>

definition pool_room :: "('a, 'tag) pool \<Rightarrow> nat" where
  "pool_room p = length (slots p) - unat (live p) - length (quarantine p)"

lemma free_chain_bound: "free_chain ops ss h fs \<Longrightarrow> set fs \<subseteq> {..<length ss}"
  by (induction fs arbitrary: h) auto

lemma free_chain_cong:
  "free_chain ops ss h fs \<Longrightarrow> length ss' = length ss \<Longrightarrow>
   (\<And>i. i \<in> set fs \<Longrightarrow> pool_link ops (ss' ! i) = pool_link ops (ss ! i)) \<Longrightarrow>
   free_chain ops ss' h fs"
  by (induction fs arbitrary: h) auto

lemma pool_live_pos_inj:
  "pool_live ops p h \<Longrightarrow> pool_live ops p h' \<Longrightarrow> h_pos h = h_pos h' \<Longrightarrow> h = h'"
  by (simp add: pool_live_def handle_eq_iff h_pos_eq_iff)

lemma pool_ref_live: "pool_live ops p h \<Longrightarrow> pool_ref ops p h = Inr (slot_at p h)"
  by (simp add: pool_ref_def deref_checked_def pool_live_def slot_at_def Let_def)

lemma pool_room_at: "pool_inv_at ops p fs \<Longrightarrow> pool_room p = length fs"
  by (auto simp: pool_inv_at_def pool_room_def)

text \<open>\<open>is_live\<close> and the reduced two-branch check agree on what is in use.\<close>

lemma is_live_iff:
  assumes "pool_inv ops p"
  shows "is_live ops p h \<longleftrightarrow> pool_live ops p h"
proof -
  have "length (slots p) \<le> 2 ^ 24 - 1"
    using assms by (auto simp: pool_inv_def pool_inv_at_def kMaxCapacity_value)
  then have "\<not> is_null h" if "h_pos h < length (slots p)"
    using that is_null_pos [of h] by auto
  then show ?thesis
    by (auto simp: is_live_def pool_live_def and_one_odd Let_def)
qed

section \<open>Slots with two distinct fields\<close>

locale pool_slot =
  fixes ops :: "('a, 'tag) slot_ops"
  assumes link_set_link: "pool_link ops (set_pool_link ops l x) = l"
    and gen_set_link: "pool_generation ops (set_pool_link ops l x) = pool_generation ops x"
    and gen_set_gen: "pool_generation ops (set_pool_generation ops g x) = g"
    and link_set_gen: "pool_link ops (set_pool_generation ops g x) = pool_link ops x"
begin

lemmas slot_laws = link_set_link gen_set_link gen_set_gen link_set_gen

lemma allocate_at:
  assumes inv: "pool_inv_at ops p (i # fs)"
  defines "g \<equiv> pool_generation ops (slots p ! i) + 1"
  shows "\<exists>h p'. allocate ops p = Inr (p', h) \<and> h_pos h = i \<and> h_generation h = g \<and>
    slots p' = (slots p)[i := set_pool_generation ops g (slots p ! i)] \<and>
    unat (live p') = Suc (unat (live p)) \<and> quarantine p' = quarantine p \<and>
    quarantine_limit p' = quarantine_limit p \<and> pool_inv_at ops p' fs \<and> \<not> is_null h"
proof -
  let ?n = "length (slots p)"
  have hd: "h_pos (free_head p) = i" "i < ?n"
    and ch: "free_chain ops (slots p) (pool_link ops (slots p ! i)) fs"
    and dis: "distinct ((i # fs) @ map unat (quarantine p))"
    and ev: "\<And>j. j < ?n \<Longrightarrow> even (pool_generation ops (slots p ! j)) \<longleftrightarrow>
               j \<in> set (i # fs) \<union> set (map unat (quarantine p))"
    and cnt: "unat (live p) + Suc (length fs) + length (quarantine p) = ?n"
    and n: "?n \<le> 2 ^ 24 - 1"
    using inv by (auto simp: pool_inv_at_def kMaxCapacity_value)
  have gev: "even (pool_generation ops (slots p ! i))" using ev [OF hd(2)] by simp
  then have godd: "odd g" by (simp add: g_def)
  have idx: "h_index (free_head p) < kMaxCapacity"
    using hd n by (simp add: word_less_nat_alt kMaxCapacity_value h_pos_def)
  then obtain h :: "'tag handle" where h: "h_make (h_index (free_head p)) g = Inr h"
    and hi: "h_index h = h_index (free_head p)" and hg: "h_generation h = g" and nn: "\<not> is_null h"
    by (rule h_make_Inr)
  have live1: "unat (live p + 1) = Suc (unat (live p))"
    using cnt n by (intro unat_plus_one) simp
  let ?ss = "(slots p)[i := set_pool_generation ops g (slots p ! i)]"
  let ?p' = "p\<lparr>slots := ?ss, free_head := pool_link ops (slots p ! i), live := live p + 1,
     high_water := (if high_water p < live p + 1 then live p + 1 else high_water p)\<rparr>"
  have run: "allocate ops p = Inr (?p', h)"
    using hd h gev by (simp add: allocate_def Let_def h_pos_def and_one_odd g_def [symmetric])
  have "free_chain ops ?ss (pool_link ops (slots p ! i)) fs"
    using dis hd(2) by (intro free_chain_cong [OF ch]) (auto simp: nth_list_update_if)
  moreover have "even (pool_generation ops (?ss ! j)) \<longleftrightarrow> j \<in> set fs \<union> set (map unat (quarantine p))"
    if "j < ?n" for j
    using ev [OF that] dis godd hd that by (auto simp: nth_list_update slot_laws)
  ultimately have "pool_inv_at ops ?p' fs"
    using inv cnt live1 dis by (simp add: pool_inv_at_def)
  with run hi hg hd live1 nn show ?thesis
    by (intro exI [of _ h] exI [of _ ?p']) (simp add: h_pos_def)
qed

lemma allocate_ok:
  assumes "pool_inv ops p" and "0 < pool_room p"
  obtains h p' where "allocate ops p = Inr (p', h)" and "pool_inv ops p'" and "\<not> is_null h"
    and "\<And>x. pool_live ops p' x \<longleftrightarrow> pool_live ops p x \<or> x = h"
    and "\<And>x. pool_live ops p x \<Longrightarrow> h_pos x \<noteq> h_pos h"
    and "\<And>x. pool_live ops p x \<Longrightarrow> slot_at p' x = slot_at p x"
    and "slot_at p' h = set_pool_generation ops (h_generation h) (slots p ! h_pos h)"
    and "pool_room p' = pool_room p - 1" and "unat (live p') = Suc (unat (live p))"
    and "length (slots p') = length (slots p)" and "quarantine_limit p' = quarantine_limit p"
proof -
  from assms(1) obtain fs0 where at0: "pool_inv_at ops p fs0" by (auto simp: pool_inv_def)
  with assms(2) obtain i fs where fs0: "fs0 = i # fs"
    by (cases fs0) (auto simp: pool_room_at)
  with at0 have inv: "pool_inv_at ops p (i # fs)" by simp
  then obtain h p' where a: "allocate ops p = Inr (p', h)" and hi: "h_pos h = i"
    and hg: "h_generation h = pool_generation ops (slots p ! i) + 1"
    and ss: "slots p' = (slots p)[i := set_pool_generation ops (h_generation h) (slots p ! i)]"
    and lv: "unat (live p') = Suc (unat (live p))" and q: "quarantine_limit p' = quarantine_limit p"
    and at: "pool_inv_at ops p' fs" and nn: "\<not> is_null h"
    using allocate_at [OF inv] by metis
  have i: "i < length (slots p)" and ev: "even (pool_generation ops (slots p ! i))"
    using inv by (auto simp: pool_inv_at_def)
  have other: "h_pos x \<noteq> i" if "pool_live ops p x" for x
    using that ev by (auto simp: pool_live_def)
  have lvx: "pool_live ops p' x \<longleftrightarrow> pool_live ops p x \<or> x = h" for x
  proof (cases "h_pos x = i")
    case True
    with hi have "x = h \<longleftrightarrow> h_generation x = h_generation h"
      by (simp add: handle_eq_iff h_pos_def word_unat_eq_iff)
    with True other [of x] i ev hg show ?thesis
      by (auto simp: pool_live_def ss slot_laws)
  next
    case False
    with hi show ?thesis by (auto simp: pool_live_def ss)
  qed
  show ?thesis
  proof (rule that [OF a _ nn lvx])
    show "pool_inv ops p'" using at by (auto simp: pool_inv_def)
    show "h_pos x \<noteq> h_pos h" if "pool_live ops p x" for x
      using other [OF that] hi by simp
    show "slot_at p' x = slot_at p x" if "pool_live ops p x" for x
      using other [OF that] i by (simp add: slot_at_def ss nth_list_update)
    show "slot_at p' h = set_pool_generation ops (h_generation h) (slots p ! h_pos h)"
      using hi i by (simp add: slot_at_def ss)
    show "pool_room p' = pool_room p - 1"
      using pool_room_at [OF at] pool_room_at [OF inv] by simp
  qed (use lv ss q in simp_all)
qed

lemma allocate_exhausted:
  assumes "pool_inv ops p" and "pool_room p = 0"
  shows "allocate ops p = Inl (PoolF PoolExhausted)"
proof -
  from assms(1) obtain fs where at: "pool_inv_at ops p fs" by (auto simp: pool_inv_def)
  with assms(2) have "fs = []" by (simp add: pool_room_at)
  with at have "is_null (free_head p)" and "length (slots p) \<le> 2 ^ 24 - 1"
    by (auto simp: pool_inv_at_def kMaxCapacity_value)
  then show ?thesis
    using is_null_pos [of "free_head p"] by (simp add: allocate_def Let_def h_pos_def)
qed

lemma write_ok:
  assumes "pool_inv ops p" and h: "pool_live ops p h"
    and g: "pool_generation ops (f (slot_at p h)) = pool_generation ops (slot_at p h)"
  shows "pool_inv ops (pool_write p h f)"
    and "pool_live ops (pool_write p h f) x \<longleftrightarrow> pool_live ops p x"
    and "pool_live ops p x \<Longrightarrow>
           slot_at (pool_write p h f) x = (if x = h then f (slot_at p h) else slot_at p x)"
    and "pool_room (pool_write p h f) = pool_room p"
proof -
  from assms(1) obtain fs where at: "pool_inv_at ops p fs" by (auto simp: pool_inv_def)
  let ?i = "h_pos h" and ?ss = "(slots p)[h_pos h := f (slots p ! h_pos h)]"
  have i: "?i < length (slots p)" and od: "odd (pool_generation ops (slots p ! ?i))"
    using h by (auto simp: pool_live_def)
  have gen: "pool_generation ops (?ss ! j) = pool_generation ops (slots p ! j)" for j
    using g i by (cases "h_pos h = j") (auto simp: slot_at_def)
  have "?i \<notin> set fs" using at i od by (auto simp: pool_inv_at_def)
  have ch: "free_chain ops (slots p) (free_head p) fs" using at by (simp add: pool_inv_at_def)
  have "free_chain ops ?ss (free_head p) fs"
    by (rule free_chain_cong [OF ch]) (use \<open>?i \<notin> set fs\<close> i in \<open>auto simp: nth_list_update_if\<close>)
  then have "pool_inv_at ops (pool_write p h f) fs"
    using at by (simp add: pool_inv_at_def pool_write_def gen)
  then show "pool_inv ops (pool_write p h f)" by (auto simp: pool_inv_def)
  show "pool_live ops (pool_write p h f) x \<longleftrightarrow> pool_live ops p x"
    by (simp add: pool_live_def pool_write_def gen)
  show "slot_at (pool_write p h f) x = (if x = h then f (slot_at p h) else slot_at p x)"
    if "pool_live ops p x"
  proof (cases "x = h")
    case True
    with i show ?thesis by (simp add: slot_at_def pool_write_def)
  next
    case False
    then have "h_pos h \<noteq> h_pos x" using pool_live_pos_inj [OF that h] by auto
    with False show ?thesis by (simp add: slot_at_def pool_write_def)
  qed
  show "pool_room (pool_write p h f) = pool_room p"
    by (simp add: pool_room_def pool_write_def)
qed

lemma gap_Nil: "pool_gap_at ops p fs [] \<longleftrightarrow> pool_inv_at ops p fs"
  by (simp add: pool_gap_at_def pool_inv_at_def)

lemma mark_free:
  assumes at: "pool_inv_at ops p fs" and h: "pool_live ops p h"
  defines "p1 \<equiv> pool_write p h (set_pool_generation ops (h_generation h + 1))"
  shows "pool_gap_at ops (p1\<lparr>live := live p1 - 1\<rparr>) fs [h_pos h]"
    and "0 < unat (live p)"
proof -
  let ?i = "h_pos h" and ?n = "length (slots p)"
  let ?x = "set_pool_generation ops (h_generation h + 1) (slots p ! h_pos h)"
  let ?ss = "(slots p)[h_pos h := ?x]"
  let ?used = "set fs \<union> set (map unat (quarantine p))"
  have i: "?i < ?n" and g: "pool_generation ops (slots p ! ?i) = h_generation h"
    and od: "odd (h_generation h)"
    using h by (auto simp: pool_live_def)
  have ch: "free_chain ops (slots p) (free_head p) fs"
    and dis: "distinct (fs @ map unat (quarantine p))"
    and cnt: "unat (live p) + length fs + length (quarantine p) = ?n"
    and qb: "set (map unat (quarantine p)) \<subseteq> {..<?n}"
    and ev: "\<And>j. j < ?n \<Longrightarrow> even (pool_generation ops (slots p ! j)) \<longleftrightarrow> j \<in> ?used"
    using at by (auto simp: pool_inv_at_def)
  have new: "?i \<notin> ?used" using ev [OF i] g od by simp
  have "?used \<union> {?i} \<subseteq> {..<?n}" using free_chain_bound [OF ch] qb i by auto
  then have "card (insert ?i ?used) \<le> ?n" using card_mono [of "{..<?n}"] by fastforce
  moreover have "card ?used = length fs + length (quarantine p)"
    using distinct_card [OF dis] by simp
  ultimately show pos: "0 < unat (live p)" using new cnt by simp
  then have lv: "unat (live p - 1) = unat (live p) - 1" by (simp add: unat_gt_0 unat_minus_one')
  have ch': "free_chain ops ?ss (free_head p) fs"
    by (rule free_chain_cong [OF ch]) (use new i in \<open>auto simp: nth_list_update_if\<close>)
  have ev': "even (pool_generation ops (?ss ! j)) \<longleftrightarrow> j \<in> ?used \<union> set [?i]" if "j < ?n" for j
    using ev [OF that] that od by (cases "j = ?i") (auto simp: slot_laws)
  have "distinct (fs @ map unat (quarantine p) @ [?i])"
    using dis new by auto
  then show "pool_gap_at ops (p1\<lparr>live := live p1 - 1\<rparr>) fs [?i]"
    using at ch' ev' qb i cnt pos lv
    by (simp add: pool_gap_at_def pool_inv_at_def p1_def pool_write_def)
qed

lemma release_at:
  assumes gap: "pool_gap_at ops p fs [unat idx]"
  obtains p' where "release ops p idx = Inr p'" and "pool_inv_at ops p' (unat idx # fs)"
    and "slots p' = (slots p)[unat idx := set_pool_link ops (free_head p) (slots p ! unat idx)]"
    and "live p' = live p" and "quarantine p' = quarantine p"
    and "quarantine_limit p' = quarantine_limit p"
proof -
  let ?i = "unat idx" and ?n = "length (slots p)"
  let ?ss = "(slots p)[unat idx := set_pool_link ops (free_head p) (slots p ! unat idx)]"
  have i: "?i < ?n" and new: "?i \<notin> set fs" and n: "?n \<le> 2 ^ 24 - 1"
    and ch: "free_chain ops (slots p) (free_head p) fs"
    using gap by (auto simp: pool_gap_at_def kMaxCapacity_value)
  have "idx < kMaxCapacity" using i n by (simp add: word_less_nat_alt kMaxCapacity_value)
  then obtain h :: "'tag handle" where h: "h_make idx (pool_generation ops (?ss ! ?i)) = Inr h"
    and hi: "h_index h = idx" and nn: "\<not> is_null h"
    by (rule h_make_Inr)
  let ?p' = "p\<lparr>slots := ?ss, free_head := h\<rparr>"
  have ch': "free_chain ops ?ss (free_head p) fs"
    by (rule free_chain_cong [OF ch]) (use new i in \<open>auto simp: nth_list_update_if\<close>)
  have gen: "pool_generation ops (?ss ! j) = pool_generation ops (slots p ! j)" if "j < ?n" for j
    using that by (cases "j = ?i") (auto simp: slot_laws)
  have "free_chain ops ?ss h (?i # fs)"
    using ch' nn hi i by (simp add: h_pos_def slot_laws)
  then have "pool_inv_at ops ?p' (?i # fs)"
    using gap by (auto simp: pool_gap_at_def pool_inv_at_def gen)
  moreover have "release ops p idx = Inr ?p'"
    using h by (simp add: release_def Let_def)
  ultimately show ?thesis by (intro that [of ?p']) simp_all
qed

text \<open>
  The whole of \<open>free\<close>: it succeeds on a handle in use, takes exactly that handle out of
  use, keeps every other slot in use as it was, and gives the slot back at once when
  there is no quarantine.
\<close>

lemma free_run:
  assumes at: "pool_inv_at ops p fs" and h: "pool_live ops p h"
  defines "p1 \<equiv> pool_write p h (set_pool_generation ops (h_generation h + 1))"
  defines "p2 \<equiv> p1\<lparr>live := live p1 - 1\<rparr>"
  obtains p' fs' where "pool_free ops p h = Inr p'" and "pool_inv_at ops p' fs'"
    and "length fs \<le> length fs'" and "quarantine_limit p = 0 \<longrightarrow> fs' = h_pos h # fs"
    and "live p' = live p2" and "quarantine_limit p' = quarantine_limit p"
    and "length (slots p') = length (slots p)"
    and "\<forall>j < length (slots p).
           pool_generation ops (slots p' ! j) = pool_generation ops (slots p2 ! j) \<and>
           (odd (pool_generation ops (slots p2 ! j)) \<longrightarrow> slots p' ! j = slots p2 ! j)"
proof -
  let ?n = "length (slots p)"
  have gap: "pool_gap_at ops p2 fs [h_pos h]"
    using mark_free(1) [OF at h] by (simp add: p1_def p2_def)
  have len: "length (slots p2) = ?n" and lim: "quarantine_limit p2 = quarantine_limit p"
    by (simp_all add: p2_def p1_def pool_write_def)
  have pos: "unat (h_index h) = h_pos h" by (simp add: h_pos_def)
  have start: "pool_free ops p h = (if 0 < quarantine_limit p2 then
       (let p3 = p2\<lparr>quarantine := quarantine p2 @ [h_index h]\<rparr> in
        if quarantine_limit p3 < length (quarantine p3) then
          andthen (release ops p3 (hd (quarantine p3))) (\<lambda>p4.
            Inr (p4\<lparr>quarantine := tl (quarantine p4)\<rparr>))
        else Inr p3)
     else release ops p2 (h_index h))"
    using h by (simp add: pool_free_def deref_checked_def pool_live_def and_one_even Let_def
        p1_def p2_def)
  have keep: "slots q = (slots r)[unat idx := set_pool_link ops l (slots r ! unat idx)] \<Longrightarrow>
      even (pool_generation ops (slots r ! unat idx)) \<Longrightarrow> unat idx < length (slots r) \<Longrightarrow>
      pool_generation ops (slots q ! j) = pool_generation ops (slots r ! j) \<and>
      (odd (pool_generation ops (slots r ! j)) \<longrightarrow> slots q ! j = slots r ! j)" for q r idx l j
    by (cases "j = unat idx") (auto simp: slot_laws)
  show ?thesis
  proof (cases "quarantine_limit p2 = 0")
    case True
    from gap pos have gap': "pool_gap_at ops p2 fs [unat (h_index h)]" by simp
    then obtain p' where p': "release ops p2 (h_index h) = Inr p'"
      "pool_inv_at ops p' (unat (h_index h) # fs)"
      "slots p' = (slots p2)[unat (h_index h) :=
         set_pool_link ops (free_head p2) (slots p2 ! unat (h_index h))]"
      "live p' = live p2" "quarantine p' = quarantine p2" "quarantine_limit p' = quarantine_limit p2"
      by (rule release_at)
    have "even (pool_generation ops (slots p2 ! unat (h_index h)))" "unat (h_index h) < ?n"
      using gap' len by (auto simp: pool_gap_at_def)
    note k = keep [OF p'(3) this(1)] this(2)
    show ?thesis
      by (rule that [of p' "unat (h_index h) # fs"]) (use start True p' pos lim len k in auto)
  next
    case False
    let ?p3 = "p2\<lparr>quarantine := quarantine p2 @ [h_index h]\<rparr>"
    have at3: "pool_inv_at ops ?p3 fs"
      using gap pos by (auto simp: pool_gap_at_def pool_inv_at_def)
    show ?thesis
    proof (cases "quarantine_limit ?p3 < length (quarantine ?p3)")
      case push: False
      have run: "pool_free ops p h = Inr ?p3"
        using start False push by (simp only: Let_def) simp
      show ?thesis
        by (rule that [OF run at3]) (use False lim len in simp_all)
    next
      case True
      obtain x q where q: "quarantine ?p3 = x # q"
        by (cases "quarantine p2") auto
      let ?p3' = "?p3\<lparr>quarantine := q\<rparr>"
      have gap3: "pool_gap_at ops ?p3' fs [unat x]"
        using at3 q by (auto simp: pool_gap_at_def pool_inv_at_def)
      then obtain p' where p': "release ops ?p3' x = Inr p'"
        "pool_inv_at ops p' (unat x # fs)"
        "slots p' = (slots ?p3')[unat x := set_pool_link ops (free_head ?p3') (slots ?p3' ! unat x)]"
        "live p' = live ?p3'" "quarantine p' = quarantine ?p3'"
        "quarantine_limit p' = quarantine_limit ?p3'"
        by (rule release_at)
      have "even (pool_generation ops (slots ?p3' ! unat x))" "unat x < ?n"
        using gap3 len by (auto simp: pool_gap_at_def)
      note k = keep [OF p'(3) this(1)] this(2)
      have rel: "release ops (r\<lparr>quarantine := c\<rparr>) i =
          andthen (release ops r i) (\<lambda>s. Inr (s\<lparr>quarantine := c\<rparr>))"
        for r :: "('a, 'tag) pool" and c i
        by (cases "h_make i (pool_generation ops ((slots r)[unat i := set_pool_link ops (free_head r)
              (slots r ! unat i)] ! unat i)) :: failure + 'tag handle") (simp_all add: release_def Let_def)
      obtain p4 where p4: "release ops ?p3 x = Inr p4" "p' = p4\<lparr>quarantine := q\<rparr>"
        using p'(1) rel [of q ?p3 x] by (cases "release ops ?p3 x") auto
      have "quarantine p4 = quarantine ?p3"
        using p4(1) by (auto simp: release_def Let_def result_dest)
      with p4 q have "p' = p4\<lparr>quarantine := tl (quarantine p4)\<rparr>" by simp
      then have run: "pool_free ops p h = Inr p'"
        using start False True q p4(1) by (simp add: Let_def)
      show ?thesis
        by (rule that [OF run p'(2)]) (use False p' lim len k in auto)
    qed
  qed
qed

lemma free_ok:
  assumes "pool_inv ops p" and h: "pool_live ops p h"
  obtains p' where "pool_free ops p h = Inr p'" and "pool_inv ops p'"
    and "\<And>x. pool_live ops p' x \<longleftrightarrow> pool_live ops p x \<and> x \<noteq> h"
    and "\<And>x. pool_live ops p x \<Longrightarrow> x \<noteq> h \<Longrightarrow> slot_at p' x = slot_at p x"
    and "pool_room p \<le> pool_room p'"
    and "quarantine_limit p = 0 \<Longrightarrow> pool_room p' = Suc (pool_room p)"
    and "Suc (unat (live p')) = unat (live p)" and "quarantine_limit p' = quarantine_limit p"
    and "length (slots p') = length (slots p)"
    and "h_pos h < length (slots p') \<and>
         pool_generation ops (slots p' ! h_pos h) = h_generation h + 1"
proof -
  from assms(1) obtain fs where at: "pool_inv_at ops p fs" by (auto simp: pool_inv_def)
  let ?p1 = "pool_write p h (set_pool_generation ops (h_generation h + 1))"
  let ?p2 = "?p1\<lparr>live := live ?p1 - 1\<rparr>"
  obtain p' fs' where run: "pool_free ops p h = Inr p'" and at': "pool_inv_at ops p' fs'"
    and le: "length fs \<le> length fs'" and lim0: "quarantine_limit p = 0 \<longrightarrow> fs' = h_pos h # fs"
    and lv: "live p' = live ?p2" and lim: "quarantine_limit p' = quarantine_limit p"
    and len: "length (slots p') = length (slots p)"
    and all: "\<forall>j < length (slots p).
           pool_generation ops (slots p' ! j) = pool_generation ops (slots ?p2 ! j) \<and>
           (odd (pool_generation ops (slots ?p2 ! j)) \<longrightarrow> slots p' ! j = slots ?p2 ! j)"
    by (rule free_run [OF at h])
  have gen: "pool_generation ops (slots p' ! j) = pool_generation ops (slots ?p2 ! j)"
    if "j < length (slots p)" for j
    using all that by blast
  have same: "slots p' ! j = slots ?p2 ! j"
    if "j < length (slots p)" and "odd (pool_generation ops (slots ?p2 ! j))" for j
    using all that by blast
  have i: "h_pos h < length (slots p)" and g: "pool_generation ops (slots p ! h_pos h) = h_generation h"
    and od: "odd (h_generation h)"
    using h by (auto simp: pool_live_def)
  have at2: "slots ?p1 ! j = (if j = h_pos h then
       set_pool_generation ops (h_generation h + 1) (slots p ! h_pos h) else slots p ! j)" for j
    using i by (simp add: pool_write_def nth_list_update_if)
  have other: "h_pos x \<noteq> h_pos h" if "pool_live ops p x" "x \<noteq> h" for x
    using that h pool_live_pos_inj by blast
  have live_iff: "pool_live ops p' x \<longleftrightarrow> pool_live ops p x \<and> x \<noteq> h" for x
  proof (cases "h_pos x = h_pos h")
    case True
    have "\<not> pool_live ops p' x"
    proof
      assume "pool_live ops p' x"
      then have "h_generation x = h_generation h + 1" and "odd (h_generation x)"
        using True i by (simp_all add: pool_live_def gen at2 slot_laws len)
      with od show False by simp
    qed
    with True other show ?thesis by blast
  next
    case False
    then show ?thesis by (auto simp: pool_live_def gen at2 len)
  qed
  show ?thesis
  proof (rule that [OF run _ live_iff])
    show "pool_inv ops p'" using at' by (auto simp: pool_inv_def)
    show "slot_at p' x = slot_at p x" if "pool_live ops p x" "x \<noteq> h" for x
      using that other [OF that] same [of "h_pos x"] by (auto simp: slot_at_def pool_live_def at2)
    show "pool_room p \<le> pool_room p'"
      using le pool_room_at [OF at] pool_room_at [OF at'] by simp
    show "pool_room p' = Suc (pool_room p)" if "quarantine_limit p = 0"
      using lim0 that pool_room_at [OF at] pool_room_at [OF at'] by simp
    show "Suc (unat (live p')) = unat (live p)"
      using mark_free(2) [OF at h] lv by (simp add: pool_write_def unat_minus_one' unat_gt_0)
    show "h_pos h < length (slots p') \<and> pool_generation ops (slots p' ! h_pos h) = h_generation h + 1"
      using i by (simp add: gen at2 slot_laws len)
  qed (use lim len in simp_all)
qed

lemma free_generation:
  assumes "pool_inv ops p" and "pool_live ops p h" and run: "pool_free ops p h = Inr p'"
  shows "h_pos h < length (slots p') \<and>
    pool_generation ops (slots p' ! h_pos h) = h_generation h + 1"
proof -
  obtain q where "pool_free ops p h = Inr q"
    and "h_pos h < length (slots q) \<and> pool_generation ops (slots q ! h_pos h) = h_generation h + 1"
    by (rule free_ok [OF assms(1,2)]) (rule that; assumption)
  with run show ?thesis by simp
qed

text \<open>Using a handle after its slot has been freed is detected, and so is freeing it again.\<close>

lemma stale_after_free:
  assumes "pool_inv ops p" and "pool_live ops p h" and run: "pool_free ops p h = Inr p'"
  shows "pool_ref ops p' h = Inl (PoolF StaleHandle)"
    and "pool_free ops p' h = Inl (PoolF StaleHandle)"
proof -
  from free_generation [OF assms] have "deref_checked ops p' h = Inl (PoolF StaleHandle)"
    by (simp add: deref_checked_def Let_def)
  then show "pool_ref ops p' h = Inl (PoolF StaleHandle)"
    and "pool_free ops p' h = Inl (PoolF StaleHandle)"
    by (simp_all add: pool_ref_def pool_free_def)
qed

text \<open>A null handle and a handle from a larger pool are refused too.\<close>

lemma null_refused:
  assumes "pool_inv ops p"
  shows "pool_ref ops p null_handle = Inl (PoolF BadHandle)"
proof -
  have "length (slots p) \<le> 2 ^ 24 - 1"
    using assms by (auto simp: pool_inv_def pool_inv_at_def kMaxCapacity_value)
  then show ?thesis
    using is_null_pos [of "null_handle :: 'tag handle"]
    by (simp add: pool_ref_def deref_checked_def)
qed

text \<open>The full structural check never fires on a pool that satisfies the invariant.\<close>

lemma validate_walk_chain:
  assumes "free_chain ops ss h fs" and "distinct (fs @ seen)"
    and "\<forall>i \<in> set fs. even (pool_generation ops (ss ! i))"
  shows "validate_walk ops ss h seen = Inr (length fs + length seen)"
  using assms
proof (induction fs arbitrary: h seen)
  case Nil
  then show ?case by (simp add: validate_walk.simps [of ops ss h])
next
  case (Cons i fs)
  then have "validate_walk ops ss (pool_link ops (ss ! i)) (i # seen) =
      Inr (length fs + length (i # seen))"
    by (intro Cons.IH) auto
  with Cons.prems show ?case
    by (simp add: validate_walk.simps [of ops ss h] and_one_even)
qed

lemma pool_validate_inv:
  assumes "pool_inv ops p"
  shows "pool_validate ops p = Inr ()"
proof -
  from assms obtain fs where at: "pool_inv_at ops p fs" by (auto simp: pool_inv_def)
  then have ch: "free_chain ops (slots p) (free_head p) fs" by (simp add: pool_inv_at_def)
  have "validate_walk ops (slots p) (free_head p) [] = Inr (length fs + length ([] :: nat list))"
    using at free_chain_bound [OF ch] by (intro validate_walk_chain [OF ch]) (auto simp: pool_inv_at_def)
  with at show ?thesis
    by (simp add: pool_validate_def pool_inv_at_def add.commute add.left_commute)
qed

text \<open>A new pool is all free.\<close>

lemma initial_link_chain:
  assumes cap: "capacity \<le> kMaxCapacity" and "k < unat capacity"
    and ss: "length ss = unat capacity" "\<And>i. i < unat capacity \<Longrightarrow> pool_link ops (ss ! i) = initial_link capacity i"
    and h: "h_pos h = k" "\<not> is_null h"
  shows "free_chain ops ss h [k..<unat capacity]"
  using assms(2) h
proof (induction "unat capacity - k" arbitrary: k h)
  case 0
  then show ?case by simp
next
  case (Suc n)
  have link: "pool_link ops (ss ! k) = initial_link capacity k" using ss Suc.prems by simp
  have "free_chain ops ss (pool_link ops (ss ! k)) [Suc k..<unat capacity]"
  proof (cases "Suc k < unat capacity")
    case True
    have cap24: "unat capacity \<le> 2 ^ 24 - 1"
      using cap by (simp add: word_le_nat_alt kMaxCapacity_value)
    have un: "unat (of_nat (Suc k) :: u32) = Suc k"
      using True cap24 by (simp add: unat_of_nat del: of_nat_Suc)
    have "Suc k < 2 ^ 24 - 1" using True cap24 by linarith
    then have "(of_nat (Suc k) :: u32) < kMaxCapacity"
      by (simp only: word_less_nat_alt kMaxCapacity_value(2) un)
    then obtain h' :: "'tag handle" where h': "h_make (of_nat (Suc k)) 0 = Inr h'"
      "h_index h' = of_nat (Suc k)" "\<not> is_null h'"
      by (rule h_make_Inr)
    then have "pool_link ops (ss ! k) = h'" and "h_pos h' = Suc k"
      using link True un by (simp_all add: initial_link_def h_pos_def)
    with Suc True h' show ?thesis by auto
  next
    case False
    with link Suc.prems show ?thesis by (simp add: initial_link_def)
  qed
  with Suc.prems ss show ?case by (simp add: upt_rec [of k])
qed

lemma pool_new_ok:
  assumes "0 < capacity" and cap: "capacity \<le> kMaxCapacity"
  obtains p where "pool_new ops blank capacity limit = Inr p" and "pool_inv ops p"
    and "pool_room p = unat capacity" and "\<And>h. \<not> pool_live ops p h"
    and "live p = 0" and "quarantine_limit p = limit" and "length (slots p) = unat capacity"
proof -
  have "(0 :: u32) < kMaxCapacity" by (simp add: kMaxCapacity_value)
  then obtain h :: "'tag handle" where h: "h_make 0 0 = Inr h" "h_index h = 0" "\<not> is_null h"
    by (rule h_make_Inr)
  let ?ss = "map (\<lambda>i. set_pool_link ops (initial_link capacity i)
               (set_pool_generation ops 0 blank)) [0..<unat capacity]"
  let ?p = "\<lparr>slots = ?ss, quarantine = [], quarantine_limit = limit, free_head = h,
             live = 0, high_water = 0\<rparr>"
  have pos: "0 < unat capacity" using assms(1) by (simp add: word_less_nat_alt)
  have "free_chain ops ?ss h [0..<unat capacity]"
    using pos h by (intro initial_link_chain [OF cap]) (simp_all add: slot_laws h_pos_def)
  then have "pool_inv_at ops ?p [0..<unat capacity]"
    using pos cap by (simp add: pool_inv_at_def slot_laws word_le_nat_alt)
  moreover have "\<not> pool_live ops ?p x" for x
    by (auto simp: pool_live_def slot_laws)
  moreover have "pool_new ops blank capacity limit = Inr ?p"
    using assms h by (simp add: pool_new_def)
  ultimately show ?thesis
    by (intro that [of ?p]) (auto simp: pool_inv_def pool_room_def)
qed

text \<open>
  Without a quarantine a slot freed is the next one handed out, with its generation two
  further on; so after 128 rounds, and not before, the same handle comes back.
\<close>

lemma free_allocate:
  assumes "pool_inv ops p" and "pool_live ops p h" and "quarantine_limit p = 0"
  obtains p1 p2 h' where "pool_free ops p h = Inr p1" and "allocate ops p1 = Inr (p2, h')"
    and "pool_inv ops p2" and "pool_live ops p2 h'" and "quarantine_limit p2 = 0"
    and "h_index h' = h_index h" and "h_generation h' = h_generation h + 2"
proof -
  from assms(1) obtain fs where at: "pool_inv_at ops p fs" by (auto simp: pool_inv_def)
  obtain p1 fs1 where run: "pool_free ops p h = Inr p1" and at1: "pool_inv_at ops p1 fs1"
    and fs1: "fs1 = h_pos h # fs" and lim: "quarantine_limit p1 = quarantine_limit p"
    by (rule free_run [OF at assms(2)]) (rule that; simp add: assms(3))
  have gen: "h_pos h < length (slots p1) \<and> pool_generation ops (slots p1 ! h_pos h) = h_generation h + 1"
    by (rule free_generation [OF assms(1,2) run])
  obtain p2 h' where a: "allocate ops p1 = Inr (p2, h')" "h_pos h' = h_pos h"
    "h_generation h' = h_generation h + 1 + 1" "quarantine_limit p2 = quarantine_limit p1"
    "pool_inv_at ops p2 fs"
    "slots p2 = (slots p1)[h_pos h := set_pool_generation ops (h_generation h + 1 + 1) (slots p1 ! h_pos h)]"
    using allocate_at [of p1 "h_pos h" fs] at1 fs1 gen by metis
  have "pool_live ops p2 h'"
    using gen a assms(2) by (simp add: pool_live_def slot_laws)
  with a assms(3) lim show ?thesis
    by (intro that [OF run a(1)]) (auto simp: pool_inv_def h_pos_eq_iff)
qed

lemma recycle_generation:
  assumes "pool_inv ops p" and "pool_live ops p h" and "quarantine_limit p = 0"
  shows "\<exists>p' h'. recycle ops n p h = Inr (p', h') \<and> pool_inv ops p' \<and> pool_live ops p' h' \<and>
    h_index h' = h_index h \<and> h_generation h' = h_generation h + of_nat (2 * n)"
  using assms
proof (induction n arbitrary: p h)
  case 0
  then show ?case by simp
next
  case (Suc n)
  obtain p1 p2 h' where run: "pool_free ops p h = Inr p1" "allocate ops p1 = Inr (p2, h')"
    and p2: "pool_inv ops p2" "pool_live ops p2 h'" "quarantine_limit p2 = 0"
    and h': "h_index h' = h_index h" "h_generation h' = h_generation h + 2"
    using free_allocate [OF Suc.prems] by blast
  from Suc.IH [OF p2] run h' show ?case by (auto simp: algebra_simps)
qed

lemma recycle_same_handle:
  assumes "pool_inv ops p" and "pool_live ops p h" and "quarantine_limit p = 0"
    and run: "recycle ops n p h = Inr (p', h')"
  shows "h' = h \<longleftrightarrow> 128 dvd n"
proof -
  have "h_index h' = h_index h" and g: "h_generation h' = h_generation h + of_nat (2 * n)"
    using recycle_generation [OF assms(1-3), of n] run by auto
  then have "h' = h \<longleftrightarrow> (of_nat (2 * n) :: u8) = 0" by (simp add: handle_eq_iff)
  also have "\<dots> \<longleftrightarrow> 256 dvd 2 * n"
    using word_of_nat_eq_0_iff [of "2 * n", where 'a = 8] by simp
  also have "\<dots> \<longleftrightarrow> 128 dvd n" by presburger
  finally show ?thesis .
qed

end

end
