(* ===== verification/Records.thy ===== *)
theory Records
  imports Pool
begin

text \<open>
  include/itch/book/records.hpp: the order and the level record and the fields they lend
  the pool. An order in the free list is in no queue, so its forward queue link carries
  the free-list link; a level carries a link of its own. The layout macros (padding and
  field order) change no value and are not modelled.
\<close>

record order =
  o_ref :: order_ref
  o_qty :: qty
  o_price :: price
  o_prev :: order_handle
  o_next :: order_handle
  o_level :: level_handle
  o_side :: u8
  o_gen :: u8
  o_owner :: u16

record level =
  l_total_qty :: u64
  l_head :: order_handle
  l_tail :: order_handle
  l_price :: price
  l_order_count :: u32
  l_pool_next :: level_handle
  l_gen :: u8

definition order_slot :: "(order, order_tag) slot_ops" where
  "order_slot = \<lparr>pool_link = o_next, set_pool_link = (\<lambda>l x. x\<lparr>o_next := l\<rparr>),
     pool_generation = o_gen, set_pool_generation = (\<lambda>g x. x\<lparr>o_gen := g\<rparr>)\<rparr>"

definition level_slot :: "(level, level_tag) slot_ops" where
  "level_slot = \<lparr>pool_link = l_pool_next, set_pool_link = (\<lambda>l v. v\<lparr>l_pool_next := l\<rparr>),
     pool_generation = l_gen, set_pool_generation = (\<lambda>g v. v\<lparr>l_gen := g\<rparr>)\<rparr>"

text \<open>The value-initialised slots \<open>std::vector<T>(capacity)\<close> starts from.\<close>

definition blank_order :: order where
  "blank_order = \<lparr>o_ref = 0, o_qty = 0, o_price = 0, o_prev = null_handle, o_next = null_handle,
     o_level = null_handle, o_side = 0, o_gen = 0, o_owner = 0\<rparr>"

definition blank_level :: level where
  "blank_level = \<lparr>l_total_qty = 0, l_head = null_handle, l_tail = null_handle, l_price = 0,
     l_order_count = 0, l_pool_next = null_handle, l_gen = 0\<rparr>"

type_synonym order_pool = "(order, order_tag) pool"
type_synonym level_pool = "(level, level_tag) pool"

lemma order_slot_simps [simp]:
  "pool_link order_slot x = o_next x"
  "set_pool_link order_slot l x = x\<lparr>o_next := l\<rparr>"
  "pool_generation order_slot x = o_gen x"
  "set_pool_generation order_slot g x = x\<lparr>o_gen := g\<rparr>"
  by (simp_all add: order_slot_def)

lemma level_slot_simps [simp]:
  "pool_link level_slot v = l_pool_next v"
  "set_pool_link level_slot m v = v\<lparr>l_pool_next := m\<rparr>"
  "pool_generation level_slot v = l_gen v"
  "set_pool_generation level_slot g v = v\<lparr>l_gen := g\<rparr>"
  by (simp_all add: level_slot_def)

text \<open>Both records are slots a pool can use.\<close>

interpretation order_pool: pool_slot order_slot
  by unfold_locales simp_all

interpretation level_pool: pool_slot level_slot
  by unfold_locales simp_all

section \<open>The order pool in use\<close>

text \<open>
  The states an order pool can reach: constructed, slots allocated, slots freed by a
  handle in use, slots written through a handle in use (keeping the generation, which only
  the pool writes).
\<close>

inductive order_pool_reach :: "u32 \<Rightarrow> nat \<Rightarrow> order_pool \<Rightarrow> bool" for capacity limit where
  reach_new: "pool_new order_slot blank_order capacity limit = Inr p \<Longrightarrow> order_pool_reach capacity limit p"
| reach_allocate: "order_pool_reach capacity limit p \<Longrightarrow> allocate order_slot p = Inr (p', h) \<Longrightarrow>
    order_pool_reach capacity limit p'"
| reach_free: "order_pool_reach capacity limit p \<Longrightarrow> pool_live order_slot p h \<Longrightarrow>
    pool_free order_slot p h = Inr p' \<Longrightarrow> order_pool_reach capacity limit p'"
| reach_write: "order_pool_reach capacity limit p \<Longrightarrow> pool_live order_slot p h \<Longrightarrow>
    o_gen (f (slot_at p h)) = o_gen (slot_at p h) \<Longrightarrow>
    order_pool_reach capacity limit (pool_write p h f)"

lemma order_pool_reach_inv:
  "order_pool_reach capacity limit p \<Longrightarrow>
     pool_inv order_slot p \<and> length (slots p) = unat capacity \<and> quarantine_limit p = limit"
proof (induction rule: order_pool_reach.induct)
  case (reach_new p)
  then have "0 < capacity" "capacity \<le> kMaxCapacity"
    by (auto simp: pool_new_def result_dest)
  with reach_new show ?case
    by (metis Inr_inject order_pool.pool_new_ok)
next
  case (reach_allocate p p' h)
  then have "0 < pool_room p" using order_pool.allocate_exhausted by fastforce
  with reach_allocate show ?case
    by (metis Inr_inject order_pool.allocate_ok prod.inject)
next
  case (reach_free p h p')
  then show ?case by (metis Inr_inject order_pool.free_ok)
next
  case (reach_write p h f)
  then show ?case
    using order_pool.write_ok(1) [of p h f] by (simp add: pool_write_def)
qed

end
