(* ===== verification/Messages.thy ===== *)
theory Messages
  imports Prelude
begin

text \<open>
  include/itch/wire/messages.hpp: the layout of each of the 23 ITCH 5.0 messages. A layout
  struct has byte-array members only, so it is the list of its members in order; offsets
  and sizes are sums of member sizes. The \<open>static_assert\<close>s of the header, which spell
  every offset and length out, are the tables \<open>X_asserted\<close>, and \<open>layouts_as_asserted\<close> is
  what the compiler checks of them.
\<close>

section \<open>Layouts\<close>

datatype field_type = Alpha nat | BeU16 | BeU32 | BeU48 | BeU64 | Price4 | Price8

primrec field_size :: "field_type \<Rightarrow> nat" where
  "field_size (Alpha n) = n"
| "field_size BeU16 = 2"
| "field_size BeU32 = 4"
| "field_size BeU48 = 6"
| "field_size BeU64 = 8"
| "field_size Price4 = 4"
| "field_size Price8 = 8"

type_synonym layout = "(string \<times> field_type) list"

primrec sizeof :: "layout \<Rightarrow> nat" where
  "sizeof [] = 0"
| "sizeof (f # fs) = field_size (snd f) + sizeof fs"

primrec offsetof :: "layout \<Rightarrow> string \<Rightarrow> nat" where
  "offsetof [] name = 0"
| "offsetof (f # fs) name = (if fst f = name then 0 else field_size (snd f) + offsetof fs name)"

text \<open>Each member with its offset and length, as the static assertions list them.\<close>

primrec members_from :: "nat \<Rightarrow> layout \<Rightarrow> (string \<times> nat \<times> nat) list" where
  "members_from at [] = []"
| "members_from at (f # fs) = (fst f, at, field_size (snd f)) # members_from (at + field_size (snd f)) fs"

definition members :: "layout \<Rightarrow> (string \<times> nat \<times> nat) list" where
  "members l = members_from 0 l"

definition kMaxMessageLength :: nat where
  "kMaxMessageLength = 50"

definition kMessageTypeCount :: nat where
  "kMessageTypeCount = 23"

section \<open>The message types\<close>

datatype MsgType =
    M_SystemEvent
  | M_StockDirectory
  | M_StockTradingAction
  | M_RegShoRestriction
  | M_MarketParticipantPosition
  | M_MwcbDeclineLevel
  | M_MwcbStatus
  | M_IpoQuotingPeriodUpdate
  | M_LuldAuctionCollar
  | M_OperationalHalt
  | M_AddOrder
  | M_AddOrderWithMpid
  | M_OrderExecuted
  | M_OrderExecutedWithPrice
  | M_OrderCancel
  | M_OrderDelete
  | M_OrderReplace
  | M_TradeNonCross
  | M_CrossTrade
  | M_BrokenTrade
  | M_Noii
  | M_RetailPriceImprovement
  | M_DirectListingWithCapitalRaise

primrec type_char :: "MsgType \<Rightarrow> char" where
    "type_char M_SystemEvent = CHR ''S''"
  | "type_char M_StockDirectory = CHR ''R''"
  | "type_char M_StockTradingAction = CHR ''H''"
  | "type_char M_RegShoRestriction = CHR ''Y''"
  | "type_char M_MarketParticipantPosition = CHR ''L''"
  | "type_char M_MwcbDeclineLevel = CHR ''V''"
  | "type_char M_MwcbStatus = CHR ''W''"
  | "type_char M_IpoQuotingPeriodUpdate = CHR ''K''"
  | "type_char M_LuldAuctionCollar = CHR ''J''"
  | "type_char M_OperationalHalt = CHR ''h''"
  | "type_char M_AddOrder = CHR ''A''"
  | "type_char M_AddOrderWithMpid = CHR ''F''"
  | "type_char M_OrderExecuted = CHR ''E''"
  | "type_char M_OrderExecutedWithPrice = CHR ''C''"
  | "type_char M_OrderCancel = CHR ''X''"
  | "type_char M_OrderDelete = CHR ''D''"
  | "type_char M_OrderReplace = CHR ''U''"
  | "type_char M_TradeNonCross = CHR ''P''"
  | "type_char M_CrossTrade = CHR ''Q''"
  | "type_char M_BrokenTrade = CHR ''B''"
  | "type_char M_Noii = CHR ''I''"
  | "type_char M_RetailPriceImprovement = CHR ''N''"
  | "type_char M_DirectListingWithCapitalRaise = CHR ''O''"

definition SystemEvent :: layout where
  "SystemEvent =
     [(''message_type'', Alpha 1),
      (''stock_locate'', BeU16),
      (''tracking_number'', BeU16),
      (''timestamp'', BeU48),
      (''event_code'', Alpha 1)]"

definition SystemEvent_asserted :: "(string \<times> nat \<times> nat) list" where
  "SystemEvent_asserted =
     [(''message_type'', 0, 1),
      (''stock_locate'', 1, 2),
      (''tracking_number'', 3, 2),
      (''timestamp'', 5, 6),
      (''event_code'', 11, 1)]"

definition StockDirectory :: layout where
  "StockDirectory =
     [(''message_type'', Alpha 1),
      (''stock_locate'', BeU16),
      (''tracking_number'', BeU16),
      (''timestamp'', BeU48),
      (''stock'', Alpha 8),
      (''market_category'', Alpha 1),
      (''financial_status_indicator'', Alpha 1),
      (''round_lot_size'', BeU32),
      (''round_lots_only'', Alpha 1),
      (''issue_classification'', Alpha 1),
      (''issue_sub_type'', Alpha 2),
      (''authenticity'', Alpha 1),
      (''short_sale_threshold_indicator'', Alpha 1),
      (''ipo_flag'', Alpha 1),
      (''luld_reference_price_tier'', Alpha 1),
      (''etp_flag'', Alpha 1),
      (''etp_leverage_factor'', BeU32),
      (''inverse_indicator'', Alpha 1)]"

definition StockDirectory_asserted :: "(string \<times> nat \<times> nat) list" where
  "StockDirectory_asserted =
     [(''message_type'', 0, 1),
      (''stock_locate'', 1, 2),
      (''tracking_number'', 3, 2),
      (''timestamp'', 5, 6),
      (''stock'', 11, 8),
      (''market_category'', 19, 1),
      (''financial_status_indicator'', 20, 1),
      (''round_lot_size'', 21, 4),
      (''round_lots_only'', 25, 1),
      (''issue_classification'', 26, 1),
      (''issue_sub_type'', 27, 2),
      (''authenticity'', 29, 1),
      (''short_sale_threshold_indicator'', 30, 1),
      (''ipo_flag'', 31, 1),
      (''luld_reference_price_tier'', 32, 1),
      (''etp_flag'', 33, 1),
      (''etp_leverage_factor'', 34, 4),
      (''inverse_indicator'', 38, 1)]"

definition StockTradingAction :: layout where
  "StockTradingAction =
     [(''message_type'', Alpha 1),
      (''stock_locate'', BeU16),
      (''tracking_number'', BeU16),
      (''timestamp'', BeU48),
      (''stock'', Alpha 8),
      (''trading_state'', Alpha 1),
      (''reserved'', Alpha 1),
      (''reason'', Alpha 4)]"

definition StockTradingAction_asserted :: "(string \<times> nat \<times> nat) list" where
  "StockTradingAction_asserted =
     [(''message_type'', 0, 1),
      (''stock_locate'', 1, 2),
      (''tracking_number'', 3, 2),
      (''timestamp'', 5, 6),
      (''stock'', 11, 8),
      (''trading_state'', 19, 1),
      (''reserved'', 20, 1),
      (''reason'', 21, 4)]"

definition RegShoRestriction :: layout where
  "RegShoRestriction =
     [(''message_type'', Alpha 1),
      (''stock_locate'', BeU16),
      (''tracking_number'', BeU16),
      (''timestamp'', BeU48),
      (''stock'', Alpha 8),
      (''reg_sho_action'', Alpha 1)]"

definition RegShoRestriction_asserted :: "(string \<times> nat \<times> nat) list" where
  "RegShoRestriction_asserted =
     [(''message_type'', 0, 1),
      (''stock_locate'', 1, 2),
      (''tracking_number'', 3, 2),
      (''timestamp'', 5, 6),
      (''stock'', 11, 8),
      (''reg_sho_action'', 19, 1)]"

definition MarketParticipantPosition :: layout where
  "MarketParticipantPosition =
     [(''message_type'', Alpha 1),
      (''stock_locate'', BeU16),
      (''tracking_number'', BeU16),
      (''timestamp'', BeU48),
      (''mpid'', Alpha 4),
      (''stock'', Alpha 8),
      (''primary_market'', Alpha 1),
      (''market_maker_mode'', Alpha 1),
      (''market_participant_state'', Alpha 1)]"

definition MarketParticipantPosition_asserted :: "(string \<times> nat \<times> nat) list" where
  "MarketParticipantPosition_asserted =
     [(''message_type'', 0, 1),
      (''stock_locate'', 1, 2),
      (''tracking_number'', 3, 2),
      (''timestamp'', 5, 6),
      (''mpid'', 11, 4),
      (''stock'', 15, 8),
      (''primary_market'', 23, 1),
      (''market_maker_mode'', 24, 1),
      (''market_participant_state'', 25, 1)]"

definition MwcbDeclineLevel :: layout where
  "MwcbDeclineLevel =
     [(''message_type'', Alpha 1),
      (''stock_locate'', BeU16),
      (''tracking_number'', BeU16),
      (''timestamp'', BeU48),
      (''level_1'', Price8),
      (''level_2'', Price8),
      (''level_3'', Price8)]"

definition MwcbDeclineLevel_asserted :: "(string \<times> nat \<times> nat) list" where
  "MwcbDeclineLevel_asserted =
     [(''message_type'', 0, 1),
      (''stock_locate'', 1, 2),
      (''tracking_number'', 3, 2),
      (''timestamp'', 5, 6),
      (''level_1'', 11, 8),
      (''level_2'', 19, 8),
      (''level_3'', 27, 8)]"

definition MwcbStatus :: layout where
  "MwcbStatus =
     [(''message_type'', Alpha 1),
      (''stock_locate'', BeU16),
      (''tracking_number'', BeU16),
      (''timestamp'', BeU48),
      (''breached_level'', Alpha 1)]"

definition MwcbStatus_asserted :: "(string \<times> nat \<times> nat) list" where
  "MwcbStatus_asserted =
     [(''message_type'', 0, 1),
      (''stock_locate'', 1, 2),
      (''tracking_number'', 3, 2),
      (''timestamp'', 5, 6),
      (''breached_level'', 11, 1)]"

definition IpoQuotingPeriodUpdate :: layout where
  "IpoQuotingPeriodUpdate =
     [(''message_type'', Alpha 1),
      (''stock_locate'', BeU16),
      (''tracking_number'', BeU16),
      (''timestamp'', BeU48),
      (''stock'', Alpha 8),
      (''ipo_quotation_release_time'', BeU32),
      (''ipo_quotation_release_qualifier'', Alpha 1),
      (''ipo_price'', Price4)]"

definition IpoQuotingPeriodUpdate_asserted :: "(string \<times> nat \<times> nat) list" where
  "IpoQuotingPeriodUpdate_asserted =
     [(''message_type'', 0, 1),
      (''stock_locate'', 1, 2),
      (''tracking_number'', 3, 2),
      (''timestamp'', 5, 6),
      (''stock'', 11, 8),
      (''ipo_quotation_release_time'', 19, 4),
      (''ipo_quotation_release_qualifier'', 23, 1),
      (''ipo_price'', 24, 4)]"

definition LuldAuctionCollar :: layout where
  "LuldAuctionCollar =
     [(''message_type'', Alpha 1),
      (''stock_locate'', BeU16),
      (''tracking_number'', BeU16),
      (''timestamp'', BeU48),
      (''stock'', Alpha 8),
      (''auction_collar_reference_price'', Price4),
      (''upper_auction_collar_price'', Price4),
      (''lower_auction_collar_price'', Price4),
      (''auction_collar_extension'', BeU32)]"

definition LuldAuctionCollar_asserted :: "(string \<times> nat \<times> nat) list" where
  "LuldAuctionCollar_asserted =
     [(''message_type'', 0, 1),
      (''stock_locate'', 1, 2),
      (''tracking_number'', 3, 2),
      (''timestamp'', 5, 6),
      (''stock'', 11, 8),
      (''auction_collar_reference_price'', 19, 4),
      (''upper_auction_collar_price'', 23, 4),
      (''lower_auction_collar_price'', 27, 4),
      (''auction_collar_extension'', 31, 4)]"

definition OperationalHalt :: layout where
  "OperationalHalt =
     [(''message_type'', Alpha 1),
      (''stock_locate'', BeU16),
      (''tracking_number'', BeU16),
      (''timestamp'', BeU48),
      (''stock'', Alpha 8),
      (''market_code'', Alpha 1),
      (''operational_halt_action'', Alpha 1)]"

definition OperationalHalt_asserted :: "(string \<times> nat \<times> nat) list" where
  "OperationalHalt_asserted =
     [(''message_type'', 0, 1),
      (''stock_locate'', 1, 2),
      (''tracking_number'', 3, 2),
      (''timestamp'', 5, 6),
      (''stock'', 11, 8),
      (''market_code'', 19, 1),
      (''operational_halt_action'', 20, 1)]"

definition AddOrder :: layout where
  "AddOrder =
     [(''message_type'', Alpha 1),
      (''stock_locate'', BeU16),
      (''tracking_number'', BeU16),
      (''timestamp'', BeU48),
      (''order_reference_number'', BeU64),
      (''buy_sell_indicator'', Alpha 1),
      (''shares'', BeU32),
      (''stock'', Alpha 8),
      (''price'', Price4)]"

definition AddOrder_asserted :: "(string \<times> nat \<times> nat) list" where
  "AddOrder_asserted =
     [(''message_type'', 0, 1),
      (''stock_locate'', 1, 2),
      (''tracking_number'', 3, 2),
      (''timestamp'', 5, 6),
      (''order_reference_number'', 11, 8),
      (''buy_sell_indicator'', 19, 1),
      (''shares'', 20, 4),
      (''stock'', 24, 8),
      (''price'', 32, 4)]"

definition AddOrderWithMpid :: layout where
  "AddOrderWithMpid =
     [(''message_type'', Alpha 1),
      (''stock_locate'', BeU16),
      (''tracking_number'', BeU16),
      (''timestamp'', BeU48),
      (''order_reference_number'', BeU64),
      (''buy_sell_indicator'', Alpha 1),
      (''shares'', BeU32),
      (''stock'', Alpha 8),
      (''price'', Price4),
      (''attribution'', Alpha 4)]"

definition AddOrderWithMpid_asserted :: "(string \<times> nat \<times> nat) list" where
  "AddOrderWithMpid_asserted =
     [(''message_type'', 0, 1),
      (''stock_locate'', 1, 2),
      (''tracking_number'', 3, 2),
      (''timestamp'', 5, 6),
      (''order_reference_number'', 11, 8),
      (''buy_sell_indicator'', 19, 1),
      (''shares'', 20, 4),
      (''stock'', 24, 8),
      (''price'', 32, 4),
      (''attribution'', 36, 4)]"

definition OrderExecuted :: layout where
  "OrderExecuted =
     [(''message_type'', Alpha 1),
      (''stock_locate'', BeU16),
      (''tracking_number'', BeU16),
      (''timestamp'', BeU48),
      (''order_reference_number'', BeU64),
      (''executed_shares'', BeU32),
      (''match_number'', BeU64)]"

definition OrderExecuted_asserted :: "(string \<times> nat \<times> nat) list" where
  "OrderExecuted_asserted =
     [(''message_type'', 0, 1),
      (''stock_locate'', 1, 2),
      (''tracking_number'', 3, 2),
      (''timestamp'', 5, 6),
      (''order_reference_number'', 11, 8),
      (''executed_shares'', 19, 4),
      (''match_number'', 23, 8)]"

definition OrderExecutedWithPrice :: layout where
  "OrderExecutedWithPrice =
     [(''message_type'', Alpha 1),
      (''stock_locate'', BeU16),
      (''tracking_number'', BeU16),
      (''timestamp'', BeU48),
      (''order_reference_number'', BeU64),
      (''executed_shares'', BeU32),
      (''match_number'', BeU64),
      (''printable'', Alpha 1),
      (''execution_price'', Price4)]"

definition OrderExecutedWithPrice_asserted :: "(string \<times> nat \<times> nat) list" where
  "OrderExecutedWithPrice_asserted =
     [(''message_type'', 0, 1),
      (''stock_locate'', 1, 2),
      (''tracking_number'', 3, 2),
      (''timestamp'', 5, 6),
      (''order_reference_number'', 11, 8),
      (''executed_shares'', 19, 4),
      (''match_number'', 23, 8),
      (''printable'', 31, 1),
      (''execution_price'', 32, 4)]"

definition OrderCancel :: layout where
  "OrderCancel =
     [(''message_type'', Alpha 1),
      (''stock_locate'', BeU16),
      (''tracking_number'', BeU16),
      (''timestamp'', BeU48),
      (''order_reference_number'', BeU64),
      (''cancelled_shares'', BeU32)]"

definition OrderCancel_asserted :: "(string \<times> nat \<times> nat) list" where
  "OrderCancel_asserted =
     [(''message_type'', 0, 1),
      (''stock_locate'', 1, 2),
      (''tracking_number'', 3, 2),
      (''timestamp'', 5, 6),
      (''order_reference_number'', 11, 8),
      (''cancelled_shares'', 19, 4)]"

definition OrderDelete :: layout where
  "OrderDelete =
     [(''message_type'', Alpha 1),
      (''stock_locate'', BeU16),
      (''tracking_number'', BeU16),
      (''timestamp'', BeU48),
      (''order_reference_number'', BeU64)]"

definition OrderDelete_asserted :: "(string \<times> nat \<times> nat) list" where
  "OrderDelete_asserted =
     [(''message_type'', 0, 1),
      (''stock_locate'', 1, 2),
      (''tracking_number'', 3, 2),
      (''timestamp'', 5, 6),
      (''order_reference_number'', 11, 8)]"

definition OrderReplace :: layout where
  "OrderReplace =
     [(''message_type'', Alpha 1),
      (''stock_locate'', BeU16),
      (''tracking_number'', BeU16),
      (''timestamp'', BeU48),
      (''original_order_reference_number'', BeU64),
      (''new_order_reference_number'', BeU64),
      (''shares'', BeU32),
      (''price'', Price4)]"

definition OrderReplace_asserted :: "(string \<times> nat \<times> nat) list" where
  "OrderReplace_asserted =
     [(''message_type'', 0, 1),
      (''stock_locate'', 1, 2),
      (''tracking_number'', 3, 2),
      (''timestamp'', 5, 6),
      (''original_order_reference_number'', 11, 8),
      (''new_order_reference_number'', 19, 8),
      (''shares'', 27, 4),
      (''price'', 31, 4)]"

definition TradeNonCross :: layout where
  "TradeNonCross =
     [(''message_type'', Alpha 1),
      (''stock_locate'', BeU16),
      (''tracking_number'', BeU16),
      (''timestamp'', BeU48),
      (''order_reference_number'', BeU64),
      (''buy_sell_indicator'', Alpha 1),
      (''shares'', BeU32),
      (''stock'', Alpha 8),
      (''price'', Price4),
      (''match_number'', BeU64)]"

definition TradeNonCross_asserted :: "(string \<times> nat \<times> nat) list" where
  "TradeNonCross_asserted =
     [(''message_type'', 0, 1),
      (''stock_locate'', 1, 2),
      (''tracking_number'', 3, 2),
      (''timestamp'', 5, 6),
      (''order_reference_number'', 11, 8),
      (''buy_sell_indicator'', 19, 1),
      (''shares'', 20, 4),
      (''stock'', 24, 8),
      (''price'', 32, 4),
      (''match_number'', 36, 8)]"

definition CrossTrade :: layout where
  "CrossTrade =
     [(''message_type'', Alpha 1),
      (''stock_locate'', BeU16),
      (''tracking_number'', BeU16),
      (''timestamp'', BeU48),
      (''shares'', BeU64),
      (''stock'', Alpha 8),
      (''cross_price'', Price4),
      (''match_number'', BeU64),
      (''cross_type'', Alpha 1)]"

definition CrossTrade_asserted :: "(string \<times> nat \<times> nat) list" where
  "CrossTrade_asserted =
     [(''message_type'', 0, 1),
      (''stock_locate'', 1, 2),
      (''tracking_number'', 3, 2),
      (''timestamp'', 5, 6),
      (''shares'', 11, 8),
      (''stock'', 19, 8),
      (''cross_price'', 27, 4),
      (''match_number'', 31, 8),
      (''cross_type'', 39, 1)]"

definition BrokenTrade :: layout where
  "BrokenTrade =
     [(''message_type'', Alpha 1),
      (''stock_locate'', BeU16),
      (''tracking_number'', BeU16),
      (''timestamp'', BeU48),
      (''match_number'', BeU64)]"

definition BrokenTrade_asserted :: "(string \<times> nat \<times> nat) list" where
  "BrokenTrade_asserted =
     [(''message_type'', 0, 1),
      (''stock_locate'', 1, 2),
      (''tracking_number'', 3, 2),
      (''timestamp'', 5, 6),
      (''match_number'', 11, 8)]"

definition Noii :: layout where
  "Noii =
     [(''message_type'', Alpha 1),
      (''stock_locate'', BeU16),
      (''tracking_number'', BeU16),
      (''timestamp'', BeU48),
      (''paired_shares'', BeU64),
      (''imbalance_shares'', BeU64),
      (''imbalance_direction'', Alpha 1),
      (''stock'', Alpha 8),
      (''far_price'', Price4),
      (''near_price'', Price4),
      (''current_reference_price'', Price4),
      (''cross_type'', Alpha 1),
      (''price_variation_indicator'', Alpha 1)]"

definition Noii_asserted :: "(string \<times> nat \<times> nat) list" where
  "Noii_asserted =
     [(''message_type'', 0, 1),
      (''stock_locate'', 1, 2),
      (''tracking_number'', 3, 2),
      (''timestamp'', 5, 6),
      (''paired_shares'', 11, 8),
      (''imbalance_shares'', 19, 8),
      (''imbalance_direction'', 27, 1),
      (''stock'', 28, 8),
      (''far_price'', 36, 4),
      (''near_price'', 40, 4),
      (''current_reference_price'', 44, 4),
      (''cross_type'', 48, 1),
      (''price_variation_indicator'', 49, 1)]"

definition RetailPriceImprovement :: layout where
  "RetailPriceImprovement =
     [(''message_type'', Alpha 1),
      (''stock_locate'', BeU16),
      (''tracking_number'', BeU16),
      (''timestamp'', BeU48),
      (''stock'', Alpha 8),
      (''interest_flag'', Alpha 1)]"

definition RetailPriceImprovement_asserted :: "(string \<times> nat \<times> nat) list" where
  "RetailPriceImprovement_asserted =
     [(''message_type'', 0, 1),
      (''stock_locate'', 1, 2),
      (''tracking_number'', 3, 2),
      (''timestamp'', 5, 6),
      (''stock'', 11, 8),
      (''interest_flag'', 19, 1)]"

definition DirectListingWithCapitalRaise :: layout where
  "DirectListingWithCapitalRaise =
     [(''message_type'', Alpha 1),
      (''stock_locate'', BeU16),
      (''tracking_number'', BeU16),
      (''timestamp'', BeU48),
      (''stock'', Alpha 8),
      (''open_eligibility_status'', Alpha 1),
      (''minimum_allowable_price'', Price4),
      (''maximum_allowable_price'', Price4),
      (''near_execution_price'', Price4),
      (''near_execution_time'', BeU64),
      (''lower_price_range_collar'', Price4),
      (''upper_price_range_collar'', Price4)]"

definition DirectListingWithCapitalRaise_asserted :: "(string \<times> nat \<times> nat) list" where
  "DirectListingWithCapitalRaise_asserted =
     [(''message_type'', 0, 1),
      (''stock_locate'', 1, 2),
      (''tracking_number'', 3, 2),
      (''timestamp'', 5, 6),
      (''stock'', 11, 8),
      (''open_eligibility_status'', 19, 1),
      (''minimum_allowable_price'', 20, 4),
      (''maximum_allowable_price'', 24, 4),
      (''near_execution_price'', 28, 4),
      (''near_execution_time'', 32, 8),
      (''lower_price_range_collar'', 40, 4),
      (''upper_price_range_collar'', 44, 4)]"

primrec layout_of :: "MsgType \<Rightarrow> layout" where
    "layout_of M_SystemEvent = SystemEvent"
  | "layout_of M_StockDirectory = StockDirectory"
  | "layout_of M_StockTradingAction = StockTradingAction"
  | "layout_of M_RegShoRestriction = RegShoRestriction"
  | "layout_of M_MarketParticipantPosition = MarketParticipantPosition"
  | "layout_of M_MwcbDeclineLevel = MwcbDeclineLevel"
  | "layout_of M_MwcbStatus = MwcbStatus"
  | "layout_of M_IpoQuotingPeriodUpdate = IpoQuotingPeriodUpdate"
  | "layout_of M_LuldAuctionCollar = LuldAuctionCollar"
  | "layout_of M_OperationalHalt = OperationalHalt"
  | "layout_of M_AddOrder = AddOrder"
  | "layout_of M_AddOrderWithMpid = AddOrderWithMpid"
  | "layout_of M_OrderExecuted = OrderExecuted"
  | "layout_of M_OrderExecutedWithPrice = OrderExecutedWithPrice"
  | "layout_of M_OrderCancel = OrderCancel"
  | "layout_of M_OrderDelete = OrderDelete"
  | "layout_of M_OrderReplace = OrderReplace"
  | "layout_of M_TradeNonCross = TradeNonCross"
  | "layout_of M_CrossTrade = CrossTrade"
  | "layout_of M_BrokenTrade = BrokenTrade"
  | "layout_of M_Noii = Noii"
  | "layout_of M_RetailPriceImprovement = RetailPriceImprovement"
  | "layout_of M_DirectListingWithCapitalRaise = DirectListingWithCapitalRaise"

primrec asserted_of :: "MsgType \<Rightarrow> (string \<times> nat \<times> nat) list" where
    "asserted_of M_SystemEvent = SystemEvent_asserted"
  | "asserted_of M_StockDirectory = StockDirectory_asserted"
  | "asserted_of M_StockTradingAction = StockTradingAction_asserted"
  | "asserted_of M_RegShoRestriction = RegShoRestriction_asserted"
  | "asserted_of M_MarketParticipantPosition = MarketParticipantPosition_asserted"
  | "asserted_of M_MwcbDeclineLevel = MwcbDeclineLevel_asserted"
  | "asserted_of M_MwcbStatus = MwcbStatus_asserted"
  | "asserted_of M_IpoQuotingPeriodUpdate = IpoQuotingPeriodUpdate_asserted"
  | "asserted_of M_LuldAuctionCollar = LuldAuctionCollar_asserted"
  | "asserted_of M_OperationalHalt = OperationalHalt_asserted"
  | "asserted_of M_AddOrder = AddOrder_asserted"
  | "asserted_of M_AddOrderWithMpid = AddOrderWithMpid_asserted"
  | "asserted_of M_OrderExecuted = OrderExecuted_asserted"
  | "asserted_of M_OrderExecutedWithPrice = OrderExecutedWithPrice_asserted"
  | "asserted_of M_OrderCancel = OrderCancel_asserted"
  | "asserted_of M_OrderDelete = OrderDelete_asserted"
  | "asserted_of M_OrderReplace = OrderReplace_asserted"
  | "asserted_of M_TradeNonCross = TradeNonCross_asserted"
  | "asserted_of M_CrossTrade = CrossTrade_asserted"
  | "asserted_of M_BrokenTrade = BrokenTrade_asserted"
  | "asserted_of M_Noii = Noii_asserted"
  | "asserted_of M_RetailPriceImprovement = RetailPriceImprovement_asserted"
  | "asserted_of M_DirectListingWithCapitalRaise = DirectListingWithCapitalRaise_asserted"

primrec asserted_size :: "MsgType \<Rightarrow> nat" where
    "asserted_size M_SystemEvent = 12"
  | "asserted_size M_StockDirectory = 39"
  | "asserted_size M_StockTradingAction = 25"
  | "asserted_size M_RegShoRestriction = 20"
  | "asserted_size M_MarketParticipantPosition = 26"
  | "asserted_size M_MwcbDeclineLevel = 35"
  | "asserted_size M_MwcbStatus = 12"
  | "asserted_size M_IpoQuotingPeriodUpdate = 28"
  | "asserted_size M_LuldAuctionCollar = 35"
  | "asserted_size M_OperationalHalt = 21"
  | "asserted_size M_AddOrder = 36"
  | "asserted_size M_AddOrderWithMpid = 40"
  | "asserted_size M_OrderExecuted = 31"
  | "asserted_size M_OrderExecutedWithPrice = 36"
  | "asserted_size M_OrderCancel = 23"
  | "asserted_size M_OrderDelete = 19"
  | "asserted_size M_OrderReplace = 35"
  | "asserted_size M_TradeNonCross = 44"
  | "asserted_size M_CrossTrade = 40"
  | "asserted_size M_BrokenTrade = 19"
  | "asserted_size M_Noii = 50"
  | "asserted_size M_RetailPriceImprovement = 20"
  | "asserted_size M_DirectListingWithCapitalRaise = 48"

definition message_length :: "char \<Rightarrow> nat" where
  "message_length type =
     (if type = CHR ''S'' then sizeof SystemEvent
      else if type = CHR ''R'' then sizeof StockDirectory
      else if type = CHR ''H'' then sizeof StockTradingAction
      else if type = CHR ''Y'' then sizeof RegShoRestriction
      else if type = CHR ''L'' then sizeof MarketParticipantPosition
      else if type = CHR ''V'' then sizeof MwcbDeclineLevel
      else if type = CHR ''W'' then sizeof MwcbStatus
      else if type = CHR ''K'' then sizeof IpoQuotingPeriodUpdate
      else if type = CHR ''J'' then sizeof LuldAuctionCollar
      else if type = CHR ''h'' then sizeof OperationalHalt
      else if type = CHR ''A'' then sizeof AddOrder
      else if type = CHR ''F'' then sizeof AddOrderWithMpid
      else if type = CHR ''E'' then sizeof OrderExecuted
      else if type = CHR ''C'' then sizeof OrderExecutedWithPrice
      else if type = CHR ''X'' then sizeof OrderCancel
      else if type = CHR ''D'' then sizeof OrderDelete
      else if type = CHR ''U'' then sizeof OrderReplace
      else if type = CHR ''P'' then sizeof TradeNonCross
      else if type = CHR ''Q'' then sizeof CrossTrade
      else if type = CHR ''B'' then sizeof BrokenTrade
      else if type = CHR ''I'' then sizeof Noii
      else if type = CHR ''N'' then sizeof RetailPriceImprovement
      else if type = CHR ''O'' then sizeof DirectListingWithCapitalRaise
      else 0)"

definition type_name :: "char \<Rightarrow> string" where
  "type_name type =
     (if type = CHR ''S'' then ''SystemEvent''
      else if type = CHR ''R'' then ''StockDirectory''
      else if type = CHR ''H'' then ''StockTradingAction''
      else if type = CHR ''Y'' then ''RegShoRestriction''
      else if type = CHR ''L'' then ''MarketParticipantPosition''
      else if type = CHR ''V'' then ''MwcbDeclineLevel''
      else if type = CHR ''W'' then ''MwcbStatus''
      else if type = CHR ''K'' then ''IpoQuotingPeriodUpdate''
      else if type = CHR ''J'' then ''LuldAuctionCollar''
      else if type = CHR ''h'' then ''OperationalHalt''
      else if type = CHR ''A'' then ''AddOrder''
      else if type = CHR ''F'' then ''AddOrderWithMpid''
      else if type = CHR ''E'' then ''OrderExecuted''
      else if type = CHR ''C'' then ''OrderExecutedWithPrice''
      else if type = CHR ''X'' then ''OrderCancel''
      else if type = CHR ''D'' then ''OrderDelete''
      else if type = CHR ''U'' then ''OrderReplace''
      else if type = CHR ''P'' then ''TradeNonCross''
      else if type = CHR ''Q'' then ''CrossTrade''
      else if type = CHR ''B'' then ''BrokenTrade''
      else if type = CHR ''I'' then ''Noii''
      else if type = CHR ''N'' then ''RetailPriceImprovement''
      else if type = CHR ''O'' then ''DirectListingWithCapitalRaise''
      else ''unknown'')"

definition is_known_type :: "char \<Rightarrow> bool" where
  "is_known_type type \<longleftrightarrow> message_length type \<noteq> 0"

lemmas layout_defs =
  SystemEvent_def SystemEvent_asserted_def
  StockDirectory_def StockDirectory_asserted_def
  StockTradingAction_def StockTradingAction_asserted_def
  RegShoRestriction_def RegShoRestriction_asserted_def
  MarketParticipantPosition_def MarketParticipantPosition_asserted_def
  MwcbDeclineLevel_def MwcbDeclineLevel_asserted_def
  MwcbStatus_def MwcbStatus_asserted_def
  IpoQuotingPeriodUpdate_def IpoQuotingPeriodUpdate_asserted_def
  LuldAuctionCollar_def LuldAuctionCollar_asserted_def
  OperationalHalt_def OperationalHalt_asserted_def
  AddOrder_def AddOrder_asserted_def
  AddOrderWithMpid_def AddOrderWithMpid_asserted_def
  OrderExecuted_def OrderExecuted_asserted_def
  OrderExecutedWithPrice_def OrderExecutedWithPrice_asserted_def
  OrderCancel_def OrderCancel_asserted_def
  OrderDelete_def OrderDelete_asserted_def
  OrderReplace_def OrderReplace_asserted_def
  TradeNonCross_def TradeNonCross_asserted_def
  CrossTrade_def CrossTrade_asserted_def
  BrokenTrade_def BrokenTrade_asserted_def
  Noii_def Noii_asserted_def
  RetailPriceImprovement_def RetailPriceImprovement_asserted_def
  DirectListingWithCapitalRaise_def DirectListingWithCapitalRaise_asserted_def

section \<open>What the static assertions say\<close>

lemma layouts_asserted: "members (layout_of m) = asserted_of m"
  by (cases m) (simp_all add: members_def layout_defs)

lemma layouts_sized: "sizeof (layout_of m) = asserted_size m"
  by (cases m) (simp_all add: layout_defs)

lemma message_length_type: "message_length (type_char m) = asserted_size m"
  by (cases m) (simp_all add: message_length_def layouts_sized [of M_SystemEvent, simplified]
    layout_defs)

lemma asserted_size_bounds: "11 < asserted_size m \<and> asserted_size m \<le> kMaxMessageLength"
  by (cases m) (simp_all add: kMaxMessageLength_def)

lemma asserted_size_pos [simp]: "0 < asserted_size m"
  by (cases m) simp_all

lemma known_type_cases: "is_known_type c \<longleftrightarrow> (\<exists>m. c = type_char m)"
proof
  assume known: "is_known_type c"
  show "\<exists>m. c = type_char m"
  proof (rule ccontr)
    assume "\<not> (\<exists>m. c = type_char m)"
    then have no: "c \<noteq> type_char m" for m by blast
    have "message_length c = 0"
      unfolding message_length_def
      using no [of M_SystemEvent]
        no [of M_StockDirectory]
        no [of M_StockTradingAction]
        no [of M_RegShoRestriction]
        no [of M_MarketParticipantPosition]
        no [of M_MwcbDeclineLevel]
        no [of M_MwcbStatus]
        no [of M_IpoQuotingPeriodUpdate]
        no [of M_LuldAuctionCollar]
        no [of M_OperationalHalt]
        no [of M_AddOrder]
        no [of M_AddOrderWithMpid]
        no [of M_OrderExecuted]
        no [of M_OrderExecutedWithPrice]
        no [of M_OrderCancel]
        no [of M_OrderDelete]
        no [of M_OrderReplace]
        no [of M_TradeNonCross]
        no [of M_CrossTrade]
        no [of M_BrokenTrade]
        no [of M_Noii]
        no [of M_RetailPriceImprovement]
        no [of M_DirectListingWithCapitalRaise]
      by simp
    with known show False by (simp add: is_known_type_def)
  qed
next
  assume "\<exists>m. c = type_char m"
  then show "is_known_type c"
    by (auto simp: is_known_type_def message_length_type)
qed

lemma message_length_le: "message_length c \<le> kMaxMessageLength"
  using known_type_cases [of c] asserted_size_bounds message_length_type
  by (cases "is_known_type c") (auto simp: is_known_type_def)

lemma type_char_inj: "type_char m = type_char n \<longleftrightarrow> m = n"
  by (cases m; cases n) simp_all

end
