(* ===== verification/Endian.thy ===== *)
theory Endian
  imports Core_Types
begin

text \<open>
  include/itch/core/endian.hpp: big-endian loads and stores. Memory at a pointer \<open>p\<close> is
  the list of bytes from there on. \<open>std::endian::native\<close> is a parameter of the platform:
  \<open>memcpy\<close> of a value is modelled for both byte orders, and the loads are shown not to
  depend on it.
\<close>

section \<open>Values as bytes\<close>

primrec word_of_le :: "u8 list \<Rightarrow> 'a::len word" where
  "word_of_le [] = 0"
| "word_of_le (b # bs) = ucast b OR push_bit 8 (word_of_le bs)"

definition le_bytes :: "nat \<Rightarrow> 'a::len word \<Rightarrow> u8 list" where
  "le_bytes n w = map (\<lambda>i. ucast (drop_bit (8 * i) w)) [0..<n]"

lemma length_le_bytes [simp]: "length (le_bytes n w) = n"
  by (simp add: le_bytes_def)

lemma bit_word_of_le:
  "bit (word_of_le bs :: 'a::len word) i \<longleftrightarrow>
     i < LENGTH('a) \<and> i div 8 < length bs \<and> bit (bs ! (i div 8)) (i mod 8)"
proof (induction bs arbitrary: i)
  case Nil
  then show ?case by simp
next
  case (Cons b bs)
  show ?case
  proof (cases "i < 8")
    case True
    then show ?thesis by (auto simp: bit_simps)
  next
    case False
    then have "i div 8 = Suc ((i - 8) div 8)" and "(i - 8) mod 8 = i mod 8"
      by (simp_all add: le_div_geq le_mod_geq)
    with False show ?thesis
      by (auto simp: bit_simps Cons.IH dest: bit_imp_le_length)
  qed
qed

lemma word_of_le_bytes:
  assumes "LENGTH('a::len) \<le> 8 * n"
  shows "word_of_le (le_bytes n (w :: 'a word)) = w"
proof (rule bit_word_eqI)
  fix i
  assume "i < LENGTH('a)"
  with assms have "i div 8 < n" by linarith
  moreover have "8 * (i div 8) + i mod 8 = i" by simp
  ultimately show "bit (word_of_le (le_bytes n w) :: 'a word) i = bit w i"
    using \<open>i < LENGTH('a)\<close> by (simp add: bit_word_of_le le_bytes_def bit_simps)
qed

lemma le_bytes_word_of_le:
  assumes "8 * length bs \<le> LENGTH('a::len)"
  shows "le_bytes (length bs) (word_of_le bs :: 'a word) = bs"
proof (rule nth_equalityI)
  show "length (le_bytes (length bs) (word_of_le bs :: 'a word)) = length bs" by simp
next
  fix k
  assume k: "k < length (le_bytes (length bs) (word_of_le bs :: 'a word))"
  show "le_bytes (length bs) (word_of_le bs :: 'a word) ! k = bs ! k"
  proof (rule bit_word_eqI)
    fix i
    assume "i < LENGTH(8)"
    then have "i < 8" by simp
    then have "(8 * k + i) div 8 = k" and "(8 * k + i) mod 8 = i" by simp_all
    with k \<open>i < 8\<close> assms
    show "bit (le_bytes (length bs) (word_of_le bs :: 'a word) ! k) i = bit (bs ! k) i"
      by (simp add: le_bytes_def bit_simps bit_word_of_le)
  qed
qed

section \<open>memcpy of a value, on either kind of machine\<close>

datatype endian = LittleEndian | BigEndian

fun load_native :: "endian \<Rightarrow> u8 list \<Rightarrow> 'a::len word" where
  "load_native LittleEndian bs = word_of_le bs"
| "load_native BigEndian bs = word_of_le (rev bs)"

fun store_native :: "endian \<Rightarrow> nat \<Rightarrow> 'a::len word \<Rightarrow> u8 list" where
  "store_native LittleEndian n w = le_bytes n w"
| "store_native BigEndian n w = rev (le_bytes n w)"

text \<open>\<open>__builtin_bswap16/32/64\<close> reverse the bytes of a value; one byte is unchanged.\<close>

definition byteswap_uint :: "'a::len word \<Rightarrow> 'a word" where
  "byteswap_uint v = word_of_le (rev (le_bytes (LENGTH('a) div 8) v))"

definition load_be_on :: "endian \<Rightarrow> u8 list \<Rightarrow> 'a::len word" where
  "load_be_on native p =
     (let v = load_native native (take (LENGTH('a) div 8) p)
      in (case native of LittleEndian \<Rightarrow> byteswap_uint v | BigEndian \<Rightarrow> v))"

definition store_be_on :: "endian \<Rightarrow> 'a::len word \<Rightarrow> u8 list" where
  "store_be_on native v =
     (let v' = (case native of LittleEndian \<Rightarrow> byteswap_uint v | BigEndian \<Rightarrow> v)
      in store_native native (LENGTH('a) div 8) v')"

text \<open>The machines of the project (arm64, x86-64) are little endian.\<close>

definition load_be :: "u8 list \<Rightarrow> 'a::len word" where
  "load_be p = load_be_on LittleEndian p"

definition store_be :: "'a::len word \<Rightarrow> u8 list" where
  "store_be v = store_be_on LittleEndian v"

text \<open>48-bit timestamps: two loads, at \<open>p\<close> and \<open>p + 2\<close>.\<close>

definition load_be48 :: "u8 list \<Rightarrow> u64" where
  "load_be48 p =
     (let hi = ucast (load_be p :: u16) :: u64;
          lo = ucast (load_be (drop 2 p) :: u32) :: u64
      in push_bit 32 hi OR lo)"

definition store_be48 :: "u64 \<Rightarrow> u8 list" where
  "store_be48 v =
     store_be (ucast (drop_bit 32 v) :: u16) @ store_be (ucast v :: u32)"

section \<open>What the loads read\<close>

text \<open>Widths of a whole number of bytes, as the \<open>static_assert\<close>s of \<open>byteswap_uint\<close> require.\<close>

lemma byteswap_word_of_le:
  assumes "8 * length bs = LENGTH('a::len)"
  shows "byteswap_uint (word_of_le bs :: 'a word) = word_of_le (rev bs)"
proof -
  have "LENGTH('a) div 8 = length bs" using assms by simp
  then show ?thesis
    using assms by (simp add: byteswap_uint_def le_bytes_word_of_le)
qed

lemma byteswap_byteswap:
  assumes "8 dvd LENGTH('a::len)"
  shows "byteswap_uint (byteswap_uint (v :: 'a word)) = v"
proof -
  let ?bs = "le_bytes (LENGTH('a) div 8) v"
  have "byteswap_uint (byteswap_uint v) = word_of_le (rev (rev ?bs))"
    using assms by (subst (2) byteswap_uint_def) (simp add: byteswap_word_of_le)
  then show ?thesis using assms by (simp add: word_of_le_bytes)
qed

lemma load_be_on_value:
  assumes "8 dvd LENGTH('a::len)" and "LENGTH('a) div 8 \<le> length p"
  shows "load_be_on native p = (word_of_le (rev (take (LENGTH('a) div 8) p)) :: 'a word)"
  using assms by (cases native) (simp_all add: load_be_on_def byteswap_word_of_le)

lemma store_be_on_value:
  assumes "8 dvd LENGTH('a::len)"
  shows "store_be_on native (v :: 'a word) = rev (le_bytes (LENGTH('a) div 8) v)"
proof (cases native)
  case LittleEndian
  let ?bs = "rev (le_bytes (LENGTH('a) div 8) v)"
  have "le_bytes (length ?bs) (word_of_le ?bs :: 'a word) = ?bs"
    using assms by (intro le_bytes_word_of_le) simp
  with LittleEndian show ?thesis by (simp add: store_be_on_def byteswap_uint_def)
qed (simp add: store_be_on_def)

lemma length_store_be [simp]: "length (store_be (v :: 'a::len word)) = LENGTH('a) div 8"
  by (simp add: store_be_def store_be_on_def Let_def)

lemma load_store_be:
  assumes "8 dvd LENGTH('a::len)"
  shows "load_be (store_be (v :: 'a word) @ rest) = v"
  using assms
  by (simp add: load_be_def store_be_def load_be_on_value store_be_on_value word_of_le_bytes)

lemma store_load_be:
  assumes "8 dvd LENGTH('a::len)" and "length bs = LENGTH('a) div 8"
  shows "store_be (load_be bs :: 'a word) = bs"
proof -
  have "le_bytes (length (rev bs)) (word_of_le (rev bs) :: 'a word) = rev bs"
    using assms by (intro le_bytes_word_of_le) simp
  with assms show ?thesis
    by (simp add: load_be_def store_be_def load_be_on_value store_be_on_value)
qed

text \<open>
  A 48-bit store and load give back the low 48 bits, which is what
  \<open>put_be48\<close> of tests/wire_builder.hpp masks the value with.
\<close>

lemma load_store_be48_bits: "load_be48 (store_be48 v @ rest) = take_bit 48 v"
proof -
  have hi: "(load_be (store_be48 v @ rest) :: u16) = ucast (drop_bit 32 v)"
    by (simp add: store_be48_def load_store_be)
  have lo: "(load_be (drop 2 (store_be48 v @ rest)) :: u32) = ucast v"
    by (simp add: store_be48_def load_store_be)
  show ?thesis
    unfolding load_be48_def Let_def hi lo
    by (rule bit_word_eqI) (auto simp: bit_simps dest: bit_imp_le_length)
qed

end
