(* ===== verification/Views.thy ===== *)
theory Views
  imports Messages Endian Core_Types Assertions
begin

text \<open>
  include/itch/wire/views.hpp: one view per message type, and \<open>dispatch\<close>. A view is a
  pointer into the frame whose accessors decode one field each; here it is the record of
  what its accessors return, read at the offsets of the layout. Every message also has
  the bytes that spell a record out, in member order; reading them back is the identity.
\<close>

section \<open>Characters\<close>

definition char_of_byte :: "u8 \<Rightarrow> char" where
  "char_of_byte b = char_of (unat b)"

definition byte_of_char :: "char \<Rightarrow> u8" where
  "byte_of_char c = of_nat (of_char c)"

definition load_char :: "u8 list \<Rightarrow> char" where
  "load_char p = char_of_byte (load_be p)"

definition load_alpha :: "nat \<Rightarrow> u8 list \<Rightarrow> string" where
  "load_alpha n p = map char_of_byte (take n p)"

text \<open>\<open>trim_alpha\<close> drops the padding at the end.\<close>

function trim_alpha :: "string \<Rightarrow> string" where
  "trim_alpha s = (if s \<noteq> [] \<and> last s = CHR '' '' then trim_alpha (butlast s) else s)"
  by pat_completeness auto
termination
  by (relation "measure length") auto

declare trim_alpha.simps [simp del]

lemma char_of_byte_of_char [simp]: "char_of_byte (byte_of_char c) = c"
proof -
  have "(of_char c :: nat) < 2 ^ LENGTH(8)" using of_char_mod_256 [of c, where 'a = nat] by (simp add: mod_eq_self_iff_div_eq_0 div_eq_0_iff)
  then show ?thesis by (simp add: char_of_byte_def byte_of_char_def unat_of_nat)
qed

definition store_char :: "char \<Rightarrow> u8 list" where
  "store_char c = [byte_of_char c]"

definition store_alpha :: "string \<Rightarrow> u8 list" where
  "store_alpha s = map byte_of_char s"

lemma length_store_char [simp]: "length (store_char c) = 1"
  by (simp add: store_char_def)

lemma length_store_alpha [simp]: "length (store_alpha s) = length s"
  by (simp add: store_alpha_def)

lemma load_byte: "load_be (b # rest) = (b :: u8)"
  by (simp add: load_be_def load_be_on_value)

lemma load_store_char: "load_char (store_char c @ rest) = c"
  by (simp add: load_char_def store_char_def load_byte)

lemma load_store_alpha: "n = length s \<Longrightarrow> load_alpha n (store_alpha s @ rest) = s"
  by (simp add: load_alpha_def store_alpha_def comp_def)

lemma length_store_be48 [simp]: "length (store_be48 v) = 6"
  by (simp add: store_be48_def)

lemma load_store_be48: "unat v < 2 ^ 48 \<Longrightarrow> load_be48 (store_be48 v @ rest) = v"
  unfolding load_store_be48_bits
  by (simp add: word_unat_eq_iff unsigned_take_bit_eq take_bit_nat_eq_self)

lemmas field_round_trips =
  load_store_char load_store_alpha load_store_be48 load_store_be

section \<open>Views\<close>

record SystemEvent_view =
  SystemEvent_stock_locate :: u16
  SystemEvent_tracking_number :: u16
  SystemEvent_timestamp :: timestamp
  SystemEvent_event_code :: char

definition SystemEventView :: "u8 list \<Rightarrow> SystemEvent_view" where
  "SystemEventView p =
     \<lparr>SystemEvent_stock_locate = load_be (drop (offsetof SystemEvent ''stock_locate'') p),
      SystemEvent_tracking_number = load_be (drop (offsetof SystemEvent ''tracking_number'') p),
      SystemEvent_timestamp = load_be48 (drop (offsetof SystemEvent ''timestamp'') p),
      SystemEvent_event_code = load_char (drop (offsetof SystemEvent ''event_code'') p)\<rparr>"

record StockDirectory_view =
  StockDirectory_stock_locate :: u16
  StockDirectory_tracking_number :: u16
  StockDirectory_timestamp :: timestamp
  StockDirectory_stock :: string
  StockDirectory_market_category :: char
  StockDirectory_financial_status_indicator :: char
  StockDirectory_round_lot_size :: u32
  StockDirectory_round_lots_only :: char
  StockDirectory_issue_classification :: char
  StockDirectory_issue_sub_type :: string
  StockDirectory_authenticity :: char
  StockDirectory_short_sale_threshold_indicator :: char
  StockDirectory_ipo_flag :: char
  StockDirectory_luld_reference_price_tier :: char
  StockDirectory_etp_flag :: char
  StockDirectory_etp_leverage_factor :: u32
  StockDirectory_inverse_indicator :: char

definition StockDirectoryView :: "u8 list \<Rightarrow> StockDirectory_view" where
  "StockDirectoryView p =
     \<lparr>StockDirectory_stock_locate = load_be (drop (offsetof StockDirectory ''stock_locate'') p),
      StockDirectory_tracking_number = load_be (drop (offsetof StockDirectory ''tracking_number'') p),
      StockDirectory_timestamp = load_be48 (drop (offsetof StockDirectory ''timestamp'') p),
      StockDirectory_stock = load_alpha 8 (drop (offsetof StockDirectory ''stock'') p),
      StockDirectory_market_category = load_char (drop (offsetof StockDirectory ''market_category'') p),
      StockDirectory_financial_status_indicator = load_char (drop (offsetof StockDirectory ''financial_status_indicator'') p),
      StockDirectory_round_lot_size = load_be (drop (offsetof StockDirectory ''round_lot_size'') p),
      StockDirectory_round_lots_only = load_char (drop (offsetof StockDirectory ''round_lots_only'') p),
      StockDirectory_issue_classification = load_char (drop (offsetof StockDirectory ''issue_classification'') p),
      StockDirectory_issue_sub_type = load_alpha 2 (drop (offsetof StockDirectory ''issue_sub_type'') p),
      StockDirectory_authenticity = load_char (drop (offsetof StockDirectory ''authenticity'') p),
      StockDirectory_short_sale_threshold_indicator = load_char (drop (offsetof StockDirectory ''short_sale_threshold_indicator'') p),
      StockDirectory_ipo_flag = load_char (drop (offsetof StockDirectory ''ipo_flag'') p),
      StockDirectory_luld_reference_price_tier = load_char (drop (offsetof StockDirectory ''luld_reference_price_tier'') p),
      StockDirectory_etp_flag = load_char (drop (offsetof StockDirectory ''etp_flag'') p),
      StockDirectory_etp_leverage_factor = load_be (drop (offsetof StockDirectory ''etp_leverage_factor'') p),
      StockDirectory_inverse_indicator = load_char (drop (offsetof StockDirectory ''inverse_indicator'') p)\<rparr>"

record StockTradingAction_view =
  StockTradingAction_stock_locate :: u16
  StockTradingAction_tracking_number :: u16
  StockTradingAction_timestamp :: timestamp
  StockTradingAction_stock :: string
  StockTradingAction_trading_state :: char
  StockTradingAction_reserved :: char
  StockTradingAction_reason :: string

definition StockTradingActionView :: "u8 list \<Rightarrow> StockTradingAction_view" where
  "StockTradingActionView p =
     \<lparr>StockTradingAction_stock_locate = load_be (drop (offsetof StockTradingAction ''stock_locate'') p),
      StockTradingAction_tracking_number = load_be (drop (offsetof StockTradingAction ''tracking_number'') p),
      StockTradingAction_timestamp = load_be48 (drop (offsetof StockTradingAction ''timestamp'') p),
      StockTradingAction_stock = load_alpha 8 (drop (offsetof StockTradingAction ''stock'') p),
      StockTradingAction_trading_state = load_char (drop (offsetof StockTradingAction ''trading_state'') p),
      StockTradingAction_reserved = load_char (drop (offsetof StockTradingAction ''reserved'') p),
      StockTradingAction_reason = load_alpha 4 (drop (offsetof StockTradingAction ''reason'') p)\<rparr>"

record RegShoRestriction_view =
  RegShoRestriction_stock_locate :: u16
  RegShoRestriction_tracking_number :: u16
  RegShoRestriction_timestamp :: timestamp
  RegShoRestriction_stock :: string
  RegShoRestriction_reg_sho_action :: char

definition RegShoRestrictionView :: "u8 list \<Rightarrow> RegShoRestriction_view" where
  "RegShoRestrictionView p =
     \<lparr>RegShoRestriction_stock_locate = load_be (drop (offsetof RegShoRestriction ''stock_locate'') p),
      RegShoRestriction_tracking_number = load_be (drop (offsetof RegShoRestriction ''tracking_number'') p),
      RegShoRestriction_timestamp = load_be48 (drop (offsetof RegShoRestriction ''timestamp'') p),
      RegShoRestriction_stock = load_alpha 8 (drop (offsetof RegShoRestriction ''stock'') p),
      RegShoRestriction_reg_sho_action = load_char (drop (offsetof RegShoRestriction ''reg_sho_action'') p)\<rparr>"

record MarketParticipantPosition_view =
  MarketParticipantPosition_stock_locate :: u16
  MarketParticipantPosition_tracking_number :: u16
  MarketParticipantPosition_timestamp :: timestamp
  MarketParticipantPosition_mpid :: string
  MarketParticipantPosition_stock :: string
  MarketParticipantPosition_primary_market :: char
  MarketParticipantPosition_market_maker_mode :: char
  MarketParticipantPosition_market_participant_state :: char

definition MarketParticipantPositionView :: "u8 list \<Rightarrow> MarketParticipantPosition_view" where
  "MarketParticipantPositionView p =
     \<lparr>MarketParticipantPosition_stock_locate = load_be (drop (offsetof MarketParticipantPosition ''stock_locate'') p),
      MarketParticipantPosition_tracking_number = load_be (drop (offsetof MarketParticipantPosition ''tracking_number'') p),
      MarketParticipantPosition_timestamp = load_be48 (drop (offsetof MarketParticipantPosition ''timestamp'') p),
      MarketParticipantPosition_mpid = load_alpha 4 (drop (offsetof MarketParticipantPosition ''mpid'') p),
      MarketParticipantPosition_stock = load_alpha 8 (drop (offsetof MarketParticipantPosition ''stock'') p),
      MarketParticipantPosition_primary_market = load_char (drop (offsetof MarketParticipantPosition ''primary_market'') p),
      MarketParticipantPosition_market_maker_mode = load_char (drop (offsetof MarketParticipantPosition ''market_maker_mode'') p),
      MarketParticipantPosition_market_participant_state = load_char (drop (offsetof MarketParticipantPosition ''market_participant_state'') p)\<rparr>"

record MwcbDeclineLevel_view =
  MwcbDeclineLevel_stock_locate :: u16
  MwcbDeclineLevel_tracking_number :: u16
  MwcbDeclineLevel_timestamp :: timestamp
  MwcbDeclineLevel_level_1 :: u64
  MwcbDeclineLevel_level_2 :: u64
  MwcbDeclineLevel_level_3 :: u64

definition MwcbDeclineLevelView :: "u8 list \<Rightarrow> MwcbDeclineLevel_view" where
  "MwcbDeclineLevelView p =
     \<lparr>MwcbDeclineLevel_stock_locate = load_be (drop (offsetof MwcbDeclineLevel ''stock_locate'') p),
      MwcbDeclineLevel_tracking_number = load_be (drop (offsetof MwcbDeclineLevel ''tracking_number'') p),
      MwcbDeclineLevel_timestamp = load_be48 (drop (offsetof MwcbDeclineLevel ''timestamp'') p),
      MwcbDeclineLevel_level_1 = load_be (drop (offsetof MwcbDeclineLevel ''level_1'') p),
      MwcbDeclineLevel_level_2 = load_be (drop (offsetof MwcbDeclineLevel ''level_2'') p),
      MwcbDeclineLevel_level_3 = load_be (drop (offsetof MwcbDeclineLevel ''level_3'') p)\<rparr>"

record MwcbStatus_view =
  MwcbStatus_stock_locate :: u16
  MwcbStatus_tracking_number :: u16
  MwcbStatus_timestamp :: timestamp
  MwcbStatus_breached_level :: char

definition MwcbStatusView :: "u8 list \<Rightarrow> MwcbStatus_view" where
  "MwcbStatusView p =
     \<lparr>MwcbStatus_stock_locate = load_be (drop (offsetof MwcbStatus ''stock_locate'') p),
      MwcbStatus_tracking_number = load_be (drop (offsetof MwcbStatus ''tracking_number'') p),
      MwcbStatus_timestamp = load_be48 (drop (offsetof MwcbStatus ''timestamp'') p),
      MwcbStatus_breached_level = load_char (drop (offsetof MwcbStatus ''breached_level'') p)\<rparr>"

record IpoQuotingPeriodUpdate_view =
  IpoQuotingPeriodUpdate_stock_locate :: u16
  IpoQuotingPeriodUpdate_tracking_number :: u16
  IpoQuotingPeriodUpdate_timestamp :: timestamp
  IpoQuotingPeriodUpdate_stock :: string
  IpoQuotingPeriodUpdate_ipo_quotation_release_time :: u32
  IpoQuotingPeriodUpdate_ipo_quotation_release_qualifier :: char
  IpoQuotingPeriodUpdate_ipo_price :: price

definition IpoQuotingPeriodUpdateView :: "u8 list \<Rightarrow> IpoQuotingPeriodUpdate_view" where
  "IpoQuotingPeriodUpdateView p =
     \<lparr>IpoQuotingPeriodUpdate_stock_locate = load_be (drop (offsetof IpoQuotingPeriodUpdate ''stock_locate'') p),
      IpoQuotingPeriodUpdate_tracking_number = load_be (drop (offsetof IpoQuotingPeriodUpdate ''tracking_number'') p),
      IpoQuotingPeriodUpdate_timestamp = load_be48 (drop (offsetof IpoQuotingPeriodUpdate ''timestamp'') p),
      IpoQuotingPeriodUpdate_stock = load_alpha 8 (drop (offsetof IpoQuotingPeriodUpdate ''stock'') p),
      IpoQuotingPeriodUpdate_ipo_quotation_release_time = load_be (drop (offsetof IpoQuotingPeriodUpdate ''ipo_quotation_release_time'') p),
      IpoQuotingPeriodUpdate_ipo_quotation_release_qualifier = load_char (drop (offsetof IpoQuotingPeriodUpdate ''ipo_quotation_release_qualifier'') p),
      IpoQuotingPeriodUpdate_ipo_price = load_be (drop (offsetof IpoQuotingPeriodUpdate ''ipo_price'') p)\<rparr>"

record LuldAuctionCollar_view =
  LuldAuctionCollar_stock_locate :: u16
  LuldAuctionCollar_tracking_number :: u16
  LuldAuctionCollar_timestamp :: timestamp
  LuldAuctionCollar_stock :: string
  LuldAuctionCollar_auction_collar_reference_price :: price
  LuldAuctionCollar_upper_auction_collar_price :: price
  LuldAuctionCollar_lower_auction_collar_price :: price
  LuldAuctionCollar_auction_collar_extension :: u32

definition LuldAuctionCollarView :: "u8 list \<Rightarrow> LuldAuctionCollar_view" where
  "LuldAuctionCollarView p =
     \<lparr>LuldAuctionCollar_stock_locate = load_be (drop (offsetof LuldAuctionCollar ''stock_locate'') p),
      LuldAuctionCollar_tracking_number = load_be (drop (offsetof LuldAuctionCollar ''tracking_number'') p),
      LuldAuctionCollar_timestamp = load_be48 (drop (offsetof LuldAuctionCollar ''timestamp'') p),
      LuldAuctionCollar_stock = load_alpha 8 (drop (offsetof LuldAuctionCollar ''stock'') p),
      LuldAuctionCollar_auction_collar_reference_price = load_be (drop (offsetof LuldAuctionCollar ''auction_collar_reference_price'') p),
      LuldAuctionCollar_upper_auction_collar_price = load_be (drop (offsetof LuldAuctionCollar ''upper_auction_collar_price'') p),
      LuldAuctionCollar_lower_auction_collar_price = load_be (drop (offsetof LuldAuctionCollar ''lower_auction_collar_price'') p),
      LuldAuctionCollar_auction_collar_extension = load_be (drop (offsetof LuldAuctionCollar ''auction_collar_extension'') p)\<rparr>"

record OperationalHalt_view =
  OperationalHalt_stock_locate :: u16
  OperationalHalt_tracking_number :: u16
  OperationalHalt_timestamp :: timestamp
  OperationalHalt_stock :: string
  OperationalHalt_market_code :: char
  OperationalHalt_operational_halt_action :: char

definition OperationalHaltView :: "u8 list \<Rightarrow> OperationalHalt_view" where
  "OperationalHaltView p =
     \<lparr>OperationalHalt_stock_locate = load_be (drop (offsetof OperationalHalt ''stock_locate'') p),
      OperationalHalt_tracking_number = load_be (drop (offsetof OperationalHalt ''tracking_number'') p),
      OperationalHalt_timestamp = load_be48 (drop (offsetof OperationalHalt ''timestamp'') p),
      OperationalHalt_stock = load_alpha 8 (drop (offsetof OperationalHalt ''stock'') p),
      OperationalHalt_market_code = load_char (drop (offsetof OperationalHalt ''market_code'') p),
      OperationalHalt_operational_halt_action = load_char (drop (offsetof OperationalHalt ''operational_halt_action'') p)\<rparr>"

record AddOrder_view =
  AddOrder_stock_locate :: u16
  AddOrder_tracking_number :: u16
  AddOrder_timestamp :: timestamp
  AddOrder_order_reference_number :: u64
  AddOrder_buy_sell_indicator :: char
  AddOrder_shares :: u32
  AddOrder_stock :: string
  AddOrder_price :: price

definition AddOrderView :: "u8 list \<Rightarrow> AddOrder_view" where
  "AddOrderView p =
     \<lparr>AddOrder_stock_locate = load_be (drop (offsetof AddOrder ''stock_locate'') p),
      AddOrder_tracking_number = load_be (drop (offsetof AddOrder ''tracking_number'') p),
      AddOrder_timestamp = load_be48 (drop (offsetof AddOrder ''timestamp'') p),
      AddOrder_order_reference_number = load_be (drop (offsetof AddOrder ''order_reference_number'') p),
      AddOrder_buy_sell_indicator = load_char (drop (offsetof AddOrder ''buy_sell_indicator'') p),
      AddOrder_shares = load_be (drop (offsetof AddOrder ''shares'') p),
      AddOrder_stock = load_alpha 8 (drop (offsetof AddOrder ''stock'') p),
      AddOrder_price = load_be (drop (offsetof AddOrder ''price'') p)\<rparr>"

record AddOrderWithMpid_view =
  AddOrderWithMpid_stock_locate :: u16
  AddOrderWithMpid_tracking_number :: u16
  AddOrderWithMpid_timestamp :: timestamp
  AddOrderWithMpid_order_reference_number :: u64
  AddOrderWithMpid_buy_sell_indicator :: char
  AddOrderWithMpid_shares :: u32
  AddOrderWithMpid_stock :: string
  AddOrderWithMpid_price :: price
  AddOrderWithMpid_attribution :: string

definition AddOrderWithMpidView :: "u8 list \<Rightarrow> AddOrderWithMpid_view" where
  "AddOrderWithMpidView p =
     \<lparr>AddOrderWithMpid_stock_locate = load_be (drop (offsetof AddOrderWithMpid ''stock_locate'') p),
      AddOrderWithMpid_tracking_number = load_be (drop (offsetof AddOrderWithMpid ''tracking_number'') p),
      AddOrderWithMpid_timestamp = load_be48 (drop (offsetof AddOrderWithMpid ''timestamp'') p),
      AddOrderWithMpid_order_reference_number = load_be (drop (offsetof AddOrderWithMpid ''order_reference_number'') p),
      AddOrderWithMpid_buy_sell_indicator = load_char (drop (offsetof AddOrderWithMpid ''buy_sell_indicator'') p),
      AddOrderWithMpid_shares = load_be (drop (offsetof AddOrderWithMpid ''shares'') p),
      AddOrderWithMpid_stock = load_alpha 8 (drop (offsetof AddOrderWithMpid ''stock'') p),
      AddOrderWithMpid_price = load_be (drop (offsetof AddOrderWithMpid ''price'') p),
      AddOrderWithMpid_attribution = load_alpha 4 (drop (offsetof AddOrderWithMpid ''attribution'') p)\<rparr>"

record OrderExecuted_view =
  OrderExecuted_stock_locate :: u16
  OrderExecuted_tracking_number :: u16
  OrderExecuted_timestamp :: timestamp
  OrderExecuted_order_reference_number :: u64
  OrderExecuted_executed_shares :: u32
  OrderExecuted_match_number :: u64

definition OrderExecutedView :: "u8 list \<Rightarrow> OrderExecuted_view" where
  "OrderExecutedView p =
     \<lparr>OrderExecuted_stock_locate = load_be (drop (offsetof OrderExecuted ''stock_locate'') p),
      OrderExecuted_tracking_number = load_be (drop (offsetof OrderExecuted ''tracking_number'') p),
      OrderExecuted_timestamp = load_be48 (drop (offsetof OrderExecuted ''timestamp'') p),
      OrderExecuted_order_reference_number = load_be (drop (offsetof OrderExecuted ''order_reference_number'') p),
      OrderExecuted_executed_shares = load_be (drop (offsetof OrderExecuted ''executed_shares'') p),
      OrderExecuted_match_number = load_be (drop (offsetof OrderExecuted ''match_number'') p)\<rparr>"

record OrderExecutedWithPrice_view =
  OrderExecutedWithPrice_stock_locate :: u16
  OrderExecutedWithPrice_tracking_number :: u16
  OrderExecutedWithPrice_timestamp :: timestamp
  OrderExecutedWithPrice_order_reference_number :: u64
  OrderExecutedWithPrice_executed_shares :: u32
  OrderExecutedWithPrice_match_number :: u64
  OrderExecutedWithPrice_printable :: char
  OrderExecutedWithPrice_execution_price :: price

definition OrderExecutedWithPriceView :: "u8 list \<Rightarrow> OrderExecutedWithPrice_view" where
  "OrderExecutedWithPriceView p =
     \<lparr>OrderExecutedWithPrice_stock_locate = load_be (drop (offsetof OrderExecutedWithPrice ''stock_locate'') p),
      OrderExecutedWithPrice_tracking_number = load_be (drop (offsetof OrderExecutedWithPrice ''tracking_number'') p),
      OrderExecutedWithPrice_timestamp = load_be48 (drop (offsetof OrderExecutedWithPrice ''timestamp'') p),
      OrderExecutedWithPrice_order_reference_number = load_be (drop (offsetof OrderExecutedWithPrice ''order_reference_number'') p),
      OrderExecutedWithPrice_executed_shares = load_be (drop (offsetof OrderExecutedWithPrice ''executed_shares'') p),
      OrderExecutedWithPrice_match_number = load_be (drop (offsetof OrderExecutedWithPrice ''match_number'') p),
      OrderExecutedWithPrice_printable = load_char (drop (offsetof OrderExecutedWithPrice ''printable'') p),
      OrderExecutedWithPrice_execution_price = load_be (drop (offsetof OrderExecutedWithPrice ''execution_price'') p)\<rparr>"

record OrderCancel_view =
  OrderCancel_stock_locate :: u16
  OrderCancel_tracking_number :: u16
  OrderCancel_timestamp :: timestamp
  OrderCancel_order_reference_number :: u64
  OrderCancel_cancelled_shares :: u32

definition OrderCancelView :: "u8 list \<Rightarrow> OrderCancel_view" where
  "OrderCancelView p =
     \<lparr>OrderCancel_stock_locate = load_be (drop (offsetof OrderCancel ''stock_locate'') p),
      OrderCancel_tracking_number = load_be (drop (offsetof OrderCancel ''tracking_number'') p),
      OrderCancel_timestamp = load_be48 (drop (offsetof OrderCancel ''timestamp'') p),
      OrderCancel_order_reference_number = load_be (drop (offsetof OrderCancel ''order_reference_number'') p),
      OrderCancel_cancelled_shares = load_be (drop (offsetof OrderCancel ''cancelled_shares'') p)\<rparr>"

record OrderDelete_view =
  OrderDelete_stock_locate :: u16
  OrderDelete_tracking_number :: u16
  OrderDelete_timestamp :: timestamp
  OrderDelete_order_reference_number :: u64

definition OrderDeleteView :: "u8 list \<Rightarrow> OrderDelete_view" where
  "OrderDeleteView p =
     \<lparr>OrderDelete_stock_locate = load_be (drop (offsetof OrderDelete ''stock_locate'') p),
      OrderDelete_tracking_number = load_be (drop (offsetof OrderDelete ''tracking_number'') p),
      OrderDelete_timestamp = load_be48 (drop (offsetof OrderDelete ''timestamp'') p),
      OrderDelete_order_reference_number = load_be (drop (offsetof OrderDelete ''order_reference_number'') p)\<rparr>"

record OrderReplace_view =
  OrderReplace_stock_locate :: u16
  OrderReplace_tracking_number :: u16
  OrderReplace_timestamp :: timestamp
  OrderReplace_original_order_reference_number :: u64
  OrderReplace_new_order_reference_number :: u64
  OrderReplace_shares :: u32
  OrderReplace_price :: price

definition OrderReplaceView :: "u8 list \<Rightarrow> OrderReplace_view" where
  "OrderReplaceView p =
     \<lparr>OrderReplace_stock_locate = load_be (drop (offsetof OrderReplace ''stock_locate'') p),
      OrderReplace_tracking_number = load_be (drop (offsetof OrderReplace ''tracking_number'') p),
      OrderReplace_timestamp = load_be48 (drop (offsetof OrderReplace ''timestamp'') p),
      OrderReplace_original_order_reference_number = load_be (drop (offsetof OrderReplace ''original_order_reference_number'') p),
      OrderReplace_new_order_reference_number = load_be (drop (offsetof OrderReplace ''new_order_reference_number'') p),
      OrderReplace_shares = load_be (drop (offsetof OrderReplace ''shares'') p),
      OrderReplace_price = load_be (drop (offsetof OrderReplace ''price'') p)\<rparr>"

record TradeNonCross_view =
  TradeNonCross_stock_locate :: u16
  TradeNonCross_tracking_number :: u16
  TradeNonCross_timestamp :: timestamp
  TradeNonCross_order_reference_number :: u64
  TradeNonCross_buy_sell_indicator :: char
  TradeNonCross_shares :: u32
  TradeNonCross_stock :: string
  TradeNonCross_price :: price
  TradeNonCross_match_number :: u64

definition TradeNonCrossView :: "u8 list \<Rightarrow> TradeNonCross_view" where
  "TradeNonCrossView p =
     \<lparr>TradeNonCross_stock_locate = load_be (drop (offsetof TradeNonCross ''stock_locate'') p),
      TradeNonCross_tracking_number = load_be (drop (offsetof TradeNonCross ''tracking_number'') p),
      TradeNonCross_timestamp = load_be48 (drop (offsetof TradeNonCross ''timestamp'') p),
      TradeNonCross_order_reference_number = load_be (drop (offsetof TradeNonCross ''order_reference_number'') p),
      TradeNonCross_buy_sell_indicator = load_char (drop (offsetof TradeNonCross ''buy_sell_indicator'') p),
      TradeNonCross_shares = load_be (drop (offsetof TradeNonCross ''shares'') p),
      TradeNonCross_stock = load_alpha 8 (drop (offsetof TradeNonCross ''stock'') p),
      TradeNonCross_price = load_be (drop (offsetof TradeNonCross ''price'') p),
      TradeNonCross_match_number = load_be (drop (offsetof TradeNonCross ''match_number'') p)\<rparr>"

record CrossTrade_view =
  CrossTrade_stock_locate :: u16
  CrossTrade_tracking_number :: u16
  CrossTrade_timestamp :: timestamp
  CrossTrade_shares :: u64
  CrossTrade_stock :: string
  CrossTrade_cross_price :: price
  CrossTrade_match_number :: u64
  CrossTrade_cross_type :: char

definition CrossTradeView :: "u8 list \<Rightarrow> CrossTrade_view" where
  "CrossTradeView p =
     \<lparr>CrossTrade_stock_locate = load_be (drop (offsetof CrossTrade ''stock_locate'') p),
      CrossTrade_tracking_number = load_be (drop (offsetof CrossTrade ''tracking_number'') p),
      CrossTrade_timestamp = load_be48 (drop (offsetof CrossTrade ''timestamp'') p),
      CrossTrade_shares = load_be (drop (offsetof CrossTrade ''shares'') p),
      CrossTrade_stock = load_alpha 8 (drop (offsetof CrossTrade ''stock'') p),
      CrossTrade_cross_price = load_be (drop (offsetof CrossTrade ''cross_price'') p),
      CrossTrade_match_number = load_be (drop (offsetof CrossTrade ''match_number'') p),
      CrossTrade_cross_type = load_char (drop (offsetof CrossTrade ''cross_type'') p)\<rparr>"

record BrokenTrade_view =
  BrokenTrade_stock_locate :: u16
  BrokenTrade_tracking_number :: u16
  BrokenTrade_timestamp :: timestamp
  BrokenTrade_match_number :: u64

definition BrokenTradeView :: "u8 list \<Rightarrow> BrokenTrade_view" where
  "BrokenTradeView p =
     \<lparr>BrokenTrade_stock_locate = load_be (drop (offsetof BrokenTrade ''stock_locate'') p),
      BrokenTrade_tracking_number = load_be (drop (offsetof BrokenTrade ''tracking_number'') p),
      BrokenTrade_timestamp = load_be48 (drop (offsetof BrokenTrade ''timestamp'') p),
      BrokenTrade_match_number = load_be (drop (offsetof BrokenTrade ''match_number'') p)\<rparr>"

record Noii_view =
  Noii_stock_locate :: u16
  Noii_tracking_number :: u16
  Noii_timestamp :: timestamp
  Noii_paired_shares :: u64
  Noii_imbalance_shares :: u64
  Noii_imbalance_direction :: char
  Noii_stock :: string
  Noii_far_price :: price
  Noii_near_price :: price
  Noii_current_reference_price :: price
  Noii_cross_type :: char
  Noii_price_variation_indicator :: char

definition NoiiView :: "u8 list \<Rightarrow> Noii_view" where
  "NoiiView p =
     \<lparr>Noii_stock_locate = load_be (drop (offsetof Noii ''stock_locate'') p),
      Noii_tracking_number = load_be (drop (offsetof Noii ''tracking_number'') p),
      Noii_timestamp = load_be48 (drop (offsetof Noii ''timestamp'') p),
      Noii_paired_shares = load_be (drop (offsetof Noii ''paired_shares'') p),
      Noii_imbalance_shares = load_be (drop (offsetof Noii ''imbalance_shares'') p),
      Noii_imbalance_direction = load_char (drop (offsetof Noii ''imbalance_direction'') p),
      Noii_stock = load_alpha 8 (drop (offsetof Noii ''stock'') p),
      Noii_far_price = load_be (drop (offsetof Noii ''far_price'') p),
      Noii_near_price = load_be (drop (offsetof Noii ''near_price'') p),
      Noii_current_reference_price = load_be (drop (offsetof Noii ''current_reference_price'') p),
      Noii_cross_type = load_char (drop (offsetof Noii ''cross_type'') p),
      Noii_price_variation_indicator = load_char (drop (offsetof Noii ''price_variation_indicator'') p)\<rparr>"

record RetailPriceImprovement_view =
  RetailPriceImprovement_stock_locate :: u16
  RetailPriceImprovement_tracking_number :: u16
  RetailPriceImprovement_timestamp :: timestamp
  RetailPriceImprovement_stock :: string
  RetailPriceImprovement_interest_flag :: char

definition RetailPriceImprovementView :: "u8 list \<Rightarrow> RetailPriceImprovement_view" where
  "RetailPriceImprovementView p =
     \<lparr>RetailPriceImprovement_stock_locate = load_be (drop (offsetof RetailPriceImprovement ''stock_locate'') p),
      RetailPriceImprovement_tracking_number = load_be (drop (offsetof RetailPriceImprovement ''tracking_number'') p),
      RetailPriceImprovement_timestamp = load_be48 (drop (offsetof RetailPriceImprovement ''timestamp'') p),
      RetailPriceImprovement_stock = load_alpha 8 (drop (offsetof RetailPriceImprovement ''stock'') p),
      RetailPriceImprovement_interest_flag = load_char (drop (offsetof RetailPriceImprovement ''interest_flag'') p)\<rparr>"

record DirectListingWithCapitalRaise_view =
  DirectListingWithCapitalRaise_stock_locate :: u16
  DirectListingWithCapitalRaise_tracking_number :: u16
  DirectListingWithCapitalRaise_timestamp :: timestamp
  DirectListingWithCapitalRaise_stock :: string
  DirectListingWithCapitalRaise_open_eligibility_status :: char
  DirectListingWithCapitalRaise_minimum_allowable_price :: price
  DirectListingWithCapitalRaise_maximum_allowable_price :: price
  DirectListingWithCapitalRaise_near_execution_price :: price
  DirectListingWithCapitalRaise_near_execution_time :: u64
  DirectListingWithCapitalRaise_lower_price_range_collar :: price
  DirectListingWithCapitalRaise_upper_price_range_collar :: price

definition DirectListingWithCapitalRaiseView :: "u8 list \<Rightarrow> DirectListingWithCapitalRaise_view" where
  "DirectListingWithCapitalRaiseView p =
     \<lparr>DirectListingWithCapitalRaise_stock_locate = load_be (drop (offsetof DirectListingWithCapitalRaise ''stock_locate'') p),
      DirectListingWithCapitalRaise_tracking_number = load_be (drop (offsetof DirectListingWithCapitalRaise ''tracking_number'') p),
      DirectListingWithCapitalRaise_timestamp = load_be48 (drop (offsetof DirectListingWithCapitalRaise ''timestamp'') p),
      DirectListingWithCapitalRaise_stock = load_alpha 8 (drop (offsetof DirectListingWithCapitalRaise ''stock'') p),
      DirectListingWithCapitalRaise_open_eligibility_status = load_char (drop (offsetof DirectListingWithCapitalRaise ''open_eligibility_status'') p),
      DirectListingWithCapitalRaise_minimum_allowable_price = load_be (drop (offsetof DirectListingWithCapitalRaise ''minimum_allowable_price'') p),
      DirectListingWithCapitalRaise_maximum_allowable_price = load_be (drop (offsetof DirectListingWithCapitalRaise ''maximum_allowable_price'') p),
      DirectListingWithCapitalRaise_near_execution_price = load_be (drop (offsetof DirectListingWithCapitalRaise ''near_execution_price'') p),
      DirectListingWithCapitalRaise_near_execution_time = load_be (drop (offsetof DirectListingWithCapitalRaise ''near_execution_time'') p),
      DirectListingWithCapitalRaise_lower_price_range_collar = load_be (drop (offsetof DirectListingWithCapitalRaise ''lower_price_range_collar'') p),
      DirectListingWithCapitalRaise_upper_price_range_collar = load_be (drop (offsetof DirectListingWithCapitalRaise ''upper_price_range_collar'') p)\<rparr>"

section \<open>Spelling a record out\<close>

definition SystemEvent_bytes :: "SystemEvent_view \<Rightarrow> u8 list" where
  "SystemEvent_bytes v =
     store_char (type_char M_SystemEvent) @
     store_be (SystemEvent_stock_locate v) @
     store_be (SystemEvent_tracking_number v) @
     store_be48 (SystemEvent_timestamp v) @
     store_char (SystemEvent_event_code v)"

definition SystemEvent_fits :: "SystemEvent_view \<Rightarrow> bool" where
  "SystemEvent_fits v \<longleftrightarrow> unat (SystemEvent_timestamp v) < 2 ^ 48"

lemma SystemEvent_round_trip:
  "SystemEvent_fits v \<Longrightarrow> SystemEventView (SystemEvent_bytes v @ rest) = v"
  by (simp add: SystemEvent_fits_def SystemEventView_def SystemEvent_bytes_def SystemEvent_def field_round_trips)

lemma SystemEvent_bytes_length:
  "SystemEvent_fits v \<Longrightarrow> length (SystemEvent_bytes v) = sizeof SystemEvent"
  by (simp add: SystemEvent_fits_def SystemEvent_bytes_def SystemEvent_def)

definition StockDirectory_bytes :: "StockDirectory_view \<Rightarrow> u8 list" where
  "StockDirectory_bytes v =
     store_char (type_char M_StockDirectory) @
     store_be (StockDirectory_stock_locate v) @
     store_be (StockDirectory_tracking_number v) @
     store_be48 (StockDirectory_timestamp v) @
     store_alpha (StockDirectory_stock v) @
     store_char (StockDirectory_market_category v) @
     store_char (StockDirectory_financial_status_indicator v) @
     store_be (StockDirectory_round_lot_size v) @
     store_char (StockDirectory_round_lots_only v) @
     store_char (StockDirectory_issue_classification v) @
     store_alpha (StockDirectory_issue_sub_type v) @
     store_char (StockDirectory_authenticity v) @
     store_char (StockDirectory_short_sale_threshold_indicator v) @
     store_char (StockDirectory_ipo_flag v) @
     store_char (StockDirectory_luld_reference_price_tier v) @
     store_char (StockDirectory_etp_flag v) @
     store_be (StockDirectory_etp_leverage_factor v) @
     store_char (StockDirectory_inverse_indicator v)"

definition StockDirectory_fits :: "StockDirectory_view \<Rightarrow> bool" where
  "StockDirectory_fits v \<longleftrightarrow> unat (StockDirectory_timestamp v) < 2 ^ 48 \<and> length (StockDirectory_stock v) = 8 \<and> length (StockDirectory_issue_sub_type v) = 2"

lemma StockDirectory_round_trip:
  "StockDirectory_fits v \<Longrightarrow> StockDirectoryView (StockDirectory_bytes v @ rest) = v"
  by (simp add: StockDirectory_fits_def StockDirectoryView_def StockDirectory_bytes_def StockDirectory_def field_round_trips)

lemma StockDirectory_bytes_length:
  "StockDirectory_fits v \<Longrightarrow> length (StockDirectory_bytes v) = sizeof StockDirectory"
  by (simp add: StockDirectory_fits_def StockDirectory_bytes_def StockDirectory_def)

definition StockTradingAction_bytes :: "StockTradingAction_view \<Rightarrow> u8 list" where
  "StockTradingAction_bytes v =
     store_char (type_char M_StockTradingAction) @
     store_be (StockTradingAction_stock_locate v) @
     store_be (StockTradingAction_tracking_number v) @
     store_be48 (StockTradingAction_timestamp v) @
     store_alpha (StockTradingAction_stock v) @
     store_char (StockTradingAction_trading_state v) @
     store_char (StockTradingAction_reserved v) @
     store_alpha (StockTradingAction_reason v)"

definition StockTradingAction_fits :: "StockTradingAction_view \<Rightarrow> bool" where
  "StockTradingAction_fits v \<longleftrightarrow> unat (StockTradingAction_timestamp v) < 2 ^ 48 \<and> length (StockTradingAction_stock v) = 8 \<and> length (StockTradingAction_reason v) = 4"

lemma StockTradingAction_round_trip:
  "StockTradingAction_fits v \<Longrightarrow> StockTradingActionView (StockTradingAction_bytes v @ rest) = v"
  by (simp add: StockTradingAction_fits_def StockTradingActionView_def StockTradingAction_bytes_def StockTradingAction_def field_round_trips)

lemma StockTradingAction_bytes_length:
  "StockTradingAction_fits v \<Longrightarrow> length (StockTradingAction_bytes v) = sizeof StockTradingAction"
  by (simp add: StockTradingAction_fits_def StockTradingAction_bytes_def StockTradingAction_def)

definition RegShoRestriction_bytes :: "RegShoRestriction_view \<Rightarrow> u8 list" where
  "RegShoRestriction_bytes v =
     store_char (type_char M_RegShoRestriction) @
     store_be (RegShoRestriction_stock_locate v) @
     store_be (RegShoRestriction_tracking_number v) @
     store_be48 (RegShoRestriction_timestamp v) @
     store_alpha (RegShoRestriction_stock v) @
     store_char (RegShoRestriction_reg_sho_action v)"

definition RegShoRestriction_fits :: "RegShoRestriction_view \<Rightarrow> bool" where
  "RegShoRestriction_fits v \<longleftrightarrow> unat (RegShoRestriction_timestamp v) < 2 ^ 48 \<and> length (RegShoRestriction_stock v) = 8"

lemma RegShoRestriction_round_trip:
  "RegShoRestriction_fits v \<Longrightarrow> RegShoRestrictionView (RegShoRestriction_bytes v @ rest) = v"
  by (simp add: RegShoRestriction_fits_def RegShoRestrictionView_def RegShoRestriction_bytes_def RegShoRestriction_def field_round_trips)

lemma RegShoRestriction_bytes_length:
  "RegShoRestriction_fits v \<Longrightarrow> length (RegShoRestriction_bytes v) = sizeof RegShoRestriction"
  by (simp add: RegShoRestriction_fits_def RegShoRestriction_bytes_def RegShoRestriction_def)

definition MarketParticipantPosition_bytes :: "MarketParticipantPosition_view \<Rightarrow> u8 list" where
  "MarketParticipantPosition_bytes v =
     store_char (type_char M_MarketParticipantPosition) @
     store_be (MarketParticipantPosition_stock_locate v) @
     store_be (MarketParticipantPosition_tracking_number v) @
     store_be48 (MarketParticipantPosition_timestamp v) @
     store_alpha (MarketParticipantPosition_mpid v) @
     store_alpha (MarketParticipantPosition_stock v) @
     store_char (MarketParticipantPosition_primary_market v) @
     store_char (MarketParticipantPosition_market_maker_mode v) @
     store_char (MarketParticipantPosition_market_participant_state v)"

definition MarketParticipantPosition_fits :: "MarketParticipantPosition_view \<Rightarrow> bool" where
  "MarketParticipantPosition_fits v \<longleftrightarrow> unat (MarketParticipantPosition_timestamp v) < 2 ^ 48 \<and> length (MarketParticipantPosition_mpid v) = 4 \<and> length (MarketParticipantPosition_stock v) = 8"

lemma MarketParticipantPosition_round_trip:
  "MarketParticipantPosition_fits v \<Longrightarrow> MarketParticipantPositionView (MarketParticipantPosition_bytes v @ rest) = v"
  by (simp add: MarketParticipantPosition_fits_def MarketParticipantPositionView_def MarketParticipantPosition_bytes_def MarketParticipantPosition_def field_round_trips)

lemma MarketParticipantPosition_bytes_length:
  "MarketParticipantPosition_fits v \<Longrightarrow> length (MarketParticipantPosition_bytes v) = sizeof MarketParticipantPosition"
  by (simp add: MarketParticipantPosition_fits_def MarketParticipantPosition_bytes_def MarketParticipantPosition_def)

definition MwcbDeclineLevel_bytes :: "MwcbDeclineLevel_view \<Rightarrow> u8 list" where
  "MwcbDeclineLevel_bytes v =
     store_char (type_char M_MwcbDeclineLevel) @
     store_be (MwcbDeclineLevel_stock_locate v) @
     store_be (MwcbDeclineLevel_tracking_number v) @
     store_be48 (MwcbDeclineLevel_timestamp v) @
     store_be (MwcbDeclineLevel_level_1 v) @
     store_be (MwcbDeclineLevel_level_2 v) @
     store_be (MwcbDeclineLevel_level_3 v)"

definition MwcbDeclineLevel_fits :: "MwcbDeclineLevel_view \<Rightarrow> bool" where
  "MwcbDeclineLevel_fits v \<longleftrightarrow> unat (MwcbDeclineLevel_timestamp v) < 2 ^ 48"

lemma MwcbDeclineLevel_round_trip:
  "MwcbDeclineLevel_fits v \<Longrightarrow> MwcbDeclineLevelView (MwcbDeclineLevel_bytes v @ rest) = v"
  by (simp add: MwcbDeclineLevel_fits_def MwcbDeclineLevelView_def MwcbDeclineLevel_bytes_def MwcbDeclineLevel_def field_round_trips)

lemma MwcbDeclineLevel_bytes_length:
  "MwcbDeclineLevel_fits v \<Longrightarrow> length (MwcbDeclineLevel_bytes v) = sizeof MwcbDeclineLevel"
  by (simp add: MwcbDeclineLevel_fits_def MwcbDeclineLevel_bytes_def MwcbDeclineLevel_def)

definition MwcbStatus_bytes :: "MwcbStatus_view \<Rightarrow> u8 list" where
  "MwcbStatus_bytes v =
     store_char (type_char M_MwcbStatus) @
     store_be (MwcbStatus_stock_locate v) @
     store_be (MwcbStatus_tracking_number v) @
     store_be48 (MwcbStatus_timestamp v) @
     store_char (MwcbStatus_breached_level v)"

definition MwcbStatus_fits :: "MwcbStatus_view \<Rightarrow> bool" where
  "MwcbStatus_fits v \<longleftrightarrow> unat (MwcbStatus_timestamp v) < 2 ^ 48"

lemma MwcbStatus_round_trip:
  "MwcbStatus_fits v \<Longrightarrow> MwcbStatusView (MwcbStatus_bytes v @ rest) = v"
  by (simp add: MwcbStatus_fits_def MwcbStatusView_def MwcbStatus_bytes_def MwcbStatus_def field_round_trips)

lemma MwcbStatus_bytes_length:
  "MwcbStatus_fits v \<Longrightarrow> length (MwcbStatus_bytes v) = sizeof MwcbStatus"
  by (simp add: MwcbStatus_fits_def MwcbStatus_bytes_def MwcbStatus_def)

definition IpoQuotingPeriodUpdate_bytes :: "IpoQuotingPeriodUpdate_view \<Rightarrow> u8 list" where
  "IpoQuotingPeriodUpdate_bytes v =
     store_char (type_char M_IpoQuotingPeriodUpdate) @
     store_be (IpoQuotingPeriodUpdate_stock_locate v) @
     store_be (IpoQuotingPeriodUpdate_tracking_number v) @
     store_be48 (IpoQuotingPeriodUpdate_timestamp v) @
     store_alpha (IpoQuotingPeriodUpdate_stock v) @
     store_be (IpoQuotingPeriodUpdate_ipo_quotation_release_time v) @
     store_char (IpoQuotingPeriodUpdate_ipo_quotation_release_qualifier v) @
     store_be (IpoQuotingPeriodUpdate_ipo_price v)"

definition IpoQuotingPeriodUpdate_fits :: "IpoQuotingPeriodUpdate_view \<Rightarrow> bool" where
  "IpoQuotingPeriodUpdate_fits v \<longleftrightarrow> unat (IpoQuotingPeriodUpdate_timestamp v) < 2 ^ 48 \<and> length (IpoQuotingPeriodUpdate_stock v) = 8"

lemma IpoQuotingPeriodUpdate_round_trip:
  "IpoQuotingPeriodUpdate_fits v \<Longrightarrow> IpoQuotingPeriodUpdateView (IpoQuotingPeriodUpdate_bytes v @ rest) = v"
  by (simp add: IpoQuotingPeriodUpdate_fits_def IpoQuotingPeriodUpdateView_def IpoQuotingPeriodUpdate_bytes_def IpoQuotingPeriodUpdate_def field_round_trips)

lemma IpoQuotingPeriodUpdate_bytes_length:
  "IpoQuotingPeriodUpdate_fits v \<Longrightarrow> length (IpoQuotingPeriodUpdate_bytes v) = sizeof IpoQuotingPeriodUpdate"
  by (simp add: IpoQuotingPeriodUpdate_fits_def IpoQuotingPeriodUpdate_bytes_def IpoQuotingPeriodUpdate_def)

definition LuldAuctionCollar_bytes :: "LuldAuctionCollar_view \<Rightarrow> u8 list" where
  "LuldAuctionCollar_bytes v =
     store_char (type_char M_LuldAuctionCollar) @
     store_be (LuldAuctionCollar_stock_locate v) @
     store_be (LuldAuctionCollar_tracking_number v) @
     store_be48 (LuldAuctionCollar_timestamp v) @
     store_alpha (LuldAuctionCollar_stock v) @
     store_be (LuldAuctionCollar_auction_collar_reference_price v) @
     store_be (LuldAuctionCollar_upper_auction_collar_price v) @
     store_be (LuldAuctionCollar_lower_auction_collar_price v) @
     store_be (LuldAuctionCollar_auction_collar_extension v)"

definition LuldAuctionCollar_fits :: "LuldAuctionCollar_view \<Rightarrow> bool" where
  "LuldAuctionCollar_fits v \<longleftrightarrow> unat (LuldAuctionCollar_timestamp v) < 2 ^ 48 \<and> length (LuldAuctionCollar_stock v) = 8"

lemma LuldAuctionCollar_round_trip:
  "LuldAuctionCollar_fits v \<Longrightarrow> LuldAuctionCollarView (LuldAuctionCollar_bytes v @ rest) = v"
  by (simp add: LuldAuctionCollar_fits_def LuldAuctionCollarView_def LuldAuctionCollar_bytes_def LuldAuctionCollar_def field_round_trips)

lemma LuldAuctionCollar_bytes_length:
  "LuldAuctionCollar_fits v \<Longrightarrow> length (LuldAuctionCollar_bytes v) = sizeof LuldAuctionCollar"
  by (simp add: LuldAuctionCollar_fits_def LuldAuctionCollar_bytes_def LuldAuctionCollar_def)

definition OperationalHalt_bytes :: "OperationalHalt_view \<Rightarrow> u8 list" where
  "OperationalHalt_bytes v =
     store_char (type_char M_OperationalHalt) @
     store_be (OperationalHalt_stock_locate v) @
     store_be (OperationalHalt_tracking_number v) @
     store_be48 (OperationalHalt_timestamp v) @
     store_alpha (OperationalHalt_stock v) @
     store_char (OperationalHalt_market_code v) @
     store_char (OperationalHalt_operational_halt_action v)"

definition OperationalHalt_fits :: "OperationalHalt_view \<Rightarrow> bool" where
  "OperationalHalt_fits v \<longleftrightarrow> unat (OperationalHalt_timestamp v) < 2 ^ 48 \<and> length (OperationalHalt_stock v) = 8"

lemma OperationalHalt_round_trip:
  "OperationalHalt_fits v \<Longrightarrow> OperationalHaltView (OperationalHalt_bytes v @ rest) = v"
  by (simp add: OperationalHalt_fits_def OperationalHaltView_def OperationalHalt_bytes_def OperationalHalt_def field_round_trips)

lemma OperationalHalt_bytes_length:
  "OperationalHalt_fits v \<Longrightarrow> length (OperationalHalt_bytes v) = sizeof OperationalHalt"
  by (simp add: OperationalHalt_fits_def OperationalHalt_bytes_def OperationalHalt_def)

definition AddOrder_bytes :: "AddOrder_view \<Rightarrow> u8 list" where
  "AddOrder_bytes v =
     store_char (type_char M_AddOrder) @
     store_be (AddOrder_stock_locate v) @
     store_be (AddOrder_tracking_number v) @
     store_be48 (AddOrder_timestamp v) @
     store_be (AddOrder_order_reference_number v) @
     store_char (AddOrder_buy_sell_indicator v) @
     store_be (AddOrder_shares v) @
     store_alpha (AddOrder_stock v) @
     store_be (AddOrder_price v)"

definition AddOrder_fits :: "AddOrder_view \<Rightarrow> bool" where
  "AddOrder_fits v \<longleftrightarrow> unat (AddOrder_timestamp v) < 2 ^ 48 \<and> length (AddOrder_stock v) = 8"

lemma AddOrder_round_trip:
  "AddOrder_fits v \<Longrightarrow> AddOrderView (AddOrder_bytes v @ rest) = v"
  by (simp add: AddOrder_fits_def AddOrderView_def AddOrder_bytes_def AddOrder_def field_round_trips)

lemma AddOrder_bytes_length:
  "AddOrder_fits v \<Longrightarrow> length (AddOrder_bytes v) = sizeof AddOrder"
  by (simp add: AddOrder_fits_def AddOrder_bytes_def AddOrder_def)

definition AddOrderWithMpid_bytes :: "AddOrderWithMpid_view \<Rightarrow> u8 list" where
  "AddOrderWithMpid_bytes v =
     store_char (type_char M_AddOrderWithMpid) @
     store_be (AddOrderWithMpid_stock_locate v) @
     store_be (AddOrderWithMpid_tracking_number v) @
     store_be48 (AddOrderWithMpid_timestamp v) @
     store_be (AddOrderWithMpid_order_reference_number v) @
     store_char (AddOrderWithMpid_buy_sell_indicator v) @
     store_be (AddOrderWithMpid_shares v) @
     store_alpha (AddOrderWithMpid_stock v) @
     store_be (AddOrderWithMpid_price v) @
     store_alpha (AddOrderWithMpid_attribution v)"

definition AddOrderWithMpid_fits :: "AddOrderWithMpid_view \<Rightarrow> bool" where
  "AddOrderWithMpid_fits v \<longleftrightarrow> unat (AddOrderWithMpid_timestamp v) < 2 ^ 48 \<and> length (AddOrderWithMpid_stock v) = 8 \<and> length (AddOrderWithMpid_attribution v) = 4"

lemma AddOrderWithMpid_round_trip:
  "AddOrderWithMpid_fits v \<Longrightarrow> AddOrderWithMpidView (AddOrderWithMpid_bytes v @ rest) = v"
  by (simp add: AddOrderWithMpid_fits_def AddOrderWithMpidView_def AddOrderWithMpid_bytes_def AddOrderWithMpid_def field_round_trips)

lemma AddOrderWithMpid_bytes_length:
  "AddOrderWithMpid_fits v \<Longrightarrow> length (AddOrderWithMpid_bytes v) = sizeof AddOrderWithMpid"
  by (simp add: AddOrderWithMpid_fits_def AddOrderWithMpid_bytes_def AddOrderWithMpid_def)

definition OrderExecuted_bytes :: "OrderExecuted_view \<Rightarrow> u8 list" where
  "OrderExecuted_bytes v =
     store_char (type_char M_OrderExecuted) @
     store_be (OrderExecuted_stock_locate v) @
     store_be (OrderExecuted_tracking_number v) @
     store_be48 (OrderExecuted_timestamp v) @
     store_be (OrderExecuted_order_reference_number v) @
     store_be (OrderExecuted_executed_shares v) @
     store_be (OrderExecuted_match_number v)"

definition OrderExecuted_fits :: "OrderExecuted_view \<Rightarrow> bool" where
  "OrderExecuted_fits v \<longleftrightarrow> unat (OrderExecuted_timestamp v) < 2 ^ 48"

lemma OrderExecuted_round_trip:
  "OrderExecuted_fits v \<Longrightarrow> OrderExecutedView (OrderExecuted_bytes v @ rest) = v"
  by (simp add: OrderExecuted_fits_def OrderExecutedView_def OrderExecuted_bytes_def OrderExecuted_def field_round_trips)

lemma OrderExecuted_bytes_length:
  "OrderExecuted_fits v \<Longrightarrow> length (OrderExecuted_bytes v) = sizeof OrderExecuted"
  by (simp add: OrderExecuted_fits_def OrderExecuted_bytes_def OrderExecuted_def)

definition OrderExecutedWithPrice_bytes :: "OrderExecutedWithPrice_view \<Rightarrow> u8 list" where
  "OrderExecutedWithPrice_bytes v =
     store_char (type_char M_OrderExecutedWithPrice) @
     store_be (OrderExecutedWithPrice_stock_locate v) @
     store_be (OrderExecutedWithPrice_tracking_number v) @
     store_be48 (OrderExecutedWithPrice_timestamp v) @
     store_be (OrderExecutedWithPrice_order_reference_number v) @
     store_be (OrderExecutedWithPrice_executed_shares v) @
     store_be (OrderExecutedWithPrice_match_number v) @
     store_char (OrderExecutedWithPrice_printable v) @
     store_be (OrderExecutedWithPrice_execution_price v)"

definition OrderExecutedWithPrice_fits :: "OrderExecutedWithPrice_view \<Rightarrow> bool" where
  "OrderExecutedWithPrice_fits v \<longleftrightarrow> unat (OrderExecutedWithPrice_timestamp v) < 2 ^ 48"

lemma OrderExecutedWithPrice_round_trip:
  "OrderExecutedWithPrice_fits v \<Longrightarrow> OrderExecutedWithPriceView (OrderExecutedWithPrice_bytes v @ rest) = v"
  by (simp add: OrderExecutedWithPrice_fits_def OrderExecutedWithPriceView_def OrderExecutedWithPrice_bytes_def OrderExecutedWithPrice_def field_round_trips)

lemma OrderExecutedWithPrice_bytes_length:
  "OrderExecutedWithPrice_fits v \<Longrightarrow> length (OrderExecutedWithPrice_bytes v) = sizeof OrderExecutedWithPrice"
  by (simp add: OrderExecutedWithPrice_fits_def OrderExecutedWithPrice_bytes_def OrderExecutedWithPrice_def)

definition OrderCancel_bytes :: "OrderCancel_view \<Rightarrow> u8 list" where
  "OrderCancel_bytes v =
     store_char (type_char M_OrderCancel) @
     store_be (OrderCancel_stock_locate v) @
     store_be (OrderCancel_tracking_number v) @
     store_be48 (OrderCancel_timestamp v) @
     store_be (OrderCancel_order_reference_number v) @
     store_be (OrderCancel_cancelled_shares v)"

definition OrderCancel_fits :: "OrderCancel_view \<Rightarrow> bool" where
  "OrderCancel_fits v \<longleftrightarrow> unat (OrderCancel_timestamp v) < 2 ^ 48"

lemma OrderCancel_round_trip:
  "OrderCancel_fits v \<Longrightarrow> OrderCancelView (OrderCancel_bytes v @ rest) = v"
  by (simp add: OrderCancel_fits_def OrderCancelView_def OrderCancel_bytes_def OrderCancel_def field_round_trips)

lemma OrderCancel_bytes_length:
  "OrderCancel_fits v \<Longrightarrow> length (OrderCancel_bytes v) = sizeof OrderCancel"
  by (simp add: OrderCancel_fits_def OrderCancel_bytes_def OrderCancel_def)

definition OrderDelete_bytes :: "OrderDelete_view \<Rightarrow> u8 list" where
  "OrderDelete_bytes v =
     store_char (type_char M_OrderDelete) @
     store_be (OrderDelete_stock_locate v) @
     store_be (OrderDelete_tracking_number v) @
     store_be48 (OrderDelete_timestamp v) @
     store_be (OrderDelete_order_reference_number v)"

definition OrderDelete_fits :: "OrderDelete_view \<Rightarrow> bool" where
  "OrderDelete_fits v \<longleftrightarrow> unat (OrderDelete_timestamp v) < 2 ^ 48"

lemma OrderDelete_round_trip:
  "OrderDelete_fits v \<Longrightarrow> OrderDeleteView (OrderDelete_bytes v @ rest) = v"
  by (simp add: OrderDelete_fits_def OrderDeleteView_def OrderDelete_bytes_def OrderDelete_def field_round_trips)

lemma OrderDelete_bytes_length:
  "OrderDelete_fits v \<Longrightarrow> length (OrderDelete_bytes v) = sizeof OrderDelete"
  by (simp add: OrderDelete_fits_def OrderDelete_bytes_def OrderDelete_def)

definition OrderReplace_bytes :: "OrderReplace_view \<Rightarrow> u8 list" where
  "OrderReplace_bytes v =
     store_char (type_char M_OrderReplace) @
     store_be (OrderReplace_stock_locate v) @
     store_be (OrderReplace_tracking_number v) @
     store_be48 (OrderReplace_timestamp v) @
     store_be (OrderReplace_original_order_reference_number v) @
     store_be (OrderReplace_new_order_reference_number v) @
     store_be (OrderReplace_shares v) @
     store_be (OrderReplace_price v)"

definition OrderReplace_fits :: "OrderReplace_view \<Rightarrow> bool" where
  "OrderReplace_fits v \<longleftrightarrow> unat (OrderReplace_timestamp v) < 2 ^ 48"

lemma OrderReplace_round_trip:
  "OrderReplace_fits v \<Longrightarrow> OrderReplaceView (OrderReplace_bytes v @ rest) = v"
  by (simp add: OrderReplace_fits_def OrderReplaceView_def OrderReplace_bytes_def OrderReplace_def field_round_trips)

lemma OrderReplace_bytes_length:
  "OrderReplace_fits v \<Longrightarrow> length (OrderReplace_bytes v) = sizeof OrderReplace"
  by (simp add: OrderReplace_fits_def OrderReplace_bytes_def OrderReplace_def)

definition TradeNonCross_bytes :: "TradeNonCross_view \<Rightarrow> u8 list" where
  "TradeNonCross_bytes v =
     store_char (type_char M_TradeNonCross) @
     store_be (TradeNonCross_stock_locate v) @
     store_be (TradeNonCross_tracking_number v) @
     store_be48 (TradeNonCross_timestamp v) @
     store_be (TradeNonCross_order_reference_number v) @
     store_char (TradeNonCross_buy_sell_indicator v) @
     store_be (TradeNonCross_shares v) @
     store_alpha (TradeNonCross_stock v) @
     store_be (TradeNonCross_price v) @
     store_be (TradeNonCross_match_number v)"

definition TradeNonCross_fits :: "TradeNonCross_view \<Rightarrow> bool" where
  "TradeNonCross_fits v \<longleftrightarrow> unat (TradeNonCross_timestamp v) < 2 ^ 48 \<and> length (TradeNonCross_stock v) = 8"

lemma TradeNonCross_round_trip:
  "TradeNonCross_fits v \<Longrightarrow> TradeNonCrossView (TradeNonCross_bytes v @ rest) = v"
  by (simp add: TradeNonCross_fits_def TradeNonCrossView_def TradeNonCross_bytes_def TradeNonCross_def field_round_trips)

lemma TradeNonCross_bytes_length:
  "TradeNonCross_fits v \<Longrightarrow> length (TradeNonCross_bytes v) = sizeof TradeNonCross"
  by (simp add: TradeNonCross_fits_def TradeNonCross_bytes_def TradeNonCross_def)

definition CrossTrade_bytes :: "CrossTrade_view \<Rightarrow> u8 list" where
  "CrossTrade_bytes v =
     store_char (type_char M_CrossTrade) @
     store_be (CrossTrade_stock_locate v) @
     store_be (CrossTrade_tracking_number v) @
     store_be48 (CrossTrade_timestamp v) @
     store_be (CrossTrade_shares v) @
     store_alpha (CrossTrade_stock v) @
     store_be (CrossTrade_cross_price v) @
     store_be (CrossTrade_match_number v) @
     store_char (CrossTrade_cross_type v)"

definition CrossTrade_fits :: "CrossTrade_view \<Rightarrow> bool" where
  "CrossTrade_fits v \<longleftrightarrow> unat (CrossTrade_timestamp v) < 2 ^ 48 \<and> length (CrossTrade_stock v) = 8"

lemma CrossTrade_round_trip:
  "CrossTrade_fits v \<Longrightarrow> CrossTradeView (CrossTrade_bytes v @ rest) = v"
  by (simp add: CrossTrade_fits_def CrossTradeView_def CrossTrade_bytes_def CrossTrade_def field_round_trips)

lemma CrossTrade_bytes_length:
  "CrossTrade_fits v \<Longrightarrow> length (CrossTrade_bytes v) = sizeof CrossTrade"
  by (simp add: CrossTrade_fits_def CrossTrade_bytes_def CrossTrade_def)

definition BrokenTrade_bytes :: "BrokenTrade_view \<Rightarrow> u8 list" where
  "BrokenTrade_bytes v =
     store_char (type_char M_BrokenTrade) @
     store_be (BrokenTrade_stock_locate v) @
     store_be (BrokenTrade_tracking_number v) @
     store_be48 (BrokenTrade_timestamp v) @
     store_be (BrokenTrade_match_number v)"

definition BrokenTrade_fits :: "BrokenTrade_view \<Rightarrow> bool" where
  "BrokenTrade_fits v \<longleftrightarrow> unat (BrokenTrade_timestamp v) < 2 ^ 48"

lemma BrokenTrade_round_trip:
  "BrokenTrade_fits v \<Longrightarrow> BrokenTradeView (BrokenTrade_bytes v @ rest) = v"
  by (simp add: BrokenTrade_fits_def BrokenTradeView_def BrokenTrade_bytes_def BrokenTrade_def field_round_trips)

lemma BrokenTrade_bytes_length:
  "BrokenTrade_fits v \<Longrightarrow> length (BrokenTrade_bytes v) = sizeof BrokenTrade"
  by (simp add: BrokenTrade_fits_def BrokenTrade_bytes_def BrokenTrade_def)

definition Noii_bytes :: "Noii_view \<Rightarrow> u8 list" where
  "Noii_bytes v =
     store_char (type_char M_Noii) @
     store_be (Noii_stock_locate v) @
     store_be (Noii_tracking_number v) @
     store_be48 (Noii_timestamp v) @
     store_be (Noii_paired_shares v) @
     store_be (Noii_imbalance_shares v) @
     store_char (Noii_imbalance_direction v) @
     store_alpha (Noii_stock v) @
     store_be (Noii_far_price v) @
     store_be (Noii_near_price v) @
     store_be (Noii_current_reference_price v) @
     store_char (Noii_cross_type v) @
     store_char (Noii_price_variation_indicator v)"

definition Noii_fits :: "Noii_view \<Rightarrow> bool" where
  "Noii_fits v \<longleftrightarrow> unat (Noii_timestamp v) < 2 ^ 48 \<and> length (Noii_stock v) = 8"

lemma Noii_round_trip:
  "Noii_fits v \<Longrightarrow> NoiiView (Noii_bytes v @ rest) = v"
  by (simp add: Noii_fits_def NoiiView_def Noii_bytes_def Noii_def field_round_trips)

lemma Noii_bytes_length:
  "Noii_fits v \<Longrightarrow> length (Noii_bytes v) = sizeof Noii"
  by (simp add: Noii_fits_def Noii_bytes_def Noii_def)

definition RetailPriceImprovement_bytes :: "RetailPriceImprovement_view \<Rightarrow> u8 list" where
  "RetailPriceImprovement_bytes v =
     store_char (type_char M_RetailPriceImprovement) @
     store_be (RetailPriceImprovement_stock_locate v) @
     store_be (RetailPriceImprovement_tracking_number v) @
     store_be48 (RetailPriceImprovement_timestamp v) @
     store_alpha (RetailPriceImprovement_stock v) @
     store_char (RetailPriceImprovement_interest_flag v)"

definition RetailPriceImprovement_fits :: "RetailPriceImprovement_view \<Rightarrow> bool" where
  "RetailPriceImprovement_fits v \<longleftrightarrow> unat (RetailPriceImprovement_timestamp v) < 2 ^ 48 \<and> length (RetailPriceImprovement_stock v) = 8"

lemma RetailPriceImprovement_round_trip:
  "RetailPriceImprovement_fits v \<Longrightarrow> RetailPriceImprovementView (RetailPriceImprovement_bytes v @ rest) = v"
  by (simp add: RetailPriceImprovement_fits_def RetailPriceImprovementView_def RetailPriceImprovement_bytes_def RetailPriceImprovement_def field_round_trips)

lemma RetailPriceImprovement_bytes_length:
  "RetailPriceImprovement_fits v \<Longrightarrow> length (RetailPriceImprovement_bytes v) = sizeof RetailPriceImprovement"
  by (simp add: RetailPriceImprovement_fits_def RetailPriceImprovement_bytes_def RetailPriceImprovement_def)

definition DirectListingWithCapitalRaise_bytes :: "DirectListingWithCapitalRaise_view \<Rightarrow> u8 list" where
  "DirectListingWithCapitalRaise_bytes v =
     store_char (type_char M_DirectListingWithCapitalRaise) @
     store_be (DirectListingWithCapitalRaise_stock_locate v) @
     store_be (DirectListingWithCapitalRaise_tracking_number v) @
     store_be48 (DirectListingWithCapitalRaise_timestamp v) @
     store_alpha (DirectListingWithCapitalRaise_stock v) @
     store_char (DirectListingWithCapitalRaise_open_eligibility_status v) @
     store_be (DirectListingWithCapitalRaise_minimum_allowable_price v) @
     store_be (DirectListingWithCapitalRaise_maximum_allowable_price v) @
     store_be (DirectListingWithCapitalRaise_near_execution_price v) @
     store_be (DirectListingWithCapitalRaise_near_execution_time v) @
     store_be (DirectListingWithCapitalRaise_lower_price_range_collar v) @
     store_be (DirectListingWithCapitalRaise_upper_price_range_collar v)"

definition DirectListingWithCapitalRaise_fits :: "DirectListingWithCapitalRaise_view \<Rightarrow> bool" where
  "DirectListingWithCapitalRaise_fits v \<longleftrightarrow> unat (DirectListingWithCapitalRaise_timestamp v) < 2 ^ 48 \<and> length (DirectListingWithCapitalRaise_stock v) = 8"

lemma DirectListingWithCapitalRaise_round_trip:
  "DirectListingWithCapitalRaise_fits v \<Longrightarrow> DirectListingWithCapitalRaiseView (DirectListingWithCapitalRaise_bytes v @ rest) = v"
  by (simp add: DirectListingWithCapitalRaise_fits_def DirectListingWithCapitalRaiseView_def DirectListingWithCapitalRaise_bytes_def DirectListingWithCapitalRaise_def field_round_trips)

lemma DirectListingWithCapitalRaise_bytes_length:
  "DirectListingWithCapitalRaise_fits v \<Longrightarrow> length (DirectListingWithCapitalRaise_bytes v) = sizeof DirectListingWithCapitalRaise"
  by (simp add: DirectListingWithCapitalRaise_fits_def DirectListingWithCapitalRaise_bytes_def DirectListingWithCapitalRaise_def)

section \<open>Dispatch\<close>

text \<open>
  The calls \<open>handler.on_x(XView{p})\<close>. A handler is a function of the call and of its own
  state; a method the handler does not have leaves the state as it is.
\<close>

datatype event =
    on_system_event "SystemEvent_view"
  | on_stock_directory "StockDirectory_view"
  | on_stock_trading_action "StockTradingAction_view"
  | on_reg_sho_restriction "RegShoRestriction_view"
  | on_market_participant_position "MarketParticipantPosition_view"
  | on_mwcb_decline_level "MwcbDeclineLevel_view"
  | on_mwcb_status "MwcbStatus_view"
  | on_ipo_quoting_period_update "IpoQuotingPeriodUpdate_view"
  | on_luld_auction_collar "LuldAuctionCollar_view"
  | on_operational_halt "OperationalHalt_view"
  | on_add_order "AddOrder_view"
  | on_add_order_with_mpid "AddOrderWithMpid_view"
  | on_order_executed "OrderExecuted_view"
  | on_order_executed_with_price "OrderExecutedWithPrice_view"
  | on_order_cancel "OrderCancel_view"
  | on_order_delete "OrderDelete_view"
  | on_order_replace "OrderReplace_view"
  | on_trade_non_cross "TradeNonCross_view"
  | on_cross_trade "CrossTrade_view"
  | on_broken_trade "BrokenTrade_view"
  | on_noii "Noii_view"
  | on_retail_price_improvement "RetailPriceImprovement_view"
  | on_direct_listing_with_capital_raise "DirectListingWithCapitalRaise_view"

definition event_at :: "u8 list \<Rightarrow> event option" where
  "event_at p =
     (let c = load_char p in
      if c = CHR ''S'' then Some (on_system_event (SystemEventView p))
      else if c = CHR ''R'' then Some (on_stock_directory (StockDirectoryView p))
      else if c = CHR ''H'' then Some (on_stock_trading_action (StockTradingActionView p))
      else if c = CHR ''Y'' then Some (on_reg_sho_restriction (RegShoRestrictionView p))
      else if c = CHR ''L'' then Some (on_market_participant_position (MarketParticipantPositionView p))
      else if c = CHR ''V'' then Some (on_mwcb_decline_level (MwcbDeclineLevelView p))
      else if c = CHR ''W'' then Some (on_mwcb_status (MwcbStatusView p))
      else if c = CHR ''K'' then Some (on_ipo_quoting_period_update (IpoQuotingPeriodUpdateView p))
      else if c = CHR ''J'' then Some (on_luld_auction_collar (LuldAuctionCollarView p))
      else if c = CHR ''h'' then Some (on_operational_halt (OperationalHaltView p))
      else if c = CHR ''A'' then Some (on_add_order (AddOrderView p))
      else if c = CHR ''F'' then Some (on_add_order_with_mpid (AddOrderWithMpidView p))
      else if c = CHR ''E'' then Some (on_order_executed (OrderExecutedView p))
      else if c = CHR ''C'' then Some (on_order_executed_with_price (OrderExecutedWithPriceView p))
      else if c = CHR ''X'' then Some (on_order_cancel (OrderCancelView p))
      else if c = CHR ''D'' then Some (on_order_delete (OrderDeleteView p))
      else if c = CHR ''U'' then Some (on_order_replace (OrderReplaceView p))
      else if c = CHR ''P'' then Some (on_trade_non_cross (TradeNonCrossView p))
      else if c = CHR ''Q'' then Some (on_cross_trade (CrossTradeView p))
      else if c = CHR ''B'' then Some (on_broken_trade (BrokenTradeView p))
      else if c = CHR ''I'' then Some (on_noii (NoiiView p))
      else if c = CHR ''N'' then Some (on_retail_price_improvement (RetailPriceImprovementView p))
      else if c = CHR ''O'' then Some (on_direct_listing_with_capital_raise (DirectListingWithCapitalRaiseView p))
      else None)"

text \<open>\<open>dispatch\<close> returns whether the type byte is a known one.\<close>

definition dispatch :: "(event \<Rightarrow> 's \<Rightarrow> failure + 's) \<Rightarrow> u8 list \<Rightarrow> 's \<Rightarrow> failure + bool \<times> 's" where
  "dispatch handler p s =
     (case event_at p of
        Some e \<Rightarrow> andthen (handler e s) (\<lambda>s'. Inr (True, s'))
      | None \<Rightarrow> Inr (False, s))"

text \<open>The bytes of a call, for every message type at once.\<close>

primrec event_bytes :: "event \<Rightarrow> u8 list" where
    "event_bytes (on_system_event v) = SystemEvent_bytes v"
  | "event_bytes (on_stock_directory v) = StockDirectory_bytes v"
  | "event_bytes (on_stock_trading_action v) = StockTradingAction_bytes v"
  | "event_bytes (on_reg_sho_restriction v) = RegShoRestriction_bytes v"
  | "event_bytes (on_market_participant_position v) = MarketParticipantPosition_bytes v"
  | "event_bytes (on_mwcb_decline_level v) = MwcbDeclineLevel_bytes v"
  | "event_bytes (on_mwcb_status v) = MwcbStatus_bytes v"
  | "event_bytes (on_ipo_quoting_period_update v) = IpoQuotingPeriodUpdate_bytes v"
  | "event_bytes (on_luld_auction_collar v) = LuldAuctionCollar_bytes v"
  | "event_bytes (on_operational_halt v) = OperationalHalt_bytes v"
  | "event_bytes (on_add_order v) = AddOrder_bytes v"
  | "event_bytes (on_add_order_with_mpid v) = AddOrderWithMpid_bytes v"
  | "event_bytes (on_order_executed v) = OrderExecuted_bytes v"
  | "event_bytes (on_order_executed_with_price v) = OrderExecutedWithPrice_bytes v"
  | "event_bytes (on_order_cancel v) = OrderCancel_bytes v"
  | "event_bytes (on_order_delete v) = OrderDelete_bytes v"
  | "event_bytes (on_order_replace v) = OrderReplace_bytes v"
  | "event_bytes (on_trade_non_cross v) = TradeNonCross_bytes v"
  | "event_bytes (on_cross_trade v) = CrossTrade_bytes v"
  | "event_bytes (on_broken_trade v) = BrokenTrade_bytes v"
  | "event_bytes (on_noii v) = Noii_bytes v"
  | "event_bytes (on_retail_price_improvement v) = RetailPriceImprovement_bytes v"
  | "event_bytes (on_direct_listing_with_capital_raise v) = DirectListingWithCapitalRaise_bytes v"

primrec event_fits :: "event \<Rightarrow> bool" where
    "event_fits (on_system_event v) \<longleftrightarrow> SystemEvent_fits v"
  | "event_fits (on_stock_directory v) \<longleftrightarrow> StockDirectory_fits v"
  | "event_fits (on_stock_trading_action v) \<longleftrightarrow> StockTradingAction_fits v"
  | "event_fits (on_reg_sho_restriction v) \<longleftrightarrow> RegShoRestriction_fits v"
  | "event_fits (on_market_participant_position v) \<longleftrightarrow> MarketParticipantPosition_fits v"
  | "event_fits (on_mwcb_decline_level v) \<longleftrightarrow> MwcbDeclineLevel_fits v"
  | "event_fits (on_mwcb_status v) \<longleftrightarrow> MwcbStatus_fits v"
  | "event_fits (on_ipo_quoting_period_update v) \<longleftrightarrow> IpoQuotingPeriodUpdate_fits v"
  | "event_fits (on_luld_auction_collar v) \<longleftrightarrow> LuldAuctionCollar_fits v"
  | "event_fits (on_operational_halt v) \<longleftrightarrow> OperationalHalt_fits v"
  | "event_fits (on_add_order v) \<longleftrightarrow> AddOrder_fits v"
  | "event_fits (on_add_order_with_mpid v) \<longleftrightarrow> AddOrderWithMpid_fits v"
  | "event_fits (on_order_executed v) \<longleftrightarrow> OrderExecuted_fits v"
  | "event_fits (on_order_executed_with_price v) \<longleftrightarrow> OrderExecutedWithPrice_fits v"
  | "event_fits (on_order_cancel v) \<longleftrightarrow> OrderCancel_fits v"
  | "event_fits (on_order_delete v) \<longleftrightarrow> OrderDelete_fits v"
  | "event_fits (on_order_replace v) \<longleftrightarrow> OrderReplace_fits v"
  | "event_fits (on_trade_non_cross v) \<longleftrightarrow> TradeNonCross_fits v"
  | "event_fits (on_cross_trade v) \<longleftrightarrow> CrossTrade_fits v"
  | "event_fits (on_broken_trade v) \<longleftrightarrow> BrokenTrade_fits v"
  | "event_fits (on_noii v) \<longleftrightarrow> Noii_fits v"
  | "event_fits (on_retail_price_improvement v) \<longleftrightarrow> RetailPriceImprovement_fits v"
  | "event_fits (on_direct_listing_with_capital_raise v) \<longleftrightarrow> DirectListingWithCapitalRaise_fits v"

primrec event_type :: "event \<Rightarrow> MsgType" where
    "event_type (on_system_event v) = M_SystemEvent"
  | "event_type (on_stock_directory v) = M_StockDirectory"
  | "event_type (on_stock_trading_action v) = M_StockTradingAction"
  | "event_type (on_reg_sho_restriction v) = M_RegShoRestriction"
  | "event_type (on_market_participant_position v) = M_MarketParticipantPosition"
  | "event_type (on_mwcb_decline_level v) = M_MwcbDeclineLevel"
  | "event_type (on_mwcb_status v) = M_MwcbStatus"
  | "event_type (on_ipo_quoting_period_update v) = M_IpoQuotingPeriodUpdate"
  | "event_type (on_luld_auction_collar v) = M_LuldAuctionCollar"
  | "event_type (on_operational_halt v) = M_OperationalHalt"
  | "event_type (on_add_order v) = M_AddOrder"
  | "event_type (on_add_order_with_mpid v) = M_AddOrderWithMpid"
  | "event_type (on_order_executed v) = M_OrderExecuted"
  | "event_type (on_order_executed_with_price v) = M_OrderExecutedWithPrice"
  | "event_type (on_order_cancel v) = M_OrderCancel"
  | "event_type (on_order_delete v) = M_OrderDelete"
  | "event_type (on_order_replace v) = M_OrderReplace"
  | "event_type (on_trade_non_cross v) = M_TradeNonCross"
  | "event_type (on_cross_trade v) = M_CrossTrade"
  | "event_type (on_broken_trade v) = M_BrokenTrade"
  | "event_type (on_noii v) = M_Noii"
  | "event_type (on_retail_price_improvement v) = M_RetailPriceImprovement"
  | "event_type (on_direct_listing_with_capital_raise v) = M_DirectListingWithCapitalRaise"

lemma SystemEvent_type: "load_char (SystemEvent_bytes v @ rest) = CHR ''S''"
  by (simp add: SystemEvent_bytes_def load_store_char)

lemma StockDirectory_type: "load_char (StockDirectory_bytes v @ rest) = CHR ''R''"
  by (simp add: StockDirectory_bytes_def load_store_char)

lemma StockTradingAction_type: "load_char (StockTradingAction_bytes v @ rest) = CHR ''H''"
  by (simp add: StockTradingAction_bytes_def load_store_char)

lemma RegShoRestriction_type: "load_char (RegShoRestriction_bytes v @ rest) = CHR ''Y''"
  by (simp add: RegShoRestriction_bytes_def load_store_char)

lemma MarketParticipantPosition_type: "load_char (MarketParticipantPosition_bytes v @ rest) = CHR ''L''"
  by (simp add: MarketParticipantPosition_bytes_def load_store_char)

lemma MwcbDeclineLevel_type: "load_char (MwcbDeclineLevel_bytes v @ rest) = CHR ''V''"
  by (simp add: MwcbDeclineLevel_bytes_def load_store_char)

lemma MwcbStatus_type: "load_char (MwcbStatus_bytes v @ rest) = CHR ''W''"
  by (simp add: MwcbStatus_bytes_def load_store_char)

lemma IpoQuotingPeriodUpdate_type: "load_char (IpoQuotingPeriodUpdate_bytes v @ rest) = CHR ''K''"
  by (simp add: IpoQuotingPeriodUpdate_bytes_def load_store_char)

lemma LuldAuctionCollar_type: "load_char (LuldAuctionCollar_bytes v @ rest) = CHR ''J''"
  by (simp add: LuldAuctionCollar_bytes_def load_store_char)

lemma OperationalHalt_type: "load_char (OperationalHalt_bytes v @ rest) = CHR ''h''"
  by (simp add: OperationalHalt_bytes_def load_store_char)

lemma AddOrder_type: "load_char (AddOrder_bytes v @ rest) = CHR ''A''"
  by (simp add: AddOrder_bytes_def load_store_char)

lemma AddOrderWithMpid_type: "load_char (AddOrderWithMpid_bytes v @ rest) = CHR ''F''"
  by (simp add: AddOrderWithMpid_bytes_def load_store_char)

lemma OrderExecuted_type: "load_char (OrderExecuted_bytes v @ rest) = CHR ''E''"
  by (simp add: OrderExecuted_bytes_def load_store_char)

lemma OrderExecutedWithPrice_type: "load_char (OrderExecutedWithPrice_bytes v @ rest) = CHR ''C''"
  by (simp add: OrderExecutedWithPrice_bytes_def load_store_char)

lemma OrderCancel_type: "load_char (OrderCancel_bytes v @ rest) = CHR ''X''"
  by (simp add: OrderCancel_bytes_def load_store_char)

lemma OrderDelete_type: "load_char (OrderDelete_bytes v @ rest) = CHR ''D''"
  by (simp add: OrderDelete_bytes_def load_store_char)

lemma OrderReplace_type: "load_char (OrderReplace_bytes v @ rest) = CHR ''U''"
  by (simp add: OrderReplace_bytes_def load_store_char)

lemma TradeNonCross_type: "load_char (TradeNonCross_bytes v @ rest) = CHR ''P''"
  by (simp add: TradeNonCross_bytes_def load_store_char)

lemma CrossTrade_type: "load_char (CrossTrade_bytes v @ rest) = CHR ''Q''"
  by (simp add: CrossTrade_bytes_def load_store_char)

lemma BrokenTrade_type: "load_char (BrokenTrade_bytes v @ rest) = CHR ''B''"
  by (simp add: BrokenTrade_bytes_def load_store_char)

lemma Noii_type: "load_char (Noii_bytes v @ rest) = CHR ''I''"
  by (simp add: Noii_bytes_def load_store_char)

lemma RetailPriceImprovement_type: "load_char (RetailPriceImprovement_bytes v @ rest) = CHR ''N''"
  by (simp add: RetailPriceImprovement_bytes_def load_store_char)

lemma DirectListingWithCapitalRaise_type: "load_char (DirectListingWithCapitalRaise_bytes v @ rest) = CHR ''O''"
  by (simp add: DirectListingWithCapitalRaise_bytes_def load_store_char)

lemmas view_types =
  SystemEvent_type
  StockDirectory_type
  StockTradingAction_type
  RegShoRestriction_type
  MarketParticipantPosition_type
  MwcbDeclineLevel_type
  MwcbStatus_type
  IpoQuotingPeriodUpdate_type
  LuldAuctionCollar_type
  OperationalHalt_type
  AddOrder_type
  AddOrderWithMpid_type
  OrderExecuted_type
  OrderExecutedWithPrice_type
  OrderCancel_type
  OrderDelete_type
  OrderReplace_type
  TradeNonCross_type
  CrossTrade_type
  BrokenTrade_type
  Noii_type
  RetailPriceImprovement_type
  DirectListingWithCapitalRaise_type

lemmas view_round_trips =
  SystemEvent_round_trip
  StockDirectory_round_trip
  StockTradingAction_round_trip
  RegShoRestriction_round_trip
  MarketParticipantPosition_round_trip
  MwcbDeclineLevel_round_trip
  MwcbStatus_round_trip
  IpoQuotingPeriodUpdate_round_trip
  LuldAuctionCollar_round_trip
  OperationalHalt_round_trip
  AddOrder_round_trip
  AddOrderWithMpid_round_trip
  OrderExecuted_round_trip
  OrderExecutedWithPrice_round_trip
  OrderCancel_round_trip
  OrderDelete_round_trip
  OrderReplace_round_trip
  TradeNonCross_round_trip
  CrossTrade_round_trip
  BrokenTrade_round_trip
  Noii_round_trip
  RetailPriceImprovement_round_trip
  DirectListingWithCapitalRaise_round_trip

lemmas view_lengths =
  SystemEvent_bytes_length
  StockDirectory_bytes_length
  StockTradingAction_bytes_length
  RegShoRestriction_bytes_length
  MarketParticipantPosition_bytes_length
  MwcbDeclineLevel_bytes_length
  MwcbStatus_bytes_length
  IpoQuotingPeriodUpdate_bytes_length
  LuldAuctionCollar_bytes_length
  OperationalHalt_bytes_length
  AddOrder_bytes_length
  AddOrderWithMpid_bytes_length
  OrderExecuted_bytes_length
  OrderExecutedWithPrice_bytes_length
  OrderCancel_bytes_length
  OrderDelete_bytes_length
  OrderReplace_bytes_length
  TradeNonCross_bytes_length
  CrossTrade_bytes_length
  BrokenTrade_bytes_length
  Noii_bytes_length
  RetailPriceImprovement_bytes_length
  DirectListingWithCapitalRaise_bytes_length

lemma event_round_trip:
  "event_fits e \<Longrightarrow> event_at (event_bytes e @ rest) = Some e"
  by (cases e) (simp_all add: event_at_def view_types view_round_trips)

lemma event_type_char: "load_char (event_bytes e @ rest) = type_char (event_type e)"
  by (cases e) (simp_all add: view_types)

lemma event_length: "event_fits e \<Longrightarrow> length (event_bytes e) = sizeof (layout_of (event_type e))"
  by (cases e) (simp_all add: view_lengths)

lemma event_at_known:
  "event_at p \<noteq> None \<longleftrightarrow> is_known_type (load_char p)"
proof (cases "is_known_type (load_char p)")
  case True
  then obtain m where "load_char p = type_char m" by (auto simp: known_type_cases)
  then show ?thesis using True by (cases m) (simp_all add: event_at_def)
next
  case False
  then have no: "load_char p \<noteq> type_char m" for m by (auto simp: known_type_cases)
  have "event_at p = None"
    unfolding event_at_def Let_def
    using no [of M_SystemEvent]
      no [of M_StockDirectory]
      no [of M_StockTradingAction]
      no [of M_RegShoRestriction]
      no [of M_MarketParticipantPosition]
      no [of M_MwcbDeclineLevel]
      no [of M_MwcbStatus]
      no [of M_IpoQuotingPeriodUpdate]
      no [of M_LuldAuctionCollar]
      no [of M_OperationalHalt]
      no [of M_AddOrder]
      no [of M_AddOrderWithMpid]
      no [of M_OrderExecuted]
      no [of M_OrderExecutedWithPrice]
      no [of M_OrderCancel]
      no [of M_OrderDelete]
      no [of M_OrderReplace]
      no [of M_TradeNonCross]
      no [of M_CrossTrade]
      no [of M_BrokenTrade]
      no [of M_Noii]
      no [of M_RetailPriceImprovement]
      no [of M_DirectListingWithCapitalRaise]
    by simp
  with False show ?thesis by simp
qed

end
