(* ===== verification/Framing.thy ===== *)
theory Framing
  imports Views
begin

text \<open>
  include/itch/wire/framing.hpp: the cursor over a buffer of length-prefixed messages.
  \<open>parse\<close> is the specification, what one frame at the head of a byte string is;
  \<open>next_frame\<close> is the code's cursor, and it moves over its buffer as \<open>parse\<close> says.
  A position (\<open>std::size_t\<close>) is a natural number: it never exceeds the buffer's size.
\<close>

section \<open>The cursor\<close>

datatype FrameStatus = Ok | EndOfInput | NeedMore | Malformed

datatype FrameError = No_error | TruncatedLengthPrefix | TruncatedBody | ZeroLength | UnknownType
  | LengthMismatch

primrec error_to_string :: "FrameError \<Rightarrow> string" where
  "error_to_string No_error = ''none''"
| "error_to_string TruncatedLengthPrefix = ''truncated length prefix''"
| "error_to_string TruncatedBody = ''truncated message body''"
| "error_to_string ZeroLength = ''zero length message''"
| "error_to_string UnknownType = ''unknown message type''"
| "error_to_string LengthMismatch = ''length disagrees with message type''"

definition kLengthPrefixSize :: nat where
  "kLengthPrefixSize = 2"

definition kMinBufferSize :: nat where
  "kMinBufferSize = kLengthPrefixSize + kMaxMessageLength"

record cursor =
  cur_buf :: "u8 list"
  cur_pos :: nat
  cur_error :: FrameError

definition cursor_of :: "u8 list \<Rightarrow> cursor" where
  "cursor_of buf = \<lparr>cur_buf = buf, cur_pos = 0, cur_error = No_error\<rparr>"

definition next_frame :: "cursor \<Rightarrow> failure + FrameStatus \<times> u8 list option \<times> cursor" where
  "next_frame c =
     (let c = c\<lparr>cur_error := No_error\<rparr>;
          avail = length (cur_buf c) - cur_pos c in
      if avail = 0 then Inr (EndOfInput, None, c)
      else if avail < kLengthPrefixSize then
        Inr (NeedMore, None, c\<lparr>cur_error := TruncatedLengthPrefix\<rparr>)
      else
        let len = unat (load_be (drop (cur_pos c) (cur_buf c)) :: u16) in
        if len = 0 then Inr (Malformed, None, c\<lparr>cur_error := ZeroLength\<rparr>)
        else if avail - kLengthPrefixSize < len then
          Inr (NeedMore, None, c\<lparr>cur_error := TruncatedBody\<rparr>)
        else
          let body = drop (cur_pos c + kLengthPrefixSize) (cur_buf c);
              type = load_char body;
              declared = message_length type in
          if declared = 0 then Inr (Malformed, None, c\<lparr>cur_error := UnknownType\<rparr>)
          else if declared \<noteq> len then Inr (Malformed, None, c\<lparr>cur_error := LengthMismatch\<rparr>)
          else
            let c' = c\<lparr>cur_pos := cur_pos c + kLengthPrefixSize + len\<rparr> in
            andthen (ensure (cur_pos c' \<le> length (cur_buf c')) (WireF CursorPastEnd)) (\<lambda>_.
              Inr (Ok, Some (take len body), c')))"

definition cursor_rest :: "cursor \<Rightarrow> u8 list" where
  "cursor_rest c = drop (cur_pos c) (cur_buf c)"

definition cursor_reset :: "u8 list \<Rightarrow> cursor \<Rightarrow> cursor" where
  "cursor_reset buf c = c\<lparr>cur_buf := buf, cur_pos := 0, cur_error := No_error\<rparr>"

section \<open>What a frame is\<close>

definition parse :: "u8 list \<Rightarrow> FrameStatus \<times> FrameError \<times> u8 list" where
  "parse bs =
     (if bs = [] then (EndOfInput, No_error, [])
      else if length bs < 2 then (NeedMore, TruncatedLengthPrefix, [])
      else
        let len = unat (load_be bs :: u16); body = drop 2 bs in
        if len = 0 then (Malformed, ZeroLength, [])
        else if length body < len then (NeedMore, TruncatedBody, [])
        else if \<not> is_known_type (load_char body) then (Malformed, UnknownType, [])
        else if message_length (load_char body) \<noteq> len then (Malformed, LengthMismatch, [])
        else (Ok, No_error, take len body))"

lemmas wire_consts = kLengthPrefixSize_def kMaxMessageLength_def kMinBufferSize_def

definition within :: "cursor \<Rightarrow> bool" where
  "within c \<longleftrightarrow> cur_pos c \<le> length (cur_buf c)"

text \<open>
  The cursor does what \<open>parse\<close> says of the bytes not yet consumed: on a whole frame it
  returns the body and moves past prefix and body, otherwise it consumes nothing.
\<close>

lemma next_frame_parse:
  assumes "within c"
  shows "next_frame c =
    (case parse (cursor_rest c) of (st, er, body) \<Rightarrow>
       Inr (st, if st = Ok then Some body else None,
            c\<lparr>cur_error := er, cur_pos := cur_pos c + (if st = Ok then 2 + length body else 0)\<rparr>))"
  using assms
  by (cases c)
    (auto simp: next_frame_def parse_def cursor_rest_def within_def Let_def wire_consts
      is_known_type_def add.commute split: if_splits)

lemma parse_cases:
  "parse bs = (Ok, er, body) \<Longrightarrow> er = No_error \<and> body = take (length body) (drop 2 bs) \<and>
     2 + length body \<le> length bs \<and> length body = message_length (load_char (drop 2 bs)) \<and>
     is_known_type (load_char (drop 2 bs)) \<and> length body = unat (load_be bs :: u16) \<and> body \<noteq> []"
  by (auto simp: parse_def Let_def split: if_splits)

lemma parse_size: "parse bs = (Ok, er, body) \<Longrightarrow> 0 < length bs \<and> 2 + length body \<le> length bs"
  using parse_cases [of bs er body] by (cases bs) auto

text \<open>Bytes after a frame, or after a fault, do not change how it is read.\<close>

lemma load_be_append:
  "LENGTH('a::len) div 8 \<le> length bs \<Longrightarrow> 8 dvd LENGTH('a) \<Longrightarrow>
     (load_be (bs @ suf) :: 'a word) = load_be bs"
  by (simp add: load_be_def load_be_on_value)

lemma load_char_append: "bs \<noteq> [] \<Longrightarrow> load_char (bs @ suf) = load_char bs"
  unfolding load_char_def by (cases bs) (simp_all add: load_byte)

lemma parse_more:
  assumes "parse bs = (st, er, body)" and "st = Ok \<or> st = Malformed"
  shows "parse (bs @ suf) = (st, er, body)"
proof -
  have two: "2 \<le> length bs" and len: "(load_be (bs @ suf) :: u16) = load_be bs"
    using assms load_be_append [of bs suf, where 'a = 16] by (auto simp: parse_def split: if_splits)
  have ne: "bs \<noteq> []" "\<not> length bs < 2" "bs @ suf \<noteq> []" "\<not> length bs + length suf < 2"
    "drop 2 (bs @ suf) = drop 2 bs @ suf"
    using two by auto
  show ?thesis
  proof (cases "unat (load_be bs :: u16) = 0")
    case True
    then show ?thesis using assms(1) unfolding parse_def Let_def len by (simp add: ne)
  next
    case False
    with assms ne(1,2) have fits: "\<not> length (drop 2 bs) < unat (load_be bs :: u16)"
      unfolding parse_def Let_def by (auto split: if_splits)
    with False have "drop 2 bs \<noteq> []" by auto
    then have "load_char (drop 2 bs @ suf) = load_char (drop 2 bs)" by (rule load_char_append)
    then show ?thesis
      using assms(1) fits False ne(4) unfolding parse_def Let_def len ne(5)
      by (auto simp: ne(1,2) split: if_splits)
  qed
qed

text \<open>The frames of a byte string, and why they end.\<close>

function frames_of :: "u8 list \<Rightarrow> u8 list list \<times> FrameStatus \<times> FrameError" where
  "frames_of bs =
     (case parse bs of (st, er, body) \<Rightarrow>
        if st = Ok then
          (case frames_of (drop (2 + length body) bs) of (fs, st', er') \<Rightarrow> (body # fs, st', er'))
        else ([], st, er))"
  by pat_completeness auto
termination
  by (relation "measure length") (auto dest: parse_size [OF sym])

declare frames_of.simps [simp del]

text \<open>The loop the applications run: frames until the cursor stops.\<close>

fun drain :: "nat \<Rightarrow> cursor \<Rightarrow> failure + u8 list list \<times> FrameStatus \<times> cursor" where
  "drain 0 c = Inl Diverges"
| "drain (Suc fuel) c =
     andthen (next_frame c) (\<lambda>(st, out, c').
       case out of
         Some f \<Rightarrow> andthen (drain fuel c') (\<lambda>(fs, r). Inr (f # fs, r))
       | None \<Rightarrow> Inr ([], st, c'))"

lemma drain_frames:
  assumes "within c" and "length (cursor_rest c) < fuel"
  shows "\<exists>c'. drain fuel c = Inr (fst (frames_of (cursor_rest c)), fst (snd (frames_of (cursor_rest c))), c')
    \<and> cur_error c' = snd (snd (frames_of (cursor_rest c))) \<and> cur_buf c' = cur_buf c"
  using assms
proof (induction fuel arbitrary: c)
  case 0
  then show ?case by simp
next
  case (Suc fuel)
  obtain st er body where p: "parse (cursor_rest c) = (st, er, body)" by (metis prod_cases3)
  note step = next_frame_parse [OF Suc.prems(1), unfolded p, simplified]
  show ?case
  proof (cases "st = Ok")
    case False
    then show ?thesis by (simp add: step frames_of.simps [of "cursor_rest c"] p)
  next
    case True
    let ?c = "c\<lparr>cur_error := er, cur_pos := Suc (Suc (cur_pos c + length body))\<rparr>"
    have le: "2 + length body \<le> length (cursor_rest c)" using parse_size p True by blast
    have rest: "cursor_rest ?c = drop (Suc (Suc (length body))) (cursor_rest c)"
      by (simp add: cursor_rest_def add.commute add.left_commute)
    have "within ?c" using Suc.prems(1) le by (simp add: within_def cursor_rest_def)
    moreover have "length (cursor_rest ?c) < fuel"
      using Suc.prems(2) le unfolding rest length_drop by linarith
    ultimately obtain c' where "drain fuel ?c = Inr (fst (frames_of (cursor_rest ?c)),
        fst (snd (frames_of (cursor_rest ?c))), c')"
      "cur_error c' = snd (snd (frames_of (cursor_rest ?c)))" "cur_buf c' = cur_buf ?c"
      using Suc.IH by blast
    with True show ?thesis
      by (simp add: step frames_of.simps [of "cursor_rest c"] p rest split: prod.splits)
  qed
qed

section \<open>Framing messages\<close>

definition well_framed :: "u8 list \<Rightarrow> bool" where
  "well_framed m \<longleftrightarrow> m \<noteq> [] \<and> length m = message_length (load_char m)"

definition frame :: "u8 list \<Rightarrow> u8 list" where
  "frame m = store_be (of_nat (length m) :: u16) @ m"

lemma parse_frame:
  assumes "well_framed m"
  shows "parse (frame m @ rest) = (Ok, No_error, m)"
proof -
  have le: "length m \<le> 50" and known: "is_known_type (load_char m)"
    using assms message_length_le [of "load_char m"]
    by (auto simp: well_framed_def wire_consts is_known_type_def simp flip: length_greater_0_conv)
  have pos: "0 < message_length (load_char m)" using known by (simp add: is_known_type_def)
  from le have len: "unat (of_nat (length m) :: u16) = length m" by (simp add: unat_of_nat)
  have load: "(load_be (frame m @ rest) :: u16) = of_nat (length m)"
    by (simp add: frame_def load_store_be)
  have body: "drop 2 (frame m @ rest) = m @ rest" by (simp add: frame_def)
  have char: "load_char (m @ rest) = load_char m"
    using assms by (simp add: load_char_append well_framed_def)
  have "2 \<le> length (frame m @ rest)" by (simp add: frame_def)
  then have "frame m @ rest \<noteq> []" "\<not> length (frame m @ rest) < 2" by (force, linarith)
  then show ?thesis
    using assms pos known unfolding parse_def Let_def load body char len
    by (simp add: well_framed_def)
qed

lemma frames_of_frames:
  "\<forall>m \<in> set ms. well_framed m \<Longrightarrow> frames_of (concat (map frame ms)) = (ms, EndOfInput, No_error)"
proof (induction ms)
  case Nil
  then show ?case by (simp add: frames_of.simps parse_def)
next
  case (Cons m ms)
  have "drop (2 + length m) (frame m @ concat (map frame ms)) = concat (map frame ms)"
    by (simp add: frame_def)
  with Cons show ?case
    by (simp add: frames_of.simps [of "frame m @ concat (map frame ms)"] parse_frame)
qed

lemma event_well_framed: "event_fits e \<Longrightarrow> well_framed (event_bytes e)"
proof -
  assume fits: "event_fits e"
  have "load_char (event_bytes e) = type_char (event_type e)"
    using event_type_char [of e "[]"] by simp
  then have "length (event_bytes e) = message_length (load_char (event_bytes e))"
    using event_length [OF fits] by (simp add: message_length_type layouts_sized)
  moreover have "0 < length (event_bytes e)"
    unfolding event_length [OF fits] by (simp add: layouts_sized)
  then have "event_bytes e \<noteq> []" by (rule length_greater_0_conv [THEN iffD1])
  ultimately show ?thesis by (simp add: well_framed_def)
qed

end
