(* ===== verification/Frame_Reader.thy ===== *)
theory Frame_Reader
  imports Framing
begin

text \<open>
  include/itch/wire/source.hpp: the in-memory byte source and the buffered reader over any
  byte source. A source is a state with a \<open>read\<close> that hands out at most \<open>n\<close> bytes; the
  interface \<open>byte_source\<close> says what the reader relies on. The reader yields the frames the
  cursor yields over the whole input, however the source chops it up.

  The reader's loop carries fuel: a turn that goes on has read at least one byte, so one
  turn more than the source has bytes left is enough.
\<close>

section \<open>Sources\<close>

record memory_source =
  ms_data :: "u8 list"
  ms_chunk :: nat
  ms_pos :: nat

definition memory_source :: "u8 list \<Rightarrow> nat \<Rightarrow> memory_source" where
  "memory_source data chunk = \<lparr>ms_data = data, ms_chunk = chunk, ms_pos = 0\<rparr>"

definition memory_read :: "memory_source \<Rightarrow> nat \<Rightarrow> u8 list \<times> memory_source" where
  "memory_read s n =
     (let n = (if ms_chunk s \<noteq> 0 \<and> ms_chunk s < n then ms_chunk s else n);
          left = length (ms_data s) - ms_pos s;
          got = (if n < left then n else left) in
      if got \<noteq> 0 then
        (take got (drop (ms_pos s) (ms_data s)), s\<lparr>ms_pos := ms_pos s + got\<rparr>)
      else ([], s))"

definition memory_left :: "memory_source \<Rightarrow> u8 list" where
  "memory_left s = drop (ms_pos s) (ms_data s)"

section \<open>The reader\<close>

record 's reader =
  rd_source :: 's
  rd_buf :: "u8 list"
  rd_cursor :: cursor
  rd_filled :: nat
  rd_frames :: u64
  rd_consumed :: u64

text \<open>The buffer starts zero filled and the cursor over nothing.\<close>

definition reader_new :: "'s \<Rightarrow> nat \<Rightarrow> failure + 's reader" where
  "reader_new source capacity =
     andthen (ensure (kMinBufferSize \<le> capacity) (WireF BufferTooSmall)) (\<lambda>_.
       Inr \<lparr>rd_source = source, rd_buf = replicate capacity 0, rd_cursor = cursor_of [],
            rd_filled = 0, rd_frames = 0, rd_consumed = 0\<rparr>)"

text \<open>
  \<open>refill\<close>: the tail moves to the front (\<open>memmove\<close>), the source writes behind it, and the
  cursor starts again over the filled part.
\<close>

definition refill :: "('s \<Rightarrow> nat \<Rightarrow> u8 list \<times> 's) \<Rightarrow> 's reader \<Rightarrow> bool \<times> 's reader" where
  "refill read r =
     (let off = cur_pos (rd_cursor r);
          keep = rd_filled r - off;
          buf = (if keep \<noteq> 0 \<and> off \<noteq> 0
                 then take keep (drop off (rd_buf r)) @ drop keep (rd_buf r) else rd_buf r);
          (got, source) = read (rd_source r) (length buf - keep);
          buf = take keep buf @ got @ drop (keep + length got) buf;
          filled = keep + length got in
      (got \<noteq> [],
       r\<lparr>rd_source := source, rd_buf := buf, rd_filled := filled,
         rd_consumed := rd_consumed r + of_nat off,
         rd_cursor := cursor_reset (take filled buf) (rd_cursor r)\<rparr>))"

fun reader_next :: "('s \<Rightarrow> nat \<Rightarrow> u8 list \<times> 's) \<Rightarrow> nat \<Rightarrow> 's reader \<Rightarrow>
    failure + FrameStatus \<times> u8 list option \<times> 's reader" where
  "reader_next read 0 r = Inl Diverges"
| "reader_next read (Suc fuel) r =
     andthen (next_frame (rd_cursor r)) (\<lambda>(st, out, c).
       let r = r\<lparr>rd_cursor := c\<rparr> in
       if st = Ok then Inr (st, out, r\<lparr>rd_frames := rd_frames r + 1\<rparr>)
       else if st = Malformed then Inr (st, out, r)
       else
         let (more_bytes, r) = refill read r in
         if \<not> more_bytes then
           andthen (next_frame (rd_cursor r)) (\<lambda>(st, out, c).
             let r = r\<lparr>rd_cursor := c\<rparr> in
             Inr (st, out, if st = Ok then r\<lparr>rd_frames := rd_frames r + 1\<rparr> else r))
         else reader_next read fuel r)"

definition reader_error :: "'s reader \<Rightarrow> FrameError" where
  "reader_error r = cur_error (rd_cursor r)"

definition bytes_consumed :: "'s reader \<Rightarrow> u64" where
  "bytes_consumed r = rd_consumed r + of_nat (cur_pos (rd_cursor r))"

definition trailing_bytes :: "'s reader \<Rightarrow> nat" where
  "trailing_bytes r = rd_filled r"

text \<open>The applications' loop over a reader: frames until it stops.\<close>

fun reader_drain :: "('s \<Rightarrow> nat \<Rightarrow> u8 list \<times> 's) \<Rightarrow> nat \<Rightarrow> nat \<Rightarrow> 's reader \<Rightarrow>
    failure + u8 list list \<times> FrameStatus \<times> 's reader" where
  "reader_drain read turns 0 r = Inl Diverges"
| "reader_drain read turns (Suc fuel) r =
     andthen (reader_next read turns r) (\<lambda>(st, out, r').
       case out of
         Some f \<Rightarrow> andthen (reader_drain read turns fuel r') (\<lambda>(fs, x). Inr (f # fs, x))
       | None \<Rightarrow> Inr ([], st, r'))"

section \<open>The interface of a source, and the reader over it\<close>

text \<open>A cursor over the filled part of the buffer, inside it.\<close>

definition reader_ok :: "'s reader \<Rightarrow> bool" where
  "reader_ok r \<longleftrightarrow> cur_buf (rd_cursor r) = take (rd_filled r) (rd_buf r) \<and>
     rd_filled r \<le> length (rd_buf r) \<and> cur_pos (rd_cursor r) \<le> rd_filled r \<and>
     kMinBufferSize \<le> length (rd_buf r)"

lemma reader_ok_within: "reader_ok r \<Longrightarrow> within (rd_cursor r)"
  by (simp add: reader_ok_def within_def)

text \<open>A body length that no buffer of the default size can fail to hold.\<close>

definition roomy :: "nat \<Rightarrow> bool" where
  "roomy capacity \<longleftrightarrow> 2 + 65535 \<le> capacity"

lemma parse_need_more:
  assumes "parse bs = (NeedMore, er, body)" and "52 \<le> length bs"
  shows "er = TruncatedBody" and "length bs < 2 + 65535"
    and "parse (bs @ suf) = (NeedMore, TruncatedBody, []) \<or> (\<exists>e. parse (bs @ suf) = (Malformed, e, []))"
proof -
  let ?l = "unat (load_be bs :: u16)"
  have ne: "bs \<noteq> []" "\<not> length bs < 2" using assms(2) by auto
  have er: "er = TruncatedBody" and short: "length (drop 2 bs) < ?l" and nz: "?l \<noteq> 0"
    using assms(1) unfolding parse_def Let_def by (auto simp: ne split: if_splits)
  show "er = TruncatedBody" by (rule er)
  have "?l < 2 ^ 16" using unsigned_less [of "load_be bs :: u16"] by simp
  then show "length bs < 2 + 65535" using short assms(2) by simp
  have len: "(load_be (bs @ suf) :: u16) = load_be bs"
    using assms(2) load_be_append [of bs suf, where 'a = 16] by auto
  have "message_length c \<noteq> ?l" for c
    using message_length_le [of c] short assms(2) by (simp add: wire_consts)
  then show "parse (bs @ suf) = (NeedMore, TruncatedBody, []) \<or> (\<exists>e. parse (bs @ suf) = (Malformed, e, []))"
    using ne assms(2) nz unfolding parse_def Let_def len by auto
qed

lemma take_front: "n = length xs \<Longrightarrow> take n (xs @ ys) = xs"
  by simp

locale byte_source =
  fixes read :: "'s \<Rightarrow> nat \<Rightarrow> u8 list \<times> 's"
    and remaining :: "'s \<Rightarrow> u8 list"
  assumes read_splits: "read s n = (bs, s') \<Longrightarrow> remaining s = bs @ remaining s'"
    and read_bounded: "read s n = (bs, s') \<Longrightarrow> length bs \<le> n"
    and read_ends: "read s n = ([], s') \<Longrightarrow> n = 0 \<or> remaining s = []"
begin

definition pending :: "'s reader \<Rightarrow> u8 list" where
  "pending r = cursor_rest (rd_cursor r) @ remaining (rd_source r)"

lemma refill_run:
  assumes ok: "reader_ok r" and run: "refill read r = (again, r')"
  shows "reader_ok r'" and "pending r' = pending r" and "length (rd_buf r') = length (rd_buf r)"
    and "rd_frames r' = rd_frames r" and "bytes_consumed r' = bytes_consumed r"
    and "cursor_rest (rd_cursor r') = cur_buf (rd_cursor r')"
    and "again \<Longrightarrow> length (remaining (rd_source r')) < length (remaining (rd_source r))"
    and "\<not> again \<Longrightarrow> remaining (rd_source r') = [] \<or> length (cursor_rest (rd_cursor r')) = length (rd_buf r')"
    and "\<not> again \<Longrightarrow> cursor_rest (rd_cursor r') = cursor_rest (rd_cursor r)"
proof -
  let ?off = "cur_pos (rd_cursor r)" and ?keep = "rd_filled r - cur_pos (rd_cursor r)"
  let ?buf = "if ?keep \<noteq> 0 \<and> ?off \<noteq> 0
    then take ?keep (drop ?off (rd_buf r)) @ drop ?keep (rd_buf r) else rd_buf r"
  obtain got source where got: "read (rd_source r) (length ?buf - ?keep) = (got, source)" by force
  have le: "?off \<le> rd_filled r" "rd_filled r \<le> length (rd_buf r)"
    and cbuf: "cur_buf (rd_cursor r) = take (rd_filled r) (rd_buf r)"
    using ok by (auto simp: reader_ok_def)
  have len: "length ?buf = length (rd_buf r)" using le by auto
  have front: "take ?keep ?buf = cursor_rest (rd_cursor r)"
    using le by (auto simp: cursor_rest_def cbuf drop_take)
  have keep: "length (cursor_rest (rd_cursor r)) = ?keep"
    using le by (simp add: cursor_rest_def cbuf)
  define new where "new = take ?keep ?buf @ got @ drop (?keep + length got) ?buf"
  have r': "again = (got \<noteq> [])"
    "r' = r\<lparr>rd_source := source, rd_buf := new, rd_filled := ?keep + length got,
       rd_consumed := rd_consumed r + of_nat ?off,
       rd_cursor := cursor_reset (take (?keep + length got) new) (rd_cursor r)\<rparr>"
    using run by (simp_all only: refill_def Let_def got prod.case prod.inject new_def)
  have fits: "length got \<le> length (rd_buf r) - ?keep" using read_bounded [OF got] len by simp
  have kle: "?keep \<le> length (rd_buf r)" using le by simp
  have new: "length new = length (rd_buf r)"
    using fits kle len unfolding new_def length_append length_take length_drop by linarith
  have taken: "take (?keep + length got) new = cursor_rest (rd_cursor r) @ got"
    unfolding new_def front append_assoc [symmetric] by (rule take_front) (simp add: keep)
  have rest: "cursor_rest (rd_cursor r') = cursor_rest (rd_cursor r) @ got"
    unfolding r'(2) cursor_reset_def by (simp add: cursor_rest_def) (simp add: taken flip: cursor_rest_def)
  show "reader_ok r'"
    using new fits kle ok by (simp add: reader_ok_def r'(2) cursor_reset_def)
  show "pending r' = pending r"
    using read_splits [OF got] unfolding pending_def rest by (simp add: r'(2))
  show "length (rd_buf r') = length (rd_buf r)" "rd_frames r' = rd_frames r"
    using new by (simp_all add: r'(2))
  show "bytes_consumed r' = bytes_consumed r"
    by (simp add: bytes_consumed_def r'(2) cursor_reset_def)
  show "cursor_rest (rd_cursor r') = cur_buf (rd_cursor r')"
    by (simp add: r'(2) cursor_reset_def cursor_rest_def)
  show "again \<Longrightarrow> length (remaining (rd_source r')) < length (remaining (rd_source r))"
    using read_splits [OF got] by (simp add: r')
  show "\<not> again \<Longrightarrow> cursor_rest (rd_cursor r') = cursor_rest (rd_cursor r)"
    unfolding rest by (simp add: r'(1))
  show "remaining (rd_source r') = [] \<or> length (cursor_rest (rd_cursor r')) = length (rd_buf r')"
    if "\<not> again"
  proof -
    have g: "got = []" using that r'(1) by simp
    then have "length (rd_buf r) - ?keep = 0 \<or> remaining (rd_source r) = []"
      using read_ends [of "rd_source r" "length ?buf - ?keep" source] got len by simp
    moreover have "remaining source = remaining (rd_source r)" using read_splits [OF got] g by simp
    ultimately show ?thesis
      using new g keep kle unfolding rest by (auto simp: r'(2))
  qed
qed

text \<open>One frame: the reader returns what \<open>parse\<close> says of all the bytes still to come.\<close>

definition reader_step :: "'s reader \<Rightarrow> FrameStatus \<times> u8 list option \<times> 's reader \<Rightarrow> bool" where
  "reader_step r res \<longleftrightarrow> (case res of (st, out, r') \<Rightarrow>
     reader_ok r' \<and> length (rd_buf r') = length (rd_buf r) \<and>
     bytes_consumed r' + of_nat (length (pending r')) = bytes_consumed r + of_nat (length (pending r)) \<and>
     (case parse (pending r) of (pst, per, body) \<Rightarrow>
        if pst = Ok then st = Ok \<and> out = Some body \<and> pending r' = drop (2 + length body) (pending r) \<and>
          rd_frames r' = rd_frames r + 1
        else st \<noteq> Ok \<and> out = None \<and> pending r' = pending r \<and> rd_frames r' = rd_frames r \<and>
          (st = pst \<and> reader_error r' = per \<or>
           \<not> roomy (length (rd_buf r)) \<and> pst = Malformed \<and> st = NeedMore \<and> reader_error r' = TruncatedBody)))"

lemma finish_step:
  assumes ok: "reader_ok r" and nf: "next_frame (rd_cursor r) = Inr (st, out, c)"
    and full: "st = Ok \<or> st = Malformed \<or> remaining (rd_source r) = [] \<or>
      length (cursor_rest (rd_cursor r)) = length (rd_buf r)"
  shows "reader_step r (st, out, if st = Ok then r\<lparr>rd_cursor := c, rd_frames := rd_frames r + 1\<rparr>
    else r\<lparr>rd_cursor := c\<rparr>)"
proof -
  obtain pst per body where p: "parse (cursor_rest (rd_cursor r)) = (pst, per, body)"
    by (metis prod_cases3)
  note nf' = next_frame_parse [OF reader_ok_within [OF ok], unfolded p, simplified]
  have st: "st = pst" "out = (if st = Ok then Some body else None)"
    and c: "cur_error c = per" "cur_buf c = cur_buf (rd_cursor r)"
      "cur_pos c = cur_pos (rd_cursor r) + (if st = Ok then 2 + length body else 0)"
    using nf nf' by auto
  let ?n = "if st = Ok then 2 + length body else 0"
  have n: "?n \<le> length (cursor_rest (rd_cursor r))" using parse_size p st by auto
  have rest: "cursor_rest c = drop ?n (cursor_rest (rd_cursor r))"
    by (simp add: cursor_rest_def c add.commute)
  let ?r' = "if st = Ok then r\<lparr>rd_cursor := c, rd_frames := rd_frames r + 1\<rparr> else r\<lparr>rd_cursor := c\<rparr>"
  have proj: "rd_cursor ?r' = c" "rd_buf ?r' = rd_buf r" "rd_filled ?r' = rd_filled r"
    "rd_source ?r' = rd_source r" "rd_consumed ?r' = rd_consumed r"
    "rd_frames ?r' = (if st = Ok then rd_frames r + 1 else rd_frames r)" by auto
  have pend: "pending ?r' = drop ?n (pending r)"
    using n by (simp add: pending_def proj rest)
  have pos: "cur_pos c \<le> rd_filled r"
    using n ok by (auto simp: c cursor_rest_def reader_ok_def)
  have ok': "reader_ok ?r'" using ok pos by (simp add: reader_ok_def proj c)
  have bytes: "bytes_consumed ?r' + of_nat (length (pending ?r')) = bytes_consumed r + of_nat (length (pending r))"
  proof -
    have "length (pending r) = ?n + length (pending ?r')"
      using n pend by (simp add: pending_def)
    then show ?thesis by (simp only: bytes_consumed_def proj c of_nat_add add.assoc)
  qed
  have whole: "parse (pending r) = (pst, per, body) \<or>
    \<not> roomy (length (rd_buf r)) \<and> (\<exists>e. parse (pending r) = (Malformed, e, [])) \<and> st = NeedMore \<and> per = TruncatedBody"
  proof (cases "st = Ok \<or> st = Malformed \<or> remaining (rd_source r) = []")
    case True
    then show ?thesis using parse_more [OF p] st p by (auto simp: pending_def)
  next
    case False
    then have len: "length (cursor_rest (rd_cursor r)) = length (rd_buf r)" using full by blast
    moreover have cap: "52 \<le> length (rd_buf r)" using ok by (simp add: reader_ok_def wire_consts)
    ultimately have "cursor_rest (rd_cursor r) \<noteq> []" by auto
    then have "st \<noteq> EndOfInput" using p st by (auto simp: parse_def Let_def split: if_splits)
    then have "st = NeedMore" using False by (cases st) auto
    moreover from this have pn: "parse (cursor_rest (rd_cursor r)) = (NeedMore, per, body)"
      using p st by simp
    have cap': "52 \<le> length (cursor_rest (rd_cursor r))" using cap len by simp
    have er: "per = TruncatedBody" by (rule parse_need_more(1) [OF pn cap'])
    have small: "\<not> roomy (length (rd_buf r))"
      using parse_need_more(2) [OF pn cap'] len by (simp add: roomy_def)
    have "body = []" using pn by (auto simp: parse_def Let_def split: if_splits)
    with parse_need_more(3) [OF pn cap', of "remaining (rd_source r)"] er small st calculation
    show ?thesis by (auto simp: pending_def)
  qed
  show ?thesis
    unfolding reader_step_def prod.case
    using whole ok' bytes pend st c(1) by (auto simp: proj reader_error_def)
qed

lemma reader_next_run:
  assumes "reader_ok r" and "length (remaining (rd_source r)) < fuel"
  shows "\<exists>res. reader_next read fuel r = Inr res \<and> reader_step r res"
  using assms
proof (induction fuel arbitrary: r)
  case 0
  then show ?case by simp
next
  case (Suc fuel)
  obtain st out c where nf: "next_frame (rd_cursor r) = Inr (st, out, c)"
    using next_frame_parse [OF reader_ok_within [OF Suc.prems(1)]] by (auto split: prod.splits)
  show ?case
  proof (cases "st = Ok \<or> st = Malformed")
    case True
    then show ?thesis using finish_step [OF Suc.prems(1) nf] by (auto simp: nf)
  next
    case False
    let ?r = "r\<lparr>rd_cursor := c\<rparr>"
    have same: "cursor_rest c = cursor_rest (rd_cursor r)" "cur_pos c = cur_pos (rd_cursor r)"
      "cur_buf c = cur_buf (rd_cursor r)"
      using nf False next_frame_parse [OF reader_ok_within [OF Suc.prems(1)]]
      by (auto simp: cursor_rest_def split: prod.splits if_splits)
    have ok: "reader_ok ?r" using Suc.prems(1) same by (simp add: reader_ok_def)
    have pend: "pending ?r = pending r" by (simp add: pending_def same)
    have bytes: "bytes_consumed ?r = bytes_consumed r" by (simp add: bytes_consumed_def same)
    obtain again r' where rf: "refill read ?r = (again, r')" by force
    note run = refill_run [OF ok rf]
    have trans: "reader_step r' res \<Longrightarrow> reader_step r res" for res
      using run(2,3,4,5) pend bytes by (auto simp: reader_step_def split: prod.splits)
    show ?thesis
    proof (cases again)
      case True
      then have "length (remaining (rd_source r')) < fuel"
        using run(7) Suc.prems(2) by simp
      from Suc.IH [OF run(1) this] trans show ?thesis
        using False True by (auto simp: nf rf)
    next
      case again: False
      obtain st' out' c' where nf': "next_frame (rd_cursor r') = Inr (st', out', c')"
        using next_frame_parse [OF reader_ok_within [OF run(1)]] by (auto split: prod.splits)
      have "reader_step r' (st', out', if st' = Ok then r'\<lparr>rd_cursor := c', rd_frames := rd_frames r' + 1\<rparr>
        else r'\<lparr>rd_cursor := c'\<rparr>)"
        using finish_step [OF run(1) nf'] run(8) [OF again] by blast
      from trans [OF this] show ?thesis
        using False again by (auto simp: nf rf nf' Let_def)
    qed
  qed
qed

lemma reader_drain_run:
  assumes "reader_ok r" and "length (pending r) < fuel" and "length (pending r) < turns"
  shows "\<exists>st r'. reader_drain read turns fuel r = Inr (fst (frames_of (pending r)), st, r') \<and>
    rd_frames r' = rd_frames r + of_nat (length (fst (frames_of (pending r)))) \<and>
    bytes_consumed r' + of_nat (length (pending r')) = bytes_consumed r + of_nat (length (pending r)) \<and>
    (st = fst (snd (frames_of (pending r))) \<and> reader_error r' = snd (snd (frames_of (pending r))) \<or>
     \<not> roomy (length (rd_buf r)) \<and> fst (snd (frames_of (pending r))) = Malformed \<and> st = NeedMore)"
  using assms
proof (induction fuel arbitrary: r)
  case 0
  then show ?case by simp
next
  case (Suc fuel)
  have "length (remaining (rd_source r)) < turns" using Suc.prems(3) by (simp add: pending_def)
  then obtain st out r1 where next1: "reader_next read turns r = Inr (st, out, r1)"
    and step: "reader_step r (st, out, r1)"
    using reader_next_run [OF Suc.prems(1)] by force
  obtain pst per body where p: "parse (pending r) = (pst, per, body)" by (metis prod_cases3)
  show ?case
  proof (cases "pst = Ok")
    case False
    then show ?thesis
      using step p by (auto simp: next1 reader_step_def frames_of.simps [of "pending r"])
  next
    case True
    have r1: "out = Some body" "pending r1 = drop (2 + length body) (pending r)" "reader_ok r1"
      "length (rd_buf r1) = length (rd_buf r)" "rd_frames r1 = rd_frames r + 1"
      "bytes_consumed r1 + of_nat (length (pending r1)) = bytes_consumed r + of_nat (length (pending r))"
      using step p True by (auto simp: reader_step_def)
    have "2 + length body \<le> length (pending r)" using parse_size p True by blast
    then have "length (pending r1) < fuel" "length (pending r1) < turns"
      using Suc.prems(2,3) by (simp_all add: r1(2))
    from Suc.IH [OF r1(3) this] obtain st' r' where
      "reader_drain read turns fuel r1 = Inr (fst (frames_of (pending r1)), st', r')"
      "rd_frames r' = rd_frames r1 + of_nat (length (fst (frames_of (pending r1))))"
      "bytes_consumed r' + of_nat (length (pending r')) = bytes_consumed r1 + of_nat (length (pending r1))"
      "st' = fst (snd (frames_of (pending r1))) \<and> reader_error r' = snd (snd (frames_of (pending r1))) \<or>
       \<not> roomy (length (rd_buf r1)) \<and> fst (snd (frames_of (pending r1))) = Malformed \<and> st' = NeedMore"
      by blast
    moreover have "frames_of (pending r) = (body # fst (frames_of (pending r1)), snd (frames_of (pending r1)))"
      using p True by (simp add: frames_of.simps [of "pending r"] r1(2) split: prod.splits)
    ultimately show ?thesis
      using r1(6) by (simp add: next1 r1(1,4,5))
  qed
qed

end

lemma drop_split: "drop p xs = take k (drop p xs) @ drop (p + k) xs"
  by (metis append_take_drop_id drop_drop add.commute)

interpretation memory: byte_source memory_read memory_left
proof unfold_locales
  fix s n bs s'
  assume "memory_read s n = (bs, s')"
  then show "memory_left s = bs @ memory_left s'" and "length bs \<le> n"
    by (auto simp: memory_read_def memory_left_def Let_def intro: drop_split split: if_splits)
next
  fix s n s'
  assume "memory_read s n = ([], s')"
  then show "n = 0 \<or> memory_left s = []"
    by (auto simp: memory_read_def memory_left_def Let_def split: if_splits)
qed

end
