(* ===== verification/Level_Map.thy ===== *)
theory Level_Map
  imports Core_Types Handles Assertions
begin

text \<open>
  What \<open>BookT\<close> asks of its \<open>LevelMap\<close> parameter, the structure from prices to level
  handles of one side: the record \<open>level_ops\<close> of the members it calls, and the locale
  \<open>level_map\<close> of the laws they obey. \<open>content\<close> is the finite map the structure stands for,
  \<open>inv\<close> its invariant, and \<open>ok_price\<close> the prices it is meant for.
\<close>

record 'm level_ops =
  lm_new :: "side \<Rightarrow> 'm"
  lm_find :: "'m \<Rightarrow> price \<Rightarrow> failure + level_handle"
  lm_insert :: "'m \<Rightarrow> price \<Rightarrow> level_handle \<Rightarrow> failure + 'm"
  lm_erase :: "'m \<Rightarrow> price \<Rightarrow> failure + 'm"
  lm_best :: "'m \<Rightarrow> failure + price"
  lm_empty :: "'m \<Rightarrow> bool"
  lm_levels :: "'m \<Rightarrow> failure + (price \<times> level_handle) list"
  lm_validate :: "'m \<Rightarrow> failure + unit"

text \<open>Levels from the inside outwards: strictly further from the inside at each step.\<close>

definition inside_out :: "side \<Rightarrow> (price \<times> 'a) list \<Rightarrow> bool" where
  "inside_out s xs \<longleftrightarrow> sorted_wrt (closer s) (map fst xs)"

lemma inside_out_distinct: "inside_out s xs \<Longrightarrow> distinct (map fst xs)"
  unfolding inside_out_def
  by (induction xs) auto

definition lookup :: "(price \<Rightarrow> level_handle option) \<Rightarrow> price \<Rightarrow> level_handle" where
  "lookup m p = (case m p of None \<Rightarrow> null_handle | Some h \<Rightarrow> h)"

lemma lookup_simps [simp]:
  "m p = None \<Longrightarrow> lookup m p = null_handle"
  "m p = Some h \<Longrightarrow> lookup m p = h"
  by (simp_all add: lookup_def)

lemma map_ext_Some: "(\<And>p h. m p = Some h \<longleftrightarrow> m' p = Some h) \<Longrightarrow> m = m'"
  by (rule ext) (metis option.exhaust)

text \<open>No level map of a book holds more levels than a handle can name.\<close>

definition max_levels :: nat where
  "max_levels = 2 ^ 24"

locale level_map =
  fixes ops :: "'m level_ops"
    and content :: "'m \<Rightarrow> price \<Rightarrow> level_handle option"
    and inv :: "side \<Rightarrow> 'm \<Rightarrow> bool"
    and ok_price :: "price \<Rightarrow> bool"
  assumes new_inv: "inv s (lm_new ops s)"
    and new_content: "content (lm_new ops s) = Map.empty"
    and content_null: "inv s m \<Longrightarrow> content m p = Some h \<Longrightarrow> \<not> is_null h"
    and content_finite: "inv s m \<Longrightarrow> finite (dom (content m))"
    and content_ok: "inv s m \<Longrightarrow> content m p = Some h \<Longrightarrow> ok_price p"
    and ok_price_nonzero: "ok_price p \<Longrightarrow> p \<noteq> kNoPrice"
    and find_law: "inv s m \<Longrightarrow> lm_find ops m p = Inr (lookup (content m) p)"
    and insert_law: "inv s m \<Longrightarrow> \<not> is_null h \<Longrightarrow> ok_price p \<Longrightarrow> content m p = None \<Longrightarrow>
      card (dom (content m)) < max_levels \<Longrightarrow>
      \<exists>m'. lm_insert ops m p h = Inr m' \<and> inv s m' \<and> content m' = (content m)(p \<mapsto> h)"
    and erase_law: "inv s m \<Longrightarrow> content m p = Some h \<Longrightarrow>
      \<exists>m'. lm_erase ops m p = Inr m' \<and> inv s m' \<and> content m' = (content m)(p := None)"
    and empty_law: "inv s m \<Longrightarrow> lm_empty ops m \<longleftrightarrow> content m = Map.empty"
    and best_law: "inv s m \<Longrightarrow> content m \<noteq> Map.empty \<Longrightarrow>
      \<exists>p. lm_best ops m = Inr p \<and> is_best s (dom (content m)) p"
    and levels_law: "inv s m \<Longrightarrow>
      \<exists>xs. lm_levels ops m = Inr xs \<and> inside_out s xs \<and> map_of xs = content m"
    and validate_law: "inv s m \<Longrightarrow> lm_validate ops m = Inr ()"
begin

lemma find_null_iff: "inv s m \<Longrightarrow> is_null (lookup (content m) p) \<longleftrightarrow> content m p = None"
  using content_null by (cases "content m p") auto

lemma best_unique:
  "inv s m \<Longrightarrow> is_best s (dom (content m)) p \<Longrightarrow> lm_best ops m = Inr p"
  using best_law [of s m] is_best_unique [of s "dom (content m)"]
  by (force simp: is_best_def)

text \<open>The walk from the inside starts at the best price.\<close>

lemma levels_best:
  assumes "inv s m" and "content m \<noteq> Map.empty"
  shows "\<exists>p h xs. lm_levels ops m = Inr ((p, h) # xs) \<and> lm_best ops m = Inr p"
proof -
  obtain xs where xs: "lm_levels ops m = Inr xs" "inside_out s xs" "map_of xs = content m"
    using levels_law [OF assms(1)] by blast
  then obtain p h ys where ys: "xs = (p, h) # ys" using assms(2) by (cases xs) auto
  have "is_best s (dom (content m)) p"
    using xs(2) closer_asym
    by (auto simp: is_best_def inside_out_def ys dom_map_of_conv_image_fst simp flip: xs(3))
  then show ?thesis using best_unique [OF assms(1)] xs(1) ys by blast
qed

end

end
