(* ===== verification/Price_Ladder.thy ===== *)
theory Price_Ladder
  imports Level_Map
begin

text \<open>
  include/itch/book/price_ladder.hpp: a window of 4096 penny ticks, a bit per tick in 64
  words and a handle per tick, and an ordered map for every other price. \<open>base_\<close> is a
  signed 64-bit integer that stays far from its bounds, here an \<open>int\<close>; the casts to
  \<open>Price\<close> wrap as in the source. The ordered map is the list of its entries by ascending
  price. The counters of lookups, which only \<open>find\<close> writes and nothing reads, are left out.
\<close>

section \<open>Counting bits\<close>

text \<open>\<open>std::countr_zero\<close>, \<open>std::countl_zero\<close> and \<open>std::popcount\<close> on 64-bit words.\<close>

definition countr_zero :: "u64 \<Rightarrow> nat" where
  "countr_zero w = length (takeWhile (\<lambda>i. \<not> bit w i) [0..<64])"

definition countl_zero :: "u64 \<Rightarrow> nat" where
  "countl_zero w = length (takeWhile (\<lambda>i. \<not> bit w i) (rev [0..<64]))"

definition popcount :: "u64 \<Rightarrow> nat" where
  "popcount w = length (filter (bit w) [0..<64])"

text \<open>
  The loops that take a word apart from its lowest bit (\<open>bits &= bits - 1\<close>) and from its
  highest. The fuel is the number of bits.
\<close>

fun low_bits :: "nat \<Rightarrow> u64 \<Rightarrow> nat list" where
  "low_bits 0 bits = []"
| "low_bits (Suc fuel) bits =
     (if bits = 0 then [] else countr_zero bits # low_bits fuel (bits AND (bits - 1)))"

fun high_bits :: "nat \<Rightarrow> u64 \<Rightarrow> nat list" where
  "high_bits 0 bits = []"
| "high_bits (Suc fuel) bits =
     (if bits = 0 then []
      else let top = 63 - countl_zero bits in top # high_bits fuel (bits AND NOT (push_bit top 1)))"

section \<open>State\<close>

record ladder =
  pl_side :: side
  pl_base :: int
  pl_slots :: "level_handle list"
  pl_words :: "u64 list"
  pl_overflow :: "(price \<times> level_handle) list"
  pl_levels :: u32
  pl_rebases :: u64
  pl_displaced :: u64

definition kWindowTicks :: nat where
  "kWindowTicks = 4096"

definition kWords :: nat where
  "kWords = kWindowTicks div 64"

definition kRebaseMargin :: int where
  "kRebaseMargin = 512"

definition kTickUnits :: price where
  "kTickUnits = kPennyUnits"

definition ladder_new :: "side \<Rightarrow> ladder" where
  "ladder_new s = \<lparr>pl_side = s, pl_base = 0, pl_slots = replicate kWindowTicks null_handle,
     pl_words = replicate kWords 0, pl_overflow = [], pl_levels = 0, pl_rebases = 0, pl_displaced = 0\<rparr>"

section \<open>Prices, ticks and slots\<close>

definition aligned :: "price \<Rightarrow> bool" where
  "aligned p \<longleftrightarrow> p mod kTickUnits = 0"

definition tick_of :: "price \<Rightarrow> int" where
  "tick_of p = uint (p div kTickUnits)"

definition in_window :: "ladder \<Rightarrow> price \<Rightarrow> bool" where
  "in_window l p \<longleftrightarrow>
     aligned p \<and> pl_base l \<le> tick_of p \<and> tick_of p < pl_base l + int kWindowTicks"

definition slot_of :: "ladder \<Rightarrow> price \<Rightarrow> u32" where
  "slot_of l p = word_of_int (tick_of p - pl_base l)"

definition price_of_slot :: "ladder \<Rightarrow> u32 \<Rightarrow> price" where
  "price_of_slot l s = word_of_int ((pl_base l + uint s) * uint kTickUnits)"

definition bit_is_set :: "ladder \<Rightarrow> u32 \<Rightarrow> bool" where
  "bit_is_set l s \<longleftrightarrow> drop_bit (unat (s AND 63)) (pl_words l ! unat (drop_bit 6 s)) AND 1 \<noteq> 0"

definition set_slot_bit :: "u32 \<Rightarrow> ladder \<Rightarrow> ladder" where
  "set_slot_bit s l =
     (let w = unat (drop_bit 6 s) in
      l\<lparr>pl_words := (pl_words l)[w := (pl_words l ! w) OR push_bit (unat (s AND 63)) 1]\<rparr>)"

definition clear_slot_bit :: "u32 \<Rightarrow> ladder \<Rightarrow> ladder" where
  "clear_slot_bit s l =
     (let w = unat (drop_bit 6 s) in
      l\<lparr>pl_words := (pl_words l)[w := (pl_words l ! w) AND NOT (push_bit (unat (s AND 63)) 1)]\<rparr>)"

definition put_slot :: "u32 \<Rightarrow> level_handle \<Rightarrow> ladder \<Rightarrow> ladder" where
  "put_slot s h l = l\<lparr>pl_slots := (pl_slots l)[unat s := h]\<rparr>"

section \<open>The ordered map\<close>

text \<open>\<open>emplace\<close> keeps an entry that is already there.\<close>

fun emplace :: "price \<Rightarrow> level_handle \<Rightarrow> (price \<times> level_handle) list \<Rightarrow> (price \<times> level_handle) list" where
  "emplace p h [] = [(p, h)]"
| "emplace p h ((q, g) # xs) =
     (if p < q then (p, h) # (q, g) # xs else if p = q then (q, g) # xs else (q, g) # emplace p h xs)"

definition erase_key :: "price \<Rightarrow> (price \<times> level_handle) list \<Rightarrow> (price \<times> level_handle) list" where
  "erase_key p xs = filter (\<lambda>x. fst x \<noteq> p) xs"

section \<open>Lookup and best\<close>

definition ladder_find :: "ladder \<Rightarrow> price \<Rightarrow> level_handle" where
  "ladder_find l p =
     (if in_window l p then
        let s = slot_of l p in if bit_is_set l s then pl_slots l ! unat s else null_handle
      else case map_of (pl_overflow l) p of None \<Rightarrow> null_handle | Some h \<Rightarrow> h)"

definition ladder_empty :: "ladder \<Rightarrow> bool" where
  "ladder_empty l \<longleftrightarrow> pl_levels l = 0"

definition ladder_better :: "ladder \<Rightarrow> price \<Rightarrow> price \<Rightarrow> price" where
  "ladder_better l a b =
     (if pl_side l = Buy then (if b < a then a else b) else (if a < b then a else b))"

definition best_in_window :: "ladder \<Rightarrow> price" where
  "best_in_window l =
     (if pl_side l = Buy then
        case List.find (\<lambda>w. pl_words l ! w \<noteq> 0) (rev [0..<kWords]) of
          None \<Rightarrow> kNoPrice
        | Some w \<Rightarrow> price_of_slot l (of_nat (w * 64 + 63 - countl_zero (pl_words l ! w)))
      else
        case List.find (\<lambda>w. pl_words l ! w \<noteq> 0) [0..<kWords] of
          None \<Rightarrow> kNoPrice
        | Some w \<Rightarrow> price_of_slot l (of_nat (w * 64 + countr_zero (pl_words l ! w))))"

definition ladder_best :: "ladder \<Rightarrow> failure + price" where
  "ladder_best l =
     andthen (ensure (\<not> ladder_empty l) (LevelsF BestOnEmpty)) (\<lambda>_.
     let from_window = best_in_window l in
     if pl_overflow l = [] then
       andthen (ensure (from_window \<noteq> kNoPrice) (LevelsF BestNoPrice)) (\<lambda>_. Inr from_window)
     else
       let from_overflow = (if pl_side l = Buy then fst (last (pl_overflow l)) else fst (hd (pl_overflow l))) in
       if from_window = kNoPrice then Inr from_overflow
       else Inr (ladder_better l from_window from_overflow))"

section \<open>Rebasing\<close>

text \<open>Slots in the order of the words, lowest first: the loops over the occupied bits.\<close>

definition occupied_slots :: "ladder \<Rightarrow> u32 list" where
  "occupied_slots l = concat (map (\<lambda>w. map (\<lambda>b. of_nat (w * 64 + b)) (low_bits 64 (pl_words l ! w))) [0..<kWords])"

definition put_back :: "price \<times> level_handle \<Rightarrow> ladder \<Rightarrow> ladder" where
  "put_back x l =
     (if in_window l (fst x) then
        let s = slot_of l (fst x) in set_slot_bit s (put_slot s (snd x) l)
      else l\<lparr>pl_overflow := emplace (fst x) (snd x) (pl_overflow l), pl_displaced := pl_displaced l + 1\<rparr>)"

definition pull_in :: "price \<times> level_handle \<Rightarrow> ladder \<Rightarrow> ladder" where
  "pull_in x l = (let s = slot_of l (fst x) in set_slot_bit s (put_slot s (snd x) l))"

text \<open>
  The walk from \<open>lower_bound(lo_price)\<close> while the price is below \<open>hi_price\<close>, both computed
  in 64 bits and cast to 32: what lies before and after it stays, and of what it meets,
  the prices inside the window move into it.
\<close>

definition slide_over :: "ladder \<Rightarrow> ladder" where
  "slide_over l =
     (let lo_price = (word_of_int (pl_base l * uint kTickUnits) :: price);
          hi_price = (word_of_int ((pl_base l + int kWindowTicks) * uint kTickUnits) :: price);
          before = takeWhile (\<lambda>x. fst x < lo_price) (pl_overflow l);
          rest = dropWhile (\<lambda>x. fst x < lo_price) (pl_overflow l);
          met = takeWhile (\<lambda>x. fst x < hi_price) rest;
          after = dropWhile (\<lambda>x. fst x < hi_price) rest;
          l' = foldl (\<lambda>l x. pull_in x l) l (filter (\<lambda>x. in_window l (fst x)) met)
      in l'\<lparr>pl_overflow := before @ filter (\<lambda>x. \<not> in_window l (fst x)) met @ after\<rparr>)"

definition rebase :: "int \<Rightarrow> ladder \<Rightarrow> ladder" where
  "rebase anchor l =
     (let new_base = anchor - int kWindowTicks div 2 in
      if new_base = pl_base l then l
      else
        let lifted = map (\<lambda>s. (price_of_slot l s, pl_slots l ! unat s)) (occupied_slots l);
            cleared = l\<lparr>pl_slots := foldl (\<lambda>ss s. ss[unat s := null_handle]) (pl_slots l) (occupied_slots l),
                        pl_words := replicate kWords 0, pl_base := new_base\<rparr>;
            l' = slide_over (foldl (\<lambda>l x. put_back x l) cleared lifted)
        in l'\<lparr>pl_rebases := pl_rebases l' + 1\<rparr>)"

definition maybe_rebase :: "ladder \<Rightarrow> failure + ladder" where
  "maybe_rebase l =
     (if ladder_empty l then Inr l
      else
        andthen (ladder_best l) (\<lambda>best.
        let t = tick_of best;
            lo = pl_base l + kRebaseMargin;
            hi = pl_base l + int kWindowTicks - kRebaseMargin in
        if lo \<le> t \<and> t < hi then Inr l else Inr (rebase t l)))"

section \<open>Mutation\<close>

definition ladder_insert :: "ladder \<Rightarrow> price \<Rightarrow> level_handle \<Rightarrow> failure + ladder" where
  "ladder_insert l p h =
     andthen (ensure (\<not> is_null h) (LevelsF LevelNullHandle)) (\<lambda>_.
     andthen (ensure (is_null (ladder_find l p)) (LevelsF LevelExists)) (\<lambda>_.
     let l1 =
       (if in_window l p then
          let s = slot_of l p in set_slot_bit s (put_slot s h l)
        else l\<lparr>pl_overflow := emplace p h (pl_overflow l)\<rparr>) in
     maybe_rebase (l1\<lparr>pl_levels := pl_levels l1 + 1\<rparr>)))"

definition ladder_erase :: "ladder \<Rightarrow> price \<Rightarrow> failure + ladder" where
  "ladder_erase l p =
     andthen
       (if in_window l p then
          let s = slot_of l p in
          andthen (ensure (bit_is_set l s) (LevelsF LevelMissing)) (\<lambda>_.
            Inr (put_slot s null_handle (clear_slot_bit s l)))
        else
          andthen (ensure (map_of (pl_overflow l) p \<noteq> None) (LevelsF LevelMissing)) (\<lambda>_.
            Inr (l\<lparr>pl_overflow := erase_key p (pl_overflow l)\<rparr>))) (\<lambda>l.
     andthen (ensure (0 < pl_levels l) (LevelsF LevelUnderflow)) (\<lambda>_.
       Inr (l\<lparr>pl_levels := pl_levels l - 1\<rparr>)))"

section \<open>Walks and validation\<close>

definition in_window_count :: "ladder \<Rightarrow> nat" where
  "in_window_count l = sum_list (map popcount (pl_words l))"

definition collect_window :: "ladder \<Rightarrow> price list" where
  "collect_window l =
     (if pl_side l = Buy then
        concat (map (\<lambda>w. map (\<lambda>b. price_of_slot l (of_nat (w * 64 + b))) (high_bits 64 (pl_words l ! w)))
          (rev [0..<kWords]))
      else
        concat (map (\<lambda>w. map (\<lambda>b. price_of_slot l (of_nat (w * 64 + b))) (low_bits 64 (pl_words l ! w)))
          [0..<kWords]))"

text \<open>The two-way merge of the window and the ordered map, on either side.\<close>

fun merge_levels :: "ladder \<Rightarrow> price list \<Rightarrow> (price \<times> level_handle) list \<Rightarrow> (price \<times> level_handle) list" where
  "merge_levels l [] os = os"
| "merge_levels l (w # ws) [] = (w, pl_slots l ! unat (slot_of l w)) # merge_levels l ws []"
| "merge_levels l (w # ws) (x # os) =
     (if (if pl_side l = Buy then fst x < w else w < fst x)
      then (w, pl_slots l ! unat (slot_of l w)) # merge_levels l ws (x # os)
      else x # merge_levels l (w # ws) os)"

definition ladder_levels :: "ladder \<Rightarrow> (price \<times> level_handle) list" where
  "ladder_levels l =
     merge_levels l (collect_window l) (if pl_side l = Buy then rev (pl_overflow l) else pl_overflow l)"

definition ladder_validate :: "ladder \<Rightarrow> failure + unit" where
  "ladder_validate l =
     andthen (ensure (in_window_count l + length (pl_overflow l) = unat (pl_levels l)) (LevelsF LevelCensus)) (\<lambda>_.
     andthen (each (\<lambda>s. ensure (\<not> is_null (pl_slots l ! unat s)) (LevelsF LevelSlotNull)) (occupied_slots l)) (\<lambda>_.
       each (\<lambda>x. andthen (ensure (\<not> is_null (snd x)) (LevelsF LevelSlotNull)) (\<lambda>_.
                 ensure (\<not> in_window l (fst x)) (LevelsF InWindowOverflow))) (pl_overflow l)))"

definition ladder_ops :: "ladder level_ops" where
  "ladder_ops = \<lparr>lm_new = ladder_new, lm_find = (\<lambda>l p. Inr (ladder_find l p)), lm_insert = ladder_insert,
     lm_erase = ladder_erase, lm_best = ladder_best, lm_empty = ladder_empty,
     lm_levels = (\<lambda>l. Inr (ladder_levels l)), lm_validate = ladder_validate\<rparr>"

end
