(* ===== verification/Ladder_Bits.thy ===== *)
theory Ladder_Bits
  imports Price_Ladder
begin

text \<open>
  The bit loops of the ladder: the loop over the lowest bits yields the set bits in
  ascending order, the loop over the highest ones in descending order, and the word loops
  around them enumerate the occupied slots of the window.
\<close>

section \<open>Searching lists\<close>

lemma hd_filter: "filter P xs \<noteq> [] \<Longrightarrow> hd (filter P xs) = xs ! length (takeWhile (\<lambda>x. \<not> P x) xs)"
  by (induction xs) auto

lemma prefix_length_filter: "filter P xs \<noteq> [] \<Longrightarrow> length (takeWhile (\<lambda>x. \<not> P x) xs) < length xs"
  by (induction xs) auto

lemma find_concat:
  assumes "\<And>x. x \<in> set xs \<Longrightarrow> f x = [] \<longleftrightarrow> \<not> P x"
  shows "(case List.find P xs of None \<Rightarrow> d | Some x \<Rightarrow> hd (f x)) =
    (case concat (map f xs) of [] \<Rightarrow> d | y # ys \<Rightarrow> y)"
  using assms
proof (induction xs)
  case (Cons x xs)
  show ?case
  proof (cases "P x")
    case True
    then have "f x \<noteq> []" using Cons.prems by simp
    then obtain y ys where "f x = y # ys" by (cases "f x") auto
    with True show ?thesis by simp
  next
    case False
    then have "f x = []" using Cons.prems [of x] by simp
    then have "concat (map f (x # xs)) = concat (map f xs)" by simp
    moreover have "List.find P (x # xs) = List.find P xs" using False by simp
    moreover have "\<And>y. y \<in> set xs \<Longrightarrow> f y = [] \<longleftrightarrow> \<not> P y" using Cons.prems by simp
    ultimately show ?thesis using Cons.IH by (simp only:)
  qed
qed simp

section \<open>Words as lists of set bits\<close>

definition set_bits_of :: "u64 \<Rightarrow> nat list" where
  "set_bits_of w = filter (bit w) [0..<64]"

lemma set_bits_of_zero [simp]: "set_bits_of 0 = []"
  by (simp add: set_bits_of_def)

lemma set_bits_of_empty: "set_bits_of w = [] \<longleftrightarrow> w = 0"
proof
  assume "set_bits_of w = []"
  then have "\<not> bit w i" if "i < 64" for i
    using that unfolding set_bits_of_def filter_empty_conv by auto
  then show "w = 0" by (intro bit_word_eqI) simp
qed simp

lemma in_set_bits_of [simp]: "i \<in> set (set_bits_of w) \<longleftrightarrow> i < 64 \<and> bit w i"
  by (auto simp: set_bits_of_def)

lemma sorted_set_bits_of: "sorted_wrt (<) (set_bits_of w)"
  unfolding set_bits_of_def by (intro sorted_wrt_filter) simp

lemma length_set_bits_of: "length (set_bits_of w) \<le> 64"
  unfolding set_bits_of_def by (rule order_trans [OF length_filter_le]) simp

lemma popcount_set_bits: "popcount w = length (set_bits_of w)"
  by (simp add: popcount_def set_bits_of_def)

lemma countr_zero_hd:
  assumes "w \<noteq> 0" shows "countr_zero w = hd (set_bits_of w)" and "countr_zero w < 64"
proof -
  have ne: "filter (bit w) [0..<64] \<noteq> []"
    using assms set_bits_of_empty unfolding set_bits_of_def by blast
  show lt: "countr_zero w < 64"
    using prefix_length_filter [OF ne] by (simp add: countr_zero_def)
  show "countr_zero w = hd (set_bits_of w)"
    unfolding set_bits_of_def hd_filter [OF ne] countr_zero_def [symmetric] using lt by simp
qed

lemma countl_zero_last:
  assumes "w \<noteq> 0" shows "63 - countl_zero w = last (set_bits_of w)"
proof -
  have ne: "filter (bit w) (rev [0..<64]) \<noteq> []"
    using assms set_bits_of_empty [of w] unfolding set_bits_of_def rev_filter [symmetric] by simp
  have lt: "countl_zero w < 64"
    using prefix_length_filter [OF ne] by (simp add: countl_zero_def)
  have "last (set_bits_of w) = hd (filter (bit w) (rev [0..<64]))"
    unfolding set_bits_of_def rev_filter [symmetric] using ne
    by (simp add: hd_rev rev_filter [symmetric])
  also have "\<dots> = rev [0..<64] ! countl_zero w"
    unfolding hd_filter [OF ne] countl_zero_def ..
  also have "\<dots> = 63 - countl_zero w" using lt by (simp add: rev_nth)
  finally show ?thesis by simp
qed

lemma top_slot:
  assumes "w \<noteq> 0" shows "n * 64 + 63 - countl_zero w = n * 64 + last (set_bits_of w)"
proof -
  have "countl_zero w \<le> 63"
    using prefix_length_filter [of "bit w" "rev [0..<64]"] assms set_bits_of_empty [of w]
    by (simp add: countl_zero_def set_bits_of_def rev_filter [symmetric])
  then show ?thesis using countl_zero_last [OF assms] by simp
qed

lemma sorted_filter_less_hd:
  "sorted_wrt (<) (x # xs) \<Longrightarrow> filter (\<lambda>y. y \<noteq> x) (x # xs) = xs" for x :: nat
  by (auto intro!: filter_True)

lemma sorted_filter_last:
  "sorted_wrt (<) (xs @ [x]) \<Longrightarrow> filter (\<lambda>y. y \<noteq> x) (xs @ [x]) = xs" for x :: nat
  by (auto simp: sorted_wrt_append intro!: filter_True)

lemma set_bits_of_clear:
  assumes "\<And>i. i < 64 \<Longrightarrow> bit v i \<longleftrightarrow> bit w i \<and> i \<noteq> c"
  shows "set_bits_of v = filter (\<lambda>i. i \<noteq> c) (set_bits_of w)"
  unfolding set_bits_of_def filter_filter
  using assms by (intro filter_cong) auto

text \<open>\<open>bits &= bits - 1\<close> clears the lowest set bit and no other.\<close>

lemma bit_clear_lowest:
  fixes w :: "'a::len word"
  assumes "bit w c" and "\<And>i. i < c \<Longrightarrow> \<not> bit w i"
  shows "bit (w AND (w - 1)) i \<longleftrightarrow> bit w i \<and> i \<noteq> c"
proof -
  define r where "r = w AND NOT (mask (Suc c))"
  have c: "c < LENGTH('a)" using assms(1) by (rule bit_imp_le_length)
  have "w = push_bit c 1 OR r"
    using assms c by (intro bit_word_eqI)
      (auto simp: r_def bit_simps less_Suc_eq intro: leI)
  also have "\<dots> = push_bit c 1 + r"
    by (rule disjunctive_add_eq_or [symmetric]) (auto intro!: bit_word_eqI simp: r_def bit_simps)
  finally have "w - 1 = mask c + r" by (simp add: mask_eq_exp_minus_1 push_bit_eq_mult)
  also have "\<dots> = mask c OR r"
    by (rule disjunctive_add_eq_or) (auto intro!: bit_word_eqI simp: r_def bit_simps)
  finally have "w - 1 = mask c OR r" .
  then show ?thesis using assms c
    by (auto simp: r_def bit_simps less_Suc_eq not_less dest: bit_imp_le_length)
qed

lemma low_bits_set_bits:
  "length (set_bits_of w) \<le> n \<Longrightarrow> low_bits n w = set_bits_of w"
proof (induction n arbitrary: w)
  case (Suc n)
  show ?case
  proof (cases "w = 0")
    case False
    then obtain c cs where cs: "set_bits_of w = c # cs"
      using set_bits_of_empty by (cases "set_bits_of w") auto
    have c: "countr_zero w = c" using countr_zero_hd(1) [OF False] cs by simp
    have "sorted_wrt (<) (c # cs)" using sorted_set_bits_of [of w] cs by simp
    moreover have "bit w c" "c < 64" using in_set_bits_of [of c w] cs by auto
    moreover have "\<not> bit w i" if "i < c" for i
    proof
      assume "bit w i"
      then have "i \<in> set (c # cs)" using in_set_bits_of [of i w] that \<open>c < 64\<close> cs by simp
      with \<open>sorted_wrt (<) (c # cs)\<close> that show False by auto
    qed
    ultimately have "set_bits_of (w AND (w - 1)) = cs"
      using set_bits_of_clear [OF bit_clear_lowest, of w c] sorted_filter_less_hd [of c cs] cs by simp
    with Suc cs c False show ?thesis by simp
  qed simp
qed (simp add: set_bits_of_empty)

lemma high_bits_set_bits:
  "length (set_bits_of w) \<le> n \<Longrightarrow> high_bits n w = rev (set_bits_of w)"
proof (induction n arbitrary: w)
  case (Suc n)
  show ?case
  proof (cases "w = 0")
    case False
    then obtain cs c where cs: "set_bits_of w = cs @ [c]"
      using set_bits_of_empty by (cases "set_bits_of w" rule: rev_cases) auto
    have c: "63 - countl_zero w = c" using countl_zero_last [OF False] cs by simp
    have "set_bits_of (w AND NOT (push_bit c 1)) = filter (\<lambda>i. i \<noteq> c) (cs @ [c])"
      unfolding cs [symmetric] by (rule set_bits_of_clear) (auto simp: bit_simps)
    also have "\<dots> = cs" using sorted_filter_last [of cs c] sorted_set_bits_of [of w] cs by simp
    finally show ?thesis using Suc cs c False by (simp add: Let_def)
  qed simp
qed (simp add: set_bits_of_empty)

lemmas bit_loops = low_bits_set_bits [OF length_set_bits_of] high_bits_set_bits [OF length_set_bits_of]

section \<open>The occupied slots of a window\<close>

definition slot_bit :: "ladder \<Rightarrow> nat \<Rightarrow> bool" where
  "slot_bit l i \<longleftrightarrow> bit (pl_words l ! (i div 64)) (i mod 64)"

definition held_slots :: "ladder \<Rightarrow> nat list" where
  "held_slots l = filter (slot_bit l) [0..<kWindowTicks]"

lemma blocks: "concat (map (\<lambda>w. map (\<lambda>b. w * 64 + b) [0..<64]) [0..<n]) = [0..<n * 64]"
proof (induction n)
  case (Suc n)
  have "map (\<lambda>b. n * 64 + b) [0..<64] = [n * 64..<Suc n * 64]"
    by (rule nth_equalityI) simp_all
  moreover have "[0..<Suc n * 64] = [0..<n * 64] @ [n * 64..<Suc n * 64]"
    using upt_add_eq_append [of 0 "n * 64" 64] by (simp add: add.commute)
  ultimately show ?case using Suc by simp
qed simp

lemma held_slots_blocks:
  "held_slots l = concat (map (\<lambda>w. map (\<lambda>b. w * 64 + b) (set_bits_of (pl_words l ! w))) [0..<kWords])"
proof -
  have "held_slots l = filter (slot_bit l) (concat (map (\<lambda>w. map (\<lambda>b. w * 64 + b) [0..<64]) [0..<kWords]))"
    unfolding blocks by (simp add: held_slots_def kWords_def kWindowTicks_def)
  also have "\<dots> = concat (map (\<lambda>w. filter (slot_bit l) (map (\<lambda>b. w * 64 + b) [0..<64])) [0..<kWords])"
    by (simp add: filter_concat comp_def)
  also have "\<dots> = concat (map (\<lambda>w. map (\<lambda>b. w * 64 + b) (set_bits_of (pl_words l ! w))) [0..<kWords])"
    by (intro arg_cong [of _ _ concat] map_cong refl)
      (auto simp: filter_map comp_def set_bits_of_def slot_bit_def intro!: arg_cong [of _ _ "map _"] filter_cong)
  finally show ?thesis .
qed

lemma occupied_slots_eq: "occupied_slots l = map of_nat (held_slots l)"
  unfolding occupied_slots_def held_slots_blocks bit_loops
  by (simp add: map_concat comp_def)

lemma in_window_count_eq: "length (pl_words l) = kWords \<Longrightarrow> in_window_count l = length (held_slots l)"
proof -
  assume l: "length (pl_words l) = kWords"
  have "map popcount (pl_words l) = map (\<lambda>w. popcount (pl_words l ! w)) [0..<kWords]"
    using l by (intro nth_equalityI) simp_all
  then show ?thesis
    unfolding in_window_count_def held_slots_blocks by (simp add: length_concat popcount_set_bits comp_def)
qed

lemma collect_window_eq:
  "collect_window l = map (\<lambda>i. price_of_slot l (of_nat i))
     (if pl_side l = Buy then rev (held_slots l) else held_slots l)"
  unfolding collect_window_def held_slots_blocks bit_loops
  by (simp add: map_concat rev_concat comp_def rev_map [symmetric])

lemma find_Some_nonzero: "List.find (\<lambda>w. f w \<noteq> 0) xs = Some x \<Longrightarrow> f x \<noteq> 0"
  by (auto simp: find_Some_iff)

lemma best_in_window_eq:
  "best_in_window l = (case collect_window l of [] \<Rightarrow> kNoPrice | p # ps \<Rightarrow> p)"
proof (cases "pl_side l")
  case Buy
  have "best_in_window l = (case List.find (\<lambda>w. pl_words l ! w \<noteq> 0) (rev [0..<kWords]) of None \<Rightarrow> kNoPrice
      | Some w \<Rightarrow> hd (map (\<lambda>b. price_of_slot l (of_nat (w * 64 + b))) (rev (set_bits_of (pl_words l ! w)))))"
    unfolding best_in_window_def using Buy
    by (cases "List.find (\<lambda>w. pl_words l ! w \<noteq> 0) (rev [0..<kWords])")
      (auto dest!: find_Some_nonzero simp: top_slot hd_map hd_rev set_bits_of_empty)
  then show ?thesis
    unfolding collect_window_def bit_loops using Buy
    by (simp only: if_True simp_thms) (rule find_concat, simp add: set_bits_of_empty)
next
  case Sell
  have "best_in_window l = (case List.find (\<lambda>w. pl_words l ! w \<noteq> 0) [0..<kWords] of None \<Rightarrow> kNoPrice
      | Some w \<Rightarrow> hd (map (\<lambda>b. price_of_slot l (of_nat (w * 64 + b))) (set_bits_of (pl_words l ! w))))"
    unfolding best_in_window_def using Sell
    by (cases "List.find (\<lambda>w. pl_words l ! w \<noteq> 0) [0..<kWords]")
      (auto dest!: find_Some_nonzero simp: countr_zero_hd hd_map set_bits_of_empty)
  then show ?thesis
    unfolding collect_window_def bit_loops using Sell
    by (simp add: find_concat set_bits_of_empty)
qed

end
