(* ===== verification/Price_Ladder_Laws.thy ===== *)
theory Price_Ladder_Laws
  imports Ladder_Bits
begin

text \<open>
  The ladder is a level map: between operations its window and its ordered map together
  hold a finite map from prices to handles, each price where \<open>find\<close> looks for it, as long
  as every price lies at least 2048 ticks above zero and 2048 ticks below the end of the
  price range, so that no window reaches over either end.
\<close>

lemma uint_of_nat_small: "i < 2 ^ 32 \<Longrightarrow> uint (of_nat i :: u32) = int i"
  by (simp add: unsigned_of_nat take_bit_nat_eq_self)

section \<open>Shape, and where a price is kept\<close>

definition ladder_price :: "price \<Rightarrow> bool" where
  "ladder_price p \<longleftrightarrow> 204800 \<le> unat p \<and> unat p < 2 ^ 32 - 204800"

definition shape :: "side \<Rightarrow> ladder \<Rightarrow> bool" where
  "shape s l \<longleftrightarrow> pl_side l = s \<and> length (pl_slots l) = 4096 \<and> length (pl_words l) = 64 \<and>
     0 \<le> pl_base l \<and> pl_base l + 4096 \<le> 42949672 \<and> sorted_wrt (<) (map fst (pl_overflow l))"

definition tick_pos :: "ladder \<Rightarrow> price \<Rightarrow> nat" where
  "tick_pos l p = nat (tick_of p - pl_base l)"

definition price_at :: "ladder \<Rightarrow> nat \<Rightarrow> price" where
  "price_at l i = price_of_slot l (of_nat i)"

definition window :: "ladder \<Rightarrow> (price \<times> level_handle) set" where
  "window l = {x. in_window l (fst x) \<and> slot_bit l (tick_pos l (fst x)) \<and> snd x = pl_slots l ! tick_pos l (fst x)}"

lemmas ladder_consts = kWindowTicks_def kWords_def kTickUnits_def kPennyUnits_def kRebaseMargin_def

lemma tick_of_eq: "tick_of p = int (unat p div 100)"
proof -
  have "tick_of p = int (unat (p div 100))" by (simp add: tick_of_def ladder_consts)
  then show ?thesis by (simp only: unat_div_distrib) simp
qed

lemma aligned_iff: "aligned p \<longleftrightarrow> unat p mod 100 = 0"
proof -
  have "unat (p mod 100) = unat p mod 100" by (simp add: unat_mod_distrib)
  then show ?thesis by (simp add: aligned_def ladder_consts word_unat_eq_iff)
qed

lemma in_window_pos:
  assumes "in_window l p"
  shows "tick_pos l p < 4096" and "tick_of p = pl_base l + int (tick_pos l p)" and "unat (slot_of l p) = tick_pos l p"
proof -
  have b: "pl_base l \<le> tick_of p" "tick_of p < pl_base l + 4096"
    using assms by (simp_all add: in_window_def ladder_consts)
  then show "tick_pos l p < 4096" "tick_of p = pl_base l + int (tick_pos l p)" by (simp_all add: tick_pos_def)
  have "uint (slot_of l p) = tick_of p - pl_base l"
    unfolding slot_of_def uint_word_of_int using b by simp
  then show "unat (slot_of l p) = tick_pos l p" unfolding tick_pos_def unat_eq_nat_uint by simp
qed

lemma price_at:
  assumes "0 \<le> pl_base l" and "pl_base l + 4096 \<le> 42949672" and "i < 4096"
  shows "int (unat (price_at l i)) = (pl_base l + int i) * 100"
    and "in_window l (price_at l i)" and "tick_pos l (price_at l i) = i"
proof -
  have "price_at l i = word_of_int ((pl_base l + int i) * 100)"
    using assms(3) by (simp add: price_at_def price_of_slot_def ladder_consts uint_of_nat_small)
  then have "uint (price_at l i) = (pl_base l + int i) * 100 mod 2 ^ 32"
    by (simp only: uint_word_of_int) simp
  also have "\<dots> = (pl_base l + int i) * 100" using assms by simp
  finally show n: "int (unat (price_at l i)) = (pl_base l + int i) * 100" by simp
  have t: "tick_of (price_at l i) = pl_base l + int i"
    unfolding tick_of_eq zdiv_int n by simp
  have "int (unat (price_at l i) mod 100) = 0" unfolding zmod_int n by simp
  then have "aligned (price_at l i)" by (simp add: aligned_iff)
  with t assms show "in_window l (price_at l i)" "tick_pos l (price_at l i) = i"
    by (simp_all add: in_window_def tick_pos_def ladder_consts)
qed

lemma window_price:
  assumes "in_window l p" shows "int (unat p) = (pl_base l + int (tick_pos l p)) * 100"
proof -
  have "unat p = unat p div 100 * 100"
    using assms by (simp add: in_window_def aligned_iff) (metis mult.commute mult_div_mod_eq add.right_neutral)
  then have "int (unat p) = tick_of p * 100" unfolding tick_of_eq by (metis of_nat_mult of_nat_numeral)
  then show ?thesis using in_window_pos(2) [OF assms] by simp
qed

lemma tick_pos_inj: "in_window l p \<Longrightarrow> in_window l q \<Longrightarrow> tick_pos l p = tick_pos l q \<longleftrightarrow> p = q"
  using window_price [of l p] window_price [of l q] by (auto simp: word_uint_eq_iff)

lemma price_at_pos:
  assumes "0 \<le> pl_base l" and "pl_base l + 4096 \<le> 42949672" and "in_window l p"
  shows "price_at l (tick_pos l p) = p"
  using price_at [OF assms(1,2) in_window_pos(1) [OF assms(3)]] tick_pos_inj assms(3) by metis

lemma window_eq:
  assumes "0 \<le> pl_base l" and "pl_base l + 4096 \<le> 42949672"
  shows "window l = (\<lambda>i. (price_at l i, pl_slots l ! i)) ` set (held_slots l)"
proof -
  have "x \<in> (\<lambda>i. (price_at l i, pl_slots l ! i)) ` set (held_slots l)" if "x \<in> window l" for x
    using that in_window_pos(1) [of l "fst x"] price_at_pos [OF assms, of "fst x"]
    by (intro image_eqI [of _ _ "tick_pos l (fst x)"])
      (auto simp: window_def held_slots_def ladder_consts prod_eq_iff)
  then show ?thesis
    using price_at(2,3) [OF assms] by (auto simp: window_def held_slots_def ladder_consts)
qed

section \<open>The bit of a slot\<close>

lemma slot_word: "unat (drop_bit 6 s) = unat s div 64" "unat (s AND 63) = unat s mod 64" for s :: u32
proof -
  show "unat (drop_bit 6 s) = unat s div 64" by (simp add: drop_bit_eq_div unat_div_distrib)
  have "(63::u32) = mask 6" by (simp add: mask_eq_exp_minus_1)
  then show "unat (s AND 63) = unat s mod 64" by (simp only: unat_and_mask) simp
qed

lemma same_slot: "i div 64 = j div 64 \<and> i mod 64 = j mod 64 \<longleftrightarrow> i = j" for i j :: nat
  by (metis div_mult_mod_eq)

lemma bit_is_set_eq: "bit_is_set l s \<longleftrightarrow> slot_bit l (unat s)"
  by (simp add: bit_is_set_def slot_bit_def slot_word and_one_eq odd_iff_mod_2_eq_one [symmetric] bit_iff_odd_drop_bit)

lemma slot_bit_set:
  assumes "length (pl_words l) = 64" and "unat s < 4096"
  shows "slot_bit (set_slot_bit s l) i \<longleftrightarrow> slot_bit l i \<or> i = unat s"
  using assms same_slot [of i "unat s"]
  by (auto simp: slot_bit_def set_slot_bit_def slot_word Let_def nth_list_update bit_simps)

lemma slot_bit_clear:
  assumes "length (pl_words l) = 64" and "unat s < 4096"
  shows "slot_bit (clear_slot_bit s l) i \<longleftrightarrow> slot_bit l i \<and> i \<noteq> unat s"
  using assms same_slot [of i "unat s"]
  by (auto simp: slot_bit_def clear_slot_bit_def slot_word Let_def nth_list_update bit_simps)

lemma put_slot_simps [simp]:
  "pl_side (put_slot s h l) = pl_side l" "pl_base (put_slot s h l) = pl_base l"
  "pl_words (put_slot s h l) = pl_words l" "pl_overflow (put_slot s h l) = pl_overflow l"
  "pl_levels (put_slot s h l) = pl_levels l" "pl_slots (put_slot s h l) = (pl_slots l)[unat s := h]"
  by (simp_all add: put_slot_def)

lemma set_slot_bit_simps [simp]:
  "pl_side (set_slot_bit s l) = pl_side l" "pl_base (set_slot_bit s l) = pl_base l"
  "pl_slots (set_slot_bit s l) = pl_slots l" "pl_overflow (set_slot_bit s l) = pl_overflow l"
  "pl_levels (set_slot_bit s l) = pl_levels l" "length (pl_words (set_slot_bit s l)) = length (pl_words l)"
  by (simp_all add: set_slot_bit_def Let_def)

lemma clear_slot_bit_simps [simp]:
  "pl_side (clear_slot_bit s l) = pl_side l" "pl_base (clear_slot_bit s l) = pl_base l"
  "pl_slots (clear_slot_bit s l) = pl_slots l" "pl_overflow (clear_slot_bit s l) = pl_overflow l"
  "pl_levels (clear_slot_bit s l) = pl_levels l" "length (pl_words (clear_slot_bit s l)) = length (pl_words l)"
  by (simp_all add: clear_slot_bit_def Let_def)

lemma in_window_base: "pl_base l = pl_base l' \<Longrightarrow> in_window l = in_window l'"
  by (simp add: in_window_def fun_eq_iff)

lemma tick_pos_base: "pl_base l = pl_base l' \<Longrightarrow> tick_pos l = tick_pos l'"
  by (simp add: tick_pos_def fun_eq_iff)

lemma slot_of_base: "pl_base l = pl_base l' \<Longrightarrow> slot_of l = slot_of l'"
  by (simp add: slot_of_def fun_eq_iff)

lemma slot_bit_words: "pl_words l = pl_words l' \<Longrightarrow> slot_bit l = slot_bit l'"
  by (simp add: slot_bit_def fun_eq_iff)


section \<open>Placing a level\<close>

text \<open>Writing a price of the window, as insertion and the two loops of a rebase do.\<close>

lemma pull_in_ok:
  assumes "shape s l" and "in_window l (fst x)"
  shows "shape s (pull_in x l)"
    and "window (pull_in x l) = insert x {y \<in> window l. fst y \<noteq> fst x}"
    and "pl_base (pull_in x l) = pl_base l" and "pl_overflow (pull_in x l) = pl_overflow l"
    and "pl_levels (pull_in x l) = pl_levels l"
proof -
  let ?l' = "pull_in x l" and ?s = "slot_of l (fst x)"
  have s: "unat ?s = tick_pos l (fst x)" "tick_pos l (fst x) < 4096"
    using in_window_pos [OF assms(2)] by simp_all
  have len: "length (pl_slots l) = 4096" "length (pl_words l) = 64" using assms(1) by (simp_all add: shape_def)
  show "shape s ?l'" "pl_base ?l' = pl_base l" "pl_overflow ?l' = pl_overflow l" "pl_levels ?l' = pl_levels l"
    using assms(1) by (simp_all add: pull_in_def Let_def shape_def)
  have b: "slot_bit ?l' i \<longleftrightarrow> slot_bit l i \<or> i = tick_pos l (fst x)" for i
    using slot_bit_set [of "put_slot ?s (snd x) l" ?s i] s len slot_bit_words [of "put_slot ?s (snd x) l" l]
    by (simp add: pull_in_def Let_def)
  have w: "in_window ?l' = in_window l" "tick_pos ?l' = tick_pos l"
    using in_window_base [of ?l' l] tick_pos_base [of ?l' l] by (simp_all add: pull_in_def Let_def)
  have n: "pl_slots ?l' = (pl_slots l)[tick_pos l (fst x) := snd x]"
    using s by (simp add: pull_in_def Let_def)
  have "y \<in> window ?l' \<longleftrightarrow> y \<in> insert x {y \<in> window l. fst y \<noteq> fst x}" for y
  proof (cases "in_window l (fst y) \<and> fst y \<noteq> fst x")
    case True
    then have "tick_pos l (fst y) \<noteq> tick_pos l (fst x)" using tick_pos_inj assms(2) by blast
    with True show ?thesis by (auto simp: window_def w b n)
  next
    case False
    then show ?thesis
      using s(2) len assms(2) by (auto simp: window_def w b n prod_eq_iff)
  qed
  then show "window ?l' = insert x {y \<in> window l. fst y \<noteq> fst x}" by blast
qed

lemma emplace_set: "p \<notin> fst ` set xs \<Longrightarrow> set (emplace p h xs) = insert (p, h) (set xs)"
  by (induction p h xs rule: emplace.induct) auto

lemma emplace_sorted:
  "sorted_wrt (<) (map fst xs) \<Longrightarrow> p \<notin> fst ` set xs \<Longrightarrow> sorted_wrt (<) (map fst (emplace p h xs))"
  by (induction p h xs rule: emplace.induct) (auto simp: emplace_set)

lemma put_back_outside:
  assumes "shape s l" and "\<not> in_window l (fst x)" and "fst x \<notin> fst ` set (pl_overflow l)"
  shows "shape s (put_back x l)" and "window (put_back x l) = window l"
    and "set (pl_overflow (put_back x l)) = insert x (set (pl_overflow l))"
    and "pl_base (put_back x l) = pl_base l" and "pl_levels (put_back x l) = pl_levels l"
proof -
  let ?l' = "l\<lparr>pl_overflow := emplace (fst x) (snd x) (pl_overflow l), pl_displaced := pl_displaced l + 1\<rparr>"
  have "put_back x l = ?l'" using assms(2) by (simp add: put_back_def)
  moreover have "in_window ?l' = in_window l" "tick_pos ?l' = tick_pos l" "slot_bit ?l' = slot_bit l"
    by (rule in_window_base tick_pos_base slot_bit_words, simp)+
  ultimately show "shape s (put_back x l)" "window (put_back x l) = window l"
    "set (pl_overflow (put_back x l)) = insert x (set (pl_overflow l))"
    "pl_base (put_back x l) = pl_base l" "pl_levels (put_back x l) = pl_levels l"
    using assms emplace_sorted emplace_set by (auto simp: shape_def window_def)
qed

lemma put_back_inside: "in_window l (fst x) \<Longrightarrow> put_back x l = pull_in x l"
  by (simp add: put_back_def pull_in_def)

lemma no_key: "p \<notin> fst ` W \<Longrightarrow> {y \<in> W. fst y \<noteq> p} = W"
  by force

lemma pull_in_all:
  assumes "shape s l" and "\<And>x. x \<in> set xs \<Longrightarrow> in_window l (fst x)" and "distinct (map fst xs)"
    and "fst ` window l \<inter> fst ` set xs = {}"
  shows "let l' = foldl (\<lambda>l x. pull_in x l) l xs in
    shape s l' \<and> window l' = window l \<union> set xs \<and> pl_base l' = pl_base l \<and>
    pl_overflow l' = pl_overflow l \<and> pl_levels l' = pl_levels l"
  using assms
proof (induction xs arbitrary: l)
  case (Cons x xs)
  note p = pull_in_ok [OF Cons.prems(1) Cons.prems(2) [of x]]
  have "{y \<in> window l. fst y \<noteq> fst x} = window l" using Cons.prems(4) by (intro no_key) auto
  with p(2) have w: "window (pull_in x l) = insert x (window l)" by simp
  have "let l' = foldl (\<lambda>l x. pull_in x l) (pull_in x l) xs in
    shape s l' \<and> window l' = window (pull_in x l) \<union> set xs \<and> pl_base l' = pl_base (pull_in x l) \<and>
    pl_overflow l' = pl_overflow (pull_in x l) \<and> pl_levels l' = pl_levels (pull_in x l)"
  proof (rule Cons.IH)
    show "shape s (pull_in x l)" using p by simp
    show "in_window (pull_in x l) (fst y)" if "y \<in> set xs" for y
      using Cons.prems(2) [of y] that in_window_base [of "pull_in x l" l] p(3) by simp
    show "distinct (map fst xs)" "fst ` window (pull_in x l) \<inter> fst ` set xs = {}"
      using Cons.prems(3,4) w by auto
  qed
  with p(3-5) w show ?case by (simp add: Let_def)
qed (simp add: Let_def)

lemma key_split:
  "fst ` (A \<union> set (filter Q [x])) \<union> fst ` (B \<union> set (filter (\<lambda>y. \<not> Q y) [x])) =
    insert (fst x) (fst ` A \<union> fst ` B)"
  by (cases "Q x") simp_all

lemma put_back_one:
  assumes "shape s l" and "fst x \<notin> fst ` window l" and "fst x \<notin> fst ` set (pl_overflow l)"
  shows "shape s (put_back x l) \<and>
    window (put_back x l) = window l \<union> set (filter (\<lambda>x. in_window l (fst x)) [x]) \<and>
    pl_base (put_back x l) = pl_base l \<and>
    set (pl_overflow (put_back x l)) = set (pl_overflow l) \<union> set (filter (\<lambda>x. \<not> in_window l (fst x)) [x]) \<and>
    pl_levels (put_back x l) = pl_levels l"
proof (cases "in_window l (fst x)")
  case True
  then show ?thesis
    using pull_in_ok [OF assms(1) True] put_back_inside [OF True] no_key [OF assms(2)] by simp
next
  case False
  then show ?thesis using put_back_outside [OF assms(1) False assms(3)] by simp
qed

lemma put_back_all:
  assumes "shape s l" and "distinct (map fst xs)"
    and "(fst ` window l \<union> fst ` set (pl_overflow l)) \<inter> fst ` set xs = {}"
  shows "let l' = foldl (\<lambda>l x. put_back x l) l xs in
    shape s l' \<and> window l' = window l \<union> set (filter (\<lambda>x. in_window l (fst x)) xs) \<and> pl_base l' = pl_base l \<and>
    set (pl_overflow l') = set (pl_overflow l) \<union> set (filter (\<lambda>x. \<not> in_window l (fst x)) xs) \<and>
    pl_levels l' = pl_levels l"
  using assms
proof (induction xs arbitrary: l)
  case (Cons x xs)
  let ?l' = "put_back x l"
  let ?in = "\<lambda>x. in_window l (fst x)" and ?out = "\<lambda>x. \<not> in_window l (fst x)"
  have "fst x \<notin> fst ` window l" "fst x \<notin> fst ` set (pl_overflow l)" using Cons.prems(3) by auto
  note p = put_back_one [OF Cons.prems(1) this]
  have w: "in_window ?l' = in_window l" using p in_window_base by blast
  have "let l' = foldl (\<lambda>l x. put_back x l) ?l' xs in
    shape s l' \<and> window l' = window ?l' \<union> set (filter (\<lambda>x. in_window ?l' (fst x)) xs) \<and> pl_base l' = pl_base ?l' \<and>
    set (pl_overflow l') = set (pl_overflow ?l') \<union> set (filter (\<lambda>x. \<not> in_window ?l' (fst x)) xs) \<and>
    pl_levels l' = pl_levels ?l'"
  proof (rule Cons.IH)
    have "fst ` window ?l' \<union> fst ` set (pl_overflow ?l') =
      insert (fst x) (fst ` window l \<union> fst ` set (pl_overflow l))"
      using p key_split [of "window l" ?in x "set (pl_overflow l)"] by (simp only:)
    then show "(fst ` window ?l' \<union> fst ` set (pl_overflow ?l')) \<inter> fst ` set xs = {}"
      using Cons.prems(2,3) by simp
  qed (use p Cons.prems(2) in simp_all)
  with p show ?case unfolding w by (cases "?in x") (simp_all add: Let_def)
qed (simp add: Let_def)

section \<open>Rebasing keeps every level\<close>

lemma dropWhile_ge:
  fixes x :: "'a::linorder"
  assumes "sorted_wrt (<) (map f xs)" and "x \<in> f ` set (dropWhile (\<lambda>y. f y < b) xs)"
  shows "b \<le> x"
  using assms by (induction xs) (auto split: if_splits simp: not_less intro: order_trans less_imp_le)

lemma filter_range:
  fixes f :: "'a \<Rightarrow> 'b::linorder"
  assumes "sorted_wrt (<) (map f xs)" and "\<And>x. x \<in> set xs \<Longrightarrow> Q x \<Longrightarrow> lo \<le> f x \<and> f x < hi"
  defines "before \<equiv> takeWhile (\<lambda>x. f x < lo) xs" and "rest \<equiv> dropWhile (\<lambda>x. f x < lo) xs"
  defines "met \<equiv> takeWhile (\<lambda>x. f x < hi) rest" and "after \<equiv> dropWhile (\<lambda>x. f x < hi) rest"
  shows "filter Q met = filter Q xs" and "before @ filter (\<lambda>x. \<not> Q x) met @ after = filter (\<lambda>x. \<not> Q x) xs"
proof -
  have xs: "xs = before @ met @ after" by (simp add: before_def met_def after_def rest_def)
  have sub: "set before \<subseteq> set xs" "set after \<subseteq> set xs"
    using arg_cong [OF xs, of set] by auto
  have b: "\<not> Q x" if "x \<in> set before" for x
    using that sub assms(2) set_takeWhileD [of x "\<lambda>x. f x < lo" xs] by (fastforce simp: before_def)
  have "sorted_wrt (<) (map f rest)"
    using assms(1) sorted_wrt_drop [of "(<)" "map f xs"] by (simp add: rest_def dropWhile_eq_drop drop_map)
  then have "hi \<le> f x" if "x \<in> set after" for x
    using dropWhile_ge [of f rest "f x" hi] that by (simp add: after_def)
  then have a: "\<not> Q x" if "x \<in> set after" for x
    using that sub(2) assms(2) [of x] by (meson leD subsetD)
  show "filter Q met = filter Q xs"
    by (subst xs) (use a b in \<open>simp add: filter_empty_conv\<close>)
  show "before @ filter (\<lambda>x. \<not> Q x) met @ after = filter (\<lambda>x. \<not> Q x) xs"
    by (subst xs) (use a b in \<open>simp add: filter_True\<close>)
qed

definition entries :: "ladder \<Rightarrow> (price \<times> level_handle) set" where
  "entries l = window l \<union> set (pl_overflow l)"

lemma slide_over_eq:
  assumes "shape s l"
  shows "slide_over l =
    foldl (\<lambda>l x. pull_in x l) l (filter (\<lambda>x. in_window l (fst x)) (pl_overflow l))
      \<lparr>pl_overflow := filter (\<lambda>x. \<not> in_window l (fst x)) (pl_overflow l)\<rparr>"
proof -
  let ?lo = "word_of_int (pl_base l * uint kTickUnits) :: price"
  let ?hi = "word_of_int ((pl_base l + int kWindowTicks) * uint kTickUnits) :: price"
  have b: "0 \<le> pl_base l" "pl_base l + 4096 \<le> 42949672" using assms by (simp_all add: shape_def)
  have u: "uint ?lo = pl_base l * 100" "uint ?hi = (pl_base l + 4096) * 100"
    unfolding uint_word_of_int ladder_consts using b by simp_all
  have "?lo \<le> p \<and> p < ?hi" if "in_window l p" for p
    unfolding word_le_def word_less_def u
    using window_price [OF that] in_window_pos(1) [OF that] by simp
  then show ?thesis
    using assms
      filter_range [of fst "pl_overflow l" "\<lambda>x. in_window l (fst x)" ?lo ?hi]
    unfolding slide_over_def Let_def shape_def by simp
qed

lemma slide_over_ok:
  assumes "shape s l"
    and "fst ` window l \<inter> fst ` set (pl_overflow l) = {}"
  shows "shape s (slide_over l)" and "entries (slide_over l) = entries l"
    and "\<forall>x \<in> set (pl_overflow (slide_over l)). \<not> in_window (slide_over l) (fst x)"
    and "pl_levels (slide_over l) = pl_levels l"
proof -
  let ?xs = "filter (\<lambda>x. in_window l (fst x)) (pl_overflow l)"
  let ?l1 = "foldl (\<lambda>l x. pull_in x l) l ?xs"
  let ?l2 = "slide_over l"
  have "distinct (map fst (pl_overflow l))"
    using assms(1) strict_sorted_iff [of "map fst (pl_overflow l)"] by (simp add: shape_def)
  then have "distinct (map fst ?xs)" by (rule distinct_map_filter)
  then have l1: "shape s ?l1" "window ?l1 = window l \<union> set ?xs" "pl_base ?l1 = pl_base l"
    "pl_levels ?l1 = pl_levels l"
    using pull_in_all [OF assms(1), of ?xs] assms(2) by (auto simp: Let_def)
  have l2: "?l2 = ?l1\<lparr>pl_overflow := filter (\<lambda>x. \<not> in_window l (fst x)) (pl_overflow l)\<rparr>"
    using slide_over_eq [OF assms(1)] .
  have w: "in_window ?l2 = in_window l" "window ?l2 = window ?l1"
    using l1(3) in_window_base [of ?l2 l] in_window_base [of ?l2 ?l1] tick_pos_base [of ?l2 ?l1]
      slot_bit_words [of ?l2 ?l1]
    by (simp_all add: l2 window_def)
  have "sorted_wrt (<) (map fst (filter (\<lambda>x. \<not> in_window l (fst x)) (pl_overflow l)))"
    using assms(1) by (simp add: shape_def sorted_wrt_map sorted_wrt_filter)
  then show "shape s ?l2" using l1(1) by (simp add: shape_def l2)
  show "entries ?l2 = entries l" unfolding entries_def w l1(2) by (auto simp: l2)
  show "\<forall>x \<in> set (pl_overflow ?l2). \<not> in_window ?l2 (fst x)"
    unfolding w(1) by (simp add: l2)
  show "pl_levels ?l2 = pl_levels l" using l1(4) by (simp add: l2)
qed


lemma held_slots_props: "distinct (held_slots l)" "\<And>i. i \<in> set (held_slots l) \<Longrightarrow> i < 4096"
  by (auto simp: held_slots_def ladder_consts)

lemma distinct_held_prices:
  assumes "0 \<le> pl_base l" and "pl_base l + 4096 \<le> 42949672"
  shows "distinct (map (price_at l) (held_slots l))"
  unfolding distinct_map using held_slots_props price_at(3) [OF assms] by (metis inj_onI)

lemma rebase_ok:
  assumes "shape s l" and "\<And>x. x \<in> set (pl_overflow l) \<Longrightarrow> \<not> in_window l (fst x)"
    and "2048 \<le> a" and "a + 2048 \<le> 42949672"
  shows "shape s (rebase a l)" and "entries (rebase a l) = entries l"
    and "\<And>x. x \<in> set (pl_overflow (rebase a l)) \<Longrightarrow> \<not> in_window (rebase a l) (fst x)"
    and "pl_levels (rebase a l) = pl_levels l"
proof -
  let ?goal = "\<lambda>l'. shape s l' \<and> entries l' = entries l \<and>
    (\<forall>x \<in> set (pl_overflow l'). \<not> in_window l' (fst x)) \<and> pl_levels l' = pl_levels l"
  have "?goal (rebase a l)"
  proof (cases "a - 2048 = pl_base l")
    case True
    then have "rebase a l = l" by (simp add: rebase_def ladder_consts)
    then show ?thesis using assms(1,2) by simp
  next
    case False
    define lifted where "lifted = map (\<lambda>s. (price_of_slot l s, pl_slots l ! unat s)) (occupied_slots l)"
    define cleared where "cleared = l\<lparr>pl_slots := foldl (\<lambda>ss s. ss[unat s := null_handle]) (pl_slots l) (occupied_slots l),
      pl_words := replicate kWords 0, pl_base := a - 2048\<rparr>"
    define settled where "settled = foldl (\<lambda>l x. put_back x l) cleared lifted"
    have base: "0 \<le> pl_base l" "pl_base l + 4096 \<le> 42949672" using assms(1) by (simp_all add: shape_def)
    have lifted: "lifted = map (\<lambda>i. (price_at l i, pl_slots l ! i)) (held_slots l)"
      using held_slots_props(2) [of _ l]
      by (force simp: lifted_def occupied_slots_eq price_at_def unat_of_nat take_bit_nat_eq_self)
    have lset: "set lifted = window l" using window_eq [OF base] lifted by simp
    have "distinct (map fst lifted)" using distinct_held_prices [OF base] by (simp add: lifted comp_def)
    moreover have "length (foldl (\<lambda>ss s. ss[unat (s :: u32) := null_handle]) ss ws) = length ss"
      for ss :: "level_handle list" and ws by (induction ws arbitrary: ss) simp_all
    then have "shape s cleared" using assms(1,3,4) by (simp add: cleared_def shape_def ladder_consts)
    moreover have "\<not> slot_bit cleared (tick_pos cleared p)" if "in_window cleared p" for p
      using in_window_pos(1) [OF that] by (simp add: slot_bit_def cleared_def ladder_consts)
    then have cw: "window cleared = {}" by (auto simp: window_def)
    moreover have co: "pl_overflow cleared = pl_overflow l" by (simp add: cleared_def)
    moreover have disj: "fst ` set (pl_overflow l) \<inter> fst ` window l = {}"
      using assms(2) by (auto simp: window_def)
    ultimately have b: "shape s settled" "window settled = set (filter (\<lambda>x. in_window cleared (fst x)) lifted)"
      "set (pl_overflow settled) = set (pl_overflow l) \<union> set (filter (\<lambda>x. \<not> in_window cleared (fst x)) lifted)"
      "pl_levels settled = pl_levels l"
      using put_back_all [of s cleared lifted] lset by (simp_all add: Let_def settled_def cleared_def)
    have be: "entries settled = entries l" unfolding entries_def b lset [symmetric] by auto
    have "fst ` window settled \<inter> fst ` set (pl_overflow settled) = {}"
      using disj \<open>distinct (map fst lifted)\<close> unfolding b lset [symmetric]
      by (auto simp: distinct_map inj_on_def)
    note slid = slide_over_ok [OF b(1) this]
    have "?goal (slide_over settled)" using slid b(4) be by simp
    moreover have "rebase a l = (slide_over settled)\<lparr>pl_rebases := pl_rebases (slide_over settled) + 1\<rparr>"
      using False by (simp add: rebase_def ladder_consts Let_def settled_def cleared_def lifted_def)
    ultimately show ?thesis
      using in_window_base [of "rebase a l" "slide_over settled"] tick_pos_base [of "rebase a l" "slide_over settled"]
        slot_bit_words [of "rebase a l" "slide_over settled"]
      by (simp add: shape_def entries_def window_def)
  qed
  then show "shape s (rebase a l)" "entries (rebase a l) = entries l" "pl_levels (rebase a l) = pl_levels l"
    "\<And>x. x \<in> set (pl_overflow (rebase a l)) \<Longrightarrow> \<not> in_window (rebase a l) (fst x)" by auto
qed

section \<open>The invariant and the map\<close>

definition ladder_inv :: "side \<Rightarrow> ladder \<Rightarrow> bool" where
  "ladder_inv s l \<longleftrightarrow> shape s l \<and> (\<forall>x \<in> entries l. \<not> is_null (snd x) \<and> ladder_price (fst x)) \<and>
     (\<forall>x \<in> set (pl_overflow l). \<not> in_window l (fst x)) \<and> unat (pl_levels l) = card (entries l)"

definition ladder_content :: "ladder \<Rightarrow> price \<Rightarrow> level_handle option" where
  "ladder_content l p =
     (if in_window l p then if slot_bit l (tick_pos l p) then Some (pl_slots l ! tick_pos l p) else None
      else map_of (pl_overflow l) p)"

lemma shape_distinct: "shape s l \<Longrightarrow> distinct (map fst (pl_overflow l))"
  using strict_sorted_iff [of "map fst (pl_overflow l)"] by (simp add: shape_def)

lemma content_entries:
  assumes "shape s l" and "\<forall>x \<in> set (pl_overflow l). \<not> in_window l (fst x)"
  shows "ladder_content l p = Some h \<longleftrightarrow> (p, h) \<in> entries l"
  using assms(2) map_of_eq_Some_iff [OF shape_distinct [OF assms(1)], of p h]
  by (auto simp: ladder_content_def entries_def window_def)

lemma ladder_inv_content: "ladder_inv s l \<Longrightarrow> ladder_content l p = Some h \<longleftrightarrow> (p, h) \<in> entries l"
  using content_entries by (auto simp: ladder_inv_def)

lemma ladder_dom: "ladder_inv s l \<Longrightarrow> dom (ladder_content l) = fst ` entries l"
  using ladder_inv_content [of s l] by (force simp: dom_def)

lemma ladder_inv_key: "ladder_inv s l \<Longrightarrow> inj_on fst (entries l)"
  using ladder_inv_content [of s l] by (intro inj_onI) (metis option.inject prod.collapse)

lemma entries_finite: "shape s l \<Longrightarrow> finite (entries l)"
  using window_eq [of l] by (simp add: entries_def shape_def)

lemma ladder_card: "ladder_inv s l \<Longrightarrow> card (dom (ladder_content l)) = unat (pl_levels l)"
  using ladder_dom ladder_inv_key card_image by (metis ladder_inv_def)


section \<open>Levels from the inside outwards\<close>

lemma held_prices_ascend:
  assumes "0 \<le> pl_base l" and "pl_base l + 4096 \<le> 42949672"
  shows "sorted_wrt (<) (map (price_at l) (held_slots l))"
proof -
  have "price_at l i < price_at l j" if "i < j" "j < 4096" for i j
  proof -
    have "int (unat (price_at l i)) < int (unat (price_at l j))"
      using price_at(1) [OF assms, of i] price_at(1) [OF assms, of j] that by simp
    then show ?thesis unfolding word_less_nat_alt by (simp only: of_nat_less_iff)
  qed
  moreover have "sorted_wrt (<) (held_slots l)"
    unfolding held_slots_def by (intro sorted_wrt_filter sorted_wrt_upt)
  ultimately have "sorted_wrt (\<lambda>i j. price_at l i < price_at l j) (held_slots l)"
    using held_slots_props(2) by (blast intro: sorted_wrt_mono_rel)
  then show ?thesis by (simp add: sorted_wrt_map)
qed

lemma closer_fun: "closer Buy = (\<lambda>a b. b < a)" "closer Sell = (<)"
  by (simp_all add: fun_eq_iff)

lemma sorted_sides:
  "sorted_wrt (<) ps \<Longrightarrow> sorted_wrt (closer s) (if s = Buy then rev ps else ps)"
  by (cases s) (simp_all add: sorted_wrt_rev closer_fun)

definition own_window :: "ladder \<Rightarrow> (price \<times> level_handle) list" where
  "own_window l = map (\<lambda>p. (p, pl_slots l ! unat (slot_of l p))) (collect_window l)"

definition own_overflow :: "ladder \<Rightarrow> (price \<times> level_handle) list" where
  "own_overflow l = (if pl_side l = Buy then rev (pl_overflow l) else pl_overflow l)"

lemma own_window:
  assumes "shape s l"
  shows "inside_out s (own_window l)" and "set (own_window l) = window l"
    and "length (own_window l) = in_window_count l"
proof -
  have base: "0 \<le> pl_base l" "pl_base l + 4096 \<le> 42949672" "pl_side l = s" "length (pl_words l) = kWords"
    using assms by (simp_all add: shape_def ladder_consts)
  have c: "collect_window l = (if s = Buy then rev (map (price_at l) (held_slots l)) else map (price_at l) (held_slots l))"
    unfolding collect_window_eq base(3) by (simp add: price_at_def rev_map)
  show "inside_out s (own_window l)"
    using sorted_sides [OF held_prices_ascend [OF base(1,2)], of s]
    by (simp add: inside_out_def own_window_def comp_def c)
  have "set (own_window l) = (\<lambda>i. (price_at l i, pl_slots l ! unat (slot_of l (price_at l i)))) ` set (held_slots l)"
    by (auto simp: own_window_def c)
  also have "\<dots> = window l"
    unfolding window_eq [OF base(1,2)]
    using held_slots_props(2) in_window_pos(3) price_at(2,3) [OF base(1,2)]
    by (intro image_cong refl) simp
  finally show "set (own_window l) = window l" .
  show "length (own_window l) = in_window_count l"
    by (simp add: own_window_def c in_window_count_eq [OF base(4)])
qed

lemma own_overflow:
  assumes "shape s l"
  shows "inside_out s (own_overflow l)" and "set (own_overflow l) = set (pl_overflow l)"
  using sorted_sides [of "map fst (pl_overflow l)" s] assms
  by (auto simp: shape_def inside_out_def own_overflow_def rev_map)

lemma merge_levels_set:
  "set (merge_levels l ws os) = (\<lambda>p. (p, pl_slots l ! unat (slot_of l p))) ` set ws \<union> set os"
  by (induction l ws os rule: merge_levels.induct) auto

lemma merge_levels_inside_out:
  assumes "pl_side l = s" and "sorted_wrt (closer s) ws" and "inside_out s os"
    and "set ws \<inter> fst ` set os = {}"
  shows "inside_out s (merge_levels l ws os)"
  using assms
proof (induction l ws os rule: merge_levels.induct)
  case (2 l w ws)
  have "fst x \<in> set ws" if "x \<in> set (merge_levels l ws [])" for x
    using that by (auto simp: merge_levels_set)
  with 2 show ?case by (auto simp: inside_out_def)
next
  case (3 l w ws x xs)
  have first: "(if s = Buy then fst x < w else w < fst x) \<longleftrightarrow> closer s w (fst x)" by (cases s) auto
  have ne: "w \<noteq> fst x" using 3 by auto
  show ?case
  proof (cases "closer s w (fst x)")
    case True
    then have "\<forall>y \<in> set (merge_levels l ws (x # xs)). closer s w (fst y)"
      using 3 closer_trans [of s w "fst x"] by (auto simp: merge_levels_set inside_out_def)
    with True 3 first show ?thesis by (simp add: inside_out_def)
  next
    case False
    then have c: "closer s (fst x) w" using ne closer_total by blast
    then have "\<forall>y \<in> set (merge_levels l (w # ws) xs). closer s (fst x) (fst y)"
      using 3 closer_trans [of s "fst x" w] by (auto simp: merge_levels_set inside_out_def)
    with False 3 first show ?thesis by (simp add: inside_out_def)
  qed
qed simp

lemma ladder_levels_ok:
  assumes "ladder_inv s l"
  shows "inside_out s (ladder_levels l)" and "set (ladder_levels l) = entries l"
proof -
  have sh: "shape s l" "pl_side l = s" and out: "\<forall>x \<in> set (pl_overflow l). \<not> in_window l (fst x)"
    using assms by (simp_all add: ladder_inv_def shape_def)
  have eq: "ladder_levels l = merge_levels l (collect_window l) (own_overflow l)"
    by (simp add: ladder_levels_def own_overflow_def)
  show "set (ladder_levels l) = entries l"
    using own_window(2) [OF sh(1)] own_overflow(2) [OF sh(1)]
    by (simp add: eq merge_levels_set entries_def own_window_def)
  have "set (collect_window l) \<inter> fst ` set (own_overflow l) = {}"
    using own_window(2) [OF sh(1)] own_overflow(2) [OF sh(1)] out
    by (fastforce simp: own_window_def window_def set_eq_iff)
  then show "inside_out s (ladder_levels l)"
    unfolding eq using own_window(1) [OF sh(1)] own_overflow(1) [OF sh(1)] sh(2)
    by (intro merge_levels_inside_out) (auto simp: inside_out_def own_window_def comp_def)
qed


section \<open>The best price\<close>

lemma first_is_best: "sorted_wrt (closer s) (p # ps) \<Longrightarrow> is_best s (set (p # ps)) p"
  using closer_asym by (fastforce simp: is_best_def)

lemma ladder_better_best:
  assumes "pl_side l = s" and "is_best s A a" and "is_best s B b"
  shows "is_best s (A \<union> B) (ladder_better l a b)"
  using assms by (cases s) (auto simp: is_best_def ladder_better_def not_less intro: order_trans)

lemma ladder_price_nonzero: "ladder_price p \<Longrightarrow> p \<noteq> kNoPrice"
  by (auto simp: ladder_price_def kNoPrice_def)

lemma best_in_window_ok:
  assumes "ladder_inv s l"
  shows "if window l = {} then best_in_window l = kNoPrice
    else best_in_window l \<noteq> kNoPrice \<and> is_best s (fst ` window l) (best_in_window l)"
proof -
  have sh: "shape s l" using assms by (simp add: ladder_inv_def)
  have w: "fst ` window l = set (collect_window l)"
    unfolding own_window(2) [OF sh, symmetric] by (force simp: own_window_def)
  show ?thesis
  proof (cases "collect_window l")
    case Nil
    then show ?thesis using w by (simp add: best_in_window_eq)
  next
    case (Cons p ps)
    then have "is_best s (fst ` window l) p"
      using first_is_best [of s p ps] own_window(1) [OF sh] w
      by (simp add: own_window_def inside_out_def comp_def)
    moreover from this have "p \<noteq> kNoPrice"
      using assms ladder_price_nonzero by (auto simp: is_best_def ladder_inv_def entries_def)
    moreover have "window l \<noteq> {}" using w Cons by auto
    ultimately show ?thesis using Cons by (simp add: best_in_window_eq)
  qed
qed

lemma own_overflow_best:
  assumes "shape s l" and "pl_overflow l \<noteq> []"
  shows "is_best s (fst ` set (pl_overflow l))
    (if pl_side l = Buy then fst (last (pl_overflow l)) else fst (hd (pl_overflow l)))"
proof -
  have "own_overflow l \<noteq> []" using assms(2) by (simp add: own_overflow_def)
  then obtain x xs where xs: "own_overflow l = x # xs" by (cases "own_overflow l") auto
  then have "fst x = (if pl_side l = Buy then fst (last (pl_overflow l)) else fst (hd (pl_overflow l)))"
    using xs assms(2) by (auto simp: own_overflow_def hd_rev [symmetric] split: if_splits)
  moreover have "is_best s (set (map fst (own_overflow l))) (fst x)"
    using first_is_best [of s "fst x" "map fst xs"] own_overflow(1) [OF assms(1)]
    by (simp add: inside_out_def xs)
  ultimately show ?thesis using own_overflow(2) [OF assms(1)] by simp
qed

lemma ladder_empty_iff: "ladder_inv s l \<Longrightarrow> ladder_empty l \<longleftrightarrow> entries l = {}"
  using entries_finite [of s l] card_0_eq [of "entries l"]
  by (auto simp: ladder_empty_def ladder_inv_def word_unat_eq_iff)

lemma ladder_best_ok:
  assumes "ladder_inv s l" and "entries l \<noteq> {}"
  shows "\<exists>p. ladder_best l = Inr p \<and> is_best s (fst ` entries l) p"
proof -
  have sh: "shape s l" "pl_side l = s" using assms(1) by (simp_all add: ladder_inv_def shape_def)
  have ne: "\<not> ladder_empty l" using ladder_empty_iff assms by simp
  note w = best_in_window_ok [OF assms(1)]
  show ?thesis
  proof (cases "pl_overflow l = []")
    case True
    then have "entries l = window l" by (simp add: entries_def)
    with True w assms(2) ne show ?thesis by (simp add: ladder_best_def Let_def)
  next
    case False
    note o = own_overflow_best [OF sh(1) False]
    show ?thesis
    proof (cases "window l = {}")
      case True
      then show ?thesis using False w o ne by (simp add: ladder_best_def Let_def entries_def)
    next
      case w': False
      then show ?thesis
        using False w ladder_better_best [OF sh(2) _ o, of "fst ` window l"] ne
        by (simp add: ladder_best_def Let_def entries_def image_Un)
    qed
  qed
qed

lemma maybe_rebase_ok:
  assumes "ladder_inv s l"
  shows "\<exists>l'. maybe_rebase l = Inr l' \<and> ladder_inv s l' \<and> entries l' = entries l"
proof (cases "entries l = {}")
  case True
  then show ?thesis using assms ladder_empty_iff by (simp add: maybe_rebase_def)
next
  case False
  then obtain p where p: "ladder_best l = Inr p" "is_best s (fst ` entries l) p"
    using ladder_best_ok assms by blast
  then have "ladder_price p" using assms by (auto simp: is_best_def ladder_inv_def)
  then have t: "2048 \<le> tick_of p" "tick_of p + 2048 \<le> 42949672"
    by (auto simp: tick_of_eq ladder_price_def)
  have l: "shape s l" "\<And>x. x \<in> set (pl_overflow l) \<Longrightarrow> \<not> in_window l (fst x)"
    using assms by (auto simp: ladder_inv_def)
  have "ladder_inv s (rebase (tick_of p) l)" "entries (rebase (tick_of p) l) = entries l"
    using rebase_ok [OF l t] assms by (simp_all add: ladder_inv_def)
  then show ?thesis
    using False assms ladder_empty_iff p(1) by (simp add: maybe_rebase_def Let_def)
qed


section \<open>The laws\<close>

lemma content_by_entries:
  assumes "ladder_inv s l" and "\<And>p h. (p, h) \<in> entries l \<longleftrightarrow> m p = Some h"
  shows "ladder_content l = m"
  using ladder_inv_content [OF assms(1)] assms(2) by (intro map_ext_Some) simp

lemma ladder_find_eq: "ladder_find l p = lookup (ladder_content l) p"
proof (cases "in_window l p")
  case True
  then show ?thesis
    using in_window_pos(3) [OF True] by (simp add: ladder_find_def Let_def bit_is_set_eq ladder_content_def lookup_def)
next
  case False
  then show ?thesis by (simp add: ladder_find_def ladder_content_def lookup_def)
qed

lemma ladder_insert_ok:
  assumes "ladder_inv s l" and "\<not> is_null h" and "ladder_price p" and "ladder_content l p = None"
    and "card (dom (ladder_content l)) < max_levels"
  shows "\<exists>l'. ladder_insert l p h = Inr l' \<and> ladder_inv s l' \<and> ladder_content l' = (ladder_content l)(p \<mapsto> h)"
proof -
  define l1 where "l1 = (if in_window l p then pull_in (p, h) l
    else l\<lparr>pl_overflow := emplace p h (pl_overflow l)\<rparr>)"
  define l2 where "l2 = l1\<lparr>pl_levels := pl_levels l1 + 1\<rparr>"
  have sh: "shape s l" and out: "\<forall>x \<in> set (pl_overflow l). \<not> in_window l (fst x)"
    using assms(1) by (simp_all add: ladder_inv_def)
  have new: "p \<notin> fst ` entries l" using assms(1,4) ladder_dom by blast
  then have fresh: "p \<notin> fst ` window l" "p \<notin> fst ` set (pl_overflow l)" by (auto simp: entries_def)
  have "shape s l1 \<and> entries l1 = insert (p, h) (entries l) \<and> pl_levels l1 = pl_levels l \<and>
    (\<forall>x \<in> set (pl_overflow l1). \<not> in_window l1 (fst x))"
  proof (cases "in_window l p")
    case True
    then show ?thesis
      using pull_in_ok [OF sh, of "(p, h)"] no_key [OF fresh(1)] out in_window_base [of l1 l]
      by (simp add: l1_def entries_def)
  next
    case False
    then have l1: "l1 = l\<lparr>pl_overflow := emplace p h (pl_overflow l)\<rparr>" by (simp add: l1_def)
    have "in_window l1 = in_window l" "window l1 = window l"
      using in_window_base [of l1 l] tick_pos_base [of l1 l] slot_bit_words [of l1 l]
      by (simp_all add: l1 window_def)
    then show ?thesis
      using emplace_set [OF fresh(2)] emplace_sorted [OF _ fresh(2)] sh out False
      by (simp add: l1 shape_def entries_def)
  qed
  moreover have "shape s l2 = shape s l1" "entries l2 = entries l1" "pl_overflow l2 = pl_overflow l1"
    "in_window l2 = in_window l1"
    using in_window_base [of l2 l1] tick_pos_base [of l2 l1] slot_bit_words [of l2 l1]
    by (simp_all add: l2_def shape_def entries_def window_def)
  moreover have "unat (pl_levels l) < 2 ^ 24"
    using ladder_card [OF assms(1)] assms(5) by (simp add: max_levels_def)
  then have "unat (pl_levels l + 1) = Suc (unat (pl_levels l))" by (intro unat_plus_one) simp
  moreover have "card (insert (p, h) (entries l)) = Suc (card (entries l))"
    using new entries_finite [OF sh] by (subst card_insert_disjoint) force+
  ultimately have l2: "ladder_inv s l2" "entries l2 = insert (p, h) (entries l)"
    using assms(1-3) by (simp_all add: ladder_inv_def l2_def)
  obtain l' where l': "maybe_rebase l2 = Inr l'" "ladder_inv s l'" "entries l' = insert (p, h) (entries l)"
    using maybe_rebase_ok [OF l2(1)] l2(2) by blast
  moreover have "ladder_insert l p h = maybe_rebase l2"
    using assms(2) ladder_find_eq [of l p] assms(4)
    by (simp add: ladder_insert_def l2_def l1_def pull_in_def Let_def)
  moreover have "(p, k) \<notin> entries l" for k using new by force
  then have "ladder_content l' = (ladder_content l)(p \<mapsto> h)"
    using l'(3) ladder_inv_content [OF assms(1)]
    by (intro content_by_entries [OF l'(2)]) auto
  ultimately show ?thesis by auto
qed

lemma ladder_erase_ok:
  assumes "ladder_inv s l" and "ladder_content l p = Some h"
  shows "\<exists>l'. ladder_erase l p = Inr l' \<and> ladder_inv s l' \<and> ladder_content l' = (ladder_content l)(p := None)"
proof -
  have sh: "shape s l" and out: "\<forall>x \<in> set (pl_overflow l). \<not> in_window l (fst x)"
    using assms(1) by (simp_all add: ladder_inv_def)
  have mem: "(p, h) \<in> entries l" using assms ladder_inv_content by blast
  have "\<exists>l1. ladder_erase l p = andthen (ensure (0 < pl_levels l1) (LevelsF LevelUnderflow)) (\<lambda>_.
      Inr (l1\<lparr>pl_levels := pl_levels l1 - 1\<rparr>)) \<and> shape s l1 \<and> pl_levels l1 = pl_levels l \<and>
    pl_base l1 = pl_base l \<and> entries l1 = {y \<in> entries l. fst y \<noteq> p} \<and>
    (\<forall>x \<in> set (pl_overflow l1). \<not> in_window l1 (fst x))"
  proof (cases "in_window l p")
    case True
    let ?s = "slot_of l p"
    let ?l1 = "put_slot ?s null_handle (clear_slot_bit ?s l)"
    have s: "unat ?s = tick_pos l p" "tick_pos l p < 4096" using in_window_pos [OF True] by simp_all
    have b: "slot_bit ?l1 i \<longleftrightarrow> slot_bit l i \<and> i \<noteq> tick_pos l p" for i
      using slot_bit_clear [of l ?s i] s sh slot_bit_words [of ?l1 "clear_slot_bit ?s l"]
      by (simp add: shape_def)
    have w: "in_window ?l1 = in_window l" "tick_pos ?l1 = tick_pos l"
      using in_window_base [of ?l1 l] tick_pos_base [of ?l1 l] by simp_all
    have "y \<in> window ?l1 \<longleftrightarrow> y \<in> {y \<in> window l. fst y \<noteq> p}" for y
      using True tick_pos_inj [of l "fst y" p] s by (auto simp: window_def w b nth_list_update)
    then have "window ?l1 = {y \<in> window l. fst y \<noteq> p}" by blast
    moreover have "{y \<in> set (pl_overflow l). fst y \<noteq> p} = set (pl_overflow l)" using out True by auto
    ultimately have "entries ?l1 = {y \<in> entries l. fst y \<noteq> p}" by (auto simp: entries_def)
    moreover have "bit_is_set l ?s"
      using assms(2) True s by (simp add: bit_is_set_eq ladder_content_def split: if_splits)
    ultimately show ?thesis
      using True sh out w by (intro exI [of _ ?l1]) (simp add: ladder_erase_def Let_def shape_def)
  next
    case False
    let ?l1 = "l\<lparr>pl_overflow := erase_key p (pl_overflow l)\<rparr>"
    have w: "in_window ?l1 = in_window l" "window ?l1 = window l"
      using in_window_base [of ?l1 l] tick_pos_base [of ?l1 l] slot_bit_words [of ?l1 l]
      by (simp_all add: window_def)
    have "sorted_wrt (<) (map fst (erase_key p (pl_overflow l)))"
      using sh by (simp add: shape_def erase_key_def sorted_wrt_map sorted_wrt_filter)
    moreover have "map_of (pl_overflow l) p \<noteq> None"
      using assms(2) False by (simp add: ladder_content_def)
    moreover have "entries ?l1 = {y \<in> entries l. fst y \<noteq> p}"
      unfolding entries_def w(2) using False by (auto simp: erase_key_def window_def)
    ultimately show ?thesis
      using False sh out w by (intro exI [of _ ?l1]) (simp add: ladder_erase_def shape_def erase_key_def)
  qed
  then obtain l1 where l1: "ladder_erase l p = andthen (ensure (0 < pl_levels l1) (LevelsF LevelUnderflow)) (\<lambda>_.
      Inr (l1\<lparr>pl_levels := pl_levels l1 - 1\<rparr>))" "shape s l1" "pl_levels l1 = pl_levels l"
    "entries l1 = {y \<in> entries l. fst y \<noteq> p}" "\<forall>x \<in> set (pl_overflow l1). \<not> in_window l1 (fst x)" by blast
  have n: "unat (pl_levels l) = card (entries l)" using assms(1) by (simp add: ladder_inv_def)
  have "entries l = insert (p, h) (entries l1)"
    using mem inj_onD [OF ladder_inv_key [OF assms(1)], of "(p, h)"] by (auto simp: l1(4))
  moreover have "(p, h) \<notin> entries l1" by (simp add: l1(4))
  ultimately have c: "card (entries l) = Suc (card (entries l1))"
    using entries_finite [OF l1(2)] by simp
  then have nz: "pl_levels l \<noteq> 0" using n by auto
  let ?l' = "l1\<lparr>pl_levels := pl_levels l1 - 1\<rparr>"
  have "shape s ?l' = shape s l1" "entries ?l' = entries l1" "in_window ?l' = in_window l1"
    using in_window_base [of ?l' l1] tick_pos_base [of ?l' l1] slot_bit_words [of ?l' l1]
    by (simp_all add: shape_def entries_def window_def)
  moreover have "unat (pl_levels l - 1) = card (entries l1)" using nz n c by (simp add: unat_minus_one')
  ultimately have inv: "ladder_inv s ?l'" "entries ?l' = {y \<in> entries l. fst y \<noteq> p}"
    using assms(1) l1 by (auto simp: ladder_inv_def)
  moreover have "ladder_erase l p = Inr ?l'" using l1(1,3) nz by (simp add: word_greater_zero_iff)
  moreover have "ladder_content ?l' = (ladder_content l)(p := None)"
    using ladder_inv_content [OF assms(1)] by (intro content_by_entries [OF inv(1)]) (auto simp: inv(2))
  ultimately show ?thesis by blast
qed


lemma ladder_validate_ok:
  assumes "ladder_inv s l" shows "ladder_validate l = Inr ()"
proof -
  have sh: "shape s l" and ok: "\<And>x. x \<in> entries l \<Longrightarrow> \<not> is_null (snd x)"
    and out: "\<forall>x \<in> set (pl_overflow l). \<not> in_window l (fst x)"
    and n: "unat (pl_levels l) = card (entries l)"
    using assms by (auto simp: ladder_inv_def)
  have base: "0 \<le> pl_base l" "pl_base l + 4096 \<le> 42949672" using sh by (simp_all add: shape_def)
  have "distinct (own_window l)" "distinct (pl_overflow l)"
    using own_window(1) [OF sh] shape_distinct [OF sh] inside_out_distinct distinct_map by blast+
  then have "card (window l) = in_window_count l" "card (set (pl_overflow l)) = length (pl_overflow l)"
    using own_window(2,3) [OF sh] distinct_card by metis+
  moreover have "window l \<inter> set (pl_overflow l) = {}" using out by (auto simp: window_def)
  then have "card (entries l) = card (window l) + card (set (pl_overflow l))"
    unfolding entries_def using window_eq [OF base] by (intro card_Un_disjoint) simp_all
  ultimately have "in_window_count l + length (pl_overflow l) = unat (pl_levels l)" using n by simp
  moreover have "\<not> is_null (pl_slots l ! unat s)" if occ: "s \<in> set (occupied_slots l)" for s
  proof -
    obtain i where i: "s = of_nat i" "i \<in> set (held_slots l)" using occ by (auto simp: occupied_slots_eq)
    then have "unat s = i" using held_slots_props(2) [of i l] by (simp add: unat_of_nat take_bit_nat_eq_self)
    with i(2) show ?thesis
      using ok [of "(price_at l i, pl_slots l ! i)"] window_eq [OF base] by (simp add: entries_def)
  qed
  then have "each (\<lambda>s. ensure (\<not> is_null (pl_slots l ! unat s)) (LevelsF LevelSlotNull)) (occupied_slots l) = Inr ()"
    by (intro each_ok) simp
  moreover have "each (\<lambda>x. andthen (ensure (\<not> is_null (snd x)) (LevelsF LevelSlotNull)) (\<lambda>_.
      ensure (\<not> in_window l (fst x)) (LevelsF InWindowOverflow))) (pl_overflow l) = Inr ()"
    using ok out by (intro each_ok) (simp add: entries_def)
  ultimately show ?thesis by (simp add: ladder_validate_def)
qed

lemma ladder_new_ok: "ladder_inv s (ladder_new s)" "ladder_content (ladder_new s) = Map.empty"
proof -
  have "\<not> slot_bit (ladder_new s) (tick_pos (ladder_new s) p)" if "in_window (ladder_new s) p" for p
    using in_window_pos(1) [OF that] by (simp add: slot_bit_def ladder_new_def ladder_consts)
  then have "entries (ladder_new s) = {}" by (auto simp: entries_def window_def ladder_new_def)
  moreover have "shape s (ladder_new s)" by (simp add: shape_def ladder_new_def ladder_consts)
  ultimately show inv: "ladder_inv s (ladder_new s)" by (simp add: ladder_inv_def ladder_new_def)
  show "ladder_content (ladder_new s) = Map.empty"
    by (rule content_by_entries [OF inv]) (simp add: \<open>entries (ladder_new s) = {}\<close>)
qed

end
