(* ===== verification/Flat_Book.thy ===== *)
theory Flat_Book
  imports Records Order_Index Level_Map
begin

text \<open>
  include/itch/book/flat_book.hpp: \<open>BookT\<close>, the pooled book, over any level map
  (\<open>FlatBook\<close> is the ladder, \<open>AvlBook\<close> the tree) and either index hash. A reference
  \<open>Order& o = orders_[oh]\<close> is a checked read; what the code writes through it later is a
  \<open>pool_write\<close> to the slot, and what it reads through it later is read from the slot's
  state at that point (\<open>slot_at\<close>). The pools are built without quarantine, as at
  invariant level 1.
\<close>

section \<open>State\<close>

record 'm book =
  bk_orders :: order_pool
  bk_levels :: level_pool
  bk_index :: order_index
  bk_ladders :: "side \<Rightarrow> 'm"
  bk_total_qty :: "side \<Rightarrow> u64"
  bk_level_count :: "side \<Rightarrow> u32"
  bk_order_count :: u32
  bk_best :: "side \<Rightarrow> price"
  bk_best_recomputes :: u64

definition kDefaultOrders :: u32 where
  "kDefaultOrders = push_bit 18 1"

definition kDefaultLevels :: u32 where
  "kDefaultLevels = push_bit 15 1"

definition kDefaultIndex :: u32 where
  "kDefaultIndex = push_bit 16 1"

definition book_new :: "'m level_ops \<Rightarrow> u32 \<Rightarrow> u32 \<Rightarrow> u32 \<Rightarrow> failure + 'm book" where
  "book_new L order_capacity level_capacity index_capacity =
     andthen (pool_new order_slot blank_order order_capacity 0) (\<lambda>orders.
     andthen (pool_new level_slot blank_level level_capacity 0) (\<lambda>levels.
       Inr \<lparr>bk_orders = orders, bk_levels = levels, bk_index = oi_new index_capacity,
            bk_ladders = lm_new L, bk_total_qty = (\<lambda>_. 0), bk_level_count = (\<lambda>_. 0),
            bk_order_count = 0, bk_best = (\<lambda>_. kNoPrice), bk_best_recomputes = 0\<rparr>))"

section \<open>Mutations\<close>

definition write_order :: "order_handle \<Rightarrow> (order \<Rightarrow> order) \<Rightarrow> 'm book \<Rightarrow> 'm book" where
  "write_order h f b = b\<lparr>bk_orders := pool_write (bk_orders b) h f\<rparr>"

definition write_level :: "level_handle \<Rightarrow> (level \<Rightarrow> level) \<Rightarrow> 'm book \<Rightarrow> 'm book" where
  "write_level h f b = b\<lparr>bk_levels := pool_write (bk_levels b) h f\<rparr>"

definition note_added :: "side \<Rightarrow> price \<Rightarrow> 'm book \<Rightarrow> 'm book" where
  "note_added s price b =
     (if bk_best b s = kNoPrice then b\<lparr>bk_best := (bk_best b)(s := price)\<rparr>
      else if closer s price (bk_best b s) then b\<lparr>bk_best := (bk_best b)(s := price)\<rparr>
      else b)"

definition note_removed :: "'m level_ops \<Rightarrow> side \<Rightarrow> price \<Rightarrow> 'm book \<Rightarrow> failure + 'm book" where
  "note_removed L s price b =
     (if price \<noteq> bk_best b s then Inr b
      else
        andthen (if lm_empty L (bk_ladders b s) then Inr kNoPrice else lm_best L (bk_ladders b s))
          (\<lambda>best. Inr (b\<lparr>bk_best_recomputes := bk_best_recomputes b + 1,
                         bk_best := (bk_best b)(s := best)\<rparr>)))"

definition level_for :: "'m level_ops \<Rightarrow> side \<Rightarrow> price \<Rightarrow> 'm book \<Rightarrow> failure + 'm book \<times> level_handle" where
  "level_for L s price b =
     andthen (lm_find L (bk_ladders b s) price) (\<lambda>existing.
     if \<not> is_null existing then Inr (b, existing)
     else
       andthen (allocate level_slot (bk_levels b)) (\<lambda>(levels, lh).
       andthen (pool_ref level_slot levels lh) (\<lambda>_.
       let b1 = write_level lh (\<lambda>v. v\<lparr>l_total_qty := 0, l_head := null_handle, l_tail := null_handle,
                  l_price := price, l_order_count := 0\<rparr>) (b\<lparr>bk_levels := levels\<rparr>) in
       andthen (lm_insert L (bk_ladders b1 s) price lh) (\<lambda>ladder.
         Inr (b1\<lparr>bk_ladders := (bk_ladders b1)(s := ladder),
                 bk_level_count := (bk_level_count b1)(s := bk_level_count b1 s + 1)\<rparr>, lh)))))"

text \<open>Joining the queue at the back.\<close>

definition enqueue :: "order_handle \<Rightarrow> level_handle \<Rightarrow> 'm book \<Rightarrow> failure + 'm book" where
  "enqueue oh lh b =
     andthen (pool_ref level_slot (bk_levels b) lh) (\<lambda>lvl.
     andthen
       (if is_null (l_tail lvl) then
          andthen (ensure (is_null (l_head lvl)) (BookF HeadNotNull)) (\<lambda>_.
            Inr (write_level lh (\<lambda>v. v\<lparr>l_head := oh\<rparr>) b))
        else
          andthen (pool_ref order_slot (bk_orders b) (l_tail lvl)) (\<lambda>_.
            Inr (write_order oh (\<lambda>x. x\<lparr>o_prev := l_tail lvl\<rparr>)
                   (write_order (l_tail lvl) (\<lambda>x. x\<lparr>o_next := oh\<rparr>) b))))
       (\<lambda>b. Inr (write_level lh (\<lambda>v. v\<lparr>l_tail := oh\<rparr>) b)))"

definition bk_add :: "'m level_ops \<Rightarrow> index_hash \<Rightarrow> order_ref \<Rightarrow> side \<Rightarrow> price \<Rightarrow> qty \<Rightarrow> u16 \<Rightarrow>
    'm book \<Rightarrow> failure + 'm book" where
  "bk_add L H ref side price qty owner b =
     andthen (ensure (0 < qty) (BookF NoQuantity)) (\<lambda>_.
     andthen (oi_find H (bk_index b) ref) (\<lambda>found.
     andthen (ensure (is_null found) (BookF AddedTwice)) (\<lambda>_.
     andthen (allocate order_slot (bk_orders b)) (\<lambda>(orders, oh).
     andthen (pool_ref order_slot orders oh) (\<lambda>_.
     let b1 = write_order oh (\<lambda>x. x\<lparr>o_ref := ref, o_qty := qty, o_price := price,
                o_prev := null_handle, o_next := null_handle, o_side := side_to_u8 side,
                o_owner := owner\<rparr>) (b\<lparr>bk_orders := orders\<rparr>) in
     andthen (level_for L side price b1) (\<lambda>(b2, lh).
     let b3 = write_order oh (\<lambda>x. x\<lparr>o_level := lh\<rparr>) b2 in
     andthen (enqueue oh lh b3) (\<lambda>b4.
     let b5 = write_level lh (\<lambda>v. v\<lparr>l_total_qty := l_total_qty v + ucast qty,
                l_order_count := l_order_count v + 1\<rparr>) b4 in
     andthen (oi_insert H (bk_index b5) ref oh) (\<lambda>ix.
       Inr (note_added side price
         (b5\<lparr>bk_index := ix,
             bk_total_qty := (bk_total_qty b5)(side := bk_total_qty b5 side + ucast qty),
             bk_order_count := bk_order_count b5 + 1\<rparr>))))))))))"

text \<open>Unlinking from the middle of the queue.\<close>

definition unlink :: "order_handle \<Rightarrow> level_handle \<Rightarrow> 'm book \<Rightarrow> failure + 'm book" where
  "unlink oh lh b =
     andthen
       (let x = slot_at (bk_orders b) oh in
        if is_null (o_prev x) then Inr (write_level lh (\<lambda>v. v\<lparr>l_head := o_next x\<rparr>) b)
        else andthen (pool_ref order_slot (bk_orders b) (o_prev x)) (\<lambda>_.
               Inr (write_order (o_prev x) (\<lambda>y. y\<lparr>o_next := o_next x\<rparr>) b))) (\<lambda>b.
     andthen
       (let x = slot_at (bk_orders b) oh in
        if is_null (o_next x) then Inr (write_level lh (\<lambda>v. v\<lparr>l_tail := o_prev x\<rparr>) b)
        else andthen (pool_ref order_slot (bk_orders b) (o_next x)) (\<lambda>_.
               Inr (write_order (o_next x) (\<lambda>y. y\<lparr>o_prev := o_prev x\<rparr>) b))) (\<lambda>b.
       Inr (write_level lh (\<lambda>v. v\<lparr>l_order_count := l_order_count v - 1\<rparr>) b)))"

definition clear_level :: "'m level_ops \<Rightarrow> side \<Rightarrow> price \<Rightarrow> level_handle \<Rightarrow> 'm book \<Rightarrow> failure + 'm book" where
  "clear_level L side price lh b =
     (let lvl = slot_at (bk_levels b) lh in
      andthen (ensure (l_total_qty lvl = 0) (BookF EmptyLevelQuantity)) (\<lambda>_.
      andthen (ensure (is_null (l_head lvl) \<and> is_null (l_tail lvl)) (BookF EmptyLevelLinks)) (\<lambda>_.
      andthen (lm_erase L (bk_ladders b side) price) (\<lambda>ladder.
      andthen (pool_free level_slot (bk_levels b) lh) (\<lambda>levels.
        Inr (b\<lparr>bk_ladders := (bk_ladders b)(side := ladder), bk_levels := levels,
               bk_level_count := (bk_level_count b)(side := bk_level_count b side - 1)\<rparr>))))))"

definition bk_reduce :: "'m level_ops \<Rightarrow> index_hash \<Rightarrow> order_handle \<Rightarrow> qty \<Rightarrow> 'm book \<Rightarrow> failure + 'm book" where
  "bk_reduce L H oh shares b =
     andthen (pool_ref order_slot (bk_orders b) oh) (\<lambda>x.
     let side = side_of_u8 (o_side x);
         price = o_price x;
         b1 = write_order oh (\<lambda>y. y\<lparr>o_qty := o_qty y - shares\<rparr>) b;
         b2 = b1\<lparr>bk_total_qty := (bk_total_qty b1)(side := bk_total_qty b1 side - ucast shares)\<rparr>;
         lh = o_level x in
     andthen (pool_ref level_slot (bk_levels b2) lh) (\<lambda>lvl.
     andthen (ensure (ucast shares \<le> l_total_qty lvl) (BookF LevelNegative)) (\<lambda>_.
     let b3 = write_level lh (\<lambda>v. v\<lparr>l_total_qty := l_total_qty v - ucast shares\<rparr>) b2 in
     if o_qty (slot_at (bk_orders b3) oh) \<noteq> 0 then Inr b3
     else
       andthen (unlink oh lh b3) (\<lambda>b4.
       andthen (oi_erase H (bk_index b4) (o_ref (slot_at (bk_orders b4) oh))) (\<lambda>ix.
       let b5 = b4\<lparr>bk_index := ix, bk_order_count := bk_order_count b4 - 1\<rparr>;
           level_cleared = (l_order_count (slot_at (bk_levels b5) lh) = 0) in
       andthen (if level_cleared then clear_level L side price lh b5 else Inr b5) (\<lambda>b6.
       andthen (pool_free order_slot (bk_orders b6) oh) (\<lambda>orders.
       let b7 = b6\<lparr>bk_orders := orders\<rparr> in
       if level_cleared then note_removed L side price b7 else Inr b7)))))))"

text \<open>\<open>require\<close>, with the message of the caller.\<close>

definition bk_require :: "index_hash \<Rightarrow> 'm book \<Rightarrow> order_ref \<Rightarrow> book_failure \<Rightarrow> failure + order_handle" where
  "bk_require H b ref what =
     andthen (oi_find H (bk_index b) ref) (\<lambda>oh.
     andthen (ensure (\<not> is_null oh) (BookF what)) (\<lambda>_. Inr oh))"

definition bk_cancel :: "'m level_ops \<Rightarrow> index_hash \<Rightarrow> order_ref \<Rightarrow> qty \<Rightarrow> 'm book \<Rightarrow> failure + 'm book" where
  "bk_cancel L H ref shares b =
     andthen (bk_require H b ref CancelMissing) (\<lambda>oh.
     andthen (pool_ref order_slot (bk_orders b) oh) (\<lambda>x.
     andthen (ensure (shares \<le> o_qty x) (BookF CancelTooMuch)) (\<lambda>_.
       bk_reduce L H oh shares b)))"

definition bk_execute :: "'m level_ops \<Rightarrow> index_hash \<Rightarrow> order_ref \<Rightarrow> qty \<Rightarrow> 'm book \<Rightarrow> failure + 'm book \<times> qty" where
  "bk_execute L H ref shares b =
     andthen (bk_require H b ref ExecuteMissing) (\<lambda>oh.
     andthen (pool_ref order_slot (bk_orders b) oh) (\<lambda>x.
     andthen (ensure (shares \<le> o_qty x) (BookF ExecuteTooMuch)) (\<lambda>_.
     andthen (bk_reduce L H oh shares b) (\<lambda>b'. Inr (b', shares)))))"

definition bk_remove :: "'m level_ops \<Rightarrow> index_hash \<Rightarrow> order_ref \<Rightarrow> 'm book \<Rightarrow> failure + 'm book" where
  "bk_remove L H ref b =
     andthen (bk_require H b ref DeleteMissing) (\<lambda>oh.
     andthen (pool_ref order_slot (bk_orders b) oh) (\<lambda>x.
       bk_reduce L H oh (o_qty x) b))"

definition bk_replace :: "'m level_ops \<Rightarrow> index_hash \<Rightarrow> order_ref \<Rightarrow> order_ref \<Rightarrow> price \<Rightarrow> qty \<Rightarrow>
    'm book \<Rightarrow> failure + 'm book" where
  "bk_replace L H old_ref new_ref price qty b =
     andthen (bk_require H b old_ref ReplaceMissing) (\<lambda>oh.
     andthen (pool_ref order_slot (bk_orders b) oh) (\<lambda>x.
     andthen (bk_reduce L H oh (o_qty x) b) (\<lambda>b'.
       bk_add L H new_ref (side_of_u8 (o_side x)) price qty (o_owner x) b')))"

section \<open>Queries\<close>

definition bk_empty :: "'m level_ops \<Rightarrow> 'm book \<Rightarrow> side \<Rightarrow> bool" where
  "bk_empty L b s = lm_empty L (bk_ladders b s)"

definition bk_best_price :: "'m book \<Rightarrow> side \<Rightarrow> price" where
  "bk_best_price b s = bk_best b s"

definition bk_qty_at :: "'m level_ops \<Rightarrow> 'm book \<Rightarrow> side \<Rightarrow> price \<Rightarrow> failure + u64" where
  "bk_qty_at L b s p =
     andthen (lm_find L (bk_ladders b s) p) (\<lambda>lh.
     if is_null lh then Inr 0
     else andthen (pool_ref level_slot (bk_levels b) lh) (\<lambda>v. Inr (l_total_qty v)))"

definition bk_orders_at :: "'m level_ops \<Rightarrow> 'm book \<Rightarrow> side \<Rightarrow> price \<Rightarrow> failure + u32" where
  "bk_orders_at L b s p =
     andthen (lm_find L (bk_ladders b s) p) (\<lambda>lh.
     if is_null lh then Inr 0
     else andthen (pool_ref level_slot (bk_levels b) lh) (\<lambda>v. Inr (l_order_count v)))"

definition bk_count :: "'m book \<Rightarrow> nat" where
  "bk_count b = unat (oi_size (bk_index b))"

definition bk_contains :: "index_hash \<Rightarrow> 'm book \<Rightarrow> order_ref \<Rightarrow> failure + bool" where
  "bk_contains H b ref = andthen (oi_find H (bk_index b) ref) (\<lambda>oh. Inr (\<not> is_null oh))"

definition bk_order_of :: "index_hash \<Rightarrow> 'm book \<Rightarrow> order_ref \<Rightarrow> failure + order" where
  "bk_order_of H b ref =
     andthen (bk_require H b ref QueryMissing) (\<lambda>oh. pool_ref order_slot (bk_orders b) oh)"

definition bk_side_of :: "index_hash \<Rightarrow> 'm book \<Rightarrow> order_ref \<Rightarrow> failure + side" where
  "bk_side_of H b ref = andthen (bk_order_of H b ref) (\<lambda>x. Inr (side_of_u8 (o_side x)))"

definition bk_price_of :: "index_hash \<Rightarrow> 'm book \<Rightarrow> order_ref \<Rightarrow> failure + price" where
  "bk_price_of H b ref = andthen (bk_order_of H b ref) (\<lambda>x. Inr (o_price x))"

definition bk_qty_of :: "index_hash \<Rightarrow> 'm book \<Rightarrow> order_ref \<Rightarrow> failure + qty" where
  "bk_qty_of H b ref = andthen (bk_order_of H b ref) (\<lambda>x. Inr (o_qty x))"

definition bk_owner_of :: "index_hash \<Rightarrow> 'm book \<Rightarrow> order_ref \<Rightarrow> failure + u16" where
  "bk_owner_of H b ref = andthen (bk_order_of H b ref) (\<lambda>x. Inr (o_owner x))"

definition bk_front_at :: "'m level_ops \<Rightarrow> 'm book \<Rightarrow> side \<Rightarrow> price \<Rightarrow> failure + order_ref" where
  "bk_front_at L b s p =
     andthen (lm_find L (bk_ladders b s) p) (\<lambda>lh.
     if is_null lh then Inr 0
     else
       andthen (pool_ref level_slot (bk_levels b) lh) (\<lambda>v.
       if is_null (l_head v) then Inr 0
       else andthen (pool_ref order_slot (bk_orders b) (l_head v)) (\<lambda>x. Inr (o_ref x))))"

definition bk_crossed :: "'m level_ops \<Rightarrow> 'm book \<Rightarrow> bool" where
  "bk_crossed L b \<longleftrightarrow>
     \<not> bk_empty L b Buy \<and> \<not> bk_empty L b Sell \<and> bk_best_price b Sell \<le> bk_best_price b Buy"

text \<open>
  \<open>OrderRange\<close> from its first handle to the null handle: the references of a queue. The
  fuel is the capacity of the pool, which a queue of distinct orders does not exceed.
\<close>

fun order_range :: "order_pool \<Rightarrow> nat \<Rightarrow> order_handle \<Rightarrow> failure + order_ref list" where
  "order_range os 0 h = (if is_null h then Inr [] else Inl Diverges)"
| "order_range os (Suc fuel) h =
     (if is_null h then Inr []
      else andthen (pool_ref order_slot os h) (\<lambda>x.
           andthen (order_range os fuel (o_next x)) (\<lambda>refs. Inr (o_ref x # refs))))"

primrec gather :: "('a \<Rightarrow> 'e + 'b) \<Rightarrow> 'a list \<Rightarrow> 'e + 'b list" where
  "gather f [] = Inr []"
| "gather f (x # xs) = andthen (f x) (\<lambda>y. andthen (gather f xs) (\<lambda>ys. Inr (y # ys)))"

text \<open>\<open>for_each_level\<close>: what the callback is given, level by level from the inside.\<close>

definition bk_levels_of :: "'m level_ops \<Rightarrow> 'm book \<Rightarrow> side \<Rightarrow> failure + (price \<times> u64 \<times> u32 \<times> order_ref list) list" where
  "bk_levels_of L b s =
     andthen (lm_levels L (bk_ladders b s)) (gather (\<lambda>(p, lh).
       andthen (pool_ref level_slot (bk_levels b) lh) (\<lambda>v.
       andthen (order_range (bk_orders b) (length (slots (bk_orders b))) (l_head v)) (\<lambda>refs.
         Inr (p, l_total_qty v, l_order_count v, refs)))))"

definition bk_snapshot :: "'m level_ops \<Rightarrow> 'm book \<Rightarrow> side \<Rightarrow> nat \<Rightarrow> failure + (price \<times> u64 \<times> u32) list" where
  "bk_snapshot L b s depth =
     andthen (lm_levels L (bk_ladders b s)) (\<lambda>xs.
     andthen (gather (\<lambda>(p, lh).
       andthen (pool_ref level_slot (bk_levels b) lh) (\<lambda>v.
         Inr (p, l_total_qty v, l_order_count v))) xs) (\<lambda>ys.
       Inr (if depth = 0 then ys else take depth ys)))"

section \<open>Validation\<close>

text \<open>
  \<open>validate\<close>, in the order of the source: the walk of a queue checks each order it meets and
  adds up quantities and orders, the walk of a side checks each level.
\<close>

fun check_queue :: "index_hash \<Rightarrow> 'm book \<Rightarrow> side \<Rightarrow> price \<Rightarrow> nat \<Rightarrow> order_handle \<Rightarrow> u64 \<Rightarrow> u32 \<Rightarrow>
    failure + u64 \<times> u32" where
  "check_queue H b s price 0 h acc seen = (if is_null h then Inr (acc, seen) else Inl Diverges)"
| "check_queue H b s price (Suc fuel) h acc seen =
     (if is_null h then Inr (acc, seen)
      else
        andthen (pool_ref order_slot (bk_orders b) h) (\<lambda>x.
        andthen (oi_find H (bk_index b) (o_ref x)) (\<lambda>oh.
        andthen (ensure (\<not> is_null oh) (BookF QueuedUnknown)) (\<lambda>_.
        andthen (pool_ref order_slot (bk_orders b) oh) (\<lambda>y.
        andthen (ensure (o_price y = price) (BookF WrongLevel)) (\<lambda>_.
        andthen (ensure (side_of_u8 (o_side y) = s) (BookF WrongSide)) (\<lambda>_.
        andthen (ensure (0 < o_qty y) (BookF ZeroResting)) (\<lambda>_.
          check_queue H b s price fuel (o_next x) (acc + ucast (o_qty y)) (seen + 1)))))))))"

fun check_levels :: "index_hash \<Rightarrow> 'm book \<Rightarrow> side \<Rightarrow> price option \<Rightarrow> (price \<times> level_handle) list \<Rightarrow>
    u64 \<Rightarrow> u32 \<Rightarrow> nat \<Rightarrow> failure + u64 \<times> u32 \<times> nat" where
  "check_levels H b s prev [] qty levels tot = Inr (qty, levels, tot)"
| "check_levels H b s prev ((price, lh) # xs) qty levels tot =
     andthen (pool_ref level_slot (bk_levels b) lh) (\<lambda>v.
     andthen (ensure (0 < l_order_count v) (BookF LevelEmpty)) (\<lambda>_.
     andthen (ensure (case prev of None \<Rightarrow> True | Some pv \<Rightarrow> if s = Buy then price < pv else pv < price)
                (BookF LevelOrdering)) (\<lambda>_.
     andthen (check_queue H b s price (length (slots (bk_orders b))) (l_head v) 0 0) (\<lambda>(acc, seen).
     andthen (ensure (seen = l_order_count v) (BookF LevelOrderCount)) (\<lambda>_.
     andthen (ensure (acc = l_total_qty v) (BookF LevelQuantity)) (\<lambda>_.
       check_levels H b s (Some price) xs (qty + l_total_qty v) (levels + 1)
         (tot + unat (l_order_count v))))))))"

definition check_side :: "'m level_ops \<Rightarrow> index_hash \<Rightarrow> 'm book \<Rightarrow> side \<Rightarrow> nat \<Rightarrow> failure + u64 \<times> u32 \<times> nat" where
  "check_side L H b s tot =
     andthen (lm_validate L (bk_ladders b s)) (\<lambda>_.
     andthen (lm_levels L (bk_ladders b s)) (\<lambda>xs.
     andthen (check_levels H b s None xs 0 0 tot) (\<lambda>sums.
     andthen (if bk_empty L b s then Inr ()
              else andthen (lm_best L (bk_ladders b s)) (\<lambda>p. ensure (bk_best b s = p) (BookF BestCache))) (\<lambda>_.
       Inr sums))))"

definition bk_validate :: "'m level_ops \<Rightarrow> index_hash \<Rightarrow> 'm book \<Rightarrow> failure + unit" where
  "bk_validate L H b =
     andthen (oi_validate H (bk_index b)) (\<lambda>_.
     andthen (pool_validate order_slot (bk_orders b)) (\<lambda>_.
     andthen (pool_validate level_slot (bk_levels b)) (\<lambda>_.
     andthen (check_side L H b Buy 0) (\<lambda>(qty0, levels0, total0).
     andthen (check_side L H b Sell total0) (\<lambda>(qty1, levels1, tot).
     andthen (ensure (tot = unat (oi_size (bk_index b))) (BookF Orphan)) (\<lambda>_.
     andthen (ensure (qty0 = bk_total_qty b Buy \<and> qty1 = bk_total_qty b Sell) (BookF TotalQuantity)) (\<lambda>_.
     andthen (ensure (levels0 = bk_level_count b Buy \<and> levels1 = bk_level_count b Sell) (BookF TotalLevels)) (\<lambda>_.
       ensure (bk_order_count b = oi_size (bk_index b)) (BookF TotalOrders)))))))))"

end
