(* ===== verification/Flat_Book_Queue.thy ===== *)
theory Flat_Book_Queue
  imports Flat_Book
begin

text \<open>
  The intrusive queues of the pooled book: \<open>linked\<close> says what a doubly-linked run of
  handles is in the order pool, and joining at the back and unlinking from the middle
  are shown to be append and removal on it, leaving every other order and every other
  field as it was.
\<close>

section \<open>Writes through a live handle\<close>

text \<open>The pool after writes: the same handles in use and the same room.\<close>

definition pool_like :: "('a, 'tag) slot_ops \<Rightarrow> ('a, 'tag) pool \<Rightarrow> ('a, 'tag) pool \<Rightarrow> bool" where
  "pool_like ops p p' \<longleftrightarrow> pool_inv ops p' \<and> (\<forall>h. pool_live ops p' h \<longleftrightarrow> pool_live ops p h) \<and>
     pool_room p' = pool_room p \<and> length (slots p') = length (slots p) \<and>
     quarantine_limit p' = quarantine_limit p"

lemma pool_like_refl: "pool_inv ops p \<Longrightarrow> pool_like ops p p"
  by (simp add: pool_like_def)

lemma pool_like_trans: "pool_like ops p q \<Longrightarrow> pool_like ops q r \<Longrightarrow> pool_like ops p r"
  by (simp add: pool_like_def)

lemma pool_like_live: "pool_like ops p p' \<Longrightarrow> pool_live ops p' h \<longleftrightarrow> pool_live ops p h"
  by (simp add: pool_like_def)

lemma pool_like_inv: "pool_like ops p p' \<Longrightarrow> pool_inv ops p'"
  by (simp add: pool_like_def)

lemma order_write:
  assumes "pool_inv order_slot p" and "pool_live order_slot p h"
    and "o_gen (f (slot_at p h)) = o_gen (slot_at p h)"
  shows "pool_like order_slot p (pool_write p h f)"
    and "pool_live order_slot p x \<Longrightarrow>
      slot_at (pool_write p h f) x = (if x = h then f (slot_at p h) else slot_at p x)"
  using order_pool.write_ok [of p h f] assms by (simp_all add: pool_like_def) (simp_all add: pool_write_def)

lemma level_write:
  assumes "pool_inv level_slot p" and "pool_live level_slot p h"
    and "l_gen (f (slot_at p h)) = l_gen (slot_at p h)"
  shows "pool_like level_slot p (pool_write p h f)"
    and "pool_live level_slot p x \<Longrightarrow>
      slot_at (pool_write p h f) x = (if x = h then f (slot_at p h) else slot_at p x)"
  using level_pool.write_ok [of p h f] assms by (simp_all add: pool_like_def) (simp_all add: pool_write_def)

text \<open>An order without its queue links.\<close>

definition data :: "order \<Rightarrow> order" where
  "data x = x\<lparr>o_prev := null_handle, o_next := null_handle\<rparr>"

lemma data_links [simp]: "data (x\<lparr>o_prev := h\<rparr>) = data x" "data (x\<lparr>o_next := h\<rparr>) = data x"
  by (cases x, simp add: data_def)+

lemma data_eq_iff:
  "data x = data y \<longleftrightarrow> o_ref x = o_ref y \<and> o_qty x = o_qty y \<and> o_price x = o_price y \<and>
     o_level x = o_level y \<and> o_side x = o_side y \<and> o_gen x = o_gen y \<and> o_owner x = o_owner y"
  by (cases x, cases y) (auto simp: data_def)

section \<open>Doubly-linked runs\<close>

definition head_of :: "order_handle list \<Rightarrow> order_handle" where
  "head_of hs = (case hs of [] \<Rightarrow> null_handle | h # _ \<Rightarrow> h)"

definition tail_of :: "order_handle list \<Rightarrow> order_handle" where
  "tail_of hs = (if hs = [] then null_handle else last hs)"

lemma ends_simps [simp]:
  "head_of [] = null_handle" "head_of (h # hs) = h"
  "tail_of [] = null_handle" "tail_of (hs @ [h]) = h" "hs \<noteq> [] \<Longrightarrow> tail_of hs = last hs"
  by (simp_all add: head_of_def tail_of_def)

text \<open>
  The handles \<open>hs\<close> in order, the first one's \<open>prev\<close> being \<open>pv\<close> and the last one's \<open>next\<close>
  being \<open>nx\<close>.
\<close>

fun linked :: "(order_handle \<Rightarrow> order) \<Rightarrow> order_handle \<Rightarrow> order_handle list \<Rightarrow> order_handle \<Rightarrow> bool" where
  "linked g pv [] nx = True"
| "linked g pv (h # hs) nx =
     (o_prev (g h) = pv \<and> o_next (g h) = (if hs = [] then nx else hd hs) \<and> linked g h hs nx)"

lemma linked_cong:
  "(\<And>h. h \<in> set hs \<Longrightarrow> o_prev (g' h) = o_prev (g h) \<and> o_next (g' h) = o_next (g h)) \<Longrightarrow>
     linked g' pv hs nx \<longleftrightarrow> linked g pv hs nx"
  by (induction hs arbitrary: pv) auto

lemma linked_append:
  "linked g pv (xs @ ys) nx \<longleftrightarrow>
     linked g pv xs (if ys = [] then nx else hd ys) \<and> linked g (if xs = [] then pv else last xs) ys nx"
  by (induction xs arbitrary: pv) (auto simp: hd_append)

text \<open>Changing only the outer links of a run.\<close>

lemma linked_relink_next:
  assumes "linked g pv xs nx" and "distinct xs"
    and "\<And>h. h \<in> set xs \<Longrightarrow> o_prev (g' h) = o_prev (g h)"
    and "\<And>h. h \<in> set (butlast xs) \<Longrightarrow> o_next (g' h) = o_next (g h)"
    and "xs \<noteq> [] \<Longrightarrow> o_next (g' (last xs)) = nx'"
  shows "linked g' pv xs nx'"
  using assms
proof (induction xs arbitrary: pv)
  case (Cons h xs)
  show ?case
  proof (cases "xs = []")
    case True
    with Cons.prems show ?thesis by simp
  next
    case False
    have "linked g' h xs nx'"
      by (rule Cons.IH) (use Cons.prems False in auto)
    with Cons.prems False show ?thesis by simp
  qed
qed simp

lemma linked_relink_prev:
  assumes "linked g pv xs nx"
    and "\<And>h. h \<in> set xs \<Longrightarrow> o_next (g' h) = o_next (g h)"
    and "\<And>h. h \<in> set (tl xs) \<Longrightarrow> o_prev (g' h) = o_prev (g h)"
    and "xs \<noteq> [] \<Longrightarrow> o_prev (g' (hd xs)) = pv'"
  shows "linked g' pv' xs nx"
proof (cases xs)
  case (Cons h hs)
  have "linked g' h hs nx \<longleftrightarrow> linked g h hs nx"
    by (rule linked_cong) (use assms Cons in auto)
  with assms Cons show ?thesis by auto
qed simp

lemma linked_links:
  assumes "linked g null_handle (xs @ h # ys) null_handle"
  shows "o_prev (g h) = tail_of xs" and "o_next (g h) = head_of ys"
  using assms by (auto simp: linked_append tail_of_def head_of_def hd_conv_nth split: list.splits)

section \<open>Joining the queue\<close>

lemma enqueue_run:
  assumes os: "pool_inv order_slot (bk_orders b)" and ls: "pool_inv level_slot (bk_levels b)"
    and oh: "pool_live order_slot (bk_orders b) oh" and lh: "pool_live level_slot (bk_levels b) lh"
    and hs: "\<forall>h \<in> set hs. pool_live order_slot (bk_orders b) h \<and> \<not> is_null h" "oh \<notin> set hs" "distinct hs"
    and link: "linked (slot_at (bk_orders b)) null_handle hs null_handle"
    and new: "o_prev (slot_at (bk_orders b) oh) = null_handle" "o_next (slot_at (bk_orders b) oh) = null_handle"
    and ends: "l_head (slot_at (bk_levels b) lh) = head_of hs" "l_tail (slot_at (bk_levels b) lh) = tail_of hs"
  shows "\<exists>os' ls'. enqueue oh lh b = Inr (b\<lparr>bk_orders := os', bk_levels := ls'\<rparr>) \<and>
    pool_like order_slot (bk_orders b) os' \<and> pool_like level_slot (bk_levels b) ls' \<and>
    linked (slot_at os') null_handle (hs @ [oh]) null_handle \<and>
    (\<forall>h. pool_live order_slot (bk_orders b) h \<longrightarrow> data (slot_at os' h) = data (slot_at (bk_orders b) h)) \<and>
    (\<forall>h. pool_live order_slot (bk_orders b) h \<longrightarrow> h \<notin> set (hs @ [oh]) \<longrightarrow>
       slot_at os' h = slot_at (bk_orders b) h) \<and>
    (\<forall>v. pool_live level_slot (bk_levels b) v \<longrightarrow> slot_at ls' v =
       (if v = lh then (slot_at (bk_levels b) lh)\<lparr>l_head := head_of (hs @ [oh]), l_tail := oh\<rparr>
        else slot_at (bk_levels b) v))"
proof (cases "hs = []")
  case True
  let ?f = "\<lambda>v. v\<lparr>l_head := oh\<rparr>" and ?g = "\<lambda>v. v\<lparr>l_tail := oh\<rparr>"
  let ?l1 = "pool_write (bk_levels b) lh ?f"
  let ?l2 = "pool_write ?l1 lh ?g"
  have w1: "pool_like level_slot (bk_levels b) ?l1" by (rule level_write(1) [OF ls lh]) simp
  have lh1: "pool_live level_slot ?l1 lh" using lh w1 by (simp add: pool_like_live)
  have w2: "pool_like level_slot ?l1 ?l2" by (rule level_write(1) [OF pool_like_inv [OF w1] lh1]) simp
  have run: "enqueue oh lh b = Inr (b\<lparr>bk_orders := bk_orders b, bk_levels := ?l2\<rparr>)"
    using True ends by (simp add: enqueue_def pool_ref_live [OF lh] write_level_def is_null_iff)
  have sl: "slot_at ?l2 v = (if v = lh then (slot_at (bk_levels b) lh)\<lparr>l_head := oh, l_tail := oh\<rparr>
      else slot_at (bk_levels b) v)" if "pool_live level_slot (bk_levels b) v" for v
    using level_write(2) [OF ls lh, of ?f] level_write(2) [OF pool_like_inv [OF w1] lh1, of ?g]
      that lh pool_like_live [OF w1] by auto
  show ?thesis
    by (rule exI [of _ "bk_orders b"], rule exI [of _ ?l2])
      (use True run sl w1 w2 os new in \<open>auto simp: pool_like_refl intro: pool_like_trans\<close>)
next
  case False
  let ?t = "last hs"
  let ?f = "\<lambda>x. x\<lparr>o_next := oh\<rparr>" and ?g = "\<lambda>x. x\<lparr>o_prev := ?t\<rparr>" and ?k = "\<lambda>v. v\<lparr>l_tail := oh\<rparr>"
  let ?o1 = "pool_write (bk_orders b) ?t ?f"
  let ?o2 = "pool_write ?o1 oh ?g"
  let ?l1 = "pool_write (bk_levels b) lh ?k"
  have t: "pool_live order_slot (bk_orders b) ?t" "\<not> is_null ?t" "?t \<noteq> oh"
    using hs False by auto
  have w1: "pool_like order_slot (bk_orders b) ?o1" by (rule order_write(1) [OF os t(1)]) simp
  have oh1: "pool_live order_slot ?o1 oh" using oh w1 by (simp add: pool_like_live)
  have w2: "pool_like order_slot ?o1 ?o2" by (rule order_write(1) [OF pool_like_inv [OF w1] oh1]) simp
  have w3: "pool_like level_slot (bk_levels b) ?l1" by (rule level_write(1) [OF ls lh]) simp
  have run: "enqueue oh lh b = Inr (b\<lparr>bk_orders := ?o2, bk_levels := ?l1\<rparr>)"
    using False ends t by (simp add: enqueue_def pool_ref_live [OF lh] pool_ref_live [OF t(1)]
      write_level_def write_order_def)
  have so: "slot_at ?o2 h = (if h = oh then (slot_at (bk_orders b) oh)\<lparr>o_prev := ?t\<rparr>
      else if h = ?t then (slot_at (bk_orders b) ?t)\<lparr>o_next := oh\<rparr> else slot_at (bk_orders b) h)"
    if "pool_live order_slot (bk_orders b) h" for h
    using order_write(2) [OF os t(1), of ?f] order_write(2) [OF pool_like_inv [OF w1] oh1, of ?g]
      that oh t pool_like_live [OF w1] by auto
  have sl: "slot_at ?l1 v = (if v = lh then (slot_at (bk_levels b) lh)\<lparr>l_tail := oh\<rparr>
      else slot_at (bk_levels b) v)" if "pool_live level_slot (bk_levels b) v" for v
    using level_write(2) [OF ls lh, of ?k] that by auto
  have "linked (slot_at ?o2) null_handle hs oh"
  proof (rule linked_relink_next [OF link hs(3)])
    show "o_prev (slot_at ?o2 h) = o_prev (slot_at (bk_orders b) h)" if "h \<in> set hs" for h
      using so [of h] hs that by auto
    show "o_next (slot_at ?o2 h) = o_next (slot_at (bk_orders b) h)" if "h \<in> set (butlast hs)" for h
    proof -
      have "h \<in> set hs" using that by (rule in_set_butlastD)
      moreover have "h \<noteq> ?t" using that hs(3) False
        by (metis append_butlast_last_id distinct_butlast not_distinct_conv_prefix)
      ultimately show ?thesis using so [of h] hs by auto
    qed
    show "o_next (slot_at ?o2 ?t) = oh" using so [OF t(1)] t(3) by simp
  qed
  moreover have "o_prev (slot_at ?o2 oh) = ?t" "o_next (slot_at ?o2 oh) = null_handle"
    using so [OF oh] new by simp_all
  ultimately have "linked (slot_at ?o2) null_handle (hs @ [oh]) null_handle"
    using False by (simp add: linked_append)
  moreover have "(slot_at (bk_levels b) lh)\<lparr>l_tail := oh\<rparr> =
      (slot_at (bk_levels b) lh)\<lparr>l_head := head_of (hs @ [oh]), l_tail := oh\<rparr>"
    using ends(1) False by (cases hs) (auto intro: level.equality)
  ultimately show ?thesis
    by (intro exI [of _ ?o2] exI [of _ ?l1])
      (use False run so sl w1 w2 w3 t in \<open>auto intro: pool_like_trans\<close>)
qed

section \<open>Unlinking\<close>

lemma unlink_run:
  assumes os: "pool_inv order_slot (bk_orders b)" and ls: "pool_inv level_slot (bk_levels b)"
    and oh: "pool_live order_slot (bk_orders b) oh" and lh: "pool_live level_slot (bk_levels b) lh"
    and hs: "\<forall>h \<in> set (xs @ oh # ys). pool_live order_slot (bk_orders b) h \<and> \<not> is_null h"
      "distinct (xs @ oh # ys)"
    and link: "linked (slot_at (bk_orders b)) null_handle (xs @ oh # ys) null_handle"
    and ends: "l_head (slot_at (bk_levels b) lh) = head_of (xs @ oh # ys)"
      "l_tail (slot_at (bk_levels b) lh) = tail_of (xs @ oh # ys)"
  shows "\<exists>os' ls'. unlink oh lh b = Inr (b\<lparr>bk_orders := os', bk_levels := ls'\<rparr>) \<and>
    pool_like order_slot (bk_orders b) os' \<and> pool_like level_slot (bk_levels b) ls' \<and>
    linked (slot_at os') null_handle (xs @ ys) null_handle \<and>
    (\<forall>h. pool_live order_slot (bk_orders b) h \<longrightarrow> data (slot_at os' h) = data (slot_at (bk_orders b) h)) \<and>
    (\<forall>h. pool_live order_slot (bk_orders b) h \<longrightarrow> h \<notin> set (xs @ ys) \<longrightarrow>
       slot_at os' h = slot_at (bk_orders b) h) \<and>
    (\<forall>v. pool_live level_slot (bk_levels b) v \<longrightarrow> slot_at ls' v =
       (if v = lh then (slot_at (bk_levels b) lh)\<lparr>l_head := head_of (xs @ ys), l_tail := tail_of (xs @ ys),
          l_order_count := l_order_count (slot_at (bk_levels b) lh) - 1\<rparr>
        else slot_at (bk_levels b) v))"
proof -
  let ?O = "bk_orders b" and ?L = "bk_levels b"
  define px where "px = tail_of xs"
  define nx where "nx = head_of ys"
  have links: "o_prev (slot_at ?O oh) = px" "o_next (slot_at ?O oh) = nx"
    using linked_links [OF link] by (simp_all add: px_def nx_def)
  have px: "xs \<noteq> [] \<Longrightarrow> px \<in> set xs" "is_null px \<longleftrightarrow> xs = []"
    using hs(1) by (auto simp: px_def tail_of_def is_null_iff)
  have nx: "ys \<noteq> [] \<Longrightarrow> nx \<in> set ys" "is_null nx \<longleftrightarrow> ys = []"
    using hs(1) by (auto simp: nx_def head_of_def is_null_iff split: list.splits)
  define os1 where "os1 = (if xs = [] then ?O else pool_write ?O px (\<lambda>y. y\<lparr>o_next := nx\<rparr>))"
  define os2 where "os2 = (if ys = [] then os1 else pool_write os1 nx (\<lambda>y. y\<lparr>o_prev := px\<rparr>))"
  define ls1 where "ls1 = (if xs = [] then pool_write ?L lh (\<lambda>v. v\<lparr>l_head := nx\<rparr>) else ?L)"
  define ls2 where "ls2 = (if ys = [] then pool_write ls1 lh (\<lambda>v. v\<lparr>l_tail := px\<rparr>) else ls1)"
  define ls3 where "ls3 = pool_write ls2 lh (\<lambda>v. v\<lparr>l_order_count := l_order_count v - 1\<rparr>)"
  have lpx: "xs \<noteq> [] \<Longrightarrow> pool_live order_slot ?O px" and lnx: "ys \<noteq> [] \<Longrightarrow> pool_live order_slot ?O nx"
    using px(1) nx(1) hs(1) by auto
  have w1: "pool_like order_slot ?O os1"
    using order_write(1) [OF os] lpx os by (auto simp: os1_def pool_like_refl)
  have s1: "slot_at os1 h = (if xs \<noteq> [] \<and> h = px then (slot_at ?O h)\<lparr>o_next := nx\<rparr> else slot_at ?O h)"
    if "pool_live order_slot ?O h" for h
    using order_write(2) [OF os lpx, of "\<lambda>y. y\<lparr>o_next := nx\<rparr>" h] that by (auto simp: os1_def)
  have w2: "pool_like order_slot os1 os2"
    using order_write(1) [OF pool_like_inv [OF w1]] lnx pool_like_live [OF w1] pool_like_inv [OF w1]
    by (auto simp: os2_def pool_like_refl)
  have s2: "slot_at os2 h = (if ys \<noteq> [] \<and> h = nx then (slot_at os1 h)\<lparr>o_prev := px\<rparr> else slot_at os1 h)"
    if "pool_live order_slot ?O h" for h
    using order_write(2) [OF pool_like_inv [OF w1], of nx "\<lambda>y. y\<lparr>o_prev := px\<rparr>" h]
      that lnx pool_like_live [OF w1] by (auto simp: os2_def)
  have v1: "pool_like level_slot ?L ls1"
    using level_write(1) [OF ls lh] ls by (auto simp: ls1_def pool_like_refl)
  have lh1: "pool_live level_slot ls1 lh" using lh pool_like_live [OF v1] by simp
  have v2: "pool_like level_slot ls1 ls2"
    using level_write(1) [OF pool_like_inv [OF v1] lh1] pool_like_inv [OF v1] by (auto simp: ls2_def pool_like_refl)
  have lh2: "pool_live level_slot ls2 lh" using lh1 pool_like_live [OF v2] by simp
  have v3: "pool_like level_slot ls2 ls3"
    unfolding ls3_def by (rule level_write(1) [OF pool_like_inv [OF v2] lh2]) simp
  have t1: "slot_at ls1 v = (if v = lh \<and> xs = [] then (slot_at ?L lh)\<lparr>l_head := nx\<rparr> else slot_at ?L v)"
    if "pool_live level_slot ?L v" for v
    using level_write(2) [OF ls lh, of "\<lambda>v. v\<lparr>l_head := nx\<rparr>" v] that by (auto simp: ls1_def)
  have t2: "slot_at ls2 v = (if v = lh \<and> ys = [] then (slot_at ls1 lh)\<lparr>l_tail := px\<rparr> else slot_at ls1 v)"
    if "pool_live level_slot ?L v" for v
    using level_write(2) [OF pool_like_inv [OF v1] lh1, of "\<lambda>v. v\<lparr>l_tail := px\<rparr>" v] that
      pool_like_live [OF v1] by (auto simp: ls2_def)
  have t3: "slot_at ls3 v = (if v = lh then (slot_at ls2 lh)\<lparr>l_order_count := l_order_count (slot_at ls2 lh) - 1\<rparr>
      else slot_at ls2 v)" if "pool_live level_slot ?L v" for v
    using level_write(2) [OF pool_like_inv [OF v2] lh2, of "\<lambda>v. v\<lparr>l_order_count := l_order_count v - 1\<rparr>" v]
      that pool_like_live [OF v1] pool_like_live [OF v2] by (auto simp: ls3_def)
  have ohn: "oh \<notin> set xs" "oh \<notin> set ys" "set xs \<inter> set ys = {}" "distinct xs" "distinct ys"
    using hs(2) by auto
  have x1: "slot_at os1 oh = slot_at ?O oh" using s1 [OF oh] px(1) ohn by auto
  have "pool_live order_slot os1 nx" if "ys \<noteq> []" using lnx [OF that] pool_like_live [OF w1] by simp
  then have run: "unlink oh lh b = Inr (b\<lparr>bk_orders := os2, bk_levels := ls3\<rparr>)"
    using links x1 px(2) nx(2) lpx
    by (cases "xs = []"; cases "ys = []")
      (simp_all add: unlink_def Let_def write_level_def write_order_def os2_def os1_def ls3_def
        ls2_def ls1_def pool_ref_live)
  have dat: "data (slot_at os2 h) = data (slot_at ?O h)" if "pool_live order_slot ?O h" for h
    using s1 [OF that] s2 [OF that] by auto
  have frame: "slot_at os2 h = slot_at ?O h" if "pool_live order_slot ?O h" "h \<notin> set (xs @ ys)" for h
    using s1 [OF that(1)] s2 [OF that(1)] that(2) px(1) nx(1) by auto
  have lvl: "slot_at ls3 v = (if v = lh then (slot_at ?L lh)\<lparr>l_head := head_of (xs @ ys),
      l_tail := tail_of (xs @ ys), l_order_count := l_order_count (slot_at ?L lh) - 1\<rparr> else slot_at ?L v)"
    if "pool_live level_slot ?L v" for v
  proof (cases "v = lh")
    case False
    then show ?thesis using t1 [OF that] t2 [OF that] t3 [OF that] by simp
  next
    case True
    have "head_of (xs @ ys) = (if xs = [] then nx else l_head (slot_at ?L lh))"
      using ends(1) by (cases xs) (auto simp: nx_def)
    moreover have "tail_of (xs @ ys) = (if ys = [] then px else l_tail (slot_at ?L lh))"
      using ends(2) by (auto simp: px_def tail_of_def)
    ultimately show ?thesis
      using True t1 [OF lh] t2 [OF lh] t3 [OF lh] by (auto intro: level.equality)
  qed
  have live: "h \<in> set xs \<or> h \<in> set ys \<Longrightarrow> pool_live order_slot ?O h" for h using hs(1) by auto
  have slot: "slot_at os2 h = (let y = slot_at ?O h;
      y = (if xs \<noteq> [] \<and> h = px then y\<lparr>o_next := nx\<rparr> else y) in
      if ys \<noteq> [] \<and> h = nx then y\<lparr>o_prev := px\<rparr> else y)" if "h \<in> set xs \<or> h \<in> set ys" for h
    using s1 [OF live [OF that]] s2 [OF live [OF that]] by (auto simp: Let_def)
  have in_xs: "h \<in> set xs \<Longrightarrow> ys \<noteq> [] \<longrightarrow> h \<noteq> nx" and in_ys: "h \<in> set ys \<Longrightarrow> xs \<noteq> [] \<longrightarrow> h \<noteq> px" for h
    using px(1) nx(1) ohn(3) by auto
  have lx: "linked (slot_at ?O) null_handle xs oh" and ly: "linked (slot_at ?O) oh ys null_handle"
    using link by (auto simp: linked_append)
  have "linked (slot_at os2) null_handle xs nx"
  proof (rule linked_relink_next [OF lx ohn(4)])
    show "o_prev (slot_at os2 h) = o_prev (slot_at ?O h)" if "h \<in> set xs" for h
      using slot [of h] in_xs that by (auto simp: Let_def)
    show "o_next (slot_at os2 h) = o_next (slot_at ?O h)" if h: "h \<in> set (butlast xs)" for h
    proof -
      have "h \<in> set xs" using h by (rule in_set_butlastD)
      moreover have "h \<noteq> last xs"
        using h ohn(4) by (metis append_butlast_last_id distinct_butlast in_set_butlastD not_distinct_conv_prefix
          empty_iff list.set(1) butlast.simps(1))
      ultimately show ?thesis using slot [of h] in_xs by (auto simp: Let_def px_def)
    qed
    show "o_next (slot_at os2 (last xs)) = nx" if "xs \<noteq> []"
      using slot [of "last xs"] in_xs [of "last xs"] that by (auto simp: Let_def px_def)
  qed
  moreover have "linked (slot_at os2) px ys null_handle"
  proof (rule linked_relink_prev [OF ly])
    show "o_next (slot_at os2 h) = o_next (slot_at ?O h)" if "h \<in> set ys" for h
      using slot [of h] in_ys that by (auto simp: Let_def)
    show "o_prev (slot_at os2 h) = o_prev (slot_at ?O h)" if h: "h \<in> set (tl ys)" for h
    proof -
      have "h \<in> set ys" using h by (rule list.set_sel(2) [rotated]) (use h in auto)
      moreover have "h \<noteq> nx" using h ohn(5) by (cases ys) (auto simp: nx_def)
      ultimately show ?thesis using slot [of h] in_ys by (auto simp: Let_def)
    qed
    show "o_prev (slot_at os2 (hd ys)) = px" if "ys \<noteq> []"
      using slot [of "hd ys"] that by (cases ys) (auto simp: Let_def nx_def)
  qed
  ultimately have "linked (slot_at os2) null_handle (xs @ ys) null_handle"
    by (cases ys) (auto simp: linked_append px_def nx_def tail_of_def split: if_splits)
  with run dat frame lvl w1 w2 v1 v2 v3 show ?thesis
    by (intro exI [of _ os2] exI [of _ ls3]) (auto intro: pool_like_trans)
qed

end
