(* ===== verification/Naive_Book.thy ===== *)
theory Naive_Book
  imports Core_Types Assertions
begin

text \<open>
  tests/naive_book.hpp: the order book as a list of resting orders in arrival order, every
  answer recomputed from the list. It is the specification the real books refine. To the
  fields of the C++ \<open>Rec\<close> it adds the owner, which the books carry and the engine reads.
  Quantities at a level or on a side are the 64-bit sums the books keep.
\<close>

section \<open>State and operations\<close>

record resting =
  r_ref :: order_ref
  r_side :: side
  r_price :: price
  r_qty :: qty
  r_owner :: u16

type_synonym naive_book = "resting list"

definition nb_add :: "order_ref \<Rightarrow> side \<Rightarrow> price \<Rightarrow> qty \<Rightarrow> u16 \<Rightarrow> naive_book \<Rightarrow> naive_book" where
  "nb_add ref s p q ow rs =
     rs @ [\<lparr>r_ref = ref, r_side = s, r_price = p, r_qty = q, r_owner = ow\<rparr>]"

definition nb_find :: "naive_book \<Rightarrow> order_ref \<Rightarrow> resting option" where
  "nb_find rs ref = List.find (\<lambda>x. r_ref x = ref) rs"

definition nb_erase :: "order_ref \<Rightarrow> naive_book \<Rightarrow> naive_book" where
  "nb_erase ref rs = filter (\<lambda>x. r_ref x \<noteq> ref) rs"

definition nb_take :: "order_ref \<Rightarrow> qty \<Rightarrow> naive_book \<Rightarrow> naive_book" where
  "nb_take ref shares rs = map (\<lambda>x. if r_ref x = ref then x\<lparr>r_qty := r_qty x - shares\<rparr> else x) rs"

text \<open>\<open>cancel\<close> (and \<open>execute\<close>): the order shrinks, and leaves the list when nothing is left.\<close>

definition nb_cancel :: "order_ref \<Rightarrow> qty \<Rightarrow> naive_book \<Rightarrow> naive_book" where
  "nb_cancel ref shares rs =
     (case nb_find rs ref of
        None \<Rightarrow> rs
      | Some x \<Rightarrow> if r_qty x - shares = 0 then nb_erase ref rs else nb_take ref shares rs)"

definition nb_remove :: "order_ref \<Rightarrow> naive_book \<Rightarrow> naive_book" where
  "nb_remove ref rs = (case nb_find rs ref of None \<Rightarrow> rs | Some x \<Rightarrow> nb_cancel ref (r_qty x) rs)"

definition nb_replace :: "order_ref \<Rightarrow> order_ref \<Rightarrow> price \<Rightarrow> qty \<Rightarrow> naive_book \<Rightarrow> naive_book" where
  "nb_replace old new p q rs =
     (case nb_find rs old of
        None \<Rightarrow> rs
      | Some x \<Rightarrow> nb_add new (r_side x) p q (r_owner x) (nb_remove old rs))"

definition nb_empty :: "naive_book \<Rightarrow> side \<Rightarrow> bool" where
  "nb_empty rs s \<longleftrightarrow> (\<forall>x \<in> set rs. r_side x \<noteq> s)"

fun nb_best_from :: "side \<Rightarrow> price option \<Rightarrow> naive_book \<Rightarrow> price option" where
  "nb_best_from s b [] = b"
| "nb_best_from s b (x # rs) =
     nb_best_from s
       (if r_side x \<noteq> s then b
        else case b of
          None \<Rightarrow> Some (r_price x)
        | Some p \<Rightarrow> if closer s (r_price x) p then Some (r_price x) else b) rs"

definition nb_best :: "naive_book \<Rightarrow> side \<Rightarrow> price" where
  "nb_best rs s = (case nb_best_from s None rs of None \<Rightarrow> kNoPrice | Some p \<Rightarrow> p)"

definition on_side :: "side \<Rightarrow> naive_book \<Rightarrow> naive_book" where
  "on_side s rs = filter (\<lambda>x. r_side x = s) rs"

text \<open>The queue at a price: its resting orders, oldest first.\<close>

definition queue :: "side \<Rightarrow> price \<Rightarrow> naive_book \<Rightarrow> naive_book" where
  "queue s p rs = filter (\<lambda>x. r_side x = s \<and> r_price x = p) rs"

definition qsum :: "naive_book \<Rightarrow> u64" where
  "qsum rs = sum_list (map (\<lambda>x. ucast (r_qty x)) rs)"

definition nb_qty_at :: "naive_book \<Rightarrow> side \<Rightarrow> price \<Rightarrow> u64" where
  "nb_qty_at rs s p = qsum (queue s p rs)"

definition nb_orders_at :: "naive_book \<Rightarrow> side \<Rightarrow> price \<Rightarrow> u32" where
  "nb_orders_at rs s p = of_nat (length (queue s p rs))"

definition nb_total_qty :: "naive_book \<Rightarrow> side \<Rightarrow> u64" where
  "nb_total_qty rs s = qsum (on_side s rs)"

definition prices :: "side \<Rightarrow> naive_book \<Rightarrow> price set" where
  "prices s rs = r_price ` {x \<in> set rs. r_side x = s}"

definition nb_level_count :: "naive_book \<Rightarrow> side \<Rightarrow> u32" where
  "nb_level_count rs s = of_nat (card (prices s rs))"

definition nb_order_count :: "naive_book \<Rightarrow> nat" where
  "nb_order_count rs = length rs"

definition nb_contains :: "naive_book \<Rightarrow> order_ref \<Rightarrow> bool" where
  "nb_contains rs ref \<longleftrightarrow> (\<exists>x \<in> set rs. r_ref x = ref)"

text \<open>Price levels from the inside out, each with its queue of references.\<close>

fun insert_price :: "side \<Rightarrow> price \<Rightarrow> price list \<Rightarrow> price list" where
  "insert_price s p [] = [p]"
| "insert_price s p (q # qs) =
     (if p = q then q # qs else if closer s p q then p # q # qs else q # insert_price s p qs)"

definition level_prices :: "side \<Rightarrow> naive_book \<Rightarrow> price list" where
  "level_prices s rs = foldr (insert_price s) (map r_price (on_side s rs)) []"

definition nb_levels :: "naive_book \<Rightarrow> side \<Rightarrow> (price \<times> order_ref list) list" where
  "nb_levels rs s = map (\<lambda>p. (p, map r_ref (queue s p rs))) (level_prices s rs)"

section \<open>Well-formed books\<close>

text \<open>References are distinct and no order of quantity zero rests.\<close>

definition wf_book :: "naive_book \<Rightarrow> bool" where
  "wf_book rs \<longleftrightarrow> distinct (map r_ref rs) \<and> (\<forall>x \<in> set rs. r_qty x \<noteq> 0)"

lemma wf_book_Nil [simp]: "wf_book []"
  by (simp add: wf_book_def)

lemma wf_ref_inj:
  "wf_book rs \<Longrightarrow> x \<in> set rs \<Longrightarrow> y \<in> set rs \<Longrightarrow> r_ref x = r_ref y \<Longrightarrow> x = y"
  by (auto simp: wf_book_def distinct_map inj_on_def)

lemma nb_find_Some: "wf_book rs \<Longrightarrow> nb_find rs ref = Some x \<longleftrightarrow> x \<in> set rs \<and> r_ref x = ref"
  by (auto simp: nb_find_def find_Some_iff in_set_conv_nth wf_book_def distinct_conv_nth)

lemma nb_find_None: "nb_find rs ref = None \<longleftrightarrow> ref \<notin> r_ref ` set rs"
  by (auto simp: nb_find_def find_None_iff)

lemma nb_contains_iff: "nb_contains rs ref \<longleftrightarrow> ref \<in> r_ref ` set rs"
  by (auto simp: nb_contains_def)

lemma wf_nb_add:
  "wf_book rs \<Longrightarrow> ref \<notin> r_ref ` set rs \<Longrightarrow> q \<noteq> 0 \<Longrightarrow> wf_book (nb_add ref s p q ow rs)"
  by (auto simp: wf_book_def nb_add_def)

lemma nb_add_simps:
  "set (nb_add ref s p q ow rs) =
     insert \<lparr>r_ref = ref, r_side = s, r_price = p, r_qty = q, r_owner = ow\<rparr> (set rs)"
  "length (nb_add ref s p q ow rs) = Suc (length rs)"
  by (simp_all add: nb_add_def)

lemma wf_nb_erase: "wf_book rs \<Longrightarrow> wf_book (nb_erase ref rs)"
  by (auto simp: wf_book_def nb_erase_def distinct_map intro: inj_on_subset)

lemma nb_take_refs [simp]: "map r_ref (nb_take ref n rs) = map r_ref rs"
  by (simp add: nb_take_def)

lemma length_nb_take [simp]: "length (nb_take ref n rs) = length rs"
  by (simp add: nb_take_def)

lemma wf_nb_take:
  "wf_book rs \<Longrightarrow> (\<And>x. x \<in> set rs \<Longrightarrow> r_ref x = ref \<Longrightarrow> r_qty x - n \<noteq> 0) \<Longrightarrow>
     wf_book (nb_take ref n rs)"
  unfolding wf_book_def nb_take_refs by (auto simp: nb_take_def)

lemma nb_cancel_cases:
  assumes "wf_book rs" and "x \<in> set rs" and "r_ref x = ref"
  shows "nb_cancel ref n rs = (if r_qty x = n then nb_erase ref rs else nb_take ref n rs)"
proof -
  have "nb_find rs ref = Some x" using assms by (simp add: nb_find_Some)
  then show ?thesis by (simp add: nb_cancel_def)
qed

lemma nb_remove_erase:
  assumes "wf_book rs" and "x \<in> set rs"
  shows "nb_remove (r_ref x) rs = nb_erase (r_ref x) rs"
proof -
  have "nb_find rs (r_ref x) = Some x" using assms by (simp add: nb_find_Some)
  then show ?thesis using nb_cancel_cases [OF assms refl] by (simp add: nb_remove_def)
qed

lemma wf_nb_cancel:
  assumes "wf_book rs" and "x \<in> set rs" and "r_ref x = ref"
  shows "wf_book (nb_cancel ref n rs)"
proof (cases "r_qty x = n")
  case True
  with assms show ?thesis by (simp add: nb_cancel_cases wf_nb_erase)
next
  case False
  have "wf_book (nb_take ref n rs)"
    using wf_ref_inj [OF assms(1)] assms(2,3) False by (intro wf_nb_take assms(1)) (metis right_minus_eq)
  with False assms show ?thesis by (simp add: nb_cancel_cases)
qed

section \<open>Queues, prices and sums\<close>

lemma prices_queue: "p \<in> prices s rs \<longleftrightarrow> queue s p rs \<noteq> []"
  by (auto simp: prices_def queue_def filter_empty_conv)

lemma finite_prices [simp]: "finite (prices s rs)"
  by (simp add: prices_def)

lemma prices_empty: "prices s rs = {} \<longleftrightarrow> nb_empty rs s"
  by (auto simp: prices_def nb_empty_def)

lemma card_prices: "card (prices Buy rs) + card (prices Sell rs) \<le> length rs"
proof -
  have le: "card (prices s rs) \<le> length (on_side s rs)" for s
  proof -
    have "prices s rs = set (map r_price (on_side s rs))" by (auto simp: prices_def on_side_def)
    then show ?thesis using card_length [of "map r_price (on_side s rs)"] by simp
  qed
  have "length (on_side Buy rs) + length (on_side Sell rs) = length rs"
    unfolding on_side_def by (induction rs) (auto split: side.splits, metis side.exhaust)
  with le [of Buy] le [of Sell] show ?thesis by linarith
qed

lemma queue_add:
  "queue s p (nb_add ref s' p' q ow rs) = queue s p rs @
     (if s' = s \<and> p' = p then [\<lparr>r_ref = ref, r_side = s', r_price = p', r_qty = q, r_owner = ow\<rparr>] else [])"
  by (simp add: queue_def nb_add_def)

lemma queue_erase: "queue s p (nb_erase ref rs) = nb_erase ref (queue s p rs)"
  by (simp add: queue_def nb_erase_def conj_commute)

lemma queue_take: "queue s p (nb_take ref n rs) = nb_take ref n (queue s p rs)"
  by (simp add: queue_def nb_take_def filter_map comp_def if_distrib cong: if_cong)

lemma on_side_add:
  "on_side s (nb_add ref s' p' q ow rs) = on_side s rs @
     (if s' = s then [\<lparr>r_ref = ref, r_side = s', r_price = p', r_qty = q, r_owner = ow\<rparr>] else [])"
  by (simp add: on_side_def nb_add_def)

lemma on_side_erase: "on_side s (nb_erase ref rs) = nb_erase ref (on_side s rs)"
  by (simp add: on_side_def nb_erase_def conj_commute)

lemma on_side_take: "on_side s (nb_take ref n rs) = nb_take ref n (on_side s rs)"
  by (simp add: on_side_def nb_take_def filter_map comp_def if_distrib cong: if_cong)

lemma qsum_simps [simp]:
  "qsum [] = 0" "qsum (x # rs) = ucast (r_qty x) + qsum rs" "qsum (rs @ ts) = qsum rs + qsum ts"
  by (simp_all add: qsum_def)

lemma wf_queue: "wf_book rs \<Longrightarrow> wf_book (queue s p rs)"
  by (auto simp: wf_book_def queue_def distinct_map intro: inj_on_subset)

lemma wf_on_side: "wf_book rs \<Longrightarrow> wf_book (on_side s rs)"
  by (auto simp: wf_book_def on_side_def distinct_map intro: inj_on_subset)

lemma nb_erase_absent: "ref \<notin> r_ref ` set rs \<Longrightarrow> nb_erase ref rs = rs"
  by (auto simp: nb_erase_def intro: filter_True)

lemma nb_take_absent: "ref \<notin> r_ref ` set rs \<Longrightarrow> nb_take ref n rs = rs"
  unfolding nb_take_def by (rule map_idI) auto

lemma split_at:
  assumes "wf_book rs" and "x \<in> set rs"
  obtains xs ys where "rs = xs @ x # ys" and "r_ref x \<notin> r_ref ` set xs" and "r_ref x \<notin> r_ref ` set ys"
    and "nb_erase (r_ref x) rs = xs @ ys"
    and "nb_take (r_ref x) n rs = xs @ x\<lparr>r_qty := r_qty x - n\<rparr> # ys"
proof -
  obtain xs ys where rs: "rs = xs @ x # ys" using assms(2) by (metis split_list)
  with assms(1) have no: "r_ref x \<notin> r_ref ` set xs" "r_ref x \<notin> r_ref ` set ys"
    by (auto simp: wf_book_def)
  then have "nb_erase (r_ref x) rs = xs @ ys"
    and "nb_take (r_ref x) n rs = xs @ x\<lparr>r_qty := r_qty x - n\<rparr> # ys"
    using nb_erase_absent [OF no(1)] nb_erase_absent [OF no(2)]
      nb_take_absent [OF no(1)] nb_take_absent [OF no(2)]
    by (simp_all add: rs nb_erase_def nb_take_def)
  with rs no show ?thesis by (rule that)
qed

lemma length_nb_erase:
  "wf_book rs \<Longrightarrow> x \<in> set rs \<Longrightarrow> Suc (length (nb_erase (r_ref x) rs)) = length rs"
  by (erule (1) split_at [where n = 0]) simp

lemma qsum_erase:
  "wf_book rs \<Longrightarrow> x \<in> set rs \<Longrightarrow> qsum (nb_erase (r_ref x) rs) = qsum rs - ucast (r_qty x)"
  by (erule (1) split_at [where n = 0]) simp

lemma unat_ucast64: "unat (ucast (q :: u32) :: u64) = unat q"
  by (simp add: unsigned_ucast_eq take_bit_nat_eq_self_iff order_less_le_trans [OF unsigned_less])

lemma ucast_minus_le:
  fixes n q :: u32
  assumes "n \<le> q"
  shows "(ucast (q - n) :: u64) = ucast q - ucast n"
proof -
  have le: "(ucast n :: u64) \<le> ucast q" using assms by (simp add: word_le_nat_alt unat_ucast64)
  show ?thesis
    by (simp add: word_unat_eq_iff unat_ucast64 unat_sub [OF assms] unat_sub [OF le])
qed

lemma qsum_take:
  assumes "wf_book rs" and "x \<in> set rs" and "n \<le> r_qty x"
  shows "qsum (nb_take (r_ref x) n rs) = qsum rs - ucast n"
proof -
  have sub: "(ucast (r_qty x - n) :: u64) = ucast (r_qty x) - ucast n"
    by (rule ucast_minus_le [OF assms(3)])
  show ?thesis
    by (rule split_at [OF assms(1,2), where n = n]) (simp add: sub)
qed

text \<open>The 64-bit sums do not wrap while a side holds fewer than \<open>2 ^ 32\<close> orders.\<close>

lemma sum_qty_bound: "sum_list (map (\<lambda>x. unat (r_qty x)) rs) \<le> length rs * (2 ^ 32 - 1)"
proof (induction rs)
  case (Cons x rs)
  have "unat (r_qty x) < 2 ^ 32" using unsigned_less [of "r_qty x"] by simp
  with Cons show ?case by simp
qed simp

lemma unat_qsum:
  assumes "length rs < 2 ^ 32"
  shows "unat (qsum rs) = sum_list (map (\<lambda>x. unat (r_qty x)) rs)"
  using assms
proof (induction rs)
  case (Cons x rs)
  have "sum_list (map (\<lambda>x. unat (r_qty x)) (x # rs)) \<le> length (x # rs) * (2 ^ 32 - 1)"
    by (rule sum_qty_bound)
  also have "\<dots> \<le> (2 ^ 32 - 1) * (2 ^ 32 - 1)" using Cons.prems by (intro mult_right_mono) simp_all
  also have "\<dots> < (2 :: nat) ^ 64" by simp
  finally have less: "unat (r_qty x) + sum_list (map (\<lambda>x. unat (r_qty x)) rs) < 2 ^ 64" by simp
  have "unat (qsum rs) = sum_list (map (\<lambda>x. unat (r_qty x)) rs)"
    using Cons by simp
  with less show ?case by (simp add: unat_word_ariths unat_ucast64)
qed simp

lemma qsum_ge:
  assumes "length rs < 2 ^ 32" and "x \<in> set rs"
  shows "ucast (r_qty x) \<le> qsum rs"
  unfolding word_le_nat_alt unat_ucast64 unat_qsum [OF assms(1)]
  using member_le_sum_list [of "unat (r_qty x)" "map (\<lambda>x. unat (r_qty x)) rs"] assms(2) by auto

section \<open>The list after the order shrank or left\<close>

lemma nb_take_fields:
  "r_side ` set (nb_take ref n rs) = r_side ` set rs" "r_ref ` set (nb_take ref n rs) = r_ref ` set rs"
  "prices s (nb_take ref n rs) = prices s rs" "nb_empty (nb_take ref n rs) s = nb_empty rs s"
proof -
  have f: "g ` set (nb_take ref n ts) = g ` set ts"
    if g: "\<And>x q. g (x\<lparr>r_qty := q\<rparr>) = g x" for g :: "resting \<Rightarrow> 'a" and ts
  proof -
    have "map g (nb_take ref n ts) = map g ts" by (auto simp: nb_take_def g)
    then show ?thesis by (metis list.set_map)
  qed
  show "r_side ` set (nb_take ref n rs) = r_side ` set rs" "r_ref ` set (nb_take ref n rs) = r_ref ` set rs"
    by (rule f, simp)+
  have "prices s xs = r_price ` set (on_side s xs)" for xs by (simp add: prices_def on_side_def)
  then show p: "prices s (nb_take ref n rs) = prices s rs" by (simp only: on_side_take) (simp add: f)
  show "nb_empty (nb_take ref n rs) s = nb_empty rs s"
    using p by (simp flip: prices_empty)
qed

lemma queue_erase_other:
  assumes "wf_book rs" and "x \<in> set rs" and "\<not> (s = r_side x \<and> p = r_price x)"
  shows "queue s p (nb_erase (r_ref x) rs) = queue s p rs"
proof -
  have "r_ref x \<notin> r_ref ` set (queue s p rs)"
    using wf_ref_inj [OF assms(1,2)] assms(3) by (auto simp: queue_def)
  then show ?thesis by (simp add: queue_erase nb_erase_absent)
qed

lemma queue_take_other:
  assumes "wf_book rs" and "x \<in> set rs" and "\<not> (s = r_side x \<and> p = r_price x)"
  shows "queue s p (nb_take (r_ref x) n rs) = queue s p rs"
proof -
  have "r_ref x \<notin> r_ref ` set (queue s p rs)"
    using wf_ref_inj [OF assms(1,2)] assms(3) by (auto simp: queue_def)
  then show ?thesis by (simp add: queue_take nb_take_absent)
qed

lemma prices_erase:
  assumes "wf_book rs" and "x \<in> set rs"
  shows "prices s (nb_erase (r_ref x) rs) =
    (if s = r_side x \<and> queue s (r_price x) (nb_erase (r_ref x) rs) = [] then prices s rs - {r_price x}
     else prices s rs)"
proof (intro set_eqI)
  fix p
  have in_p: "r_price x \<in> prices (r_side x) rs" using assms(2) by (auto simp: prices_def)
  show "p \<in> prices s (nb_erase (r_ref x) rs) \<longleftrightarrow> p \<in>
    (if s = r_side x \<and> queue s (r_price x) (nb_erase (r_ref x) rs) = [] then prices s rs - {r_price x}
     else prices s rs)"
  proof (cases "s = r_side x \<and> p = r_price x")
    case True
    with in_p show ?thesis by (auto simp: prices_queue)
  next
    case False
    with queue_erase_other [OF assms False] show ?thesis by (auto simp: prices_queue)
  qed
qed

lemma in_own_queue: "x \<in> set rs \<Longrightarrow> x \<in> set (queue (r_side x) (r_price x) rs)"
  by (simp add: queue_def)

lemma total_erase:
  assumes "wf_book rs" and "x \<in> set rs"
  shows "nb_total_qty (nb_erase (r_ref x) rs) =
    (nb_total_qty rs)(r_side x := nb_total_qty rs (r_side x) - ucast (r_qty x))"
proof
  fix s
  show "nb_total_qty (nb_erase (r_ref x) rs) s =
    ((nb_total_qty rs)(r_side x := nb_total_qty rs (r_side x) - ucast (r_qty x))) s"
  proof (cases "s = r_side x")
    case True
    then show ?thesis
      using qsum_erase [OF wf_on_side [OF assms(1)], of x s] assms(2)
      by (simp add: nb_total_qty_def on_side_erase) (simp add: on_side_def)
  next
    case False
    then have "r_ref x \<notin> r_ref ` set (on_side s rs)"
      using wf_ref_inj [OF assms(1,2)] by (auto simp: on_side_def)
    with False show ?thesis by (simp add: nb_total_qty_def on_side_erase nb_erase_absent)
  qed
qed

lemma total_take:
  assumes "wf_book rs" and "x \<in> set rs" and "n \<le> r_qty x"
  shows "nb_total_qty (nb_take (r_ref x) n rs) =
    (nb_total_qty rs)(r_side x := nb_total_qty rs (r_side x) - ucast n)"
proof
  fix s
  show "nb_total_qty (nb_take (r_ref x) n rs) s =
    ((nb_total_qty rs)(r_side x := nb_total_qty rs (r_side x) - ucast n)) s"
  proof (cases "s = r_side x")
    case True
    then show ?thesis
      using qsum_take [OF wf_on_side [OF assms(1)], of x s n] assms(2,3)
      by (simp add: nb_total_qty_def on_side_take) (simp add: on_side_def)
  next
    case False
    then have "r_ref x \<notin> r_ref ` set (on_side s rs)"
      using wf_ref_inj [OF assms(1,2)] by (auto simp: on_side_def)
    with False show ?thesis by (simp add: nb_total_qty_def on_side_take nb_take_absent)
  qed
qed

lemma own_price_card:
  assumes "x \<in> set rs"
  shows "\<exists>k. card (prices (r_side x) rs) = Suc k \<and> card (prices (r_side x) rs - {r_price x}) = k"
proof -
  have "r_price x \<in> prices (r_side x) rs" using assms by (auto simp: prices_def)
  then show ?thesis using card.remove [OF finite_prices] by metis
qed

lemma level_count_erase:
  assumes "wf_book rs" and "x \<in> set rs"
  shows "nb_level_count (nb_erase (r_ref x) rs) =
    (if queue (r_side x) (r_price x) (nb_erase (r_ref x) rs) = []
     then (nb_level_count rs)(r_side x := nb_level_count rs (r_side x) - 1) else nb_level_count rs)"
proof -
  obtain k where k: "card (prices (r_side x) rs) = Suc k" "card (prices (r_side x) rs - {r_price x}) = k"
    using own_price_card [OF assms(2)] by blast
  then show ?thesis by (auto simp: nb_level_count_def prices_erase [OF assms] fun_eq_iff simp del: card_Diff_insert)
qed

lemma nb_empty_add: "nb_empty (nb_add ref s p q ow rs) s' \<longleftrightarrow> nb_empty rs s' \<and> s' \<noteq> s"
  by (auto simp: nb_empty_def nb_add_simps)

lemma prices_add: "prices s' (nb_add ref s p q ow rs) = (if s' = s then insert p (prices s' rs) else prices s' rs)"
proof -
  have "prices s' xs = set (map r_price (on_side s' xs))" for xs
    by (auto simp: prices_def on_side_def)
  then show ?thesis by (auto simp: on_side_add)
qed

end
