(* ===== verification/Flat_Book_Rep.thy ===== *)
theory Flat_Book_Rep
  imports Flat_Book_Queue Order_Index_Laws Naive_Book
begin

text \<open>
  What a pooled book stands for: \<open>rep_book\<close> relates it to the list of resting orders of
  Naive_Book, over the contents, invariant and prices of its level map. Its parts: the
  pools, the index and the level maps are sound; the index knows exactly the resting
  orders and each one's record holds what the list says; each price with orders has one
  level whose queue is the list's queue at that price; the counters and the cached best
  are the recomputed ones.
\<close>

section \<open>The relation\<close>

definition handle_of :: "'m book \<Rightarrow> order_ref \<Rightarrow> order_handle" where
  "handle_of b ref = the (oi_map (bk_index b) ref)"

definition order_ok :: "('m \<Rightarrow> price \<Rightarrow> level_handle option) \<Rightarrow> 'm book \<Rightarrow> resting \<Rightarrow> bool" where
  "order_ok content b x \<longleftrightarrow>
     (let h = handle_of b (r_ref x); y = slot_at (bk_orders b) h in
      pool_live order_slot (bk_orders b) h \<and> o_ref y = r_ref x \<and> o_qty y = r_qty x \<and>
      o_price y = r_price x \<and> o_side y = side_to_u8 (r_side x) \<and> o_owner y = r_owner x \<and>
      content (bk_ladders b (r_side x)) (r_price x) = Some (o_level y))"

definition queue_handles :: "'m book \<Rightarrow> resting list \<Rightarrow> order_handle list" where
  "queue_handles b q = map (\<lambda>x. handle_of b (r_ref x)) q"

definition level_ok :: "'m book \<Rightarrow> resting list \<Rightarrow> price \<Rightarrow> level_handle \<Rightarrow> bool" where
  "level_ok b q p lh \<longleftrightarrow>
     (let v = slot_at (bk_levels b) lh; hs = queue_handles b q in
      pool_live level_slot (bk_levels b) lh \<and> l_price v = p \<and> l_total_qty v = qsum q \<and>
      l_order_count v = of_nat (length q) \<and> l_head v = head_of hs \<and> l_tail v = tail_of hs \<and>
      linked (slot_at (bk_orders b)) null_handle hs null_handle)"

definition levels_apart :: "('m \<Rightarrow> price \<Rightarrow> level_handle option) \<Rightarrow> 'm book \<Rightarrow> bool" where
  "levels_apart content b \<longleftrightarrow> (\<forall>s p s' p' lh. content (bk_ladders b s) p = Some lh \<longrightarrow>
     content (bk_ladders b s') p' = Some lh \<longrightarrow> s = s' \<and> p = p')"

definition level_total :: "resting list \<Rightarrow> nat" where
  "level_total rs = card (prices Buy rs) + card (prices Sell rs)"

definition storage_ok :: "(side \<Rightarrow> 'm \<Rightarrow> bool) \<Rightarrow> index_hash \<Rightarrow> 'm book \<Rightarrow> resting list \<Rightarrow> bool" where
  "storage_ok lm_ok H b rs \<longleftrightarrow>
     pool_inv order_slot (bk_orders b) \<and> quarantine_limit (bk_orders b) = 0 \<and>
     pool_room (bk_orders b) + length rs = length (slots (bk_orders b)) \<and>
     pool_inv level_slot (bk_levels b) \<and> quarantine_limit (bk_levels b) = 0 \<and>
     pool_room (bk_levels b) + level_total rs = length (slots (bk_levels b)) \<and>
     oi_inv H (bk_index b) \<and> (\<forall>s. lm_ok s (bk_ladders b s))"

definition counters_ok :: "'m book \<Rightarrow> resting list \<Rightarrow> bool" where
  "counters_ok b rs \<longleftrightarrow>
     bk_total_qty b = nb_total_qty rs \<and> bk_level_count b = nb_level_count rs \<and>
     bk_order_count b = of_nat (length rs) \<and>
     (\<forall>s. if nb_empty rs s then bk_best b s = kNoPrice else is_best s (prices s rs) (bk_best b s))"

definition rep_book :: "('m \<Rightarrow> price \<Rightarrow> level_handle option) \<Rightarrow> (side \<Rightarrow> 'm \<Rightarrow> bool) \<Rightarrow> index_hash \<Rightarrow>
    'm book \<Rightarrow> resting list \<Rightarrow> bool" where
  "rep_book content lm_ok H b rs \<longleftrightarrow>
     storage_ok lm_ok H b rs \<and> wf_book rs \<and> dom (oi_map (bk_index b)) = r_ref ` set rs \<and>
     (\<forall>x \<in> set rs. order_ok content b x) \<and>
     (\<forall>s. dom (content (bk_ladders b s)) = prices s rs) \<and>
     (\<forall>s p lh. content (bk_ladders b s) p = Some lh \<longrightarrow> level_ok b (queue s p rs) p lh) \<and>
     levels_apart content b \<and> counters_ok b rs"

text \<open>How many orders the book can hold: no pool, and not the index, is exceeded before.\<close>

definition bk_limit :: "'m book \<Rightarrow> nat" where
  "bk_limit b = min (length (slots (bk_orders b)))
     (min (length (slots (bk_levels b))) (length (ix_slots (bk_index b)) div 2))"

section \<open>Consequences\<close>

lemma storage_small:
  assumes "storage_ok lm_ok H b rs"
  shows "length rs < 2 ^ 24" and "level_total rs < 2 ^ 24" and "card (prices s rs) < max_levels"
proof -
  have cap: "length (slots (bk_orders b)) \<le> 2 ^ 24 - 1" "length (slots (bk_levels b)) \<le> 2 ^ 24 - 1"
    using assms by (auto simp: storage_ok_def pool_inv_def pool_inv_at_def kMaxCapacity_value)
  then show lt: "length rs < 2 ^ 24" "level_total rs < 2 ^ 24"
    using assms by (auto simp: storage_ok_def)
  then show "card (prices s rs) < max_levels"
    by (cases s) (auto simp: max_levels_def level_total_def)
qed

lemma rep_dest:
  assumes "rep_book content lm_ok H b rs"
  shows rep_storage: "storage_ok lm_ok H b rs" and rep_wf: "wf_book rs"
    and rep_dom: "dom (oi_map (bk_index b)) = r_ref ` set rs"
    and rep_order: "x \<in> set rs \<Longrightarrow> order_ok content b x"
    and rep_prices: "dom (content (bk_ladders b s)) = prices s rs"
    and rep_level: "content (bk_ladders b s) p = Some lh \<Longrightarrow> level_ok b (queue s p rs) p lh"
    and rep_apart: "levels_apart content b" and rep_counters: "counters_ok b rs"
  using assms by (auto simp: rep_book_def)

lemma order_okD:
  assumes "order_ok content b x"
  shows "pool_live order_slot (bk_orders b) (handle_of b (r_ref x))"
    and "o_ref (slot_at (bk_orders b) (handle_of b (r_ref x))) = r_ref x"
    and "o_qty (slot_at (bk_orders b) (handle_of b (r_ref x))) = r_qty x"
    and "o_price (slot_at (bk_orders b) (handle_of b (r_ref x))) = r_price x"
    and "o_side (slot_at (bk_orders b) (handle_of b (r_ref x))) = side_to_u8 (r_side x)"
    and "o_owner (slot_at (bk_orders b) (handle_of b (r_ref x))) = r_owner x"
    and "content (bk_ladders b (r_side x)) (r_price x) =
      Some (o_level (slot_at (bk_orders b) (handle_of b (r_ref x))))"
  using assms by (simp_all add: order_ok_def Let_def)

lemma level_okD:
  assumes "level_ok b q p lh"
  shows "pool_live level_slot (bk_levels b) lh" and "l_price (slot_at (bk_levels b) lh) = p"
    and "l_total_qty (slot_at (bk_levels b) lh) = qsum q"
    and "l_order_count (slot_at (bk_levels b) lh) = of_nat (length q)"
    and "l_head (slot_at (bk_levels b) lh) = head_of (queue_handles b q)"
    and "l_tail (slot_at (bk_levels b) lh) = tail_of (queue_handles b q)"
    and "linked (slot_at (bk_orders b)) null_handle (queue_handles b q) null_handle"
  using assms by (simp_all add: level_ok_def Let_def)

lemma rep_handle:
  assumes "rep_book content lm_ok H b rs" and "x \<in> set rs"
  shows "oi_map (bk_index b) (r_ref x) = Some (handle_of b (r_ref x))"
    and "pool_live order_slot (bk_orders b) (handle_of b (r_ref x))"
    and "\<not> is_null (handle_of b (r_ref x))"
proof -
  have "r_ref x \<in> dom (oi_map (bk_index b))" using rep_dom [OF assms(1)] assms(2) by simp
  then show m: "oi_map (bk_index b) (r_ref x) = Some (handle_of b (r_ref x))"
    by (auto simp: handle_of_def)
  show "pool_live order_slot (bk_orders b) (handle_of b (r_ref x))"
    by (rule order_okD(1) [OF rep_order [OF assms]])
  show "\<not> is_null (handle_of b (r_ref x))" using m by (rule oi_map_not_null)
qed

lemma rep_handle_inj:
  assumes "rep_book content lm_ok H b rs" and "x \<in> set rs" and "y \<in> set rs"
    and "handle_of b (r_ref x) = handle_of b (r_ref y)"
  shows "x = y"
proof -
  have "r_ref x = o_ref (slot_at (bk_orders b) (handle_of b (r_ref x)))"
    by (rule order_okD(2) [OF rep_order [OF assms(1,2)], symmetric])
  also have "\<dots> = o_ref (slot_at (bk_orders b) (handle_of b (r_ref y)))" by (simp only: assms(4))
  also have "\<dots> = r_ref y" by (rule order_okD(2) [OF rep_order [OF assms(1,3)]])
  finally have "r_ref x = r_ref y" .
  then show ?thesis using wf_ref_inj [OF rep_wf [OF assms(1)] assms(2,3)] by simp
qed

lemma rep_queue_handles:
  assumes "rep_book content lm_ok H b rs" and "set q \<subseteq> set rs" and "wf_book q"
  shows "distinct (queue_handles b q)"
    and "\<forall>h \<in> set (queue_handles b q). pool_live order_slot (bk_orders b) h \<and> \<not> is_null h"
proof -
  have "distinct q" using assms(3) by (auto simp: wf_book_def distinct_map)
  moreover have "inj_on (\<lambda>x. handle_of b (r_ref x)) (set q)"
    using rep_handle_inj [OF assms(1)] assms(2) by (meson inj_onI subsetD)
  ultimately show "distinct (queue_handles b q)" by (simp add: queue_handles_def distinct_map)
  show "\<forall>h \<in> set (queue_handles b q). pool_live order_slot (bk_orders b) h \<and> \<not> is_null h"
    using assms(2) rep_handle(2,3) [OF assms(1)] by (auto simp: queue_handles_def)
qed

lemma queue_subset: "set (queue s p rs) \<subseteq> set rs"
  by (auto simp: queue_def)

lemma rep_find:
  assumes "rep_book content lm_ok H b rs"
  shows "oi_find H (bk_index b) ref =
    Inr (if ref \<in> r_ref ` set rs then handle_of b ref else null_handle)"
proof -
  have "oi_inv H (bk_index b)" using rep_storage [OF assms] by (simp add: storage_ok_def)
  note find = order_ix.find_law [OF this, of ref]
  show ?thesis
  proof (cases "oi_map (bk_index b) ref")
    case None
    then have "ref \<notin> r_ref ` set rs" using rep_dom [OF assms] by (metis domIff)
    with None find show ?thesis by simp
  next
    case (Some h)
    then have "ref \<in> r_ref ` set rs" using rep_dom [OF assms] by (metis domI)
    with Some find show ?thesis by (simp add: handle_of_def)
  qed
qed

lemma rep_require:
  assumes "rep_book content lm_ok H b rs"
  shows "bk_require H b ref what =
    (if ref \<in> r_ref ` set rs then Inr (handle_of b ref) else Inl (BookF what))"
proof (cases "ref \<in> r_ref ` set rs")
  case True
  then obtain x where "x \<in> set rs" "ref = r_ref x" by blast
  with rep_handle(3) [OF assms] True rep_find [OF assms, of ref] show ?thesis
    by (simp add: bk_require_def)
next
  case False
  with rep_find [OF assms, of ref] show ?thesis by (simp add: bk_require_def is_null_iff)
qed

end
