(* ===== verification/Flat_Book_Add.thy ===== *)
theory Flat_Book_Add
  imports Flat_Book_Rep
begin

text \<open>
  Construction of a pooled book and \<open>add\<close>: the list gets the order at its end, and a
  resting order of the same price that arrived before keeps its place before it.
\<close>

section \<open>The levels\<close>

definition level_store :: "('m \<Rightarrow> price \<Rightarrow> level_handle option) \<Rightarrow> (side \<Rightarrow> 'm \<Rightarrow> bool) \<Rightarrow> 'm book \<Rightarrow> bool" where
  "level_store content lm_ok b \<longleftrightarrow>
     pool_inv level_slot (bk_levels b) \<and> quarantine_limit (bk_levels b) = 0 \<and>
     (\<forall>s. lm_ok s (bk_ladders b s)) \<and>
     (\<forall>s p lh. content (bk_ladders b s) p = Some lh \<longrightarrow> pool_live level_slot (bk_levels b) lh) \<and>
     levels_apart content b"

lemma rep_level_store: "rep_book content lm_ok H b rs \<Longrightarrow> level_store content lm_ok b"
  using level_okD(1) by (fastforce simp: rep_book_def level_store_def storage_ok_def)

text \<open>A level with an empty queue.\<close>

definition fresh_level :: "level \<Rightarrow> price \<Rightarrow> bool" where
  "fresh_level v p \<longleftrightarrow> l_total_qty v = 0 \<and> l_head v = null_handle \<and> l_tail v = null_handle \<and>
     l_price v = p \<and> l_order_count v = 0"

lemma book_update_id:
  "b\<lparr>bk_levels := bk_levels b, bk_ladders := bk_ladders b, bk_level_count := bk_level_count b\<rparr> = b"
  by simp

context level_map
begin

lemma level_for_old:
  assumes "level_store content inv b" and "content (bk_ladders b s) p = Some lh"
  shows "level_for ops s p b = Inr (b, lh)"
proof -
  have "inv s (bk_ladders b s)" using assms(1) by (simp add: level_store_def)
  then show ?thesis
    using assms(2) content_null by (simp add: level_for_def find_law)
qed

lemma level_for_new:
  assumes st: "level_store content inv b" and none: "content (bk_ladders b s) p = None"
    and okp: "ok_price p" and card: "card (dom (content (bk_ladders b s))) < max_levels"
    and room: "0 < pool_room (bk_levels b)"
  shows "\<exists>ls m lh. level_for ops s p b = Inr (b\<lparr>bk_levels := ls, bk_ladders := (bk_ladders b)(s := m),
      bk_level_count := (bk_level_count b)(s := bk_level_count b s + 1)\<rparr>, lh) \<and>
    pool_inv level_slot ls \<and> quarantine_limit ls = 0 \<and> length (slots ls) = length (slots (bk_levels b)) \<and>
    Suc (pool_room ls) = pool_room (bk_levels b) \<and> inv s m \<and>
    content m = (content (bk_ladders b s))(p \<mapsto> lh) \<and>
    (\<forall>h. pool_live level_slot ls h \<longleftrightarrow> pool_live level_slot (bk_levels b) h \<or> h = lh) \<and>
    \<not> pool_live level_slot (bk_levels b) lh \<and> fresh_level (slot_at ls lh) p \<and>
    (\<forall>h. pool_live level_slot (bk_levels b) h \<longrightarrow> slot_at ls h = slot_at (bk_levels b) h)"
proof -
  have lsi: "pool_inv level_slot (bk_levels b)" and q: "quarantine_limit (bk_levels b) = 0"
    and im: "inv s (bk_ladders b s)"
    using st by (auto simp: level_store_def)
  obtain lh l1 where al: "allocate level_slot (bk_levels b) = Inr (l1, lh)" and i1: "pool_inv level_slot l1"
    and nn: "\<not> is_null lh" and lv: "\<And>x. pool_live level_slot l1 x \<longleftrightarrow> pool_live level_slot (bk_levels b) x \<or> x = lh"
    and ps: "\<And>x. pool_live level_slot (bk_levels b) x \<Longrightarrow> h_pos x \<noteq> h_pos lh"
    and sl: "\<And>x. pool_live level_slot (bk_levels b) x \<Longrightarrow> slot_at l1 x = slot_at (bk_levels b) x"
    and "slot_at l1 lh = set_pool_generation level_slot (h_generation lh) (slots (bk_levels b) ! h_pos lh)"
    and rm: "pool_room l1 = pool_room (bk_levels b) - 1" and "unat (live l1) = Suc (unat (live (bk_levels b)))"
    and ln: "length (slots l1) = length (slots (bk_levels b))" and q1: "quarantine_limit l1 = quarantine_limit (bk_levels b)"
    by (rule level_pool.allocate_ok [OF lsi room]) (rule that; assumption)
  have lhl: "pool_live level_slot l1 lh" by (simp add: lv)
  let ?f = "\<lambda>v. v\<lparr>l_total_qty := 0, l_head := null_handle, l_tail := null_handle, l_price := p, l_order_count := 0\<rparr>"
  let ?l2 = "pool_write l1 lh ?f"
  have w: "pool_like level_slot l1 ?l2" by (rule level_write(1) [OF i1 lhl]) simp
  have s2: "slot_at ?l2 x = (if x = lh then ?f (slot_at l1 lh) else slot_at l1 x)"
    if "pool_live level_slot l1 x" for x
    using level_write(2) [OF i1 lhl, of ?f x] that by simp
  have nl: "\<not> pool_live level_slot (bk_levels b) lh" using ps by blast
  obtain m where m: "lm_insert ops (bk_ladders b s) p lh = Inr m" "inv s m"
    "content m = (content (bk_ladders b s))(p \<mapsto> lh)"
    using insert_law [OF im nn okp none card] by blast
  have run: "level_for ops s p b = Inr (b\<lparr>bk_levels := ?l2, bk_ladders := (bk_ladders b)(s := m),
      bk_level_count := (bk_level_count b)(s := bk_level_count b s + 1)\<rparr>, lh)"
    using none al m(1) by (simp add: level_for_def find_law [OF im] write_level_def pool_ref_live [OF lhl] is_null_iff)
  have "slot_at ?l2 h = slot_at (bk_levels b) h" if "pool_live level_slot (bk_levels b) h" for h
  proof -
    have "h \<noteq> lh" using that nl by blast
    then show ?thesis using s2 [of h] sl [OF that] lv that by simp
  qed
  moreover have "fresh_level (slot_at ?l2 lh) p" using s2 [OF lhl] by (simp add: fresh_level_def)
  moreover have "pool_live level_slot ?l2 h \<longleftrightarrow> pool_live level_slot (bk_levels b) h \<or> h = lh" for h
    using pool_like_live [OF w] lv by simp
  moreover have "quarantine_limit ?l2 = 0" "length (slots ?l2) = length (slots (bk_levels b))"
    "pool_inv level_slot ?l2" "Suc (pool_room ?l2) = pool_room (bk_levels b)"
    using w rm room ln q q1 by (simp_all add: pool_like_def)
  ultimately show ?thesis
    using run m nl by (intro exI [of _ ?l2] exI [of _ m] exI [of _ lh]) simp
qed

end

section \<open>Adding an order\<close>

text \<open>
  The queue a level has once the order is in, and what a run of \<open>add\<close> does: the new
  handle, the two pools, the level map and the index after it.
\<close>

lemma queue_handles_cong:
  "(\<And>x. x \<in> set q \<Longrightarrow> handle_of b' (r_ref x) = handle_of b (r_ref x)) \<Longrightarrow> queue_handles b' q = queue_handles b q"
  by (simp add: queue_handles_def)

lemma queue_handles_append [simp]: "queue_handles b (xs @ ys) = queue_handles b xs @ queue_handles b ys"
  by (simp add: queue_handles_def)

lemma queue_handles_simps [simp]: "queue_handles b [] = []"
  "queue_handles b (x # xs) = handle_of b (r_ref x) # queue_handles b xs"
  by (simp_all add: queue_handles_def)

lemma order_ok_transfer:
  assumes "order_ok content b x"
    and "handle_of b' (r_ref x) = handle_of b (r_ref x)"
    and "pool_live order_slot (bk_orders b') (handle_of b (r_ref x))"
    and "data (slot_at (bk_orders b') (handle_of b (r_ref x))) = data (slot_at (bk_orders b) (handle_of b (r_ref x)))"
    and "content (bk_ladders b' (r_side x)) (r_price x) = content (bk_ladders b (r_side x)) (r_price x)"
  shows "order_ok content b' x"
  using assms by (simp add: order_ok_def Let_def data_eq_iff)

lemma level_ok_transfer:
  assumes "level_ok b q p lh"
    and "queue_handles b' q = queue_handles b q"
    and "pool_live level_slot (bk_levels b') lh" and "slot_at (bk_levels b') lh = slot_at (bk_levels b) lh"
    and "\<And>h. h \<in> set (queue_handles b q) \<Longrightarrow> slot_at (bk_orders b') h = slot_at (bk_orders b) h"
  shows "level_ok b' q p lh"
proof -
  have "linked (slot_at (bk_orders b')) null_handle (queue_handles b q) null_handle"
    using level_okD(7) [OF assms(1)] assms(5)
    by (subst linked_cong [where g = "slot_at (bk_orders b)"]) auto
  then show ?thesis using level_okD(1-6) [OF assms(1)] assms(2-4) by (simp add: level_ok_def Let_def)
qed

lemma note_added_best:
  assumes "\<And>s'. if nb_empty rs s' then bk_best b s' = kNoPrice else is_best s' (prices s' rs) (bk_best b s')"
    and "\<And>q. q \<in> prices s rs \<Longrightarrow> q \<noteq> kNoPrice"
  shows "if nb_empty (nb_add ref s p q ow rs) s' then bk_best (note_added s p b) s' = kNoPrice
    else is_best s' (prices s' (nb_add ref s p q ow rs)) (bk_best (note_added s p b) s')"
proof (cases "s' = s")
  case False
  with assms(1) [of s'] show ?thesis by (simp add: nb_empty_add prices_add note_added_def)
next
  case True
  show ?thesis
  proof (cases "nb_empty rs s")
    case empty: True
    then have "prices s rs = {}" by (simp add: prices_empty)
    with empty True assms(1) [of s] show ?thesis
      by (simp add: nb_empty_add prices_add note_added_def is_best_def)
  next
    case nonempty: False
    then have best: "is_best s (prices s rs) (bk_best b s)" using assms(1) [of s] by simp
    then have "bk_best b s \<noteq> kNoPrice" using assms(2) by (auto simp: is_best_def)
    with True nonempty is_best_insert [OF best, of p] show ?thesis
      by (cases "closer s p (bk_best b s)") (simp_all add: nb_empty_add prices_add note_added_def)
  qed
qed

lemma note_added_simps [simp]:
  "bk_orders (note_added s p b) = bk_orders b" "bk_levels (note_added s p b) = bk_levels b"
  "bk_index (note_added s p b) = bk_index b" "bk_ladders (note_added s p b) = bk_ladders b"
  "bk_total_qty (note_added s p b) = bk_total_qty b"
  "bk_level_count (note_added s p b) = bk_level_count b"
  "bk_order_count (note_added s p b) = bk_order_count b"
  by (simp_all add: note_added_def)

lemma note_added_best_cong:
  "bk_best b = bk_best b' \<Longrightarrow> bk_best (note_added s p b) = bk_best (note_added s p b')"
  by (simp add: note_added_def)

text \<open>A slot for the new order, holding it with empty links and no level yet.\<close>

definition new_record :: "order_ref \<Rightarrow> side \<Rightarrow> price \<Rightarrow> qty \<Rightarrow> u16 \<Rightarrow> order \<Rightarrow> order" where
  "new_record ref s p q ow x = x\<lparr>o_ref := ref, o_qty := q, o_price := p, o_prev := null_handle,
     o_next := null_handle, o_side := side_to_u8 s, o_owner := ow\<rparr>"

lemma new_order_run:
  assumes inv: "pool_inv order_slot os" and room: "0 < pool_room os" and lim: "quarantine_limit os = 0"
  shows "\<exists>os1 oh os2. allocate order_slot os = Inr (os1, oh) \<and> (\<exists>y. pool_ref order_slot os1 oh = Inr y) \<and>
    os2 = pool_write os1 oh (new_record ref s p q ow) \<and> pool_inv order_slot os2 \<and>
    quarantine_limit os2 = 0 \<and> length (slots os2) = length (slots os) \<and> Suc (pool_room os2) = pool_room os \<and>
    (\<forall>h. pool_live order_slot os2 h \<longleftrightarrow> pool_live order_slot os h \<or> h = oh) \<and>
    \<not> pool_live order_slot os oh \<and> \<not> is_null oh \<and>
    (\<exists>y. slot_at os2 oh = new_record ref s p q ow y) \<and>
    (\<forall>h. pool_live order_slot os h \<longrightarrow> slot_at os2 h = slot_at os h)"
proof -
  obtain oh os1 where al: "allocate order_slot os = Inr (os1, oh)" and i1: "pool_inv order_slot os1"
    and nn: "\<not> is_null oh" and lv: "\<And>x. pool_live order_slot os1 x \<longleftrightarrow> pool_live order_slot os x \<or> x = oh"
    and ps: "\<And>x. pool_live order_slot os x \<Longrightarrow> h_pos x \<noteq> h_pos oh"
    and sl: "\<And>x. pool_live order_slot os x \<Longrightarrow> slot_at os1 x = slot_at os x"
    and "slot_at os1 oh = set_pool_generation order_slot (h_generation oh) (slots os ! h_pos oh)"
    and rm: "pool_room os1 = pool_room os - 1" and "unat (live os1) = Suc (unat (live os))"
    and ln: "length (slots os1) = length (slots os)" and q1: "quarantine_limit os1 = quarantine_limit os"
    by (rule order_pool.allocate_ok [OF inv room]) (rule that; assumption)
  let ?f = "new_record ref s p q ow"
  have ohl: "pool_live order_slot os1 oh" by (simp add: lv)
  have w: "pool_like order_slot os1 (pool_write os1 oh ?f)"
    by (rule order_write(1) [OF i1 ohl]) (simp add: new_record_def)
  have s2: "slot_at (pool_write os1 oh ?f) x = (if x = oh then ?f (slot_at os1 oh) else slot_at os1 x)"
    if "pool_live order_slot os1 x" for x
    using order_write(2) [OF i1 ohl, of ?f x] that by (simp add: new_record_def)
  have nl: "\<not> pool_live order_slot os oh" using ps by blast
  have old: "slot_at (pool_write os1 oh ?f) h = slot_at os h" if "pool_live order_slot os h" for h
  proof -
    have "h \<noteq> oh" using that nl by blast
    then show ?thesis using s2 [of h] sl [OF that] lv that by simp
  qed
  show ?thesis
    by (intro exI [of _ os1] exI [of _ oh] exI [of _ "pool_write os1 oh ?f"])
      (use al pool_ref_live [OF ohl] w rm room ln q1 lim lv nl nn s2 [OF ohl] old
       in \<open>auto simp: pool_like_def\<close>)
qed

context level_map
begin

text \<open>The level of a price, found or created.\<close>

lemma level_for_run:
  assumes st: "level_store content inv b" and okp: "ok_price p"
    and card: "card (dom (content (bk_ladders b s))) < max_levels"
    and room: "content (bk_ladders b s) p = None \<Longrightarrow> 0 < pool_room (bk_levels b)"
  shows "\<exists>ls m lh lc. level_for ops s p b = Inr (b\<lparr>bk_levels := ls, bk_ladders := (bk_ladders b)(s := m),
      bk_level_count := lc\<rparr>, lh) \<and>
    pool_inv level_slot ls \<and> quarantine_limit ls = 0 \<and> length (slots ls) = length (slots (bk_levels b)) \<and>
    inv s m \<and> content m = (content (bk_ladders b s))(p \<mapsto> lh) \<and> pool_live level_slot ls lh \<and>
    (\<forall>h. pool_live level_slot (bk_levels b) h \<longrightarrow> pool_live level_slot ls h \<and>
       slot_at ls h = slot_at (bk_levels b) h) \<and>
    (content (bk_ladders b s) p = None \<longrightarrow>
       fresh_level (slot_at ls lh) p \<and> \<not> pool_live level_slot (bk_levels b) lh \<and>
         Suc (pool_room ls) = pool_room (bk_levels b) \<and>
         lc = (bk_level_count b)(s := bk_level_count b s + 1)) \<and>
    (content (bk_ladders b s) p \<noteq> None \<longrightarrow>
       content (bk_ladders b s) p = Some lh \<and> pool_room ls = pool_room (bk_levels b) \<and> lc = bk_level_count b)"
proof (cases "content (bk_ladders b s) p")
  case None
  from level_for_new [OF st None okp card room [OF None]] show ?thesis using None by fastforce
next
  case (Some lh)
  have "b\<lparr>bk_levels := bk_levels b, bk_ladders := (bk_ladders b)(s := bk_ladders b s),
      bk_level_count := bk_level_count b\<rparr> = b" by simp
  then show ?thesis
    using level_for_old [OF st Some] st Some
    by (intro exI [of _ "bk_levels b"] exI [of _ "bk_ladders b s"] exI [of _ lh] exI [of _ "bk_level_count b"])
      (auto simp: level_store_def)
qed

end

section \<open>The book after add\<close>

lemma side_update_total:
  "(nb_total_qty rs)(s := nb_total_qty rs s + ucast q) = nb_total_qty (nb_add ref s p q ow rs)"
  by (auto simp: nb_total_qty_def on_side_add)

lemma level_count_add:
  "nb_level_count (nb_add ref s p q ow rs) =
     (if p \<in> prices s rs then nb_level_count rs else (nb_level_count rs)(s := nb_level_count rs s + 1))"
  by (auto simp: nb_level_count_def prices_add insert_absorb)

lemma level_total_add:
  "level_total (nb_add ref s p q ow rs) = (if p \<in> prices s rs then level_total rs else Suc (level_total rs))"
  by (cases s) (auto simp: level_total_def prices_add insert_absorb)

text \<open>
  The state after the order has joined its queue, as far as \<open>add\<close> determines it, and
  that it stands for the longer list.
\<close>

lemma added_rep:
  assumes rep: "rep_book content lm_ok H b rs"
    and nonzero: "\<And>x. x \<in> set rs \<Longrightarrow> r_price x \<noteq> kNoPrice"
    and new: "ref \<notin> r_ref ` set rs" and q: "q \<noteq> 0"
    and os: "pool_inv order_slot (bk_orders b')" "quarantine_limit (bk_orders b') = 0"
      "length (slots (bk_orders b')) = length (slots (bk_orders b))"
      "Suc (pool_room (bk_orders b')) = pool_room (bk_orders b)"
    and oh: "\<not> pool_live order_slot (bk_orders b) oh" "pool_live order_slot (bk_orders b') oh"
      "data (slot_at (bk_orders b') oh) = data (new_record ref s p q ow y\<lparr>o_level := lh\<rparr>)"
    and old: "\<And>h. pool_live order_slot (bk_orders b) h \<Longrightarrow> pool_live order_slot (bk_orders b') h \<and>
      data (slot_at (bk_orders b') h) = data (slot_at (bk_orders b) h)"
    and away: "\<And>h. pool_live order_slot (bk_orders b) h \<Longrightarrow> h \<notin> set (queue_handles b (queue s p rs)) \<Longrightarrow>
      slot_at (bk_orders b') h = slot_at (bk_orders b) h"
    and link: "linked (slot_at (bk_orders b')) null_handle (queue_handles b (queue s p rs) @ [oh]) null_handle"
    and ls: "pool_inv level_slot (bk_levels b')" "quarantine_limit (bk_levels b') = 0"
      "length (slots (bk_levels b')) = length (slots (bk_levels b))"
      "pool_room (bk_levels b) = (if p \<in> prices s rs then pool_room (bk_levels b') else Suc (pool_room (bk_levels b')))"
    and lh: "pool_live level_slot (bk_levels b') lh"
      "if p \<in> prices s rs then content (bk_ladders b s) p = Some lh else \<not> pool_live level_slot (bk_levels b) lh"
    and lvl: "l_price (slot_at (bk_levels b') lh) = p"
      "l_total_qty (slot_at (bk_levels b') lh) = qsum (queue s p rs) + ucast q"
      "l_order_count (slot_at (bk_levels b') lh) = of_nat (length (queue s p rs)) + 1"
      "l_head (slot_at (bk_levels b') lh) = head_of (queue_handles b (queue s p rs) @ [oh])"
      "l_tail (slot_at (bk_levels b') lh) = oh"
    and lvls: "\<And>h. pool_live level_slot (bk_levels b) h \<Longrightarrow> pool_live level_slot (bk_levels b') h \<and>
      (h \<noteq> lh \<longrightarrow> slot_at (bk_levels b') h = slot_at (bk_levels b) h)"
    and lad: "\<And>s'. lm_ok s' (bk_ladders b' s')"
      "\<And>s'. content (bk_ladders b' s') =
         (if s' = s then (content (bk_ladders b s))(p \<mapsto> lh) else content (bk_ladders b s'))"
    and ix: "oi_inv H (bk_index b')" "oi_map (bk_index b') = (oi_map (bk_index b))(ref \<mapsto> oh)"
    and cnt: "bk_total_qty b' = (bk_total_qty b)(s := bk_total_qty b s + ucast q)"
      "bk_level_count b' = (if p \<in> prices s rs then bk_level_count b
         else (bk_level_count b)(s := bk_level_count b s + 1))"
      "bk_order_count b' = bk_order_count b + 1"
      "bk_best b' = bk_best (note_added s p b)"
  shows "rep_book content lm_ok H b' (nb_add ref s p q ow rs)"
proof -
  let ?rs = "nb_add ref s p q ow rs" and ?x = "\<lparr>r_ref = ref, r_side = s, r_price = p, r_qty = q, r_owner = ow\<rparr>"
  note st = rep_storage [OF rep] and wf = rep_wf [OF rep] and pr = rep_prices [OF rep]
  have hnd: "handle_of b' r = (if r = ref then oh else handle_of b r)" for r
    by (simp add: handle_of_def ix)
  have same: "handle_of b' (r_ref x) = handle_of b (r_ref x)" if "x \<in> set rs" for x
    using that new by (auto simp: hnd)
  have qh: "queue_handles b' (queue s' p' rs) = queue_handles b (queue s' p' rs)" for s' p'
    by (rule queue_handles_cong) (use same queue_subset in blast)
  have keep: "content (bk_ladders b' s') p' = content (bk_ladders b s') p'" if "p' \<in> prices s' rs" for s' p'
    using lh(2) that by (auto simp: lad(2))
  have "storage_ok lm_ok H b' ?rs"
    using st os ls ix(1) lad(1) by (auto simp: storage_ok_def nb_add_simps level_total_add)
  moreover have "wf_book ?rs" using wf_nb_add [OF wf new q] .
  moreover have "dom (oi_map (bk_index b')) = r_ref ` set ?rs"
    using rep_dom [OF rep] by (simp add: ix(2) nb_add_simps)
  moreover have "order_ok content b' x" if x: "x \<in> set ?rs" for x
  proof (cases "x = ?x")
    case True
    have "handle_of b' ref = oh" by (simp add: hnd)
    with True oh(2,3) show ?thesis
      by (simp add: order_ok_def Let_def data_eq_iff new_record_def lad(2))
  next
    case False
    with x have xr: "x \<in> set rs" by (simp add: nb_add_simps)
    note ok = rep_order [OF rep xr]
    have "r_price x \<in> prices (r_side x) rs" using xr by (auto simp: prices_def)
    then show ?thesis
      using order_ok_transfer [OF ok same [OF xr]] old [OF order_okD(1) [OF ok]] keep by blast
  qed
  moreover have "dom (content (bk_ladders b' s')) = prices s' ?rs" for s'
    using pr [of s'] by (auto simp: lad(2) prices_add)
  moreover have lev: "level_ok b' (queue s' p' ?rs) p' l" if l: "content (bk_ladders b' s') p' = Some l" for s' p' l
  proof (cases "s' = s \<and> p' = p")
    case True
    with l have "l = lh" by (simp add: lad(2))
    moreover have "queue_handles b' (queue s p ?rs) = queue_handles b (queue s p rs) @ [oh]"
      by (simp add: queue_add qh hnd)
    ultimately show ?thesis
      using True lh(1) lvl link by (simp add: level_ok_def Let_def queue_add)
  next
    case False
    then have l0: "content (bk_ladders b s') p' = Some l" using l by (auto simp: lad(2) split: if_splits)
    note ok = rep_level [OF rep l0]
    have "l \<noteq> lh"
    proof
      assume "l = lh"
      with lh(2) level_okD(1) [OF ok] have "content (bk_ladders b s) p = Some lh" by (auto split: if_splits)
      with l0 \<open>l = lh\<close> rep_apart [OF rep] False show False by (auto simp: levels_apart_def)
    qed
    moreover have "queue s' p' ?rs = queue s' p' rs" using False by (auto simp: queue_add)
    moreover have "slot_at (bk_orders b') h = slot_at (bk_orders b) h"
      if h: "h \<in> set (queue_handles b (queue s' p' rs))" for h
    proof -
      obtain x where x: "x \<in> set (queue s' p' rs)" "h = handle_of b (r_ref x)"
        using h by (auto simp: queue_handles_def)
      have xr: "x \<in> set rs" using x(1) by (simp add: queue_def)
      have "h \<notin> set (queue_handles b (queue s p rs))"
      proof
        assume "h \<in> set (queue_handles b (queue s p rs))"
        then obtain z where z: "z \<in> set (queue s p rs)" "h = handle_of b (r_ref z)"
          by (auto simp: queue_handles_def)
        then have "x = z" using rep_handle_inj [OF rep xr] x(2) by (simp add: queue_def)
        with x(1) z(1) False show False by (auto simp: queue_def)
      qed
      with rep_handle(2) [OF rep xr] x(2) away show ?thesis by simp
    qed
    ultimately show ?thesis
      using level_ok_transfer [OF ok qh] lvls [OF level_okD(1) [OF ok]] by simp
  qed
  moreover have "levels_apart content b'"
    unfolding levels_apart_def
  proof (intro allI impI)
    fix s1 p1 s2 p2 l
    assume a: "content (bk_ladders b' s1) p1 = Some l" "content (bk_ladders b' s2) p2 = Some l"
    have other: "l \<noteq> lh" if "content (bk_ladders b s') p' = Some l" "\<not> (s' = s \<and> p' = p)" for s' p'
    proof
      assume "l = lh"
      with lh(2) level_okD(1) [OF rep_level [OF rep that(1)]] have "content (bk_ladders b s) p = Some lh"
        by (auto split: if_splits)
      with that \<open>l = lh\<close> rep_apart [OF rep] show False by (auto simp: levels_apart_def)
    qed
    have at: "content (bk_ladders b' s') p' = Some l \<Longrightarrow>
      s' = s \<and> p' = p \<and> l = lh \<or> \<not> (s' = s \<and> p' = p) \<and> content (bk_ladders b s') p' = Some l" for s' p'
      by (auto simp: lad(2) split: if_splits)
    show "s1 = s2 \<and> p1 = p2"
      using at [OF a(1)] at [OF a(2)] other rep_apart [OF rep] unfolding levels_apart_def by blast
  qed
  moreover have "counters_ok b' ?rs"
  proof -
    have c: "bk_total_qty b = nb_total_qty rs" "bk_level_count b = nb_level_count rs"
      "bk_order_count b = of_nat (length rs)"
      and best: "\<And>s. if nb_empty rs s then bk_best b s = kNoPrice else is_best s (prices s rs) (bk_best b s)"
      using rep_counters [OF rep] by (auto simp: counters_ok_def)
    have "x \<noteq> kNoPrice" if "x \<in> prices s rs" for x using that nonzero by (auto simp: prices_def)
    note best' = note_added_best [OF best this, of s]
    have "bk_level_count b' = nb_level_count ?rs" by (simp add: cnt c level_count_add)
    moreover have "bk_total_qty b' = nb_total_qty ?rs"
      by (simp only: cnt c side_update_total [where ref = ref and p = p and ow = ow])
    moreover have "bk_order_count b' = of_nat (length ?rs)" by (simp add: cnt c nb_add_simps)
    ultimately show ?thesis using best' by (simp add: counters_ok_def cnt(4))
  qed
  ultimately show ?thesis by (simp add: rep_book_def)
qed

section \<open>The whole operation\<close>

lemma rep_live_count:
  assumes "rep_book content lm_ok H b rs"
  shows "unat (ix_live (bk_index b)) = length rs"
proof -
  have "oi_inv H (bk_index b)" using rep_storage [OF assms] by (simp add: storage_ok_def)
  then have "unat (ix_live (bk_index b)) = card (r_ref ` set rs)"
    using rep_dom [OF assms] oi_live_card(1) [of H "bk_index b"] by (simp add: oi_size_def)
  also have "\<dots> = length rs"
    using rep_wf [OF assms] distinct_card [of "map r_ref rs"] by (simp add: wf_book_def)
  finally show ?thesis .
qed

lemma level_total_le: "level_total rs \<le> length rs"
  using card_prices by (simp add: level_total_def)

context level_map
begin

abbreviation rep :: "index_hash \<Rightarrow> 'm book \<Rightarrow> resting list \<Rightarrow> bool" where
  "rep H \<equiv> rep_book content inv H"

lemma rep_ok_price:
  assumes "rep H b rs" and "x \<in> set rs"
  shows "ok_price (r_price x)" and "r_price x \<noteq> kNoPrice"
proof -
  have "inv (r_side x) (bk_ladders b (r_side x))"
    using rep_storage [OF assms(1)] by (simp add: storage_ok_def)
  then show "ok_price (r_price x)"
    using order_okD(7) [OF rep_order [OF assms]] by (rule content_ok)
  then show "r_price x \<noteq> kNoPrice" by (rule ok_price_nonzero)
qed

lemma bk_add_rep:
  assumes rep: "rep H b rs" and new: "ref \<notin> r_ref ` set rs" and q: "q \<noteq> 0" and okp: "ok_price p"
    and lim: "length rs < bk_limit b"
  shows "\<exists>b'. bk_add ops H ref s p q ow b = Inr b' \<and> rep H b' (nb_add ref s p q ow rs) \<and>
    bk_limit b' = bk_limit b"
proof -
  note st = rep_storage [OF rep]
  have room: "0 < pool_room (bk_orders b)" "0 < pool_room (bk_levels b)"
    using st lim level_total_le [of rs] by (auto simp: storage_ok_def bk_limit_def)
  have osi: "pool_inv order_slot (bk_orders b)" "quarantine_limit (bk_orders b) = 0"
    and ixi: "oi_inv H (bk_index b)"
    using st by (simp_all add: storage_ok_def)
  obtain os1 oh os2 y z where o: "allocate order_slot (bk_orders b) = Inr (os1, oh)"
    "pool_ref order_slot os1 oh = Inr z" "os2 = pool_write os1 oh (new_record ref s p q ow)"
    "pool_inv order_slot os2" "quarantine_limit os2 = 0" "length (slots os2) = length (slots (bk_orders b))"
    "Suc (pool_room os2) = pool_room (bk_orders b)"
    "\<forall>h. pool_live order_slot os2 h \<longleftrightarrow> pool_live order_slot (bk_orders b) h \<or> h = oh"
    "\<not> pool_live order_slot (bk_orders b) oh" "\<not> is_null oh" "slot_at os2 oh = new_record ref s p q ow y"
    "\<forall>h. pool_live order_slot (bk_orders b) h \<longrightarrow> slot_at os2 h = slot_at (bk_orders b) h"
    using new_order_run [OF osi(1) room(1) osi(2), of ref s p q ow] by blast
  let ?b1 = "b\<lparr>bk_orders := os2\<rparr>"
  have st1: "level_store content inv ?b1"
    using rep_level_store [OF rep] by (simp add: level_store_def levels_apart_def)
  have card: "card (dom (content (bk_ladders ?b1 s))) < max_levels"
    using storage_small(3) [OF st] rep_prices [OF rep] by simp
  have room1: "0 < pool_room (bk_levels ?b1)" using room(2) by simp
  obtain ls m lh lc where l0: "level_for ops s p ?b1 = Inr (?b1\<lparr>bk_levels := ls,
      bk_ladders := (bk_ladders ?b1)(s := m), bk_level_count := lc\<rparr>, lh)"
    "pool_inv level_slot ls" "quarantine_limit ls = 0" "length (slots ls) = length (slots (bk_levels ?b1))"
    "inv s m" "content m = (content (bk_ladders ?b1 s))(p \<mapsto> lh)" "pool_live level_slot ls lh"
    "\<forall>h. pool_live level_slot (bk_levels ?b1) h \<longrightarrow> pool_live level_slot ls h \<and>
       slot_at ls h = slot_at (bk_levels ?b1) h"
    "content (bk_ladders ?b1 s) p = None \<longrightarrow>
       fresh_level (slot_at ls lh) p \<and> \<not> pool_live level_slot (bk_levels ?b1) lh \<and>
         Suc (pool_room ls) = pool_room (bk_levels ?b1) \<and>
         lc = (bk_level_count ?b1)(s := bk_level_count ?b1 s + 1)"
    "content (bk_ladders ?b1 s) p \<noteq> None \<longrightarrow>
       content (bk_ladders ?b1 s) p = Some lh \<and> pool_room ls = pool_room (bk_levels ?b1) \<and> lc = bk_level_count ?b1"
    using level_for_run [OF st1 okp card room1] by (elim exE conjE) (rule that; assumption)
  have l: "level_for ops s p ?b1 = Inr (?b1\<lparr>bk_levels := ls,
      bk_ladders := (bk_ladders b)(s := m), bk_level_count := lc\<rparr>, lh)"
    "\<And>h. pool_live level_slot (bk_levels b) h \<Longrightarrow> pool_live level_slot ls h \<and> slot_at ls h = slot_at (bk_levels b) h"
    using l0(1,8) by simp_all
  let ?f = "\<lambda>x. x\<lparr>o_level := lh\<rparr>"
  let ?os3 = "pool_write os2 oh ?f"
  have ohl: "pool_live order_slot os2 oh" using o(8) by simp
  have w: "pool_like order_slot os2 ?os3" by (rule order_write(1) [OF o(4) ohl]) simp
  have s3: "slot_at ?os3 h = (if h = oh then ?f (slot_at os2 oh) else slot_at os2 h)"
    if "pool_live order_slot os2 h" for h
    using order_write(2) [OF o(4) ohl, of ?f h] that by simp
  have old3: "slot_at ?os3 h = slot_at (bk_orders b) h" if "pool_live order_slot (bk_orders b) h" for h
  proof -
    have "h \<noteq> oh" using that o(9) by blast
    then show ?thesis using s3 [of h] o(8,12) that by simp
  qed
  let ?b3 = "?b1\<lparr>bk_levels := ls, bk_ladders := (bk_ladders b)(s := m), bk_level_count := lc, bk_orders := ?os3\<rparr>"
  let ?q = "queue s p rs" and ?hs = "queue_handles b (queue s p rs)"
  have in_pr: "content (bk_ladders b s) p = None \<longleftrightarrow> p \<notin> prices s rs"
    using rep_prices [OF rep, of s] by auto
  have lvl0: "l_price (slot_at ls lh) = p \<and> l_total_qty (slot_at ls lh) = qsum ?q \<and>
    l_order_count (slot_at ls lh) = of_nat (length ?q) \<and> l_head (slot_at ls lh) = head_of ?hs \<and>
    l_tail (slot_at ls lh) = tail_of ?hs \<and> linked (slot_at (bk_orders b)) null_handle ?hs null_handle"
  proof (cases "content (bk_ladders b s) p")
    case None
    then have "?q = []" using in_pr prices_queue by blast
    with None l0(9) show ?thesis by (simp add: fresh_level_def)
  next
    case (Some h)
    with l0(10) have h: "h = lh" "content (bk_ladders b s) p = Some lh" by auto
    note ok = level_okD [OF rep_level [OF rep h(2)]]
    have "slot_at ls lh = slot_at (bk_levels b) lh" using l(2) [OF ok(1)] by simp
    with ok show ?thesis by simp
  qed
  have hs: "distinct ?hs" "\<forall>h \<in> set ?hs. pool_live order_slot (bk_orders b) h \<and> \<not> is_null h"
    by (rule rep_queue_handles [OF rep queue_subset wf_queue [OF rep_wf [OF rep]]])+
  have hs3: "\<forall>h \<in> set ?hs. pool_live order_slot ?os3 h \<and> \<not> is_null h" "oh \<notin> set ?hs"
    using hs(2) o(8,9) pool_like_live [OF w] by auto
  have link3: "linked (slot_at ?os3) null_handle ?hs null_handle"
    using lvl0 hs(2) old3 by (subst linked_cong [where g = "slot_at (bk_orders b)"]) auto
  have ohl3: "pool_live order_slot ?os3 oh" using ohl pool_like_live [OF w] by simp
  have new3: "o_prev (slot_at ?os3 oh) = null_handle" "o_next (slot_at ?os3 oh) = null_handle"
    using s3 [OF ohl] o(11) by (simp_all add: new_record_def)
  have b3: "pool_inv order_slot (bk_orders ?b3)" "pool_inv level_slot (bk_levels ?b3)"
    "pool_live order_slot (bk_orders ?b3) oh" "pool_live level_slot (bk_levels ?b3) lh"
    "\<forall>h \<in> set ?hs. pool_live order_slot (bk_orders ?b3) h \<and> \<not> is_null h"
    "linked (slot_at (bk_orders ?b3)) null_handle ?hs null_handle"
    "o_prev (slot_at (bk_orders ?b3) oh) = null_handle" "o_next (slot_at (bk_orders ?b3) oh) = null_handle"
    "l_head (slot_at (bk_levels ?b3) lh) = head_of ?hs" "l_tail (slot_at (bk_levels ?b3) lh) = tail_of ?hs"
    using pool_like_inv [OF w] l0(2,7) ohl3 hs3 link3 new3 lvl0 by simp_all
  obtain os4 ls4 where e: "enqueue oh lh ?b3 = Inr (?b3\<lparr>bk_orders := os4, bk_levels := ls4\<rparr>)"
    "pool_like order_slot (bk_orders ?b3) os4" "pool_like level_slot (bk_levels ?b3) ls4"
    "linked (slot_at os4) null_handle (?hs @ [oh]) null_handle"
    "\<forall>h. pool_live order_slot (bk_orders ?b3) h \<longrightarrow> data (slot_at os4 h) = data (slot_at (bk_orders ?b3) h)"
    "\<forall>h. pool_live order_slot (bk_orders ?b3) h \<longrightarrow> h \<notin> set (?hs @ [oh]) \<longrightarrow>
       slot_at os4 h = slot_at (bk_orders ?b3) h"
    "\<forall>v. pool_live level_slot (bk_levels ?b3) v \<longrightarrow> slot_at ls4 v =
       (if v = lh then (slot_at (bk_levels ?b3) lh)\<lparr>l_head := head_of (?hs @ [oh]), l_tail := oh\<rparr>
        else slot_at (bk_levels ?b3) v)"
    using enqueue_run [OF b3(1-5) hs3(2) hs(1) b3(6-10)] by (elim exE conjE) (rule that; assumption)
  let ?g = "\<lambda>v. v\<lparr>l_total_qty := l_total_qty v + ucast q, l_order_count := l_order_count v + 1\<rparr>"
  let ?ls5 = "pool_write ls4 lh ?g"
  have w4: "pool_like level_slot ls ls4" using e(3) by simp
  have lh4: "pool_live level_slot ls4 lh" using l0(7) pool_like_live [OF w4] by simp
  have w5: "pool_like level_slot ls4 ?ls5"
    by (rule level_write(1) [OF pool_like_inv [OF w4] lh4]) simp
  have w45: "pool_like level_slot ls ?ls5" by (rule pool_like_trans [OF w4 w5])
  have s4: "slot_at ls4 v = (if v = lh then (slot_at ls lh)\<lparr>l_head := head_of (?hs @ [oh]), l_tail := oh\<rparr>
      else slot_at ls v)" if "pool_live level_slot ls v" for v
    using e(7) that by simp
  have s5: "slot_at ?ls5 v = (if v = lh then ?g (slot_at ls4 lh) else slot_at ls4 v)" if "pool_live level_slot ls v" for v
    using level_write(2) [OF pool_like_inv [OF w4] lh4, of ?g v] that pool_like_live [OF w4] by simp
  note s45 = s5 [OF l0(7)] s4 [OF l0(7)]
  have ixr: "oi_map (bk_index b) ref = None" using new rep_dom [OF rep] by (metis domIff)
  have room_ix: "2 * unat (ix_live (bk_index b)) < length (ix_slots (bk_index b))"
    using rep_live_count [OF rep] lim by (auto simp: bk_limit_def)
  obtain ix where ix: "oi_insert H (bk_index b) ref oh = Inr ix" "oi_inv H ix"
    "oi_map ix = (oi_map (bk_index b))(ref \<mapsto> oh)" "length (ix_slots ix) = length (ix_slots (bk_index b))"
    using order_ix.insert_law [OF ixi o(10) room_ix ixr] by blast
  let ?b' = "note_added s p (?b3\<lparr>bk_orders := os4, bk_levels := ?ls5, bk_index := ix,
     bk_total_qty := (bk_total_qty b)(s := bk_total_qty b s + ucast q),
     bk_order_count := bk_order_count b + 1\<rparr>)"
  have run: "bk_add ops H ref s p q ow b = Inr ?b'"
    using new q rep_find [OF rep, of ref] o(1,2) l(1) e(1) ix(1)
    by (simp add: bk_add_def word_gt_0 Let_def write_order_def write_level_def
        flip: o(3) [unfolded new_record_def])
  have os4: "pool_like order_slot ?os3 os4" using e(2) by simp
  note like = pool_like_trans [OF w os4]
  have lv: "pool_live order_slot os4 h \<longleftrightarrow> pool_live order_slot (bk_orders b) h \<or> h = oh" for h
    using pool_like_live [OF like] o(8) by simp
  have dat: "data (slot_at os4 h) = data (slot_at ?os3 h)" if "pool_live order_slot os2 h" for h
    using e(5) that pool_like_live [OF w] by simp
  have keep_os: "pool_inv order_slot os4" "pool_room os4 = pool_room os2"
    "length (slots os4) = length (slots os2)" "quarantine_limit os4 = quarantine_limit os2"
    using like by (simp_all add: pool_like_def)
  have keep_ls: "pool_inv level_slot ?ls5" "pool_room ?ls5 = pool_room ls"
    "length (slots ?ls5) = length (slots ls)" "quarantine_limit ?ls5 = quarantine_limit ls"
    using w45 by (simp_all add: pool_like_def)
  have "rep H ?b' (nb_add ref s p q ow rs)"
  proof (rule added_rep [where oh = oh and lh = lh and y = y, OF rep rep_ok_price(2) [OF rep] new q])
    show "data (slot_at (bk_orders ?b') oh) = data (new_record ref s p q ow y\<lparr>o_level := lh\<rparr>)"
      using dat [OF ohl] s3 [OF ohl] o(11) by simp
    show "pool_live order_slot (bk_orders ?b') h \<and> data (slot_at (bk_orders ?b') h) = data (slot_at (bk_orders b) h)"
      if "pool_live order_slot (bk_orders b) h" for h
      using dat [of h] old3 that o(8) lv by simp
    show "slot_at (bk_orders ?b') h = slot_at (bk_orders b) h"
      if "pool_live order_slot (bk_orders b) h" "h \<notin> set ?hs" for h
      using e(6) that old3 o(8,9) pool_like_live [OF w] by auto
    show "pool_room (bk_levels b) = (if p \<in> prices s rs then pool_room (bk_levels ?b') else Suc (pool_room (bk_levels ?b')))"
      using l0(9,10) in_pr w45 by (auto simp: pool_like_def)
    show "if p \<in> prices s rs then content (bk_ladders b s) p = Some lh else \<not> pool_live level_slot (bk_levels b) lh"
      using l0(9,10) in_pr by auto
    show "pool_live level_slot (bk_levels ?b') h \<and> (h \<noteq> lh \<longrightarrow> slot_at (bk_levels ?b') h = slot_at (bk_levels b) h)"
      if "pool_live level_slot (bk_levels b) h" for h
      using l(2) [OF that] s4 s5 pool_like_live [OF w45] by simp
    show "inv s' (bk_ladders ?b' s')" for s' using l0(5) st by (simp add: storage_ok_def)
    show "content (bk_ladders ?b' s') = (if s' = s then (content (bk_ladders b s))(p \<mapsto> lh) else content (bk_ladders b s'))" for s'
      using l0(6) by simp
    show "bk_level_count ?b' = (if p \<in> prices s rs then bk_level_count b
         else (bk_level_count b)(s := bk_level_count b s + 1))"
      using l0(9,10) in_pr by auto
    show "bk_best ?b' = bk_best (note_added s p b)" by (rule note_added_best_cong) simp
  qed (use keep_os keep_ls o(5,6,7,9) l0(2-7) e(4) ix(2,3) lv s45 lvl0 pool_like_live [OF w45] in simp_all)
  moreover have "bk_limit ?b' = bk_limit b"
    using like w45 o(6) l0(4) ix(4) by (simp add: bk_limit_def pool_like_def)
  ultimately show ?thesis using run by blast
qed

text \<open>The refusals.\<close>

lemma bk_add_no_quantity: "bk_add ops H ref s p 0 ow b = Inl (BookF NoQuantity)"
  by (simp add: bk_add_def)

lemma bk_add_twice:
  assumes "rep H b rs" and "ref \<in> r_ref ` set rs" and "q \<noteq> 0"
  shows "bk_add ops H ref s p q ow b = Inl (BookF AddedTwice)"
proof -
  obtain x where "x \<in> set rs" "ref = r_ref x" using assms(2) by blast
  with rep_handle(3) [OF assms(1)] have "\<not> is_null (handle_of b ref)" by simp
  with assms(2,3) rep_find [OF assms(1), of ref] show ?thesis
    by (simp add: bk_add_def word_gt_0)
qed

text \<open>A new book stands for the empty list.\<close>

lemma book_new_rep:
  assumes o: "0 < oc" "oc \<le> kMaxCapacity" and l: "0 < lc" "lc \<le> kMaxCapacity" and i: "unat ic \<le> 2 ^ 30"
  shows "\<exists>b. book_new ops oc lc ic = Inr b \<and> rep H b [] \<and>
    min (unat oc) (min (unat lc) (unat ic)) \<le> bk_limit b"
proof -
  obtain os where os: "pool_new order_slot blank_order oc 0 = Inr os" "pool_inv order_slot os"
    "pool_room os = unat oc" "quarantine_limit os = 0" "length (slots os) = unat oc"
    by (rule order_pool.pool_new_ok [OF o])
  obtain ls where ls: "pool_new level_slot blank_level lc 0 = Inr ls" "pool_inv level_slot ls"
    "pool_room ls = unat lc" "quarantine_limit ls = 0" "length (slots ls) = unat lc"
    by (rule level_pool.pool_new_ok [OF l])
  note ix = oi_new_ok [OF i]
  let ?b = "\<lparr>bk_orders = os, bk_levels = ls, bk_index = oi_new ic, bk_ladders = lm_new ops,
     bk_total_qty = (\<lambda>_. 0), bk_level_count = (\<lambda>_. 0), bk_order_count = 0,
     bk_best = (\<lambda>_. kNoPrice), bk_best_recomputes = 0\<rparr>"
  have "rep H ?b []"
    using os ls ix new_inv
    by (simp add: rep_book_def storage_ok_def level_total_def prices_def new_content levels_apart_def
        counters_ok_def nb_empty_def nb_total_qty_def nb_level_count_def on_side_def fun_eq_iff)
  moreover have "min (unat oc) (min (unat lc) (unat ic)) \<le> bk_limit ?b"
    using os(5) ls(5) ix(4) by (auto simp: bk_limit_def min_def)
  ultimately show ?thesis using os(1) ls(1) by (intro exI [of _ ?b]) (simp add: book_new_def)
qed

end

end
