(* ===== verification/Flat_Book_Reduce.thy ===== *)
theory Flat_Book_Reduce
  imports Flat_Book_Add
begin

text \<open>
  \<open>reduce\<close>: an order that keeps a quantity shrinks in place, and one that is used up leaves
  its queue, the index and the pool, taking its level with it when it was the last there.
\<close>

section \<open>A partial reduction\<close>

lemma level_total_erase:
  assumes "wf_book rs" and "x \<in> set rs"
  shows "level_total rs = (if queue (r_side x) (r_price x) (nb_erase (r_ref x) rs) = []
     then Suc (level_total (nb_erase (r_ref x) rs)) else level_total (nb_erase (r_ref x) rs))"
proof -
  obtain k where k: "card (prices (r_side x) rs) = Suc k" "card (prices (r_side x) rs - {r_price x}) = k"
    using own_price_card [OF assms(2)] by blast
  then show ?thesis by (cases "r_side x") (simp_all add: level_total_def prices_erase [OF assms])
qed


text \<open>What \<open>reduce\<close> does before it looks at what is left.\<close>

definition reduced :: "order_handle \<Rightarrow> level_handle \<Rightarrow> side \<Rightarrow> qty \<Rightarrow> 'm book \<Rightarrow> 'm book" where
  "reduced oh lh s n b =
     write_level lh (\<lambda>v. v\<lparr>l_total_qty := l_total_qty v - ucast n\<rparr>)
       ((write_order oh (\<lambda>y. y\<lparr>o_qty := o_qty y - n\<rparr>) b)
          \<lparr>bk_total_qty := (bk_total_qty b)(s := bk_total_qty b s - ucast n)\<rparr>)"

lemma reduced_other [simp]:
  "bk_index (reduced oh lh s n b) = bk_index b" "bk_ladders (reduced oh lh s n b) = bk_ladders b"
  "bk_total_qty (reduced oh lh s n b) = (bk_total_qty b)(s := bk_total_qty b s - ucast n)"
  "bk_level_count (reduced oh lh s n b) = bk_level_count b"
  "bk_order_count (reduced oh lh s n b) = bk_order_count b" "bk_best (reduced oh lh s n b) = bk_best b"
  by (simp_all add: reduced_def write_level_def write_order_def)

lemma reduced_pools:
  assumes "pool_inv order_slot (bk_orders b)" and "pool_inv level_slot (bk_levels b)"
    and "pool_live order_slot (bk_orders b) oh" and "pool_live level_slot (bk_levels b) lh"
  shows "pool_like order_slot (bk_orders b) (bk_orders (reduced oh lh s n b))"
    and "pool_like level_slot (bk_levels b) (bk_levels (reduced oh lh s n b))"
    and "pool_live order_slot (bk_orders b) h \<Longrightarrow> slot_at (bk_orders (reduced oh lh s n b)) h =
      (if h = oh then (slot_at (bk_orders b) oh)\<lparr>o_qty := o_qty (slot_at (bk_orders b) oh) - n\<rparr>
       else slot_at (bk_orders b) h)"
    and "pool_live level_slot (bk_levels b) v \<Longrightarrow> slot_at (bk_levels (reduced oh lh s n b)) v =
      (if v = lh then (slot_at (bk_levels b) lh)\<lparr>l_total_qty := l_total_qty (slot_at (bk_levels b) lh) - ucast n\<rparr>
       else slot_at (bk_levels b) v)"
  using order_write [OF assms(1,3), of "\<lambda>y. y\<lparr>o_qty := o_qty y - n\<rparr>"]
    level_write [OF assms(2,4), of "\<lambda>v. v\<lparr>l_total_qty := l_total_qty v - ucast n\<rparr>"]
  by (simp_all add: reduced_def write_level_def write_order_def)

text \<open>The record of a resting order and its level.\<close>

lemma rep_level_of:
  assumes rep: "rep_book content lm_ok H b rs" and x: "x \<in> set rs"
  obtains lh where "content (bk_ladders b (r_side x)) (r_price x) = Some lh"
    and "o_level (slot_at (bk_orders b) (handle_of b (r_ref x))) = lh"
    and "level_ok b (queue (r_side x) (r_price x) rs) (r_price x) lh"
    and "n \<le> r_qty x \<Longrightarrow> ucast n \<le> l_total_qty (slot_at (bk_levels b) lh)"
proof -
  let ?lh = "o_level (slot_at (bk_orders b) (handle_of b (r_ref x)))" and ?q = "queue (r_side x) (r_price x) rs"
  have c: "content (bk_ladders b (r_side x)) (r_price x) = Some ?lh"
    by (rule order_okD(7) [OF rep_order [OF rep x]])
  note ok = rep_level [OF rep c]
  have "length ?q < 2 ^ 32"
    using le_less_trans [OF length_filter_le storage_small(1) [OF rep_storage [OF rep]]]
    unfolding queue_def by (rule less_trans) simp
  then have "ucast (r_qty x) \<le> qsum ?q" by (rule qsum_ge) (rule in_own_queue [OF x])
  moreover have "ucast n \<le> (ucast (r_qty x) :: u64)" if "n \<le> r_qty x"
    using that by (simp add: word_le_nat_alt unat_ucast64)
  ultimately have "n \<le> r_qty x \<Longrightarrow> ucast n \<le> l_total_qty (slot_at (bk_levels b) ?lh)"
    using level_okD(3) [OF ok] by (metis order_trans)
  with c ok show ?thesis by (intro that [OF c refl])
qed


lemma queue_handles_take [simp]: "queue_handles b (nb_take ref n q) = queue_handles b q"
  unfolding queue_handles_def by (metis (mono_tags, lifting) list.map_comp map_map nb_take_refs comp_def map_eq_conv)

lemma reduced_rep:
  assumes rep: "rep_book content lm_ok H b rs" and x: "x \<in> set rs" and n: "n \<le> r_qty x" "n \<noteq> r_qty x"
    and lh: "content (bk_ladders b (r_side x)) (r_price x) = Some lh"
  shows "rep_book content lm_ok H (reduced (handle_of b (r_ref x)) lh (r_side x) n b) (nb_take (r_ref x) n rs)"
proof -
  let ?oh = "handle_of b (r_ref x)" and ?rs = "nb_take (r_ref x) n rs"
  let ?b = "reduced ?oh lh (r_side x) n b"
  note st = rep_storage [OF rep] and wf = rep_wf [OF rep]
  have pools: "pool_inv order_slot (bk_orders b)" "pool_inv level_slot (bk_levels b)"
    using st by (simp_all add: storage_ok_def)
  note lhl = level_okD(1) [OF rep_level [OF rep lh]]
  note red = reduced_pools [OF pools rep_handle(2) [OF rep x] lhl, where n = n]
  have like: "pool_like order_slot (bk_orders b) (bk_orders ?b)" "pool_like level_slot (bk_levels b) (bk_levels ?b)"
    using red(1,2) by blast+
  have so: "slot_at (bk_orders ?b) h = (if h = ?oh then (slot_at (bk_orders b) ?oh)\<lparr>o_qty := r_qty x - n\<rparr>
      else slot_at (bk_orders b) h)" if "pool_live order_slot (bk_orders b) h" for h
    using red(3) [OF that] order_okD(3) [OF rep_order [OF rep x]] by simp
  have hnd [simp]: "handle_of ?b r = handle_of b r" for r by (simp add: handle_of_def)
  have qh [simp]: "queue_handles ?b q = queue_handles b q" for q by (simp add: queue_handles_def)
  have wf': "wf_book ?rs"
    using wf_ref_inj [OF wf _ x] n by (intro wf_nb_take wf) auto
  have "storage_ok lm_ok H ?b ?rs"
    using st like by (simp add: storage_ok_def pool_like_def level_total_def nb_take_fields)
  moreover have "order_ok content ?b y" if y: "y \<in> set ?rs" for y
  proof -
    obtain z where z: "z \<in> set rs" "y = (if r_ref z = r_ref x then z\<lparr>r_qty := r_qty z - n\<rparr> else z)"
      using y by (auto simp: nb_take_def)
    note ok = order_okD [OF rep_order [OF rep z(1)]]
    have "z = x \<longleftrightarrow> r_ref z = r_ref x" using wf_ref_inj [OF wf z(1) x] by auto
    moreover have "handle_of b (r_ref z) = ?oh \<longleftrightarrow> z = x" using rep_handle_inj [OF rep z(1) x] by auto
    ultimately show ?thesis
      using ok so [OF ok(1)] z(2) pool_like_live [OF like(1)] by (auto simp: order_ok_def Let_def)
  qed
  moreover have "level_ok ?b (queue s p ?rs) p l" if l: "content (bk_ladders ?b s) p = Some l" for s p l
  proof -
    have l0: "content (bk_ladders b s) p = Some l" using l by simp
    note ok = level_okD [OF rep_level [OF rep l0]]
    have own: "l = lh \<longleftrightarrow> s = r_side x \<and> p = r_price x"
      using rep_apart [OF rep] l0 lh unfolding levels_apart_def by (metis option.inject)
    have tot: "qsum (queue s p ?rs) = (if l = lh then qsum (queue s p rs) - ucast n else qsum (queue s p rs))"
      using qsum_take [OF wf_queue [OF wf] in_own_queue [OF x] n(1)] queue_take_other [OF wf x]
      by (auto simp: own queue_take)
    have sl: "slot_at (bk_levels ?b) l = (if l = lh then (slot_at (bk_levels b) lh)
        \<lparr>l_total_qty := l_total_qty (slot_at (bk_levels b) lh) - ucast n\<rparr> else slot_at (bk_levels b) l)"
      by (rule red(4) [OF ok(1)])
    have "linked (slot_at (bk_orders ?b)) null_handle (queue_handles b (queue s p rs)) null_handle"
    proof (subst linked_cong [where g = "slot_at (bk_orders b)"])
      fix h
      assume "h \<in> set (queue_handles b (queue s p rs))"
      then have "pool_live order_slot (bk_orders b) h"
        using rep_queue_handles(2) [OF rep queue_subset wf_queue [OF wf]] by blast
      then show "o_prev (slot_at (bk_orders ?b) h) = o_prev (slot_at (bk_orders b) h) \<and>
          o_next (slot_at (bk_orders ?b) h) = o_next (slot_at (bk_orders b) h)"
        using so by simp
    qed (rule ok(7))
    then show ?thesis
      using ok sl tot pool_like_live [OF like(2)]
      by (cases "l = lh") (simp_all add: level_ok_def Let_def queue_take)
  qed
  moreover have "counters_ok ?b ?rs"
    using rep_counters [OF rep] total_take [OF wf x n(1)]
    by (simp add: counters_ok_def nb_level_count_def [abs_def] nb_take_fields)
  ultimately show ?thesis
    using wf' rep_dom [OF rep] rep_prices [OF rep] rep_apart [OF rep]
    by (simp add: rep_book_def nb_take_fields levels_apart_def)
qed


section \<open>An order used up\<close>

lemma removed_rep:
  assumes rep: "rep_book content lm_ok H b rs" and x: "x \<in> set rs"
    and lh: "content (bk_ladders b (r_side x)) (r_price x) = Some lh"
  defines "oh \<equiv> handle_of b (r_ref x)" and "rs' \<equiv> nb_erase (r_ref x) rs"
    and "q \<equiv> queue (r_side x) (r_price x) rs" and "q' \<equiv> queue (r_side x) (r_price x) (nb_erase (r_ref x) rs)"
  assumes os: "pool_inv order_slot (bk_orders b')" "quarantine_limit (bk_orders b') = 0"
      "length (slots (bk_orders b')) = length (slots (bk_orders b))"
      "pool_room (bk_orders b') = Suc (pool_room (bk_orders b))"
    and old: "\<And>h. pool_live order_slot (bk_orders b) h \<Longrightarrow> h \<noteq> oh \<Longrightarrow> pool_live order_slot (bk_orders b') h \<and>
      data (slot_at (bk_orders b') h) = data (slot_at (bk_orders b) h)"
    and away: "\<And>h. pool_live order_slot (bk_orders b) h \<Longrightarrow> h \<notin> set (queue_handles b q) \<Longrightarrow>
      slot_at (bk_orders b') h = slot_at (bk_orders b) h"
    and link: "linked (slot_at (bk_orders b')) null_handle (queue_handles b q') null_handle"
    and ls: "pool_inv level_slot (bk_levels b')" "quarantine_limit (bk_levels b') = 0"
      "length (slots (bk_levels b')) = length (slots (bk_levels b))"
      "pool_room (bk_levels b') = (if q' = [] then Suc (pool_room (bk_levels b)) else pool_room (bk_levels b))"
    and lvl: "q' \<noteq> [] \<Longrightarrow> pool_live level_slot (bk_levels b') lh \<and>
      slot_at (bk_levels b') lh = (slot_at (bk_levels b) lh)\<lparr>l_total_qty := qsum q', l_order_count := of_nat (length q'),
        l_head := head_of (queue_handles b q'), l_tail := tail_of (queue_handles b q')\<rparr>"
    and lvls: "\<And>h. pool_live level_slot (bk_levels b) h \<Longrightarrow> h \<noteq> lh \<Longrightarrow> pool_live level_slot (bk_levels b') h \<and>
      slot_at (bk_levels b') h = slot_at (bk_levels b) h"
    and lad: "\<And>s. lm_ok s (bk_ladders b' s)"
      "\<And>s. content (bk_ladders b' s) = (if q' = [] \<and> s = r_side x
         then (content (bk_ladders b s))(r_price x := None) else content (bk_ladders b s))"
    and ix: "oi_inv H (bk_index b')" "oi_map (bk_index b') = (oi_map (bk_index b))(r_ref x := None)"
    and cnt: "bk_total_qty b' = (bk_total_qty b)(r_side x := bk_total_qty b (r_side x) - ucast (r_qty x))"
      "bk_level_count b' = (if q' = [] then (bk_level_count b)(r_side x := bk_level_count b (r_side x) - 1)
         else bk_level_count b)"
      "bk_order_count b' = bk_order_count b - 1"
    and best: "\<And>s. if prices s rs' = {} then bk_best b' s = kNoPrice else is_best s (prices s rs') (bk_best b' s)"
  shows "rep_book content lm_ok H b' rs'"
proof -
  note st = rep_storage [OF rep] and wf = rep_wf [OF rep] and pr = rep_prices [OF rep]
  have mem: "z \<in> set rs' \<longleftrightarrow> z \<in> set rs \<and> z \<noteq> x" for z
    using wf_ref_inj [OF wf _ x] x by (auto simp: rs'_def nb_erase_def)
  have hnd: "handle_of b' (r_ref z) = handle_of b (r_ref z)" if "z \<in> set rs'" for z
  proof -
    have "r_ref z \<noteq> r_ref x" using that by (simp add: rs'_def nb_erase_def)
    then show ?thesis by (simp add: handle_of_def ix)
  qed
  have qh: "queue_handles b' (queue s p rs') = queue_handles b (queue s p rs')" for s p
    by (rule queue_handles_cong) (use hnd queue_subset in blast)
  have hne: "handle_of b (r_ref z) \<noteq> oh" if "z \<in> set rs'" for z
    using rep_handle_inj [OF rep _ x] that unfolding mem oh_def by blast
  have keep: "content (bk_ladders b' (r_side z)) (r_price z) = content (bk_ladders b (r_side z)) (r_price z)"
    if z: "z \<in> set rs'" for z
  proof -
    have "z \<in> set q'" if "r_side z = r_side x" "r_price z = r_price x"
      using z that by (simp add: q'_def queue_def rs'_def)
    then show ?thesis by (auto simp: lad(2))
  qed
  have len: "length rs = Suc (length rs')" using length_nb_erase [OF wf x] by (simp add: rs'_def)
  have lt: "level_total rs = (if q' = [] then Suc (level_total rs') else level_total rs')"
    unfolding rs'_def q'_def by (rule level_total_erase [OF wf x])
  have "storage_ok lm_ok H b' rs'"
    using st os ls ix(1) lad(1) len lt by (auto simp: storage_ok_def split: if_splits)
  moreover have "wf_book rs'" unfolding rs'_def by (rule wf_nb_erase [OF wf])
  moreover have "dom (oi_map (bk_index b')) = r_ref ` set rs'"
  proof -
    have "r_ref ` set rs' = r_ref ` set rs - {r_ref x}" by (auto simp: rs'_def nb_erase_def)
    then show ?thesis using rep_dom [OF rep] by (simp add: ix(2))
  qed
  moreover have "order_ok content b' z" if z: "z \<in> set rs'" for z
  proof -
    have zr: "z \<in> set rs" using z mem by simp
    note ok = rep_order [OF rep zr]
    show ?thesis using order_ok_transfer [OF ok hnd [OF z]] old [OF order_okD(1) [OF ok] hne [OF z]] keep [OF z] by blast
  qed
  moreover have "dom (content (bk_ladders b' s)) = prices s rs'" for s
    using pr [of s] prices_erase [OF wf x, of s] by (auto simp: lad(2) rs'_def q'_def)
  moreover have "level_ok b' (queue s p rs') p l" if l: "content (bk_ladders b' s) p = Some l" for s p l
  proof (cases "s = r_side x \<and> p = r_price x")
    case True
    with l have ne: "q' \<noteq> []" and l0: "content (bk_ladders b (r_side x)) (r_price x) = Some l"
      by (auto simp: lad(2) split: if_splits)
    with lh have "l = lh" by simp
    then show ?thesis
      using True lvl [OF ne] link qh level_okD(2) [OF rep_level [OF rep lh]]
      by (simp add: level_ok_def Let_def q'_def rs'_def)
  next
    case False
    have l0: "content (bk_ladders b s) p = Some l" using l False by (auto simp: lad(2) split: if_splits)
    note ok = rep_level [OF rep l0]
    have "l \<noteq> lh" using rep_apart [OF rep] l0 lh False unfolding levels_apart_def by blast
    moreover have qq: "queue s p rs' = queue s p rs" unfolding rs'_def by (rule queue_erase_other [OF wf x False])
    moreover have "slot_at (bk_orders b') h = slot_at (bk_orders b) h"
      if h: "h \<in> set (queue_handles b (queue s p rs))" for h
    proof -
      obtain z where z: "z \<in> set (queue s p rs)" "h = handle_of b (r_ref z)"
        using h by (auto simp: queue_handles_def)
      have zr: "z \<in> set rs" using z(1) by (simp add: queue_def)
      have "h \<notin> set (queue_handles b q)"
      proof
        assume "h \<in> set (queue_handles b q)"
        then obtain w where w: "w \<in> set q" "h = handle_of b (r_ref w)" by (auto simp: queue_handles_def)
        then have "z = w" using rep_handle_inj [OF rep zr] z(2) by (simp add: queue_def q_def)
        with z(1) w(1) False show False by (auto simp: queue_def q_def)
      qed
      with rep_handle(2) [OF rep zr] z(2) away show ?thesis by simp
    qed
    ultimately show ?thesis
      using level_ok_transfer [OF ok, of b'] qh [of s p] lvls [OF level_okD(1) [OF ok]] by metis
  qed
  moreover have "levels_apart content b'"
  proof -
    have "content (bk_ladders b s) p = Some l" if "content (bk_ladders b' s) p = Some l" for s p l
      using that by (auto simp: lad(2) split: if_splits)
    with rep_apart [OF rep] show ?thesis unfolding levels_apart_def by blast
  qed
  moreover have "counters_ok b' rs'"
    using rep_counters [OF rep] cnt best [unfolded rs'_def] total_erase [OF wf x] level_count_erase [OF wf x] len
    by (simp add: counters_ok_def prices_empty [symmetric] rs'_def q'_def)
  ultimately show ?thesis by (simp add: rep_book_def)
qed


context level_map
begin

lemma clear_level_run:
  assumes im: "inv s (bk_ladders b s)" and lh: "content (bk_ladders b s) p = Some lh"
    and ls: "pool_inv level_slot (bk_levels b)" "quarantine_limit (bk_levels b) = 0" "pool_live level_slot (bk_levels b) lh"
    and v: "l_total_qty (slot_at (bk_levels b) lh) = 0" "l_head (slot_at (bk_levels b) lh) = null_handle"
      "l_tail (slot_at (bk_levels b) lh) = null_handle"
  shows "\<exists>m ls. clear_level ops s p lh b = Inr (b\<lparr>bk_ladders := (bk_ladders b)(s := m), bk_levels := ls,
      bk_level_count := (bk_level_count b)(s := bk_level_count b s - 1)\<rparr>) \<and>
    inv s m \<and> content m = (content (bk_ladders b s))(p := None) \<and>
    pool_inv level_slot ls \<and> quarantine_limit ls = 0 \<and> length (slots ls) = length (slots (bk_levels b)) \<and>
    pool_room ls = Suc (pool_room (bk_levels b)) \<and>
    (\<forall>h. pool_live level_slot (bk_levels b) h \<longrightarrow> h \<noteq> lh \<longrightarrow> pool_live level_slot ls h \<and>
       slot_at ls h = slot_at (bk_levels b) h)"
proof -
  obtain m where m: "lm_erase ops (bk_ladders b s) p = Inr m" "inv s m"
    "content m = (content (bk_ladders b s))(p := None)"
    using erase_law [OF im lh] by blast
  obtain ls where l: "pool_free level_slot (bk_levels b) lh = Inr ls" "pool_inv level_slot ls"
    "\<And>x. pool_live level_slot ls x \<longleftrightarrow> pool_live level_slot (bk_levels b) x \<and> x \<noteq> lh"
    "\<And>x. pool_live level_slot (bk_levels b) x \<Longrightarrow> x \<noteq> lh \<Longrightarrow> slot_at ls x = slot_at (bk_levels b) x"
    "pool_room (bk_levels b) \<le> pool_room ls"
    "quarantine_limit (bk_levels b) = 0 \<Longrightarrow> pool_room ls = Suc (pool_room (bk_levels b))"
    "Suc (unat (live ls)) = unat (live (bk_levels b))" "quarantine_limit ls = quarantine_limit (bk_levels b)"
    "length (slots ls) = length (slots (bk_levels b))"
    by (rule level_pool.free_ok [OF ls(1,3)]) (rule that; assumption)
  have "clear_level ops s p lh b = Inr (b\<lparr>bk_ladders := (bk_ladders b)(s := m), bk_levels := ls,
      bk_level_count := (bk_level_count b)(s := bk_level_count b s - 1)\<rparr>)"
    using v m(1) l(1) by (simp add: clear_level_def)
  then show ?thesis using m(2,3) l(2-4,9) l(6) [OF ls(2)] l(8) ls(2) by (intro exI [of _ m] exI [of _ ls]) simp
qed

lemma note_removed_run:
  assumes im: "inv s (bk_ladders b s)" and best: "is_best s (insert p (dom (content (bk_ladders b s)))) (bk_best b s)"
    and gone: "p \<notin> dom (content (bk_ladders b s))"
  shows "\<exists>n q. note_removed ops s p b = Inr (b\<lparr>bk_best_recomputes := n, bk_best := (bk_best b)(s := q)\<rparr>) \<and>
    (if dom (content (bk_ladders b s)) = {} then q = kNoPrice else is_best s (dom (content (bk_ladders b s))) q)"
proof (cases "p = bk_best b s")
  case False
  let ?P = "dom (content (bk_ladders b s))"
  have "is_best s ?P (bk_best b s)" using is_best_remove [OF best] False by metis
  moreover from this have "?P \<noteq> {}" by (auto simp: is_best_def)
  moreover have "note_removed ops s p b = Inr (b\<lparr>bk_best_recomputes := bk_best_recomputes b,
      bk_best := (bk_best b)(s := bk_best b s)\<rparr>)"
    using False by (simp add: note_removed_def)
  ultimately show ?thesis by metis
next
  case True
  show ?thesis
  proof (cases "content (bk_ladders b s) = Map.empty")
    case e: True
    then have "lm_empty ops (bk_ladders b s)" using empty_law [OF im] by simp
    with True e show ?thesis
      by (intro exI [of _ "bk_best_recomputes b + 1"] exI [of _ kNoPrice]) (simp add: note_removed_def)
  next
    case ne: False
    then obtain q where q: "lm_best ops (bk_ladders b s) = Inr q" "is_best s (dom (content (bk_ladders b s))) q"
      using best_law [OF im] by blast
    have "\<not> lm_empty ops (bk_ladders b s)" using empty_law [OF im] ne by simp
    with True ne q show ?thesis
      by (intro exI [of _ "bk_best_recomputes b + 1"] exI [of _ q]) (simp add: note_removed_def)
  qed
qed

text \<open>The two steps that depend on whether the level is now empty, as one each.\<close>

lemma maybe_clear_run:
  assumes im: "\<And>s'. inv s' (bk_ladders b s')" and lh: "content (bk_ladders b s) p = Some lh"
    and ls: "pool_inv level_slot (bk_levels b)" "quarantine_limit (bk_levels b) = 0" "pool_live level_slot (bk_levels b) lh"
    and v: "cleared \<Longrightarrow> l_total_qty (slot_at (bk_levels b) lh) = 0 \<and> l_head (slot_at (bk_levels b) lh) = null_handle \<and>
      l_tail (slot_at (bk_levels b) lh) = null_handle"
  shows "\<exists>lad ls lc. (if cleared then clear_level ops s p lh b else Inr b) =
      Inr (b\<lparr>bk_ladders := lad, bk_levels := ls, bk_level_count := lc\<rparr>) \<and>
    (\<forall>s'. inv s' (lad s')) \<and>
    (\<forall>s'. content (lad s') = (if cleared \<and> s' = s then (content (bk_ladders b s'))(p := None) else content (bk_ladders b s'))) \<and>
    pool_inv level_slot ls \<and> quarantine_limit ls = 0 \<and> length (slots ls) = length (slots (bk_levels b)) \<and>
    pool_room ls = (if cleared then Suc (pool_room (bk_levels b)) else pool_room (bk_levels b)) \<and>
    (\<forall>h. pool_live level_slot (bk_levels b) h \<longrightarrow> \<not> (cleared \<and> h = lh) \<longrightarrow> pool_live level_slot ls h \<and>
       slot_at ls h = slot_at (bk_levels b) h) \<and>
    lc = (if cleared then (bk_level_count b)(s := bk_level_count b s - 1) else bk_level_count b)"
proof (cases cleared)
  case True
  then obtain m ls' where r: "clear_level ops s p lh b = Inr (b\<lparr>bk_ladders := (bk_ladders b)(s := m), bk_levels := ls',
      bk_level_count := (bk_level_count b)(s := bk_level_count b s - 1)\<rparr>)"
    "inv s m" "content m = (content (bk_ladders b s))(p := None)"
    "pool_inv level_slot ls'" "quarantine_limit ls' = 0" "length (slots ls') = length (slots (bk_levels b))"
    "pool_room ls' = Suc (pool_room (bk_levels b))"
    "\<forall>h. pool_live level_slot (bk_levels b) h \<longrightarrow> h \<noteq> lh \<longrightarrow> pool_live level_slot ls' h \<and>
       slot_at ls' h = slot_at (bk_levels b) h"
    using clear_level_run [OF im lh ls] v by blast
  show ?thesis
    by (rule exI [of _ "(bk_ladders b)(s := m)"], rule exI [of _ ls'],
        rule exI [of _ "(bk_level_count b)(s := bk_level_count b s - 1)"])
      (use True r im in simp)
next
  case False
  then show ?thesis
    by (intro exI [of _ "bk_ladders b"] exI [of _ "bk_levels b"] exI [of _ "bk_level_count b"]) (simp add: im ls)
qed

lemma maybe_removed_run:
  assumes im: "\<And>s'. inv s' (bk_ladders b s')" and dom: "\<And>s'. dom (content (bk_ladders b s')) = P' s'"
    and best: "\<And>s'. if P s' = {} then bk_best b s' = kNoPrice else is_best s' (P s') (bk_best b s')"
    and P: "\<And>s'. P' s' = (if cleared \<and> s' = s then P s' - {p} else P s')" and p: "p \<in> P s"
  shows "\<exists>n f. (if cleared then note_removed ops s p b else Inr b) =
      Inr (b\<lparr>bk_best_recomputes := n, bk_best := f\<rparr>) \<and>
    (\<forall>s'. if P' s' = {} then f s' = kNoPrice else is_best s' (P' s') (f s'))"
proof (cases cleared)
  case True
  have "P s \<noteq> {}" using p by blast
  moreover have "insert p (P' s) = P s" using True p by (auto simp: P)
  ultimately have "is_best s (insert p (P' s)) (bk_best b s)" using best [of s] by simp
  moreover have "p \<notin> P' s" using True by (simp add: P)
  ultimately obtain n q where nq: "note_removed ops s p b = Inr (b\<lparr>bk_best_recomputes := n, bk_best := (bk_best b)(s := q)\<rparr>)"
    "if P' s = {} then q = kNoPrice else is_best s (P' s) q"
    using note_removed_run [OF im, of s p, unfolded dom] by blast
  have "if P' s' = {} then ((bk_best b)(s := q)) s' = kNoPrice else is_best s' (P' s') (((bk_best b)(s := q)) s')" for s'
  proof (cases "s' = s")
    case False
    then have "P' s' = P s'" by (simp add: P)
    with False best [of s'] show ?thesis by simp
  qed (use nq(2) in simp)
  then have "\<forall>s'. if P' s' = {} then ((bk_best b)(s := q)) s' = kNoPrice
    else is_best s' (P' s') (((bk_best b)(s := q)) s')" by blast
  moreover have "(if cleared then note_removed ops s p b else Inr b) =
      Inr (b\<lparr>bk_best_recomputes := n, bk_best := (bk_best b)(s := q)\<rparr>)" using nq(1) True by simp
  ultimately show ?thesis by blast
next
  case False
  then show ?thesis
    using best by (intro exI [of _ "bk_best_recomputes b"] exI [of _ "bk_best b"]) (simp add: P)
qed

end

text \<open>The part of \<open>reduce\<close> after the early return.\<close>

definition reduce_rest :: "'m level_ops \<Rightarrow> index_hash \<Rightarrow> order_handle \<Rightarrow> level_handle \<Rightarrow> side \<Rightarrow> price \<Rightarrow>
    'm book \<Rightarrow> failure + 'm book" where
  "reduce_rest L H oh lh side price b3 =
     andthen (unlink oh lh b3) (\<lambda>b4.
     andthen (oi_erase H (bk_index b4) (o_ref (slot_at (bk_orders b4) oh))) (\<lambda>ix.
     let b5 = b4\<lparr>bk_index := ix, bk_order_count := bk_order_count b4 - 1\<rparr>;
         level_cleared = (l_order_count (slot_at (bk_levels b5) lh) = 0) in
     andthen (if level_cleared then clear_level L side price lh b5 else Inr b5) (\<lambda>b6.
     andthen (pool_free order_slot (bk_orders b6) oh) (\<lambda>orders.
     let b7 = b6\<lparr>bk_orders := orders\<rparr> in
     if level_cleared then note_removed L side price b7 else Inr b7))))"

lemma bk_reduce_front:
  assumes rep: "rep_book content lm_ok H b rs" and x: "x \<in> set rs" and n: "n \<le> r_qty x"
    and lh: "content (bk_ladders b (r_side x)) (r_price x) = Some lh"
  defines "oh \<equiv> handle_of b (r_ref x)"
  shows "bk_reduce L H oh n b =
    (if n \<noteq> r_qty x then Inr (reduced oh lh (r_side x) n b)
     else reduce_rest L H oh lh (r_side x) (r_price x) (reduced oh lh (r_side x) n b))"
proof -
  note ok = order_okD [OF rep_order [OF rep x], folded oh_def]
  note lok = level_okD [OF rep_level [OF rep lh]]
  have pools: "pool_inv order_slot (bk_orders b)" "pool_inv level_slot (bk_levels b)"
    using rep_storage [OF rep] by (simp_all add: storage_ok_def)
  have lh': "o_level (slot_at (bk_orders b) oh) = lh" using ok(7) lh by simp
  have le: "ucast n \<le> l_total_qty (slot_at (bk_levels b) lh)"
    by (rule rep_level_of [OF rep x, of n]) (use n lh in simp)
  have q: "o_qty (slot_at (bk_orders (reduced oh lh (r_side x) n b)) oh) = r_qty x - n"
    using reduced_pools(3) [OF pools ok(1) lok(1) ok(1), of "r_side x" n] ok(3) by simp
  show ?thesis
    using ok(3-5) lh' le q
    by (simp add: bk_reduce_def pool_ref_live [OF ok(1)] pool_ref_live [OF lok(1)] Let_def reduce_rest_def
        write_order_def write_level_def reduced_def cong: if_cong)
qed


context level_map
begin

lemma reduce_rest_run:
  assumes rep: "rep H b rs" and x: "x \<in> set rs" and lh: "content (bk_ladders b (r_side x)) (r_price x) = Some lh"
  defines "oh \<equiv> handle_of b (r_ref x)"
  shows "\<exists>b'. reduce_rest ops H oh lh (r_side x) (r_price x) (reduced oh lh (r_side x) (r_qty x) b) = Inr b' \<and>
    rep H b' (nb_erase (r_ref x) rs) \<and> bk_limit b' = bk_limit b"
proof -
  let ?s = "r_side x" and ?p = "r_price x"
  let ?q = "queue ?s ?p rs" and ?rs = "nb_erase (r_ref x) rs"
  let ?q' = "queue ?s ?p ?rs"
  note st = rep_storage [OF rep] and wf = rep_wf [OF rep]
  note ok = order_okD [OF rep_order [OF rep x], folded oh_def] and lok = level_okD [OF rep_level [OF rep lh]]
  have pools: "pool_inv order_slot (bk_orders b)" "pool_inv level_slot (bk_levels b)"
    "quarantine_limit (bk_orders b) = 0" "quarantine_limit (bk_levels b) = 0"
    and im: "\<And>s'. inv s' (bk_ladders b s')" and ixi: "oi_inv H (bk_index b)"
    using st by (simp_all add: storage_ok_def)
  define b3 where "b3 = reduced oh lh ?s (r_qty x) b"
  note red = reduced_pools [OF pools(1,2) ok(1) lok(1), where n = "r_qty x" and s = ?s, folded b3_def]
  have b3 [simp]: "bk_index b3 = bk_index b" "bk_ladders b3 = bk_ladders b"
    "bk_total_qty b3 = (bk_total_qty b)(?s := bk_total_qty b ?s - ucast (r_qty x))"
    "bk_level_count b3 = bk_level_count b" "bk_order_count b3 = bk_order_count b" "bk_best b3 = bk_best b"
    by (simp_all add: b3_def)
  have live3 [simp]: "pool_live order_slot (bk_orders b3) h \<longleftrightarrow> pool_live order_slot (bk_orders b) h"
    "pool_live level_slot (bk_levels b3) v \<longleftrightarrow> pool_live level_slot (bk_levels b) v" for h v
    using pool_like_live [OF red(1)] pool_like_live [OF red(2)] by auto
  obtain xs ys where q: "?q = xs @ x # ys" and q': "?q' = xs @ ys"
    using split_at [OF wf_queue [OF wf] in_own_queue [OF x]] by (metis queue_erase)
  let ?hx = "queue_handles b xs" and ?hy = "queue_handles b ys"
  have hq: "queue_handles b ?q = ?hx @ oh # ?hy" by (simp add: q oh_def)
  have hs: "distinct (?hx @ oh # ?hy)" "\<forall>h \<in> set (?hx @ oh # ?hy). pool_live order_slot (bk_orders b) h \<and> \<not> is_null h"
    using rep_queue_handles [OF rep queue_subset wf_queue [OF wf], of ?s ?p] by (simp_all only: hq)
  have link3: "linked (slot_at (bk_orders b3)) null_handle (?hx @ oh # ?hy) null_handle"
    using lok(7) hs(2) red(3) unfolding hq by (subst linked_cong [where g = "slot_at (bk_orders b)"]) auto
  have lv3: "slot_at (bk_levels b3) lh = (slot_at (bk_levels b) lh)\<lparr>l_total_qty := qsum ?q'\<rparr>"
    using red(4) [OF lok(1)] lok(3) qsum_erase [OF wf_queue [OF wf] in_own_queue [OF x]]
    by (simp add: queue_erase)
  have "\<exists>os' ls'. unlink oh lh b3 = Inr (b3\<lparr>bk_orders := os', bk_levels := ls'\<rparr>) \<and>
    pool_like order_slot (bk_orders b3) os' \<and> pool_like level_slot (bk_levels b3) ls' \<and>
    linked (slot_at os') null_handle (?hx @ ?hy) null_handle \<and>
    (\<forall>h. pool_live order_slot (bk_orders b3) h \<longrightarrow> data (slot_at os' h) = data (slot_at (bk_orders b3) h)) \<and>
    (\<forall>h. pool_live order_slot (bk_orders b3) h \<longrightarrow> h \<notin> set (?hx @ ?hy) \<longrightarrow>
       slot_at os' h = slot_at (bk_orders b3) h) \<and>
    (\<forall>v. pool_live level_slot (bk_levels b3) v \<longrightarrow> slot_at ls' v =
       (if v = lh then (slot_at (bk_levels b3) lh)\<lparr>l_head := head_of (?hx @ ?hy), l_tail := tail_of (?hx @ ?hy),
          l_order_count := l_order_count (slot_at (bk_levels b3) lh) - 1\<rparr>
        else slot_at (bk_levels b3) v))"
    by (rule unlink_run) (use red(1,2) ok(1) lok(1,5,6) hs link3 lv3 hq in \<open>simp_all add: pool_like_inv\<close>)
  then obtain os4 ls4 where u: "unlink oh lh b3 = Inr (b3\<lparr>bk_orders := os4, bk_levels := ls4\<rparr>)"
    "pool_like order_slot (bk_orders b3) os4" "pool_like level_slot (bk_levels b3) ls4"
    "linked (slot_at os4) null_handle (?hx @ ?hy) null_handle"
    "\<And>h. pool_live order_slot (bk_orders b) h \<Longrightarrow> data (slot_at os4 h) = data (slot_at (bk_orders b3) h)"
    "\<And>h. pool_live order_slot (bk_orders b) h \<Longrightarrow> h \<notin> set (?hx @ ?hy) \<Longrightarrow> slot_at os4 h = slot_at (bk_orders b3) h"
    "\<And>v. pool_live level_slot (bk_levels b) v \<Longrightarrow> slot_at ls4 v =
       (if v = lh then (slot_at (bk_levels b3) lh)\<lparr>l_head := head_of (?hx @ ?hy), l_tail := tail_of (?hx @ ?hy),
          l_order_count := l_order_count (slot_at (bk_levels b3) lh) - 1\<rparr>
        else slot_at (bk_levels b3) v)"
    unfolding live3 by blast
  have like4: "pool_like order_slot (bk_orders b) os4" "pool_like level_slot (bk_levels b) ls4"
    using red(1,2) u(2,3) by (auto intro: pool_like_trans)
  have ohl4: "pool_live order_slot os4 oh" and lhl4: "pool_live level_slot ls4 lh"
    using ok(1) lok(1) like4 by (simp_all add: pool_like_live)
  have lv4: "slot_at ls4 lh = (slot_at (bk_levels b) lh)\<lparr>l_total_qty := qsum ?q', l_order_count := of_nat (length ?q'),
      l_head := head_of (queue_handles b ?q'), l_tail := tail_of (queue_handles b ?q')\<rparr>"
    using u(7) [OF lok(1)] lv3 lok(4) by (simp add: q q')
  have small: "length ?q' < 2 ^ 32"
    using storage_small(1) [OF st] length_nb_erase [OF wf x] length_filter_le [of _ ?rs]
    unfolding queue_def by (rule_tac le_less_trans [OF length_filter_le]) simp
  have zero: "l_order_count (slot_at ls4 lh) = 0 \<longleftrightarrow> ?q' = []"
  proof -
    have "(of_nat (length ?q') :: u32) = 0 \<longleftrightarrow> length ?q' = 0"
      using unat_eq_zero [of "of_nat (length ?q') :: u32"] by (simp only: unat_of_nat_small [OF small])
    moreover have "l_order_count (slot_at ls4 lh) = of_nat (length ?q')" by (simp add: lv4)
    ultimately show ?thesis by (simp only: length_0_conv)
  qed
  have ref4: "o_ref (slot_at os4 oh) = r_ref x"
    using u(5) [OF ok(1)] red(3) [OF ok(1)] ok(2) by (simp add: data_eq_iff)
  have ixo: "oi_map (bk_index b) (r_ref x) = Some oh" using rep_handle(1) [OF rep x] by (simp add: oh_def)
  obtain ix where ix: "oi_erase H (bk_index b) (r_ref x) = Inr ix" "oi_inv H ix"
    "oi_map ix = (oi_map (bk_index b))(r_ref x := None)" "length (ix_slots ix) = length (ix_slots (bk_index b))"
    using order_ix.erase_law [OF ixi ixo] by blast
  define b5 where "b5 = b3\<lparr>bk_orders := os4, bk_levels := ls4, bk_index := ix, bk_order_count := bk_order_count b - 1\<rparr>"
  have b5: "bk_ladders b5 = bk_ladders b" "bk_levels b5 = ls4" "bk_orders b5 = os4" "bk_level_count b5 = bk_level_count b"
    by (simp_all add: b5_def)
  have "\<exists>lad ls lc. (if ?q' = [] then clear_level ops ?s ?p lh b5 else Inr b5) =
      Inr (b5\<lparr>bk_ladders := lad, bk_levels := ls, bk_level_count := lc\<rparr>) \<and>
    (\<forall>s'. inv s' (lad s')) \<and>
    (\<forall>s'. content (lad s') = (if ?q' = [] \<and> s' = ?s then (content (bk_ladders b5 s'))(?p := None) else content (bk_ladders b5 s'))) \<and>
    pool_inv level_slot ls \<and> quarantine_limit ls = 0 \<and> length (slots ls) = length (slots (bk_levels b5)) \<and>
    pool_room ls = (if ?q' = [] then Suc (pool_room (bk_levels b5)) else pool_room (bk_levels b5)) \<and>
    (\<forall>h. pool_live level_slot (bk_levels b5) h \<longrightarrow> \<not> (?q' = [] \<and> h = lh) \<longrightarrow> pool_live level_slot ls h \<and>
       slot_at ls h = slot_at (bk_levels b5) h) \<and>
    lc = (if ?q' = [] then (bk_level_count b5)(?s := bk_level_count b5 ?s - 1) else bk_level_count b5)"
    by (rule maybe_clear_run)
      (use im lh lhl4 like4 pools lv4 in \<open>auto simp: b5 pool_like_def\<close>)
  then obtain lad ls6 lc where c: "(if ?q' = [] then clear_level ops ?s ?p lh b5 else Inr b5) =
      Inr (b5\<lparr>bk_ladders := lad, bk_levels := ls6, bk_level_count := lc\<rparr>)" "\<And>s'. inv s' (lad s')"
    "\<And>s'. content (lad s') = (if ?q' = [] \<and> s' = ?s then (content (bk_ladders b s'))(?p := None) else content (bk_ladders b s'))"
    "pool_inv level_slot ls6" "quarantine_limit ls6 = 0" "length (slots ls6) = length (slots ls4)"
    "pool_room ls6 = (if ?q' = [] then Suc (pool_room ls4) else pool_room ls4)"
    "\<And>h. pool_live level_slot ls4 h \<Longrightarrow> \<not> (?q' = [] \<and> h = lh) \<Longrightarrow> pool_live level_slot ls6 h \<and> slot_at ls6 h = slot_at ls4 h"
    "lc = (if ?q' = [] then (bk_level_count b)(?s := bk_level_count b ?s - 1) else bk_level_count b)"
    unfolding b5 by blast
  obtain os7 where f: "pool_free order_slot os4 oh = Inr os7" "pool_inv order_slot os7"
    "\<And>x. pool_live order_slot os7 x \<longleftrightarrow> pool_live order_slot os4 x \<and> x \<noteq> oh"
    "\<And>x. pool_live order_slot os4 x \<Longrightarrow> x \<noteq> oh \<Longrightarrow> slot_at os7 x = slot_at os4 x"
    "pool_room os4 \<le> pool_room os7" "quarantine_limit os4 = 0 \<Longrightarrow> pool_room os7 = Suc (pool_room os4)"
    "Suc (unat (live os7)) = unat (live os4)" "quarantine_limit os7 = quarantine_limit os4"
    "length (slots os7) = length (slots os4)"
    by (rule order_pool.free_ok [OF pool_like_inv [OF like4(1)] ohl4]) (rule that; assumption)
  let ?b7 = "b5\<lparr>bk_ladders := lad, bk_levels := ls6, bk_level_count := lc, bk_orders := os7\<rparr>"
  have P: "prices s' ?rs = (if ?q' = [] \<and> s' = ?s then prices s' rs - {?p} else prices s' rs)" for s'
    using prices_erase [OF wf x, of s'] by auto
  have own: "?p \<in> prices ?s rs" using x by (auto simp: prices_def)
  have "\<exists>n g. (if ?q' = [] then note_removed ops ?s ?p ?b7 else Inr ?b7) =
      Inr (?b7\<lparr>bk_best_recomputes := n, bk_best := g\<rparr>) \<and>
    (\<forall>s'. if prices s' ?rs = {} then g s' = kNoPrice else is_best s' (prices s' ?rs) (g s'))"
  proof (rule maybe_removed_run [OF _ _ _ P own])
    show "inv s' (bk_ladders ?b7 s')" for s' using c(2) by simp
    show "dom (content (bk_ladders ?b7 s')) = prices s' ?rs" for s'
      using rep_prices [OF rep, of s'] by (auto simp: c(3) P)
    show "if prices s' rs = {} then bk_best ?b7 s' = kNoPrice else is_best s' (prices s' rs) (bk_best ?b7 s')" for s'
      using rep_counters [OF rep] by (simp add: counters_ok_def b5_def prices_empty)
  qed
  then obtain n g where g: "(if ?q' = [] then note_removed ops ?s ?p ?b7 else Inr ?b7) =
      Inr (?b7\<lparr>bk_best_recomputes := n, bk_best := g\<rparr>)"
    "\<And>s'. if prices s' ?rs = {} then g s' = kNoPrice else is_best s' (prices s' ?rs) (g s')"
    by blast
  let ?b8 = "?b7\<lparr>bk_best_recomputes := n, bk_best := g\<rparr>"
  have run: "reduce_rest ops H oh lh ?s ?p b3 = Inr ?b8"
    using u(1) ix(1) ref4 zero c(1) f(1) g(1)
    by (simp add: reduce_rest_def Let_def b5_def cong: if_cong)
  have "rep H ?b8 ?rs"
  proof (rule removed_rep [OF rep x lh, folded oh_def])
    show "pool_live order_slot (bk_orders ?b8) h \<and> data (slot_at (bk_orders ?b8) h) = data (slot_at (bk_orders b) h)"
      if "pool_live order_slot (bk_orders b) h" "h \<noteq> oh" for h
      using that f(3,4) u(5) red(3) pool_like_live [OF like4(1)] by simp
    show "slot_at (bk_orders ?b8) h = slot_at (bk_orders b) h"
      if "pool_live order_slot (bk_orders b) h" "h \<notin> set (queue_handles b ?q)" for h
      using that f(4) u(6) red(3) pool_like_live [OF like4(1)] unfolding hq by auto
    show "linked (slot_at (bk_orders ?b8)) null_handle (queue_handles b ?q') null_handle"
    proof -
      have "slot_at os7 h = slot_at os4 h" if "h \<in> set (?hx @ ?hy)" for h
      proof (rule f(4))
        show "pool_live order_slot os4 h" using that hs(2) pool_like_live [OF like4(1)] by auto
        show "h \<noteq> oh" using that hs(1) by auto
      qed
      then show ?thesis
        using u(4) by (subst linked_cong [where g = "slot_at os4"]) (simp_all add: q')
    qed
    show "pool_live level_slot (bk_levels ?b8) lh \<and>
      slot_at (bk_levels ?b8) lh = (slot_at (bk_levels b) lh)\<lparr>l_total_qty := qsum ?q', l_order_count := of_nat (length ?q'),
        l_head := head_of (queue_handles b ?q'), l_tail := tail_of (queue_handles b ?q')\<rparr>" if "?q' \<noteq> []"
      using c(8) [OF lhl4] that lv4 by simp
    show "pool_live level_slot (bk_levels ?b8) h \<and> slot_at (bk_levels ?b8) h = slot_at (bk_levels b) h"
      if "pool_live level_slot (bk_levels b) h" "h \<noteq> lh" for h
      using that c(8) [of h] u(7) red(4) pool_like_live [OF like4(2)] by simp
  qed (use f c ix g like4 pools ohl4 in \<open>simp_all add: pool_like_def b5_def\<close>)
  moreover have "bk_limit ?b8 = bk_limit b"
    using like4 f(9) c(6) ix(4) by (simp add: bk_limit_def pool_like_def b5_def)
  ultimately show ?thesis using run by (auto simp: b3_def)
qed

end

end
