(* ===== verification/Book_Spec.thy ===== *)
theory Book_Spec
  imports Naive_Book Hash
begin

text \<open>
  The contract of an order book: the members its users call (\<open>book_ops\<close>), what each of them
  does on the list of resting orders, the refusals included (\<open>naive_ops\<close>), and the locale
  \<open>order_book\<close> of the implementations that agree with it. \<open>rep b rs\<close> says that the book
  \<open>b\<close> stands for the list \<open>rs\<close>; \<open>limit\<close> is the number of orders it has room for and
  \<open>ok_price\<close> the prices it accepts.
\<close>

section \<open>The members\<close>

record 'b book_ops =
  bo_add :: "order_ref \<Rightarrow> side \<Rightarrow> price \<Rightarrow> qty \<Rightarrow> u16 \<Rightarrow> 'b \<Rightarrow> failure + 'b"
  bo_cancel :: "order_ref \<Rightarrow> qty \<Rightarrow> 'b \<Rightarrow> failure + 'b"
  bo_execute :: "order_ref \<Rightarrow> qty \<Rightarrow> 'b \<Rightarrow> failure + 'b \<times> qty"
  bo_remove :: "order_ref \<Rightarrow> 'b \<Rightarrow> failure + 'b"
  bo_replace :: "order_ref \<Rightarrow> order_ref \<Rightarrow> price \<Rightarrow> qty \<Rightarrow> 'b \<Rightarrow> failure + 'b"
  bo_empty :: "'b \<Rightarrow> side \<Rightarrow> bool"
  bo_best :: "'b \<Rightarrow> side \<Rightarrow> price"
  bo_qty_at :: "'b \<Rightarrow> side \<Rightarrow> price \<Rightarrow> failure + u64"
  bo_orders_at :: "'b \<Rightarrow> side \<Rightarrow> price \<Rightarrow> failure + u32"
  bo_total_qty :: "'b \<Rightarrow> side \<Rightarrow> u64"
  bo_level_count :: "'b \<Rightarrow> side \<Rightarrow> u32"
  bo_order_count :: "'b \<Rightarrow> u32"
  bo_count :: "'b \<Rightarrow> nat"
  bo_contains :: "'b \<Rightarrow> order_ref \<Rightarrow> failure + bool"
  bo_side_of :: "'b \<Rightarrow> order_ref \<Rightarrow> failure + side"
  bo_price_of :: "'b \<Rightarrow> order_ref \<Rightarrow> failure + price"
  bo_qty_of :: "'b \<Rightarrow> order_ref \<Rightarrow> failure + qty"
  bo_owner_of :: "'b \<Rightarrow> order_ref \<Rightarrow> failure + u16"
  bo_front_at :: "'b \<Rightarrow> side \<Rightarrow> price \<Rightarrow> failure + order_ref"
  bo_levels :: "'b \<Rightarrow> side \<Rightarrow> failure + (price \<times> u64 \<times> u32 \<times> order_ref list) list"
  bo_validate :: "'b \<Rightarrow> failure + unit"

section \<open>The specification\<close>

definition sb_add :: "order_ref \<Rightarrow> side \<Rightarrow> price \<Rightarrow> qty \<Rightarrow> u16 \<Rightarrow> naive_book \<Rightarrow> failure + naive_book" where
  "sb_add ref s p q ow rs =
     (if q = 0 then Inl (BookF NoQuantity)
      else if nb_contains rs ref then Inl (BookF AddedTwice)
      else Inr (nb_add ref s p q ow rs))"

text \<open>The resting order of a reference, with the message of the caller when there is none.\<close>

definition sb_require :: "naive_book \<Rightarrow> order_ref \<Rightarrow> book_failure \<Rightarrow> failure + resting" where
  "sb_require rs ref what = (case nb_find rs ref of None \<Rightarrow> Inl (BookF what) | Some x \<Rightarrow> Inr x)"

definition sb_cancel :: "order_ref \<Rightarrow> qty \<Rightarrow> naive_book \<Rightarrow> failure + naive_book" where
  "sb_cancel ref n rs =
     andthen (sb_require rs ref CancelMissing) (\<lambda>x.
       if n \<le> r_qty x then Inr (nb_cancel ref n rs) else Inl (BookF CancelTooMuch))"

definition sb_execute :: "order_ref \<Rightarrow> qty \<Rightarrow> naive_book \<Rightarrow> failure + naive_book \<times> qty" where
  "sb_execute ref n rs =
     andthen (sb_require rs ref ExecuteMissing) (\<lambda>x.
       if n \<le> r_qty x then Inr (nb_cancel ref n rs, n) else Inl (BookF ExecuteTooMuch))"

definition sb_remove :: "order_ref \<Rightarrow> naive_book \<Rightarrow> failure + naive_book" where
  "sb_remove ref rs = andthen (sb_require rs ref DeleteMissing) (\<lambda>x. Inr (nb_erase ref rs))"

definition sb_replace :: "order_ref \<Rightarrow> order_ref \<Rightarrow> price \<Rightarrow> qty \<Rightarrow> naive_book \<Rightarrow> failure + naive_book" where
  "sb_replace old new p q rs =
     andthen (sb_require rs old ReplaceMissing) (\<lambda>x.
       sb_add new (r_side x) p q (r_owner x) (nb_erase old rs))"

definition sb_front_at :: "naive_book \<Rightarrow> side \<Rightarrow> price \<Rightarrow> order_ref" where
  "sb_front_at rs s p = (case queue s p rs of [] \<Rightarrow> 0 | x # _ \<Rightarrow> r_ref x)"

definition sb_levels :: "naive_book \<Rightarrow> side \<Rightarrow> (price \<times> u64 \<times> u32 \<times> order_ref list) list" where
  "sb_levels rs s = map (\<lambda>(p, refs). (p, nb_qty_at rs s p, nb_orders_at rs s p, refs)) (nb_levels rs s)"

definition naive_ops :: "naive_book book_ops" where
  "naive_ops = \<lparr>bo_add = sb_add, bo_cancel = sb_cancel, bo_execute = sb_execute, bo_remove = sb_remove,
     bo_replace = sb_replace, bo_empty = nb_empty, bo_best = nb_best,
     bo_qty_at = (\<lambda>rs s p. Inr (nb_qty_at rs s p)), bo_orders_at = (\<lambda>rs s p. Inr (nb_orders_at rs s p)),
     bo_total_qty = nb_total_qty, bo_level_count = nb_level_count,
     bo_order_count = (\<lambda>rs. of_nat (nb_order_count rs)), bo_count = nb_order_count,
     bo_contains = (\<lambda>rs ref. Inr (nb_contains rs ref)),
     bo_side_of = (\<lambda>rs ref. andthen (sb_require rs ref QueryMissing) (\<lambda>x. Inr (r_side x))),
     bo_price_of = (\<lambda>rs ref. andthen (sb_require rs ref QueryMissing) (\<lambda>x. Inr (r_price x))),
     bo_qty_of = (\<lambda>rs ref. andthen (sb_require rs ref QueryMissing) (\<lambda>x. Inr (r_qty x))),
     bo_owner_of = (\<lambda>rs ref. andthen (sb_require rs ref QueryMissing) (\<lambda>x. Inr (r_owner x))),
     bo_front_at = (\<lambda>rs s p. Inr (sb_front_at rs s p)), bo_levels = (\<lambda>rs s. Inr (sb_levels rs s)),
     bo_validate = (\<lambda>rs. Inr ())\<rparr>"

lemma naive_ops_simps [simp]:
  "bo_add naive_ops = sb_add" "bo_cancel naive_ops = sb_cancel" "bo_execute naive_ops = sb_execute"
  "bo_remove naive_ops = sb_remove" "bo_replace naive_ops = sb_replace" "bo_empty naive_ops = nb_empty"
  "bo_best naive_ops = nb_best" "bo_qty_at naive_ops rs s p = Inr (nb_qty_at rs s p)"
  "bo_orders_at naive_ops rs s p = Inr (nb_orders_at rs s p)" "bo_total_qty naive_ops = nb_total_qty"
  "bo_level_count naive_ops = nb_level_count" "bo_order_count naive_ops rs = of_nat (nb_order_count rs)"
  "bo_count naive_ops = nb_order_count" "bo_contains naive_ops rs ref = Inr (nb_contains rs ref)"
  "bo_side_of naive_ops rs ref = andthen (sb_require rs ref QueryMissing) (\<lambda>x. Inr (r_side x))"
  "bo_price_of naive_ops rs ref = andthen (sb_require rs ref QueryMissing) (\<lambda>x. Inr (r_price x))"
  "bo_qty_of naive_ops rs ref = andthen (sb_require rs ref QueryMissing) (\<lambda>x. Inr (r_qty x))"
  "bo_owner_of naive_ops rs ref = andthen (sb_require rs ref QueryMissing) (\<lambda>x. Inr (r_owner x))"
  "bo_front_at naive_ops rs s p = Inr (sb_front_at rs s p)" "bo_levels naive_ops rs s = Inr (sb_levels rs s)"
  "bo_validate naive_ops rs = Inr ()"
  by (simp_all add: naive_ops_def)

section \<open>Facts of the specification\<close>

lemma sb_require_cases:
  assumes "wf_book rs"
  obtains (missing) "ref \<notin> r_ref ` set rs" "sb_require rs ref what = Inl (BookF what)"
  | (resting) x where "x \<in> set rs" "r_ref x = ref" "sb_require rs ref what = Inr x"
proof (cases "nb_find rs ref")
  case None
  have "ref \<notin> r_ref ` set rs" using None nb_find_None [of rs ref] by blast
  moreover have "sb_require rs ref what = Inl (BookF what)" using None by (simp add: sb_require_def)
  ultimately show ?thesis by (rule missing)
next
  case (Some x)
  then have "x \<in> set rs" "r_ref x = ref" using assms by (simp_all add: nb_find_Some)
  moreover have "sb_require rs ref what = Inr x" using Some by (simp add: sb_require_def)
  ultimately show ?thesis by (rule resting)
qed

text \<open>The recomputed best is the best of the set of prices.\<close>

lemma nb_best_from_is_best:
  assumes "case b of None \<Rightarrow> P = {} | Some p \<Rightarrow> is_best s P p"
  shows "case nb_best_from s b rs of None \<Rightarrow> P \<union> prices s rs = {} | Some p \<Rightarrow> is_best s (P \<union> prices s rs) p"
  using assms
proof (induction rs arbitrary: b P)
  case Nil
  then show ?case by (simp add: prices_def split: option.splits)
next
  case (Cons x rs)
  show ?case
  proof (cases "r_side x = s")
    case False
    then have eq: "prices s (x # rs) = prices s rs" by (auto simp: prices_def)
    have "nb_best_from s b (x # rs) = nb_best_from s b rs" using False by simp
    then show ?thesis unfolding eq using Cons.IH [OF Cons.prems] by simp
  next
    case True
    let ?b = "case b of None \<Rightarrow> Some (r_price x)
      | Some p \<Rightarrow> if closer s (r_price x) p then Some (r_price x) else b"
    have "case ?b of None \<Rightarrow> insert (r_price x) P = {} | Some p \<Rightarrow> is_best s (insert (r_price x) P) p"
    proof (cases b)
      case None
      with Cons.prems show ?thesis by (simp add: is_best_def)
    next
      case (Some p)
      with Cons.prems have "is_best s P p" by simp
      from is_best_insert [OF this, of "r_price x"] Some show ?thesis
        by (cases "closer s (r_price x) p") simp_all
    qed
    from Cons.IH [OF this]
    have "case nb_best_from s ?b rs of None \<Rightarrow> insert (r_price x) P \<union> prices s rs = {}
      | Some p \<Rightarrow> is_best s (insert (r_price x) P \<union> prices s rs) p" .
    moreover have "insert (r_price x) P \<union> prices s rs = P \<union> prices s (x # rs)"
      using True by (auto simp: prices_def)
    moreover have "nb_best_from s b (x # rs) = nb_best_from s ?b rs" using True by simp
    ultimately show ?thesis by (simp only:)
  qed
qed

lemma nb_best_is_best:
  "if nb_empty rs s then nb_best rs s = kNoPrice else is_best s (prices s rs) (nb_best rs s)"
  using nb_best_from_is_best [where P = "{}" and b = None and s = s and rs = rs]
  by (auto simp: nb_best_def prices_empty [symmetric] is_best_def split: option.splits)

lemma nb_best_unique:
  "is_best s (prices s rs) p \<Longrightarrow> nb_best rs s = p"
  using nb_best_is_best [of rs s] is_best_unique
  by (metis emptyE is_best_def prices_empty)

text \<open>The levels from the inside out are the prices in order.\<close>

lemma set_insert_price [simp]: "set (insert_price s p qs) = insert p (set qs)"
  by (induction qs) auto

lemma sorted_insert_price: "sorted_wrt (closer s) qs \<Longrightarrow> sorted_wrt (closer s) (insert_price s p qs)"
proof (induction qs)
  case (Cons q qs)
  show ?case
  proof (cases "p = q \<or> closer s p q")
    case True
    with Cons.prems show ?thesis by (auto intro: closer_trans)
  next
    case False
    then have "closer s q p" using closer_total [of s p q] by blast
    with Cons False show ?thesis by auto
  qed
qed simp

lemma level_prices_props: "set (level_prices s rs) = prices s rs" "sorted_wrt (closer s) (level_prices s rs)"
proof -
  have "set (foldr (insert_price s) ps []) = set ps" "sorted_wrt (closer s) (foldr (insert_price s) ps [])" for ps
    by (induction ps) (simp_all add: sorted_insert_price)
  then show "set (level_prices s rs) = prices s rs" "sorted_wrt (closer s) (level_prices s rs)"
    by (auto simp: level_prices_def prices_def on_side_def)
qed

lemma closer_sorted_unique:
  "sorted_wrt (closer s) xs \<Longrightarrow> sorted_wrt (closer s) ys \<Longrightarrow> set xs = set ys \<Longrightarrow> xs = ys"
proof (induction xs arbitrary: ys)
  case (Cons x xs)
  then obtain y ys' where ys: "ys = y # ys'" by (cases ys) auto
  have "x = y"
  proof (rule ccontr)
    assume "x \<noteq> y"
    then have "x \<in> set ys'" "y \<in> set xs" using Cons.prems(3) ys by auto
    then have "closer s x y" "closer s y x" using Cons.prems(1,2) ys by auto
    then show False using closer_asym by blast
  qed
  moreover have "x \<notin> set xs" "y \<notin> set ys'" using Cons.prems(1,2) ys by auto
  ultimately have "set xs = set ys'" using Cons.prems(3) ys by auto
  then show ?case using Cons ys \<open>x = y\<close> by simp
qed simp

lemma level_prices_unique:
  "sorted_wrt (closer s) ps \<Longrightarrow> set ps = prices s rs \<Longrightarrow> ps = level_prices s rs"
  using closer_sorted_unique level_prices_props by metis

section \<open>Operations as values, and the digest of a book\<close>

datatype book_op =
    Add order_ref side price qty u16
  | Cancel order_ref qty
  | Execute order_ref qty
  | Delete order_ref
  | Replace order_ref order_ref price qty

fun apply_op :: "'b book_ops \<Rightarrow> book_op \<Rightarrow> 'b \<Rightarrow> failure + 'b" where
  "apply_op ops (Add ref s p q ow) b = bo_add ops ref s p q ow b"
| "apply_op ops (Cancel ref n) b = bo_cancel ops ref n b"
| "apply_op ops (Execute ref n) b = andthen (bo_execute ops ref n b) (\<lambda>(b', _). Inr b')"
| "apply_op ops (Delete ref) b = bo_remove ops ref b"
| "apply_op ops (Replace old new p q) b = bo_replace ops old new p q b"

fun run_ops :: "'b book_ops \<Rightarrow> book_op list \<Rightarrow> 'b \<Rightarrow> failure + 'b" where
  "run_ops ops [] b = Inr b"
| "run_ops ops (x # xs) b = andthen (apply_op ops x b) (run_ops ops xs)"

text \<open>book_types.hpp: \<open>book_digest\<close>, every side, level and queue in order.\<close>

fun feed_level :: "digest \<Rightarrow> price \<times> u64 \<times> u32 \<times> order_ref list \<Rightarrow> digest" where
  "feed_level d (p, q, n, refs) = foldl feed (feed (feed (feed d (ucast p)) q) (ucast n)) refs"

definition feed_side :: "'b book_ops \<Rightarrow> 'b \<Rightarrow> side \<Rightarrow> digest \<Rightarrow> failure + digest" where
  "feed_side ops b s d =
     andthen (bo_levels ops b s) (\<lambda>levels.
       Inr (feed (foldl feed_level (feed d (of_nat (side_index s))) levels) 0xFFFFFFFFFFFFFFFF))"

definition book_digest :: "'b book_ops \<Rightarrow> 'b \<Rightarrow> failure + u64" where
  "book_digest ops b =
     andthen (feed_side ops b Buy digest_new) (\<lambda>d.
     andthen (feed_side ops b Sell d) (\<lambda>d. Inr (digest_value d)))"

text \<open>
  The operations a book with room for \<open>n\<close> orders is meant for: an add finds room for one
  more, and adds and replaces are at prices it accepts.
\<close>

fun room_for :: "nat \<Rightarrow> (price \<Rightarrow> bool) \<Rightarrow> book_op \<Rightarrow> naive_book \<Rightarrow> bool" where
  "room_for n ok (Add ref s p q ow) rs = (length rs < n \<and> ok p)"
| "room_for n ok (Replace old new p q) rs = ok p"
| "room_for n ok op rs = True"

fun room_for_all :: "nat \<Rightarrow> (price \<Rightarrow> bool) \<Rightarrow> book_op list \<Rightarrow> naive_book \<Rightarrow> bool" where
  "room_for_all n ok [] rs = True"
| "room_for_all n ok (x # xs) rs =
     (room_for n ok x rs \<and>
      (case apply_op naive_ops x rs of Inl _ \<Rightarrow> True | Inr rs' \<Rightarrow> room_for_all n ok xs rs'))"

text \<open>How the number of resting orders changes.\<close>

lemma sb_lengths:
  assumes "wf_book rs"
  shows "sb_add ref s p q ow rs = Inr rs' \<Longrightarrow> length rs' = Suc (length rs)"
    and "sb_cancel ref n rs = Inr rs' \<Longrightarrow> length rs' \<le> length rs"
    and "sb_execute ref n rs = Inr (rs', m) \<Longrightarrow> length rs' \<le> length rs"
    and "sb_remove ref rs = Inr rs' \<Longrightarrow> Suc (length rs') = length rs"
    and "sb_replace old new p q rs = Inr rs' \<Longrightarrow> length rs' = length rs"
proof -
  have cancel: "length (nb_cancel ref n rs) \<le> length rs"
    by (simp add: nb_cancel_def nb_erase_def split: option.splits)
  show "length rs' = Suc (length rs)" if "sb_add ref s p q ow rs = Inr rs'"
    using that by (auto simp: sb_add_def nb_add_simps split: if_splits)
  show "length rs' \<le> length rs" if "sb_cancel ref n rs = Inr rs'"
    using that cancel by (auto simp: sb_cancel_def andthen_eq_Inr split: if_splits)
  show "length rs' \<le> length rs" if "sb_execute ref n rs = Inr (rs', m)"
    using that cancel by (auto simp: sb_execute_def andthen_eq_Inr split: if_splits)
  have erase: "Suc (length (nb_erase r rs)) = length rs" if "sb_require rs r what = Inr x" for r what x
    using sb_require_cases [OF assms, of r what] that length_nb_erase [OF assms] by auto
  show "Suc (length rs') = length rs" if "sb_remove ref rs = Inr rs'"
    using that erase by (auto simp: sb_remove_def andthen_eq_Inr)
  show "length rs' = length rs" if "sb_replace old new p q rs = Inr rs'"
    using that erase by (auto simp: sb_replace_def andthen_eq_Inr sb_add_def nb_add_simps split: if_splits)
qed

lemma rel_sum_strengthen:
  assumes "rel_sum R S x y" and "\<And>a b. y = Inr b \<Longrightarrow> S a b \<Longrightarrow> T a b"
  shows "rel_sum R T x y"
  using assms by (cases x; cases y) auto

section \<open>The interface\<close>

locale order_book =
  fixes ops :: "'b book_ops"
    and rep :: "'b \<Rightarrow> naive_book \<Rightarrow> bool"
    and limit :: "'b \<Rightarrow> nat"
    and ok_price :: "price \<Rightarrow> bool"
  assumes rep_book_wf: "rep b rs \<Longrightarrow> wf_book rs"
    and rep_small: "rep b rs \<Longrightarrow> length rs < 2 ^ 32"
    and rep_prices_ok: "rep b rs \<Longrightarrow> x \<in> set rs \<Longrightarrow> ok_price (r_price x)"
    and ok_price_some: "ok_price p \<Longrightarrow> p \<noteq> kNoPrice"
    and add_law: "rep b rs \<Longrightarrow> ok_price p \<Longrightarrow> length rs < limit b \<Longrightarrow>
      rel_sum (=) (\<lambda>b' rs'. rep b' rs' \<and> limit b' = limit b) (bo_add ops ref s p q ow b) (sb_add ref s p q ow rs)"
    and cancel_law: "rep b rs \<Longrightarrow>
      rel_sum (=) (\<lambda>b' rs'. rep b' rs' \<and> limit b' = limit b) (bo_cancel ops ref n b) (sb_cancel ref n rs)"
    and execute_law: "rep b rs \<Longrightarrow>
      rel_sum (=) (\<lambda>(b', m') (rs', m). rep b' rs' \<and> limit b' = limit b \<and> m' = m)
        (bo_execute ops ref n b) (sb_execute ref n rs)"
    and remove_law: "rep b rs \<Longrightarrow>
      rel_sum (=) (\<lambda>b' rs'. rep b' rs' \<and> limit b' = limit b) (bo_remove ops ref b) (sb_remove ref rs)"
    and replace_law: "rep b rs \<Longrightarrow> ok_price p \<Longrightarrow> length rs \<le> limit b \<Longrightarrow>
      rel_sum (=) (\<lambda>b' rs'. rep b' rs' \<and> limit b' = limit b) (bo_replace ops old new p q b) (sb_replace old new p q rs)"
    and empty_eq: "rep b rs \<Longrightarrow> bo_empty ops b = nb_empty rs"
    and best_eq: "rep b rs \<Longrightarrow> bo_best ops b = nb_best rs"
    and qty_at_eq: "rep b rs \<Longrightarrow> bo_qty_at ops b s p = Inr (nb_qty_at rs s p)"
    and orders_at_eq: "rep b rs \<Longrightarrow> bo_orders_at ops b s p = Inr (nb_orders_at rs s p)"
    and total_qty_eq: "rep b rs \<Longrightarrow> bo_total_qty ops b = nb_total_qty rs"
    and level_count_eq: "rep b rs \<Longrightarrow> bo_level_count ops b = nb_level_count rs"
    and order_count_eq: "rep b rs \<Longrightarrow> bo_order_count ops b = of_nat (length rs)"
    and count_eq: "rep b rs \<Longrightarrow> bo_count ops b = length rs"
    and contains_eq: "rep b rs \<Longrightarrow> bo_contains ops b ref = Inr (nb_contains rs ref)"
    and side_of_eq: "rep b rs \<Longrightarrow> bo_side_of ops b ref = bo_side_of naive_ops rs ref"
    and price_of_eq: "rep b rs \<Longrightarrow> bo_price_of ops b ref = bo_price_of naive_ops rs ref"
    and qty_of_eq: "rep b rs \<Longrightarrow> bo_qty_of ops b ref = bo_qty_of naive_ops rs ref"
    and owner_of_eq: "rep b rs \<Longrightarrow> bo_owner_of ops b ref = bo_owner_of naive_ops rs ref"
    and front_at_eq: "rep b rs \<Longrightarrow> bo_front_at ops b s p = Inr (sb_front_at rs s p)"
    and levels_eq: "rep b rs \<Longrightarrow> bo_levels ops b s = Inr (sb_levels rs s)"
    and validate_ok: "rep b rs \<Longrightarrow> bo_validate ops b = Inr ()"
begin

lemma apply_op_refines:
  assumes "rep b rs" and "length rs \<le> limit b" and "room_for (limit b) ok_price x rs"
  shows "rel_sum (=) (\<lambda>b' rs'. rep b' rs' \<and> limit b' = limit b \<and> length rs' \<le> limit b)
    (apply_op ops x b) (apply_op naive_ops x rs)"
proof (cases x)
  case (Add ref s p q ow)
  with assms(3) have "rel_sum (=) (\<lambda>b' rs'. rep b' rs' \<and> limit b' = limit b) (apply_op ops x b) (apply_op naive_ops x rs)"
    using add_law [OF assms(1)] by simp
  then show ?thesis
    by (rule rel_sum_strengthen) (use Add assms(3) sb_lengths(1) [OF rep_book_wf [OF assms(1)]] in force)
next
  case (Cancel ref n)
  then have "rel_sum (=) (\<lambda>b' rs'. rep b' rs' \<and> limit b' = limit b) (apply_op ops x b) (apply_op naive_ops x rs)"
    using cancel_law [OF assms(1)] by simp
  then show ?thesis
    by (rule rel_sum_strengthen) (use Cancel assms(2) sb_lengths(2) [OF rep_book_wf [OF assms(1)]] in force)
next
  case (Execute ref n)
  then have "rel_sum (=) (\<lambda>b' rs'. rep b' rs' \<and> limit b' = limit b) (apply_op ops x b) (apply_op naive_ops x rs)"
    using execute_law [OF assms(1), of ref n]
    by (cases "bo_execute ops ref n b"; cases "sb_execute ref n rs") (auto split: prod.splits)
  then show ?thesis
    by (rule rel_sum_strengthen)
      (use Execute assms(2) sb_lengths(3) [OF rep_book_wf [OF assms(1)]] in \<open>force simp: andthen_eq_Inr\<close>)
next
  case (Delete ref)
  then have "rel_sum (=) (\<lambda>b' rs'. rep b' rs' \<and> limit b' = limit b) (apply_op ops x b) (apply_op naive_ops x rs)"
    using remove_law [OF assms(1)] by simp
  then show ?thesis
    by (rule rel_sum_strengthen) (use Delete assms(2) sb_lengths(4) [OF rep_book_wf [OF assms(1)]] in force)
next
  case (Replace old new p q)
  with assms(3) have "rel_sum (=) (\<lambda>b' rs'. rep b' rs' \<and> limit b' = limit b) (apply_op ops x b) (apply_op naive_ops x rs)"
    using replace_law [OF assms(1) _ assms(2)] by simp
  then show ?thesis
    by (rule rel_sum_strengthen) (use Replace assms(2) sb_lengths(5) [OF rep_book_wf [OF assms(1)]] in force)
qed

text \<open>Any run of operations: the same refusal at the same operation, or books that agree.\<close>

lemma run_ops_refines:
  assumes "rep b rs" and "length rs \<le> limit b" and "room_for_all (limit b) ok_price xs rs"
  shows "rel_sum (=) (\<lambda>b' rs'. rep b' rs' \<and> limit b' = limit b \<and> length rs' \<le> limit b)
    (run_ops ops xs b) (run_ops naive_ops xs rs)"
  using assms
proof (induction xs arbitrary: b rs)
  case (Cons x xs)
  have step: "rel_sum (=) (\<lambda>b' rs'. rep b' rs' \<and> limit b' = limit b \<and> length rs' \<le> limit b)
      (apply_op ops x b) (apply_op naive_ops x rs)"
    using Cons.prems by (intro apply_op_refines) simp_all
  show ?case
  proof (cases "apply_op naive_ops x rs")
    case (Inl e)
    with step have "apply_op ops x b = Inl e" by (cases "apply_op ops x b") auto
    with Inl show ?thesis by simp
  next
    case (Inr rs')
    with step obtain b' where b': "apply_op ops x b = Inr b'" "rep b' rs'" "limit b' = limit b" "length rs' \<le> limit b"
      by (cases "apply_op ops x b") auto
    then show ?thesis using Cons.IH [of b' rs'] Cons.prems(3) Inr by simp
  qed
qed simp

lemma digest_eq: "rep b rs \<Longrightarrow> book_digest ops b = book_digest naive_ops rs"
  by (simp add: book_digest_def feed_side_def levels_eq)

end

end
