(* ===== verification/Flat_Book_Ops.thy ===== *)
theory Flat_Book_Ops
  imports Flat_Book_Reduce Book_Spec
begin

text \<open>
  The pooled book keeps the contract of an order book: every operation, refusal and query
  over any level map agrees with the list of resting orders, and \<open>validate\<close> never fires.
\<close>

definition flat_ops :: "'m level_ops \<Rightarrow> index_hash \<Rightarrow> 'm book book_ops" where
  "flat_ops L H = \<lparr>bo_add = bk_add L H, bo_cancel = bk_cancel L H, bo_execute = bk_execute L H,
     bo_remove = bk_remove L H, bo_replace = bk_replace L H, bo_empty = bk_empty L,
     bo_best = bk_best_price, bo_qty_at = bk_qty_at L, bo_orders_at = bk_orders_at L,
     bo_total_qty = bk_total_qty, bo_level_count = bk_level_count, bo_order_count = bk_order_count,
     bo_count = bk_count, bo_contains = bk_contains H, bo_side_of = bk_side_of H,
     bo_price_of = bk_price_of H, bo_qty_of = bk_qty_of H, bo_owner_of = bk_owner_of H,
     bo_front_at = bk_front_at L, bo_levels = bk_levels_of L, bo_validate = bk_validate L H\<rparr>"

section \<open>Mutations\<close>

context level_map
begin

lemma bk_reduce_rep:
  assumes rep: "rep H b rs" and x: "x \<in> set rs" and n: "n \<le> r_qty x"
  shows "\<exists>b'. bk_reduce ops H (handle_of b (r_ref x)) n b = Inr b' \<and> rep H b' (nb_cancel (r_ref x) n rs) \<and>
    bk_limit b' = bk_limit b"
proof -
  obtain lh where lh: "content (bk_ladders b (r_side x)) (r_price x) = Some lh"
    using order_okD(7) [OF rep_order [OF rep x]] by blast
  note front = bk_reduce_front [OF rep x n lh, of ops]
  note cases = nb_cancel_cases [OF rep_wf [OF rep] x refl, of n]
  show ?thesis
  proof (cases "n = r_qty x")
    case True
    with front cases reduce_rest_run [OF rep x lh] show ?thesis by simp
  next
    case False
    let ?b = "reduced (handle_of b (r_ref x)) lh (r_side x) n b"
    have "rep H ?b (nb_take (r_ref x) n rs)" by (rule reduced_rep [OF rep x n False lh])
    moreover have "bk_limit ?b = bk_limit b"
      using reduced_pools(1,2) [of b "handle_of b (r_ref x)" lh "r_side x" n] rep_storage [OF rep]
        rep_handle(2) [OF rep x] level_okD(1) [OF rep_level [OF rep lh]]
      by (simp add: bk_limit_def storage_ok_def pool_like_def)
    ultimately show ?thesis using False front cases by auto
  qed
qed

text \<open>Looking an order up gives its record, or the refusal of the caller.\<close>

lemma rep_require_ref:
  assumes rep: "rep H b rs"
  shows "andthen (bk_require H b ref what) (\<lambda>oh. andthen (pool_ref order_slot (bk_orders b) oh) (\<lambda>y. f oh y)) =
    andthen (sb_require rs ref what) (\<lambda>x. f (handle_of b ref) (slot_at (bk_orders b) (handle_of b ref)))"
proof (rule sb_require_cases [OF rep_wf [OF rep], of ref what])
  assume "ref \<notin> r_ref ` set rs" "sb_require rs ref what = Inl (BookF what)"
  then show ?thesis by (simp add: rep_require [OF rep])
next
  fix x
  assume x: "x \<in> set rs" "r_ref x = ref" "sb_require rs ref what = Inr x"
  then have "ref \<in> r_ref ` set rs" by blast
  with x rep_handle(2) [OF rep x(1)] show ?thesis by (simp add: rep_require [OF rep] pool_ref_live)
qed

abbreviation agree :: "index_hash \<Rightarrow> nat \<Rightarrow> 'm book \<Rightarrow> naive_book \<Rightarrow> bool" where
  "agree H n b' rs' \<equiv> rep H b' rs' \<and> bk_limit b' = n"

lemma flat_add:
  assumes rep: "rep H b rs" and p: "ok_price p" and lim: "length rs < bk_limit b"
  shows "rel_sum (=) (agree H (bk_limit b)) (bk_add ops H ref s p q ow b) (sb_add ref s p q ow rs)"
proof (cases "q = 0")
  case True
  then show ?thesis by (simp add: bk_add_no_quantity sb_add_def)
next
  case q: False
  show ?thesis
  proof (cases "ref \<in> r_ref ` set rs")
    case True
    with q bk_add_twice [OF rep True q] show ?thesis by (simp add: sb_add_def nb_contains_iff)
  next
    case False
    with q bk_add_rep [OF rep False q p lim, of s ow] show ?thesis
      by (auto simp: sb_add_def nb_contains_iff)
  qed
qed

lemma flat_reduce:
  assumes rep: "rep H b rs" and x: "x \<in> set rs" "r_ref x = ref"
  shows "n \<le> r_qty x \<Longrightarrow> \<exists>b'. bk_reduce ops H (handle_of b ref) n b = Inr b' \<and>
      agree H (bk_limit b) b' (nb_cancel ref n rs)"
    and "o_qty (slot_at (bk_orders b) (handle_of b ref)) = r_qty x"
    and "o_owner (slot_at (bk_orders b) (handle_of b ref)) = r_owner x"
    and "o_price (slot_at (bk_orders b) (handle_of b ref)) = r_price x"
    and "o_ref (slot_at (bk_orders b) (handle_of b ref)) = ref"
    and "side_of_u8 (o_side (slot_at (bk_orders b) (handle_of b ref))) = r_side x"
    and "nb_cancel ref (r_qty x) rs = nb_erase ref rs"
  using bk_reduce_rep [OF rep x(1), of n] order_okD(2-6) [OF rep_order [OF rep x(1)]]
    nb_cancel_cases [OF rep_wf [OF rep] x, of "r_qty x"] x(2) by simp_all

lemma flat_cancel:
  assumes rep: "rep H b rs"
  shows "rel_sum (=) (agree H (bk_limit b)) (bk_cancel ops H ref n b) (sb_cancel ref n rs)"
proof -
  have "rel_sum (=) (agree H (bk_limit b))
      (andthen (ensure (n \<le> o_qty (slot_at (bk_orders b) (handle_of b ref))) (BookF CancelTooMuch)) (\<lambda>_.
         bk_reduce ops H (handle_of b ref) n b))
      (if n \<le> r_qty x then Inr (nb_cancel ref n rs) else Inl (BookF CancelTooMuch))"
    if "x \<in> set rs" "r_ref x = ref" for x
    using flat_reduce(1) [OF rep that, of n] flat_reduce(2) [OF rep that] by auto
  then show ?thesis
    unfolding bk_cancel_def sb_cancel_def rep_require_ref [OF rep]
    by (rule_tac sb_require_cases [OF rep_wf [OF rep], of ref CancelMissing]) auto
qed

lemma flat_execute:
  assumes rep: "rep H b rs"
  shows "rel_sum (=) (\<lambda>(b', m') (rs', m). rep H b' rs' \<and> bk_limit b' = bk_limit b \<and> m' = m)
    (bk_execute ops H ref n b) (sb_execute ref n rs)"
proof -
  have "rel_sum (=) (\<lambda>(b', m') (rs', m). rep H b' rs' \<and> bk_limit b' = bk_limit b \<and> m' = m)
      (andthen (ensure (n \<le> o_qty (slot_at (bk_orders b) (handle_of b ref))) (BookF ExecuteTooMuch)) (\<lambda>_.
         andthen (bk_reduce ops H (handle_of b ref) n b) (\<lambda>b'. Inr (b', n))))
      (if n \<le> r_qty x then Inr (nb_cancel ref n rs, n) else Inl (BookF ExecuteTooMuch))"
    if "x \<in> set rs" "r_ref x = ref" for x
    using flat_reduce(1) [OF rep that, of n] flat_reduce(2) [OF rep that] by auto
  then show ?thesis
    unfolding bk_execute_def sb_execute_def rep_require_ref [OF rep]
    by (rule_tac sb_require_cases [OF rep_wf [OF rep], of ref ExecuteMissing]) auto
qed

lemma flat_remove:
  assumes rep: "rep H b rs"
  shows "rel_sum (=) (agree H (bk_limit b)) (bk_remove ops H ref b) (sb_remove ref rs)"
proof -
  have "rel_sum (=) (agree H (bk_limit b))
      (bk_reduce ops H (handle_of b ref) (o_qty (slot_at (bk_orders b) (handle_of b ref))) b) (Inr (nb_erase ref rs))"
    if "x \<in> set rs" "r_ref x = ref" for x
    using flat_reduce(1) [OF rep that order_refl] flat_reduce(2,7) [OF rep that] by auto
  then show ?thesis
    unfolding bk_remove_def sb_remove_def rep_require_ref [OF rep]
    by (rule_tac sb_require_cases [OF rep_wf [OF rep], of ref DeleteMissing]) auto
qed

lemma flat_replace:
  assumes rep: "rep H b rs" and p: "ok_price p" and lim: "length rs \<le> bk_limit b"
  shows "rel_sum (=) (agree H (bk_limit b)) (bk_replace ops H old new p q b) (sb_replace old new p q rs)"
proof -
  let ?y = "slot_at (bk_orders b) (handle_of b old)"
  have "rel_sum (=) (agree H (bk_limit b))
      (andthen (bk_reduce ops H (handle_of b old) (o_qty ?y) b) (\<lambda>b'.
         bk_add ops H new (side_of_u8 (o_side ?y)) p q (o_owner ?y) b'))
      (sb_add new (r_side x) p q (r_owner x) (nb_erase old rs))"
    if x: "x \<in> set rs" "r_ref x = old" for x
  proof -
    note red = flat_reduce(2-7) [OF rep x]
    obtain b' where b': "bk_reduce ops H (handle_of b old) (r_qty x) b = Inr b'" "rep H b' (nb_erase old rs)"
      "bk_limit b' = bk_limit b"
      using flat_reduce(1) [OF rep x order_refl] red(6) by auto
    have "length (nb_erase old rs) < bk_limit b'"
      using length_nb_erase [OF rep_wf [OF rep] x(1)] x(2) lim b'(3) by simp
    from flat_add [OF b'(2) p this] show ?thesis using red(1,2,5) b'(1,3) by simp
  qed
  then show ?thesis
    unfolding bk_replace_def sb_replace_def rep_require_ref [OF rep]
    by (rule_tac sb_require_cases [OF rep_wf [OF rep], of old ReplaceMissing]) auto
qed

section \<open>Queries\<close>

lemma rep_lm_inv: "rep H b rs \<Longrightarrow> inv s (bk_ladders b s)"
  using rep_storage by (fastforce simp: storage_ok_def)

lemma rep_level_cases:
  assumes rep: "rep H b rs"
  obtains (none) "lm_find ops (bk_ladders b s) p = Inr null_handle" "queue s p rs = []"
  | (level) lh where "lm_find ops (bk_ladders b s) p = Inr lh" "\<not> is_null lh" "queue s p rs \<noteq> []"
      "level_ok b (queue s p rs) p lh"
proof (cases "content (bk_ladders b s) p")
  case None
  then have "p \<notin> prices s rs" using rep_prices [OF rep, of s] by auto
  then have "queue s p rs = []" by (simp add: prices_queue)
  moreover have "lm_find ops (bk_ladders b s) p = Inr null_handle"
    using None find_law [OF rep_lm_inv [OF rep]] by simp
  ultimately show ?thesis by (intro none)
next
  case (Some lh)
  then have "p \<in> prices s rs" using rep_prices [OF rep, of s] by auto
  then have "queue s p rs \<noteq> []" by (simp add: prices_queue)
  moreover have "lm_find ops (bk_ladders b s) p = Inr lh"
    using Some find_law [OF rep_lm_inv [OF rep]] by simp
  moreover have "\<not> is_null lh" by (rule content_null [OF rep_lm_inv [OF rep] Some])
  ultimately show ?thesis using rep_level [OF rep Some] by (intro level)
qed

lemma flat_qty_at: "rep H b rs \<Longrightarrow> bk_qty_at ops b s p = Inr (nb_qty_at rs s p)"
  by (rule rep_level_cases [of H b rs s p])
    (auto simp: bk_qty_at_def nb_qty_at_def pool_ref_live level_ok_def Let_def)

lemma flat_orders_at: "rep H b rs \<Longrightarrow> bk_orders_at ops b s p = Inr (nb_orders_at rs s p)"
  by (rule rep_level_cases [of H b rs s p])
    (auto simp: bk_orders_at_def nb_orders_at_def pool_ref_live level_ok_def Let_def)

lemma flat_front_at:
  assumes rep: "rep H b rs"
  shows "bk_front_at ops b s p = Inr (sb_front_at rs s p)"
proof (rule rep_level_cases [OF rep, of s p])
  assume "lm_find ops (bk_ladders b s) p = Inr null_handle" "queue s p rs = []"
  then show ?thesis by (simp add: bk_front_at_def sb_front_at_def)
next
  fix lh
  assume a: "lm_find ops (bk_ladders b s) p = Inr lh" "\<not> is_null lh" "queue s p rs \<noteq> []"
    "level_ok b (queue s p rs) p lh"
  then obtain x xs where q: "queue s p rs = x # xs" by (cases "queue s p rs") auto
  then have x: "x \<in> set rs" using queue_subset [of s p rs] by auto
  have h: "l_head (slot_at (bk_levels b) lh) = handle_of b (r_ref x)"
    using level_okD(5) [OF a(4)] by (simp add: q)
  show ?thesis
    using a(1,2) q h rep_handle(3) [OF rep x] order_okD(2) [OF rep_order [OF rep x]]
    by (simp add: bk_front_at_def sb_front_at_def pool_ref_live [OF level_okD(1) [OF a(4)]]
        pool_ref_live [OF rep_handle(2) [OF rep x]])
qed

lemma flat_empty:
  assumes rep: "rep H b rs"
  shows "bk_empty ops b = nb_empty rs"
proof
  fix s
  have "lm_empty ops (bk_ladders b s) \<longleftrightarrow> dom (content (bk_ladders b s)) = {}"
    using empty_law [OF rep_lm_inv [OF rep]] by simp
  then show "bk_empty ops b s = nb_empty rs s"
    using rep_prices [OF rep] prices_empty by (simp add: bk_empty_def)
qed

lemma flat_best: "rep H b rs \<Longrightarrow> bk_best_price b = nb_best rs"
proof
  fix s
  assume "rep H b rs"
  then have "if nb_empty rs s then bk_best b s = kNoPrice else is_best s (prices s rs) (bk_best b s)"
    using rep_counters [of content inv H b rs] unfolding counters_ok_def by blast
  then show "bk_best_price b s = nb_best rs s"
    using nb_best_is_best [of rs s] nb_best_unique by (auto simp: bk_best_price_def split: if_splits)
qed

lemma flat_order_query:
  assumes rep: "rep H b rs" and f: "\<And>x y. o_qty y = r_qty x \<Longrightarrow> o_price y = r_price x \<Longrightarrow>
    o_side y = side_to_u8 (r_side x) \<Longrightarrow> o_owner y = r_owner x \<Longrightarrow> f y = g x"
  shows "andthen (bk_order_of H b ref) (\<lambda>y. Inr (f y)) = andthen (sb_require rs ref QueryMissing) (\<lambda>x. Inr (g x))"
proof (rule sb_require_cases [OF rep_wf [OF rep], of ref QueryMissing])
  assume "ref \<notin> r_ref ` set rs" "sb_require rs ref QueryMissing = Inl (BookF QueryMissing)"
  then show ?thesis by (simp add: bk_order_of_def rep_require [OF rep])
next
  fix x
  assume x: "x \<in> set rs" "r_ref x = ref" "sb_require rs ref QueryMissing = Inr x"
  then have "ref \<in> r_ref ` set rs" by blast
  moreover have "f (slot_at (bk_orders b) (handle_of b ref)) = g x"
    using order_okD(3-6) [OF rep_order [OF rep x(1)]] x(2) by (intro f) simp_all
  ultimately show ?thesis
    using x rep_handle(2) [OF rep x(1)] by (simp add: bk_order_of_def rep_require [OF rep] pool_ref_live)
qed

lemma flat_of_queries:
  assumes rep: "rep H b rs"
  shows "bk_side_of H b ref = bo_side_of naive_ops rs ref" and "bk_price_of H b ref = bo_price_of naive_ops rs ref"
    and "bk_qty_of H b ref = bo_qty_of naive_ops rs ref" and "bk_owner_of H b ref = bo_owner_of naive_ops rs ref"
  unfolding bk_side_of_def bk_price_of_def bk_qty_of_def bk_owner_of_def naive_ops_simps
  by (rule flat_order_query [OF rep], simp)+

lemma flat_contains: "rep H b rs \<Longrightarrow> bk_contains H b ref = Inr (nb_contains rs ref)"
  using rep_handle(3) by (fastforce simp: bk_contains_def rep_find nb_contains_iff)

lemma flat_count: "rep H b rs \<Longrightarrow> bk_count b = length rs"
  by (simp add: bk_count_def oi_size_def rep_live_count)

section \<open>Walks\<close>

lemma order_range_run:
  assumes rep: "rep H b rs"
  shows "set q \<subseteq> set rs \<Longrightarrow> linked (slot_at (bk_orders b)) pv (queue_handles b q) null_handle \<Longrightarrow> length q \<le> fuel \<Longrightarrow>
    order_range (bk_orders b) fuel (head_of (queue_handles b q)) = Inr (map r_ref q)"
proof (induction q arbitrary: pv fuel)
  case Nil
  then show ?case by (cases fuel) simp_all
next
  case (Cons x q)
  then obtain f where f: "fuel = Suc f" "length q \<le> f" by (cases fuel) auto
  have x: "x \<in> set rs" using Cons.prems(1) by simp
  have next': "o_next (slot_at (bk_orders b) (handle_of b (r_ref x))) = head_of (queue_handles b q)"
    using Cons.prems(2) by (cases q) auto
  have "order_range (bk_orders b) f (head_of (queue_handles b q)) = Inr (map r_ref q)"
    using Cons.prems f by (intro Cons.IH) auto
  then show ?case
    using f rep_handle(2,3) [OF rep x] order_okD(2) [OF rep_order [OF rep x]] next' by (simp add: pool_ref_live)
qed

lemma check_queue_run:
  assumes rep: "rep H b rs"
  shows "set q \<subseteq> set rs \<Longrightarrow> \<forall>x \<in> set q. r_side x = s \<and> r_price x = p \<Longrightarrow>
    linked (slot_at (bk_orders b)) pv (queue_handles b q) null_handle \<Longrightarrow> length q \<le> fuel \<Longrightarrow>
    check_queue H b s p fuel (head_of (queue_handles b q)) acc seen = Inr (acc + qsum q, seen + of_nat (length q))"
proof (induction q arbitrary: pv fuel acc seen)
  case Nil
  then show ?case by (cases fuel) simp_all
next
  case (Cons x q)
  then obtain f where f: "fuel = Suc f" "length q \<le> f" by (cases fuel) auto
  have x: "x \<in> set rs" "r_side x = s" "r_price x = p" using Cons.prems(1,2) by simp_all
  note ok = order_okD [OF rep_order [OF rep x(1)]]
  have next': "o_next (slot_at (bk_orders b) (handle_of b (r_ref x))) = head_of (queue_handles b q)"
    using Cons.prems(3) by (cases q) auto
  have "check_queue H b s p f (head_of (queue_handles b q)) (acc + ucast (r_qty x)) (seen + 1) =
      Inr (acc + ucast (r_qty x) + qsum q, seen + 1 + of_nat (length q))"
    using Cons.prems f by (intro Cons.IH) auto
  moreover have "r_qty x \<noteq> 0" using rep_wf [OF rep] x(1) by (simp add: wf_book_def)
  moreover have "oi_find H (bk_index b) (r_ref x) = Inr (handle_of b (r_ref x))"
    using rep_find [OF rep] x(1) by simp
  ultimately show ?case
    using f rep_handle(2,3) [OF rep x(1)] ok(2-5) x(2,3) next'
    by (simp add: pool_ref_live word_gt_0 add.assoc)
qed

lemma gather_map: "(\<And>x. x \<in> set xs \<Longrightarrow> f x = Inr (g x)) \<Longrightarrow> gather f xs = Inr (map g xs)"
  by (induction xs) simp_all

lemma rep_levels:
  assumes rep: "rep H b rs"
  obtains xs where "lm_levels ops (bk_ladders b s) = Inr xs" and "map fst xs = level_prices s rs"
    and "\<And>p lh. (p, lh) \<in> set xs \<Longrightarrow> level_ok b (queue s p rs) p lh"
proof -
  obtain xs where xs: "lm_levels ops (bk_ladders b s) = Inr xs" "inside_out s xs"
    "map_of xs = content (bk_ladders b s)"
    using levels_law [OF rep_lm_inv [OF rep]] by blast
  have "set (map fst xs) = prices s rs"
    using rep_prices [OF rep, of s] by (simp add: dom_map_of_conv_image_fst flip: xs(3))
  then have "map fst xs = level_prices s rs"
    using xs(2) by (intro level_prices_unique) (simp_all add: inside_out_def)
  moreover have "level_ok b (queue s p rs) p lh" if "(p, lh) \<in> set xs" for p lh
    using that inside_out_distinct [OF xs(2)] rep_level [OF rep] xs(3) by (metis map_of_is_SomeI)
  ultimately show ?thesis using xs(1) by (intro that)
qed

lemma queue_fits:
  assumes rep: "rep H b rs"
  shows "length (queue s p rs) \<le> length (slots (bk_orders b))"
proof -
  have "length (queue s p rs) \<le> length rs" by (simp add: queue_def)
  also have "\<dots> \<le> length (slots (bk_orders b))" using rep_storage [OF rep] by (simp add: storage_ok_def)
  finally show ?thesis .
qed

lemma flat_levels:
  assumes rep: "rep H b rs"
  shows "bk_levels_of ops b s = Inr (sb_levels rs s)"
proof -
  obtain xs where xs: "lm_levels ops (bk_ladders b s) = Inr xs" "map fst xs = level_prices s rs"
    and lev: "\<And>p lh. (p, lh) \<in> set xs \<Longrightarrow> level_ok b (queue s p rs) p lh"
    by (rule rep_levels [OF rep, of s]) (rule that; assumption)
  let ?g = "\<lambda>p. (p, nb_qty_at rs s p, nb_orders_at rs s p, map r_ref (queue s p rs))"
  have "gather (\<lambda>(p, lh).
       andthen (pool_ref level_slot (bk_levels b) lh) (\<lambda>v.
       andthen (order_range (bk_orders b) (length (slots (bk_orders b))) (l_head v)) (\<lambda>refs.
         Inr (p, l_total_qty v, l_order_count v, refs)))) xs = Inr (map (\<lambda>x. ?g (fst x)) xs)"
  proof (rule gather_map)
    fix y
    assume "y \<in> set xs"
    then obtain p lh where y: "y = (p, lh)" "(p, lh) \<in> set xs" by (metis surj_pair)
    note ok = level_okD [OF lev [OF y(2)]]
    have "order_range (bk_orders b) (length (slots (bk_orders b))) (head_of (queue_handles b (queue s p rs))) =
        Inr (map r_ref (queue s p rs))"
      by (rule order_range_run [OF rep queue_subset ok(7) queue_fits [OF rep]])
    then show "(case y of (p, lh) \<Rightarrow>
       andthen (pool_ref level_slot (bk_levels b) lh) (\<lambda>v.
       andthen (order_range (bk_orders b) (length (slots (bk_orders b))) (l_head v)) (\<lambda>refs.
         Inr (p, l_total_qty v, l_order_count v, refs)))) = Inr (?g (fst y))"
      using ok y(1) by (simp add: pool_ref_live nb_qty_at_def nb_orders_at_def)
  qed
  moreover have "map (\<lambda>x. ?g (fst x)) xs = sb_levels rs s"
    using xs(2) by (simp add: sb_levels_def nb_levels_def comp_def flip: map_map [of ?g fst, unfolded comp_def])
  ultimately show ?thesis using xs(1) by (simp add: bk_levels_of_def)
qed

section \<open>Validation never fires\<close>

lemma on_side_split: "length (on_side Buy rs) + length (on_side Sell rs) = length rs"
  unfolding on_side_def by (induction rs) (auto split: side.splits, metis side.exhaust)

lemma check_levels_run:
  assumes rep: "rep H b rs" and lev: "\<And>p lh. (p, lh) \<in> set xs \<Longrightarrow> level_ok b (queue s p rs) p lh"
    and sorted: "sorted_wrt (closer s) (map fst xs)" and mem: "fst ` set xs \<subseteq> prices s rs"
    and prev: "case prev of None \<Rightarrow> True | Some pv \<Rightarrow> \<forall>p \<in> fst ` set xs. closer s pv p"
  shows "check_levels H b s prev xs qty levels tot =
    Inr (qty + sum_list (map (\<lambda>p. qsum (queue s p rs)) (map fst xs)), levels + of_nat (length xs),
         tot + sum_list (map (\<lambda>p. length (queue s p rs)) (map fst xs)))"
  using assms(2-)
proof (induction xs arbitrary: prev qty levels tot)
  case (Cons x xs)
  obtain p lh where x: "x = (p, lh)" by (cases x) auto
  let ?q = "queue s p rs"
  note ok = level_okD [OF Cons.prems(1) [of p lh]]
  have m: "(p, lh) \<in> set (x # xs)" using x by simp
  have "length ?q \<le> length rs" by (simp add: queue_def)
  then have small: "length ?q < 2 ^ 32" using storage_small(1) [OF rep_storage [OF rep]] by simp
  then have un: "unat (of_nat (length ?q) :: u32) = length ?q" by (rule unat_of_nat_small)
  have "p \<in> prices s rs" using Cons.prems(3) x by auto
  then have ne: "?q \<noteq> []" by (simp add: prices_queue)
  then have "0 < length ?q" by simp
  then have pos: "0 < (of_nat (length ?q) :: u32)" by (simp only: word_less_nat_alt un unat_0)
  have cq: "check_queue H b s p (length (slots (bk_orders b))) (head_of (queue_handles b ?q)) 0 0 =
      Inr (0 + qsum ?q, 0 + of_nat (length ?q))"
    by (rule check_queue_run [OF rep queue_subset _ ok(7) [OF m] queue_fits [OF rep]]) (auto simp: queue_def)
  have pv: "case prev of None \<Rightarrow> True | Some pv \<Rightarrow> if s = Buy then p < pv else pv < p"
    using Cons.prems(4) x by (cases s) (auto split: option.splits)
  have "check_levels H b s (Some p) xs (qty + qsum ?q) (levels + 1) (tot + length ?q) =
     Inr (qty + qsum ?q + sum_list (map (\<lambda>p. qsum (queue s p rs)) (map fst xs)), levels + 1 + of_nat (length xs),
         tot + length ?q + sum_list (map (\<lambda>p. length (queue s p rs)) (map fst xs)))"
    using Cons.prems x by (intro Cons.IH) auto
  then show ?case
    using x ok [OF m] cq pv pos un by (simp add: pool_ref_live add.assoc)
qed simp

text \<open>The queues of a side, taken together, are the orders of the side.\<close>

lemma queues_sum:
  fixes f :: "resting \<Rightarrow> 'x::comm_monoid_add"
  assumes "distinct ps" and "set ps = prices s rs"
  shows "sum_list (map (\<lambda>p. sum_list (map f (queue s p rs))) ps) = sum_list (map f (on_side s rs))"
proof -
  have "sum_list (map (\<lambda>p. sum_list (map f (queue s p ts))) ps) = sum_list (map f (on_side s ts))"
    if "set (map r_price (on_side s ts)) \<subseteq> set ps" for ts
    using that
  proof (induction ts)
    case Nil
    then show ?case by (simp add: queue_def on_side_def)
  next
    case (Cons x ts)
    have IH: "sum_list (map (\<lambda>p. sum_list (map f (queue s p ts))) ps) = sum_list (map f (on_side s ts))"
      using Cons by (auto simp: on_side_def split: if_splits)
    show ?case
    proof (cases "r_side x = s")
      case False
      then have "queue s p (x # ts) = queue s p ts" for p by (simp add: queue_def)
      with False IH show ?thesis by (simp add: on_side_def)
    next
      case True
      have "queue s p (x # ts) = (if p = r_price x then x # queue s p ts else queue s p ts)" for p
        using True by (simp add: queue_def)
      then have "sum_list (map f (queue s p (x # ts))) =
          (if p = r_price x then f x else 0) + sum_list (map f (queue s p ts))" for p
        by simp
      then have "sum_list (map (\<lambda>p. sum_list (map f (queue s p (x # ts)))) ps) =
          sum_list (map (\<lambda>p. if p = r_price x then f x else 0) ps) +
          sum_list (map (\<lambda>p. sum_list (map f (queue s p ts))) ps)"
        by (simp only: sum_list_addf)
      moreover have "sum_list (map (\<lambda>p. if p = r_price x then f x else 0) ps) = f x"
        using Cons.prems True assms(1) by (simp add: sum_list_distinct_conv_sum_set on_side_def)
      ultimately show ?thesis using True IH by (simp add: on_side_def)
    qed
  qed
  then show ?thesis using assms(2) by (simp add: prices_def on_side_def)
qed

lemma check_side_run:
  assumes rep: "rep H b rs"
  shows "check_side ops H b s tot = Inr (nb_total_qty rs s, nb_level_count rs s, tot + length (on_side s rs))"
proof -
  obtain xs where xs: "lm_levels ops (bk_ladders b s) = Inr xs" "map fst xs = level_prices s rs"
    and lev: "\<And>p lh. (p, lh) \<in> set xs \<Longrightarrow> level_ok b (queue s p rs) p lh"
    by (rule rep_levels [OF rep, of s]) (rule that; assumption)
  have ps: "set (map fst xs) = prices s rs" "sorted_wrt (closer s) (map fst xs)" "distinct (map fst xs)"
    using xs(2) level_prices_props [of s rs] inside_out_distinct [of s xs] by (simp_all add: inside_out_def)
  have "check_levels H b s None xs 0 0 tot =
    Inr (0 + sum_list (map (\<lambda>p. qsum (queue s p rs)) (map fst xs)), 0 + of_nat (length xs),
         tot + sum_list (map (\<lambda>p. length (queue s p rs)) (map fst xs)))"
    using ps by (intro check_levels_run [OF rep lev]) simp_all
  moreover have "sum_list (map (\<lambda>p. qsum (queue s p rs)) (map fst xs)) = nb_total_qty rs s"
    using queues_sum [OF ps(3,1), of "\<lambda>x. ucast (r_qty x) :: u64"] by (simp only: qsum_def nb_total_qty_def)
  moreover have "sum_list (map (\<lambda>p. length (queue s p rs)) (map fst xs)) = length (on_side s rs)"
    using queues_sum [OF ps(3,1), of "\<lambda>x. 1 :: nat"] by (simp add: sum_list_triv)
  moreover have "length xs = card (prices s rs)"
    using distinct_card [OF ps(3)] ps(1) by simp
  ultimately have walk: "check_levels H b s None xs 0 0 tot =
      Inr (nb_total_qty rs s, nb_level_count rs s, tot + length (on_side s rs))"
    by (simp add: nb_level_count_def)
  have best: "(if bk_empty ops b s then Inr ()
      else andthen (lm_best ops (bk_ladders b s)) (\<lambda>p. ensure (bk_best b s = p) (BookF BestCache))) = Inr ()"
  proof (cases "nb_empty rs s")
    case True
    then show ?thesis by (simp add: flat_empty [OF rep])
  next
    case False
    have "is_best s (prices s rs) (nb_best rs s)" using nb_best_is_best [of rs s] False by simp
    then have "lm_best ops (bk_ladders b s) = Inr (nb_best rs s)"
      using best_unique [OF rep_lm_inv [OF rep]] rep_prices [OF rep] by simp
    then show ?thesis
      using False fun_cong [OF flat_best [OF rep], of s] by (simp add: flat_empty [OF rep] bk_best_price_def)
  qed
  show ?thesis
    using validate_law [OF rep_lm_inv [OF rep]] xs(1) walk best by (simp add: check_side_def)
qed

lemma flat_validate:
  assumes rep: "rep H b rs"
  shows "bk_validate ops H b = Inr ()"
proof -
  have st: "oi_validate H (bk_index b) = Inr ()" "pool_validate order_slot (bk_orders b) = Inr ()"
    "pool_validate level_slot (bk_levels b) = Inr ()"
    using rep_storage [OF rep]
    by (simp_all add: storage_ok_def oi_validate_inv order_pool.pool_validate_inv level_pool.pool_validate_inv)
  have cnt: "bk_total_qty b = nb_total_qty rs" "bk_level_count b = nb_level_count rs" "bk_order_count b = of_nat (length rs)"
    using rep_counters [OF rep] by (simp_all add: counters_ok_def)
  have "unat (oi_size (bk_index b)) = length rs" by (simp add: oi_size_def rep_live_count [OF rep])
  moreover from this have "oi_size (bk_index b) = of_nat (length rs)" by (metis of_nat_unat ucast_id)
  ultimately show ?thesis
    using st cnt check_side_run [OF rep] on_side_split [of rs]
    by (simp add: bk_validate_def)
qed

end

section \<open>The contract\<close>

sublocale level_map \<subseteq> flat: order_book "flat_ops ops H" "rep H" bk_limit ok_price for H
proof unfold_locales
  fix b rs
  assume rep: "rep H b rs"
  show "wf_book rs" by (rule rep_wf [OF rep])
  show "length rs < 2 ^ 32" using storage_small(1) [OF rep_storage [OF rep]] by simp
  show "bo_order_count (flat_ops ops H) b = of_nat (length rs)"
    using rep_counters [OF rep] by (simp add: flat_ops_def counters_ok_def)
  show "bo_total_qty (flat_ops ops H) b = nb_total_qty rs" "bo_level_count (flat_ops ops H) b = nb_level_count rs"
    using rep_counters [OF rep] by (simp_all add: flat_ops_def counters_ok_def)
qed (simp_all add: flat_ops_def ok_price_nonzero rep_ok_price(1) flat_add flat_cancel flat_execute flat_remove
    flat_replace flat_empty flat_best flat_qty_at flat_orders_at flat_count flat_contains flat_of_queries
    flat_front_at flat_levels flat_validate del: naive_ops_simps)

end
