(* ===== verification/Matching_Engine.thy ===== *)
theory Matching_Engine
  imports Book_Spec
begin

text \<open>
  include/itch/engine/matching_engine.hpp: price-time priority matching over any order book.
  The engine holds a reference to its book; here the book is a field of its state. A call
  of \<open>submit\<close> returns the engine, the report and the fills appended to the caller's list.
\<close>

section \<open>Orders, fills and reports\<close>

datatype order_type = Limit | Market

datatype time_in_force = Day | Ioc

datatype stp_mode = Off | CancelNewest | CancelOldest | CancelBoth

record new_order =
  no_client_id :: u64
  no_owner :: u16
  no_side :: side
  no_type :: order_type
  no_tif :: time_in_force
  no_price :: price
  no_qty :: qty

record fill =
  f_aggressor :: u64
  f_resting :: order_ref
  f_aggressor_owner :: u16
  f_resting_owner :: u16
  f_price :: price
  f_qty :: qty

datatype outcome = Rested | FilledComplete | Cancelled | StpRejected

record report =
  rp_outcome :: outcome
  rp_resting_ref :: order_ref
  rp_filled :: qty
  rp_resting_qty :: qty
  rp_stp_cancelled_resting :: u32

record engine_stats =
  es_submitted :: u64
  es_fills :: u64
  es_filled_qty :: u64
  es_rested :: u64
  es_cancelled :: u64
  es_stp_events :: u64

record 'b engine =
  en_book :: 'b
  en_stp :: stp_mode
  en_next_ref :: order_ref
  en_stats :: engine_stats

definition engine_new :: "'b \<Rightarrow> stp_mode \<Rightarrow> 'b engine" where
  "engine_new book stp = \<lparr>en_book = book, en_stp = stp, en_next_ref = 1,
     en_stats = \<lparr>es_submitted = 0, es_fills = 0, es_filled_qty = 0, es_rested = 0, es_cancelled = 0,
       es_stp_events = 0\<rparr>\<rparr>"

definition crosses :: "new_order \<Rightarrow> price \<Rightarrow> bool" where
  "crosses order touch =
     (if no_type order = Market then True
      else if no_side order = Buy then touch \<le> no_price order else no_price order \<le> touch)"

section \<open>The matching loop\<close>

text \<open>The locals of \<open>submit\<close> during its loop; the counters of the report and the statistics
  the loop touches are kept with them.\<close>

record 'b match =
  m_engine :: "'b engine"
  m_remaining :: qty
  m_stp_stop :: bool
  m_fills :: "fill list"
  m_filled :: qty
  m_stp_cancelled :: u32

definition note_stp_event :: "'b match \<Rightarrow> 'b match" where
  "note_stp_event m =
     (let e = m_engine m; st = en_stats e in
      m\<lparr>m_engine := e\<lparr>en_stats := st\<lparr>es_stp_events := es_stp_events st + 1\<rparr>\<rparr>\<rparr>)"

definition pull_resting :: "'b book_ops \<Rightarrow> order_ref \<Rightarrow> 'b match \<Rightarrow> failure + 'b match" where
  "pull_resting ops resting m =
     andthen (bo_remove ops resting (en_book (m_engine m))) (\<lambda>book.
       Inr (m\<lparr>m_engine := (m_engine m)\<lparr>en_book := book\<rparr>, m_stp_cancelled := m_stp_cancelled m + 1\<rparr>))"

text \<open>Whether the resting order belongs to the aggressor and is to be prevented from trading.\<close>

definition self_trade :: "'b book_ops \<Rightarrow> new_order \<Rightarrow> order_ref \<Rightarrow> 'b match \<Rightarrow> failure + bool" where
  "self_trade ops order resting m =
     (if en_stp (m_engine m) = Off then Inr False
      else andthen (bo_owner_of ops (en_book (m_engine m)) resting) (\<lambda>owner.
             Inr (owner = no_owner order \<and> no_owner order \<noteq> 0)))"

definition trade :: "'b book_ops \<Rightarrow> new_order \<Rightarrow> price \<Rightarrow> order_ref \<Rightarrow> 'b match \<Rightarrow> failure + 'b match" where
  "trade ops order touch resting m =
     (let e = m_engine m; book = en_book e; st = en_stats e in
      andthen (bo_qty_of ops book resting) (\<lambda>available.
      let traded = (if m_remaining m < available then m_remaining m else available) in
      andthen (bo_owner_of ops book resting) (\<lambda>owner.
      andthen (bo_execute ops resting traded book) (\<lambda>(book', _).
        Inr (m\<lparr>m_engine := e\<lparr>en_book := book', en_stats := st\<lparr>es_fills := es_fills st + 1,
                  es_filled_qty := es_filled_qty st + ucast traded\<rparr>\<rparr>,
               m_remaining := m_remaining m - traded,
               m_fills := m_fills m @ [\<lparr>f_aggressor = no_client_id order, f_resting = resting,
                  f_aggressor_owner = no_owner order, f_resting_owner = owner, f_price = touch,
                  f_qty = traded\<rparr>],
               m_filled := m_filled m + traded\<rparr>)))))"

text \<open>
  One turn of the loop, entered while something remains and the other side has an order:
  the state after it, and whether the loop goes on (it does not after a \<open>break\<close>).
\<close>

definition match_turn :: "'b book_ops \<Rightarrow> new_order \<Rightarrow> 'b match \<Rightarrow> failure + bool \<times> 'b match" where
  "match_turn ops order m =
     (let book = en_book (m_engine m); other = opposite (no_side order); touch = bo_best ops book other in
      if \<not> crosses order touch then Inr (False, m)
      else
        andthen (bo_front_at ops book other touch) (\<lambda>resting.
        andthen (ensure (resting \<noteq> 0) (EngineF TouchNoOrder)) (\<lambda>_.
        andthen (self_trade ops order resting m) (\<lambda>self.
        if self then
          let m = note_stp_event m in
          case en_stp (m_engine m) of
            CancelOldest \<Rightarrow> andthen (pull_resting ops resting m) (\<lambda>m. Inr (True, m))
          | CancelBoth \<Rightarrow> andthen (pull_resting ops resting m) (\<lambda>m. Inr (False, m\<lparr>m_stp_stop := True\<rparr>))
          | CancelNewest \<Rightarrow> Inr (False, m\<lparr>m_stp_stop := True\<rparr>)
          | Off \<Rightarrow> andthen (trade ops order touch resting m) (\<lambda>m. Inr (True, m))
        else andthen (trade ops order touch resting m) (\<lambda>m. Inr (True, m))))))"

definition more_to_match :: "'b book_ops \<Rightarrow> new_order \<Rightarrow> 'b match \<Rightarrow> bool" where
  "more_to_match ops order m \<longleftrightarrow>
     0 < m_remaining m \<and> \<not> bo_empty ops (en_book (m_engine m)) (opposite (no_side order))"

fun match_loop :: "'b book_ops \<Rightarrow> new_order \<Rightarrow> nat \<Rightarrow> 'b match \<Rightarrow> failure + 'b match" where
  "match_loop ops order 0 m = (if more_to_match ops order m then Inl Diverges else Inr m)"
| "match_loop ops order (Suc fuel) m =
     (if more_to_match ops order m then
        andthen (match_turn ops order m) (\<lambda>(go, m). if go then match_loop ops order fuel m else Inr m)
      else Inr m)"

section \<open>Submitting and cancelling\<close>

text \<open>The fuel is one more than the orders that rest: every turn that goes on takes one of
  them off the book or leaves nothing to match.\<close>

definition bump_submitted :: "'b engine \<Rightarrow> 'b engine" where
  "bump_submitted e = e\<lparr>en_stats := (en_stats e)\<lparr>es_submitted := es_submitted (en_stats e) + 1\<rparr>\<rparr>"

definition bump_cancelled :: "'b engine \<Rightarrow> 'b engine" where
  "bump_cancelled e = e\<lparr>en_stats := (en_stats e)\<lparr>es_cancelled := es_cancelled (en_stats e) + 1\<rparr>\<rparr>"

definition bump_rested :: "'b engine \<Rightarrow> 'b engine" where
  "bump_rested e = e\<lparr>en_stats := (en_stats e)\<lparr>es_rested := es_rested (en_stats e) + 1\<rparr>\<rparr>"

definition settle :: "'b book_ops \<Rightarrow> new_order \<Rightarrow> 'b match \<Rightarrow> failure + 'b engine \<times> report \<times> fill list" where
  "settle ops order m =
     (let e = m_engine m;
          rep = \<lparr>rp_outcome = Cancelled, rp_resting_ref = 0, rp_filled = m_filled m, rp_resting_qty = 0,
                 rp_stp_cancelled_resting = m_stp_cancelled m\<rparr> in
      if m_stp_stop m then Inr (bump_cancelled e, rep\<lparr>rp_outcome := StpRejected\<rparr>, m_fills m)
      else if m_remaining m = 0 then Inr (e, rep\<lparr>rp_outcome := FilledComplete\<rparr>, m_fills m)
      else if no_type order = Market \<or> no_tif order = Ioc then
        Inr (bump_cancelled e, rep\<lparr>rp_outcome := Cancelled\<rparr>, m_fills m)
      else
        let ref = en_next_ref e in
        andthen (bo_add ops ref (no_side order) (no_price order) (m_remaining m) (no_owner order) (en_book e))
          (\<lambda>book. Inr (bump_rested (e\<lparr>en_next_ref := ref + 1, en_book := book\<rparr>),
             rep\<lparr>rp_resting_ref := ref, rp_outcome := Rested, rp_resting_qty := m_remaining m\<rparr>, m_fills m)))"

definition submit :: "'b book_ops \<Rightarrow> new_order \<Rightarrow> fill list \<Rightarrow> 'b engine \<Rightarrow>
    failure + 'b engine \<times> report \<times> fill list" where
  "submit ops order fills e =
     andthen (ensure (0 < no_qty order) (EngineF SubmitNoQuantity)) (\<lambda>_.
     andthen (ensure (no_type order = Market \<or> 0 < no_price order) (EngineF LimitNoPrice)) (\<lambda>_.
     andthen (match_loop ops order (Suc (bo_count ops (en_book e)))
                \<lparr>m_engine = bump_submitted e, m_remaining = no_qty order, m_stp_stop = False, m_fills = fills,
                 m_filled = 0, m_stp_cancelled = 0\<rparr>) (settle ops order)))"

definition engine_cancel :: "'b book_ops \<Rightarrow> order_ref \<Rightarrow> 'b engine \<Rightarrow> failure + 'b engine" where
  "engine_cancel ops ref e =
     andthen (bo_remove ops ref (en_book e)) (\<lambda>book. Inr (bump_cancelled (e\<lparr>en_book := book\<rparr>)))"

definition set_stp_mode :: "stp_mode \<Rightarrow> 'b engine \<Rightarrow> 'b engine" where
  "set_stp_mode mode e = e\<lparr>en_stp := mode\<rparr>"

end
