(* ===== verification/Priority.thy ===== *)
theory Priority
  imports Book_Spec
begin

text \<open>
  The orders of a side in price-time priority: level by level from the inside, each level's
  queue oldest first. Taking from the front of this list is taking the front order of the
  best level.
\<close>

definition priority :: "side \<Rightarrow> naive_book \<Rightarrow> naive_book" where
  "priority s rs = concat (map (\<lambda>p. queue s p rs) (level_prices s rs))"

lemma set_priority: "set (priority s rs) = set (on_side s rs)"
  by (auto simp: priority_def level_prices_props prices_def queue_def on_side_def)

lemma priority_side: "x \<in> set (priority s rs) \<longleftrightarrow> x \<in> set rs \<and> r_side x = s"
  by (auto simp: set_priority on_side_def)

lemma priority_Nil: "priority s rs = [] \<longleftrightarrow> nb_empty rs s"
  using set_priority [of s rs] by (auto simp: nb_empty_def on_side_def filter_empty_conv simp flip: set_empty)

lemma priority_cong:
  assumes "\<And>p. queue s p rs = queue s p rs'"
  shows "priority s rs = priority s rs'"
proof -
  have "prices s rs = prices s rs'" using assms by (auto simp: prices_queue)
  then have "level_prices s rs = level_prices s rs'"
    using level_prices_props [of s rs] level_prices_unique [of s "level_prices s rs" rs'] by simp
  then show ?thesis by (simp add: priority_def assms)
qed

text \<open>The first order in priority and the lists without it.\<close>

lemma priority_Cons:
  assumes "priority s rs = x # xs"
  obtains q ps where "level_prices s rs = r_price x # ps" and "queue s (r_price x) rs = x # q"
    and "xs = q @ concat (map (\<lambda>p. queue s p rs) ps)" and "x \<in> set rs" and "r_side x = s"
    and "\<And>p. p \<in> set ps \<Longrightarrow> p \<noteq> r_price x"
proof -
  have x: "x \<in> set rs" "r_side x = s" using assms priority_side [of x s rs] by simp_all
  obtain p ps where ps: "level_prices s rs = p # ps" using assms by (cases "level_prices s rs") (auto simp: priority_def)
  then have "p \<in> prices s rs" using level_prices_props(1) [of s rs] by auto
  then obtain y q where q: "queue s p rs = y # q" by (cases "queue s p rs") (auto simp: prices_queue)
  then have "y = x" "xs = q @ concat (map (\<lambda>p. queue s p rs) ps)" using assms ps by (simp_all add: priority_def)
  moreover have "r_price y = p"
  proof -
    have "y \<in> set (queue s p rs)" using q by simp
    then show ?thesis by (simp add: queue_def)
  qed
  moreover have "p' \<noteq> p" if "p' \<in> set ps" for p'
    using level_prices_props(2) [of s rs] ps that by auto
  ultimately show ?thesis using ps q x by (intro that) simp_all
qed

lemma priority_front:
  assumes "priority s rs = x # xs"
  shows "nb_best rs s = r_price x" and "sb_front_at rs s (r_price x) = r_ref x"
proof -
  obtain q ps where c: "level_prices s rs = r_price x # ps" "queue s (r_price x) rs = x # q"
    by (rule priority_Cons [OF assms]) (rule that; assumption)
  show "sb_front_at rs s (r_price x) = r_ref x" by (simp add: sb_front_at_def c(2))
  have "is_best s (set (level_prices s rs)) (r_price x)"
    using level_prices_props(2) [of s rs] c(1) closer_asym by (auto simp: is_best_def)
  then show "nb_best rs s = r_price x" by (intro nb_best_unique) (simp add: level_prices_props)
qed

lemma priority_erase_front:
  assumes "wf_book rs" and "priority s rs = x # xs"
  shows "priority s (nb_erase (r_ref x) rs) = xs"
proof -
  obtain q ps where c: "level_prices s rs = r_price x # ps" "queue s (r_price x) rs = x # q"
    "xs = q @ concat (map (\<lambda>p. queue s p rs) ps)" "x \<in> set rs" "r_side x = s"
    "\<And>p. p \<in> set ps \<Longrightarrow> p \<noteq> r_price x"
    by (rule priority_Cons [OF assms(2)]) (rule that; assumption)
  let ?rs = "nb_erase (r_ref x) rs"
  have "r_ref x \<notin> r_ref ` set q"
    using wf_queue [OF assms(1), of s "r_price x"] by (simp add: c(2) wf_book_def)
  then have q: "queue s (r_price x) ?rs = q"
    using nb_erase_absent [of "r_ref x" q] by (simp add: queue_erase c(2)) (simp add: nb_erase_def)
  have other: "queue s p ?rs = queue s p rs" if "p \<noteq> r_price x" for p
    using that by (intro queue_erase_other [OF assms(1) c(4)]) simp
  have sorted: "sorted_wrt (closer s) (r_price x # ps)" using level_prices_props(2) [of s rs] c(1) by simp
  have pr: "prices s rs = insert (r_price x) (set ps)" using level_prices_props(1) [of s rs] c(1) by simp
  show ?thesis
  proof (cases "q = []")
    case True
    then have "prices s ?rs = set ps"
      using prices_erase [OF assms(1) c(4), of s] c(5,6) q pr by auto
    then have "level_prices s ?rs = ps" using sorted by (intro level_prices_unique [symmetric]) simp_all
    then have "priority s ?rs = concat (map (\<lambda>p. queue s p rs) ps)"
      using other c(6) by (simp add: priority_def cong: map_cong)
    with True c(3) show ?thesis by simp
  next
    case False
    then have "prices s ?rs = insert (r_price x) (set ps)"
      using prices_erase [OF assms(1) c(4), of s] c(5) q pr by auto
    then have "level_prices s ?rs = r_price x # ps" using sorted by (intro level_prices_unique [symmetric]) simp_all
    then show ?thesis using other c(3,6) q by (simp add: priority_def cong: map_cong)
  qed
qed

lemma priority_take_front:
  assumes "wf_book rs" and "priority s rs = x # xs"
  shows "priority s (nb_take (r_ref x) n rs) = x\<lparr>r_qty := r_qty x - n\<rparr> # xs"
proof -
  obtain q ps where c: "level_prices s rs = r_price x # ps" "queue s (r_price x) rs = x # q"
    "xs = q @ concat (map (\<lambda>p. queue s p rs) ps)" "x \<in> set rs" "r_side x = s"
    "\<And>p. p \<in> set ps \<Longrightarrow> p \<noteq> r_price x"
    by (rule priority_Cons [OF assms(2)]) (rule that; assumption)
  let ?rs = "nb_take (r_ref x) n rs"
  have "r_ref x \<notin> r_ref ` set q"
    using wf_queue [OF assms(1), of s "r_price x"] by (simp add: c(2) wf_book_def)
  then have q: "queue s (r_price x) ?rs = x\<lparr>r_qty := r_qty x - n\<rparr> # q"
    using nb_take_absent [of "r_ref x" q n] by (simp add: queue_take c(2)) (simp add: nb_take_def)
  have other: "queue s p ?rs = queue s p rs" if "p \<noteq> r_price x" for p
    using that by (intro queue_take_other [OF assms(1) c(4)]) simp
  have "level_prices s ?rs = r_price x # ps"
    using level_prices_props [of s rs] c(1) by (intro level_prices_unique [symmetric]) (simp_all add: nb_take_fields)
  then show ?thesis using other c(3,6) q by (simp add: priority_def cong: map_cong)
qed

text \<open>The other side is not touched.\<close>

lemma priority_other_side:
  assumes "wf_book rs" and "x \<in> set rs" and "r_side x \<noteq> s"
  shows "priority s (nb_erase (r_ref x) rs) = priority s rs"
    and "priority s (nb_take (r_ref x) n rs) = priority s rs"
  using assms queue_erase_other [OF assms(1,2)] queue_take_other [OF assms(1,2)]
  by (auto intro: priority_cong)

text \<open>The queue at a price is read off the priority list.\<close>

lemma queue_priority: "queue s p rs = filter (\<lambda>x. r_price x = p) (priority s rs)"
proof -
  have q: "filter (\<lambda>x. r_price x = p) (queue s p' rs) = (if p' = p then queue s p rs else [])" for p'
    by (auto simp: queue_def filter_empty_conv intro: filter_True cong: filter_cong)
  have "filter (\<lambda>x. r_price x = p) (concat (map (\<lambda>p. queue s p rs) ps)) = (if p \<in> set ps then queue s p rs else [])"
    if "distinct ps" for ps
    using that by (induction ps) (auto simp: q)
  moreover have "distinct ps" if "sorted_wrt (closer s) ps" for ps
    using that by (induction ps) auto
  then have "distinct (level_prices s rs)" using level_prices_props(2) .
  ultimately show ?thesis
    by (simp add: priority_def level_prices_props prices_queue)
qed

end
