(* ===== verification/Matching_Laws.thy ===== *)
theory Matching_Laws
  imports Matching_Engine Priority
begin

text \<open>
  What matching is: a sweep along the other side in price-time priority. The loop of
  \<open>submit\<close> over the list of resting orders is shown to end and to be this sweep; its
  guarantees are then facts about lists.
\<close>

section \<open>The sweep\<close>

record swept =
  sw_fills :: "fill list"
  sw_left :: qty
  sw_stopped :: bool
  sw_pulled :: nat
  sw_events :: nat
  sw_book :: naive_book

definition own_order :: "stp_mode \<Rightarrow> new_order \<Rightarrow> resting \<Rightarrow> bool" where
  "own_order stp o' x \<longleftrightarrow> stp \<noteq> Off \<and> r_owner x = no_owner o' \<and> no_owner o' \<noteq> 0"

definition fill_of :: "new_order \<Rightarrow> resting \<Rightarrow> qty \<Rightarrow> fill" where
  "fill_of o' x n = \<lparr>f_aggressor = no_client_id o', f_resting = r_ref x, f_aggressor_owner = no_owner o',
     f_resting_owner = r_owner x, f_price = r_price x, f_qty = n\<rparr>"

fun sweep :: "stp_mode \<Rightarrow> new_order \<Rightarrow> naive_book \<Rightarrow> qty \<Rightarrow> swept" where
  "sweep stp o' [] q =
     \<lparr>sw_fills = [], sw_left = q, sw_stopped = False, sw_pulled = 0, sw_events = 0, sw_book = []\<rparr>"
| "sweep stp o' (x # xs) q =
     (if q = 0 \<or> \<not> crosses o' (r_price x) then
        \<lparr>sw_fills = [], sw_left = q, sw_stopped = False, sw_pulled = 0, sw_events = 0, sw_book = x # xs\<rparr>
      else if own_order stp o' x then
        (if stp = CancelOldest then
           let w = sweep stp o' xs q in w\<lparr>sw_pulled := Suc (sw_pulled w), sw_events := Suc (sw_events w)\<rparr>
         else if stp = CancelBoth then
           \<lparr>sw_fills = [], sw_left = q, sw_stopped = True, sw_pulled = 1, sw_events = 1, sw_book = xs\<rparr>
         else
           \<lparr>sw_fills = [], sw_left = q, sw_stopped = True, sw_pulled = 0, sw_events = 1, sw_book = x # xs\<rparr>)
      else if q < r_qty x then
        \<lparr>sw_fills = [fill_of o' x q], sw_left = 0, sw_stopped = False, sw_pulled = 0, sw_events = 0,
         sw_book = x\<lparr>r_qty := r_qty x - q\<rparr> # xs\<rparr>
      else
        let w = sweep stp o' xs (q - r_qty x) in w\<lparr>sw_fills := fill_of o' x (r_qty x) # sw_fills w\<rparr>)"

section \<open>One turn on the list of resting orders\<close>

definition pulled_state :: "resting \<Rightarrow> naive_book match \<Rightarrow> naive_book match" where
  "pulled_state x m =
     (let m = note_stp_event m in
      m\<lparr>m_engine := (m_engine m)\<lparr>en_book := nb_erase (r_ref x) (en_book (m_engine m))\<rparr>,
        m_stp_cancelled := m_stp_cancelled m + 1\<rparr>)"

definition traded_state :: "new_order \<Rightarrow> resting \<Rightarrow> naive_book match \<Rightarrow> naive_book match" where
  "traded_state o' x m =
     (let n = (if m_remaining m < r_qty x then m_remaining m else r_qty x); e = m_engine m; st = en_stats e in
      m\<lparr>m_engine := e\<lparr>en_book := nb_cancel (r_ref x) n (en_book e),
          en_stats := st\<lparr>es_fills := es_fills st + 1, es_filled_qty := es_filled_qty st + ucast n\<rparr>\<rparr>,
        m_remaining := m_remaining m - n, m_fills := m_fills m @ [fill_of o' x n],
        m_filled := m_filled m + n\<rparr>)"

lemma sb_require_front:
  assumes "wf_book rs" and "x \<in> set rs"
  shows "sb_require rs (r_ref x) what = Inr x"
  using assms nb_find_Some [OF assms(1), of "r_ref x" x] by (simp add: sb_require_def)

lemma sb_require_missing:
  assumes "wf_book rs" and "ref \<notin> r_ref ` set rs"
  shows "sb_require rs ref what = Inl (BookF what)"
  by (rule sb_require_cases [OF assms(1), of ref what]) (use assms(2) in auto)

lemma match_turn_naive:
  assumes book: "en_book (m_engine m) = rs" and wf: "wf_book rs"
    and pr: "priority (opposite (no_side o')) rs = x # xs" and nz: "r_ref x \<noteq> 0"
  shows "match_turn naive_ops o' m =
    (if \<not> crosses o' (r_price x) then Inr (False, m)
     else if own_order (en_stp (m_engine m)) o' x then
       (if en_stp (m_engine m) = CancelOldest then Inr (True, pulled_state x m)
        else if en_stp (m_engine m) = CancelBoth then Inr (False, (pulled_state x m)\<lparr>m_stp_stop := True\<rparr>)
        else Inr (False, (note_stp_event m)\<lparr>m_stp_stop := True\<rparr>))
     else Inr (True, traded_state o' x m))"
proof -
  have x: "x \<in> set rs" using pr priority_side [of x "opposite (no_side o')" rs] by simp
  note req = sb_require_front [OF wf x]
  note front = priority_front [OF pr]
  have same: "en_book (m_engine (note_stp_event m)) = rs" "en_stp (m_engine (note_stp_event m)) = en_stp (m_engine m)"
    by (simp_all add: note_stp_event_def Let_def book)
  have st: "self_trade naive_ops o' (r_ref x) m = Inr (own_order (en_stp (m_engine m)) o' x)"
    by (simp add: self_trade_def own_order_def book req)
  have pull: "pull_resting naive_ops (r_ref x) (note_stp_event m) = Inr (pulled_state x m)"
    by (simp add: pull_resting_def sb_remove_def same req pulled_state_def Let_def)
  have tr: "trade naive_ops o' (r_price x) (r_ref x) m = Inr (traded_state o' x m)"
    by (auto simp: trade_def Let_def book req sb_execute_def traded_state_def fill_of_def)
  show ?thesis
    using front nz st pull tr same own_order_def
    by (cases "en_stp (m_engine m)") (simp_all add: match_turn_def book Let_def)
qed

section \<open>The loop is the sweep\<close>

text \<open>What a run of the loop from \<open>m\<close> with the sweep \<open>w\<close> leaves.\<close>

definition loop_result :: "new_order \<Rightarrow> naive_book match \<Rightarrow> swept \<Rightarrow> naive_book match \<Rightarrow> bool" where
  "loop_result o' m w m' \<longleftrightarrow>
     (let rs = en_book (m_engine m); rs' = en_book (m_engine m'); s = no_side o';
          st = en_stats (m_engine m); st' = en_stats (m_engine m') in
      m_fills m' = m_fills m @ sw_fills w \<and> m_remaining m' = sw_left w \<and> m_stp_stop m' = sw_stopped w \<and>
      m_filled m' = m_filled m + sum_list (map f_qty (sw_fills w)) \<and>
      m_stp_cancelled m' = m_stp_cancelled m + of_nat (sw_pulled w) \<and>
      priority (opposite s) rs' = sw_book w \<and> priority s rs' = priority s rs \<and> wf_book rs' \<and>
      r_ref ` set rs' \<subseteq> r_ref ` set rs \<and> length rs' \<le> length rs \<and>
      en_stp (m_engine m') = en_stp (m_engine m) \<and> en_next_ref (m_engine m') = en_next_ref (m_engine m) \<and>
      st' = st\<lparr>es_fills := es_fills st + of_nat (length (sw_fills w)),
        es_filled_qty := es_filled_qty st + sum_list (map (\<lambda>f. ucast (f_qty f)) (sw_fills w)),
        es_stp_events := es_stp_events st + of_nat (sw_events w)\<rparr>)"

lemma loop_result_pulled:
  assumes wf: "wf_book (en_book (m_engine m))" and x: "x \<in> set (en_book (m_engine m))" "r_side x = opposite (no_side o')"
    and r: "loop_result o' (pulled_state x m) w m'"
  shows "loop_result o' m (w\<lparr>sw_pulled := Suc (sw_pulled w), sw_events := Suc (sw_events w)\<rparr>) m'"
proof -
  have "priority (no_side o') (nb_erase (r_ref x) (en_book (m_engine m))) = priority (no_side o') (en_book (m_engine m))"
    by (rule priority_other_side(1) [OF wf x(1)]) (simp add: x(2))
  moreover have "r_ref ` set (nb_erase (r_ref x) (en_book (m_engine m))) \<subseteq> r_ref ` set (en_book (m_engine m))"
    "length (nb_erase (r_ref x) (en_book (m_engine m))) \<le> length (en_book (m_engine m))"
    by (auto simp: nb_erase_def)
  ultimately show ?thesis
    using r by (simp add: loop_result_def Let_def pulled_state_def note_stp_event_def ac_simps)
      (meson order_trans)
qed

lemma loop_result_traded:
  assumes wf: "wf_book (en_book (m_engine m))" and x: "x \<in> set (en_book (m_engine m))" "r_side x = opposite (no_side o')"
    and le: "r_qty x \<le> m_remaining m" and r: "loop_result o' (traded_state o' x m) w m'"
  shows "loop_result o' m (w\<lparr>sw_fills := fill_of o' x (r_qty x) # sw_fills w\<rparr>) m'"
proof -
  have "nb_cancel (r_ref x) (r_qty x) (en_book (m_engine m)) = nb_erase (r_ref x) (en_book (m_engine m))"
    by (simp add: nb_cancel_cases [OF wf x(1)])
  moreover have "priority (no_side o') (nb_erase (r_ref x) (en_book (m_engine m))) = priority (no_side o') (en_book (m_engine m))"
    by (rule priority_other_side(1) [OF wf x(1)]) (simp add: x(2))
  moreover have "r_ref ` set (nb_erase (r_ref x) (en_book (m_engine m))) \<subseteq> r_ref ` set (en_book (m_engine m))"
    "length (nb_erase (r_ref x) (en_book (m_engine m))) \<le> length (en_book (m_engine m))"
    by (auto simp: nb_erase_def)
  moreover have "(m_remaining m < r_qty x) = False" using le by auto
  ultimately show ?thesis
    using r by (simp add: loop_result_def Let_def traded_state_def fill_of_def ac_simps)
      (meson order_trans)
qed

lemma loop_result_last:
  assumes wf: "wf_book (en_book (m_engine m))" and pr: "priority (opposite (no_side o')) (en_book (m_engine m)) = x # xs"
    and q: "m_remaining m < r_qty x" and stop: "\<not> m_stp_stop m"
  shows "loop_result o' m \<lparr>sw_fills = [fill_of o' x (m_remaining m)], sw_left = 0, sw_stopped = False, sw_pulled = 0,
    sw_events = 0, sw_book = x\<lparr>r_qty := r_qty x - m_remaining m\<rparr> # xs\<rparr> (traded_state o' x m)"
proof -
  let ?rs = "en_book (m_engine m)" and ?q = "m_remaining m"
  have x: "x \<in> set ?rs" "r_side x = opposite (no_side o')" using pr priority_side [of x _ ?rs] by (metis list.set_intros(1))+
  have "nb_cancel (r_ref x) ?q ?rs = nb_take (r_ref x) ?q ?rs"
    using q by (auto simp: nb_cancel_cases [OF wf x(1) refl])
  moreover have "wf_book (nb_cancel (r_ref x) ?q ?rs)" by (rule wf_nb_cancel [OF wf x(1) refl])
  moreover have "priority (no_side o') (nb_take (r_ref x) ?q ?rs) = priority (no_side o') ?rs"
    by (rule priority_other_side(2) [OF wf x(1)]) (simp add: x(2))
  ultimately show ?thesis
    using q stop priority_take_front [OF wf pr, of ?q]
    by (auto simp: loop_result_def Let_def traded_state_def fill_of_def nb_take_fields)
qed

lemma loop_sweep:
  assumes "wf_book (en_book (m_engine m))" and "0 \<notin> r_ref ` set (en_book (m_engine m))"
    and "length (en_book (m_engine m)) < fuel" and "\<not> m_stp_stop m"
  shows "\<exists>m'. match_loop naive_ops o' fuel m = Inr m' \<and>
    loop_result o' m (sweep (en_stp (m_engine m)) o' (priority (opposite (no_side o')) (en_book (m_engine m)))
      (m_remaining m)) m'"
  using assms
proof (induction fuel arbitrary: m)
  case 0
  then show ?case by simp
next
  case (Suc fuel)
  let ?rs = "en_book (m_engine m)" and ?s = "opposite (no_side o')" and ?q = "m_remaining m" and ?stp = "en_stp (m_engine m)"
  have done': "loop_result o' m (sweep ?stp o' (priority ?s ?rs) ?q) m"
    if "sweep ?stp o' (priority ?s ?rs) ?q = \<lparr>sw_fills = [], sw_left = ?q, sw_stopped = False, sw_pulled = 0,
      sw_events = 0, sw_book = priority ?s ?rs\<rparr>"
    using Suc.prems by (simp add: loop_result_def that Let_def)
  show ?case
  proof (cases "priority ?s ?rs")
    case Nil
    then have "\<not> more_to_match naive_ops o' m" by (simp add: more_to_match_def priority_Nil)
    then show ?thesis using done' Nil by simp
  next
    case (Cons x xs)
    have x: "x \<in> set ?rs" "r_side x = ?s" using Cons priority_side [of x ?s ?rs] by simp_all
    have nz: "r_ref x \<noteq> 0" using Suc.prems(2) x(1) by auto
    have more': "more_to_match naive_ops o' m \<longleftrightarrow> ?q \<noteq> 0"
      using Cons priority_Nil [of ?s ?rs] by (auto simp: more_to_match_def word_gt_0)
    note turn = match_turn_naive [OF refl Suc.prems(1) Cons nz]
    show ?thesis
    proof (cases "?q = 0 \<or> \<not> crosses o' (r_price x)")
      case True
      then show ?thesis using done' Cons more' turn by auto
    next
      case go: False
      let ?pulled = "pulled_state x m" and ?traded = "traded_state o' x m"
      have erased: "wf_book (nb_erase (r_ref x) ?rs)" "0 \<notin> r_ref ` set (nb_erase (r_ref x) ?rs)"
        "length (nb_erase (r_ref x) ?rs) < fuel" "priority ?s (nb_erase (r_ref x) ?rs) = xs"
        using Suc.prems wf_nb_erase length_nb_erase [OF Suc.prems(1) x(1)] priority_erase_front [OF Suc.prems(1) Cons]
        by (auto simp: nb_erase_def)
      have pulled: "en_book (m_engine ?pulled) = nb_erase (r_ref x) ?rs" "m_remaining ?pulled = ?q"
        "en_stp (m_engine ?pulled) = ?stp" "\<not> m_stp_stop ?pulled"
        using Suc.prems(4) by (simp_all add: pulled_state_def note_stp_event_def Let_def)
      consider (oldest) "own_order ?stp o' x" "?stp = CancelOldest"
        | (both) "own_order ?stp o' x" "?stp = CancelBoth"
        | (newest) "own_order ?stp o' x" "?stp \<noteq> CancelOldest" "?stp \<noteq> CancelBoth"
        | (last) "\<not> own_order ?stp o' x" "?q < r_qty x"
        | (whole) "\<not> own_order ?stp o' x" "r_qty x \<le> ?q"
        by (meson not_le)
      then show ?thesis
      proof cases
        case oldest
        obtain m' where m': "match_loop naive_ops o' fuel ?pulled = Inr m'"
          "loop_result o' ?pulled (sweep ?stp o' xs ?q) m'"
          using Suc.IH [of ?pulled] erased pulled by auto
        then show ?thesis
          using loop_result_pulled [OF Suc.prems(1) x m'(2)] go oldest more' turn Cons by (simp add: Let_def)
      next
        case both
        have "loop_result o' m \<lparr>sw_fills = [], sw_left = ?q, sw_stopped = True, sw_pulled = 1, sw_events = 1, sw_book = xs\<rparr>
            (?pulled\<lparr>m_stp_stop := True\<rparr>)"
          using erased priority_other_side(1) [OF Suc.prems(1) x(1), of "no_side o'"] x(2)
          by (auto simp: loop_result_def Let_def pulled_state_def note_stp_event_def) (auto simp: nb_erase_def)
        then show ?thesis using go both more' turn Cons by simp
      next
        case newest
        have "loop_result o' m \<lparr>sw_fills = [], sw_left = ?q, sw_stopped = True, sw_pulled = 0, sw_events = 1, sw_book = x # xs\<rparr>
            ((note_stp_event m)\<lparr>m_stp_stop := True\<rparr>)"
          using Suc.prems(1) Cons by (simp add: loop_result_def Let_def note_stp_event_def)
        then show ?thesis using go newest more' turn Cons by simp
      next
        case last
        have "\<not> more_to_match naive_ops o' ?traded"
          using last(2) by (simp add: more_to_match_def traded_state_def Let_def)
        then have "match_loop naive_ops o' fuel ?traded = Inr ?traded" by (cases fuel) simp_all
        then show ?thesis
          using loop_result_last [OF Suc.prems(1) Cons last(2) Suc.prems(4)] go last more' turn Cons by simp
      next
        case whole
        have less: "(?q < r_qty x) = False" using whole(2) by auto
        have tr: "en_book (m_engine ?traded) = nb_erase (r_ref x) ?rs" "m_remaining ?traded = ?q - r_qty x"
          "en_stp (m_engine ?traded) = ?stp" "\<not> m_stp_stop ?traded"
          using less Suc.prems(4) nb_cancel_cases [OF Suc.prems(1) x(1) refl, of "r_qty x"]
          by (simp_all add: traded_state_def Let_def)
        obtain m' where m': "match_loop naive_ops o' fuel ?traded = Inr m'"
          "loop_result o' ?traded (sweep ?stp o' xs (?q - r_qty x)) m'"
          using Suc.IH [of ?traded] erased tr by auto
        then show ?thesis
          using loop_result_traded [OF Suc.prems(1) x whole(2) m'(2)] go whole(1) less more' turn Cons
          by (simp add: Let_def)
      qed
    qed
  qed
qed

end
