(* ===== verification/Matching_Engine_Laws.thy ===== *)
theory Matching_Engine_Laws
  imports Matching_Laws "HOL-Library.Sublist"
begin

text \<open>
  The guarantees of the engine: what a sweep conserves and respects, what \<open>submit\<close> does on the
  list of resting orders, and that over any order book it does the same.
\<close>

section \<open>Facts of the sweep\<close>

lemma sweep_left_le: "sw_left (sweep stp o' xs q) \<le> q"
proof (induction stp o' xs q rule: sweep.induct)
  case (2 stp o' x xs q)
  have "q - r_qty x \<le> q" if "\<not> q < r_qty x" using that by (simp add: word_sub_le not_less)
  with 2 show ?case by (auto simp: Let_def intro: order_trans)
qed simp

text \<open>Nothing is lost and nothing is made up.\<close>

lemma sweep_conserves:
  "unat (sw_left (sweep stp o' xs q)) + sum_list (map (\<lambda>f. unat (f_qty f)) (sw_fills (sweep stp o' xs q))) = unat q"
proof (induction stp o' xs q rule: sweep.induct)
  case (2 stp o' x xs q)
  have "unat (q - r_qty x) + unat (r_qty x) = unat q" if "\<not> q < r_qty x"
    using that by (simp add: not_less unat_sub word_le_nat_alt)
  with 2 show ?case by (auto simp: Let_def fill_of_def add.commute add.left_commute)
qed simp

lemma unat_sum_fills:
  "sum_list (map (\<lambda>f. unat (f_qty f)) fs) < 2 ^ 32 \<Longrightarrow>
    unat (sum_list (map f_qty fs)) = sum_list (map (\<lambda>f. unat (f_qty f)) fs)"
proof (induction fs)
  case (Cons f fs)
  then have "unat (sum_list (map f_qty fs)) = sum_list (map (\<lambda>f. unat (f_qty f)) fs)" by simp
  with Cons.prems show ?case by (simp add: unat_word_ariths)
qed simp

text \<open>The filled quantity of the report does not wrap.\<close>

lemma sweep_filled:
  "unat (sum_list (map f_qty (sw_fills (sweep stp o' xs q)))) = unat q - unat (sw_left (sweep stp o' xs q))"
  "unat (sw_left (sweep stp o' xs q)) \<le> unat q"
  "sum_list (map (\<lambda>f. unat (f_qty f)) (sw_fills (sweep stp o' xs q))) =
    unat (sum_list (map f_qty (sw_fills (sweep stp o' xs q))))"
proof -
  let ?n = "sum_list (map (\<lambda>f. unat (f_qty f)) (sw_fills (sweep stp o' xs q)))"
  have c: "unat (sw_left (sweep stp o' xs q)) + ?n = unat q" by (rule sweep_conserves)
  have "unat q < 2 ^ 32" using unsigned_less [of q] by simp
  then have "?n < 2 ^ 32" using c by linarith
  from unat_sum_fills [OF this] c
  show "unat (sum_list (map f_qty (sw_fills (sweep stp o' xs q)))) = unat q - unat (sw_left (sweep stp o' xs q))"
    "unat (sw_left (sweep stp o' xs q)) \<le> unat q"
    "?n = unat (sum_list (map f_qty (sw_fills (sweep stp o' xs q))))" by linarith+
qed

text \<open>Every fill is against an order met on the way, at that order's price, within the limit.\<close>

lemma sweep_fills:
  "f \<in> set (sw_fills (sweep stp o' xs q)) \<Longrightarrow> \<forall>x \<in> set xs. r_qty x \<noteq> 0 \<Longrightarrow>
    \<exists>x \<in> set xs. \<exists>n. f = fill_of o' x n \<and> n \<noteq> 0 \<and> n \<le> r_qty x \<and> crosses o' (r_price x) \<and> \<not> own_order stp o' x"
proof (induction stp o' xs q rule: sweep.induct)
  case (2 stp o' x xs q)
  show ?case
  proof (cases "q = 0 \<or> \<not> crosses o' (r_price x)")
    case True
    with 2 show ?thesis by simp
  next
    case go: False
    show ?thesis
    proof (cases "own_order stp o' x")
      case True
      with 2 go show ?thesis by (auto simp: Let_def split: if_splits)
    next
      case False
      with 2 go show ?thesis by (auto simp: Let_def split: if_splits)
    qed
  qed
qed simp

text \<open>The resting orders are taken in order; without prevention none is skipped.\<close>

lemma sweep_subseq:
  "subseq (map f_resting (sw_fills (sweep stp o' xs q))) (map r_ref xs)"
  by (induction stp o' xs q rule: sweep.induct) (auto simp: Let_def fill_of_def)

lemma sweep_off:
  "sw_stopped (sweep Off o' xs q) = False" "sw_pulled (sweep Off o' xs q) = 0" "sw_events (sweep Off o' xs q) = 0"
  by (induction Off o' xs q rule: sweep.induct) (auto simp: Let_def own_order_def)

lemma sweep_prefix:
  "prefix (map f_resting (sw_fills (sweep Off o' xs q))) (map r_ref xs)"
  by (induction Off o' xs q rule: sweep.induct) (auto simp: Let_def fill_of_def own_order_def)

text \<open>Whole orders in priority, and at most the last one in part.\<close>

definition whole_fills :: "new_order \<Rightarrow> naive_book \<Rightarrow> fill list" where
  "whole_fills o' xs = map (\<lambda>x. fill_of o' x (r_qty x)) xs"

lemma sweep_off_fills:
  "\<exists>k n. sw_fills (sweep Off o' xs q) = whole_fills o' (take k xs) \<or>
     (k < length xs \<and> n \<noteq> 0 \<and> n < r_qty (xs ! k) \<and>
      sw_fills (sweep Off o' xs q) = whole_fills o' (take k xs) @ [fill_of o' (xs ! k) n])"
proof (induction xs arbitrary: q)
  case Nil
  then show ?case by (simp add: whole_fills_def)
next
  case (Cons x xs)
  let ?F = "sw_fills (sweep Off o' (x # xs) q)"
  consider (stop) "q = 0 \<or> \<not> crosses o' (r_price x)" | (last) "q \<noteq> 0" "crosses o' (r_price x)" "q < r_qty x"
    | (go) "q \<noteq> 0" "crosses o' (r_price x)" "\<not> q < r_qty x" by blast
  then show ?case
  proof cases
    case stop
    then have "?F = whole_fills o' (take 0 (x # xs))" by (auto simp: whole_fills_def)
    then show ?thesis by blast
  next
    case last
    then have "?F = whole_fills o' (take 0 (x # xs)) @ [fill_of o' ((x # xs) ! 0) q]"
      by (simp add: whole_fills_def own_order_def)
    with last show ?thesis by (intro exI [of _ 0] exI [of _ q] disjI2) simp
  next
    case go
    then have F: "?F = fill_of o' x (r_qty x) # sw_fills (sweep Off o' xs (q - r_qty x))"
      by (simp add: own_order_def Let_def)
    obtain k n where kn: "sw_fills (sweep Off o' xs (q - r_qty x)) = whole_fills o' (take k xs) \<or>
     (k < length xs \<and> n \<noteq> 0 \<and> n < r_qty (xs ! k) \<and>
      sw_fills (sweep Off o' xs (q - r_qty x)) = whole_fills o' (take k xs) @ [fill_of o' (xs ! k) n])"
      using Cons.IH by blast
    then show ?thesis
      unfolding F by (intro exI [of _ "Suc k"] exI [of _ n]) (auto simp: whole_fills_def simp del: sweep.simps)
  qed
qed

text \<open>What is left has nothing to match, and enough depth leaves nothing.\<close>

definition depth_for :: "new_order \<Rightarrow> naive_book \<Rightarrow> nat" where
  "depth_for o' xs = sum_list (map (\<lambda>x. unat (r_qty x)) (takeWhile (\<lambda>x. crosses o' (r_price x)) xs))"

lemma sweep_depth: "unat q \<le> depth_for o' xs \<Longrightarrow> sw_left (sweep Off o' xs q) = 0"
proof (induction xs arbitrary: q)
  case Nil
  then show ?case by (simp add: depth_for_def word_unat_eq_iff)
next
  case (Cons x xs)
  show ?case
  proof (cases "q = 0 \<or> \<not> crosses o' (r_price x) \<or> q < r_qty x")
    case True
    then show ?thesis using Cons.prems by (auto simp: depth_for_def own_order_def word_unat_eq_iff)
  next
    case False
    then have "unat (q - r_qty x) = unat q - unat (r_qty x)"
      by (intro unat_sub) (simp add: word_le_nat_alt not_less)
    then have "unat (q - r_qty x) \<le> depth_for o' xs"
      using Cons.prems False by (simp add: depth_for_def)
    from Cons.IH [OF this] show ?thesis using False by (simp add: own_order_def Let_def)
  qed
qed

lemma sweep_exhausts:
  "\<not> sw_stopped (sweep stp o' xs q) \<Longrightarrow> sw_left (sweep stp o' xs q) \<noteq> 0 \<Longrightarrow>
    sw_book (sweep stp o' xs q) = [] \<or> \<not> crosses o' (r_price (hd (sw_book (sweep stp o' xs q))))"
  by (induction stp o' xs q rule: sweep.induct) (auto simp: Let_def split: if_splits)

lemma sweep_pulled: "sw_pulled (sweep stp o' xs q) \<le> sw_events (sweep stp o' xs q)"
  by (induction stp o' xs q rule: sweep.induct) (auto simp: Let_def)

text \<open>What stays on the other side: the same orders from some point on, the first perhaps smaller.\<close>

lemma sweep_book:
  "\<exists>k. sw_book (sweep stp o' xs q) = drop k xs \<or>
     (k < length xs \<and> sw_left (sweep stp o' xs q) = 0 \<and>
      (\<exists>n. n \<noteq> 0 \<and> n < r_qty (xs ! k) \<and>
        sw_book (sweep stp o' xs q) = (xs ! k)\<lparr>r_qty := r_qty (xs ! k) - n\<rparr> # drop (Suc k) xs))"
proof (induction stp o' xs q rule: sweep.induct)
  case (2 stp o' x xs q)
  have up: "\<exists>k. B = drop k (x # xs) \<or> (k < length (x # xs) \<and> L = 0 \<and>
      (\<exists>n. n \<noteq> 0 \<and> n < r_qty ((x # xs) ! k) \<and> B = ((x # xs) ! k)\<lparr>r_qty := r_qty ((x # xs) ! k) - n\<rparr> # drop (Suc k) (x # xs)))"
    if "\<exists>k. B = drop k xs \<or> (k < length xs \<and> L = 0 \<and>
      (\<exists>n. n \<noteq> 0 \<and> n < r_qty (xs ! k) \<and> B = (xs ! k)\<lparr>r_qty := r_qty (xs ! k) - n\<rparr> # drop (Suc k) xs))" for B and L :: qty
    using that by (metis Suc_less_eq drop_Suc_Cons length_Cons nth_Cons_Suc)
  consider (stop) "q = 0 \<or> \<not> crosses o' (r_price x)" | (go) "\<not> (q = 0 \<or> \<not> crosses o' (r_price x))" by blast
  then show ?case
  proof cases
    case stop
    then have "sw_book (sweep stp o' (x # xs) q) = drop 0 (x # xs)" by auto
    then show ?thesis by blast
  next
    case go
    consider (oldest) "own_order stp o' x" "stp = CancelOldest" | (both) "own_order stp o' x" "stp = CancelBoth"
      | (newest) "own_order stp o' x" "stp \<noteq> CancelOldest" "stp \<noteq> CancelBoth"
      | (last) "\<not> own_order stp o' x" "q < r_qty x" | (whole) "\<not> own_order stp o' x" "\<not> q < r_qty x" by blast
    then show ?thesis
    proof cases
      case oldest
      with go up [OF 2(1)] show ?thesis by (simp add: Let_def)
    next
      case both
      with go have "sw_book (sweep stp o' (x # xs) q) = drop 1 (x # xs)" by simp
      then show ?thesis by blast
    next
      case newest
      with go have "sw_book (sweep stp o' (x # xs) q) = drop 0 (x # xs)" by simp
      then show ?thesis by blast
    next
      case last
      with go show ?thesis by (intro exI [of _ 0] disjI2) auto
    next
      case whole
      with go up [OF 2(2)] show ?thesis by (simp add: Let_def)
    qed
  qed
qed simp

lemma sweep_book_prices:
  "r_price ` set (sw_book (sweep stp o' xs q)) \<subseteq> r_price ` set xs"
  by (induction stp o' xs q rule: sweep.induct) (auto simp: Let_def)

section \<open>A submission on the list of resting orders\<close>

definition engine_ok :: "naive_book engine \<Rightarrow> bool" where
  "engine_ok e \<longleftrightarrow> wf_book (en_book e) \<and> en_next_ref e \<noteq> 0 \<and>
     (\<forall>x \<in> set (en_book e). r_ref x \<noteq> 0 \<and> r_ref x < en_next_ref e)"

definition outcome_of :: "new_order \<Rightarrow> swept \<Rightarrow> outcome" where
  "outcome_of o' w =
     (if sw_stopped w then StpRejected else if sw_left w = 0 then FilledComplete
      else if no_type o' = Market \<or> no_tif o' = Ioc then Cancelled else Rested)"

definition report_of :: "new_order \<Rightarrow> order_ref \<Rightarrow> swept \<Rightarrow> report" where
  "report_of o' next w =
     \<lparr>rp_outcome = outcome_of o' w, rp_resting_ref = (if outcome_of o' w = Rested then next else 0),
      rp_filled = sum_list (map f_qty (sw_fills w)),
      rp_resting_qty = (if outcome_of o' w = Rested then sw_left w else 0),
      rp_stp_cancelled_resting = of_nat (sw_pulled w)\<rparr>"

text \<open>The sweep a submission makes.\<close>

definition sweep_of :: "new_order \<Rightarrow> naive_book engine \<Rightarrow> swept" where
  "sweep_of o' e = sweep (en_stp e) o' (priority (opposite (no_side o')) (en_book e)) (no_qty o')"

definition accepted :: "new_order \<Rightarrow> bool" where
  "accepted o' \<longleftrightarrow> no_qty o' \<noteq> 0 \<and> (no_type o' = Market \<or> no_price o' \<noteq> 0)"

lemma word_less_inc:
  fixes w :: "'a::len word"
  assumes "w + 1 \<noteq> 0"
  shows "w < w + 1"
proof -
  have "unat (w + 1) \<noteq> 0" using assms unat_eq_zero [of "w + 1"] by blast
  then have "unat (w + 1) = Suc (unat w)" unfolding unat_plus_one_if by (simp split: if_splits)
  then show ?thesis by (simp only: word_less_nat_alt lessI)
qed

lemma submit_refused:
  "no_qty o' = 0 \<Longrightarrow> submit ops o' fills e = Inl (EngineF SubmitNoQuantity)"
  "no_qty o' \<noteq> 0 \<Longrightarrow> no_type o' = Limit \<Longrightarrow> no_price o' = 0 \<Longrightarrow> submit ops o' fills e = Inl (EngineF LimitNoPrice)"
  by (simp_all add: submit_def word_gt_0)

lemma submit_naive:
  assumes ok: "engine_ok e" and acc: "accepted o'" and room: "en_next_ref e + 1 \<noteq> 0"
  defines "w \<equiv> sweep_of o' e"
  shows "\<exists>e' rs1. submit naive_ops o' fills e = Inr (e', report_of o' (en_next_ref e) w, fills @ sw_fills w) \<and>
    wf_book rs1 \<and> r_ref ` set rs1 \<subseteq> r_ref ` set (en_book e) \<and> length rs1 \<le> length (en_book e) \<and>
    priority (opposite (no_side o')) rs1 = sw_book w \<and> priority (no_side o') rs1 = priority (no_side o') (en_book e) \<and>
    en_book e' = (if outcome_of o' w = Rested
      then nb_add (en_next_ref e) (no_side o') (no_price o') (sw_left w) (no_owner o') rs1 else rs1) \<and>
    en_next_ref e' = (if outcome_of o' w = Rested then en_next_ref e + 1 else en_next_ref e) \<and>
    en_stp e' = en_stp e \<and> engine_ok e'"
proof -
  let ?m = "\<lparr>m_engine = bump_submitted e, m_remaining = no_qty o', m_stp_stop = False, m_fills = fills,
     m_filled = 0, m_stp_cancelled = 0\<rparr>"
  have e: "en_book (bump_submitted e) = en_book e" "en_stp (bump_submitted e) = en_stp e"
    "en_next_ref (bump_submitted e) = en_next_ref e"
    by (simp_all add: bump_submitted_def)
  obtain m' where m': "match_loop naive_ops o' (Suc (length (en_book e))) ?m = Inr m'" "loop_result o' ?m w m'"
    using loop_sweep [of ?m "Suc (length (en_book e))" o'] ok
    by (force simp: e engine_ok_def w_def sweep_of_def)
  let ?rs = "en_book (m_engine m')"
  have r: "m_fills m' = fills @ sw_fills w" "m_remaining m' = sw_left w" "m_stp_stop m' = sw_stopped w"
    "m_filled m' = sum_list (map f_qty (sw_fills w))" "m_stp_cancelled m' = of_nat (sw_pulled w)"
    "priority (opposite (no_side o')) ?rs = sw_book w" "priority (no_side o') ?rs = priority (no_side o') (en_book e)"
    "wf_book ?rs" "r_ref ` set ?rs \<subseteq> r_ref ` set (en_book e)" "length ?rs \<le> length (en_book e)"
    "en_stp (m_engine m') = en_stp e" "en_next_ref (m_engine m') = en_next_ref e"
    using m'(2) by (simp_all add: loop_result_def Let_def e)
  have run: "submit naive_ops o' fills e = settle naive_ops o' m'"
    using acc m'(1) by (auto simp: submit_def accepted_def word_gt_0 nb_order_count_def e)
  have old: "r_ref x \<noteq> 0 \<and> r_ref x < en_next_ref e" if "x \<in> set ?rs" for x
  proof -
    have "r_ref x \<in> r_ref ` set (en_book e)" using r(9) that by blast
    then show ?thesis using ok by (auto simp: engine_ok_def)
  qed
  have fresh: "en_next_ref e \<notin> r_ref ` set ?rs" using old order_less_irrefl by (metis imageE)
  have inc: "en_next_ref e < en_next_ref e + 1" by (rule word_less_inc [OF room])
  show ?thesis
  proof (cases "outcome_of o' w = Rested")
    case True
    then have c: "\<not> sw_stopped w" "sw_left w \<noteq> 0" "\<not> (no_type o' = Market \<or> no_tif o' = Ioc)"
      by (auto simp: outcome_of_def split: if_splits)
    let ?e' = "bump_rested ((m_engine m')\<lparr>en_next_ref := en_next_ref e + 1,
      en_book := nb_add (en_next_ref e) (no_side o') (no_price o') (sw_left w) (no_owner o') ?rs\<rparr>)"
    have "settle naive_ops o' m' = Inr (?e', report_of o' (en_next_ref e) w, fills @ sw_fills w)"
      using c r fresh True by (simp add: settle_def Let_def sb_add_def nb_contains_iff report_of_def)
    moreover have "engine_ok ?e'"
      using room old inc wf_nb_add [OF r(8) fresh c(2)] ok
      by (auto simp: engine_ok_def bump_rested_def nb_add_simps intro: order_less_trans)
    ultimately show ?thesis
      using r True run by (intro exI [of _ ?e'] exI [of _ ?rs]) (simp add: bump_rested_def)
  next
    case False
    let ?e' = "if sw_stopped w \<or> sw_left w \<noteq> 0 then bump_cancelled (m_engine m') else m_engine m'"
    have "settle naive_ops o' m' = Inr (?e', report_of o' (en_next_ref e) w, fills @ sw_fills w)"
      using False r by (auto simp: settle_def Let_def report_of_def outcome_of_def split: if_splits)
    moreover have "engine_ok ?e'"
      using old r(8,12) ok by (auto simp: engine_ok_def bump_cancelled_def)
    ultimately show ?thesis
      using r False run by (intro exI [of _ ?e'] exI [of _ ?rs]) (simp add: bump_cancelled_def)
  qed
qed

section \<open>The book is never left crossed\<close>

definition nb_crossed :: "naive_book \<Rightarrow> bool" where
  "nb_crossed rs \<longleftrightarrow> \<not> nb_empty rs Buy \<and> \<not> nb_empty rs Sell \<and> nb_best rs Sell \<le> nb_best rs Buy"

lemma not_crossed_iff:
  "\<not> nb_crossed rs \<longleftrightarrow>
    (\<forall>x \<in> set rs. \<forall>y \<in> set rs. r_side x = Buy \<longrightarrow> r_side y = Sell \<longrightarrow> r_price x < r_price y)"
proof (cases "nb_empty rs Buy \<or> nb_empty rs Sell")
  case True
  then show ?thesis by (auto simp: nb_crossed_def nb_empty_def)
next
  case False
  then have b: "is_best Buy (prices Buy rs) (nb_best rs Buy)" "is_best Sell (prices Sell rs) (nb_best rs Sell)"
    using nb_best_is_best [of rs Buy] nb_best_is_best [of rs Sell] by simp_all
  then have "nb_best rs Buy < nb_best rs Sell \<longleftrightarrow> (\<forall>p \<in> prices Buy rs. \<forall>q \<in> prices Sell rs. p < q)"
    by (auto simp: is_best_def not_less) (meson le_less_trans less_le_trans)+
  with False show ?thesis by (auto simp: nb_crossed_def not_le prices_def)
qed

lemma priority_prices: "r_price ` set (priority s rs) = prices s rs"
  by (auto simp: set_priority prices_def on_side_def)

lemma not_crossed_prices:
  "\<not> nb_crossed rs \<longleftrightarrow> (\<forall>p \<in> prices Buy rs. \<forall>q \<in> prices Sell rs. p < q)"
  unfolding not_crossed_iff by (auto simp: prices_def)

lemma submit_uncrossed:
  assumes ok: "engine_ok e" and acc: "accepted o'" and room: "en_next_ref e + 1 \<noteq> 0"
    and unc: "\<not> nb_crossed (en_book e)" and run: "submit naive_ops o' fills e = Inr (e', rp, fs)"
  shows "\<not> nb_crossed (en_book e')"
proof -
  let ?w = "sweep_of o' e" and ?s = "no_side o'"
  obtain rs1 where r: "priority (opposite ?s) rs1 = sw_book ?w" "priority ?s rs1 = priority ?s (en_book e)"
    "en_book e' = (if outcome_of o' ?w = Rested
      then nb_add (en_next_ref e) ?s (no_price o') (sw_left ?w) (no_owner o') rs1 else rs1)"
    using submit_naive [OF ok acc room, of fills] run by auto
  have own: "prices ?s rs1 = prices ?s (en_book e)" using r(2) by (simp flip: priority_prices)
  have other: "prices (opposite ?s) rs1 \<subseteq> prices (opposite ?s) (en_book e)"
    using sweep_book_prices [of "en_stp e" o' _ "no_qty o'"] r(1) unfolding sweep_of_def
    by (metis priority_prices)
  have unc1: "\<not> nb_crossed rs1"
    using unc own other unfolding not_crossed_prices by (cases ?s) auto
  show ?thesis
  proof (cases "outcome_of o' ?w = Rested")
    case False
    with unc1 r(3) show ?thesis by simp
  next
    case True
    then have c: "\<not> sw_stopped ?w" "sw_left ?w \<noteq> 0" "no_type o' = Limit"
      by (auto simp: outcome_of_def split: if_splits) (metis order_type.exhaust)
    have no: "\<not> crosses o' p" if p: "p \<in> prices (opposite ?s) rs1" for p
    proof -
      have "sw_book ?w = [] \<or> \<not> crosses o' (r_price (hd (sw_book ?w)))"
        using sweep_exhausts c(1,2) by (simp add: sweep_of_def)
      then obtain x xs where x: "priority (opposite ?s) rs1 = x # xs" "\<not> crosses o' (r_price x)"
        using p priority_prices [of "opposite ?s" rs1] r(1) by (cases "sw_book ?w") auto
      have "is_best (opposite ?s) (prices (opposite ?s) rs1) (r_price x)"
        using priority_front(1) [OF x(1)] nb_best_is_best [of rs1 "opposite ?s"] p
        by (metis empty_iff prices_empty)
      with x(2) p c(3) show ?thesis by (cases ?s) (auto simp: is_best_def crosses_def)
    qed
    have "prices ?s (en_book e') = insert (no_price o') (prices ?s rs1)"
      "prices (opposite ?s) (en_book e') = prices (opposite ?s) rs1"
      using r(3) True by (simp_all add: prices_add)
    with unc1 no c(3) show ?thesis
      unfolding not_crossed_prices by (cases ?s) (auto simp: crosses_def not_le)
  qed
qed

section \<open>The engine over any order book\<close>

lemma rel_sum_refl: "rel_sum (=) (=) x x"
  by (cases x) auto

lemma rel_sum_andthen:
  assumes "rel_sum (=) R x y" and "\<And>a b. R a b \<Longrightarrow> rel_sum (=) S (f a) (g b)"
  shows "rel_sum (=) S (andthen x f) (andthen y g)"
  using assms by (cases x; cases y) auto

definition engine_rel :: "('b \<Rightarrow> naive_book \<Rightarrow> bool) \<Rightarrow> 'b engine \<Rightarrow> naive_book engine \<Rightarrow> bool" where
  "engine_rel R e n \<longleftrightarrow> R (en_book e) (en_book n) \<and> en_stp e = en_stp n \<and> en_next_ref e = en_next_ref n \<and>
     en_stats e = en_stats n"

definition match_rel :: "('b \<Rightarrow> naive_book \<Rightarrow> bool) \<Rightarrow> 'b match \<Rightarrow> naive_book match \<Rightarrow> bool" where
  "match_rel R m n \<longleftrightarrow> engine_rel R (m_engine m) (m_engine n) \<and> m_remaining m = m_remaining n \<and>
     m_stp_stop m = m_stp_stop n \<and> m_fills m = m_fills n \<and> m_filled m = m_filled n \<and>
     m_stp_cancelled m = m_stp_cancelled n"

lemmas rel_defs = match_rel_def engine_rel_def

context order_book
begin

definition within_room :: "nat \<Rightarrow> nat \<Rightarrow> 'b \<Rightarrow> naive_book \<Rightarrow> bool" where
  "within_room n k b rs \<longleftrightarrow> rep b rs \<and> limit b = n \<and> length rs \<le> k"

lemma within_rep: "within_room n k b rs \<Longrightarrow> rep b rs"
  by (simp add: within_room_def)

lemma remove_within:
  assumes "within_room n k b rs"
  shows "rel_sum (=) (within_room n k) (bo_remove ops ref b) (sb_remove ref rs)"
proof -
  have "rel_sum (=) (\<lambda>b' rs'. rep b' rs' \<and> limit b' = limit b) (bo_remove ops ref b) (sb_remove ref rs)"
    by (rule remove_law [OF within_rep [OF assms]])
  then show ?thesis
    by (rule rel_sum_strengthen)
      (use assms sb_lengths(4) [OF rep_book_wf [OF within_rep [OF assms]]] in \<open>force simp: within_room_def\<close>)
qed

lemma execute_within:
  assumes "within_room n k b rs"
  shows "rel_sum (=) (\<lambda>(b', m') (rs', m). within_room n k b' rs' \<and> m' = m) (bo_execute ops ref q b) (sb_execute ref q rs)"
proof -
  have "rel_sum (=) (\<lambda>(b', m') (rs', m). rep b' rs' \<and> limit b' = limit b \<and> m' = m)
      (bo_execute ops ref q b) (sb_execute ref q rs)"
    by (rule execute_law [OF within_rep [OF assms]])
  then show ?thesis
    by (rule rel_sum_strengthen)
      (use assms sb_lengths(3) [OF rep_book_wf [OF within_rep [OF assms]]] in \<open>force simp: within_room_def\<close>)
qed

lemma note_stp_rel: "match_rel R m m' \<Longrightarrow> match_rel R (note_stp_event m) (note_stp_event m')"
  by (simp add: rel_defs note_stp_event_def Let_def)

lemma pull_rel:
  assumes "match_rel (within_room n k) m m'"
  shows "rel_sum (=) (match_rel (within_room n k)) (pull_resting ops ref m) (pull_resting naive_ops ref m')"
proof -
  have "within_room n k (en_book (m_engine m)) (en_book (m_engine m'))" using assms by (simp add: rel_defs)
  from remove_within [OF this, of ref] show ?thesis
    unfolding pull_resting_def naive_ops_simps
    by (rule rel_sum_andthen) (use assms in \<open>simp add: rel_defs\<close>)
qed

lemma trade_rel:
  assumes "match_rel (within_room n k) m m'"
  shows "rel_sum (=) (match_rel (within_room n k)) (trade ops o' p ref m) (trade naive_ops o' p ref m')"
proof -
  have r: "within_room n k (en_book (m_engine m)) (en_book (m_engine m'))" using assms by (simp add: rel_defs)
  note eqs = qty_of_eq [OF within_rep [OF r]] owner_of_eq [OF within_rep [OF r]]
  have rem: "m_remaining m = m_remaining m'" using assms by (simp add: rel_defs)
  show ?thesis
    unfolding trade_def Let_def eqs
  proof (rule rel_sum_andthen [OF rel_sum_refl], rule rel_sum_andthen [OF rel_sum_refl])
    fix av av' :: qty and ow ow' :: u16
    assume e: "av = av'" "ow = ow'"
    show "rel_sum (=) (match_rel (within_room n k))
      (andthen (bo_execute ops ref (if m_remaining m < av then m_remaining m else av) (en_book (m_engine m))) (\<lambda>(book', _).
        Inr (m\<lparr>m_engine := (m_engine m)\<lparr>en_book := book', en_stats := (en_stats (m_engine m))
                  \<lparr>es_fills := es_fills (en_stats (m_engine m)) + 1,
                   es_filled_qty := es_filled_qty (en_stats (m_engine m)) +
                     ucast (if m_remaining m < av then m_remaining m else av)\<rparr>\<rparr>,
               m_remaining := m_remaining m - (if m_remaining m < av then m_remaining m else av),
               m_fills := m_fills m @ [\<lparr>f_aggressor = no_client_id o', f_resting = ref,
                  f_aggressor_owner = no_owner o', f_resting_owner = ow, f_price = p,
                  f_qty = (if m_remaining m < av then m_remaining m else av)\<rparr>],
               m_filled := m_filled m + (if m_remaining m < av then m_remaining m else av)\<rparr>)))
      (andthen (bo_execute naive_ops ref (if m_remaining m' < av' then m_remaining m' else av') (en_book (m_engine m'))) (\<lambda>(book', _).
        Inr (m'\<lparr>m_engine := (m_engine m')\<lparr>en_book := book', en_stats := (en_stats (m_engine m'))
                  \<lparr>es_fills := es_fills (en_stats (m_engine m')) + 1,
                   es_filled_qty := es_filled_qty (en_stats (m_engine m')) +
                     ucast (if m_remaining m' < av' then m_remaining m' else av')\<rparr>\<rparr>,
               m_remaining := m_remaining m' - (if m_remaining m' < av' then m_remaining m' else av'),
               m_fills := m_fills m' @ [\<lparr>f_aggressor = no_client_id o', f_resting = ref,
                  f_aggressor_owner = no_owner o', f_resting_owner = ow', f_price = p,
                  f_qty = (if m_remaining m' < av' then m_remaining m' else av')\<rparr>],
               m_filled := m_filled m' + (if m_remaining m' < av' then m_remaining m' else av')\<rparr>)))"
      unfolding e rem naive_ops_simps
      by (rule rel_sum_andthen [OF execute_within [OF r]]) (use assms in \<open>auto simp: rel_defs\<close>)
  qed
qed

lemma turn_rel:
  assumes "match_rel (within_room n k) m m'"
  shows "rel_sum (=) (\<lambda>(g, m) (g', m'). g = g' \<and> match_rel (within_room n k) m m')
    (match_turn ops o' m) (match_turn naive_ops o' m')"
proof -
  let ?R = "match_rel (within_room n k)" and ?b = "en_book (m_engine m)" and ?rs = "en_book (m_engine m')"
  have r: "within_room n k ?b ?rs" and stp: "en_stp (m_engine m) = en_stp (m_engine m')"
    using assms by (simp_all add: rel_defs)
  note rep = within_rep [OF r]
  have self: "self_trade ops o' ref m = self_trade naive_ops o' ref m'" for ref
    by (simp add: self_trade_def stp owner_of_eq [OF rep])
  have stp': "en_stp (m_engine (note_stp_event m)) = en_stp (m_engine m')"
    "en_stp (m_engine (note_stp_event m')) = en_stp (m_engine m')"
    by (simp_all add: note_stp_event_def Let_def stp)
  note note_rel = note_stp_rel [OF assms]
  have tr: "rel_sum (=) (\<lambda>(g, m) (g', m'). g = g' \<and> ?R m m')
      (andthen (trade ops o' p ref n1) (\<lambda>m. Inr (True, m))) (andthen (trade naive_ops o' p ref n2) (\<lambda>m. Inr (True, m)))"
    if "?R n1 n2" for n1 n2 p ref
    by (rule rel_sum_andthen [OF trade_rel [OF that]]) simp
  have pl: "rel_sum (=) (\<lambda>(g, m) (g', m'). g = g' \<and> ?R m m')
      (andthen (pull_resting ops ref n1) (\<lambda>m. Inr (g, f m))) (andthen (pull_resting naive_ops ref n2) (\<lambda>m. Inr (g, f' m)))"
    if "?R n1 n2" "\<And>m m'. ?R m m' \<Longrightarrow> ?R (f m) (f' m')" for n1 n2 g ref f f'
    by (rule rel_sum_andthen [OF pull_rel [OF that(1)]]) (simp add: that(2))
  have stop: "?R m m' \<Longrightarrow> ?R (m\<lparr>m_stp_stop := True\<rparr>) (m'\<lparr>m_stp_stop := True\<rparr>)" for m m'
    by (simp add: rel_defs)
  have pl0: "rel_sum (=) (\<lambda>(g, m) (g', m'). g = g' \<and> ?R m m')
      (andthen (pull_resting ops ref (note_stp_event m)) (\<lambda>m. Inr (True, m)))
      (andthen (pull_resting naive_ops ref (note_stp_event m')) (\<lambda>m. Inr (True, m)))" for ref
    by (rule pl [OF note_rel])
  show ?thesis
    unfolding match_turn_def Let_def best_eq [OF rep] naive_ops_simps front_at_eq [OF rep] self
    using assms tr [OF assms] tr [OF note_rel] pl [OF note_rel stop]
      pl0 stop [OF note_rel]
    by (cases "en_stp (m_engine m')")
      (auto simp: stp' intro!: rel_sum_andthen [OF rel_sum_refl])
qed

lemma loop_rel:
  assumes "match_rel (within_room n k) m m'"
  shows "rel_sum (=) (match_rel (within_room n k)) (match_loop ops o' fuel m) (match_loop naive_ops o' fuel m')"
  using assms
proof (induction fuel arbitrary: m m')
  case 0
  then have "within_room n k (en_book (m_engine m)) (en_book (m_engine m'))" "m_remaining m = m_remaining m'"
    by (simp_all add: rel_defs)
  with 0 show ?case by (simp add: more_to_match_def empty_eq [OF within_rep])
next
  case (Suc fuel)
  then have "within_room n k (en_book (m_engine m)) (en_book (m_engine m'))" "m_remaining m = m_remaining m'"
    by (simp_all add: rel_defs)
  then have more': "more_to_match ops o' m \<longleftrightarrow> more_to_match naive_ops o' m'"
    by (simp add: more_to_match_def empty_eq [OF within_rep])
  have "rel_sum (=) (match_rel (within_room n k))
      (andthen (match_turn ops o' m) (\<lambda>(go, m). if go then match_loop ops o' fuel m else Inr m))
      (andthen (match_turn naive_ops o' m') (\<lambda>(go, m). if go then match_loop naive_ops o' fuel m else Inr m))"
    by (rule rel_sum_andthen [OF turn_rel [OF Suc.prems]]) (auto intro: Suc.IH)
  with more' Suc.prems show ?case by simp
qed

lemma settle_rel:
  assumes m: "match_rel (within_room n k) m m'" and room: "k < n"
    and p: "no_type o' = Limit \<Longrightarrow> no_tif o' = Day \<Longrightarrow> ok_price (no_price o')"
  shows "rel_sum (=) (\<lambda>(e, rp, fs) (e', rp', fs'). engine_rel (\<lambda>b rs. rep b rs \<and> limit b = n) e e' \<and> rp = rp' \<and> fs = fs')
    (settle ops o' m) (settle naive_ops o' m')"
proof -
  have r: "within_room n k (en_book (m_engine m)) (en_book (m_engine m'))" using m by (simp add: rel_defs)
  have eqs: "m_remaining m = m_remaining m'" "m_stp_stop m = m_stp_stop m'" "m_fills m = m_fills m'"
    "m_filled m = m_filled m'" "m_stp_cancelled m = m_stp_cancelled m'" "en_next_ref (m_engine m) = en_next_ref (m_engine m')"
    using m by (simp_all add: rel_defs)
  have e: "engine_rel (\<lambda>b rs. rep b rs \<and> limit b = n) (m_engine m) (m_engine m')"
    using m by (auto simp: rel_defs within_room_def)
  show ?thesis
  proof (cases "m_stp_stop m' \<or> m_remaining m' = 0 \<or> no_type o' = Market \<or> no_tif o' = Ioc")
    case True
    with e eqs show ?thesis
      by (auto simp: settle_def Let_def engine_rel_def bump_cancelled_def)
  next
    case False
    then have "no_type o' = Limit" "no_tif o' = Day"
      by (metis order_type.exhaust, metis time_in_force.exhaust)
    then have okp: "ok_price (no_price o')" by (rule p)
    have "rel_sum (=) (\<lambda>b' rs'. rep b' rs' \<and> limit b' = n)
        (bo_add ops (en_next_ref (m_engine m')) (no_side o') (no_price o') (m_remaining m') (no_owner o') (en_book (m_engine m)))
        (bo_add naive_ops (en_next_ref (m_engine m')) (no_side o') (no_price o') (m_remaining m') (no_owner o') (en_book (m_engine m')))"
      using add_law [OF within_rep [OF r] okp] r room by (auto simp: within_room_def)
    note add = rel_sum_andthen [OF this]
    show ?thesis
      using False e eqs
      by (auto simp: settle_def Let_def simp del: naive_ops_simps intro!: add)
        (auto simp: engine_rel_def bump_rested_def)
  qed
qed

theorem submit_refines:
  assumes e: "engine_rel rep e n" and room: "length (en_book n) < limit (en_book e)"
    and p: "no_type o' = Limit \<Longrightarrow> no_tif o' = Day \<Longrightarrow> ok_price (no_price o')"
  shows "rel_sum (=) (\<lambda>(e', rp, fs) (n', rp', fs'). engine_rel rep e' n' \<and>
      limit (en_book e') = limit (en_book e) \<and> rp = rp' \<and> fs = fs')
    (submit ops o' fills e) (submit naive_ops o' fills n)"
proof -
  let ?R = "within_room (limit (en_book e)) (length (en_book n))"
  have r: "rep (en_book e) (en_book n)" using e by (simp add: engine_rel_def)
  have cnt: "bo_count ops (en_book e) = bo_count naive_ops (en_book n)"
    using count_eq [OF r] by (simp add: nb_order_count_def)
  have start: "match_rel ?R
      \<lparr>m_engine = bump_submitted e, m_remaining = no_qty o', m_stp_stop = False, m_fills = fills, m_filled = 0, m_stp_cancelled = 0\<rparr>
      \<lparr>m_engine = bump_submitted n, m_remaining = no_qty o', m_stp_stop = False, m_fills = fills, m_filled = 0, m_stp_cancelled = 0\<rparr>"
    using e r by (simp add: rel_defs within_room_def bump_submitted_def)
  have loop: "rel_sum (=) (\<lambda>(e', rp, fs) (n', rp', fs'). engine_rel rep e' n' \<and>
      limit (en_book e') = limit (en_book e) \<and> rp = rp' \<and> fs = fs')
    (andthen (match_loop ops o' (Suc (bo_count naive_ops (en_book n)))
       \<lparr>m_engine = bump_submitted e, m_remaining = no_qty o', m_stp_stop = False, m_fills = fills, m_filled = 0, m_stp_cancelled = 0\<rparr>)
       (settle ops o'))
    (andthen (match_loop naive_ops o' (Suc (bo_count naive_ops (en_book n)))
       \<lparr>m_engine = bump_submitted n, m_remaining = no_qty o', m_stp_stop = False, m_fills = fills, m_filled = 0, m_stp_cancelled = 0\<rparr>)
       (settle naive_ops o'))"
  proof (rule rel_sum_andthen [OF loop_rel [OF start]])
    fix m m'
    assume "match_rel ?R m m'"
    from settle_rel [OF this room p]
    show "rel_sum (=) (\<lambda>(e', rp, fs) (n', rp', fs'). engine_rel rep e' n' \<and>
        limit (en_book e') = limit (en_book e) \<and> rp = rp' \<and> fs = fs') (settle ops o' m) (settle naive_ops o' m')"
      by (rule rel_sum_strengthen) (auto simp: engine_rel_def)
  qed
  show ?thesis
    unfolding submit_def cnt by (intro rel_sum_andthen [OF rel_sum_refl] loop)
qed

lemma engine_cancel_refines:
  assumes e: "engine_rel rep e n"
  shows "rel_sum (=) (\<lambda>e' n'. engine_rel rep e' n' \<and> limit (en_book e') = limit (en_book e))
    (engine_cancel ops ref e) (engine_cancel naive_ops ref n)"
proof -
  have r: "rep (en_book e) (en_book n)" using e by (simp add: engine_rel_def)
  show ?thesis
    unfolding engine_cancel_def naive_ops_simps
    by (rule rel_sum_andthen [OF remove_law [OF r]]) (use e in \<open>auto simp: engine_rel_def bump_cancelled_def\<close>)
qed

end

end
