(* ===== verification/Engine_Session.thy ===== *)
theory Engine_Session
  imports Matching_Engine_Laws
begin

text \<open>
  A client's session with the engine: submissions and withdrawals, one after the other. On
  the list of resting orders the invariant of the engine and the uncrossed book survive any
  session; over any order book a session gives the same fills or the same refusal.
\<close>

datatype request = Submit new_order | Withdraw order_ref

fun serve :: "'b book_ops \<Rightarrow> request \<Rightarrow> 'b engine \<Rightarrow> failure + 'b engine \<times> fill list" where
  "serve ops (Submit o') e = andthen (submit ops o' [] e) (\<lambda>(e', rp, fs). Inr (e', fs))"
| "serve ops (Withdraw ref) e = andthen (engine_cancel ops ref e) (\<lambda>e'. Inr (e', []))"

fun serve_all :: "'b book_ops \<Rightarrow> request list \<Rightarrow> 'b engine \<Rightarrow> failure + 'b engine \<times> fill list" where
  "serve_all ops [] e = Inr (e, [])"
| "serve_all ops (r # rs) e =
     andthen (serve ops r e) (\<lambda>(e', fs). andthen (serve_all ops rs e') (\<lambda>(e'', gs). Inr (e'', fs @ gs)))"

fun priced :: "(price \<Rightarrow> bool) \<Rightarrow> request \<Rightarrow> bool" where
  "priced ok (Submit o') \<longleftrightarrow> (no_type o' = Limit \<longrightarrow> no_tif o' = Day \<longrightarrow> ok (no_price o'))"
| "priced ok (Withdraw ref) \<longleftrightarrow> True"

section \<open>On the list of resting orders\<close>

lemma submit_accepts: "submit ops o' fills e = Inr x \<Longrightarrow> accepted o'"
  using submit_refused [of o' ops fills e] by (auto simp: accepted_def) (metis order_type.exhaust Inl_Inr_False)+

lemma submit_keeps:
  assumes ok: "engine_ok e" and room: "en_next_ref e + 1 \<noteq> 0"
    and run: "submit naive_ops o' fills e = Inr (e', rp, fs)"
  shows "engine_ok e'" and "length (en_book e') \<le> Suc (length (en_book e))"
    and "unat (en_next_ref e') \<le> Suc (unat (en_next_ref e))" and "en_stp e' = en_stp e"
proof -
  obtain rs1 where "engine_ok e'" "en_stp e' = en_stp e" "length rs1 \<le> length (en_book e)"
    "en_book e' = (if outcome_of o' (sweep_of o' e) = Rested
      then nb_add (en_next_ref e) (no_side o') (no_price o') (sw_left (sweep_of o' e)) (no_owner o') rs1 else rs1)"
    "en_next_ref e' = (if outcome_of o' (sweep_of o' e) = Rested then en_next_ref e + 1 else en_next_ref e)"
    using submit_naive [OF ok submit_accepts [OF run] room, of fills] run by auto
  then show "engine_ok e'" "length (en_book e') \<le> Suc (length (en_book e))"
    "unat (en_next_ref e') \<le> Suc (unat (en_next_ref e))" "en_stp e' = en_stp e"
    by (simp_all add: nb_add_simps unat_plus_one_if)
qed

lemma withdraw_keeps:
  assumes ok: "engine_ok e" and run: "engine_cancel naive_ops ref e = Inr e'"
  shows "engine_ok e'" and "length (en_book e') \<le> length (en_book e)" and "en_next_ref e' = en_next_ref e"
    and "en_stp e' = en_stp e"
    and "\<not> nb_crossed (en_book e) \<Longrightarrow> \<not> nb_crossed (en_book e')"
proof -
  have wf: "wf_book (en_book e)" using ok by (simp add: engine_ok_def)
  have e': "en_book e' = nb_erase ref (en_book e)" "en_next_ref e' = en_next_ref e" "en_stp e' = en_stp e"
    using run by (auto simp: engine_cancel_def andthen_eq_Inr sb_remove_def bump_cancelled_def)
  have sub: "set (nb_erase ref (en_book e)) \<subseteq> set (en_book e)" by (auto simp: nb_erase_def)
  show "en_next_ref e' = en_next_ref e" "en_stp e' = en_stp e" by (rule e')+
  show "length (en_book e') \<le> length (en_book e)" by (simp add: e' nb_erase_def)
  show "engine_ok e'" using ok sub wf_nb_erase [OF wf] unfolding engine_ok_def e' by blast
  show "\<not> nb_crossed (en_book e')" if "\<not> nb_crossed (en_book e)"
    using that sub unfolding not_crossed_iff e' by blast
qed

lemma serve_keeps:
  assumes ok: "engine_ok e" and room: "Suc (unat (en_next_ref e)) < 2 ^ 64" and unc: "\<not> nb_crossed (en_book e)"
    and run: "serve naive_ops r e = Inr (e', fs)"
  shows "engine_ok e' \<and> \<not> nb_crossed (en_book e') \<and> length (en_book e') \<le> Suc (length (en_book e)) \<and>
    unat (en_next_ref e') \<le> Suc (unat (en_next_ref e)) \<and> en_stp e' = en_stp e"
proof (cases r)
  case (Submit o')
  have "unat (en_next_ref e + 1) \<noteq> 0" using room by (simp add: unat_plus_one)
  then have room': "en_next_ref e + 1 \<noteq> 0" by (metis unat_0)
  obtain rp where sub: "submit naive_ops o' [] e = Inr (e', rp, fs)"
    using run Submit by (auto simp: andthen_eq_Inr)
  show ?thesis
    using submit_keeps [OF ok room' sub] submit_uncrossed [OF ok submit_accepts [OF sub] room' unc sub] by blast
next
  case (Withdraw ref)
  then have "engine_cancel naive_ops ref e = Inr e'" using run by (auto simp: andthen_eq_Inr)
  from withdraw_keeps [OF ok this] unc show ?thesis by simp
qed

lemma serve_all_keeps:
  assumes "engine_ok e" and "unat (en_next_ref e) + length rs < 2 ^ 64" and "\<not> nb_crossed (en_book e)"
    and "serve_all naive_ops rs e = Inr (e', fs)"
  shows "engine_ok e' \<and> \<not> nb_crossed (en_book e') \<and> length (en_book e') \<le> length (en_book e) + length rs \<and>
    unat (en_next_ref e') \<le> unat (en_next_ref e) + length rs \<and> en_stp e' = en_stp e"
  using assms
proof (induction rs arbitrary: e fs)
  case (Cons r rs)
  obtain e1 fs1 gs where s: "serve naive_ops r e = Inr (e1, fs1)" "serve_all naive_ops rs e1 = Inr (e', gs)"
    using Cons.prems(4) by (auto simp: andthen_eq_Inr)
  have "Suc (unat (en_next_ref e)) < 2 ^ 64" using Cons.prems(2) by simp
  from serve_keeps [OF Cons.prems(1) this Cons.prems(3) s(1)] Cons.prems(2)
  show ?case using Cons.IH [OF _ _ _ s(2)] by auto
qed simp

lemma engine_new_ok: "engine_ok (engine_new [] stp)" "\<not> nb_crossed (en_book (engine_new [] stp))"
  by (simp_all add: engine_ok_def engine_new_def wf_book_def nb_crossed_def nb_empty_def)

section \<open>Over any order book\<close>

context order_book
begin

definition in_step :: "nat \<Rightarrow> 'b engine \<Rightarrow> naive_book engine \<Rightarrow> bool" where
  "in_step k e n \<longleftrightarrow> engine_rel rep e n \<and> limit (en_book e) = k"

lemma in_stepD: "in_step k e n \<Longrightarrow> rep (en_book e) (en_book n)"
  by (simp add: in_step_def engine_rel_def)

lemma serve_refines:
  assumes "in_step k e n" and "length (en_book n) < k" and "priced ok_price r"
  shows "rel_sum (=) (\<lambda>(e', fs) (n', fs'). in_step k e' n' \<and> fs = fs') (serve ops r e) (serve naive_ops r n)"
proof (cases r)
  case (Submit o')
  have "rel_sum (=) (\<lambda>(e', rp, fs) (n', rp', fs'). engine_rel rep e' n' \<and>
      limit (en_book e') = limit (en_book e) \<and> rp = rp' \<and> fs = fs') (submit ops o' [] e) (submit naive_ops o' [] n)"
    using assms Submit by (intro submit_refines) (auto simp: in_step_def)
  then show ?thesis
    unfolding Submit serve.simps by (rule rel_sum_andthen) (use assms(1) in \<open>auto simp: in_step_def\<close>)
next
  case (Withdraw ref)
  have "rel_sum (=) (\<lambda>e' n'. engine_rel rep e' n' \<and> limit (en_book e') = limit (en_book e))
      (engine_cancel ops ref e) (engine_cancel naive_ops ref n)"
    using assms(1) by (intro engine_cancel_refines) (simp add: in_step_def)
  then show ?thesis
    unfolding Withdraw serve.simps by (rule rel_sum_andthen) (use assms(1) in \<open>auto simp: in_step_def\<close>)
qed

theorem serve_all_refines:
  assumes "in_step k e n" and "engine_ok n" and "\<not> nb_crossed (en_book n)"
    and "unat (en_next_ref n) + length rs < 2 ^ 64" and "length (en_book n) + length rs \<le> k"
    and "\<forall>r \<in> set rs. priced ok_price r"
  shows "rel_sum (=) (\<lambda>(e', fs) (n', fs'). in_step k e' n' \<and> fs = fs') (serve_all ops rs e) (serve_all naive_ops rs n)"
  using assms
proof (induction rs arbitrary: e n)
  case (Cons r rs)
  have step: "rel_sum (=) (\<lambda>(e', fs) (n', fs'). in_step k e' n' \<and> fs = fs') (serve ops r e) (serve naive_ops r n)"
    using Cons.prems by (intro serve_refines) simp_all
  show ?case
  proof (cases "serve naive_ops r n")
    case (Inl x)
    with step have "serve ops r e = Inl x" by (cases "serve ops r e") auto
    with Inl show ?thesis by simp
  next
    case (Inr y)
    then obtain n' fs where y: "serve naive_ops r n = Inr (n', fs)" by (cases y) auto
    with step obtain e' where e': "serve ops r e = Inr (e', fs)" "in_step k e' n'"
      by (cases "serve ops r e") auto
    have "Suc (unat (en_next_ref n)) < 2 ^ 64" using Cons.prems(4) by simp
    from serve_keeps [OF Cons.prems(2) this Cons.prems(3) y]
    have "rel_sum (=) (\<lambda>(e', fs) (n', fs'). in_step k e' n' \<and> fs = fs') (serve_all ops rs e') (serve_all naive_ops rs n')"
      using Cons.prems(4-6) by (intro Cons.IH [OF e'(2)]) auto
    from rel_sum_andthen [OF this, of "\<lambda>(e', fs) (n', fs'). in_step k e' n' \<and> fs = fs'"
        "\<lambda>(e'', gs). Inr (e'', fs @ gs)" "\<lambda>(e'', gs). Inr (e'', fs @ gs)"]
    show ?thesis by (auto simp: y e')
  qed
qed simp

text \<open>What the books of the two engines then agree on.\<close>

lemma in_step_best:
  assumes "in_step k e n" and "\<not> nb_crossed (en_book n)"
    and "\<not> bo_empty ops (en_book e) Buy" and "\<not> bo_empty ops (en_book e) Sell"
  shows "bo_best ops (en_book e) Buy < bo_best ops (en_book e) Sell"
  using assms empty_eq [OF in_stepD [OF assms(1)]] best_eq [OF in_stepD [OF assms(1)]]
  by (simp add: nb_crossed_def not_le)

end

end
