(* ===== verification/Book_Runs.thy ===== *)
theory Book_Runs
  imports Flat_Book_Ops Engine_Session
begin

text \<open>
  Whole lives of a book built on a level map: from construction through any run of
  operations, and through any session of the engine, it answers as the list of resting
  orders does.
\<close>

section \<open>Answering as the list of resting orders\<close>

definition answers_as :: "'b book_ops \<Rightarrow> 'b \<Rightarrow> naive_book \<Rightarrow> bool" where
  "answers_as ops b rs \<longleftrightarrow>
     bo_validate ops b = Inr () \<and> book_digest ops b = book_digest naive_ops rs \<and>
     bo_order_count ops b = of_nat (length rs) \<and>
     (\<forall>s. bo_empty ops b s = nb_empty rs s \<and> bo_best ops b s = nb_best rs s \<and>
          bo_total_qty ops b s = nb_total_qty rs s \<and> bo_level_count ops b s = nb_level_count rs s \<and>
          bo_levels ops b s = Inr (sb_levels rs s)) \<and>
     (\<forall>s p. bo_qty_at ops b s p = Inr (nb_qty_at rs s p) \<and> bo_orders_at ops b s p = Inr (nb_orders_at rs s p) \<and>
            bo_front_at ops b s p = Inr (sb_front_at rs s p)) \<and>
     (\<forall>ref. bo_contains ops b ref = Inr (nb_contains rs ref) \<and> bo_side_of ops b ref = bo_side_of naive_ops rs ref \<and>
            bo_price_of ops b ref = bo_price_of naive_ops rs ref \<and> bo_qty_of ops b ref = bo_qty_of naive_ops rs ref \<and>
            bo_owner_of ops b ref = bo_owner_of naive_ops rs ref)"

context order_book
begin

lemma rep_answers: "rep b rs \<Longrightarrow> answers_as ops b rs"
  unfolding answers_as_def
  by (simp add: validate_ok digest_eq order_count_eq empty_eq best_eq total_qty_eq level_count_eq levels_eq
      qty_at_eq orders_at_eq front_at_eq contains_eq side_of_eq price_of_eq qty_of_eq owner_of_eq
      del: naive_ops_simps)

end

lemma room_for_all_mono: "m \<le> n \<Longrightarrow> room_for_all m ok xs rs \<Longrightarrow> room_for_all n ok xs rs"
proof (induction xs arbitrary: rs)
  case (Cons x xs)
  then have "room_for n ok x rs" by (cases x) auto
  with Cons show ?case by (auto split: sum.splits)
qed simp

section \<open>Books on a level map\<close>

text \<open>The capacities of the constructor for which its tables exist.\<close>

definition capacities_ok :: "u32 \<Rightarrow> u32 \<Rightarrow> u32 \<Rightarrow> bool" where
  "capacities_ok oc lc ic \<longleftrightarrow>
     0 < oc \<and> oc \<le> kMaxCapacity \<and> 0 < lc \<and> lc \<le> kMaxCapacity \<and> unat ic \<le> 2 ^ 30"

definition book_room :: "u32 \<Rightarrow> u32 \<Rightarrow> u32 \<Rightarrow> nat" where
  "book_room oc lc ic = min (unat oc) (min (unat lc) (unat ic))"

text \<open>
  A book that has lived through the operations \<open>xs\<close>, and an engine that has served the
  requests \<open>rs\<close> and has room for one more, each with the list of resting orders it
  stands for.
\<close>

definition lived :: "'m level_ops \<Rightarrow> (price \<Rightarrow> bool) \<Rightarrow> index_hash \<Rightarrow> nat \<Rightarrow> book_op list \<Rightarrow> 'm book \<Rightarrow> naive_book \<Rightarrow> bool" where
  "lived L ok H n xs b rs \<longleftrightarrow>
     (\<exists>oc lc ic b0. capacities_ok oc lc ic \<and> n = book_room oc lc ic \<and> room_for_all n ok xs [] \<and>
        book_new L oc lc ic = Inr b0 \<and> run_ops (flat_ops L H) xs b0 = Inr b \<and> run_ops naive_ops xs [] = Inr rs)"

definition served :: "'m level_ops \<Rightarrow> (price \<Rightarrow> bool) \<Rightarrow> index_hash \<Rightarrow> stp_mode \<Rightarrow> request list \<Rightarrow>
    'm book engine \<Rightarrow> naive_book engine \<Rightarrow> bool" where
  "served L ok H stp rs e n \<longleftrightarrow>
     (\<exists>oc lc ic b fs. capacities_ok oc lc ic \<and> length rs < book_room oc lc ic \<and> (\<forall>r \<in> set rs. priced ok r) \<and>
        book_new L oc lc ic = Inr b \<and> serve_all (flat_ops L H) rs (engine_new b stp) = Inr (e, fs) \<and>
        serve_all naive_ops rs (engine_new [] stp) = Inr (n, fs))"

lemma rel_sum_answer:
  "rel_sum (=) R x y \<Longrightarrow> (case y of Inl e \<Rightarrow> x = Inl e | Inr r \<Rightarrow> \<exists>z. x = Inr z \<and> R z r)"
  by (cases x; cases y) auto

context level_map
begin

lemma flat_start:
  assumes "capacities_ok oc lc ic"
  shows "\<exists>b. book_new ops oc lc ic = Inr b \<and> rep H b [] \<and> book_room oc lc ic \<le> bk_limit b"
  using book_new_rep assms unfolding capacities_ok_def book_room_def by blast

lemma bk_limit_small: "rep H b rs \<Longrightarrow> bk_limit b < 2 ^ 24"
  using rep_storage [of content inv H b rs]
  by (auto simp: bk_limit_def storage_ok_def pool_inv_def pool_inv_at_def kMaxCapacity_def kNullIndex_def kIndexBits_def)

lemma flat_run_limit:
  assumes "rep H b []" and "n \<le> bk_limit b" and "room_for_all n ok_price xs []"
  shows "rel_sum (=) (\<lambda>b' rs. rep H b' rs \<and> bk_limit b' = bk_limit b \<and> length rs \<le> bk_limit b)
    (run_ops (flat_ops ops H) xs b) (run_ops naive_ops xs [])"
  using room_for_all_mono [OF assms(2,3)] by (intro flat.run_ops_refines [OF assms(1)]) auto

lemma lived_rep:
  assumes "lived ops ok_price H n xs b rs"
  shows "rep H b rs" and "n \<le> bk_limit b"
proof -
  obtain oc lc ic b0 where l: "capacities_ok oc lc ic" "n = book_room oc lc ic" "room_for_all n ok_price xs []"
    "book_new ops oc lc ic = Inr b0" "run_ops (flat_ops ops H) xs b0 = Inr b" "run_ops naive_ops xs [] = Inr rs"
    using assms unfolding lived_def by blast
  moreover obtain b1 where "book_new ops oc lc ic = Inr b1" "rep H b1 []" "n \<le> bk_limit b1"
    using flat_start [OF l(1)] l(2) by blast
  ultimately show "rep H b rs" "n \<le> bk_limit b" using flat_run_limit [of H b0 n xs] by auto
qed

lemma lived_answers: "lived ops ok_price H n xs b rs \<Longrightarrow> answers_as (flat_ops ops H) b rs"
  using lived_rep(1) flat.rep_answers by blast

theorem flat_runs:
  assumes "capacities_ok oc lc ic" and "room_for_all (book_room oc lc ic) ok_price xs []"
  shows "\<exists>b. book_new ops oc lc ic = Inr b \<and>
    rel_sum (=) (\<lambda>b' rs. rep H b' rs \<and> answers_as (flat_ops ops H) b' rs) (run_ops (flat_ops ops H) xs b) (run_ops naive_ops xs [])"
proof -
  obtain b where b: "book_new ops oc lc ic = Inr b" "rep H b []" "book_room oc lc ic \<le> bk_limit b"
    using flat_start [OF assms(1)] by blast
  note run = flat_run_limit [OF b(2,3) assms(2)]
  have "rel_sum (=) (\<lambda>b' rs. rep H b' rs \<and> answers_as (flat_ops ops H) b' rs)
    (run_ops (flat_ops ops H) xs b) (run_ops naive_ops xs [])"
    by (rule rel_sum_strengthen [OF run]) (simp add: flat.rep_answers)
  with b(1) show ?thesis by blast
qed

lemma flat_session_steps:
  assumes b: "rep H b []" and len: "length rs \<le> bk_limit b" and p: "\<forall>r \<in> set rs. priced ok_price r"
  shows "rel_sum (=) (\<lambda>(e, fs) (n, gs). flat.in_step H (bk_limit b) e n \<and> fs = gs \<and> engine_ok n \<and>
      \<not> nb_crossed (en_book n) \<and> length (en_book n) \<le> length rs \<and> unat (en_next_ref n) \<le> Suc (length rs) \<and>
      en_stp n = stp \<and> answers_as (flat_ops ops H) (en_book e) (en_book n))
    (serve_all (flat_ops ops H) rs (engine_new b stp)) (serve_all naive_ops rs (engine_new [] stp))"
proof -
  have small: "unat (en_next_ref (engine_new [] stp :: naive_book engine)) + length rs < 2 ^ 64"
    using len bk_limit_small [OF b] by (simp add: engine_new_def)
  have start: "flat.in_step H (bk_limit b) (engine_new b stp) (engine_new [] stp)"
    using b by (simp add: flat.in_step_def engine_rel_def engine_new_def)
  have step: "rel_sum (=) (\<lambda>(e, fs) (n, gs). flat.in_step H (bk_limit b) e n \<and> fs = gs)
      (serve_all (flat_ops ops H) rs (engine_new b stp)) (serve_all naive_ops rs (engine_new [] stp))"
    using len p by (intro flat.serve_all_refines [OF start engine_new_ok small]) (simp_all add: engine_new_def)
  show ?thesis
  proof (rule rel_sum_strengthen [OF step])
    fix x y
    assume y: "serve_all naive_ops rs (engine_new [] stp) = Inr y"
      and "(case x of (e, fs) \<Rightarrow> \<lambda>(n, gs). flat.in_step H (bk_limit b) e n \<and> fs = gs) y"
    then show "(case x of (e, fs) \<Rightarrow> \<lambda>(n, gs). flat.in_step H (bk_limit b) e n \<and> fs = gs \<and> engine_ok n \<and>
        \<not> nb_crossed (en_book n) \<and> length (en_book n) \<le> length rs \<and> unat (en_next_ref n) \<le> Suc (length rs) \<and>
        en_stp n = stp \<and> answers_as (flat_ops ops H) (en_book e) (en_book n)) y"
      using serve_all_keeps [OF engine_new_ok(1) small engine_new_ok(2)] flat.rep_answers flat.in_stepD
      by (cases x; cases y) (auto simp: engine_new_def)
  qed
qed

theorem flat_sessions:
  assumes "capacities_ok oc lc ic" and "length rs \<le> book_room oc lc ic" and "\<forall>r \<in> set rs. priced ok_price r"
  shows "\<exists>b. book_new ops oc lc ic = Inr b \<and>
    rel_sum (=) (\<lambda>(e, fs) (n, gs). fs = gs \<and> \<not> nb_crossed (en_book n) \<and>
        answers_as (flat_ops ops H) (en_book e) (en_book n))
      (serve_all (flat_ops ops H) rs (engine_new b stp)) (serve_all naive_ops rs (engine_new [] stp))"
proof -
  obtain b where b: "book_new ops oc lc ic = Inr b" "rep H b []" "book_room oc lc ic \<le> bk_limit b"
    using flat_start [OF assms(1)] by blast
  have "length rs \<le> bk_limit b" using assms(2) b(3) by simp
  from flat_session_steps [OF b(2) this assms(3), of stp]
  have "rel_sum (=) (\<lambda>(e, fs) (n, gs). fs = gs \<and> \<not> nb_crossed (en_book n) \<and>
        answers_as (flat_ops ops H) (en_book e) (en_book n))
      (serve_all (flat_ops ops H) rs (engine_new b stp)) (serve_all naive_ops rs (engine_new [] stp))"
    by (rule rel_sum_strengthen) auto
  with b(1) show ?thesis by blast
qed

text \<open>An engine in the middle of a session, and what its next submission returns.\<close>

lemma served_state:
  assumes "served ops ok_price H stp rs e n"
  shows "engine_rel (rep H) e n" and "engine_ok n" and "\<not> nb_crossed (en_book n)" and "en_stp n = stp"
    and "length (en_book n) < bk_limit (en_book e)" and "en_next_ref n + 1 \<noteq> 0"
    and "answers_as (flat_ops ops H) (en_book e) (en_book n)"
proof -
  obtain oc lc ic b0 fs where s: "capacities_ok oc lc ic" "length rs < book_room oc lc ic" "\<forall>r \<in> set rs. priced ok_price r"
    "book_new ops oc lc ic = Inr b0" "serve_all (flat_ops ops H) rs (engine_new b0 stp) = Inr (e, fs)"
    "serve_all naive_ops rs (engine_new [] stp) = Inr (n, fs)"
    using assms unfolding served_def by blast
  obtain b where b: "book_new ops oc lc ic = Inr b" "rep H b []" "book_room oc lc ic \<le> bk_limit b"
    using flat_start [OF s(1)] by blast
  then have bb: "b0 = b" using s(4) by simp
  have "length rs \<le> bk_limit b" using s(2) b(3) by simp
  from flat_session_steps [OF b(2) this s(3), of stp]
  have r: "flat.in_step H (bk_limit b) e n" "engine_ok n" "\<not> nb_crossed (en_book n)" "en_stp n = stp"
    "length (en_book n) \<le> length rs" "unat (en_next_ref n) \<le> Suc (length rs)"
    "answers_as (flat_ops ops H) (en_book e) (en_book n)"
    unfolding bb [symmetric] s(5,6) by auto
  then show "engine_rel (rep H) e n" "engine_ok n" "\<not> nb_crossed (en_book n)" "en_stp n = stp"
    "answers_as (flat_ops ops H) (en_book e) (en_book n)" "length (en_book n) < bk_limit (en_book e)"
    using s(2) b(3) by (auto simp: flat.in_step_def)
  have "Suc (unat (en_next_ref n)) < 2 ^ 64" using bk_limit_small [OF b(2)] r(6) s(2) b(3) by simp
  then have "unat (en_next_ref n + 1) \<noteq> 0" by (simp add: unat_plus_one)
  then show "en_next_ref n + 1 \<noteq> 0" by (metis unat_0)
qed

lemma served_submit:
  assumes s: "served ops ok_price H stp rs e n" and acc: "accepted o'" and p: "priced ok_price (Submit o')"
  shows "\<exists>e' n'. submit (flat_ops ops H) o' fills e =
      Inr (e', report_of o' (en_next_ref e) (sweep_of o' n), fills @ sw_fills (sweep_of o' n)) \<and>
    submit naive_ops o' fills n = Inr (n', report_of o' (en_next_ref e) (sweep_of o' n), fills @ sw_fills (sweep_of o' n)) \<and>
    answers_as (flat_ops ops H) (en_book e') (en_book n') \<and> \<not> nb_crossed (en_book n')"
proof -
  note st = served_state [OF s]
  have nr: "en_next_ref e = en_next_ref n" using st(1) by (simp add: engine_rel_def)
  obtain n' where n': "submit naive_ops o' fills n =
      Inr (n', report_of o' (en_next_ref n) (sweep_of o' n), fills @ sw_fills (sweep_of o' n))"
    using submit_naive [OF st(2) acc st(6), of fills] by blast
  have "rel_sum (=) (\<lambda>(e', rp, fs) (n', rp', fs'). engine_rel (rep H) e' n' \<and>
      bk_limit (en_book e') = bk_limit (en_book e) \<and> rp = rp' \<and> fs = fs')
    (submit (flat_ops ops H) o' fills e) (submit naive_ops o' fills n)"
    using p by (intro flat.submit_refines [OF st(1,5)]) auto
  then obtain e' where "submit (flat_ops ops H) o' fills e =
      Inr (e', report_of o' (en_next_ref n) (sweep_of o' n), fills @ sw_fills (sweep_of o' n))"
    "engine_rel (rep H) e' n'"
    unfolding n' by (cases "submit (flat_ops ops H) o' fills e") auto
  moreover have "\<not> nb_crossed (en_book n')" by (rule submit_uncrossed [OF st(2) acc st(6) st(3) n'])
  ultimately show ?thesis
    using n' flat.rep_answers nr by (auto simp: engine_rel_def)
qed

lemma served_report:
  assumes "served ops ok_price H stp rs e n" and "priced ok_price (Submit o')"
    and "submit (flat_ops ops H) o' [] e = Inr (e', rp, fs)"
  shows "rp = report_of o' (en_next_ref e) (sweep_of o' n)" and "fs = sw_fills (sweep_of o' n)"
  using served_submit [OF assms(1) submit_accepts [OF assms(3)] assms(2), of "[]"] assms(3) by auto

lemma served_quantities: "served ops ok_price H stp rs e n \<Longrightarrow> \<forall>x \<in> set (priority s (en_book n)). r_qty x \<noteq> 0"
  using served_state(2) by (auto simp: priority_side engine_ok_def wf_book_def)

end

end
