(* ===== verification/Ladder_Book.thy ===== *)
theory Ladder_Book
  imports Price_Ladder_Laws Book_Runs
begin

text \<open>
  flat_book.hpp: \<open>FlatBook\<close>, the order book on price ladders. The ladder is interpreted as a
  level map, which gives the book's contract and the engine's over it; and a short life of
  a ladder outside the prices the interpretation covers, where a level gets lost.
\<close>

section \<open>The ladder is a level map\<close>

interpretation ladder: level_map ladder_ops ladder_content ladder_inv ladder_price
proof
  fix s m p h
  show "ladder_inv s (lm_new ladder_ops s)" "ladder_content (lm_new ladder_ops s) = Map.empty"
    using ladder_new_ok by (simp_all add: ladder_ops_def)
  show "ladder_price p \<Longrightarrow> p \<noteq> kNoPrice" by (rule ladder_price_nonzero)
  assume inv: "ladder_inv s m"
  show "ladder_content m p = Some h \<Longrightarrow> \<not> is_null h" "ladder_content m p = Some h \<Longrightarrow> ladder_price p"
    using inv ladder_inv_content [OF inv, of p h] by (force simp: ladder_inv_def)+
  show "finite (dom (ladder_content m))"
    using ladder_dom [OF inv] entries_finite inv by (auto simp: ladder_inv_def)
  show "lm_find ladder_ops m p = Inr (lookup (ladder_content m) p)"
    by (simp add: ladder_ops_def ladder_find_eq)
  show "\<not> is_null h \<Longrightarrow> ladder_price p \<Longrightarrow> ladder_content m p = None \<Longrightarrow>
      card (dom (ladder_content m)) < max_levels \<Longrightarrow>
      \<exists>m'. lm_insert ladder_ops m p h = Inr m' \<and> ladder_inv s m' \<and> ladder_content m' = (ladder_content m)(p \<mapsto> h)"
    using ladder_insert_ok [OF inv] by (simp add: ladder_ops_def)
  show "ladder_content m p = Some h \<Longrightarrow>
      \<exists>m'. lm_erase ladder_ops m p = Inr m' \<and> ladder_inv s m' \<and> ladder_content m' = (ladder_content m)(p := None)"
    using ladder_erase_ok [OF inv] by (simp add: ladder_ops_def)
  have empty: "entries m = {} \<longleftrightarrow> ladder_content m = Map.empty"
    using ladder_dom [OF inv] by (metis dom_eq_empty_conv image_is_empty)
  then show "lm_empty ladder_ops m \<longleftrightarrow> ladder_content m = Map.empty"
    using ladder_empty_iff [OF inv] by (simp add: ladder_ops_def)
  show "ladder_content m \<noteq> Map.empty \<Longrightarrow>
      \<exists>p. lm_best ladder_ops m = Inr p \<and> is_best s (dom (ladder_content m)) p"
    using ladder_best_ok [OF inv] empty ladder_dom [OF inv] by (simp add: ladder_ops_def)
  have "map_of (ladder_levels m) = ladder_content m"
    using ladder_levels_ok(2) [OF inv] ladder_inv_content [OF inv]
      map_of_eq_Some_iff [OF inside_out_distinct [OF ladder_levels_ok(1) [OF inv]]]
    by (intro map_ext_Some) simp
  then show "\<exists>xs. lm_levels ladder_ops m = Inr xs \<and> inside_out s xs \<and> map_of xs = ladder_content m"
    using ladder_levels_ok [OF inv] by (simp add: ladder_ops_def)
  show "lm_validate ladder_ops m = Inr ()"
    using ladder_validate_ok [OF inv] by (simp add: ladder_ops_def)
qed

section \<open>A window over the end of the price range\<close>

text \<open>
  Two levels on the ask side, at 100.00 and then at 10.00: the second one, the new best,
  recentres the window on it, and the window now reaches below zero. The walk that should
  pull the level into the window starts at a bound that wrapped to the top of the range.
\<close>

definition stranded :: "failure + ladder" where
  "stranded = andthen (ladder_insert (ladder_new Sell) 1000000 (Handle 257)) (\<lambda>l. ladder_insert l 100000 (Handle 513))"

lemma blank_window:
  assumes "pl_words l = replicate 64 0"
  shows "held_slots l = []"
  using assms by (auto simp: held_slots_def slot_bit_def ladder_consts filter_empty_conv)

lemma one_slot_window:
  assumes "pl_words l = (replicate 64 0)[n div 64 := push_bit (n mod 64) 1]" and "n < 4096"
  shows "held_slots l = [n]"
proof -
  have "slot_bit l i \<longleftrightarrow> i = n" if "i < 4096" for i
    using assms that same_slot [of i n] by (auto simp: slot_bit_def nth_list_update bit_simps)
  then have "held_slots l = filter (\<lambda>i. i = n) [0..<4096]"
    unfolding held_slots_def ladder_consts by (intro filter_cong) auto
  also have "\<dots> = filter (\<lambda>i. i = n) ([0..<n] @ [n] @ [Suc n..<4096])"
    using assms(2) upt_add_eq_append [of 0 n "4096 - n"] upt_conv_Cons [of n 4096] by simp
  also have "\<dots> = [n]" by (simp add: filter_empty_conv)
  finally show ?thesis .
qed

lemmas run_ladder = ladder_find_eq ladder_content_def best_in_window_eq collect_window_eq occupied_slots_eq
  in_window_def aligned_def tick_of_def slot_of_def price_of_slot_def tick_pos_def ladder_consts

lemma handles_named: "\<not> is_null (Handle 257)" "\<not> is_null (Handle 513)"
  by (simp_all add: is_null_def kNullBits_def)

definition first_level :: ladder where
  "first_level = \<lparr>pl_side = Sell, pl_base = 7952, pl_slots = (replicate 4096 null_handle)[2048 := Handle 257],
     pl_words = (replicate 64 0)[32 := 1], pl_overflow = [], pl_levels = 1, pl_rebases = 1, pl_displaced = 0\<rparr>"

lemma insert_first: "ladder_insert (ladder_new Sell) 1000000 (Handle 257) = Inr first_level"
proof -
  let ?l = "\<lparr>pl_side = Sell, pl_base = 0, pl_slots = replicate 4096 null_handle, pl_words = replicate 64 0,
     pl_overflow = [(1000000, Handle 257)], pl_levels = 1, pl_rebases = 0, pl_displaced = 0\<rparr>"
  have h: "held_slots ?l = []" by (rule blank_window) simp
  have "ladder_insert (ladder_new Sell) 1000000 (Handle 257) = maybe_rebase ?l"
    by (simp add: ladder_insert_def ladder_new_def run_ladder handles_named lookup_def)
  also have "\<dots> = Inr (rebase 10000 ?l)"
    by (simp add: maybe_rebase_def ladder_empty_def ladder_best_def h run_ladder Let_def)
  also have "rebase 10000 ?l = first_level"
    by (simp add: rebase_def slide_over_def pull_in_def put_slot_def set_slot_bit_def h run_ladder Let_def first_level_def)
  finally show ?thesis .
qed

definition second_level :: ladder where
  "second_level = \<lparr>pl_side = Sell, pl_base = - 1048, pl_slots = (replicate 4096 null_handle)[2048 := null_handle],
     pl_words = replicate 64 0, pl_overflow = [(100000, Handle 513), (1000000, Handle 257)],
     pl_levels = 2, pl_rebases = 2, pl_displaced = 1\<rparr>"

lemma insert_second: "ladder_insert first_level 100000 (Handle 513) = Inr second_level"
proof -
  let ?l = "first_level\<lparr>pl_overflow := [(100000, Handle 513)], pl_levels := 2\<rparr>"
  have h: "held_slots ?l = [2048]" by (rule one_slot_window) (simp_all add: first_level_def)
  have "ladder_insert first_level 100000 (Handle 513) = maybe_rebase ?l"
    by (simp add: ladder_insert_def first_level_def run_ladder handles_named lookup_def)
  also have "\<dots> = Inr (rebase 1000 ?l)"
  proof -
    have "ladder_best ?l = Inr 100000"
      using h by (simp add: ladder_best_def ladder_better_def ladder_empty_def run_ladder first_level_def kNoPrice_def)
    then show ?thesis
      by (simp add: maybe_rebase_def ladder_empty_def run_ladder Let_def first_level_def)
  qed
  also have "rebase 1000 ?l = second_level"
    using h by (simp add: rebase_def slide_over_def put_back_def run_ladder Let_def first_level_def second_level_def)
  finally show ?thesis .
qed

lemma stranded_run: "stranded = Inr second_level"
  by (simp add: stranded_def insert_first insert_second)

lemma stranded_level:
  "ladder_find second_level 100000 = null_handle" "ladder_best second_level = Inr 100000"
  "ladder_validate second_level = Inl (LevelsF InWindowOverflow)"
proof -
  have h: "held_slots second_level = []" by (rule blank_window) (simp add: second_level_def)
  have "\<not> slot_bit second_level 2048" by (simp add: slot_bit_def second_level_def)
  then show "ladder_find second_level 100000 = null_handle"
    by (simp add: run_ladder second_level_def lookup_def)
  show "ladder_best second_level = Inr 100000"
    using h by (simp add: ladder_best_def ladder_empty_def run_ladder second_level_def)
  have "in_window_count second_level = 0"
    using h by (subst in_window_count_eq) (simp_all add: second_level_def ladder_consts)
  then show "ladder_validate second_level = Inl (LevelsF InWindowOverflow)"
    using h by (simp add: ladder_validate_def occupied_slots_eq)
      (simp add: run_ladder second_level_def handles_named)
qed

end
