(* ===== verification/Samples.thy ===== *)
theory Samples
  imports Ladder_Book
begin

text \<open>
  A short life of a book and a short session of the engine at concrete values: two asks, at
  100.00 and 101.00, of two participants.
\<close>

definition sample_ops :: "book_op list" where
  "sample_ops = [Add 1 Buy 1000000 100 7, Add 2 Buy 1000000 50 8, Execute 1 30, Replace 2 3 990000 40]"

definition sample_asks :: "request list" where
  "sample_asks =
     [Submit \<lparr>no_client_id = 11, no_owner = 7, no_side = Sell, no_type = Limit, no_tif = Day, no_price = 1000000, no_qty = 100\<rparr>,
      Submit \<lparr>no_client_id = 12, no_owner = 8, no_side = Sell, no_type = Limit, no_tif = Day, no_price = 1010000, no_qty = 50\<rparr>]"

definition sample_bid :: "order_type \<Rightarrow> price \<Rightarrow> qty \<Rightarrow> u16 \<Rightarrow> new_order" where
  "sample_bid t p q ow = \<lparr>no_client_id = 13, no_owner = ow, no_side = Buy, no_type = t, no_tif = Day, no_price = p, no_qty = q\<rparr>"

lemma sample_bid_qty [simp]: "no_qty (sample_bid t p q ow) = q"
  by (simp add: sample_bid_def)

definition sample_book :: naive_book where
  "sample_book =
     [\<lparr>r_ref = 1, r_side = Sell, r_price = 1000000, r_qty = 100, r_owner = 7\<rparr>,
      \<lparr>r_ref = 2, r_side = Sell, r_price = 1010000, r_qty = 50, r_owner = 8\<rparr>]"

lemma sample_ops_run:
  "run_ops naive_ops sample_ops [] =
     Inr [\<lparr>r_ref = 1, r_side = Buy, r_price = 1000000, r_qty = 70, r_owner = 7\<rparr>,
          \<lparr>r_ref = 3, r_side = Buy, r_price = 990000, r_qty = 40, r_owner = 8\<rparr>]"
  by code_simp

lemma ladder_price_word: "ladder_price = (\<lambda>p. 204800 \<le> p \<and> p < 4294762496)"
  by (simp add: fun_eq_iff ladder_price_def word_le_nat_alt word_less_nat_alt)

lemma rel_sum_Inr: "rel_sum (=) R x (Inr r) \<Longrightarrow> \<exists>z. x = Inr z \<and> R z r"
  by (cases x) auto

lemma sample_capacity: "capacities_ok 8 8 8" "book_room 8 8 8 = 8"
  by (simp_all add: capacities_ok_def kMaxCapacity_def kNullIndex_def kIndexBits_def book_room_def)

lemma sample_room: "room_for_all 8 ladder_price sample_ops []"
  unfolding ladder_price_word by code_simp

lemma sample_asks_run:
  "serve_all naive_ops sample_asks (engine_new [] stp) =
     Inr (\<lparr>en_book = sample_book, en_stp = stp, en_next_ref = 3,
       en_stats = \<lparr>es_submitted = 2, es_fills = 0, es_filled_qty = 0, es_rested = 2, es_cancelled = 0, es_stp_events = 0\<rparr>\<rparr>, [])"
  by (cases stp) code_simp+

lemma sample_lived: "\<exists>b. lived ladder_ops ladder_price H 8 sample_ops b
    [\<lparr>r_ref = 1, r_side = Buy, r_price = 1000000, r_qty = 70, r_owner = 7\<rparr>,
     \<lparr>r_ref = 3, r_side = Buy, r_price = 990000, r_qty = 40, r_owner = 8\<rparr>]"
proof -
  have room: "room_for_all (book_room 8 8 8) ladder_price sample_ops []" using sample_room sample_capacity by simp
  obtain b where b: "book_new ladder_ops 8 8 8 = Inr b"
    "rel_sum (=) (\<lambda>b' rs. ladder.rep H b' rs \<and> answers_as (flat_ops ladder_ops H) b' rs)
      (run_ops (flat_ops ladder_ops H) sample_ops b) (run_ops naive_ops sample_ops [])"
    using ladder.flat_runs [OF sample_capacity(1) room, of H] by blast
  obtain b' where "run_ops (flat_ops ladder_ops H) sample_ops b = Inr b'"
    using rel_sum_Inr [OF b(2) [unfolded sample_ops_run]] by (elim exE conjE) (rule that)
  with b(1) have "capacities_ok 8 8 8 \<and> 8 = book_room 8 8 8 \<and> room_for_all 8 ladder_price sample_ops [] \<and>
    book_new ladder_ops 8 8 8 = Inr b \<and> run_ops (flat_ops ladder_ops H) sample_ops b = Inr b'"
    using sample_room sample_capacity by metis
  then show ?thesis unfolding lived_def using sample_ops_run by blast
qed

lemma serve_sample:
  assumes "serve_all naive_ops rs (engine_new [] stp) = Inr (n, fs)" and "\<forall>r \<in> set rs. priced ladder_price r"
    and "length rs < 8"
  shows "\<exists>e. served ladder_ops ladder_price H stp rs e n"
proof -
  have len: "length rs < book_room 8 8 8" using assms(3) by (simp add: sample_capacity)
  obtain b where b: "book_new ladder_ops 8 8 8 = Inr b"
    "rel_sum (=) (\<lambda>(e, fs) (n, gs). fs = gs \<and> \<not> nb_crossed (en_book n) \<and>
        answers_as (flat_ops ladder_ops H) (en_book e) (en_book n))
      (serve_all (flat_ops ladder_ops H) rs (engine_new b stp)) (serve_all naive_ops rs (engine_new [] stp))"
    using ladder.flat_sessions [OF sample_capacity(1) less_imp_le [OF len] assms(2), of H stp] by blast
  then obtain e where "serve_all (flat_ops ladder_ops H) rs (engine_new b stp) = Inr (e, fs)"
    unfolding assms(1) using rel_sum_Inr [of _ "serve_all (flat_ops ladder_ops H) rs (engine_new b stp)"]
    by fastforce
  with b(1) assms(1,2) len sample_capacity(1) have "served ladder_ops ladder_price H stp rs e n"
    unfolding served_def by blast
  then show ?thesis ..
qed

lemma sample_served:
  "\<exists>e n. served ladder_ops ladder_price H stp sample_asks e n \<and> en_book n = sample_book"
proof -
  have "\<forall>r \<in> set sample_asks. priced ladder_price r" "length sample_asks < 8"
    by (simp_all add: sample_asks_def ladder_price_def)
  from serve_sample [OF sample_asks_run this] show ?thesis by (metis engine.select_convs(1))
qed

text \<open>The same with a bid at 99.00 behind it.\<close>

definition sample_both :: "request list" where
  "sample_both = sample_asks @ [Submit (sample_bid Limit 990000 10 9)]"

definition sample_two_sided :: naive_book where
  "sample_two_sided = sample_book @ [\<lparr>r_ref = 3, r_side = Buy, r_price = 990000, r_qty = 10, r_owner = 9\<rparr>]"

lemma sample_both_run:
  "\<exists>n. serve_all naive_ops sample_both (engine_new [] Off) = Inr (n, []) \<and> en_book n = sample_two_sided"
proof -
  have "serve_all naive_ops sample_both (engine_new [] Off) =
    Inr (\<lparr>en_book = sample_two_sided, en_stp = Off, en_next_ref = 4,
       en_stats = \<lparr>es_submitted = 3, es_fills = 0, es_filled_qty = 0, es_rested = 3, es_cancelled = 0, es_stp_events = 0\<rparr>\<rparr>, [])"
    by code_simp
  then show ?thesis by simp
qed

lemma sample_served_both:
  "\<exists>e n. served ladder_ops ladder_price H Off sample_both e n \<and> en_book n = sample_two_sided"
proof -
  have "\<forall>r \<in> set sample_both. priced ladder_price r" "length sample_both < 8"
    by (simp_all add: sample_both_def sample_asks_def sample_bid_def ladder_price_def)
  then show ?thesis using sample_both_run serve_sample by metis
qed

text \<open>The sweeps along the two asks.\<close>

lemma sample_priority: "priority Sell sample_book = sample_book"
  by code_simp

lemma sample_sweep:
  "sweep Off (sample_bid Limit 1010000 120 9) (priority (opposite (no_side (sample_bid Limit 1010000 120 9))) sample_book) 120 =
    \<lparr>sw_fills = [fill_of (sample_bid Limit 1010000 120 9) (sample_book ! 0) 100,
       fill_of (sample_bid Limit 1010000 120 9) (sample_book ! 1) 20], sw_left = 0, sw_stopped = False, sw_pulled = 0,
     sw_events = 0, sw_book = [(sample_book ! 1)\<lparr>r_qty := 30\<rparr>]\<rparr>"
  "sw_fills (sweep CancelOldest (sample_bid Limit 1010000 120 7)
      (priority (opposite (no_side (sample_bid Limit 1010000 120 7))) sample_book) 120) =
    [fill_of (sample_bid Limit 1010000 120 7) (sample_book ! 1) 50]"
  by code_simp+

end
