(* ===== verification/Avl_Level_Map.thy ===== *)
theory Avl_Level_Map
  imports Level_Map
begin

text \<open>
  include/itch/book/avl_level_map.hpp: an AVL tree of price levels whose nodes live in a
  vector, linked by 32-bit indices, with the released nodes on a free list through their
  left links. The recursive members and the loops take fuel, the number of nodes, which is
  more than the depth of the tree; running out of it is \<open>Diverges\<close>.
\<close>

section \<open>State\<close>

record avl_node =
  an_price :: price
  an_level :: level_handle
  an_left :: u32
  an_right :: u32
  an_height :: u32

record avl_map =
  am_side :: side
  am_nodes :: "avl_node list"
  am_root :: u32
  am_free :: u32
  am_size :: u32

definition kNull :: u32 where
  "kNull = 0xFFFFFFFF"

definition avl_new :: "side \<Rightarrow> avl_map" where
  "avl_new s = \<lparr>am_side = s, am_nodes = [], am_root = kNull, am_free = kNull, am_size = 0\<rparr>"

definition node_at :: "avl_map \<Rightarrow> u32 \<Rightarrow> avl_node" where
  "node_at t n = am_nodes t ! unat n"

definition put_node :: "u32 \<Rightarrow> avl_node \<Rightarrow> avl_map \<Rightarrow> avl_map" where
  "put_node n x t = t\<lparr>am_nodes := (am_nodes t)[unat n := x]\<rparr>"

definition set_left :: "u32 \<Rightarrow> u32 \<Rightarrow> avl_map \<Rightarrow> avl_map" where
  "set_left n c t = put_node n ((node_at t n)\<lparr>an_left := c\<rparr>) t"

definition set_right :: "u32 \<Rightarrow> u32 \<Rightarrow> avl_map \<Rightarrow> avl_map" where
  "set_right n c t = put_node n ((node_at t n)\<lparr>an_right := c\<rparr>) t"

section \<open>Heights and rotations\<close>

definition height_of :: "avl_map \<Rightarrow> u32 \<Rightarrow> u32" where
  "height_of t n = (if n = kNull then 0 else an_height (node_at t n))"

definition balance_of :: "avl_map \<Rightarrow> u32 \<Rightarrow> int" where
  "balance_of t n =
     (if n = kNull then 0
      else sint (height_of t (an_left (node_at t n))) - sint (height_of t (an_right (node_at t n))))"

definition retune :: "u32 \<Rightarrow> avl_map \<Rightarrow> avl_map" where
  "retune n t =
     (let x = node_at t n in
      put_node n (x\<lparr>an_height := 1 + max (height_of t (an_left x)) (height_of t (an_right x))\<rparr>) t)"

definition rotate_right :: "u32 \<Rightarrow> avl_map \<Rightarrow> avl_map \<times> u32" where
  "rotate_right y t =
     (let x = an_left (node_at t y);
          t = set_left y (an_right (node_at t x)) t;
          t = set_right x y t;
          t = retune y t;
          t = retune x t
      in (t, x))"

definition rotate_left :: "u32 \<Rightarrow> avl_map \<Rightarrow> avl_map \<times> u32" where
  "rotate_left x t =
     (let y = an_right (node_at t x);
          t = set_right x (an_left (node_at t y)) t;
          t = set_left y x t;
          t = retune x t;
          t = retune y t
      in (t, y))"

definition rebalance :: "u32 \<Rightarrow> avl_map \<Rightarrow> avl_map \<times> u32" where
  "rebalance n t =
     (let t = retune n t; b = balance_of t n in
      if 1 < b then
        let t = (if balance_of t (an_left (node_at t n)) < 0
                 then let (t', c) = rotate_left (an_left (node_at t n)) t in set_left n c t' else t)
        in rotate_right n t
      else if b < - 1 then
        let t = (if 0 < balance_of t (an_right (node_at t n))
                 then let (t', c) = rotate_right (an_right (node_at t n)) t in set_right n c t' else t)
        in rotate_left n t
      else (t, n))"

section \<open>Nodes\<close>

definition new_node :: "price \<Rightarrow> level_handle \<Rightarrow> avl_map \<Rightarrow> avl_map \<times> u32" where
  "new_node p h t =
     (let x = \<lparr>an_price = p, an_level = h, an_left = kNull, an_right = kNull, an_height = 1\<rparr> in
      if am_free t \<noteq> kNull then
        let i = am_free t in (put_node i x (t\<lparr>am_free := an_left (node_at t i)\<rparr>), i)
      else (t\<lparr>am_nodes := am_nodes t @ [x]\<rparr>, of_nat (length (am_nodes t))))"

definition release_node :: "u32 \<Rightarrow> avl_map \<Rightarrow> avl_map" where
  "release_node i t = (set_left i (am_free t) t)\<lparr>am_free := i\<rparr>"

section \<open>Insertion and erasure\<close>

fun avl_insert_at :: "nat \<Rightarrow> u32 \<Rightarrow> price \<Rightarrow> level_handle \<Rightarrow> avl_map \<Rightarrow> failure + avl_map \<times> u32" where
  "avl_insert_at fuel n p h t =
     (if n = kNull then Inr (new_node p h t)
      else case fuel of
        0 \<Rightarrow> Inl Diverges
      | Suc fuel \<Rightarrow>
          andthen (ensure (p \<noteq> an_price (node_at t n)) (LevelsF LevelExists)) (\<lambda>_.
          if p < an_price (node_at t n) then
            andthen (avl_insert_at fuel (an_left (node_at t n)) p h t) (\<lambda>(t', c). Inr (rebalance n (set_left n c t')))
          else
            andthen (avl_insert_at fuel (an_right (node_at t n)) p h t) (\<lambda>(t', c). Inr (rebalance n (set_right n c t')))))"

fun leftmost :: "nat \<Rightarrow> avl_map \<Rightarrow> u32 \<Rightarrow> failure + u32" where
  "leftmost fuel t n =
     (if an_left (node_at t n) = kNull then Inr n
      else case fuel of 0 \<Rightarrow> Inl Diverges | Suc fuel \<Rightarrow> leftmost fuel t (an_left (node_at t n)))"

fun rightmost :: "nat \<Rightarrow> avl_map \<Rightarrow> u32 \<Rightarrow> failure + u32" where
  "rightmost fuel t n =
     (if an_right (node_at t n) = kNull then Inr n
      else case fuel of 0 \<Rightarrow> Inl Diverges | Suc fuel \<Rightarrow> rightmost fuel t (an_right (node_at t n)))"

fun avl_erase_at :: "nat \<Rightarrow> u32 \<Rightarrow> price \<Rightarrow> avl_map \<Rightarrow> failure + avl_map \<times> u32" where
  "avl_erase_at fuel n p t =
     (if n = kNull then Inr (t, kNull)
      else case fuel of
        0 \<Rightarrow> Inl Diverges
      | Suc fuel \<Rightarrow>
          let x = node_at t n in
          if p < an_price x then
            andthen (avl_erase_at fuel (an_left x) p t) (\<lambda>(t', c). Inr (rebalance n (set_left n c t')))
          else if an_price x < p then
            andthen (avl_erase_at fuel (an_right x) p t) (\<lambda>(t', c). Inr (rebalance n (set_right n c t')))
          else
            let t1 = t\<lparr>am_size := am_size t - 1\<rparr>; l = an_left x; r = an_right x in
            if l = kNull \<or> r = kNull then Inr (release_node n t1, if l = kNull then r else l)
            else
              andthen (leftmost fuel t1 r) (\<lambda>s.
              let sp = an_price (node_at t1 s); sh = an_level (node_at t1 s); t2 = t1\<lparr>am_size := am_size t1 + 1\<rparr> in
              andthen (avl_erase_at fuel r sp t2) (\<lambda>(t3, c).
              let t4 = set_right n c t3 in
              Inr (rebalance n (put_node n ((node_at t4 n)\<lparr>an_price := sp, an_level := sh\<rparr>) t4)))))"

declare avl_insert_at.simps [simp del] leftmost.simps [simp del] rightmost.simps [simp del] avl_erase_at.simps [simp del]

definition avl_fuel :: "avl_map \<Rightarrow> nat" where
  "avl_fuel t = length (am_nodes t)"

definition avl_insert :: "avl_map \<Rightarrow> price \<Rightarrow> level_handle \<Rightarrow> failure + avl_map" where
  "avl_insert t p h =
     andthen (ensure (\<not> is_null h) (LevelsF LevelNullHandle)) (\<lambda>_.
     andthen (avl_insert_at (avl_fuel t) (am_root t) p h t) (\<lambda>(t', n).
       Inr (t'\<lparr>am_root := n, am_size := am_size t' + 1\<rparr>)))"

definition avl_erase :: "avl_map \<Rightarrow> price \<Rightarrow> failure + avl_map" where
  "avl_erase t p =
     andthen (ensure (0 < am_size t) (LevelsF TreeEraseEmpty)) (\<lambda>_.
     let before = am_size t in
     andthen (avl_erase_at (avl_fuel t) (am_root t) p t) (\<lambda>(t', n).
     andthen (ensure (am_size t' = before - 1) (LevelsF LevelMissing)) (\<lambda>_. Inr (t'\<lparr>am_root := n\<rparr>))))"

section \<open>Lookup, best and walks\<close>

fun find_from :: "nat \<Rightarrow> avl_map \<Rightarrow> u32 \<Rightarrow> price \<Rightarrow> failure + level_handle" where
  "find_from fuel t n p =
     (if n = kNull then Inr null_handle
      else case fuel of
        0 \<Rightarrow> Inl Diverges
      | Suc fuel \<Rightarrow>
          let x = node_at t n in
          if p = an_price x then Inr (an_level x)
          else find_from fuel t (if p < an_price x then an_left x else an_right x) p)"

definition avl_find :: "avl_map \<Rightarrow> price \<Rightarrow> failure + level_handle" where
  "avl_find t p = find_from (avl_fuel t) t (am_root t) p"

definition avl_empty :: "avl_map \<Rightarrow> bool" where
  "avl_empty t \<longleftrightarrow> am_size t = 0"

definition avl_best :: "avl_map \<Rightarrow> failure + price" where
  "avl_best t =
     andthen (ensure (\<not> avl_empty t) (LevelsF BestOnEmpty)) (\<lambda>_.
     andthen ((if am_side t = Buy then rightmost else leftmost) (avl_fuel t) t (am_root t)) (\<lambda>n.
       Inr (an_price (node_at t n))))"

text \<open>The walk from the inside with its explicit stack: the inner loop and the outer one.\<close>

fun descend :: "nat \<Rightarrow> avl_map \<Rightarrow> u32 \<Rightarrow> u32 list \<Rightarrow> failure + u32 list" where
  "descend fuel t n stack =
     (if n = kNull then Inr stack
      else case fuel of
        0 \<Rightarrow> Inl Diverges
      | Suc fuel \<Rightarrow>
          descend fuel t (if am_side t = Buy then an_right (node_at t n) else an_left (node_at t n)) (n # stack))"

fun walk :: "nat \<Rightarrow> avl_map \<Rightarrow> u32 \<Rightarrow> u32 list \<Rightarrow> failure + (price \<times> level_handle) list" where
  "walk fuel t n stack =
     (if n = kNull \<and> stack = [] then Inr []
      else case fuel of
        0 \<Rightarrow> Inl Diverges
      | Suc fuel \<Rightarrow>
          andthen (descend (avl_fuel t) t n stack) (\<lambda>stack.
          let m = hd stack; x = node_at t m in
          andthen (walk fuel t (if am_side t = Buy then an_left x else an_right x) (tl stack)) (\<lambda>xs.
            Inr ((an_price x, an_level x) # xs))))"

declare find_from.simps [simp del] descend.simps [simp del] walk.simps [simp del]

definition avl_levels :: "avl_map \<Rightarrow> failure + (price \<times> level_handle) list" where
  "avl_levels t = walk (avl_fuel t) t (am_root t) []"

section \<open>Validation\<close>

fun check_node :: "nat \<Rightarrow> avl_map \<Rightarrow> u32 \<Rightarrow> u32 \<Rightarrow> failure + u32" where
  "check_node fuel t n counted =
     (if n = kNull then Inr counted
      else case fuel of
        0 \<Rightarrow> Inl Diverges
      | Suc fuel \<Rightarrow>
          let x = node_at t n in
          andthen (check_node fuel t (an_left x) (counted + 1)) (\<lambda>counted.
          andthen (check_node fuel t (an_right x) counted) (\<lambda>counted.
          andthen (ensure (an_height x = 1 + max (height_of t (an_left x)) (height_of t (an_right x)))
            (LevelsF TreeHeight)) (\<lambda>_.
          andthen (ensure (- 1 \<le> balance_of t n \<and> balance_of t n \<le> 1) (LevelsF TreeBalance)) (\<lambda>_.
          andthen (ensure (\<not> is_null (an_level x)) (LevelsF LevelSlotNull)) (\<lambda>_. Inr counted))))))"

fun walk_ascending :: "nat \<Rightarrow> avl_map \<Rightarrow> u32 \<Rightarrow> failure + price list" where
  "walk_ascending fuel t n =
     (if n = kNull then Inr []
      else case fuel of
        0 \<Rightarrow> Inl Diverges
      | Suc fuel \<Rightarrow>
          andthen (walk_ascending fuel t (an_left (node_at t n))) (\<lambda>ps.
          andthen (walk_ascending fuel t (an_right (node_at t n))) (\<lambda>qs.
            Inr (ps @ an_price (node_at t n) # qs))))"

declare check_node.simps [simp del] walk_ascending.simps [simp del]

fun check_ascending :: "price option \<Rightarrow> price list \<Rightarrow> failure + unit" where
  "check_ascending prev [] = Inr ()"
| "check_ascending prev (p # ps) =
     andthen (ensure (case prev of None \<Rightarrow> True | Some q \<Rightarrow> q < p) (LevelsF TreeOrder)) (\<lambda>_.
       check_ascending (Some p) ps)"

definition avl_validate :: "avl_map \<Rightarrow> failure + unit" where
  "avl_validate t =
     andthen (check_node (avl_fuel t) t (am_root t) 0) (\<lambda>counted.
     andthen (walk_ascending (avl_fuel t) t (am_root t)) (\<lambda>ps.
     andthen (check_ascending None ps) (\<lambda>_.
       ensure (counted = am_size t) (LevelsF LevelCensus))))"

definition avl_ops :: "avl_map level_ops" where
  "avl_ops = \<lparr>lm_new = avl_new, lm_find = avl_find, lm_insert = avl_insert, lm_erase = avl_erase,
     lm_best = avl_best, lm_empty = avl_empty, lm_levels = avl_levels, lm_validate = avl_validate\<rparr>"

end
