(* ===== verification/Avl_Tree.thy ===== *)
theory Avl_Tree
  imports Level_Map
begin

text \<open>
  The pure trees behind the node vector: a node carries its index, its price and its level,
  and heights are recomputed. Rebalancing, insertion and erasure follow the members of
  \<open>AvlLevelMap\<close>; they keep the order, the balance and the set of indices.
\<close>

datatype avl_tree = Tip | Bin avl_tree u32 price level_handle avl_tree

fun entries_of :: "avl_tree \<Rightarrow> (price \<times> level_handle) list" where
  "entries_of Tip = []"
| "entries_of (Bin l i p h r) = entries_of l @ (p, h) # entries_of r"

fun indices :: "avl_tree \<Rightarrow> nat list" where
  "indices Tip = []"
| "indices (Bin l i p h r) = indices l @ unat i # indices r"

fun ht :: "avl_tree \<Rightarrow> nat" where
  "ht Tip = 0"
| "ht (Bin l i p h r) = Suc (max (ht l) (ht r))"

fun balanced :: "avl_tree \<Rightarrow> bool" where
  "balanced Tip = True"
| "balanced (Bin l i p h r) \<longleftrightarrow> balanced l \<and> balanced r \<and> ht l \<le> Suc (ht r) \<and> ht r \<le> Suc (ht l)"

lemma ht_le_indices: "ht t \<le> length (indices t)"
  by (induction t) auto

lemma ht_zero [simp]: "ht t = 0 \<longleftrightarrow> t = Tip"
  by (cases t) auto

lemma length_entries: "length (entries_of t) = length (indices t)"
  by (induction t) auto

section \<open>Rebalancing\<close>

fun rotr :: "avl_tree \<Rightarrow> avl_tree" where
  "rotr (Bin (Bin a i p h b) j q k c) = Bin a i p h (Bin b j q k c)"
| "rotr t = t"

fun rotl :: "avl_tree \<Rightarrow> avl_tree" where
  "rotl (Bin a i p h (Bin b j q k c)) = Bin (Bin a i p h b) j q k c"
| "rotl t = t"

fun leans_right :: "avl_tree \<Rightarrow> bool" where
  "leans_right Tip = False"
| "leans_right (Bin l i p h r) \<longleftrightarrow> ht l < ht r"

fun leans_left :: "avl_tree \<Rightarrow> bool" where
  "leans_left Tip = False"
| "leans_left (Bin l i p h r) \<longleftrightarrow> ht r < ht l"

definition rebal :: "avl_tree \<Rightarrow> u32 \<Rightarrow> price \<Rightarrow> level_handle \<Rightarrow> avl_tree \<Rightarrow> avl_tree" where
  "rebal l i p h r =
     (if Suc (ht r) < ht l then rotr (Bin (if leans_right l then rotl l else l) i p h r)
      else if Suc (ht l) < ht r then rotl (Bin l i p h (if leans_left r then rotr r else r))
      else Bin l i p h r)"

lemma rot_entries [simp]: "entries_of (rotr t) = entries_of t" "entries_of (rotl t) = entries_of t"
  by (cases t rule: rotr.cases; simp) (cases t rule: rotl.cases; simp)

lemma rot_indices [simp]: "indices (rotr t) = indices t" "indices (rotl t) = indices t"
  by (cases t rule: rotr.cases; simp) (cases t rule: rotl.cases; simp)

lemma rebal_lists:
  "entries_of (rebal l i p h r) = entries_of l @ (p, h) # entries_of r"
  "indices (rebal l i p h r) = indices l @ unat i # indices r"
  by (simp_all add: rebal_def)

lemma rebal_balanced:
  assumes "balanced l" and "balanced r" and "ht l \<le> ht r + 2" and "ht r \<le> ht l + 2"
  shows "balanced (rebal l i p h r)"
    and "if ht l \<le> Suc (ht r) \<and> ht r \<le> Suc (ht l) then ht (rebal l i p h r) = Suc (max (ht l) (ht r))
      else max (ht l) (ht r) \<le> ht (rebal l i p h r) \<and> ht (rebal l i p h r) \<le> Suc (max (ht l) (ht r))"
proof -
  have "balanced (rebal l i p h r) \<and> ht (rebal l i p h r) \<le> Suc (max (ht l) (ht r)) \<and>
    max (ht l) (ht r) \<le> ht (rebal l i p h r)"
  proof -
    consider (left) "Suc (ht r) < ht l" | (right) "Suc (ht l) < ht r" | (even) "\<not> Suc (ht r) < ht l" "\<not> Suc (ht l) < ht r"
      by blast
    then show ?thesis
    proof cases
      case left
      then obtain a j q k b where l: "l = Bin a j q k b" by (cases l) auto
      show ?thesis
      proof (cases "ht a < ht b")
        case True
        then obtain b1 j' q' k' b2 where "b = Bin b1 j' q' k' b2" by (cases b) auto
        with left True l assms show ?thesis by (auto simp: rebal_def)
      next
        case False
        with left l assms show ?thesis by (auto simp: rebal_def)
      qed
    next
      case right
      then obtain a j q k b where r: "r = Bin a j q k b" by (cases r) auto
      show ?thesis
      proof (cases "ht b < ht a")
        case True
        then obtain a1 j' q' k' a2 where "a = Bin a1 j' q' k' a2" by (cases a) auto
        with right True r assms show ?thesis by (auto simp: rebal_def)
      next
        case False
        with right r assms show ?thesis by (auto simp: rebal_def)
      qed
    next
      case even
      with assms show ?thesis by (auto simp: rebal_def)
    qed
  qed
  moreover have "ht (rebal l i p h r) = Suc (max (ht l) (ht r))" if "ht l \<le> Suc (ht r)" "ht r \<le> Suc (ht l)"
    using that by (simp add: rebal_def)
  ultimately show "balanced (rebal l i p h r)"
    "if ht l \<le> Suc (ht r) \<and> ht r \<le> Suc (ht l) then ht (rebal l i p h r) = Suc (max (ht l) (ht r))
      else max (ht l) (ht r) \<le> ht (rebal l i p h r) \<and> ht (rebal l i p h r) \<le> Suc (max (ht l) (ht r))" by simp_all
qed

section \<open>Insertion\<close>

fun ins :: "u32 \<Rightarrow> price \<Rightarrow> level_handle \<Rightarrow> avl_tree \<Rightarrow> avl_tree" where
  "ins i p h Tip = Bin Tip i p h Tip"
| "ins i p h (Bin l j q k r) = (if p < q then rebal (ins i p h l) j q k r else rebal l j q k (ins i p h r))"

lemma ins_balanced:
  "balanced t \<Longrightarrow> balanced (ins i p h t) \<and> ht t \<le> ht (ins i p h t) \<and> ht (ins i p h t) \<le> Suc (ht t)"
proof (induction t)
  case (Bin l j q k r)
  show ?case
  proof (cases "p < q")
    case True
    then show ?thesis
      using Bin rebal_balanced [of "ins i p h l" r j q k] by (auto split: if_splits)
  next
    case False
    then show ?thesis
      using Bin rebal_balanced [of l "ins i p h r" j q k] by (auto split: if_splits)
  qed
qed simp

definition ordered :: "avl_tree \<Rightarrow> bool" where
  "ordered t \<longleftrightarrow> sorted_wrt (<) (map fst (entries_of t))"

lemma ordered_Tip [simp]: "ordered Tip"
  by (simp add: ordered_def)

lemma ordered_Bin:
  "ordered (Bin l i p h r) \<longleftrightarrow> ordered l \<and> ordered r \<and> (\<forall>x \<in> set (entries_of l). fst x < p) \<and> (\<forall>x \<in> set (entries_of r). p < fst x)"
  by (auto simp: ordered_def sorted_wrt_append dest: order_less_trans)

lemma ins_entries:
  "ordered t \<Longrightarrow> p \<notin> fst ` set (entries_of t) \<Longrightarrow>
    \<exists>xs ys. entries_of t = xs @ ys \<and> entries_of (ins i p h t) = xs @ (p, h) # ys \<and>
      (\<forall>x \<in> set xs. fst x < p) \<and> (\<forall>y \<in> set ys. p < fst y)"
proof (induction t)
  case (Bin l j q k r)
  show ?case
  proof (cases "p < q")
    case True
    have "ordered l" "p \<notin> fst ` set (entries_of l)" using Bin.prems by (simp_all add: ordered_Bin image_Un)
    then obtain xs ys where l: "entries_of l = xs @ ys" "entries_of (ins i p h l) = xs @ (p, h) # ys"
      "\<forall>x \<in> set xs. fst x < p" "\<forall>y \<in> set ys. p < fst y"
      using Bin.IH(1) by blast
    have "\<forall>y \<in> set (ys @ (q, k) # entries_of r). p < fst y"
      using l(4) True Bin.prems(1) by (auto simp: ordered_Bin intro: order_less_trans)
    with l True show ?thesis
      by - (rule exI [of _ xs], rule exI [of _ "ys @ (q, k) # entries_of r"], simp add: rebal_lists)
  next
    case False
    then have q: "q < p" using Bin.prems(2) by auto
    have "ordered r" "p \<notin> fst ` set (entries_of r)" using Bin.prems by (simp_all add: ordered_Bin image_Un)
    then obtain xs ys where r: "entries_of r = xs @ ys" "entries_of (ins i p h r) = xs @ (p, h) # ys"
      "\<forall>x \<in> set xs. fst x < p" "\<forall>y \<in> set ys. p < fst y"
      using Bin.IH(2) by blast
    have "\<forall>x \<in> set (entries_of l @ (q, k) # xs). fst x < p"
      using r(3) q Bin.prems(1) by (auto simp: ordered_Bin intro: order_less_trans)
    with r False show ?thesis
      by - (rule exI [of _ "entries_of l @ (q, k) # xs"], rule exI [of _ ys], simp add: rebal_lists)
  qed
qed simp

lemma ins_ordered:
  assumes "ordered t" and "p \<notin> fst ` set (entries_of t)"
  shows "ordered (ins i p h t)" and "set (entries_of (ins i p h t)) = insert (p, h) (set (entries_of t))"
proof -
  obtain xs ys where "entries_of t = xs @ ys" "entries_of (ins i p h t) = xs @ (p, h) # ys"
    "\<forall>x \<in> set xs. fst x < p" "\<forall>y \<in> set ys. p < fst y"
    using ins_entries [OF assms] by blast
  with assms(1) show "ordered (ins i p h t)" "set (entries_of (ins i p h t)) = insert (p, h) (set (entries_of t))"
    by (auto simp: ordered_def sorted_wrt_append)
qed

lemma ins_indices: "set (indices (ins i p h t)) = insert (unat i) (set (indices t))"
  by (induction t) (auto simp: rebal_lists)

lemma ins_distinct:
  "distinct (indices t) \<Longrightarrow> unat i \<notin> set (indices t) \<Longrightarrow> distinct (indices (ins i p h t))"
  by (induction t) (auto simp: rebal_lists ins_indices)

section \<open>Erasure\<close>

text \<open>The node of the smallest price.\<close>

fun first_of :: "avl_tree \<Rightarrow> u32 \<times> price \<times> level_handle" where
  "first_of Tip = (0, 0, null_handle)"
| "first_of (Bin l i p h r) = (if l = Tip then (i, p, h) else first_of l)"

text \<open>The tree without a price and the index it releases.\<close>

fun del :: "price \<Rightarrow> avl_tree \<Rightarrow> avl_tree \<times> u32" where
  "del p Tip = (Tip, 0)"
| "del p (Bin l i q k r) =
     (if p < q then (let (l', d) = del p l in (rebal l' i q k r, d))
      else if q < p then (let (r', d) = del p r in (rebal l i q k r', d))
      else if l = Tip then (r, i)
      else if r = Tip then (l, i)
      else (let (j, sp, sh) = first_of r; (r', d) = del sp r in (rebal l i sp sh r', d)))"

lemma first_of_entries:
  "t \<noteq> Tip \<Longrightarrow> first_of t = (i, p, h) \<Longrightarrow> \<exists>xs. entries_of t = (p, h) # xs"
  by (induction t) (auto split: if_splits)

lemma first_of_del:
  "t \<noteq> Tip \<Longrightarrow> ordered t \<Longrightarrow> first_of t = (i, p, h) \<Longrightarrow> entries_of (fst (del p t)) = tl (entries_of t)"
proof (induction t)
  case (Bin l j q k r)
  show ?case
  proof (cases "l = Tip")
    case True
    with Bin show ?thesis by simp
  next
    case False
    then have f: "first_of l = (i, p, h)" using Bin.prems by simp
    obtain xs where xs: "entries_of l = (p, h) # xs" using first_of_entries [OF False f] by blast
    then have "p < q" using Bin.prems(2) by (auto simp: ordered_Bin)
    moreover have "entries_of (fst (del p l)) = xs" using Bin.IH(1) False f xs Bin.prems(2) by (simp add: ordered_Bin)
    ultimately show ?thesis using xs by (simp add: rebal_lists case_prod_beta)
  qed
qed simp

lemma del_entries:
  "ordered t \<Longrightarrow> (p, h) \<in> set (entries_of t) \<Longrightarrow>
    \<exists>xs ys. entries_of t = xs @ (p, h) # ys \<and> entries_of (fst (del p t)) = xs @ ys"
proof (induction t)
  case (Bin l i q k r)
  consider (left) "p < q" | (right) "q < p" | (here) "p = q" by force
  then show ?case
  proof cases
    case left
    then have "(p, h) \<in> set (entries_of l)" using Bin.prems by (auto simp: ordered_Bin)
    then obtain xs ys where "entries_of l = xs @ (p, h) # ys" "entries_of (fst (del p l)) = xs @ ys"
      using Bin by (auto simp: ordered_Bin)
    with left show ?thesis
      by - (rule exI [of _ xs], rule exI [of _ "ys @ (q, k) # entries_of r"], simp add: rebal_lists case_prod_beta)
  next
    case right
    then have "(p, h) \<in> set (entries_of r)" using Bin.prems by (auto simp: ordered_Bin)
    then obtain xs ys where "entries_of r = xs @ (p, h) # ys" "entries_of (fst (del p r)) = xs @ ys"
      using Bin by (auto simp: ordered_Bin)
    with right show ?thesis
      by - (rule exI [of _ "entries_of l @ (q, k) # xs"], rule exI [of _ ys], auto simp: rebal_lists case_prod_beta)
  next
    case here
    then have h: "h = k" using Bin.prems by (fastforce simp: ordered_Bin)
    show ?thesis
    proof (cases "l = Tip \<or> r = Tip")
      case True
      with here h show ?thesis
        by (intro exI [of _ "entries_of l"] exI [of _ "entries_of r"]) auto
    next
      case False
      obtain j sp sh where f: "first_of r = (j, sp, sh)" by (cases "first_of r") auto
      with False Bin.prems have "entries_of (fst (del sp r)) = tl (entries_of r)"
        "\<exists>xs. entries_of r = (sp, sh) # xs"
        using first_of_del first_of_entries by (auto simp: ordered_Bin)
      with False f here h show ?thesis
        by - (rule exI [of _ "entries_of l"], rule exI [of _ "entries_of r"], auto simp: rebal_lists case_prod_beta)
    qed
  qed
qed simp

lemma del_ordered:
  assumes "ordered t" and "(p, h) \<in> set (entries_of t)"
  shows "ordered (fst (del p t))" and "set (entries_of (fst (del p t))) = set (entries_of t) - {(p, h)}"
    and "p \<notin> fst ` set (entries_of (fst (del p t)))"
proof -
  obtain xs ys where e: "entries_of t = xs @ (p, h) # ys" "entries_of (fst (del p t)) = xs @ ys"
    using del_entries [OF assms] by blast
  with assms(1) show "ordered (fst (del p t))" by (auto simp: ordered_def sorted_wrt_append)
  have "p \<notin> fst ` set (xs @ ys)" using assms(1) e(1) by (auto simp: ordered_def sorted_wrt_append)
  then show "p \<notin> fst ` set (entries_of (fst (del p t)))" "set (entries_of (fst (del p t))) = set (entries_of t) - {(p, h)}"
    using e by force+
qed

lemma del_balanced:
  "balanced t \<Longrightarrow> balanced (fst (del p t)) \<and> ht (fst (del p t)) \<le> ht t \<and> ht t \<le> Suc (ht (fst (del p t)))"
proof (induction p t rule: del.induct)
  case (2 p l i q k r)
  have sides: "balanced (rebal l' i q' k' r') \<and> ht (rebal l' i q' k' r') \<le> ht (Bin l i q k r) \<and>
      ht (Bin l i q k r) \<le> Suc (ht (rebal l' i q' k' r'))"
    if "balanced l'" "balanced r'" "ht l' \<le> ht l" "ht l \<le> Suc (ht l')" "ht r' \<le> ht r" "ht r \<le> Suc (ht r')"
      "l' = l \<or> r' = r" for l' r' q' k'
    using that 2(4) rebal_balanced [of l' r' i q' k'] by (auto split: if_splits)
  consider (left) "p < q" | (right) "q < p" | (here) "p = q" "l = Tip \<or> r = Tip" | (two) "p = q" "l \<noteq> Tip" "r \<noteq> Tip"
    by force
  then show ?case
  proof cases
    case left
    then show ?thesis using 2 sides [of "fst (del p l)" r] by (auto simp: case_prod_beta)
  next
    case right
    then show ?thesis using 2 sides [of l "fst (del p r)"] by (auto simp: case_prod_beta)
  next
    case here
    then show ?thesis using 2(4) by auto
  next
    case two
    obtain j sp sh where f: "first_of r = (j, sp, sh)" by (cases "first_of r") auto
    then have "balanced (fst (del sp r)) \<and> ht (fst (del sp r)) \<le> ht r \<and> ht r \<le> Suc (ht (fst (del sp r)))"
      using 2(3) [OF _ _ two(2,3) f [symmetric] refl] two(1) 2(4) by simp
    then show ?thesis using 2(4) two f sides [of l "fst (del sp r)" sp sh] by (auto simp: case_prod_beta)
  qed
qed simp

lemma del_indices:
  "ordered t \<Longrightarrow> (p, h) \<in> set (entries_of t) \<Longrightarrow> distinct (indices t) \<Longrightarrow>
    unat (snd (del p t)) \<in> set (indices t) \<and>
    set (indices (fst (del p t))) = set (indices t) - {unat (snd (del p t))} \<and> distinct (indices (fst (del p t)))"
proof (induction p t arbitrary: h rule: del.induct)
  case (2 p l i q k r)
  consider (left) "p < q" | (right) "q < p" | (here) "p = q" "l = Tip \<or> r = Tip" | (two) "p = q" "l \<noteq> Tip" "r \<noteq> Tip"
    by force
  then show ?case
  proof cases
    case left
    then have "(p, h) \<in> set (entries_of l)" using 2(4,5) by (auto simp: ordered_Bin)
    then have "unat (snd (del p l)) \<in> set (indices l) \<and>
      set (indices (fst (del p l))) = set (indices l) - {unat (snd (del p l))} \<and> distinct (indices (fst (del p l)))"
      using 2(1) [OF left] 2(4,6) by (auto simp: ordered_Bin)
    then show ?thesis using left 2(6) by (auto simp: rebal_lists case_prod_beta)
  next
    case right
    then have "(p, h) \<in> set (entries_of r)" using 2(4,5) by (auto simp: ordered_Bin)
    then have "unat (snd (del p r)) \<in> set (indices r) \<and>
      set (indices (fst (del p r))) = set (indices r) - {unat (snd (del p r))} \<and> distinct (indices (fst (del p r)))"
      using 2(2) [OF _ right, of h] right 2(4,6) by (simp add: ordered_Bin not_less order.asym)
    moreover have "del p (Bin l i q k r) = (rebal l i q k (fst (del p r)), snd (del p r))"
      using right by (auto simp: case_prod_beta)
    ultimately show ?thesis using 2(6) by (auto simp: rebal_lists simp del: del.simps)
  next
    case here
    then show ?thesis using 2(6) by auto
  next
    case two
    obtain j sp sh where f: "first_of r = (j, sp, sh)" by (cases "first_of r") auto
    then have "(sp, sh) \<in> set (entries_of r)" using two first_of_entries by (metis list.set_intros(1))
    then have "unat (snd (del sp r)) \<in> set (indices r) \<and>
      set (indices (fst (del sp r))) = set (indices r) - {unat (snd (del sp r))} \<and> distinct (indices (fst (del sp r)))"
      using 2(3) [OF _ _ two(2,3) f [symmetric] refl, where h = sh] two(1) 2(4,6) by (simp add: ordered_Bin)
    then show ?thesis using two f 2(6) by (auto simp: rebal_lists case_prod_beta)
  qed
qed simp

end
