(* ===== verification/Avl_Nodes.thy ===== *)
theory Avl_Nodes
  imports Avl_Level_Map Avl_Tree
begin

text \<open>
  The node vector holds a tree: what it means, and that retuning, rotating, rebalancing,
  inserting and erasing on the vector are the operations on the pure tree, with every node
  of no concern left as it is.
\<close>

section \<open>The tree in the vector\<close>

fun root :: "avl_tree \<Rightarrow> u32" where
  "root Tip = kNull"
| "root (Bin l i p h r) = i"

definition node_is :: "avl_node list \<Rightarrow> u32 \<Rightarrow> avl_tree \<Rightarrow> price \<Rightarrow> level_handle \<Rightarrow> avl_tree \<Rightarrow> u32 \<Rightarrow> bool" where
  "node_is ns i l p h r k \<longleftrightarrow> unat i < length ns \<and> i \<noteq> kNull \<and>
     ns ! unat i = \<lparr>an_price = p, an_level = h, an_left = root l, an_right = root r, an_height = k\<rparr>"

fun tree_in :: "avl_node list \<Rightarrow> avl_tree \<Rightarrow> bool" where
  "tree_in ns Tip = True"
| "tree_in ns (Bin l i p h r) \<longleftrightarrow>
     node_is ns i l p h r (of_nat (Suc (max (ht l) (ht r)))) \<and> tree_in ns l \<and> tree_in ns r"

lemma root_null [simp]: "tree_in ns t \<Longrightarrow> root t = kNull \<longleftrightarrow> t = Tip"
  by (cases t) (auto simp: node_is_def)

lemma tree_in_bound: "tree_in ns t \<Longrightarrow> set (indices t) \<subseteq> {..<length ns}"
  by (induction t) (auto simp: node_is_def)

lemma tree_in_cong:
  "tree_in ns t \<Longrightarrow> length ns \<le> length ns' \<Longrightarrow> (\<And>j. j \<in> set (indices t) \<Longrightarrow> ns' ! j = ns ! j) \<Longrightarrow> tree_in ns' t"
  by (induction t) (auto simp: node_is_def)

definition small :: "avl_node list \<Rightarrow> bool" where
  "small ns \<longleftrightarrow> length ns < 2 ^ 31"

lemma ht_small:
  assumes "tree_in ns t" and "distinct (indices t)" and "small ns"
  shows "ht t < 2 ^ 31"
proof -
  have "ht t \<le> length (indices t)" by (rule ht_le_indices)
  also have "\<dots> = card (set (indices t))" by (simp add: assms(2) distinct_card)
  also have "\<dots> \<le> length ns" using card_mono [OF _ tree_in_bound [OF assms(1)]] by simp
  finally show ?thesis using assms(3) by (simp add: small_def)
qed

lemma of_nat_max: "a < 2 ^ 32 \<Longrightarrow> b < 2 ^ 32 \<Longrightarrow> max (of_nat a :: u32) (of_nat b) = of_nat (max a b)"
  by (auto simp: max_def word_le_nat_alt unat_of_nat take_bit_nat_eq_self)

lemma sint_of_nat: "a < 2 ^ 31 \<Longrightarrow> sint (of_nat a :: u32) = int a"
  by (simp add: sint_uint unsigned_of_nat take_bit_nat_eq_self signed_take_bit_int_eq_self)

lemma height_of_root:
  assumes "tree_in (am_nodes t) T" shows "height_of t (root T) = of_nat (ht T)"
  using assms by (cases T) (simp_all add: height_of_def node_is_def node_at_def)

lemma balance_of_node:
  assumes "node_is (am_nodes t) i l p h r k" and "tree_in (am_nodes t) l" and "tree_in (am_nodes t) r"
    and "ht l < 2 ^ 31" and "ht r < 2 ^ 31"
  shows "balance_of t i = int (ht l) - int (ht r)"
  using assms height_of_root [of t l] height_of_root [of t r] sint_of_nat
  by (simp add: balance_of_def node_is_def node_at_def)

lemma retune_node:
  assumes "node_is (am_nodes t) i l p h r k" and "tree_in (am_nodes t) l" and "tree_in (am_nodes t) r"
    and "ht l < 2 ^ 31" and "ht r < 2 ^ 31"
  shows "retune i t = put_node i \<lparr>an_price = p, an_level = h, an_left = root l, an_right = root r,
    an_height = of_nat (Suc (max (ht l) (ht r)))\<rparr> t"
  using assms height_of_root [of t l] height_of_root [of t r] of_nat_max [of "ht l" "ht r"]
  by (simp add: retune_def node_is_def node_at_def Let_def)

lemma put_node_simps [simp]:
  "am_nodes (put_node i x t) = (am_nodes t)[unat i := x]" "am_side (put_node i x t) = am_side t"
  "am_root (put_node i x t) = am_root t" "am_free (put_node i x t) = am_free t" "am_size (put_node i x t) = am_size t"
  by (simp_all add: put_node_def)

lemma put_node_state: "put_node i x t = t\<lparr>am_nodes := (am_nodes t)[unat i := x]\<rparr>"
  by (simp add: put_node_def)

lemma node_is_at: "node_is (am_nodes t) i l p h r k \<Longrightarrow>
  node_at t i = \<lparr>an_price = p, an_level = h, an_left = root l, an_right = root r, an_height = k\<rparr>"
  by (simp add: node_is_def node_at_def)

text \<open>A change of the vector that touches only some nodes.\<close>

definition touches :: "nat set \<Rightarrow> avl_node list \<Rightarrow> avl_node list \<Rightarrow> bool" where
  "touches J ns ns' \<longleftrightarrow> length ns' = length ns \<and> (\<forall>j. j \<notin> J \<longrightarrow> ns' ! j = ns ! j)"

lemma touches_refl [simp]: "touches J ns ns"
  by (simp add: touches_def)

lemma touches_trans: "touches J ns ns' \<Longrightarrow> touches J ns' ns'' \<Longrightarrow> touches J ns ns''"
  by (simp add: touches_def)

lemma touches_mono: "touches J ns ns' \<Longrightarrow> J \<subseteq> J' \<Longrightarrow> touches J' ns ns'"
  by (auto simp: touches_def)

lemma touches_update: "i \<in> J \<Longrightarrow> touches J ns (ns[i := x])"
  unfolding touches_def by (metis length_list_update nth_list_update_neq)

lemma touches_tree: "touches J ns ns' \<Longrightarrow> tree_in ns t \<Longrightarrow> J \<inter> set (indices t) = {} \<Longrightarrow> tree_in ns' t"
  by (erule tree_in_cong) (auto simp: touches_def)

lemma touches_node: "touches J ns ns' \<Longrightarrow> node_is ns i l p h r k \<Longrightarrow> unat i \<notin> J \<Longrightarrow> node_is ns' i l p h r k"
  by (auto simp: touches_def node_is_def)

lemma touches_small: "touches J ns ns' \<Longrightarrow> small ns' = small ns"
  by (simp add: touches_def small_def)

lemma node_is_update:
  "i \<noteq> kNull \<Longrightarrow> unat i < length ns \<Longrightarrow>
    node_is (ns[unat i := \<lparr>an_price = p, an_level = h, an_left = root l, an_right = root r, an_height = k\<rparr>]) i l p h r k"
  by (simp add: node_is_def)

text \<open>Retuning makes a node over two trees a tree.\<close>

lemma retune_tree:
  assumes n: "node_is (am_nodes t) i l p h r k" and lr: "tree_in (am_nodes t) l" "tree_in (am_nodes t) r"
    and d: "distinct (indices (Bin l i p h r))" and sm: "small (am_nodes t)"
  shows "touches {unat i} (am_nodes t) (am_nodes (retune i t))" and "tree_in (am_nodes (retune i t)) (Bin l i p h r)"
    and "retune i t = t\<lparr>am_nodes := am_nodes (retune i t)\<rparr>"
proof -
  have hs: "ht l < 2 ^ 31" "ht r < 2 ^ 31" using ht_small lr d sm by auto
  have n': "am_nodes (retune i t) = (am_nodes t)[unat i := \<lparr>an_price = p, an_level = h, an_left = root l, an_right = root r,
    an_height = of_nat (Suc (max (ht l) (ht r)))\<rparr>]"
    using retune_node [OF n lr hs] by simp
  show w: "touches {unat i} (am_nodes t) (am_nodes (retune i t))" unfolding n' by (rule touches_update) simp
  have "node_is (am_nodes (retune i t)) i l p h r (of_nat (Suc (max (ht l) (ht r))))"
    unfolding n' using n by (intro node_is_update) (auto simp: node_is_def)
  then show "tree_in (am_nodes (retune i t)) (Bin l i p h r)"
    using touches_tree [OF w] lr d by auto
  show "retune i t = t\<lparr>am_nodes := am_nodes (retune i t)\<rparr>"
    by (simp add: retune_def put_node_def Let_def)
qed

section \<open>Rotations\<close>

text \<open>Both rotations relink two nodes and then retune the lower and the upper one.\<close>

lemma retune_both:
  assumes lo: "node_is (am_nodes t) y b py hy c k1" and lr: "tree_in (am_nodes t) b" "tree_in (am_nodes t) c"
    and a: "tree_in (am_nodes t) a" and sm: "small (am_nodes t)"
    and up: "node_is (am_nodes t) x l px hx r k2"
    and side: "(l = a \<and> r = Bin b y py hy c) \<or> (l = Bin b y py hy c \<and> r = a)"
    and d: "distinct (indices (Bin l x px hx r))"
  shows "\<exists>ns'. retune x (retune y t) = t\<lparr>am_nodes := ns'\<rparr> \<and> touches {unat x, unat y} (am_nodes t) ns' \<and>
    tree_in ns' (Bin l x px hx r)"
proof -
  let ?t1 = "retune y t"
  have dl: "distinct (indices (Bin b y py hy c))" "unat x \<noteq> unat y" "unat y \<notin> set (indices a)"
    using d side by auto
  note one = retune_tree [OF lo lr dl(1) sm]
  have "tree_in (am_nodes ?t1) a" using touches_tree [OF one(1) a] dl(3) by simp
  then have sub: "tree_in (am_nodes ?t1) l" "tree_in (am_nodes ?t1) r" using side one(2) by auto
  have "node_is (am_nodes ?t1) x l px hx r k2" by (rule touches_node [OF one(1) up]) (use dl(2) in simp)
  note two = retune_tree [OF this sub d, unfolded touches_small [OF one(1)], OF sm]
  have "touches {unat x, unat y} (am_nodes t) (am_nodes (retune x ?t1))"
    by (rule touches_trans [OF touches_mono [OF one(1)] touches_mono [OF two(1)]]) auto
  moreover have "retune x ?t1 = t\<lparr>am_nodes := am_nodes (retune x ?t1)\<rparr>"
    by (subst two(3), subst one(3)) simp
  ultimately show ?thesis using two(2) by blast
qed

lemma rotate_right_run:
  assumes y: "node_is (am_nodes t) y (Bin a x px hx b) py hy c k1" and x: "node_is (am_nodes t) x a px hx b k2"
    and abc: "tree_in (am_nodes t) a" "tree_in (am_nodes t) b" "tree_in (am_nodes t) c"
    and d: "distinct (indices (Bin (Bin a x px hx b) y py hy c))" and sm: "small (am_nodes t)"
  shows "\<exists>ns'. rotate_right y t = (t\<lparr>am_nodes := ns'\<rparr>, x) \<and> touches {unat x, unat y} (am_nodes t) ns' \<and>
    tree_in ns' (Bin a x px hx (Bin b y py hy c))"
proof -
  have xy: "unat x \<noteq> unat y" using d by auto
  define t1 where "t1 = set_left y (root b) t"
  define t2 where "t2 = set_right x y t1"
  have n1: "am_nodes t1 = (am_nodes t)[unat y := \<lparr>an_price = py, an_level = hy, an_left = root b, an_right = root c, an_height = k1\<rparr>]"
    using y by (simp add: t1_def set_left_def node_is_at)
  have n2: "am_nodes t2 = (am_nodes t1)[unat x := \<lparr>an_price = px, an_level = hx, an_left = root a, an_right = y, an_height = k2\<rparr>]"
    using x xy n1 by (simp add: t2_def set_right_def node_at_def node_is_def)
  have w: "touches {unat x, unat y} (am_nodes t) (am_nodes t2)"
    unfolding n2 n1 by (rule touches_trans [OF touches_update touches_update]) auto
  have abc2: "tree_in (am_nodes t2) a" "tree_in (am_nodes t2) b" "tree_in (am_nodes t2) c"
    using abc d by (auto intro!: touches_tree [OF w])
  have lo: "node_is (am_nodes t2) y b py hy c k1" and up: "node_is (am_nodes t2) x a px hx (Bin b y py hy c) k2"
    using x y xy by (simp_all add: node_is_def n2 n1)
  have "\<exists>ns'. retune x (retune y t2) = t2\<lparr>am_nodes := ns'\<rparr> \<and> touches {unat x, unat y} (am_nodes t2) ns' \<and>
    tree_in ns' (Bin a x px hx (Bin b y py hy c))"
    using d sm touches_small [OF w] by (intro retune_both [OF lo abc2(2,3,1) _ up]) auto
  then obtain ns' where ns': "retune x (retune y t2) = t2\<lparr>am_nodes := ns'\<rparr>" "touches {unat x, unat y} (am_nodes t2) ns'"
    "tree_in ns' (Bin a x px hx (Bin b y py hy c))" by blast
  have "rotate_right y t = (t\<lparr>am_nodes := ns'\<rparr>, x)"
    using y x ns'(1)
    by (simp add: rotate_right_def Let_def t2_def t1_def node_is_at) (simp add: set_left_def set_right_def put_node_def)
  with ns'(3) touches_trans [OF w ns'(2)] show ?thesis by blast
qed

lemma rotate_left_run:
  assumes x: "node_is (am_nodes t) x a px hx (Bin b y py hy c) k1" and y: "node_is (am_nodes t) y b py hy c k2"
    and abc: "tree_in (am_nodes t) a" "tree_in (am_nodes t) b" "tree_in (am_nodes t) c"
    and d: "distinct (indices (Bin a x px hx (Bin b y py hy c)))" and sm: "small (am_nodes t)"
  shows "\<exists>ns'. rotate_left x t = (t\<lparr>am_nodes := ns'\<rparr>, y) \<and> touches {unat y, unat x} (am_nodes t) ns' \<and>
    tree_in ns' (Bin (Bin a x px hx b) y py hy c)"
proof -
  have xy: "unat x \<noteq> unat y" using d by auto
  define t1 where "t1 = set_right x (root b) t"
  define t2 where "t2 = set_left y x t1"
  have n1: "am_nodes t1 = (am_nodes t)[unat x := \<lparr>an_price = px, an_level = hx, an_left = root a, an_right = root b, an_height = k1\<rparr>]"
    using x by (simp add: t1_def set_right_def node_is_at)
  have n2: "am_nodes t2 = (am_nodes t1)[unat y := \<lparr>an_price = py, an_level = hy, an_left = x, an_right = root c, an_height = k2\<rparr>]"
    using y xy n1 by (simp add: t2_def set_left_def node_at_def node_is_def)
  have w: "touches {unat y, unat x} (am_nodes t) (am_nodes t2)"
    unfolding n2 n1 by (rule touches_trans [OF touches_update touches_update]) auto
  have abc2: "tree_in (am_nodes t2) a" "tree_in (am_nodes t2) b" "tree_in (am_nodes t2) c"
    using abc d by (auto intro!: touches_tree [OF w])
  have lo: "node_is (am_nodes t2) x a px hx b k1" and up: "node_is (am_nodes t2) y (Bin a x px hx b) py hy c k2"
    using x y xy by (simp_all add: node_is_def n2 n1)
  have "\<exists>ns'. retune y (retune x t2) = t2\<lparr>am_nodes := ns'\<rparr> \<and> touches {unat y, unat x} (am_nodes t2) ns' \<and>
    tree_in ns' (Bin (Bin a x px hx b) y py hy c)"
    using d sm touches_small [OF w] by (intro retune_both [OF lo abc2 _ up]) auto
  then obtain ns' where ns': "retune y (retune x t2) = t2\<lparr>am_nodes := ns'\<rparr>" "touches {unat y, unat x} (am_nodes t2) ns'"
    "tree_in ns' (Bin (Bin a x px hx b) y py hy c)" by blast
  have "rotate_left x t = (t\<lparr>am_nodes := ns'\<rparr>, y)"
    using y x ns'(1)
    by (simp add: rotate_left_def Let_def t2_def t1_def node_is_at) (simp add: set_left_def set_right_def put_node_def)
  with ns'(3) touches_trans [OF w ns'(2)] show ?thesis by blast
qed

section \<open>Rebalancing\<close>

lemma set_left_run:
  assumes n: "node_is (am_nodes t) n l p h r k" and r: "tree_in (am_nodes t) r" and l': "tree_in (am_nodes t) l'"
    and d: "unat n \<notin> set (indices l')" "unat n \<notin> set (indices r)"
  shows "\<exists>ns'. set_left n (root l') t = t\<lparr>am_nodes := ns'\<rparr> \<and> touches {unat n} (am_nodes t) ns' \<and>
    node_is ns' n l' p h r k \<and> tree_in ns' l' \<and> tree_in ns' r"
proof -
  let ?ns = "(am_nodes t)[unat n := \<lparr>an_price = p, an_level = h, an_left = root l', an_right = root r, an_height = k\<rparr>]"
  have "set_left n (root l') t = t\<lparr>am_nodes := ?ns\<rparr>" using n by (simp add: set_left_def node_is_at put_node_state)
  moreover have w: "touches {unat n} (am_nodes t) ?ns" by (rule touches_update) simp
  ultimately show ?thesis
    using touches_tree [OF w r] touches_tree [OF w l'] d n node_is_update [of n "am_nodes t"] by (auto simp: node_is_def)
qed

lemma set_right_run:
  assumes n: "node_is (am_nodes t) n l p h r k" and l: "tree_in (am_nodes t) l" and r': "tree_in (am_nodes t) r'"
    and d: "unat n \<notin> set (indices l)" "unat n \<notin> set (indices r')"
  shows "\<exists>ns'. set_right n (root r') t = t\<lparr>am_nodes := ns'\<rparr> \<and> touches {unat n} (am_nodes t) ns' \<and>
    node_is ns' n l p h r' k \<and> tree_in ns' l \<and> tree_in ns' r'"
proof -
  let ?ns = "(am_nodes t)[unat n := \<lparr>an_price = p, an_level = h, an_left = root l, an_right = root r', an_height = k\<rparr>]"
  have "set_right n (root r') t = t\<lparr>am_nodes := ?ns\<rparr>" using n by (simp add: set_right_def node_is_at put_node_state)
  moreover have w: "touches {unat n} (am_nodes t) ?ns" by (rule touches_update) simp
  ultimately show ?thesis
    using touches_tree [OF w l] touches_tree [OF w r'] d n node_is_update [of n "am_nodes t"] by (auto simp: node_is_def)
qed

lemma balance_of_root:
  assumes "tree_in (am_nodes t) T" and "distinct (indices T)" and "small (am_nodes t)"
  shows "balance_of t (root T) < 0 \<longleftrightarrow> leans_right T" and "0 < balance_of t (root T) \<longleftrightarrow> leans_left T"
proof -
  have "(balance_of t (root T) < 0 \<longleftrightarrow> leans_right T) \<and> (0 < balance_of t (root T) \<longleftrightarrow> leans_left T)"
  proof (cases T)
    case Tip
    then show ?thesis by (simp add: balance_of_def)
  next
    case (Bin l i p h r)
    then show ?thesis
      using assms balance_of_node [of t i l p h r] ht_small [of "am_nodes t" l] ht_small [of "am_nodes t" r] by auto
  qed
  then show "balance_of t (root T) < 0 \<longleftrightarrow> leans_right T" "0 < balance_of t (root T) \<longleftrightarrow> leans_left T" by auto
qed

text \<open>The straightening rotation of a child, done or not.\<close>

lemma straighten_left:
  assumes n: "node_is (am_nodes t) n l p h r k" and lr: "tree_in (am_nodes t) l" "tree_in (am_nodes t) r"
    and d: "distinct (indices (Bin l n p h r))" and sm: "small (am_nodes t)"
  defines "l' \<equiv> if leans_right l then rotl l else l"
  shows "\<exists>ns'. (if balance_of t (an_left (node_at t n)) < 0
        then let (t', c) = rotate_left (an_left (node_at t n)) t in set_left n c t' else t) = t\<lparr>am_nodes := ns'\<rparr> \<and>
      touches (set (indices (Bin l n p h r))) (am_nodes t) ns' \<and>
      node_is ns' n l' p h r k \<and> tree_in ns' l' \<and> tree_in ns' r"
proof (cases "leans_right l")
  case False
  have "t = t\<lparr>am_nodes := am_nodes t\<rparr>" by simp
  with False show ?thesis
    using n lr d sm balance_of_root(1) [OF lr(1)] by (auto simp: l'_def node_is_at)
next
  case True
  then obtain a x q g b' where l: "l = Bin a x q g b'" "ht a < ht b'" by (cases l) auto
  then obtain b y q' g' c where b: "b' = Bin b y q' g' c" by (cases b') auto
  have l': "l' = Bin (Bin a x q g b) y q' g' c" by (simp add: l'_def True) (simp add: l b)
  have "\<exists>ns'. rotate_left x t = (t\<lparr>am_nodes := ns'\<rparr>, y) \<and> touches {unat y, unat x} (am_nodes t) ns' \<and>
      tree_in ns' (Bin (Bin a x q g b) y q' g' c)"
    using lr d sm by (intro rotate_left_run) (auto simp: l b)
  then obtain n1 where n1: "rotate_left x t = (t\<lparr>am_nodes := n1\<rparr>, y)" "touches {unat y, unat x} (am_nodes t) n1"
    "tree_in n1 l'" unfolding l' by blast
  have r1: "tree_in n1 r" using touches_tree [OF n1(2) lr(2)] d by (auto simp: l b)
  have "node_is n1 n l p h r k" by (rule touches_node [OF n1(2) n]) (use d in \<open>auto simp: l b\<close>)
  then have "\<exists>ns'. set_left n (root l') (t\<lparr>am_nodes := n1\<rparr>) = (t\<lparr>am_nodes := n1\<rparr>)\<lparr>am_nodes := ns'\<rparr> \<and> touches {unat n} n1 ns' \<and>
    node_is ns' n l' p h r k \<and> tree_in ns' l' \<and> tree_in ns' r"
    using set_left_run [of "t\<lparr>am_nodes := n1\<rparr>" n l p h r k l'] r1 n1(3) d by (auto simp: l' l b)
  then obtain n2 where n2: "set_left n (root l') (t\<lparr>am_nodes := n1\<rparr>) = t\<lparr>am_nodes := n2\<rparr>" "touches {unat n} n1 n2"
    "node_is n2 n l' p h r k" "tree_in n2 l'" "tree_in n2 r" by auto
  have "root l' = y" by (simp add: l')
  moreover have "balance_of t x < 0" using balance_of_root(1) [OF lr(1)] d sm True by (auto simp: l)
  moreover have "touches (set (indices (Bin l n p h r))) (am_nodes t) n2"
    by (rule touches_trans [OF touches_mono [OF n1(2)] touches_mono [OF n2(2)]]) (auto simp: l b)
  ultimately show ?thesis using n2 n1(1) n by (intro exI [of _ n2]) (simp add: node_is_at l(1))
qed

lemma straighten_right:
  assumes n: "node_is (am_nodes t) n l p h r k" and lr: "tree_in (am_nodes t) l" "tree_in (am_nodes t) r"
    and d: "distinct (indices (Bin l n p h r))" and sm: "small (am_nodes t)"
  defines "r' \<equiv> if leans_left r then rotr r else r"
  shows "\<exists>ns'. (if 0 < balance_of t (an_right (node_at t n))
        then let (t', c) = rotate_right (an_right (node_at t n)) t in set_right n c t' else t) = t\<lparr>am_nodes := ns'\<rparr> \<and>
      touches (set (indices (Bin l n p h r))) (am_nodes t) ns' \<and>
      node_is ns' n l p h r' k \<and> tree_in ns' l \<and> tree_in ns' r'"
proof (cases "leans_left r")
  case False
  have "t = t\<lparr>am_nodes := am_nodes t\<rparr>" by simp
  with False show ?thesis
    using n lr d sm balance_of_root(2) [OF lr(2)] by (auto simp: r'_def node_is_at)
next
  case True
  then obtain b' y q g c where r: "r = Bin b' y q g c" "ht c < ht b'" by (cases r) auto
  then obtain a x q' g' b where b: "b' = Bin a x q' g' b" by (cases b') auto
  have r': "r' = Bin a x q' g' (Bin b y q g c)" by (simp add: r'_def True) (simp add: r b)
  have "\<exists>ns'. rotate_right y t = (t\<lparr>am_nodes := ns'\<rparr>, x) \<and> touches {unat x, unat y} (am_nodes t) ns' \<and>
      tree_in ns' (Bin a x q' g' (Bin b y q g c))"
    using lr d sm by (intro rotate_right_run) (auto simp: r b)
  then obtain n1 where n1: "rotate_right y t = (t\<lparr>am_nodes := n1\<rparr>, x)" "touches {unat x, unat y} (am_nodes t) n1"
    "tree_in n1 r'" unfolding r' by blast
  have l1: "tree_in n1 l" using touches_tree [OF n1(2) lr(1)] d by (auto simp: r b)
  have "node_is n1 n l p h r k" by (rule touches_node [OF n1(2) n]) (use d in \<open>auto simp: r b\<close>)
  then have "\<exists>ns'. set_right n (root r') (t\<lparr>am_nodes := n1\<rparr>) = (t\<lparr>am_nodes := n1\<rparr>)\<lparr>am_nodes := ns'\<rparr> \<and> touches {unat n} n1 ns' \<and>
    node_is ns' n l p h r' k \<and> tree_in ns' l \<and> tree_in ns' r'"
    using set_right_run [of "t\<lparr>am_nodes := n1\<rparr>" n l p h r k r'] l1 n1(3) d by (auto simp: r' r b)
  then obtain n2 where n2: "set_right n (root r') (t\<lparr>am_nodes := n1\<rparr>) = t\<lparr>am_nodes := n2\<rparr>" "touches {unat n} n1 n2"
    "node_is n2 n l p h r' k" "tree_in n2 l" "tree_in n2 r'" by auto
  have "root r' = x" by (simp add: r')
  moreover have "0 < balance_of t y" using balance_of_root(2) [OF lr(2)] d sm True by (auto simp: r)
  moreover have "touches (set (indices (Bin l n p h r))) (am_nodes t) n2"
    by (rule touches_trans [OF touches_mono [OF n1(2)] touches_mono [OF n2(2)]]) (auto simp: r b)
  ultimately show ?thesis using n2 n1(1) n by (intro exI [of _ n2]) (simp add: node_is_at r(1))
qed

lemma rebalance_run:
  assumes n: "node_is (am_nodes t) n l p h r k" and lr: "tree_in (am_nodes t) l" "tree_in (am_nodes t) r"
    and d: "distinct (indices (Bin l n p h r))" and sm: "small (am_nodes t)"
  shows "\<exists>ns'. rebalance n t = (t\<lparr>am_nodes := ns'\<rparr>, root (rebal l n p h r)) \<and>
    touches (set (indices (Bin l n p h r))) (am_nodes t) ns' \<and> tree_in ns' (rebal l n p h r)"
proof -
  note one = retune_tree [OF n lr d sm]
  define t1 where "t1 = retune n t"
  have t1: "t1 = t\<lparr>am_nodes := am_nodes t1\<rparr>" "touches {unat n} (am_nodes t) (am_nodes t1)" "small (am_nodes t1)"
    using one sm by (simp_all add: t1_def touches_small)
  have w: "touches (set (indices (Bin l n p h r))) (am_nodes t) ns'" if "touches (set (indices (Bin l n p h r))) (am_nodes t1) ns'" for ns'
    by (rule touches_trans [OF touches_mono [OF t1(2)] that]) simp
  have n1: "node_is (am_nodes t1) n l p h r (of_nat (Suc (max (ht l) (ht r))))" "tree_in (am_nodes t1) l" "tree_in (am_nodes t1) r"
    using one(2) by (simp_all add: t1_def)
  have b: "balance_of t1 n = int (ht l) - int (ht r)"
    using n1 d t1(3) by (intro balance_of_node [OF n1] ht_small) auto
  consider (left) "Suc (ht r) < ht l" | (right) "Suc (ht l) < ht r" | (even) "\<not> Suc (ht r) < ht l" "\<not> Suc (ht l) < ht r"
    by blast
  then show ?thesis
  proof cases
    case left
    define l' where "l' = (if leans_right l then rotl l else l)"
    obtain n2 where n2: "(if balance_of t1 (an_left (node_at t1 n)) < 0
        then let (t', c) = rotate_left (an_left (node_at t1 n)) t1 in set_left n c t' else t1) = t1\<lparr>am_nodes := n2\<rparr>"
      "touches (set (indices (Bin l n p h r))) (am_nodes t1) n2"
      "node_is n2 n l' p h r (of_nat (Suc (max (ht l) (ht r))))" "tree_in n2 l'" "tree_in n2 r"
      using straighten_left [OF n1 d t1(3), folded l'_def] by blast
    have "indices l' = indices l" by (simp add: l'_def)
    moreover have "l' \<noteq> Tip"
      using left by (cases l; cases "leans_right l") (auto simp: l'_def elim: rotl.elims)
    then obtain a x q g c where l': "l' = Bin a x q g c" by (cases l') auto
    ultimately have ix: "set (indices (Bin l n p h r)) = set (indices (Bin (Bin a x q g c) n p h r))"
      "distinct (indices (Bin (Bin a x q g c) n p h r))" using d by auto
    define t2 where "t2 = t1\<lparr>am_nodes := n2\<rparr>"
    have n: "am_nodes t2 = n2" by (simp add: t2_def)
    have "\<exists>ns'. rotate_right n t2 = (t2\<lparr>am_nodes := ns'\<rparr>, x) \<and> touches {unat x, unat n} (am_nodes t2) ns' \<and>
        tree_in ns' (Bin a x q g (Bin c n p h r))"
      using n2(3-5) ix(2) touches_small [OF n2(2)] t1(3) by (intro rotate_right_run) (auto simp: n l')
    then obtain n3 where n3: "rotate_right n (t1\<lparr>am_nodes := n2\<rparr>) = (t1\<lparr>am_nodes := n3\<rparr>, x)" "touches {unat x, unat n} n2 n3"
        "tree_in n3 (Bin a x q g (Bin c n p h r))" by (auto simp: t2_def)
    have "touches (set (indices (Bin l n p h r))) (am_nodes t1) n3"
      unfolding ix(1) by (rule touches_trans [OF n2(2) [unfolded ix(1)] touches_mono [OF n3(2)]]) auto
    then have "touches (set (indices (Bin l n p h r))) (am_nodes t) n3" by (rule w)
    moreover have "rebalance n t = (t1\<lparr>am_nodes := n3\<rparr>, x)"
      using left n2(1) n3(1) b by (simp add: rebalance_def Let_def flip: t1_def)
    moreover have "rebal l n p h r = Bin a x q g (Bin c n p h r)"
      using left l' by (simp add: rebal_def l'_def)
    moreover have "t1\<lparr>am_nodes := n3\<rparr> = t\<lparr>am_nodes := n3\<rparr>" by (subst t1(1)) simp
    ultimately show ?thesis using n3(3) by (intro exI [of _ n3]) simp
  next
    case right
    define r' where "r' = (if leans_left r then rotr r else r)"
    obtain n2 where n2: "(if 0 < balance_of t1 (an_right (node_at t1 n))
        then let (t', c) = rotate_right (an_right (node_at t1 n)) t1 in set_right n c t' else t1) = t1\<lparr>am_nodes := n2\<rparr>"
      "touches (set (indices (Bin l n p h r))) (am_nodes t1) n2"
      "node_is n2 n l p h r' (of_nat (Suc (max (ht l) (ht r))))" "tree_in n2 l" "tree_in n2 r'"
      using straighten_right [OF n1 d t1(3), folded r'_def] by blast
    have "indices r' = indices r" by (simp add: r'_def)
    moreover have "r' \<noteq> Tip"
      using right by (cases r; cases "leans_left r") (auto simp: r'_def elim: rotr.elims)
    then obtain a x q g c where r': "r' = Bin a x q g c" by (cases r') auto
    ultimately have ix: "set (indices (Bin l n p h r)) = set (indices (Bin l n p h (Bin a x q g c)))"
      "distinct (indices (Bin l n p h (Bin a x q g c)))" using d by auto
    define t2 where "t2 = t1\<lparr>am_nodes := n2\<rparr>"
    have n: "am_nodes t2 = n2" by (simp add: t2_def)
    have "\<exists>ns'. rotate_left n t2 = (t2\<lparr>am_nodes := ns'\<rparr>, x) \<and> touches {unat x, unat n} (am_nodes t2) ns' \<and>
        tree_in ns' (Bin (Bin l n p h a) x q g c)"
      using n2(3-5) ix(2) touches_small [OF n2(2)] t1(3) by (intro rotate_left_run) (auto simp: n r')
    then obtain n3 where n3: "rotate_left n (t1\<lparr>am_nodes := n2\<rparr>) = (t1\<lparr>am_nodes := n3\<rparr>, x)" "touches {unat x, unat n} n2 n3"
        "tree_in n3 (Bin (Bin l n p h a) x q g c)" by (auto simp: t2_def)
    have "touches (set (indices (Bin l n p h r))) (am_nodes t1) n3"
      unfolding ix(1) by (rule touches_trans [OF n2(2) [unfolded ix(1)] touches_mono [OF n3(2)]]) auto
    then have "touches (set (indices (Bin l n p h r))) (am_nodes t) n3" by (rule w)
    moreover have "rebalance n t = (t1\<lparr>am_nodes := n3\<rparr>, x)"
      using right n2(1) n3(1) b by (simp add: rebalance_def Let_def flip: t1_def)
    moreover have "rebal l n p h r = Bin (Bin l n p h a) x q g c"
      using right r' by (simp add: rebal_def r'_def)
    moreover have "t1\<lparr>am_nodes := n3\<rparr> = t\<lparr>am_nodes := n3\<rparr>" by (subst t1(1)) simp
    ultimately show ?thesis using n3(3) by (intro exI [of _ n3]) simp
  next
    case even
    then have "rebalance n t = (t1, n)" using b by (simp add: rebalance_def Let_def flip: t1_def)
    moreover have "rebal l n p h r = Bin l n p h r" using even by (simp add: rebal_def)
    ultimately show ?thesis using t1(1) w [OF touches_refl] one(2) by (intro exI [of _ "am_nodes t1"]) (simp add: t1_def)
  qed
qed

end
