(* ===== verification/Avl_Update.thy ===== *)
theory Avl_Update
  imports Avl_Nodes
begin

text \<open>
  Insertion and erasure on the node vector: with fuel for the height of the tree they end,
  and they are the operations of the pure tree.
\<close>

section \<open>Relinking a child\<close>

lemma relink_left:
  assumes n: "node_is (am_nodes t) n l p h r k" and lr: "tree_in (am_nodes t) l'" "tree_in (am_nodes t) r"
    and d: "distinct (indices (Bin l' n p h r))" and sm: "small (am_nodes t)"
  shows "\<exists>ns'. rebalance n (set_left n (root l') t) = (t\<lparr>am_nodes := ns'\<rparr>, root (rebal l' n p h r)) \<and>
    touches (set (indices (Bin l' n p h r))) (am_nodes t) ns' \<and> tree_in ns' (rebal l' n p h r)"
proof -
  obtain n1 where n1: "set_left n (root l') t = t\<lparr>am_nodes := n1\<rparr>" "touches {unat n} (am_nodes t) n1"
    "node_is n1 n l' p h r k" "tree_in n1 l'" "tree_in n1 r"
    using set_left_run [OF n lr(2,1)] d by auto
  define t1 where "t1 = set_left n (root l') t"
  have t1: "t1 = t\<lparr>am_nodes := n1\<rparr>" "am_nodes t1 = n1" by (simp_all add: t1_def n1(1))
  have "\<exists>ns'. rebalance n t1 = (t1\<lparr>am_nodes := ns'\<rparr>, root (rebal l' n p h r)) \<and>
    touches (set (indices (Bin l' n p h r))) (am_nodes t1) ns' \<and> tree_in ns' (rebal l' n p h r)"
    using n1(3-5) d sm touches_small [OF n1(2)] by (intro rebalance_run) (simp_all add: t1(2))
  then obtain n2 where n2: "rebalance n t1 = (t1\<lparr>am_nodes := n2\<rparr>, root (rebal l' n p h r))"
    "touches (set (indices (Bin l' n p h r))) n1 n2" "tree_in n2 (rebal l' n p h r)" unfolding t1(2) by blast
  have "touches (set (indices (Bin l' n p h r))) (am_nodes t) n2"
    by (rule touches_trans [OF touches_mono [OF n1(2)] n2(2)]) simp
  then show ?thesis using n2(1,3) by (intro exI [of _ n2]) (simp flip: t1_def, simp add: t1(1))
qed

lemma relink_right:
  assumes n: "node_is (am_nodes t) n l p h r k" and lr: "tree_in (am_nodes t) l" "tree_in (am_nodes t) r'"
    and d: "distinct (indices (Bin l n p h r'))" and sm: "small (am_nodes t)"
  shows "\<exists>ns'. rebalance n (set_right n (root r') t) = (t\<lparr>am_nodes := ns'\<rparr>, root (rebal l n p h r')) \<and>
    touches (set (indices (Bin l n p h r'))) (am_nodes t) ns' \<and> tree_in ns' (rebal l n p h r')"
proof -
  obtain n1 where n1: "set_right n (root r') t = t\<lparr>am_nodes := n1\<rparr>" "touches {unat n} (am_nodes t) n1"
    "node_is n1 n l p h r' k" "tree_in n1 l" "tree_in n1 r'"
    using set_right_run [OF n lr] d by auto
  define t1 where "t1 = set_right n (root r') t"
  have t1: "t1 = t\<lparr>am_nodes := n1\<rparr>" "am_nodes t1 = n1" by (simp_all add: t1_def n1(1))
  have "\<exists>ns'. rebalance n t1 = (t1\<lparr>am_nodes := ns'\<rparr>, root (rebal l n p h r')) \<and>
    touches (set (indices (Bin l n p h r'))) (am_nodes t1) ns' \<and> tree_in ns' (rebal l n p h r')"
    using n1(3-5) d sm touches_small [OF n1(2)] by (intro rebalance_run) (simp_all add: t1(2))
  then obtain n2 where n2: "rebalance n t1 = (t1\<lparr>am_nodes := n2\<rparr>, root (rebal l n p h r'))"
    "touches (set (indices (Bin l n p h r'))) n1 n2" "tree_in n2 (rebal l n p h r')" unfolding t1(2) by blast
  have "touches (set (indices (Bin l n p h r'))) (am_nodes t) n2"
    by (rule touches_trans [OF touches_mono [OF n1(2)] n2(2)]) simp
  then show ?thesis using n2(1,3) by (intro exI [of _ n2]) (simp flip: t1_def, simp add: t1(1))
qed

section \<open>Insertion\<close>

definition fresh_node :: "avl_map \<Rightarrow> price \<Rightarrow> level_handle \<Rightarrow> avl_map \<Rightarrow> u32 \<Rightarrow> bool" where
  "fresh_node t p h t1 i \<longleftrightarrow> new_node p h t = (t1, i) \<and> i \<noteq> kNull \<and> unat i < length (am_nodes t1) \<and>
     am_nodes t1 ! unat i = \<lparr>an_price = p, an_level = h, an_left = kNull, an_right = kNull, an_height = 1\<rparr> \<and>
     length (am_nodes t) \<le> length (am_nodes t1) \<and> small (am_nodes t1) \<and>
     (\<forall>j < length (am_nodes t). j \<noteq> unat i \<longrightarrow> am_nodes t1 ! j = am_nodes t ! j)"

lemma fresh_tree:
  assumes "fresh_node t p h t1 i" and "tree_in (am_nodes t) T" and "unat i \<notin> set (indices T)"
  shows "tree_in (am_nodes t1) T"
proof (rule tree_in_cong [OF assms(2)])
  fix j assume "j \<in> set (indices T)"
  then show "am_nodes t1 ! j = am_nodes t ! j"
    using tree_in_bound [OF assms(2)] assms(1,3) by (force simp: fresh_node_def)
qed (use assms(1) in \<open>simp add: fresh_node_def\<close>)

lemma avl_insert_at_run:
  assumes f: "fresh_node t p h t1 i"
  shows "tree_in (am_nodes t) T \<Longrightarrow> distinct (indices T) \<Longrightarrow> unat i \<notin> set (indices T) \<Longrightarrow>
    p \<notin> fst ` set (entries_of T) \<Longrightarrow> ht T \<le> fuel \<Longrightarrow>
    \<exists>ns'. avl_insert_at fuel (root T) p h t = Inr (t1\<lparr>am_nodes := ns'\<rparr>, root (ins i p h T)) \<and>
      touches (insert (unat i) (set (indices T))) (am_nodes t1) ns' \<and> tree_in ns' (ins i p h T)"
proof (induction T arbitrary: fuel)
  case Tip
  have "avl_insert_at fuel (root Tip) p h t = Inr (t1, i)"
    using f by (subst avl_insert_at.simps) (simp add: fresh_node_def)
  then show ?case
    using f by (intro exI [of _ "am_nodes t1"]) (simp add: fresh_node_def node_is_def)
next
  case (Bin l n q g r)
  obtain fuel' where fu: "fuel = Suc fuel'" "ht l \<le> fuel'" "ht r \<le> fuel'" using Bin.prems(5) by (cases fuel) auto
  have tn: "tree_in (am_nodes t1) (Bin l n q g r)" using fresh_tree [OF f Bin.prems(1,3)] .
  have nn: "root (Bin l n q g r) = n" "n \<noteq> kNull" "an_price (node_at t n) = q" "an_left (node_at t n) = root l"
    "an_right (node_at t n) = root r" "q \<noteq> p"
    using Bin.prems by (auto simp: node_is_def node_at_def)
  have run: "avl_insert_at fuel n p h t =
      (if p < q then andthen (avl_insert_at fuel' (root l) p h t) (\<lambda>(t', c). Inr (rebalance n (set_left n c t')))
       else andthen (avl_insert_at fuel' (root r) p h t) (\<lambda>(t', c). Inr (rebalance n (set_right n c t'))))"
    using nn by (subst avl_insert_at.simps) (auto simp: fu(1))
  have sm: "small (am_nodes t1)" using f by (simp add: fresh_node_def)
  show ?case
  proof (cases "p < q")
    case True
    obtain n1 where n1: "avl_insert_at fuel' (root l) p h t = Inr (t1\<lparr>am_nodes := n1\<rparr>, root (ins i p h l))"
      "touches (insert (unat i) (set (indices l))) (am_nodes t1) n1" "tree_in n1 (ins i p h l)"
      using Bin.IH(1) [of fuel'] Bin.prems fu by auto
    define t2 where "t2 = t1\<lparr>am_nodes := n1\<rparr>"
    have t2: "am_nodes t2 = n1" by (simp add: t2_def)
    have "node_is n1 n l q g r (of_nat (Suc (max (ht l) (ht r))))" "tree_in n1 r"
      using tn Bin.prems by (auto intro!: touches_node [OF n1(2)] touches_tree [OF n1(2)])
    then have "\<exists>ns'. rebalance n (set_left n (root (ins i p h l)) t2) = (t2\<lparr>am_nodes := ns'\<rparr>, root (rebal (ins i p h l) n q g r)) \<and>
      touches (set (indices (Bin (ins i p h l) n q g r))) (am_nodes t2) ns' \<and> tree_in ns' (rebal (ins i p h l) n q g r)"
      using n1(3) Bin.prems touches_small [OF n1(2)] sm ins_distinct [of l i p h]
      by (intro relink_left) (auto simp: t2 ins_indices)
    then obtain n2 where n2: "rebalance n (set_left n (root (ins i p h l)) t2) = (t2\<lparr>am_nodes := n2\<rparr>, root (ins i p h (Bin l n q g r)))"
      "touches (set (indices (Bin (ins i p h l) n q g r))) n1 n2" "tree_in n2 (ins i p h (Bin l n q g r))"
      using True by (auto simp: t2)
    have "touches (insert (unat i) (set (indices (Bin l n q g r)))) (am_nodes t1) n2"
      by (rule touches_trans [OF touches_mono [OF n1(2)] touches_mono [OF n2(2)]]) (auto simp: ins_indices)
    then show ?thesis
      using n2(1,3) run True n1(1) nn(1) by (intro exI [of _ n2]) (simp add: t2_def del: ins.simps)
  next
    case False
    obtain n1 where n1: "avl_insert_at fuel' (root r) p h t = Inr (t1\<lparr>am_nodes := n1\<rparr>, root (ins i p h r))"
      "touches (insert (unat i) (set (indices r))) (am_nodes t1) n1" "tree_in n1 (ins i p h r)"
      using Bin.IH(2) [of fuel'] Bin.prems fu by auto
    define t2 where "t2 = t1\<lparr>am_nodes := n1\<rparr>"
    have t2: "am_nodes t2 = n1" by (simp add: t2_def)
    have "node_is n1 n l q g r (of_nat (Suc (max (ht l) (ht r))))" "tree_in n1 l"
      using tn Bin.prems by (auto intro!: touches_node [OF n1(2)] touches_tree [OF n1(2)])
    then have "\<exists>ns'. rebalance n (set_right n (root (ins i p h r)) t2) = (t2\<lparr>am_nodes := ns'\<rparr>, root (rebal l n q g (ins i p h r))) \<and>
      touches (set (indices (Bin l n q g (ins i p h r)))) (am_nodes t2) ns' \<and> tree_in ns' (rebal l n q g (ins i p h r))"
      using n1(3) Bin.prems touches_small [OF n1(2)] sm ins_distinct [of r i p h]
      by (intro relink_right) (auto simp: t2 ins_indices)
    then obtain n2 where n2: "rebalance n (set_right n (root (ins i p h r)) t2) = (t2\<lparr>am_nodes := n2\<rparr>, root (ins i p h (Bin l n q g r)))"
      "touches (set (indices (Bin l n q g (ins i p h r)))) n1 n2" "tree_in n2 (ins i p h (Bin l n q g r))"
      using False by (auto simp: t2)
    have "touches (insert (unat i) (set (indices (Bin l n q g r)))) (am_nodes t1) n2"
      by (rule touches_trans [OF touches_mono [OF n1(2)] touches_mono [OF n2(2)]]) (auto simp: ins_indices)
    then show ?thesis
      using n2(1,3) run False n1(1) nn(1) by (intro exI [of _ n2]) (simp add: t2_def del: ins.simps)
  qed
qed

section \<open>Erasure\<close>

lemma leftmost_run:
  assumes "tree_in (am_nodes t) T" and "T \<noteq> Tip" and "ht T \<le> fuel"
  shows "leftmost fuel t (root T) = Inr (fst (first_of T)) \<and>
    an_price (node_at t (fst (first_of T))) = fst (snd (first_of T)) \<and>
    an_level (node_at t (fst (first_of T))) = snd (snd (first_of T))"
  using assms
proof (induction T arbitrary: fuel)
  case (Bin l n q g r)
  then have nn: "an_left (node_at t n) = root l" "an_price (node_at t n) = q" "an_level (node_at t n) = g"
    by (simp_all add: node_is_def node_at_def)
  show ?case
  proof (cases "l = Tip")
    case True
    then show ?thesis using nn by (subst leftmost.simps) simp
  next
    case False
    then show ?thesis
      using Bin nn root_null [of "am_nodes t" l] by (subst leftmost.simps) (auto split: nat.split)
  qed
qed simp

text \<open>What an erasure leaves: the tree without the price, and the released node on the free list.\<close>

definition erased :: "avl_map \<Rightarrow> avl_tree \<Rightarrow> price \<Rightarrow> avl_node list \<Rightarrow> bool" where
  "erased t T p ns' \<longleftrightarrow> touches (set (indices T)) (am_nodes t) ns' \<and> tree_in ns' (fst (del p T)) \<and>
     an_left (ns' ! unat (snd (del p T))) = am_free t"

lemma touches_at: "touches J ns ns' \<Longrightarrow> j \<notin> J \<Longrightarrow> ns' ! j = ns ! j"
  by (simp add: touches_def)

lemma erased_keeps:
  assumes "erased t T p ns'"
  shows "tree_in (am_nodes t) r \<Longrightarrow> set (indices T) \<inter> set (indices r) = {} \<Longrightarrow> tree_in ns' r"
    and "node_is (am_nodes t) n l q g r k \<Longrightarrow> unat n \<notin> set (indices T) \<Longrightarrow> node_is ns' n l q g r k"
    and "small (am_nodes t) \<Longrightarrow> small ns'"
    and "tree_in ns' (fst (del p T))"
  using assms touches_tree [of "set (indices T)" "am_nodes t" ns' r] touches_node [of "set (indices T)" "am_nodes t" ns' n l q g r k]
    touches_small [of "set (indices T)" "am_nodes t" ns'] by (auto simp: erased_def)

definition after_erase :: "avl_map \<Rightarrow> avl_node list \<Rightarrow> u32 \<Rightarrow> avl_map" where
  "after_erase t ns d = t\<lparr>am_nodes := ns, am_free := d, am_size := am_size t - 1\<rparr>"

lemma after_erase_simps [simp]:
  "am_nodes (after_erase t ns d) = ns" "(after_erase t ns d)\<lparr>am_nodes := ns'\<rparr> = after_erase t ns' d"
  by (simp_all add: after_erase_def)

lemma release_run:
  assumes n: "node_is (am_nodes t) n l q g r k" and c: "tree_in (am_nodes t) c" "unat n \<notin> set (indices c)"
  shows "\<exists>ns'. release_node n (t\<lparr>am_size := am_size t - 1\<rparr>) = after_erase t ns' n \<and>
    touches {unat n} (am_nodes t) ns' \<and> tree_in ns' c \<and> an_left (ns' ! unat n) = am_free t"
proof -
  let ?ns = "(am_nodes t)[unat n := (am_nodes t ! unat n)\<lparr>an_left := am_free t\<rparr>]"
  have w: "touches {unat n} (am_nodes t) ?ns" by (rule touches_update) simp
  show ?thesis
    using n w touches_tree [OF w c(1)] c(2)
    by (intro exI [of _ ?ns]) (simp add: release_node_def set_left_def put_node_def node_at_def after_erase_def node_is_def)
qed

lemma sized_up: "t\<lparr>am_size := am_size t - 1\<rparr>\<lparr>am_size := am_size (t\<lparr>am_size := am_size t - 1\<rparr>) + 1\<rparr> = (t :: avl_map)"
  by simp

lemma avl_erase_at_run:
  "tree_in (am_nodes t) T \<Longrightarrow> distinct (indices T) \<Longrightarrow> small (am_nodes t) \<Longrightarrow> ordered T \<Longrightarrow>
    (p, h) \<in> set (entries_of T) \<Longrightarrow> ht T \<le> fuel \<Longrightarrow>
    \<exists>ns'. avl_erase_at fuel (root T) p t = Inr (after_erase t ns' (snd (del p T)), root (fst (del p T))) \<and> erased t T p ns'"
proof (induction p T arbitrary: fuel h rule: del.induct)
  case (2 p l n q g r)
  note prems = 2(4-9)
  obtain fuel' where fu: "fuel = Suc fuel'" "ht l \<le> fuel'" "ht r \<le> fuel'" using prems(6) by (cases fuel) auto
  have nd: "node_is (am_nodes t) n l q g r (of_nat (Suc (max (ht l) (ht r))))" "tree_in (am_nodes t) l" "tree_in (am_nodes t) r"
    using prems(1) by simp_all
  then have nn: "n \<noteq> kNull" "an_price (node_at t n) = q" "an_left (node_at t n) = root l" "an_right (node_at t n) = root r"
    by (auto simp: node_is_def node_at_def)
  have dl: "distinct (indices l)" "ordered l" "distinct (indices r)" "ordered r" using prems(2,4) by (auto simp: ordered_Bin)
  consider (left) "p < q" | (right) "q < p" | (here) "p = q" "l = Tip \<or> r = Tip" | (two) "p = q" "l \<noteq> Tip" "r \<noteq> Tip"
    by force
  then show ?case
  proof cases
    case left
    then have e: "(p, h) \<in> set (entries_of l)" using prems(4,5) by (auto simp: ordered_Bin)
    define d where "d = snd (del p l)"
    obtain n1 where n1: "avl_erase_at fuel' (root l) p t = Inr (after_erase t n1 d, root (fst (del p l)))" "erased t l p n1"
      unfolding d_def using 2(1) [OF left nd(2) dl(1) prems(3) dl(2) e fu(2)] by blast
    note di = del_indices [OF dl(2) e dl(1), folded d_def]
    note keep = erased_keeps [OF n1(2)]
    have ns: "small n1" using keep(3) prems(3) .
    have "node_is n1 n l q g r (of_nat (Suc (max (ht l) (ht r))))" "tree_in n1 r"
      using keep(1) [OF nd(2)] keep(1) [OF nd(3)] keep(2) [OF nd(1)] keep(4) prems(2) by auto
    then have "\<exists>ns'. rebalance n (set_left n (root (fst (del p l))) (after_erase t n1 d)) =
        ((after_erase t n1 d)\<lparr>am_nodes := ns'\<rparr>, root (rebal (fst (del p l)) n q g r)) \<and>
      touches (set (indices (Bin (fst (del p l)) n q g r))) (am_nodes (after_erase t n1 d)) ns' \<and> tree_in ns' (rebal (fst (del p l)) n q g r)"
      using keep(4) ns di prems(2) by (intro relink_left) auto
    then obtain n2 where n2: "rebalance n (set_left n (root (fst (del p l))) (after_erase t n1 d)) =
        (after_erase t n2 d, root (fst (del p (Bin l n q g r))))" "touches (set (indices (Bin (fst (del p l)) n q g r))) n1 n2"
      "tree_in n2 (fst (del p (Bin l n q g r)))"
      using left by (auto simp: case_prod_beta)
    have "unat d \<noteq> unat n" "unat d \<notin> set (indices r)" using di prems(2) by auto
    then have "an_left (n2 ! unat d) = am_free t"
      using touches_at [OF n2(2), of "unat d"] di n1(2) by (simp add: erased_def d_def)
    moreover have "touches (set (indices (Bin l n q g r))) (am_nodes t) n2"
      using n1(2) di unfolding erased_def by (intro touches_trans [OF touches_mono touches_mono [OF n2(2)]]) auto
    moreover have "snd (del p (Bin l n q g r)) = d" using left by (simp add: case_prod_beta d_def)
    moreover have "avl_erase_at fuel (root (Bin l n q g r)) p t = Inr (after_erase t n2 d, root (fst (del p (Bin l n q g r))))"
      using left nn n1(1) n2(1) by (subst avl_erase_at.simps) (simp add: fu(1) Let_def del: del.simps)
    ultimately show ?thesis using n2(3) unfolding erased_def by blast
  next
    case right
    then have e: "(p, h) \<in> set (entries_of r)" using prems(4,5) by (auto simp: ordered_Bin)
    have nl: "\<not> p < q" using right by auto
    define d where "d = snd (del p r)"
    obtain n1 where n1: "avl_erase_at fuel' (root r) p t = Inr (after_erase t n1 d, root (fst (del p r)))" "erased t r p n1"
      unfolding d_def using 2(2) [OF nl right nd(3) dl(3) prems(3) dl(4) e fu(3)] by blast
    note di = del_indices [OF dl(4) e dl(3), folded d_def]
    note keep = erased_keeps [OF n1(2)]
    have ns: "small n1" using keep(3) prems(3) .
    have "node_is n1 n l q g r (of_nat (Suc (max (ht l) (ht r))))" "tree_in n1 l"
      using keep(1) [OF nd(2)] keep(1) [OF nd(3)] keep(2) [OF nd(1)] keep(4) prems(2) by auto
    then have "\<exists>ns'. rebalance n (set_right n (root (fst (del p r))) (after_erase t n1 d)) =
        ((after_erase t n1 d)\<lparr>am_nodes := ns'\<rparr>, root (rebal l n q g (fst (del p r)))) \<and>
      touches (set (indices (Bin l n q g (fst (del p r))))) (am_nodes (after_erase t n1 d)) ns' \<and> tree_in ns' (rebal l n q g (fst (del p r)))"
      using keep(4) ns di prems(2) by (intro relink_right) auto
    moreover have dr: "del p (Bin l n q g r) = (rebal l n q g (fst (del p r)), d)"
      using right nl by (simp add: case_prod_beta d_def)
    ultimately obtain n2 where n2: "rebalance n (set_right n (root (fst (del p r))) (after_erase t n1 d)) =
        (after_erase t n2 d, root (fst (del p (Bin l n q g r))))" "touches (set (indices (Bin l n q g (fst (del p r))))) n1 n2"
      "tree_in n2 (fst (del p (Bin l n q g r)))"
      by auto
    have "unat d \<noteq> unat n" "unat d \<notin> set (indices l)" using di prems(2) by auto
    then have "an_left (n2 ! unat d) = am_free t"
      using touches_at [OF n2(2), of "unat d"] di n1(2) by (simp add: erased_def d_def)
    moreover have "touches (set (indices (Bin l n q g r))) (am_nodes t) n2"
      using n1(2) di unfolding erased_def by (intro touches_trans [OF touches_mono touches_mono [OF n2(2)]]) auto
    moreover have "snd (del p (Bin l n q g r)) = d" using dr by simp
    moreover have "avl_erase_at fuel (root (Bin l n q g r)) p t = Inr (after_erase t n2 d, root (fst (del p (Bin l n q g r))))"
      using right nl nn n1(1) n2(1) by (subst avl_erase_at.simps) (simp add: fu(1) Let_def del: del.simps)
    ultimately show ?thesis using n2(3) unfolding erased_def by blast
  next
    case here
    define c where "c = (if l = Tip then r else l)"
    have c: "tree_in (am_nodes t) c" "unat n \<notin> set (indices c)" using nd prems(2) by (auto simp: c_def)
    obtain n1 where n1: "release_node n (t\<lparr>am_size := am_size t - 1\<rparr>) = after_erase t n1 n"
      "touches {unat n} (am_nodes t) n1" "tree_in n1 c" "an_left (n1 ! unat n) = am_free t"
      using release_run [OF nd(1) c] by blast
    have dr: "del p (Bin l n q g r) = (c, n)" using here by (auto simp: c_def)
    have w: "touches (set (indices (Bin l n q g r))) (am_nodes t) n1" by (rule touches_mono [OF n1(2)]) simp
    have "(if root l = kNull then root r else root l) = root c" "root l = kNull \<or> root r = kNull"
      using here nd by (auto simp: c_def)
    then have "avl_erase_at fuel (root (Bin l n q g r)) p t = Inr (after_erase t n1 n, root c)"
      using here nn n1(1) by (subst avl_erase_at.simps) (simp add: fu(1) Let_def del: del.simps)
    then show ?thesis using n1 w dr by (simp add: erased_def del: del.simps indices.simps) blast
  next
    case two
    obtain j sp sh where f: "first_of r = (j, sp, sh)" by (cases "first_of r") auto
    then have e: "(sp, sh) \<in> set (entries_of r)" using two first_of_entries by (metis list.set_intros(1))
    have np: "\<not> p < q" "\<not> q < p" using two(1) by auto
    define t1 where "t1 = t\<lparr>am_size := am_size t - 1\<rparr>"
    have lm: "leftmost fuel' t1 (root r) = Inr j" "an_price (node_at t1 j) = sp" "an_level (node_at t1 j) = sh"
      using leftmost_run [of t1 r fuel'] nd two fu f by (simp_all add: t1_def)
    have t2: "t1\<lparr>am_size := am_size t1 + 1\<rparr> = t" unfolding t1_def by (rule sized_up)
    define d where "d = snd (del sp r)"
    obtain n1 where n1: "avl_erase_at fuel' (root r) sp t = Inr (after_erase t n1 d, root (fst (del sp r)))" "erased t r sp n1"
      unfolding d_def using 2(3) [OF np two(2,3) f [symmetric] refl refl nd(3) dl(3) prems(3) dl(4) e fu(3)] by blast
    note di = del_indices [OF dl(4) e dl(3), folded d_def]
    note keep = erased_keeps [OF n1(2)]
    have ns: "small n1" using keep(3) prems(3) .
    have k: "node_is n1 n l q g r (of_nat (Suc (max (ht l) (ht r))))" "tree_in n1 l" "tree_in n1 (fst (del sp r))"
      using keep(1) [OF nd(2)] keep(1) [OF nd(3)] keep(2) [OF nd(1)] keep(4) prems(2) by auto
    let ?r = "fst (del sp r)" and ?t3 = "after_erase t n1 d"
    have "\<exists>ns'. set_right n (root ?r) ?t3 = ?t3\<lparr>am_nodes := ns'\<rparr> \<and> touches {unat n} (am_nodes ?t3) ns' \<and>
        node_is ns' n l q g ?r (of_nat (Suc (max (ht l) (ht r)))) \<and> tree_in ns' l \<and> tree_in ns' ?r"
      using k di prems(2) by (intro set_right_run [where r = r]) auto
    then obtain n2 where n2: "set_right n (root ?r) ?t3 = after_erase t n2 d" "touches {unat n} n1 n2"
        "node_is n2 n l q g ?r (of_nat (Suc (max (ht l) (ht r))))" "tree_in n2 l" "tree_in n2 ?r" by auto
    define t4 where "t4 = after_erase t n2 d"
    define n3 where "n3 = n2[unat n := (n2 ! unat n)\<lparr>an_price := sp, an_level := sh\<rparr>]"
    have t5: "put_node n ((node_at t4 n)\<lparr>an_price := sp, an_level := sh\<rparr>) t4 = after_erase t n3 d"
      by (simp add: t4_def n3_def node_at_def put_node_state)
    have w3: "touches {unat n} n2 n3" unfolding n3_def by (rule touches_update) simp
    have "node_is n3 n l sp sh ?r (of_nat (Suc (max (ht l) (ht r))))" using n2(3) by (simp add: node_is_def n3_def)
    moreover have "tree_in n3 l" "tree_in n3 ?r"
      using n2(4,5) di prems(2) by (auto intro!: touches_tree [OF w3])
    moreover have "small n3" using ns touches_small n2(2) w3 by blast
    ultimately have "\<exists>ns'. rebalance n (after_erase t n3 d) = ((after_erase t n3 d)\<lparr>am_nodes := ns'\<rparr>, root (rebal l n sp sh ?r)) \<and>
      touches (set (indices (Bin l n sp sh ?r))) (am_nodes (after_erase t n3 d)) ns' \<and> tree_in ns' (rebal l n sp sh ?r)"
      using di prems(2) by (intro rebalance_run) auto
    moreover have dr: "del p (Bin l n q g r) = (rebal l n sp sh ?r, d)"
      using two np f by (simp add: case_prod_beta d_def)
    ultimately obtain n4 where n4: "rebalance n (after_erase t n3 d) = (after_erase t n4 d, root (fst (del p (Bin l n q g r))))"
      "touches (set (indices (Bin l n sp sh ?r))) n3 n4" "tree_in n4 (fst (del p (Bin l n q g r)))" by auto
    have w: "touches (set (indices (Bin l n sp sh ?r))) n1 n4"
      by (rule touches_trans [OF touches_mono [OF touches_trans [OF n2(2) w3]] n4(2)]) simp
    have "unat d \<noteq> unat n" "unat d \<notin> set (indices l)" using di prems(2) by auto
    then have "an_left (n4 ! unat d) = am_free t"
      using touches_at [OF w, of "unat d"] di n1(2) by (simp add: erased_def d_def)
    moreover have "touches (set (indices (Bin l n q g r))) (am_nodes t) n4"
      using n1(2) di unfolding erased_def by (intro touches_trans [OF touches_mono touches_mono [OF w]]) auto
    moreover have "snd (del p (Bin l n q g r)) = d" using dr by simp
    moreover have "avl_erase_at fuel (root (Bin l n q g r)) p t = Inr (after_erase t n4 d, root (fst (del p (Bin l n q g r))))"
      using two np nn nd lm n1(1) n2(1) n4(1) t5
      by (subst avl_erase_at.simps) (simp add: fu(1) Let_def t2 flip: t1_def t4_def del: del.simps)
    ultimately show ?thesis using n4(3) unfolding erased_def by blast
  qed
qed simp

end
