(* ===== verification/Avl_Laws.thy ===== *)
theory Avl_Laws
  imports Avl_Update
begin

text \<open>
  The invariant of the AVL level map, the finite map it stands for, and the contract of
  every member over them: lookup, insertion, erasure, the best price, the walk from the
  inside and the validation.
\<close>

section \<open>Reading the tree\<close>

lemma node_reads:
  assumes "tree_in (am_nodes t) (Bin l n q g r)"
  shows "node_at t n = \<lparr>an_price = q, an_level = g, an_left = root l, an_right = root r,
    an_height = of_nat (Suc (max (ht l) (ht r)))\<rparr>" and "n \<noteq> kNull"
  using assms by (simp_all add: node_is_def node_at_def)

lemma map_of_ordered:
  assumes "ordered (Bin l n q g r)"
  shows "map_of (entries_of (Bin l n q g r)) p =
    (if p = q then Some g else if p < q then map_of (entries_of l) p else map_of (entries_of r) p)"
proof -
  have "map_of (entries_of l) p = None" if "q \<le> p" using that assms by (fastforce simp: ordered_Bin map_of_eq_None_iff)
  moreover have "map_of (entries_of r) p = None" if "p \<le> q" using that assms by (fastforce simp: ordered_Bin map_of_eq_None_iff)
  ultimately show ?thesis by (auto simp: map_add_def split: option.splits)
qed

lemma find_from_run:
  "tree_in (am_nodes t) T \<Longrightarrow> ordered T \<Longrightarrow> ht T \<le> fuel \<Longrightarrow>
    find_from fuel t (root T) p = Inr (lookup (map_of (entries_of T)) p)"
proof (induction T arbitrary: fuel)
  case Tip
  then show ?case by (subst find_from.simps) simp
next
  case (Bin l n q g r)
  obtain fuel' where fu: "fuel = Suc fuel'" "ht l \<le> fuel'" "ht r \<le> fuel'" using Bin.prems(3) by (cases fuel) auto
  have "ordered l" "ordered r" using Bin.prems(2) by (simp_all add: ordered_Bin)
  then show ?case
    using Bin.IH(1) [of fuel'] Bin.IH(2) [of fuel'] Bin.prems(1) fu node_reads [OF Bin.prems(1)] map_of_ordered [OF Bin.prems(2), of p]
    by (subst find_from.simps) (auto simp: Let_def lookup_def)
qed

lemma leftmost_price:
  assumes "tree_in (am_nodes t) T" and "T \<noteq> Tip" and "ht T \<le> fuel" and "ordered T"
  shows "\<exists>n. leftmost fuel t (root T) = Inr n \<and> an_price (node_at t n) \<in> fst ` set (entries_of T) \<and>
    (\<forall>x \<in> set (entries_of T). an_price (node_at t n) \<le> fst x)"
proof -
  obtain i p h where f: "first_of T = (i, p, h)" by (cases "first_of T") auto
  then obtain xs where xs: "entries_of T = (p, h) # xs" using first_of_entries [OF assms(2)] by blast
  then have "\<forall>x \<in> set (entries_of T). p \<le> fst x" using assms(4) by (auto simp: ordered_def)
  then show ?thesis using leftmost_run [OF assms(1-3)] f xs by auto
qed

lemma rightmost_price:
  "tree_in (am_nodes t) T \<Longrightarrow> T \<noteq> Tip \<Longrightarrow> ht T \<le> fuel \<Longrightarrow> ordered T \<Longrightarrow>
    \<exists>n. rightmost fuel t (root T) = Inr n \<and> an_price (node_at t n) \<in> fst ` set (entries_of T) \<and>
      (\<forall>x \<in> set (entries_of T). fst x \<le> an_price (node_at t n))"
proof (induction T arbitrary: fuel)
  case (Bin l n q g r)
  note nd = node_reads [OF Bin.prems(1)]
  show ?case
  proof (cases "r = Tip")
    case True
    then have "rightmost fuel t (root (Bin l n q g r)) = Inr n" using nd by (subst rightmost.simps) simp
    then show ?thesis using nd True Bin.prems(4) by (auto simp: ordered_Bin)
  next
    case False
    obtain fuel' where fu: "fuel = Suc fuel'" "ht r \<le> fuel'" using Bin.prems(3) by (cases fuel) auto
    obtain m where m: "rightmost fuel' t (root r) = Inr m" "an_price (node_at t m) \<in> fst ` set (entries_of r)"
      "\<forall>x \<in> set (entries_of r). fst x \<le> an_price (node_at t m)"
      using Bin.IH(2) [of fuel'] False fu(2) Bin.prems(1,4) by (auto simp: ordered_Bin)
    have "root r \<noteq> kNull" using False Bin.prems(1) root_null [of "am_nodes t" r] by auto
    then have "rightmost fuel t (root (Bin l n q g r)) = Inr m" using nd m(1) by (subst rightmost.simps) (simp add: fu(1))
    moreover have "q < an_price (node_at t m)" using m(2) Bin.prems(4) by (auto simp: ordered_Bin)
    moreover have "\<forall>x \<in> set (entries_of l). fst x < q" using Bin.prems(4) by (simp add: ordered_Bin)
    ultimately have "\<forall>x \<in> set (entries_of (Bin l n q g r)). fst x \<le> an_price (node_at t m)"
      using m(3) by (auto intro: order.strict_implies_order order.strict_trans)
    with m(2) \<open>rightmost fuel t (root (Bin l n q g r)) = Inr m\<close> show ?thesis by auto
  qed
qed simp

section \<open>The walk from the inside\<close>

definition near :: "side \<Rightarrow> avl_tree \<Rightarrow> avl_tree \<Rightarrow> avl_tree" where
  "near s l r = (if s = Buy then r else l)"

definition seq_of :: "side \<Rightarrow> avl_tree \<Rightarrow> (price \<times> level_handle) list" where
  "seq_of s T = (if s = Buy then rev (entries_of T) else entries_of T)"

lemma seq_of_simps [simp]:
  "seq_of s Tip = []" "seq_of s (Bin l n p h r) = seq_of s (near s l r) @ (p, h) # seq_of s (near s r l)"
  by (simp_all add: seq_of_def near_def)

text \<open>The trees whose nodes the inner loop pushes, and what is left to visit on the stack.\<close>

fun spine :: "side \<Rightarrow> avl_tree \<Rightarrow> avl_tree list \<Rightarrow> avl_tree list" where
  "spine s Tip acc = acc"
| "spine s (Bin l n p h r) acc = spine s (if s = Buy then r else l) (Bin l n p h r # acc)"

fun upcoming :: "side \<Rightarrow> avl_tree \<Rightarrow> (price \<times> level_handle) list" where
  "upcoming s Tip = []"
| "upcoming s (Bin l n p h r) = (p, h) # seq_of s (near s r l)"

definition todo :: "side \<Rightarrow> avl_tree list \<Rightarrow> (price \<times> level_handle) list" where
  "todo s acc = concat (map (upcoming s) acc)"

definition stacked :: "avl_map \<Rightarrow> avl_tree list \<Rightarrow> bool" where
  "stacked t acc \<longleftrightarrow> (\<forall>T \<in> set acc. T \<noteq> Tip \<and> tree_in (am_nodes t) T \<and> distinct (indices T))"

lemma stacked_simps [simp]:
  "stacked t []" "stacked t (T # acc) \<longleftrightarrow> T \<noteq> Tip \<and> tree_in (am_nodes t) T \<and> distinct (indices T) \<and> stacked t acc"
  by (auto simp: stacked_def)

lemma todo_simps [simp]: "todo s [] = []" "todo s (T # acc) = upcoming s T @ todo s acc"
  by (simp_all add: todo_def)

lemma todo_spine: "todo s (spine s T acc) = seq_of s T @ todo s acc"
  by (induction s T acc rule: spine.induct) (auto simp: near_def)

lemma stacked_spine:
  "stacked t acc \<Longrightarrow> tree_in (am_nodes t) T \<Longrightarrow> distinct (indices T) \<Longrightarrow> stacked t (spine s T acc)"
  by (induction s T acc rule: spine.induct) simp_all

lemma descend_run:
  "am_side t = s \<Longrightarrow> tree_in (am_nodes t) T \<Longrightarrow> ht T \<le> fuel \<Longrightarrow>
    descend fuel t (root T) (map root acc) = Inr (map root (spine s T acc))"
proof (induction s T acc arbitrary: fuel rule: spine.induct)
  case (1 s acc)
  then show ?case by (subst descend.simps) simp
next
  case (2 s l n p h r acc)
  obtain fuel' where fu: "fuel = Suc fuel'" "ht l \<le> fuel'" "ht r \<le> fuel'" using 2(4) by (cases fuel) auto
  define c where "c = (if s = Buy then r else l)"
  have "tree_in (am_nodes t) c" "ht c \<le> fuel'" using 2(3) fu by (auto simp: c_def)
  then have ih: "descend fuel' t (root c) (n # map root acc) = Inr (map root (spine s c (Bin l n p h r # acc)))"
    using 2(1) [OF 2(2), of fuel'] by (simp add: c_def)
  have "(if am_side t = Buy then an_right (node_at t n) else an_left (node_at t n)) = root c"
    using node_reads [OF 2(3)] 2(2) by (simp add: c_def)
  then have "descend fuel t n (map root acc) = descend fuel' t (root c) (n # map root acc)"
    using node_reads [OF 2(3)] by (subst descend.simps) (simp add: fu(1))
  then show ?case using ih by (simp add: c_def)
qed

lemma ht_fuel: "tree_in (am_nodes t) T \<Longrightarrow> distinct (indices T) \<Longrightarrow> ht T \<le> avl_fuel t"
  unfolding avl_fuel_def using ht_le_indices [of T] card_mono [OF _ tree_in_bound [of "am_nodes t" T]]
  by (simp add: distinct_card)

lemma walk_run:
  "am_side t = s \<Longrightarrow> tree_in (am_nodes t) T \<Longrightarrow> distinct (indices T) \<Longrightarrow> stacked t acc \<Longrightarrow>
    length (seq_of s T @ todo s acc) \<le> fuel \<Longrightarrow> walk fuel t (root T) (map root acc) = Inr (seq_of s T @ todo s acc)"
proof (induction fuel arbitrary: T acc)
  case 0
  have "T = Tip" using 0(5) by (cases T) auto
  moreover have "acc = []" using 0(4,5) by (cases acc; cases "hd acc") (auto simp: stacked_def)
  ultimately show ?case by (subst walk.simps) simp
next
  case (Suc fuel)
  show ?case
  proof (cases "T = Tip \<and> acc = []")
    case True
    then show ?thesis by (subst walk.simps) simp
  next
    case False
    have st: "stacked t (spine s T acc)" by (rule stacked_spine [OF Suc.prems(4,2,3)])
    have "spine s T acc \<noteq> []"
    proof
      assume "spine s T acc = []"
      then have "seq_of s T = []" "todo s acc = []" using todo_spine [of s T acc] by simp_all
      with False Suc.prems(4) show False by (cases T; cases acc; cases "hd acc") (auto simp: stacked_def)
    qed
    then obtain B acc' where B: "spine s T acc = B # acc'" by (cases "spine s T acc") auto
    then obtain l n p h r where b: "B = Bin l n p h r" using st by (cases B) (auto simp: stacked_def)
    have d: "descend (avl_fuel t) t (root T) (map root acc) = Inr (n # map root acc')"
      using descend_run [OF Suc.prems(1,2) ht_fuel [OF Suc.prems(2,3)], of acc] B b by simp
    have tb: "tree_in (am_nodes t) (Bin l n p h r)" "distinct (indices (Bin l n p h r))" "stacked t acc'"
      using st B b by (auto simp: stacked_def)
    have sq: "seq_of s T @ todo s acc = (p, h) # seq_of s (near s r l) @ todo s acc'"
      using todo_spine [of s T acc] by (simp add: B b)
    have "walk fuel t (root (near s r l)) (map root acc') = Inr (seq_of s (near s r l) @ todo s acc')"
      using Suc.prems(5) tb by (intro Suc.IH [OF Suc.prems(1)]) (auto simp: sq near_def)
    moreover have "root (near s r l) = (if am_side t = Buy then an_left (node_at t n) else an_right (node_at t n))"
      using node_reads [OF tb(1)] Suc.prems(1) by (simp add: near_def)
    moreover have "\<not> (root T = kNull \<and> map root acc = [])" using False Suc.prems(2) by auto
    ultimately show ?thesis
      using d node_reads [OF tb(1)] unfolding sq by (subst walk.simps) (auto simp: Let_def)
  qed
qed

section \<open>Validation\<close>

lemma check_node_run:
  "tree_in (am_nodes t) T \<Longrightarrow> distinct (indices T) \<Longrightarrow> small (am_nodes t) \<Longrightarrow> balanced T \<Longrightarrow>
    (\<forall>x \<in> set (entries_of T). \<not> is_null (snd x)) \<Longrightarrow> ht T \<le> fuel \<Longrightarrow>
    check_node fuel t (root T) c = Inr (c + of_nat (length (indices T)))"
proof (induction T arbitrary: fuel c)
  case Tip
  then show ?case by (subst check_node.simps) simp
next
  case (Bin l n q g r)
  obtain fuel' where fu: "fuel = Suc fuel'" "ht l \<le> fuel'" "ht r \<le> fuel'" using Bin.prems(6) by (cases fuel) auto
  have lr: "tree_in (am_nodes t) l" "tree_in (am_nodes t) r" "distinct (indices l)" "distinct (indices r)"
    using Bin.prems by auto
  have hs: "ht l < 2 ^ 31" "ht r < 2 ^ 31" using ht_small lr Bin.prems(3) by auto
  have h: "1 + max (height_of t (root l)) (height_of t (root r)) = of_nat (Suc (max (ht l) (ht r)))"
    using height_of_root lr of_nat_max [of "ht l" "ht r"] hs by simp
  have b: "balance_of t n = int (ht l) - int (ht r)" using Bin.prems(1) hs by (intro balance_of_node) auto
  have ih: "check_node fuel' t (root l) (c + 1) = Inr (c + 1 + of_nat (length (indices l)))"
    "check_node fuel' t (root r) (c + 1 + of_nat (length (indices l))) = Inr (c + 1 + of_nat (length (indices l)) + of_nat (length (indices r)))"
    using Bin fu by auto
  show ?case
    using ih h b node_reads [OF Bin.prems(1)] Bin.prems(4,5)
    by (subst check_node.simps) (simp add: fu(1) Let_def algebra_simps)
qed

lemma walk_ascending_run:
  "tree_in (am_nodes t) T \<Longrightarrow> ht T \<le> fuel \<Longrightarrow> walk_ascending fuel t (root T) = Inr (map fst (entries_of T))"
proof (induction T arbitrary: fuel)
  case Tip
  then show ?case by (subst walk_ascending.simps) simp
next
  case (Bin l n q g r)
  obtain fuel' where fu: "fuel = Suc fuel'" "ht l \<le> fuel'" "ht r \<le> fuel'" using Bin.prems(2) by (cases fuel) auto
  then show ?case
    using Bin node_reads [OF Bin.prems(1)] by (subst walk_ascending.simps) simp
qed

lemma check_ascending_run:
  "sorted_wrt (<) ps \<Longrightarrow> (\<forall>q. prev = Some q \<longrightarrow> (\<forall>p \<in> set ps. q < p)) \<Longrightarrow> check_ascending prev ps = Inr ()"
  by (induction prev ps rule: check_ascending.induct) (auto split: option.splits)

end
