(* ===== verification/Avl_Book.thy ===== *)
theory Avl_Book
  imports Avl_Laws Book_Runs
begin

text \<open>
  flat_book.hpp: \<open>AvlBook\<close>, the order book on AVL trees. The invariant of the tree with its
  free list, the finite map it stands for, and the interpretation of the level map's
  contract, which gives the book and the engine over it.
\<close>

section \<open>The invariant\<close>

text \<open>The free list through the left links.\<close>

fun free_in :: "avl_node list \<Rightarrow> u32 \<Rightarrow> u32 list \<Rightarrow> bool" where
  "free_in ns f [] \<longleftrightarrow> f = kNull"
| "free_in ns f (i # F) \<longleftrightarrow> f = i \<and> i \<noteq> kNull \<and> unat i < length ns \<and> free_in ns (an_left (ns ! unat i)) F"

lemma free_in_cong:
  "free_in ns f F \<Longrightarrow> length ns \<le> length ns' \<Longrightarrow> (\<And>i. i \<in> set F \<Longrightarrow> ns' ! unat i = ns ! unat i) \<Longrightarrow> free_in ns' f F"
  by (induction F arbitrary: f) auto

lemma free_in_touches: "free_in ns f F \<Longrightarrow> touches J ns ns' \<Longrightarrow> J \<inter> unat ` set F = {} \<Longrightarrow> free_in ns' f F"
  by (erule free_in_cong) (auto simp: touches_def)

text \<open>The vector is the tree and the free list.\<close>

definition avl_rep :: "avl_map \<Rightarrow> avl_tree \<Rightarrow> u32 list \<Rightarrow> bool" where
  "avl_rep t T F \<longleftrightarrow> root T = am_root t \<and> tree_in (am_nodes t) T \<and> free_in (am_nodes t) (am_free t) F \<and>
     distinct (indices T @ map unat F) \<and> set (indices T @ map unat F) = {..<length (am_nodes t)} \<and>
     length (am_nodes t) \<le> max_levels \<and> am_size t = of_nat (length (indices T))"

definition avl_good :: "avl_tree \<Rightarrow> bool" where
  "avl_good T \<longleftrightarrow> ordered T \<and> balanced T \<and> (\<forall>x \<in> set (entries_of T). fst x \<noteq> kNoPrice \<and> \<not> is_null (snd x))"

definition avl_inv :: "side \<Rightarrow> avl_map \<Rightarrow> bool" where
  "avl_inv s t \<longleftrightarrow> am_side t = s \<and> (\<exists>T F. avl_rep t T F \<and> avl_good T)"

text \<open>The map the nodes below an index stand for.\<close>

fun entries_below :: "nat \<Rightarrow> avl_map \<Rightarrow> u32 \<Rightarrow> (price \<times> level_handle) list" where
  "entries_below 0 t n = []"
| "entries_below (Suc k) t n =
     (if n = kNull then []
      else entries_below k t (an_left (node_at t n)) @ (an_price (node_at t n), an_level (node_at t n)) #
        entries_below k t (an_right (node_at t n)))"

definition avl_content :: "avl_map \<Rightarrow> price \<Rightarrow> level_handle option" where
  "avl_content t = map_of (entries_below (avl_fuel t) t (am_root t))"

lemma entries_below_eq:
  "tree_in (am_nodes t) T \<Longrightarrow> ht T \<le> k \<Longrightarrow> entries_below k t (root T) = entries_of T"
proof (induction T arbitrary: k)
  case Tip
  then show ?case by (cases k) simp_all
next
  case (Bin l n q g r)
  then show ?case using node_reads [OF Bin.prems(1)] by (cases k) simp_all
qed

lemma avl_rep_facts:
  assumes "avl_rep t T F"
  shows "tree_in (am_nodes t) T" "distinct (indices T)" "small (am_nodes t)" "ht T \<le> avl_fuel t" "am_root t = root T"
    "avl_content t = map_of (entries_of T)" "length (indices T) \<le> max_levels"
proof -
  have i: "distinct (indices T)" "set (indices T) \<subseteq> {..<length (am_nodes t)}"
    using assms unfolding avl_rep_def by (simp, metis Un_upper1 set_append)
  show "tree_in (am_nodes t) T" "distinct (indices T)" "am_root t = root T" using assms by (simp_all add: avl_rep_def)
  then show ht: "ht T \<le> avl_fuel t" by (intro ht_fuel)
  show "small (am_nodes t)" using assms by (simp add: avl_rep_def small_def max_levels_def)
  show "avl_content t = map_of (entries_of T)"
    using assms ht entries_below_eq [of t T] by (simp add: avl_content_def avl_rep_def flip: \<open>am_root t = root T\<close>)
  show "length (indices T) \<le> max_levels"
    using card_mono [OF _ i(2)] assms i(1) by (simp add: distinct_card avl_rep_def)
qed

lemma map_of_good:
  assumes "avl_good T"
  shows "map_of (entries_of T) p = Some h \<longleftrightarrow> (p, h) \<in> set (entries_of T)" and "dom (map_of (entries_of T)) = fst ` set (entries_of T)"
    and "card (fst ` set (entries_of T)) = length (indices T)"
proof -
  have "sorted_wrt (<) (map fst (entries_of T))" using assms by (simp add: avl_good_def ordered_def)
  then have d: "distinct (map fst (entries_of T))" by (simp add: strict_sorted_iff)
  show "map_of (entries_of T) p = Some h \<longleftrightarrow> (p, h) \<in> set (entries_of T)" using d by (rule map_of_eq_Some_iff)
  show "dom (map_of (entries_of T)) = fst ` set (entries_of T)" by (rule dom_map_of_conv_image_fst)
  show "card (fst ` set (entries_of T)) = length (indices T)"
    using distinct_card [OF d] by (simp add: length_entries)
qed

section \<open>Insertion\<close>

text \<open>A new node comes off the free list, or from the end of the vector when that is empty.\<close>

lemma new_node_run:
  assumes r: "avl_rep t T F" and room: "length (indices T) < max_levels"
  shows "\<exists>t1 i F'. fresh_node t p h t1 i \<and> unat i \<notin> set (indices T) \<and> free_in (am_nodes t1) (am_free t1) F' \<and>
    am_side t1 = am_side t \<and> am_size t1 = am_size t \<and> length (am_nodes t1) \<le> max_levels \<and>
    distinct (unat i # indices T @ map unat F') \<and>
    set (unat i # indices T @ map unat F') = {..<length (am_nodes t1)}"
proof (cases F)
  case (Cons i F')
  then have i: "am_free t = i" "i \<noteq> kNull" "unat i < length (am_nodes t)" "free_in (am_nodes t) (an_left (am_nodes t ! unat i)) F'"
    using r by (simp_all add: avl_rep_def)
  define x where "x = \<lparr>an_price = p, an_level = h, an_left = kNull, an_right = kNull, an_height = 1\<rparr>"
  define t1 where "t1 = put_node i x (t\<lparr>am_free := an_left (node_at t i)\<rparr>)"
  have n: "am_nodes t1 = (am_nodes t)[unat i := x]" "am_free t1 = an_left (am_nodes t ! unat i)"
    by (simp_all add: t1_def node_at_def)
  have "new_node p h t = (t1, i)" using i by (simp add: new_node_def t1_def x_def Let_def)
  then have "fresh_node t p h t1 i"
    using i avl_rep_facts(3) [OF r] n by (simp add: fresh_node_def small_def x_def)
  moreover have "unat i \<notin> unat ` set F'" using r Cons by (auto simp: avl_rep_def)
  then have "free_in (am_nodes t1) (am_free t1) F'"
    using free_in_touches [OF i(4) touches_update [of "unat i" "{unat i}"]] by (simp add: n)
  moreover have "unat i \<notin> set (indices T)" "distinct (unat i # indices T @ map unat F')"
    using r Cons by (auto simp: avl_rep_def)
  moreover have "set (unat i # indices T @ map unat F') = set (indices T @ map unat F)" using Cons by auto
  then have "set (unat i # indices T @ map unat F') = {..<length (am_nodes t1)}"
    using r n(1) by (simp only: avl_rep_def length_list_update)
  moreover have "am_side t1 = am_side t" "am_size t1 = am_size t" "length (am_nodes t1) \<le> max_levels"
    using r n(1) by (simp_all add: avl_rep_def t1_def)
  ultimately show ?thesis by blast
next
  case Nil
  then have f: "am_free t = kNull" "set (indices T) = {..<length (am_nodes t)}" "distinct (indices T)"
    using r by (simp_all add: avl_rep_def)
  then have len: "length (am_nodes t) = length (indices T)" using distinct_card [of "indices T"] by simp
  define x where "x = \<lparr>an_price = p, an_level = h, an_left = kNull, an_right = kNull, an_height = 1\<rparr>"
  define t1 where "t1 = t\<lparr>am_nodes := am_nodes t @ [x]\<rparr>"
  define i :: u32 where "i = of_nat (length (am_nodes t))"
  have u: "unat i = length (am_nodes t)"
    using room len by (simp add: i_def max_levels_def unsigned_of_nat take_bit_nat_eq_self)
  then have "i \<noteq> kNull" using room len by (auto simp: kNull_def max_levels_def)
  then have "fresh_node t p h t1 i"
    using f(1) u room len by (simp add: fresh_node_def new_node_def t1_def x_def i_def small_def max_levels_def nth_append)
  moreover have "unat i \<notin> set (indices T)" "distinct (unat i # indices T @ map unat [])"
    "set (unat i # indices T @ map unat []) = {..<length (am_nodes t1)}"
    using f(2,3) u by (simp_all add: t1_def lessThan_Suc)
  moreover have "free_in (am_nodes t1) (am_free t1) []" "am_side t1 = am_side t" "am_size t1 = am_size t"
    "length (am_nodes t1) \<le> max_levels"
    using f(1) len room by (simp_all add: t1_def)
  ultimately show ?thesis by blast
qed

lemma avl_insert_ok:
  assumes r: "avl_rep t T F" and g: "avl_good T" and h: "\<not> is_null h" "p \<noteq> kNoPrice"
    and new: "p \<notin> fst ` set (entries_of T)" and room: "length (indices T) < max_levels"
  shows "\<exists>t' i F'. avl_insert t p h = Inr t' \<and> am_side t' = am_side t \<and> avl_rep t' (ins i p h T) F' \<and> avl_good (ins i p h T)"
proof -
  obtain t1 i F' where n: "fresh_node t p h t1 i" "unat i \<notin> set (indices T)" "free_in (am_nodes t1) (am_free t1) F'"
    "am_side t1 = am_side t" "am_size t1 = am_size t" "length (am_nodes t1) \<le> max_levels"
    "distinct (unat i # indices T @ map unat F')" "set (unat i # indices T @ map unat F') = {..<length (am_nodes t1)}"
    using new_node_run [OF r room, of p h] by blast
  note rf = avl_rep_facts [OF r]
  obtain ns where ns: "avl_insert_at (avl_fuel t) (root T) p h t = Inr (t1\<lparr>am_nodes := ns\<rparr>, root (ins i p h T))"
    "touches (insert (unat i) (set (indices T))) (am_nodes t1) ns" "tree_in ns (ins i p h T)"
    using avl_insert_at_run [OF n(1) rf(1,2) n(2) new rf(4)] by blast
  define t' where "t' = t1\<lparr>am_nodes := ns, am_root := root (ins i p h T), am_size := am_size t1 + 1\<rparr>"
  have run: "avl_insert t p h = Inr t'"
    using h(1) ns(1) rf(5) by (simp add: avl_insert_def t'_def)
  have o: "ordered T" "balanced T" using g by (simp_all add: avl_good_def)
  have "avl_good (ins i p h T)"
    using g h ins_ordered [OF o(1) new, of i h] ins_balanced [OF o(2), of i p h] by (auto simp: avl_good_def)
  moreover have "free_in ns (am_free t1) F'" using n(7) by (intro free_in_touches [OF n(3) ns(2)]) auto
  moreover have d: "distinct (indices (ins i p h T))" by (rule ins_distinct [OF rf(2) n(2)])
  moreover have "length (indices (ins i p h T)) = Suc (length (indices T))"
    using distinct_card [OF d] distinct_card [OF rf(2)] n(2) by (simp add: ins_indices)
  ultimately have "avl_rep t' (ins i p h T) F'"
    using ns(3) n touches_small [OF ns(2)] r ns(2)
    by (simp add: avl_rep_def t'_def ins_indices touches_def)
  with run \<open>avl_good (ins i p h T)\<close> n(4) show ?thesis
    by (intro exI [of _ t'] exI [of _ i] exI [of _ F']) (simp add: t'_def)
qed

section \<open>Erasure\<close>

lemma avl_erase_ok:
  assumes r: "avl_rep t T F" and g: "avl_good T" and e: "(p, h) \<in> set (entries_of T)"
  shows "\<exists>t' F'. avl_erase t p = Inr t' \<and> am_side t' = am_side t \<and> avl_rep t' (fst (del p T)) F' \<and> avl_good (fst (del p T))"
proof -
  note rf = avl_rep_facts [OF r]
  have o: "ordered T" "balanced T" using g by (simp_all add: avl_good_def)
  define d where "d = snd (del p T)"
  obtain ns where ns: "avl_erase_at (avl_fuel t) (root T) p t = Inr (after_erase t ns d, root (fst (del p T)))" "erased t T p ns"
    using avl_erase_at_run [OF rf(1-3) o(1) e rf(4)] unfolding d_def by blast
  note di = del_indices [OF o(1) e rf(2), folded d_def]
  define t' where "t' = (after_erase t ns d)\<lparr>am_root := root (fst (del p T))\<rparr>"
  have len: "length (indices T) = Suc (length (indices (fst (del p T))))"
  proof -
    have "card (set (indices T)) = Suc (card (set (indices T) - {unat d}))" using di by (intro card.remove [simplified]) auto
    then show ?thesis using di rf(2) distinct_card by metis
  qed
  have size: "am_size t = of_nat (length (indices T))" using r by (simp add: avl_rep_def)
  have pos: "0 < am_size t"
  proof -
    have "unat (am_size t) = length (indices T)"
      using rf(7) by (simp add: size unsigned_of_nat max_levels_def take_bit_nat_eq_self)
    with len show ?thesis by (simp add: word_less_nat_alt)
  qed
  have run: "avl_erase t p = Inr t'"
    using pos ns(1) rf(5) by (simp add: avl_erase_def t'_def Let_def) (simp add: after_erase_def)
  have "d \<noteq> kNull \<and> unat d < length ns"
  proof -
    have "unat d < length (am_nodes t)" using tree_in_bound [OF rf(1)] di by blast
    moreover have "length ns = length (am_nodes t)" using ns(2) by (simp add: erased_def touches_def)
    ultimately show ?thesis using rf(3) by (auto simp: kNull_def small_def)
  qed
  moreover have "free_in ns (am_free t) F"
  proof (rule free_in_touches)
    show "free_in (am_nodes t) (am_free t) F" "set (indices T) \<inter> unat ` set F = {}" using r by (simp_all add: avl_rep_def)
    show "touches (set (indices T)) (am_nodes t) ns" using ns(2) by (simp add: erased_def)
  qed
  ultimately have "free_in ns d (d # F)" using ns(2) by (simp add: erased_def d_def)
  moreover have "avl_good (fst (del p T))"
    using g del_ordered [OF o(1) e] del_balanced [OF o(2), of p] by (auto simp: avl_good_def)
  moreover have "set (indices (fst (del p T)) @ map unat (d # F)) = {..<length ns}"
    using r di ns(2) by (auto simp: avl_rep_def erased_def touches_def)
  moreover have "distinct (indices (fst (del p T)) @ map unat (d # F))"
    using r di by (auto simp: avl_rep_def)
  ultimately have "avl_rep t' (fst (del p T)) (d # F)"
    using r ns(2) len by (simp add: avl_rep_def t'_def after_erase_def erased_def touches_def)
  with run \<open>avl_good (fst (del p T))\<close> show ?thesis
    by (intro exI [of _ t'] exI [of _ "d # F"]) (simp add: t'_def after_erase_def)
qed

section \<open>The tree is a level map\<close>

definition avl_price :: "price \<Rightarrow> bool" where
  "avl_price p \<longleftrightarrow> p \<noteq> kNoPrice"

lemma avl_inv_rep:
  assumes "avl_inv s t"
  obtains T F where "avl_rep t T F" and "avl_good T" and "am_side t = s"
    and "avl_content t = map_of (entries_of T)" and "dom (avl_content t) = fst ` set (entries_of T)"
    and "card (dom (avl_content t)) = length (indices T)"
    and "\<And>p h. avl_content t p = Some h \<longleftrightarrow> (p, h) \<in> set (entries_of T)"
proof -
  obtain T F where T: "avl_rep t T F" "avl_good T" "am_side t = s" using assms unfolding avl_inv_def by blast
  show thesis
    using that [OF T] avl_rep_facts(6) [OF T(1)] map_of_good [OF T(2)] by simp
qed

lemma avl_new_ok: "avl_inv s (avl_new s)" "avl_content (avl_new s) = Map.empty"
proof -
  have "avl_rep (avl_new s) Tip []" by (simp add: avl_rep_def avl_new_def)
  moreover have "avl_good Tip" by (simp add: avl_good_def)
  ultimately show "avl_inv s (avl_new s)" unfolding avl_inv_def by (auto simp: avl_new_def)
  show "avl_content (avl_new s) = Map.empty" by (simp add: avl_content_def avl_fuel_def avl_new_def)
qed

lemma avl_size_zero:
  assumes "avl_rep t T F" shows "avl_empty t \<longleftrightarrow> T = Tip"
proof -
  have "unat (am_size t) = length (indices T)"
    using assms avl_rep_facts(7) [OF assms] by (simp add: avl_rep_def unsigned_of_nat max_levels_def take_bit_nat_eq_self)
  then show ?thesis by (cases T) (auto simp: avl_empty_def simp flip: unat_eq_zero)
qed

lemma avl_best_ok:
  assumes r: "avl_rep t T F" and g: "avl_good T" and ne: "T \<noteq> Tip"
  shows "\<exists>p. avl_best t = Inr p \<and> is_best (am_side t) (fst ` set (entries_of T)) p"
proof -
  note rf = avl_rep_facts [OF r]
  have o: "ordered T" using g by (simp add: avl_good_def)
  show ?thesis
  proof (cases "am_side t")
    case Buy
    obtain n where "rightmost (avl_fuel t) t (root T) = Inr n" "an_price (node_at t n) \<in> fst ` set (entries_of T)"
      "\<forall>x \<in> set (entries_of T). fst x \<le> an_price (node_at t n)"
      using rightmost_price [OF rf(1) ne rf(4) o] by blast
    then show ?thesis using Buy avl_size_zero [OF r] ne rf(5) by (auto simp: avl_best_def is_best_def not_less)
  next
    case Sell
    obtain n where "leftmost (avl_fuel t) t (root T) = Inr n" "an_price (node_at t n) \<in> fst ` set (entries_of T)"
      "\<forall>x \<in> set (entries_of T). an_price (node_at t n) \<le> fst x"
      using leftmost_price [OF rf(1) ne rf(4) o] by blast
    then show ?thesis using Sell avl_size_zero [OF r] ne rf(5) by (auto simp: avl_best_def is_best_def not_less)
  qed
qed

lemma seq_inside_out:
  assumes "avl_good T"
  shows "inside_out s (seq_of s T)" and "map_of (seq_of s T) = map_of (entries_of T)"
proof -
  have s: "sorted_wrt (<) (map fst (entries_of T))" using assms by (simp add: avl_good_def ordered_def)
  then show "inside_out s (seq_of s T)"
    using sorted_wrt_mono_rel [of "map fst (entries_of T)" "(<)" "closer Sell"]
    by (cases s) (simp_all add: inside_out_def seq_of_def rev_map [symmetric] sorted_wrt_rev)
  have "distinct (map fst (entries_of T))" using s by (simp add: strict_sorted_iff)
  then show "map_of (seq_of s T) = map_of (entries_of T)"
    by (cases s) (simp_all add: seq_of_def map_of_inject_set rev_map [symmetric])
qed

lemma avl_levels_ok:
  assumes r: "avl_rep t T F"
  shows "avl_levels t = Inr (seq_of (am_side t) T)"
proof -
  note rf = avl_rep_facts [OF r]
  have "length (indices T) \<le> length (am_nodes t)"
    using card_mono [OF _ tree_in_bound [OF rf(1)]] rf(2) by (simp add: distinct_card)
  then have "length (seq_of (am_side t) T @ todo (am_side t) []) \<le> avl_fuel t"
    by (simp add: seq_of_def avl_fuel_def length_entries)
  then show ?thesis using walk_run [of t _ T "[]"] rf by (simp add: avl_levels_def)
qed

lemma avl_validate_ok:
  assumes r: "avl_rep t T F" and g: "avl_good T"
  shows "avl_validate t = Inr ()"
proof -
  note rf = avl_rep_facts [OF r]
  have "check_node (avl_fuel t) t (root T) 0 = Inr (of_nat (length (indices T)))"
    using check_node_run [OF rf(1-3) _ _ rf(4), of 0] g by (simp add: avl_good_def)
  moreover have "check_ascending None (map fst (entries_of T)) = Inr ()"
    using g by (intro check_ascending_run) (simp_all add: avl_good_def ordered_def)
  ultimately show ?thesis
    using walk_ascending_run [OF rf(1,4)] rf(5) r by (simp add: avl_validate_def avl_rep_def)
qed

interpretation avl: level_map avl_ops avl_content avl_inv avl_price
proof
  fix s m p h
  show "avl_inv s (lm_new avl_ops s)" "avl_content (lm_new avl_ops s) = Map.empty"
    using avl_new_ok by (simp_all add: avl_ops_def)
  show "avl_price p \<Longrightarrow> p \<noteq> kNoPrice" by (simp add: avl_price_def)
  assume inv: "avl_inv s m"
  obtain T F where T: "avl_rep m T F" "avl_good T" "am_side m = s" "avl_content m = map_of (entries_of T)"
    "dom (avl_content m) = fst ` set (entries_of T)" "card (dom (avl_content m)) = length (indices T)"
    "\<And>p h. avl_content m p = Some h \<longleftrightarrow> (p, h) \<in> set (entries_of T)"
    using avl_inv_rep [OF inv] by blast
  note rf = avl_rep_facts [OF T(1)]
  have o: "ordered T" using T(2) by (simp add: avl_good_def)
  show "avl_content m p = Some h \<Longrightarrow> \<not> is_null h" "avl_content m p = Some h \<Longrightarrow> avl_price p"
    using T(2,7) by (force simp: avl_good_def avl_price_def)+
  show "finite (dom (avl_content m))" by (simp add: T(5))
  show "lm_find avl_ops m p = Inr (lookup (avl_content m) p)"
    using find_from_run [OF rf(1) o rf(4)] by (simp add: avl_ops_def avl_find_def T(4) rf(5))
  show "\<not> is_null h \<Longrightarrow> avl_price p \<Longrightarrow> avl_content m p = None \<Longrightarrow> card (dom (avl_content m)) < max_levels \<Longrightarrow>
      \<exists>m'. lm_insert avl_ops m p h = Inr m' \<and> avl_inv s m' \<and> avl_content m' = (avl_content m)(p \<mapsto> h)"
  proof -
    assume h: "\<not> is_null h" "avl_price p" "avl_content m p = None" "card (dom (avl_content m)) < max_levels"
    then have new: "p \<notin> fst ` set (entries_of T)" "length (indices T) < max_levels" using T(5,6) by auto
    obtain m' i F' where m': "avl_insert m p h = Inr m'" "am_side m' = am_side m" "avl_rep m' (ins i p h T) F'" "avl_good (ins i p h T)"
      using avl_insert_ok [OF T(1,2) h(1) _ new] h(2) by (auto simp: avl_price_def)
    have "avl_content m' = (avl_content m)(p \<mapsto> h)"
      using T(7) new(1) unfolding avl_rep_facts(6) [OF m'(3)]
      by (intro map_ext_Some) (auto simp: map_of_good(1) [OF m'(4)] ins_ordered(2) [OF o new(1)] image_iff)
    with m' T(3) show ?thesis by (auto simp: avl_ops_def avl_inv_def)
  qed
  show "avl_content m p = Some h \<Longrightarrow>
      \<exists>m'. lm_erase avl_ops m p = Inr m' \<and> avl_inv s m' \<and> avl_content m' = (avl_content m)(p := None)"
  proof -
    assume c: "avl_content m p = Some h"
    then have e: "(p, h) \<in> set (entries_of T)" using T(7) by simp
    obtain m' F' where m': "avl_erase m p = Inr m'" "am_side m' = am_side m" "avl_rep m' (fst (del p T)) F'" "avl_good (fst (del p T))"
      using avl_erase_ok [OF T(1,2) e] by blast
    have "avl_content m' = (avl_content m)(p := None)"
    proof (rule map_ext_Some)
      fix q k
      have "avl_content m' q = Some k \<longleftrightarrow> (q, k) \<in> set (entries_of T) - {(p, h)}"
        unfolding avl_rep_facts(6) [OF m'(3)] map_of_good(1) [OF m'(4)] del_ordered(2) [OF o e] ..
      also have "\<dots> \<longleftrightarrow> ((avl_content m)(p := None)) q = Some k" using c by (auto simp flip: T(7))
      finally show "avl_content m' q = Some k \<longleftrightarrow> ((avl_content m)(p := None)) q = Some k" .
    qed
    with m' T(3) show ?thesis by (auto simp: avl_ops_def avl_inv_def)
  qed
  have tip: "avl_content m = Map.empty \<longleftrightarrow> T = Tip" using T(4) by (cases T) auto
  then show "lm_empty avl_ops m \<longleftrightarrow> avl_content m = Map.empty"
    using avl_size_zero [OF T(1)] by (simp add: avl_ops_def)
  show "avl_content m \<noteq> Map.empty \<Longrightarrow> \<exists>p. lm_best avl_ops m = Inr p \<and> is_best s (dom (avl_content m)) p"
    using avl_best_ok [OF T(1,2)] tip T(3,5) by (simp add: avl_ops_def)
  show "\<exists>xs. lm_levels avl_ops m = Inr xs \<and> inside_out s xs \<and> map_of xs = avl_content m"
    using avl_levels_ok [OF T(1)] seq_inside_out [OF T(2)] T(3,4) by (simp add: avl_ops_def)
  show "lm_validate avl_ops m = Inr ()"
    using avl_validate_ok [OF T(1,2)] by (simp add: avl_ops_def)
qed

end
