(* ===== verification/Map_Book.thy ===== *)
theory Map_Book
  imports Book_Spec "HOL-Library.AList"
begin

text \<open>
  include/itch/book/map_book.hpp: \<open>MapBook\<close>, the textbook order book. A side is a
  \<open>std::map\<close> in the order of that side (\<open>std::greater\<close> for bids, \<open>std::less\<close> for asks), so
  its first element is the inside: a list of levels sorted by \<open>closer\<close>. A queue is a
  \<open>std::list\<close>, whose iterators stay valid while other nodes come and go: a list of nodes,
  each with an identity of its own from the supply \<open>mb_next_node\<close>; the iterator is the
  identity. \<open>orders_\<close> is a \<open>std::unordered_map\<close>, which is only looked up: an association list.
\<close>

section \<open>State\<close>

record map_level =
  ml_qty :: u64
  ml_fifo :: "(nat \<times> order_ref) list"

record map_entry =
  me_side :: side
  me_price :: price
  me_qty :: qty
  me_owner :: u16
  me_pos :: nat

record map_book =
  mb_orders :: "(order_ref \<times> map_entry) list"
  mb_sides :: "side \<Rightarrow> (price \<times> map_level) list"
  mb_next_node :: nat
  mb_total_qty :: "side \<Rightarrow> u64"
  mb_level_count :: "side \<Rightarrow> u32"
  mb_order_count :: u32

definition mb_new :: map_book where
  "mb_new = \<lparr>mb_orders = [], mb_sides = (\<lambda>_. []), mb_next_node = 0, mb_total_qty = (\<lambda>_. 0),
     mb_level_count = (\<lambda>_. 0), mb_order_count = 0\<rparr>"

text \<open>\<open>try_emplace\<close> leaves a level that is there, and says whether it made one.\<close>

fun try_emplace :: "side \<Rightarrow> price \<Rightarrow> (price \<times> map_level) list \<Rightarrow> (price \<times> map_level) list \<times> bool" where
  "try_emplace s p [] = ([(p, \<lparr>ml_qty = 0, ml_fifo = []\<rparr>)], True)"
| "try_emplace s p ((q, v) # m) =
     (if p = q then ((q, v) # m, False)
      else if closer s p q then ((p, \<lparr>ml_qty = 0, ml_fifo = []\<rparr>) # (q, v) # m, True)
      else (let (m', fresh) = try_emplace s p m in ((q, v) # m', fresh)))"

definition at_level :: "price \<Rightarrow> (map_level \<Rightarrow> map_level) \<Rightarrow> (price \<times> map_level) list \<Rightarrow> (price \<times> map_level) list" where
  "at_level p f m = map (\<lambda>(q, v). (q, if q = p then f v else v)) m"

definition drop_level :: "price \<Rightarrow> (price \<times> map_level) list \<Rightarrow> (price \<times> map_level) list" where
  "drop_level p m = filter (\<lambda>x. fst x \<noteq> p) m"

definition mb_find :: "map_book \<Rightarrow> order_ref \<Rightarrow> map_entry option" where
  "mb_find b ref = map_of (mb_orders b) ref"

section \<open>Mutations\<close>

definition mb_insert :: "order_ref \<Rightarrow> side \<Rightarrow> price \<Rightarrow> qty \<Rightarrow> u16 \<Rightarrow> map_book \<Rightarrow> map_book" where
  "mb_insert ref s p q ow b =
     (let (m, fresh) = try_emplace s p (mb_sides b s);
          node = mb_next_node b;
          m = at_level p (\<lambda>v. v\<lparr>ml_fifo := ml_fifo v @ [(node, ref)]\<rparr>) m;
          m = at_level p (\<lambda>v. v\<lparr>ml_qty := ml_qty v + ucast q\<rparr>) m;
          e = \<lparr>me_side = s, me_price = p, me_qty = q, me_owner = ow, me_pos = node\<rparr>
      in b\<lparr>mb_level_count := (if fresh then (mb_level_count b)(s := mb_level_count b s + 1) else mb_level_count b),
           mb_sides := (mb_sides b)(s := m), mb_next_node := Suc node,
           mb_total_qty := (mb_total_qty b)(s := mb_total_qty b s + ucast q),
           mb_order_count := mb_order_count b + 1,
           mb_orders := (if map_of (mb_orders b) ref = None then (ref, e) # mb_orders b else mb_orders b)\<rparr>)"

definition mb_add :: "order_ref \<Rightarrow> side \<Rightarrow> price \<Rightarrow> qty \<Rightarrow> u16 \<Rightarrow> map_book \<Rightarrow> failure + map_book" where
  "mb_add ref s p q ow b =
     andthen (ensure (0 < q) (BookF NoQuantity)) (\<lambda>_.
     andthen (ensure (mb_find b ref = None) (BookF AddedTwice)) (\<lambda>_.
       Inr (mb_insert ref s p q ow b)))"

definition reduce_level :: "map_entry \<Rightarrow> order_ref \<Rightarrow> qty \<Rightarrow> map_book \<Rightarrow> failure + map_book" where
  "reduce_level e ref shares b =
     (case map_of (mb_sides b (me_side e)) (me_price e) of
        None \<Rightarrow> Inl (BookF LevelGone)
      | Some lvl \<Rightarrow>
          let s = me_side e; p = me_price e;
              lvl = lvl\<lparr>ml_qty := ml_qty lvl - ucast shares\<rparr>;
              b = b\<lparr>mb_sides := (mb_sides b)(s := at_level p (\<lambda>_. lvl) (mb_sides b s))\<rparr>
          in if me_qty e \<noteq> 0 then Inr b
             else
               let lvl = lvl\<lparr>ml_fifo := filter (\<lambda>n. fst n \<noteq> me_pos e) (ml_fifo lvl)\<rparr>;
                   b = b\<lparr>mb_sides := (mb_sides b)(s := at_level p (\<lambda>_. lvl) (mb_sides b s)),
                         mb_order_count := mb_order_count b - 1\<rparr>
               in andthen
                    (if ml_fifo lvl = [] then
                       andthen (ensure (ml_qty lvl = 0) (BookF EmptyLevelQuantity)) (\<lambda>_.
                         Inr (b\<lparr>mb_sides := (mb_sides b)(s := drop_level p (mb_sides b s)),
                                mb_level_count := (mb_level_count b)(s := mb_level_count b s - 1)\<rparr>))
                     else Inr b)
                    (\<lambda>b. Inr (b\<lparr>mb_orders := AList.delete ref (mb_orders b)\<rparr>)))"

text \<open>\<open>e\<close> is a reference into \<open>orders_\<close>: the reduced quantity is written through it.\<close>

definition mb_reduce :: "map_entry \<Rightarrow> order_ref \<Rightarrow> qty \<Rightarrow> map_book \<Rightarrow> failure + map_book" where
  "mb_reduce e ref shares b =
     (let e = e\<lparr>me_qty := me_qty e - shares\<rparr>;
          b = b\<lparr>mb_orders := AList.update ref e (mb_orders b),
                mb_total_qty := (mb_total_qty b)(me_side e := mb_total_qty b (me_side e) - ucast shares)\<rparr>
      in reduce_level e ref shares b)"

definition mb_require :: "map_book \<Rightarrow> order_ref \<Rightarrow> book_failure \<Rightarrow> failure + map_entry" where
  "mb_require b ref what = (case mb_find b ref of None \<Rightarrow> Inl (BookF what) | Some e \<Rightarrow> Inr e)"

definition mb_cancel :: "order_ref \<Rightarrow> qty \<Rightarrow> map_book \<Rightarrow> failure + map_book" where
  "mb_cancel ref shares b =
     andthen (mb_require b ref CancelMissing) (\<lambda>e.
     andthen (ensure (shares \<le> me_qty e) (BookF CancelTooMuch)) (\<lambda>_. mb_reduce e ref shares b))"

definition mb_execute :: "order_ref \<Rightarrow> qty \<Rightarrow> map_book \<Rightarrow> failure + map_book \<times> qty" where
  "mb_execute ref shares b =
     andthen (mb_require b ref ExecuteMissing) (\<lambda>e.
     andthen (ensure (shares \<le> me_qty e) (BookF ExecuteTooMuch)) (\<lambda>_.
     andthen (mb_reduce e ref shares b) (\<lambda>b'. Inr (b', shares))))"

definition mb_remove :: "order_ref \<Rightarrow> map_book \<Rightarrow> failure + map_book" where
  "mb_remove ref b = andthen (mb_require b ref DeleteMissing) (\<lambda>e. mb_reduce e ref (me_qty e) b)"

definition mb_replace :: "order_ref \<Rightarrow> order_ref \<Rightarrow> price \<Rightarrow> qty \<Rightarrow> map_book \<Rightarrow> failure + map_book" where
  "mb_replace old_ref new_ref p q b =
     andthen (mb_require b old_ref ReplaceMissing) (\<lambda>e.
     andthen (mb_remove old_ref b) (\<lambda>b'. mb_add new_ref (me_side e) p q (me_owner e) b'))"

section \<open>Queries\<close>

definition mb_empty :: "map_book \<Rightarrow> side \<Rightarrow> bool" where
  "mb_empty b s \<longleftrightarrow> mb_sides b s = []"

definition mb_best :: "map_book \<Rightarrow> side \<Rightarrow> price" where
  "mb_best b s = (if mb_sides b s = [] then kNoPrice else fst (hd (mb_sides b s)))"

definition mb_qty_at :: "map_book \<Rightarrow> side \<Rightarrow> price \<Rightarrow> u64" where
  "mb_qty_at b s p = (case map_of (mb_sides b s) p of None \<Rightarrow> 0 | Some v \<Rightarrow> ml_qty v)"

definition mb_orders_at :: "map_book \<Rightarrow> side \<Rightarrow> price \<Rightarrow> u32" where
  "mb_orders_at b s p = (case map_of (mb_sides b s) p of None \<Rightarrow> 0 | Some v \<Rightarrow> of_nat (length (ml_fifo v)))"

definition mb_front_at :: "map_book \<Rightarrow> side \<Rightarrow> price \<Rightarrow> order_ref" where
  "mb_front_at b s p =
     (case map_of (mb_sides b s) p of
        None \<Rightarrow> 0
      | Some v \<Rightarrow> if ml_fifo v = [] then 0 else snd (hd (ml_fifo v)))"

definition mb_count :: "map_book \<Rightarrow> nat" where
  "mb_count b = length (mb_orders b)"

definition mb_contains :: "map_book \<Rightarrow> order_ref \<Rightarrow> bool" where
  "mb_contains b ref \<longleftrightarrow> mb_find b ref \<noteq> None"

definition mb_side_of :: "map_book \<Rightarrow> order_ref \<Rightarrow> failure + side" where
  "mb_side_of b ref = andthen (mb_require b ref QueryMissing) (\<lambda>e. Inr (me_side e))"

definition mb_price_of :: "map_book \<Rightarrow> order_ref \<Rightarrow> failure + price" where
  "mb_price_of b ref = andthen (mb_require b ref QueryMissing) (\<lambda>e. Inr (me_price e))"

definition mb_qty_of :: "map_book \<Rightarrow> order_ref \<Rightarrow> failure + qty" where
  "mb_qty_of b ref = andthen (mb_require b ref QueryMissing) (\<lambda>e. Inr (me_qty e))"

definition mb_owner_of :: "map_book \<Rightarrow> order_ref \<Rightarrow> failure + u16" where
  "mb_owner_of b ref = andthen (mb_require b ref QueryMissing) (\<lambda>e. Inr (me_owner e))"

definition mb_crossed :: "map_book \<Rightarrow> bool" where
  "mb_crossed b \<longleftrightarrow> mb_sides b Buy \<noteq> [] \<and> mb_sides b Sell \<noteq> [] \<and> mb_best b Sell \<le> mb_best b Buy"

definition mb_levels :: "map_book \<Rightarrow> side \<Rightarrow> (price \<times> u64 \<times> u32 \<times> order_ref list) list" where
  "mb_levels b s = map (\<lambda>(p, v). (p, ml_qty v, of_nat (length (ml_fifo v)), map snd (ml_fifo v))) (mb_sides b s)"

definition mb_snapshot :: "map_book \<Rightarrow> side \<Rightarrow> nat \<Rightarrow> (price \<times> u64 \<times> u32) list" where
  "mb_snapshot b s depth =
     (let xs = map (\<lambda>(p, q, n, _). (p, q, n)) (mb_levels b s) in if depth = 0 then xs else take depth xs)"

section \<open>Validation\<close>

fun mb_check_fifo :: "map_book \<Rightarrow> side \<Rightarrow> price \<Rightarrow> order_ref list \<Rightarrow> u64 \<Rightarrow> failure + u64" where
  "mb_check_fifo b s p [] acc = Inr acc"
| "mb_check_fifo b s p (r # refs) acc =
     andthen (mb_require b r QueuedUnknown) (\<lambda>e.
     andthen (ensure (me_price e = p) (BookF WrongLevel)) (\<lambda>_.
     andthen (ensure (me_side e = s) (BookF WrongSide)) (\<lambda>_.
     andthen (ensure (0 < me_qty e) (BookF ZeroResting)) (\<lambda>_.
       mb_check_fifo b s p refs (acc + ucast (me_qty e))))))"

fun mb_check_levels :: "map_book \<Rightarrow> side \<Rightarrow> price option \<Rightarrow> (price \<times> u64 \<times> u32 \<times> order_ref list) list \<Rightarrow>
    u64 \<Rightarrow> u32 \<Rightarrow> nat \<Rightarrow> failure + u64 \<times> u32 \<times> nat" where
  "mb_check_levels b s prev [] qty levels tot = Inr (qty, levels, tot)"
| "mb_check_levels b s prev ((p, q, n, refs) # xs) qty levels tot =
     andthen (ensure (0 < n) (BookF LevelEmpty)) (\<lambda>_.
     andthen (ensure (length refs = unat n) (BookF LevelOrderCount)) (\<lambda>_.
     andthen (ensure (case prev of None \<Rightarrow> True | Some pv \<Rightarrow> if s = Buy then p < pv else pv < p) (BookF LevelOrdering)) (\<lambda>_.
     andthen (mb_check_fifo b s p refs 0) (\<lambda>acc.
     andthen (ensure (acc = q) (BookF LevelQuantity)) (\<lambda>_.
       mb_check_levels b s (Some p) xs (qty + q) (levels + 1) (tot + unat n))))))"

definition mb_validate :: "map_book \<Rightarrow> failure + unit" where
  "mb_validate b =
     andthen (mb_check_levels b Buy None (mb_levels b Buy) 0 0 0) (\<lambda>(qty0, levels0, total0).
     andthen (mb_check_levels b Sell None (mb_levels b Sell) 0 0 total0) (\<lambda>(qty1, levels1, tot).
     andthen (ensure (tot = length (mb_orders b)) (BookF Orphan)) (\<lambda>_.
     andthen (ensure (qty0 = mb_total_qty b Buy \<and> qty1 = mb_total_qty b Sell) (BookF TotalQuantity)) (\<lambda>_.
     andthen (ensure (levels0 = mb_level_count b Buy \<and> levels1 = mb_level_count b Sell) (BookF TotalLevels)) (\<lambda>_.
       ensure (unat (mb_order_count b) = length (mb_orders b)) (BookF TotalOrders))))))"

definition map_ops :: "map_book book_ops" where
  "map_ops = \<lparr>bo_add = mb_add, bo_cancel = mb_cancel, bo_execute = mb_execute, bo_remove = mb_remove,
     bo_replace = mb_replace, bo_empty = mb_empty, bo_best = mb_best,
     bo_qty_at = (\<lambda>b s p. Inr (mb_qty_at b s p)), bo_orders_at = (\<lambda>b s p. Inr (mb_orders_at b s p)),
     bo_total_qty = mb_total_qty, bo_level_count = mb_level_count, bo_order_count = mb_order_count,
     bo_count = mb_count, bo_contains = (\<lambda>b ref. Inr (mb_contains b ref)), bo_side_of = mb_side_of,
     bo_price_of = mb_price_of, bo_qty_of = mb_qty_of, bo_owner_of = mb_owner_of,
     bo_front_at = (\<lambda>b s p. Inr (mb_front_at b s p)), bo_levels = (\<lambda>b s. Inr (mb_levels b s)),
     bo_validate = mb_validate\<rparr>"

end
