(* ===== verification/Map_Book_Laws.thy ===== *)
theory Map_Book_Laws
  imports Map_Book
begin

text \<open>
  \<open>MapBook\<close> stands for the list of resting orders: each side's map is the list's prices in
  order, each queue its orders with the identity of their nodes, and \<open>orders_\<close> the entry of
  each. Every operation keeps this and answers as the list does.
\<close>

section \<open>Maps given by their keys\<close>

definition shaped :: "(price \<Rightarrow> map_level) \<Rightarrow> price list \<Rightarrow> (price \<times> map_level) list" where
  "shaped g ps = map (\<lambda>p. (p, g p)) ps"

lemma shaped_cong: "(\<And>p. p \<in> set ps \<Longrightarrow> g p = g' p) \<Longrightarrow> shaped g ps = shaped g' ps"
  by (simp add: shaped_def)

lemma map_of_shaped: "map_of (shaped g ps) p = (if p \<in> set ps then Some (g p) else None)"
  by (induction ps) (auto simp: shaped_def)

lemma at_level_shaped: "at_level p f (shaped g ps) = shaped (g(p := f (g p))) ps"
  by (simp add: shaped_def at_level_def)

lemma drop_level_shaped: "drop_level p (shaped g ps) = shaped g (filter (\<lambda>q. q \<noteq> p) ps)"
  by (induction ps) (simp_all add: shaped_def drop_level_def)

lemma try_emplace_shaped:
  assumes "sorted_wrt (closer s) ps"
  shows "try_emplace s p (shaped g ps) =
    (shaped (if p \<in> set ps then g else g(p := \<lparr>ml_qty = 0, ml_fifo = []\<rparr>)) (insert_price s p ps), p \<notin> set ps)"
  using assms
proof (induction ps)
  case (Cons q ps)
  consider (eq) "p = q" | (closer) "p \<noteq> q" "closer s p q" | (further) "p \<noteq> q" "\<not> closer s p q" by blast
  then show ?case
  proof cases
    case closer
    then have "p \<notin> set ps" using Cons.prems closer_asym by (auto dest: closer_trans)
    with closer show ?thesis by (auto simp: shaped_def)
  next
    case further
    with Cons show ?thesis by (auto simp: shaped_def case_prod_beta)
  qed (simp add: shaped_def)
qed (simp add: shaped_def)

section \<open>The book and the list\<close>

definition entry_of :: "(order_ref \<Rightarrow> nat) \<Rightarrow> resting \<Rightarrow> map_entry" where
  "entry_of pos x = \<lparr>me_side = r_side x, me_price = r_price x, me_qty = r_qty x, me_owner = r_owner x, me_pos = pos (r_ref x)\<rparr>"

definition level_of :: "(order_ref \<Rightarrow> nat) \<Rightarrow> side \<Rightarrow> naive_book \<Rightarrow> price \<Rightarrow> map_level" where
  "level_of pos s rs p = \<lparr>ml_qty = nb_qty_at rs s p, ml_fifo = map (\<lambda>x. (pos (r_ref x), r_ref x)) (queue s p rs)\<rparr>"

definition mb_placed :: "map_book \<Rightarrow> (order_ref \<Rightarrow> nat) \<Rightarrow> naive_book \<Rightarrow> bool" where
  "mb_placed b pos rs \<longleftrightarrow> inj_on pos (r_ref ` set rs) \<and> (\<forall>ref \<in> r_ref ` set rs. pos ref < mb_next_node b) \<and>
     (\<forall>ref. map_of (mb_orders b) ref = map_option (entry_of pos) (nb_find rs ref)) \<and>
     (\<forall>s. mb_sides b s = shaped (level_of pos s rs) (level_prices s rs))"

definition mb_rep :: "map_book \<Rightarrow> naive_book \<Rightarrow> bool" where
  "mb_rep b rs \<longleftrightarrow> wf_book rs \<and> length rs < 2 ^ 32 \<and> (\<forall>x \<in> set rs. r_price x \<noteq> kNoPrice) \<and>
     (\<exists>pos. mb_placed b pos rs) \<and> distinct (map fst (mb_orders b)) \<and>
     mb_total_qty b = nb_total_qty rs \<and> mb_level_count b = nb_level_count rs \<and> mb_order_count b = of_nat (length rs)"

lemma mb_new_rep: "mb_rep mb_new []"
  by (auto simp: mb_rep_def mb_placed_def mb_new_def shaped_def level_prices_def on_side_def nb_find_def
      nb_total_qty_def nb_level_count_def prices_def)

lemma level_of_cong:
  assumes "queue s p rs' = queue s p rs" and "\<And>ref. ref \<in> r_ref ` set (queue s p rs) \<Longrightarrow> pos' ref = pos ref"
  shows "level_of pos' s rs' p = level_of pos s rs p"
  using assms by (auto simp: level_of_def nb_qty_at_def)

lemma queue_refs: "r_ref ` set (queue s p rs) \<subseteq> r_ref ` set rs"
  by (auto simp: queue_def)

lemma set_level_prices [simp]: "set (level_prices s rs) = prices s rs"
  by (rule level_prices_props)

lemma orders_length:
  assumes "mb_rep b rs" shows "length (mb_orders b) = length rs"
proof -
  obtain pos where pos: "mb_placed b pos rs" using assms by (auto simp: mb_rep_def)
  have "dom (map_of (mb_orders b)) = r_ref ` set rs"
    using pos nb_find_None [of rs] by (force simp: mb_placed_def dom_def)
  then have "set (map fst (mb_orders b)) = set (map r_ref rs)" by (simp add: dom_map_of_conv_image_fst)
  then have "card (set (map fst (mb_orders b))) = card (set (map r_ref rs))" by simp
  then show ?thesis
    using assms distinct_card [of "map fst (mb_orders b)"] distinct_card [of "map r_ref rs"] by (simp add: mb_rep_def wf_book_def)
qed

lemma mb_require_eq:
  assumes "mb_placed b pos rs"
  shows "mb_require b ref what = (case nb_find rs ref of None \<Rightarrow> Inl (BookF what) | Some x \<Rightarrow> Inr (entry_of pos x))"
  using assms by (simp add: mb_require_def mb_find_def mb_placed_def split: option.split)

lemma find_append: "List.find P (xs @ ys) = (case List.find P xs of None \<Rightarrow> List.find P ys | Some x \<Rightarrow> Some x)"
  by (induction xs) auto

section \<open>Adding\<close>

lemma book_prices_add: "prices s (nb_add ref s' p q ow rs) = (if s = s' then insert p (prices s rs) else prices s rs)"
proof -
  have "prices t xs = r_price ` set (on_side t xs)" for t xs by (simp add: prices_def on_side_def)
  then show ?thesis by (simp add: on_side_add)
qed

lemma level_prices_add:
  "level_prices s (nb_add ref s' p q ow rs) = (if s = s' then insert_price s p (level_prices s rs) else level_prices s rs)"
  using level_prices_props(2) [of s rs] sorted_insert_price [OF level_prices_props(2) [of s rs], of p]
  by (intro level_prices_unique [symmetric]) (auto simp: book_prices_add)

lemma mb_insert_placed:
  assumes pl: "mb_placed b pos rs" and new: "ref \<notin> r_ref ` set rs"
  shows "mb_placed (mb_insert ref s p q ow b) (pos(ref := mb_next_node b)) (nb_add ref s p q ow rs)"
proof -
  define pos' where "pos' = pos(ref := mb_next_node b)"
  define rs' where "rs' = nb_add ref s p q ow rs"
  have same: "pos' r = pos r" if "r \<in> r_ref ` set rs" for r using that new by (auto simp: pos'_def)
  have refs: "r_ref ` set rs' = insert ref (r_ref ` set rs)" by (simp add: rs'_def nb_add_simps)
  have bound: "pos' r < mb_next_node b" if "r \<in> r_ref ` set rs" for r
  proof -
    have "pos r < mb_next_node b" using pl that unfolding mb_placed_def by blast
    then show ?thesis using same [OF that] by simp
  qed
  have "inj_on pos' (r_ref ` set rs)" using pl same inj_on_cong [of "r_ref ` set rs" pos' pos] by (simp add: mb_placed_def)
  moreover have "pos' ref \<notin> pos' ` (r_ref ` set rs)" using bound by (force simp: pos'_def)
  ultimately have "inj_on pos' (r_ref ` set rs')" using new unfolding refs by (simp add: inj_on_insert)
  moreover have "\<forall>r \<in> r_ref ` set rs'. pos' r < Suc (mb_next_node b)"
    using pl unfolding refs mb_placed_def pos'_def by (auto intro: less_SucI)
  moreover have "mb_sides (mb_insert ref s p q ow b) t = shaped (level_of pos' t rs') (level_prices t rs')" for t
  proof (cases "t = s")
    case False
    have "level_of pos' t rs' r = level_of pos t rs r" for r
      using False same queue_refs [of t r rs] by (intro level_of_cong) (auto simp: rs'_def queue_add)
    then show ?thesis
      using pl False by (simp add: mb_insert_def Let_def case_prod_beta mb_placed_def rs'_def level_prices_add shaped_def)
  next
    case True
    let ?ps = "level_prices s rs"
    let ?g = "if p \<in> set ?ps then level_of pos s rs else (level_of pos s rs)(p := \<lparr>ml_qty = 0, ml_fifo = []\<rparr>)"
    have te: "try_emplace s p (mb_sides b s) = (shaped ?g (insert_price s p ?ps), p \<notin> set ?ps)"
      using pl try_emplace_shaped [OF level_prices_props(2)] by (simp add: mb_placed_def)
    have gp: "?g p = level_of pos s rs p"
      using prices_queue [of p s rs] by (auto simp: level_of_def nb_qty_at_def)
    have other: "level_of pos' s rs' r = level_of pos s rs r" if "r \<noteq> p" for r
      using that same queue_refs [of s r rs] by (intro level_of_cong) (auto simp: rs'_def queue_add)
    have map_eq: "map (\<lambda>x. (pos (r_ref x), r_ref x)) (queue s p rs) = map (\<lambda>x. (pos' (r_ref x), r_ref x)) (queue s p rs)"
      using same queue_refs [of s p rs] by auto
    have here: "level_of pos' s rs' p = (level_of pos s rs p)
        \<lparr>ml_fifo := ml_fifo (level_of pos s rs p) @ [(mb_next_node b, ref)], ml_qty := ml_qty (level_of pos s rs p) + ucast q\<rparr>"
      by (simp add: level_of_def nb_qty_at_def rs'_def queue_add map_eq) (simp add: pos'_def)
    have "mb_sides (mb_insert ref s p q ow b) s = shaped (level_of pos' s rs') (insert_price s p ?ps)"
      unfolding mb_insert_def Let_def te
      using gp other here
      by (simp add: at_level_shaped) (rule shaped_cong, simp)
    then show ?thesis using True by (simp add: rs'_def level_prices_add)
  qed
  moreover have "map_of (mb_orders (mb_insert ref s p q ow b)) r = map_option (entry_of pos') (nb_find rs' r)" for r
  proof -
    have none: "map_of (mb_orders b) ref = None" using pl new nb_find_None [of rs ref] by (simp add: mb_placed_def)
    have find: "nb_find rs' r = (if r = ref then Some \<lparr>r_ref = ref, r_side = s, r_price = p, r_qty = q, r_owner = ow\<rparr> else nb_find rs r)"
    proof -
      have "List.find (\<lambda>x. r_ref x = ref) rs = None" using new nb_find_None [of rs ref] by (simp add: nb_find_def)
      then show ?thesis by (simp add: rs'_def nb_add_def nb_find_def find_append split: option.split)
    qed
    have "map_option (entry_of pos') (nb_find rs r) = map_option (entry_of pos) (nb_find rs r)" if "r \<noteq> ref"
    proof (cases "nb_find rs r")
      case (Some y)
      then have "r_ref y = r" by (auto simp: nb_find_def find_Some_iff)
      with that Some show ?thesis by (simp add: entry_of_def pos'_def)
    qed simp
    then show ?thesis
      using none find pl by (auto simp: mb_insert_def Let_def case_prod_beta mb_placed_def entry_of_def pos'_def)
  qed
  moreover have "mb_next_node (mb_insert ref s p q ow b) = Suc (mb_next_node b)"
    by (simp add: mb_insert_def Let_def case_prod_beta)
  ultimately show ?thesis by (simp add: mb_placed_def pos'_def rs'_def)
qed

section \<open>Reducing\<close>

lemma nb_find_take:
  assumes "wf_book rs" and "x \<in> set rs"
  shows "nb_find (nb_take (r_ref x) n rs) r = (if r = r_ref x then Some (x\<lparr>r_qty := r_qty x - n\<rparr>) else nb_find rs r)"
proof (rule split_at [OF assms, where n = n])
  fix xs ys
  assume rs: "rs = xs @ x # ys" "r_ref x \<notin> r_ref ` set xs" "r_ref x \<notin> r_ref ` set ys"
    "nb_take (r_ref x) n rs = xs @ x\<lparr>r_qty := r_qty x - n\<rparr> # ys"
  have "List.find (\<lambda>y. r_ref y = r_ref x) xs = None" using rs(2) nb_find_None [of xs "r_ref x"] by (simp add: nb_find_def)
  then show ?thesis unfolding nb_find_def rs(4) by (simp add: rs(1) find_append split: option.split)
qed

lemma nb_find_erase:
  assumes "wf_book rs" and "x \<in> set rs"
  shows "nb_find (nb_erase (r_ref x) rs) r = (if r = r_ref x then None else nb_find rs r)"
proof (rule split_at [OF assms, where n = 0])
  fix xs ys
  assume rs: "rs = xs @ x # ys" "r_ref x \<notin> r_ref ` set xs" "r_ref x \<notin> r_ref ` set ys" "nb_erase (r_ref x) rs = xs @ ys"
  have "List.find (\<lambda>y. r_ref y = r_ref x) xs = None" "List.find (\<lambda>y. r_ref y = r_ref x) ys = None"
    using rs(2,3) nb_find_None [of xs "r_ref x"] nb_find_None [of ys "r_ref x"] by (simp_all add: nb_find_def)
  then show ?thesis unfolding nb_find_def rs(4) by (simp add: rs(1) find_append split: option.split)
qed

lemma level_prices_take: "level_prices s (nb_take ref n rs) = level_prices s rs"
  using level_prices_props(2) [of s rs] by (intro level_prices_unique [symmetric]) (simp_all add: nb_take_fields)

lemma level_prices_erase:
  assumes "wf_book rs" and "x \<in> set rs"
  shows "level_prices s (nb_erase (r_ref x) rs) =
    (if s = r_side x \<and> queue s (r_price x) (nb_erase (r_ref x) rs) = [] then filter (\<lambda>q. q \<noteq> r_price x) (level_prices s rs)
     else level_prices s rs)"
  using level_prices_props(2) [of s rs] prices_erase [OF assms, of s]
  by (intro level_prices_unique [symmetric]) (auto simp: sorted_wrt_filter)

text \<open>A reduction that leaves something.\<close>

lemma mb_reduce_take:
  assumes pl: "mb_placed b pos rs" and wf: "wf_book rs" and x: "x \<in> set rs" and n: "n < r_qty x"
  shows "\<exists>b'. mb_reduce (entry_of pos x) (r_ref x) n b = Inr b' \<and> mb_placed b' pos (nb_take (r_ref x) n rs) \<and>
    map fst (mb_orders b') = map fst (mb_orders b) \<and>
    mb_total_qty b' = (mb_total_qty b)(r_side x := mb_total_qty b (r_side x) - ucast n) \<and>
    mb_level_count b' = mb_level_count b \<and> mb_order_count b' = mb_order_count b"
proof -
  let ?s = "r_side x" and ?p = "r_price x"
  define rs' where "rs' = nb_take (r_ref x) n rs"
  define e where "e = (entry_of pos x)\<lparr>me_qty := r_qty x - n\<rparr>"
  define lvl where "lvl = (level_of pos ?s rs ?p)\<lparr>ml_qty := nb_qty_at rs ?s ?p - ucast n\<rparr>"
  define b' where "b' = b\<lparr>mb_orders := AList.update (r_ref x) e (mb_orders b),
    mb_total_qty := (mb_total_qty b)(?s := mb_total_qty b ?s - ucast n),
    mb_sides := (mb_sides b)(?s := shaped ((level_of pos ?s rs)(?p := lvl)) (level_prices ?s rs))\<rparr>"
  have sides: "mb_sides b t = shaped (level_of pos t rs) (level_prices t rs)" for t
    using pl by (simp add: mb_placed_def)
  have p: "?p \<in> prices ?s rs" using x by (auto simp: prices_def)
  have nz: "r_qty x - n \<noteq> 0" using n by auto
  have run: "mb_reduce (entry_of pos x) (r_ref x) n b = Inr b'"
    using nz p by (simp add: mb_reduce_def reduce_level_def Let_def sides map_of_shaped at_level_shaped b'_def e_def lvl_def)
      (simp add: entry_of_def level_of_def sides map_of_shaped at_level_shaped)
  have lv: "level_of pos t rs' q = (if t = ?s \<and> q = ?p then lvl else level_of pos t rs q)" for t q
  proof (cases "t = ?s \<and> q = ?p")
    case True
    have "nb_qty_at rs' ?s ?p = nb_qty_at rs ?s ?p - ucast n"
      using qsum_take [OF wf_queue [OF wf] in_own_queue [OF x], of n] n by (simp add: nb_qty_at_def rs'_def queue_take)
    moreover have "map (\<lambda>y. (pos (r_ref y), r_ref y)) (queue ?s ?p rs') = map (\<lambda>y. (pos (r_ref y), r_ref y)) (queue ?s ?p rs)"
      by (simp add: rs'_def queue_take) (simp add: nb_take_def)
    ultimately show ?thesis using True by (simp add: level_of_def lvl_def)
  next
    case False
    then show ?thesis
      using queue_take_other [OF wf x, of t q n] by (auto intro!: level_of_cong simp: rs'_def)
  qed
  have "mb_sides b' t = shaped (level_of pos t rs') (level_prices t rs')" for t
    using sides [of t] by (auto simp: b'_def rs'_def level_prices_take lv [unfolded rs'_def] intro!: shaped_cong)
  moreover have "map_of (mb_orders b') r = map_option (entry_of pos) (nb_find rs' r)" for r
    using pl nb_find_take [OF wf x, of n r]
    by (auto simp: b'_def rs'_def update_conv mb_placed_def e_def entry_of_def)
  moreover have "r_ref ` set rs' = r_ref ` set rs" by (simp add: rs'_def nb_take_fields)
  ultimately have "mb_placed b' pos rs'" using pl by (simp add: mb_placed_def) (simp add: b'_def)
  moreover have "map fst (mb_orders b') = map fst (mb_orders b)"
  proof -
    have "nb_find rs (r_ref x) = Some x" using wf x by (simp add: nb_find_Some)
    then have "map_of (mb_orders b) (r_ref x) \<noteq> None" using pl by (simp add: mb_placed_def)
    then have "r_ref x \<in> set (map fst (mb_orders b))" by (simp add: map_of_eq_None_iff)
    then show ?thesis by (simp add: b'_def update_keys)
  qed
  ultimately show ?thesis using run by (simp add: rs'_def) (simp add: b'_def)
qed

text \<open>A reduction to nothing.\<close>

lemma at_level_again: "at_level p f (at_level p g m) = at_level p (\<lambda>v. f (g v)) m"
  by (induction m) (auto simp: at_level_def)

lemma reduce_level_zero:
  assumes "map_of (mb_sides b s) p = Some v" and "me_side e = s" "me_price e = p" "me_qty e = 0"
    and lvl: "lvl = \<lparr>ml_qty = ml_qty v - ucast shares, ml_fifo = filter (\<lambda>n. fst n \<noteq> me_pos e) (ml_fifo v)\<rparr>"
    and zero: "ml_fifo lvl = [] \<Longrightarrow> ml_qty lvl = 0"
  shows "reduce_level e ref shares b = Inr (b\<lparr>
    mb_sides := (mb_sides b)(s := (if ml_fifo lvl = [] then drop_level p (at_level p (\<lambda>_. lvl) (mb_sides b s)) else at_level p (\<lambda>_. lvl) (mb_sides b s))),
    mb_level_count := (if ml_fifo lvl = [] then (mb_level_count b)(s := mb_level_count b s - 1) else mb_level_count b),
    mb_order_count := mb_order_count b - 1, mb_orders := AList.delete ref (mb_orders b)\<rparr>)"
proof -
  have l: "v\<lparr>ml_qty := ml_qty v - ucast shares, ml_fifo := filter (\<lambda>n. fst n \<noteq> me_pos e) (ml_fifo v)\<rparr> = lvl"
    by (simp add: lvl)
  show ?thesis
  proof (cases "ml_fifo lvl = []")
    case True
    then have "filter (\<lambda>n. fst n \<noteq> me_pos e) (ml_fifo v) = []" "ml_qty v - ucast shares = 0" "ml_qty lvl = 0"
      using zero by (simp_all add: lvl)
    moreover from this l have l': "v\<lparr>ml_qty := 0, ml_fifo := []\<rparr> = lvl" by simp
    ultimately show ?thesis using assms(1-4) True by (simp add: reduce_level_def Let_def at_level_again l')
  next
    case False
    then have "filter (\<lambda>n. fst n \<noteq> me_pos e) (ml_fifo v) \<noteq> []" by (simp add: lvl)
    then show ?thesis using assms(1-4) False l by (simp add: reduce_level_def Let_def at_level_again)
  qed
qed

lemma mb_reduce_erase:
  assumes pl: "mb_placed b pos rs" and wf: "wf_book rs" and x: "x \<in> set rs"
  shows "\<exists>b'. mb_reduce (entry_of pos x) (r_ref x) (r_qty x) b = Inr b' \<and> mb_placed b' pos (nb_erase (r_ref x) rs) \<and>
    mb_orders b' = AList.delete (r_ref x) (mb_orders b) \<and>
    mb_total_qty b' = (mb_total_qty b)(r_side x := mb_total_qty b (r_side x) - ucast (r_qty x)) \<and>
    mb_level_count b' = (if queue (r_side x) (r_price x) (nb_erase (r_ref x) rs) = []
      then (mb_level_count b)(r_side x := mb_level_count b (r_side x) - 1) else mb_level_count b) \<and>
    mb_order_count b' = mb_order_count b - 1"
proof -
  let ?s = "r_side x" and ?p = "r_price x" and ?q = "queue (r_side x) (r_price x) (nb_erase (r_ref x) rs)"
  define rs' where "rs' = nb_erase (r_ref x) rs"
  define lvl where "lvl = level_of pos ?s rs' ?p"
  define b' where "b' = b\<lparr>mb_orders := AList.delete (r_ref x) (mb_orders b),
    mb_total_qty := (mb_total_qty b)(?s := mb_total_qty b ?s - ucast (r_qty x)),
    mb_sides := (mb_sides b)(?s := shaped ((level_of pos ?s rs)(?p := lvl)) (level_prices ?s rs')),
    mb_level_count := (if ?q = [] then (mb_level_count b)(?s := mb_level_count b ?s - 1) else mb_level_count b),
    mb_order_count := mb_order_count b - 1\<rparr>"
  have sides: "mb_sides b t = shaped (level_of pos t rs) (level_prices t rs)" for t
    using pl by (simp add: mb_placed_def)
  have p: "?p \<in> prices ?s rs" using x by (auto simp: prices_def)
  have "nb_qty_at rs' ?s ?p = nb_qty_at rs ?s ?p - ucast (r_qty x)"
    using qsum_erase [OF wf_queue [OF wf] in_own_queue [OF x]] by (simp add: nb_qty_at_def rs'_def queue_erase)
  moreover have "filter (\<lambda>n. fst n \<noteq> pos (r_ref x)) (map (\<lambda>y. (pos (r_ref y), r_ref y)) (queue ?s ?p rs)) =
      map (\<lambda>y. (pos (r_ref y), r_ref y)) (queue ?s ?p rs')"
  proof -
    have inj: "inj_on pos (r_ref ` set rs)" using pl by (simp add: mb_placed_def)
    have "pos (r_ref y) \<noteq> pos (r_ref x) \<longleftrightarrow> r_ref y \<noteq> r_ref x" if "y \<in> set (queue ?s ?p rs)" for y
      using that x inj_on_eq_iff [OF inj, of "r_ref y" "r_ref x"] by (auto simp: queue_def)
    then have "filter (\<lambda>y. pos (r_ref y) \<noteq> pos (r_ref x)) (queue ?s ?p rs) = filter (\<lambda>y. r_ref y \<noteq> r_ref x) (queue ?s ?p rs)"
      by (intro filter_cong) auto
    moreover have "queue ?s ?p rs' = filter (\<lambda>y. r_ref y \<noteq> r_ref x) (queue ?s ?p rs)"
      by (simp add: rs'_def queue_erase) (simp add: nb_erase_def)
    ultimately show ?thesis by (simp add: filter_map comp_def)
  qed
  ultimately have lq: "lvl = \<lparr>ml_qty = nb_qty_at rs ?s ?p - ucast (r_qty x),
      ml_fifo = filter (\<lambda>n. fst n \<noteq> pos (r_ref x)) (map (\<lambda>y. (pos (r_ref y), r_ref y)) (queue ?s ?p rs))\<rparr>"
    by (simp add: lvl_def level_of_def)
  have fifo: "ml_fifo lvl = [] \<longleftrightarrow> ?q = []" by (simp add: lvl_def level_of_def rs'_def)
  have zero: "ml_qty lvl = 0" if "?q = []" using that by (simp add: lvl_def level_of_def nb_qty_at_def rs'_def)
  have lp: "level_prices ?s rs' = (if ?q = [] then filter (\<lambda>q. q \<noteq> ?p) (level_prices ?s rs) else level_prices ?s rs)"
    using level_prices_erase [OF wf x, of ?s] by (simp add: rs'_def)
  have del: "AList.delete (r_ref x) (AList.update (r_ref x) e al) = AList.delete (r_ref x) al" for e and al :: "(order_ref \<times> map_entry) list"
    by (induction al) auto
  define e where "e = (entry_of pos x)\<lparr>me_qty := 0\<rparr>"
  define b1 where "b1 = b\<lparr>mb_orders := AList.update (r_ref x) e (mb_orders b),
    mb_total_qty := (mb_total_qty b)(?s := mb_total_qty b ?s - ucast (r_qty x))\<rparr>"
  have "mb_reduce (entry_of pos x) (r_ref x) (r_qty x) b = reduce_level e (r_ref x) (r_qty x) b1"
    by (simp add: mb_reduce_def e_def b1_def entry_of_def Let_def)
  also have "reduce_level e (r_ref x) (r_qty x) b1 = Inr b'"
  proof -
    have ef: "me_side e = ?s" "me_price e = ?p" "me_qty e = 0" "me_pos e = pos (r_ref x)" by (simp_all add: e_def entry_of_def)
    have v: "map_of (mb_sides b1 ?s) ?p = Some (level_of pos ?s rs ?p)"
      using p by (simp add: b1_def sides map_of_shaped)
    have lv: "lvl = \<lparr>ml_qty = ml_qty (level_of pos ?s rs ?p) - ucast (r_qty x),
        ml_fifo = filter (\<lambda>n. fst n \<noteq> me_pos e) (ml_fifo (level_of pos ?s rs ?p))\<rparr>"
      by (simp add: lq ef level_of_def)
    show ?thesis
      using fifo by (subst reduce_level_zero [OF v ef(1-3) lv])
        (auto simp: zero b1_def b'_def lp del sides at_level_shaped drop_level_shaped)
  qed
  finally have run: "mb_reduce (entry_of pos x) (r_ref x) (r_qty x) b = Inr b'" .
  have lv: "level_of pos t rs' q = (if t = ?s \<and> q = ?p then lvl else level_of pos t rs q)" for t q
    using queue_erase_other [OF wf x, of t q] by (auto intro!: level_of_cong simp: rs'_def lvl_def)
  have "mb_sides b' t = shaped (level_of pos t rs') (level_prices t rs')" for t
    using sides [of t] level_prices_erase [OF wf x, of t] lv by (auto simp: b'_def rs'_def [symmetric] intro!: shaped_cong)
  moreover have "map_of (mb_orders b') r = map_option (entry_of pos) (nb_find rs' r)" for r
    using pl nb_find_erase [OF wf x, of r] by (auto simp: b'_def rs'_def delete_conv mb_placed_def)
  moreover have sub: "r_ref ` set rs' \<subseteq> r_ref ` set rs" by (auto simp: rs'_def nb_erase_def)
  moreover have "inj_on pos (r_ref ` set rs')" using pl sub by (auto simp: mb_placed_def intro: inj_on_subset)
  moreover have "\<forall>ref \<in> r_ref ` set rs'. pos ref < mb_next_node b" using pl sub unfolding mb_placed_def by blast
  ultimately have "mb_placed b' pos rs'" unfolding mb_placed_def by (simp add: b'_def)
  then show ?thesis using run by (simp add: rs'_def) (simp add: b'_def)
qed

section \<open>The operations\<close>

definition map_limit :: "map_book \<Rightarrow> nat" where
  "map_limit b = 2 ^ 32 - 1"

lemma mb_add_law:
  assumes "mb_rep b rs" and "p \<noteq> kNoPrice" and "Suc (length rs) < 2 ^ 32"
  shows "rel_sum (=) mb_rep (mb_add ref s p q ow b) (sb_add ref s p q ow rs)"
proof -
  obtain pos where pl: "mb_placed b pos rs" using assms(1) by (auto simp: mb_rep_def)
  have find: "mb_find b ref = None \<longleftrightarrow> ref \<notin> r_ref ` set rs"
    using pl nb_find_None [of rs ref] by (simp add: mb_find_def mb_placed_def)
  show ?thesis
  proof (cases "q = 0 \<or> ref \<in> r_ref ` set rs")
    case True
    then show ?thesis using find by (auto simp: mb_add_def sb_add_def nb_contains_iff word_gt_0)
  next
    case False
    then have new: "ref \<notin> r_ref ` set rs" "q \<noteq> 0" by auto
    let ?b = "mb_insert ref s p q ow b" and ?rs = "nb_add ref s p q ow rs"
    have none: "map_of (mb_orders b) ref = None" using find new(1) by (simp add: mb_find_def)
    have te: "snd (try_emplace s p (mb_sides b s)) \<longleftrightarrow> p \<notin> prices s rs"
      using pl try_emplace_shaped [OF level_prices_props(2) [of s rs]] by (simp add: mb_placed_def)
    have "wf_book ?rs" using assms(1) new by (simp add: mb_rep_def wf_nb_add)
    moreover have "\<exists>pos. mb_placed ?b pos ?rs" using mb_insert_placed [OF pl new(1)] by blast
    moreover have "distinct (map fst (mb_orders ?b))"
      using assms(1) none by (simp add: mb_insert_def Let_def case_prod_beta mb_rep_def map_of_eq_None_iff)
    moreover have "mb_total_qty ?b = nb_total_qty ?rs"
      using assms(1) by (auto simp: mb_insert_def Let_def case_prod_beta mb_rep_def nb_total_qty_def on_side_add fun_eq_iff)
    moreover have "mb_level_count ?b = nb_level_count ?rs"
      using assms(1) te
      by (auto simp: mb_insert_def Let_def case_prod_beta mb_rep_def nb_level_count_def book_prices_add fun_eq_iff insert_absorb)
    moreover have "mb_order_count ?b = of_nat (length ?rs)"
      using assms(1) by (simp add: mb_insert_def Let_def case_prod_beta mb_rep_def nb_add_def)
    ultimately have "mb_rep ?b ?rs" using assms by (simp add: mb_rep_def nb_add_simps)
    then show ?thesis using new find by (simp add: mb_add_def sb_add_def nb_contains_iff word_gt_0)
  qed
qed

lemma mb_reduce_law:
  assumes "mb_rep b rs" and pl: "mb_placed b pos rs" and x: "x \<in> set rs" and n: "n \<le> r_qty x"
  shows "\<exists>b'. mb_reduce (entry_of pos x) (r_ref x) n b = Inr b' \<and> mb_rep b' (nb_cancel (r_ref x) n rs)"
proof (cases "n = r_qty x")
  case True
  have wf: "wf_book rs" using assms(1) by (simp add: mb_rep_def)
  have rs': "nb_cancel (r_ref x) n rs = nb_erase (r_ref x) rs" using nb_cancel_cases [OF wf x refl] True by simp
  obtain b' where b': "mb_reduce (entry_of pos x) (r_ref x) n b = Inr b'" "mb_placed b' pos (nb_erase (r_ref x) rs)"
    "mb_orders b' = AList.delete (r_ref x) (mb_orders b)"
    "mb_total_qty b' = (mb_total_qty b)(r_side x := mb_total_qty b (r_side x) - ucast (r_qty x))"
    "mb_level_count b' = (if queue (r_side x) (r_price x) (nb_erase (r_ref x) rs) = []
      then (mb_level_count b)(r_side x := mb_level_count b (r_side x) - 1) else mb_level_count b)"
    "mb_order_count b' = mb_order_count b - 1"
    using mb_reduce_erase [OF pl wf x] True by blast
  have len: "Suc (length (nb_erase (r_ref x) rs)) = length rs" by (rule length_nb_erase [OF wf x])
  moreover have "(of_nat (length rs) - 1 :: u32) = of_nat (length (nb_erase (r_ref x) rs))" unfolding len [symmetric] by simp
  moreover have "\<forall>y \<in> set (nb_erase (r_ref x) rs). r_price y \<noteq> kNoPrice" using assms(1) by (auto simp: mb_rep_def nb_erase_def)
  ultimately have "mb_rep b' (nb_erase (r_ref x) rs)"
    using b'(2-6) assms(1) wf_nb_erase [OF wf] total_erase [OF wf x] level_count_erase [OF wf x]
    unfolding mb_rep_def by (auto simp: distinct_delete)
  then show ?thesis using b'(1) rs' by simp
next
  case False
  then have n': "n < r_qty x" using n by simp
  have wf: "wf_book rs" using assms(1) by (simp add: mb_rep_def)
  have rs': "nb_cancel (r_ref x) n rs = nb_take (r_ref x) n rs" using nb_cancel_cases [OF wf x refl] False by auto
  obtain b' where b': "mb_reduce (entry_of pos x) (r_ref x) n b = Inr b'" "mb_placed b' pos (nb_take (r_ref x) n rs)"
    "map fst (mb_orders b') = map fst (mb_orders b)"
    "mb_total_qty b' = (mb_total_qty b)(r_side x := mb_total_qty b (r_side x) - ucast n)"
    "mb_level_count b' = mb_level_count b" "mb_order_count b' = mb_order_count b"
    using mb_reduce_take [OF pl wf x n'] by blast
  have "wf_book (nb_take (r_ref x) n rs)" using wf_nb_cancel [OF wf x refl, of n] rs' by simp
  moreover have "\<forall>y \<in> set (nb_take (r_ref x) n rs). r_price y \<noteq> kNoPrice" using assms(1) by (auto simp: mb_rep_def nb_take_def)
  moreover have "nb_level_count (nb_take (r_ref x) n rs) = nb_level_count rs" by (simp add: nb_level_count_def [abs_def] nb_take_fields)
  ultimately have "mb_rep b' (nb_take (r_ref x) n rs)"
    using b'(2-6) assms(1) total_take [OF wf x n] unfolding mb_rep_def by auto
  then show ?thesis using b'(1) rs' by simp
qed

text \<open>The three reductions, each with its refusals.\<close>

lemma mb_require_cases:
  assumes "mb_rep b rs"
  obtains (missing) "mb_require b ref what = Inl (BookF what)" "sb_require rs ref what = Inl (BookF what)"
  | (resting) pos x where "mb_placed b pos rs" "x \<in> set rs" "r_ref x = ref" "sb_require rs ref what = Inr x"
      "mb_require b ref what = Inr (entry_of pos x)"
proof -
  obtain pos where pl: "mb_placed b pos rs" using assms by (auto simp: mb_rep_def)
  have wf: "wf_book rs" using assms by (simp add: mb_rep_def)
  show thesis
  proof (cases "nb_find rs ref")
    case None
    then show thesis using missing mb_require_eq [OF pl, of ref what] by (simp add: sb_require_def)
  next
    case (Some x)
    then show thesis
      using resting [OF pl, of x] mb_require_eq [OF pl, of ref what] nb_find_Some [OF wf, of ref x]
      by (simp add: sb_require_def)
  qed
qed

lemma mb_cancel_law:
  assumes "mb_rep b rs" shows "rel_sum (=) mb_rep (mb_cancel ref n b) (sb_cancel ref n rs)"
  using assms
proof (cases rule: mb_require_cases [where ref = ref and what = CancelMissing])
  case (resting pos x)
  then show ?thesis
    using mb_reduce_law [OF assms resting(1,2), of n]
    by (cases "n \<le> r_qty x") (auto simp: mb_cancel_def sb_cancel_def entry_of_def)
qed (simp add: mb_cancel_def sb_cancel_def)

lemma mb_execute_law:
  assumes "mb_rep b rs"
  shows "rel_sum (=) (\<lambda>(b', m') (rs', m). mb_rep b' rs' \<and> m' = m) (mb_execute ref n b) (sb_execute ref n rs)"
  using assms
proof (cases rule: mb_require_cases [where ref = ref and what = ExecuteMissing])
  case (resting pos x)
  then show ?thesis
    using mb_reduce_law [OF assms resting(1,2), of n]
    by (cases "n \<le> r_qty x") (auto simp: mb_execute_def sb_execute_def entry_of_def)
qed (simp add: mb_execute_def sb_execute_def)

lemma mb_remove_law:
  assumes "mb_rep b rs" shows "rel_sum (=) mb_rep (mb_remove ref b) (sb_remove ref rs)"
  using assms
proof (cases rule: mb_require_cases [where ref = ref and what = DeleteMissing])
  case (resting pos x)
  have "wf_book rs" using assms by (simp add: mb_rep_def)
  then have "nb_cancel ref (r_qty x) rs = nb_erase ref rs" using nb_cancel_cases resting(2,3) by simp
  then show ?thesis
    using mb_reduce_law [OF assms resting(1,2), of "r_qty x"] resting by (auto simp: mb_remove_def sb_remove_def entry_of_def)
qed (simp add: mb_remove_def sb_remove_def)

lemma mb_replace_law:
  assumes "mb_rep b rs" and "p \<noteq> kNoPrice"
  shows "rel_sum (=) mb_rep (mb_replace old new p q b) (sb_replace old new p q rs)"
  using assms(1)
proof (cases rule: mb_require_cases [where ref = old and what = ReplaceMissing])
  case (resting pos x)
  have wf: "wf_book rs" and small: "length rs < 2 ^ 32" using assms by (simp_all add: mb_rep_def)
  have "sb_remove old rs = Inr (nb_erase old rs)"
    using resting(2,3) wf by (auto simp: sb_remove_def sb_require_def nb_find_Some split: option.splits simp: nb_find_None)
  then obtain b' where b': "mb_remove old b = Inr b'" "mb_rep b' (nb_erase old rs)"
    using mb_remove_law [OF assms(1), of old] by (cases "mb_remove old b") auto
  have "Suc (length (nb_erase old rs)) < 2 ^ 32" using length_nb_erase [OF wf resting(2)] resting(3) small by simp
  from mb_add_law [OF b'(2) assms(2) this] show ?thesis
    using resting b'(1) by (simp add: mb_replace_def sb_replace_def entry_of_def)
qed (simp add: mb_replace_def sb_replace_def)

section \<open>Queries and validation\<close>

lemma mb_levels_eq:
  assumes "mb_rep b rs" shows "mb_levels b s = sb_levels rs s"
proof -
  obtain pos where "mb_placed b pos rs" using assms by (auto simp: mb_rep_def)
  then show ?thesis
    by (simp add: mb_levels_def mb_placed_def shaped_def level_of_def sb_levels_def nb_levels_def nb_orders_at_def comp_def)
qed

lemma mb_level_lookup:
  assumes "mb_placed b pos rs"
  shows "map_of (mb_sides b s) p = (if p \<in> prices s rs then Some (level_of pos s rs p) else None)"
  using assms by (simp add: mb_placed_def map_of_shaped)

lemma mb_at_eq:
  assumes "mb_rep b rs"
  shows "mb_qty_at b s p = nb_qty_at rs s p" and "mb_orders_at b s p = nb_orders_at rs s p" and "mb_front_at b s p = sb_front_at rs s p"
proof -
  obtain pos where "mb_placed b pos rs" using assms by (auto simp: mb_rep_def)
  then have l: "map_of (mb_sides b s) p = (if p \<in> prices s rs then Some (level_of pos s rs p) else None)"
    by (rule mb_level_lookup)
  have e: "queue s p rs = []" if "p \<notin> prices s rs" using that by (simp add: prices_queue)
  show "mb_qty_at b s p = nb_qty_at rs s p"
    using e by (simp add: mb_qty_at_def l level_of_def nb_qty_at_def)
  show "mb_orders_at b s p = nb_orders_at rs s p"
    using e by (simp add: mb_orders_at_def l level_of_def nb_orders_at_def)
  show "mb_front_at b s p = sb_front_at rs s p"
    using e by (auto simp: mb_front_at_def l level_of_def sb_front_at_def hd_map split: list.splits)
qed

lemma mb_best_eq:
  assumes "mb_rep b rs" shows "mb_empty b s = nb_empty rs s" and "mb_best b s = nb_best rs s"
proof -
  have n: "mb_sides b s = [] \<longleftrightarrow> level_prices s rs = []" and h: "level_prices s rs \<noteq> [] \<Longrightarrow> fst (hd (mb_sides b s)) = hd (level_prices s rs)"
    using assms by (auto simp: mb_rep_def mb_placed_def shaped_def hd_map)
  have e: "level_prices s rs = [] \<longleftrightarrow> nb_empty rs s"
    using set_level_prices [of s rs] prices_empty [of s rs] by (metis set_empty)
  then show "mb_empty b s = nb_empty rs s" by (simp add: mb_empty_def n)
  show "mb_best b s = nb_best rs s"
  proof (cases "nb_empty rs s")
    case True
    then show ?thesis using e n nb_best_is_best [of rs s] by (simp add: mb_best_def)
  next
    case False
    then obtain p ps where ps: "level_prices s rs = p # ps" using e by (cases "level_prices s rs") auto
    have "is_best s (set (p # ps)) p"
      using level_prices_props(2) [of s rs] closer_asym unfolding ps by (auto simp: is_best_def)
    then have "nb_best rs s = p" using nb_best_unique set_level_prices [of s rs] ps by metis
    then show ?thesis using ps n h by (simp add: mb_best_def)
  qed
qed

lemma mb_field_eq:
  assumes "mb_rep b rs"
  shows "mb_contains b ref = nb_contains rs ref"
    and "mb_side_of b ref = bo_side_of naive_ops rs ref" and "mb_price_of b ref = bo_price_of naive_ops rs ref"
    and "mb_qty_of b ref = bo_qty_of naive_ops rs ref" and "mb_owner_of b ref = bo_owner_of naive_ops rs ref"
proof -
  obtain pos where pl: "mb_placed b pos rs" using assms by (auto simp: mb_rep_def)
  show "mb_contains b ref = nb_contains rs ref"
    using pl nb_find_None [of rs ref] by (simp add: mb_contains_def mb_find_def mb_placed_def nb_contains_iff)
  show "mb_side_of b ref = bo_side_of naive_ops rs ref" "mb_price_of b ref = bo_price_of naive_ops rs ref"
    "mb_qty_of b ref = bo_qty_of naive_ops rs ref" "mb_owner_of b ref = bo_owner_of naive_ops rs ref"
    using mb_require_eq [OF pl, of ref QueryMissing]
    by (auto simp: mb_side_of_def mb_price_of_def mb_qty_of_def mb_owner_of_def sb_require_def entry_of_def split: option.split)
qed

lemma mb_check_fifo_ok:
  assumes pl: "mb_placed b pos rs" and wf: "wf_book rs" and "set xs \<subseteq> set (queue s p rs)"
  shows "mb_check_fifo b s p (map r_ref xs) acc = Inr (acc + qsum xs)"
  using assms(3)
proof (induction xs arbitrary: acc)
  case (Cons x xs)
  then have x: "x \<in> set rs" "r_side x = s" "r_price x = p" by (auto simp: queue_def)
  have "mb_require b (r_ref x) QueuedUnknown = Inr (entry_of pos x)"
    using mb_require_eq [OF pl] nb_find_Some [OF wf, of "r_ref x" x] x(1) by simp
  moreover have "0 < r_qty x" using wf x(1) by (auto simp: wf_book_def word_gt_0)
  ultimately show ?case using Cons x by (simp add: entry_of_def add.assoc)
qed simp

lemma distinct_level_prices: "distinct (level_prices s rs)"
proof -
  have "distinct xs" if "sorted_wrt (closer s) xs" for xs using that by (induction xs) auto
  then show ?thesis using level_prices_props(2) by blast
qed

lemma queue_split_sum:
  "sum_list (map (\<lambda>p. nb_qty_at rs s p) (level_prices s rs)) = nb_total_qty rs s"
  "sum_list (map (\<lambda>p. length (queue s p rs)) (level_prices s rs)) = length (on_side s rs)"
proof -
  have d: "distinct (level_prices s rs)" by (rule distinct_level_prices)
  have gen: "sum_list (map (\<lambda>p. sum_list (map f (filter (\<lambda>x. r_price x = p) xs))) ps) = sum_list (map f xs)"
    if "distinct ps" "r_price ` set xs \<subseteq> set ps" for ps xs and f :: "resting \<Rightarrow> 'a::comm_monoid_add"
    using that
  proof (induction xs)
    case (Cons x xs)
    have "sum_list (map (\<lambda>p. sum_list (map f (filter (\<lambda>y. r_price y = p) (x # xs)))) ps) =
        sum_list (map (\<lambda>p. (if p = r_price x then f x else 0) + sum_list (map f (filter (\<lambda>y. r_price y = p) xs))) ps)"
      by (intro arg_cong [of _ _ sum_list] map_cong) auto
    also have "\<dots> = f x + sum_list (map f xs)"
      using Cons by (simp add: sum_list_addf sum_list_distinct_conv_sum_set sum.delta)
    finally show ?case by simp
  qed simp
  have q: "queue s p rs = filter (\<lambda>x. r_price x = p) (on_side s rs)" for p
    by (simp add: queue_def on_side_def conj_commute)
  have sub: "r_price ` set (on_side s rs) \<subseteq> set (level_prices s rs)" by (auto simp: prices_def on_side_def)
  show "sum_list (map (\<lambda>p. nb_qty_at rs s p) (level_prices s rs)) = nb_total_qty rs s"
    using gen [OF d sub, of "\<lambda>x. ucast (r_qty x)"] by (simp add: nb_qty_at_def nb_total_qty_def qsum_def q)
  show "sum_list (map (\<lambda>p. length (queue s p rs)) (level_prices s rs)) = length (on_side s rs)"
    using gen [OF d sub, of "\<lambda>x. 1 :: nat"] by (simp add: q sum_list_triv)
qed

lemma mb_check_levels_ok:
  assumes rep: "mb_rep b rs" and "sorted_wrt (closer s) ps" and "\<And>q. prev = Some q \<Longrightarrow> \<forall>p \<in> set ps. closer s q p"
    and "set ps \<subseteq> prices s rs"
  shows "mb_check_levels b s prev (map (\<lambda>p. (p, nb_qty_at rs s p, nb_orders_at rs s p, map r_ref (queue s p rs))) ps) qty levels tot =
    Inr (qty + sum_list (map (\<lambda>p. nb_qty_at rs s p) ps), levels + of_nat (length ps), tot + sum_list (map (\<lambda>p. length (queue s p rs)) ps))"
  using assms(2-4)
proof (induction ps arbitrary: prev qty levels tot)
  case (Cons p ps)
  obtain pos where pl: "mb_placed b pos rs" using rep by (auto simp: mb_rep_def)
  have wf: "wf_book rs" and small: "length rs < 2 ^ 32" using rep by (simp_all add: mb_rep_def)
  have "length (queue s p rs) \<le> length rs" by (simp add: queue_def)
  then have n: "unat (nb_orders_at rs s p) = length (queue s p rs)"
    using small by (simp add: nb_orders_at_def unsigned_of_nat take_bit_nat_eq_self)
  have ne: "queue s p rs \<noteq> []" using Cons.prems(3) by (simp add: prices_queue subset_iff)
  have pos: "0 < nb_orders_at rs s p" using n ne by (simp add: word_less_nat_alt)
  have ord: "case prev of None \<Rightarrow> True | Some pv \<Rightarrow> if s = Buy then p < pv else pv < p"
    using Cons.prems(2) by (cases prev; cases s) auto
  have fifo: "mb_check_fifo b s p (map r_ref (queue s p rs)) 0 = Inr (nb_qty_at rs s p)"
    using mb_check_fifo_ok [OF pl wf, of "queue s p rs" s p 0] by (simp add: nb_qty_at_def)
  have "mb_check_levels b s (Some p) (map (\<lambda>p. (p, nb_qty_at rs s p, nb_orders_at rs s p, map r_ref (queue s p rs))) ps)
      (qty + nb_qty_at rs s p) (levels + 1) (tot + unat (nb_orders_at rs s p)) =
    Inr (qty + nb_qty_at rs s p + sum_list (map (\<lambda>p. nb_qty_at rs s p) ps), levels + 1 + of_nat (length ps),
      tot + unat (nb_orders_at rs s p) + sum_list (map (\<lambda>p. length (queue s p rs)) ps))"
    using Cons.prems by (intro Cons.IH) auto
  then show ?case using pos ord fifo n by (simp add: algebra_simps)
qed simp

lemma mb_validate_ok:
  assumes "mb_rep b rs" shows "mb_validate b = Inr ()"
proof -
  have side: "mb_check_levels b s None (mb_levels b s) 0 0 tot = Inr (nb_total_qty rs s, nb_level_count rs s, tot + length (on_side s rs))" for s tot
  proof -
    have lv: "mb_levels b s = map (\<lambda>p. (p, nb_qty_at rs s p, nb_orders_at rs s p, map r_ref (queue s p rs))) (level_prices s rs)"
      using mb_levels_eq [OF assms, of s] by (simp add: sb_levels_def nb_levels_def)
    have d: "distinct (level_prices s rs)" by (rule distinct_level_prices)
    have "card (prices s rs) = length (level_prices s rs)" using distinct_card [OF d] by simp
    then show ?thesis
      using mb_check_levels_ok [OF assms level_prices_props(2) [of s rs], of None 0 0 tot]
      by (simp add: lv queue_split_sum nb_level_count_def)
  qed
  have len: "length (on_side Buy rs) + length (on_side Sell rs) = length rs"
    unfolding on_side_def by (induction rs) (auto split: side.splits, metis side.exhaust)
  have "unat (mb_order_count b) = length rs"
    using assms by (simp add: mb_rep_def unsigned_of_nat take_bit_nat_eq_self)
  then show ?thesis
    using assms side len orders_length [OF assms] by (simp add: mb_validate_def mb_rep_def)
qed

interpretation mapb: order_book map_ops mb_rep map_limit "\<lambda>p. p \<noteq> kNoPrice"
proof
  fix b rs
  assume rep: "mb_rep b rs"
  have keep: "rel_sum (=) (\<lambda>b' rs'. mb_rep b' rs' \<and> map_limit b' = map_limit b) x y" if "rel_sum (=) mb_rep x y" for x y
    by (rule rel_sum_strengthen [OF that]) (simp add: map_limit_def)
  show "wf_book rs" "length rs < 2 ^ 32" "\<And>x. x \<in> set rs \<Longrightarrow> r_price x \<noteq> kNoPrice" using rep by (simp_all add: mb_rep_def)
  show "p \<noteq> kNoPrice \<Longrightarrow> length rs < map_limit b \<Longrightarrow>
      rel_sum (=) (\<lambda>b' rs'. mb_rep b' rs' \<and> map_limit b' = map_limit b) (bo_add map_ops ref s p q ow b) (sb_add ref s p q ow rs)"
    for ref s p q ow using mb_add_law [OF rep] by (auto simp: map_ops_def map_limit_def intro!: keep)
  show "rel_sum (=) (\<lambda>b' rs'. mb_rep b' rs' \<and> map_limit b' = map_limit b) (bo_cancel map_ops ref n b) (sb_cancel ref n rs)"
    "rel_sum (=) (\<lambda>b' rs'. mb_rep b' rs' \<and> map_limit b' = map_limit b) (bo_remove map_ops ref b) (sb_remove ref rs)" for ref n
    using mb_cancel_law [OF rep] mb_remove_law [OF rep] by (auto simp: map_ops_def intro!: keep)
  show "rel_sum (=) (\<lambda>(b', m') (rs', m). mb_rep b' rs' \<and> map_limit b' = map_limit b \<and> m' = m) (bo_execute map_ops ref n b) (sb_execute ref n rs)" for ref n
  proof -
    have "rel_sum (=) (\<lambda>(b', m') (rs', m). mb_rep b' rs' \<and> map_limit b' = map_limit b \<and> m' = m) (mb_execute ref n b) (sb_execute ref n rs)"
      by (rule rel_sum_strengthen [OF mb_execute_law [OF rep]]) (auto simp: map_limit_def)
    then show ?thesis by (simp add: map_ops_def)
  qed
  show "p \<noteq> kNoPrice \<Longrightarrow> length rs \<le> map_limit b \<Longrightarrow>
      rel_sum (=) (\<lambda>b' rs'. mb_rep b' rs' \<and> map_limit b' = map_limit b) (bo_replace map_ops old new p q b) (sb_replace old new p q rs)"
    for old new p q using mb_replace_law [OF rep] by (auto simp: map_ops_def intro!: keep)
  show "bo_empty map_ops b = nb_empty rs" "bo_best map_ops b = nb_best rs"
    using mb_best_eq [OF rep] by (auto simp: map_ops_def)
  show "bo_qty_at map_ops b s p = Inr (nb_qty_at rs s p)" "bo_orders_at map_ops b s p = Inr (nb_orders_at rs s p)"
    "bo_front_at map_ops b s p = Inr (sb_front_at rs s p)" for s p
    using mb_at_eq [OF rep] by (simp_all add: map_ops_def)
  show "bo_total_qty map_ops b = nb_total_qty rs" "bo_level_count map_ops b = nb_level_count rs"
    "bo_order_count map_ops b = of_nat (length rs)" "bo_count map_ops b = length rs"
    using rep orders_length [OF rep] by (simp_all add: map_ops_def mb_rep_def mb_count_def)
  show "bo_contains map_ops b ref = Inr (nb_contains rs ref)" "bo_side_of map_ops b ref = bo_side_of naive_ops rs ref"
    "bo_price_of map_ops b ref = bo_price_of naive_ops rs ref" "bo_qty_of map_ops b ref = bo_qty_of naive_ops rs ref"
    "bo_owner_of map_ops b ref = bo_owner_of naive_ops rs ref" for ref
    using mb_field_eq [OF rep, of ref] by (simp_all add: map_ops_def del: naive_ops_simps)
  show "bo_levels map_ops b s = Inr (sb_levels rs s)" for s using mb_levels_eq [OF rep] by (simp add: map_ops_def)
  show "bo_validate map_ops b = Inr ()" using mb_validate_ok [OF rep] by (simp add: map_ops_def)
qed simp

end
