(* ===== verification/Book_Builder.thy ===== *)
theory Book_Builder
  imports Book_Spec Views
begin

text \<open>
  include/itch/replay/book_builder.hpp: \<open>BookBuilder\<close>, which drives an order book from the
  messages of one symbol, over any order book and any observer. The book and the observer,
  a reference and a member of the class, are fields of the state. A handler of a message is
  a step of the state that may stop at an assertion of the book, of the observer or its own.
\<close>

section \<open>Observers\<close>

record ('b, 'o) observer_ops =
  ob_before_add :: "'b \<Rightarrow> side \<Rightarrow> price \<Rightarrow> qty \<Rightarrow> 'o \<Rightarrow> failure + 'o"
  ob_note_reduction :: "side \<Rightarrow> qty \<Rightarrow> 'o \<Rightarrow> failure + 'o"
  ob_after_apply :: "'b \<Rightarrow> timestamp \<Rightarrow> 'o \<Rightarrow> failure + 'o"

definition null_observer :: "('b, unit) observer_ops" where
  "null_observer = \<lparr>ob_before_add = (\<lambda>b s p q o'. Inr o'), ob_note_reduction = (\<lambda>s q o'. Inr o'),
     ob_after_apply = (\<lambda>b ts o'. Inr o')\<rparr>"

section \<open>State\<close>

record builder_stats =
  bs_messages :: u64
  bs_applied :: u64
  bs_adds :: u64
  bs_executions :: u64
  bs_cancels :: u64
  bs_deletes :: u64
  bs_replaces :: u64
  bs_executed_shares :: u64
  bs_trades_ignored :: u64
  bs_crosses_ignored :: u64
  bs_first_ts :: timestamp
  bs_last_ts :: timestamp

record ('b, 'o) builder =
  bb_book :: 'b
  bb_symbol :: string
  bb_observer :: 'o
  bb_locate :: u16
  bb_resolved :: bool
  bb_stats :: builder_stats

definition builder_new :: "'b \<Rightarrow> string \<Rightarrow> 'o \<Rightarrow> ('b, 'o) builder" where
  "builder_new book symbol observer =
     \<lparr>bb_book = book, bb_symbol = symbol, bb_observer = observer, bb_locate = 0, bb_resolved = False,
      bb_stats = \<lparr>bs_messages = 0, bs_applied = 0, bs_adds = 0, bs_executions = 0, bs_cancels = 0, bs_deletes = 0,
        bs_replaces = 0, bs_executed_shares = 0, bs_trades_ignored = 0, bs_crosses_ignored = 0,
        bs_first_ts = 0, bs_last_ts = 0\<rparr>\<rparr>"

definition count_stat :: "(builder_stats \<Rightarrow> builder_stats) \<Rightarrow> ('b, 'o) builder \<Rightarrow> ('b, 'o) builder" where
  "count_stat f b = b\<lparr>bb_stats := f (bb_stats b)\<rparr>"

definition seen :: "timestamp \<Rightarrow> ('b, 'o) builder \<Rightarrow> ('b, 'o) builder" where
  "seen ts = count_stat (\<lambda>st.
     let st = (if bs_messages st = 0 then st\<lparr>bs_first_ts := ts\<rparr> else st) in
     st\<lparr>bs_last_ts := ts, bs_messages := bs_messages st + 1\<rparr>)"

definition mine :: "u16 \<Rightarrow> ('b, 'o) builder \<Rightarrow> bool" where
  "mine locate b \<longleftrightarrow> bb_resolved b \<and> locate = bb_locate b"

definition observe :: "('o \<Rightarrow> failure + 'o) \<Rightarrow> ('b, 'o) builder \<Rightarrow> failure + ('b, 'o) builder" where
  "observe hook b = andthen (hook (bb_observer b)) (\<lambda>o'. Inr (b\<lparr>bb_observer := o'\<rparr>))"

section \<open>Reference data\<close>

definition stock_directory :: "StockDirectory_view \<Rightarrow> ('b, 'o) builder \<Rightarrow> failure + ('b, 'o) builder" where
  "stock_directory v b =
     (let b = seen (StockDirectory_timestamp v) b in
      if bb_resolved b then Inr b
      else
        let sym = trim_alpha (StockDirectory_stock v) in
        if bb_symbol b = [] \<or> sym = bb_symbol b then
          Inr (b\<lparr>bb_symbol := sym, bb_locate := StockDirectory_stock_locate v, bb_resolved := True\<rparr>)
        else Inr b)"

section \<open>Book messages\<close>

definition do_add :: "'b book_ops \<Rightarrow> ('b, 'o) observer_ops \<Rightarrow> order_ref \<Rightarrow> char \<Rightarrow> price \<Rightarrow> qty \<Rightarrow> timestamp \<Rightarrow>
    ('b, 'o) builder \<Rightarrow> failure + ('b, 'o) builder" where
  "do_add ops obs ref indicator price shares ts b =
     andthen (ensure (indicator = CHR ''B'' \<or> indicator = CHR ''S'') (ReplayF BadIndicator)) (\<lambda>_.
     let side = (if indicator = CHR ''B'' then Buy else Sell) in
     andthen (observe (ob_before_add obs (bb_book b) side price shares) b) (\<lambda>b.
     andthen (bo_add ops ref side price shares 0 (bb_book b)) (\<lambda>book.
     let b = count_stat (\<lambda>st. st\<lparr>bs_adds := bs_adds st + 1, bs_applied := bs_applied st + 1\<rparr>) (b\<lparr>bb_book := book\<rparr>) in
     observe (ob_after_apply obs (bb_book b) ts) b)))"

definition add_order :: "'b book_ops \<Rightarrow> ('b, 'o) observer_ops \<Rightarrow> AddOrder_view \<Rightarrow> ('b, 'o) builder \<Rightarrow>
    failure + ('b, 'o) builder" where
  "add_order ops obs v b =
     (let b = seen (AddOrder_timestamp v) b in
      if \<not> mine (AddOrder_stock_locate v) b then Inr b
      else do_add ops obs (AddOrder_order_reference_number v) (AddOrder_buy_sell_indicator v) (AddOrder_price v)
             (AddOrder_shares v) (AddOrder_timestamp v) b)"

definition add_order_with_mpid :: "'b book_ops \<Rightarrow> ('b, 'o) observer_ops \<Rightarrow> AddOrderWithMpid_view \<Rightarrow> ('b, 'o) builder \<Rightarrow>
    failure + ('b, 'o) builder" where
  "add_order_with_mpid ops obs v b =
     (let b = seen (AddOrderWithMpid_timestamp v) b in
      if \<not> mine (AddOrderWithMpid_stock_locate v) b then Inr b
      else do_add ops obs (AddOrderWithMpid_order_reference_number v) (AddOrderWithMpid_buy_sell_indicator v)
             (AddOrderWithMpid_price v) (AddOrderWithMpid_shares v) (AddOrderWithMpid_timestamp v) b)"

text \<open>What both execution messages do to the book, and what the other messages do when they are of the symbol.\<close>

definition do_execute :: "'b book_ops \<Rightarrow> ('b, 'o) observer_ops \<Rightarrow> order_ref \<Rightarrow> qty \<Rightarrow> timestamp \<Rightarrow>
    ('b, 'o) builder \<Rightarrow> failure + ('b, 'o) builder" where
  "do_execute ops obs ref shares ts b =
     andthen (bo_side_of ops (bb_book b) ref) (\<lambda>side.
     andthen (observe (ob_note_reduction obs side shares) b) (\<lambda>b.
     andthen (bo_execute ops ref shares (bb_book b)) (\<lambda>(book, _).
     let b = count_stat (\<lambda>st. st\<lparr>bs_executions := bs_executions st + 1,
               bs_executed_shares := bs_executed_shares st + ucast shares, bs_applied := bs_applied st + 1\<rparr>)
               (b\<lparr>bb_book := book\<rparr>) in
     observe (ob_after_apply obs (bb_book b) ts) b)))"

definition order_executed :: "'b book_ops \<Rightarrow> ('b, 'o) observer_ops \<Rightarrow> OrderExecuted_view \<Rightarrow> ('b, 'o) builder \<Rightarrow>
    failure + ('b, 'o) builder" where
  "order_executed ops obs v b =
     (let b = seen (OrderExecuted_timestamp v) b in
      if \<not> mine (OrderExecuted_stock_locate v) b then Inr b
      else do_execute ops obs (OrderExecuted_order_reference_number v) (OrderExecuted_executed_shares v)
             (OrderExecuted_timestamp v) b)"

definition order_executed_with_price :: "'b book_ops \<Rightarrow> ('b, 'o) observer_ops \<Rightarrow> OrderExecutedWithPrice_view \<Rightarrow>
    ('b, 'o) builder \<Rightarrow> failure + ('b, 'o) builder" where
  "order_executed_with_price ops obs v b =
     (let b = seen (OrderExecutedWithPrice_timestamp v) b in
      if \<not> mine (OrderExecutedWithPrice_stock_locate v) b then Inr b
      else do_execute ops obs (OrderExecutedWithPrice_order_reference_number v) (OrderExecutedWithPrice_executed_shares v)
             (OrderExecutedWithPrice_timestamp v) b)"

definition do_cancel :: "'b book_ops \<Rightarrow> ('b, 'o) observer_ops \<Rightarrow> order_ref \<Rightarrow> qty \<Rightarrow> timestamp \<Rightarrow>
    ('b, 'o) builder \<Rightarrow> failure + ('b, 'o) builder" where
  "do_cancel ops obs ref shares ts b =
     andthen (bo_side_of ops (bb_book b) ref) (\<lambda>side.
     andthen (observe (ob_note_reduction obs side shares) b) (\<lambda>b.
     andthen (bo_cancel ops ref shares (bb_book b)) (\<lambda>book.
     let b = count_stat (\<lambda>st. st\<lparr>bs_cancels := bs_cancels st + 1, bs_applied := bs_applied st + 1\<rparr>) (b\<lparr>bb_book := book\<rparr>) in
     observe (ob_after_apply obs (bb_book b) ts) b)))"

definition order_cancel :: "'b book_ops \<Rightarrow> ('b, 'o) observer_ops \<Rightarrow> OrderCancel_view \<Rightarrow> ('b, 'o) builder \<Rightarrow>
    failure + ('b, 'o) builder" where
  "order_cancel ops obs v b =
     (let b = seen (OrderCancel_timestamp v) b in
      if \<not> mine (OrderCancel_stock_locate v) b then Inr b
      else do_cancel ops obs (OrderCancel_order_reference_number v) (OrderCancel_cancelled_shares v)
             (OrderCancel_timestamp v) b)"

definition do_delete :: "'b book_ops \<Rightarrow> ('b, 'o) observer_ops \<Rightarrow> order_ref \<Rightarrow> timestamp \<Rightarrow>
    ('b, 'o) builder \<Rightarrow> failure + ('b, 'o) builder" where
  "do_delete ops obs ref ts b =
     andthen (bo_side_of ops (bb_book b) ref) (\<lambda>side.
     andthen (bo_qty_of ops (bb_book b) ref) (\<lambda>held.
     andthen (observe (ob_note_reduction obs side held) b) (\<lambda>b.
     andthen (bo_remove ops ref (bb_book b)) (\<lambda>book.
     let b = count_stat (\<lambda>st. st\<lparr>bs_deletes := bs_deletes st + 1, bs_applied := bs_applied st + 1\<rparr>) (b\<lparr>bb_book := book\<rparr>) in
     observe (ob_after_apply obs (bb_book b) ts) b))))"

definition order_delete :: "'b book_ops \<Rightarrow> ('b, 'o) observer_ops \<Rightarrow> OrderDelete_view \<Rightarrow> ('b, 'o) builder \<Rightarrow>
    failure + ('b, 'o) builder" where
  "order_delete ops obs v b =
     (let b = seen (OrderDelete_timestamp v) b in
      if \<not> mine (OrderDelete_stock_locate v) b then Inr b
      else do_delete ops obs (OrderDelete_order_reference_number v) (OrderDelete_timestamp v) b)"

definition do_replace :: "'b book_ops \<Rightarrow> ('b, 'o) observer_ops \<Rightarrow> order_ref \<Rightarrow> order_ref \<Rightarrow> price \<Rightarrow> qty \<Rightarrow> timestamp \<Rightarrow>
    ('b, 'o) builder \<Rightarrow> failure + ('b, 'o) builder" where
  "do_replace ops obs ref new_ref price shares ts b =
     andthen (bo_side_of ops (bb_book b) ref) (\<lambda>rside.
     andthen (bo_qty_of ops (bb_book b) ref) (\<lambda>held.
     andthen (observe (ob_note_reduction obs rside held) b) (\<lambda>b.
     andthen (observe (ob_before_add obs (bb_book b) rside price shares) b) (\<lambda>b.
     andthen (bo_replace ops ref new_ref price shares (bb_book b)) (\<lambda>book.
     let b = count_stat (\<lambda>st. st\<lparr>bs_replaces := bs_replaces st + 1, bs_applied := bs_applied st + 1\<rparr>) (b\<lparr>bb_book := book\<rparr>) in
     observe (ob_after_apply obs (bb_book b) ts) b)))))"

definition order_replace :: "'b book_ops \<Rightarrow> ('b, 'o) observer_ops \<Rightarrow> OrderReplace_view \<Rightarrow> ('b, 'o) builder \<Rightarrow>
    failure + ('b, 'o) builder" where
  "order_replace ops obs v b =
     (let b = seen (OrderReplace_timestamp v) b in
      if \<not> mine (OrderReplace_stock_locate v) b then Inr b
      else do_replace ops obs (OrderReplace_original_order_reference_number v) (OrderReplace_new_order_reference_number v)
             (OrderReplace_price v) (OrderReplace_shares v) (OrderReplace_timestamp v) b)"

section \<open>Reports that must not touch the book\<close>

definition trade_non_cross :: "TradeNonCross_view \<Rightarrow> ('b, 'o) builder \<Rightarrow> failure + ('b, 'o) builder" where
  "trade_non_cross v b =
     (let b = seen (TradeNonCross_timestamp v) b in
      Inr (if mine (TradeNonCross_stock_locate v) b
           then count_stat (\<lambda>st. st\<lparr>bs_trades_ignored := bs_trades_ignored st + 1\<rparr>) b else b))"

definition cross_trade :: "CrossTrade_view \<Rightarrow> ('b, 'o) builder \<Rightarrow> failure + ('b, 'o) builder" where
  "cross_trade v b =
     (let b = seen (CrossTrade_timestamp v) b in
      Inr (if mine (CrossTrade_stock_locate v) b
           then count_stat (\<lambda>st. st\<lparr>bs_crosses_ignored := bs_crosses_ignored st + 1\<rparr>) b else b))"

definition broken_trade :: "BrokenTrade_view \<Rightarrow> ('b, 'o) builder \<Rightarrow> failure + ('b, 'o) builder" where
  "broken_trade v b =
     (let b = seen (BrokenTrade_timestamp v) b in
      Inr (if mine (BrokenTrade_stock_locate v) b
           then count_stat (\<lambda>st. st\<lparr>bs_trades_ignored := bs_trades_ignored st + 1\<rparr>) b else b))"

text \<open>
  The handler that \<open>dispatch\<close> is given: the members of the class, and nothing for the
  messages it has no member for.
\<close>

fun builder_on :: "'b book_ops \<Rightarrow> ('b, 'o) observer_ops \<Rightarrow> event \<Rightarrow> ('b, 'o) builder \<Rightarrow> failure + ('b, 'o) builder" where
  "builder_on ops obs (on_stock_directory v) b = stock_directory v b"
| "builder_on ops obs (on_add_order v) b = add_order ops obs v b"
| "builder_on ops obs (on_add_order_with_mpid v) b = add_order_with_mpid ops obs v b"
| "builder_on ops obs (on_order_executed v) b = order_executed ops obs v b"
| "builder_on ops obs (on_order_executed_with_price v) b = order_executed_with_price ops obs v b"
| "builder_on ops obs (on_order_cancel v) b = order_cancel ops obs v b"
| "builder_on ops obs (on_order_delete v) b = order_delete ops obs v b"
| "builder_on ops obs (on_order_replace v) b = order_replace ops obs v b"
| "builder_on ops obs (on_trade_non_cross v) b = trade_non_cross v b"
| "builder_on ops obs (on_cross_trade v) b = cross_trade v b"
| "builder_on ops obs (on_broken_trade v) b = broken_trade v b"
| "builder_on ops obs _ b = Inr b"

end
