(* ===== verification/Replay.thy ===== *)
theory Replay
  imports Book_Builder Framing
begin

text \<open>
  include/itch/replay/invariants.hpp: \<open>ReplayObserver\<close>, the journal and the invariants
  asserted after every applied message, and the replay of apps/itch_replay.cpp: the loop
  over the frames of a feed and the outcome it reports (the elapsed time apart).
\<close>

section \<open>The observer\<close>

record replay_observer =
  ro_applied :: u64
  ro_full_validations :: u64
  ro_crossed_states :: u64
  ro_peak_orders :: u64
  ro_peak_levels :: u64
  ro_expected_qty :: "side \<Rightarrow> u64"
  ro_digest :: digest
  ro_validate_every :: u64
  ro_strict :: bool

definition kStructuralInterval :: u64 where
  "kStructuralInterval = 65536"

definition observer_new :: "u64 \<Rightarrow> bool \<Rightarrow> replay_observer" where
  "observer_new validate_every strict =
     \<lparr>ro_applied = 0, ro_full_validations = 0, ro_crossed_states = 0, ro_peak_orders = 0, ro_peak_levels = 0,
      ro_expected_qty = (\<lambda>_. 0), ro_digest = digest_new, ro_validate_every = validate_every, ro_strict = strict\<rparr>"

definition ro_before_add :: "side \<Rightarrow> qty \<Rightarrow> replay_observer \<Rightarrow> replay_observer" where
  "ro_before_add s q r = r\<lparr>ro_expected_qty := (ro_expected_qty r)(s := ro_expected_qty r s + ucast q)\<rparr>"

definition ro_note_reduction :: "side \<Rightarrow> qty \<Rightarrow> replay_observer \<Rightarrow> failure + replay_observer" where
  "ro_note_reduction s q r =
     andthen (ensure (ucast q \<le> ro_expected_qty r s) (ReplayF RemovedTooMuch)) (\<lambda>_.
       Inr (r\<lparr>ro_expected_qty := (ro_expected_qty r)(s := ro_expected_qty r s - ucast q)\<rparr>))"

text \<open>\<open>after_apply\<close> in its parts: the crossed check, the peaks, the journal, the validation.\<close>

definition ro_crossed_check :: "'b book_ops \<Rightarrow> 'b \<Rightarrow> replay_observer \<Rightarrow> failure + replay_observer" where
  "ro_crossed_check ops b r =
     (if \<not> bo_empty ops b Buy \<and> \<not> bo_empty ops b Sell \<and> bo_best ops b Sell \<le> bo_best ops b Buy then
        let r = r\<lparr>ro_crossed_states := ro_crossed_states r + 1\<rparr> in
        andthen (ensure (\<not> ro_strict r) (ReplayF BookCrossed)) (\<lambda>_. Inr r)
      else Inr r)"

definition ro_peaks :: "'b book_ops \<Rightarrow> 'b \<Rightarrow> replay_observer \<Rightarrow> replay_observer" where
  "ro_peaks ops b r =
     (let orders = of_nat (bo_count ops b) :: u64;
          levels = ucast (bo_level_count ops b Buy + bo_level_count ops b Sell) :: u64 in
      r\<lparr>ro_peak_orders := (if ro_peak_orders r < orders then orders else ro_peak_orders r),
        ro_peak_levels := (if ro_peak_levels r < levels then levels else ro_peak_levels r)\<rparr>)"

definition ro_journal :: "'b book_ops \<Rightarrow> 'b \<Rightarrow> timestamp \<Rightarrow> digest \<Rightarrow> digest" where
  "ro_journal ops b ts d =
     (let bid = (if \<not> bo_empty ops b Buy then bo_best ops b Buy else kNoPrice);
          ask = (if \<not> bo_empty ops b Sell then bo_best ops b Sell else kNoPrice);
          d = feed d ts;
          d = feed_u32 d bid;
          d = feed_u32 d ask;
          d = feed d (bo_total_qty ops b Buy);
          d = feed d (bo_total_qty ops b Sell);
          d = feed_u32 d (bo_level_count ops b Buy);
          d = feed_u32 d (bo_level_count ops b Sell)
      in feed d (of_nat (bo_count ops b)))"

definition ro_structural :: "'b book_ops \<Rightarrow> 'b \<Rightarrow> replay_observer \<Rightarrow> failure + replay_observer" where
  "ro_structural ops b r =
     (if ro_applied r mod kStructuralInterval = 0 then
        andthen (book_digest ops b) (\<lambda>v. Inr (r\<lparr>ro_digest := feed (ro_digest r) v\<rparr>))
      else Inr r)"

definition ro_validation :: "'b book_ops \<Rightarrow> 'b \<Rightarrow> replay_observer \<Rightarrow> failure + replay_observer" where
  "ro_validation ops b r =
     (if ro_validate_every r \<noteq> 0 \<and> ro_applied r mod ro_validate_every r = 0 then
        andthen (bo_validate ops b) (\<lambda>_. Inr (r\<lparr>ro_full_validations := ro_full_validations r + 1\<rparr>))
      else Inr r)"

definition ro_after_apply :: "'b book_ops \<Rightarrow> 'b \<Rightarrow> timestamp \<Rightarrow> replay_observer \<Rightarrow> failure + replay_observer" where
  "ro_after_apply ops b ts r =
     (let r = r\<lparr>ro_applied := ro_applied r + 1\<rparr> in
      andthen (ro_crossed_check ops b r) (\<lambda>r.
      andthen (ensure (bo_total_qty ops b Buy = ro_expected_qty r Buy \<and> bo_total_qty ops b Sell = ro_expected_qty r Sell)
        (ReplayF NotConserved)) (\<lambda>_.
      let r = ro_peaks ops b r;
          r = r\<lparr>ro_digest := ro_journal ops b ts (ro_digest r)\<rparr> in
      andthen (ro_structural ops b r) (ro_validation ops b))))"

definition replay_hooks :: "'b book_ops \<Rightarrow> ('b, replay_observer) observer_ops" where
  "replay_hooks ops =
     \<lparr>ob_before_add = (\<lambda>b s p q r. Inr (ro_before_add s q r)), ob_note_reduction = ro_note_reduction,
      ob_after_apply = ro_after_apply ops\<rparr>"

section \<open>The replay\<close>

record replay_outcome =
  ou_digest :: u64
  ou_applied :: u64
  ou_messages :: u64
  ou_crossed :: u64
  ou_validations :: u64
  ou_peak_orders :: u64
  ou_peak_levels :: u64
  ou_symbol :: string

text \<open>The loop of \<open>drive\<close> on a file in memory; each turn consumes at least three bytes.\<close>

fun drive :: "nat \<Rightarrow> (event \<Rightarrow> 's \<Rightarrow> failure + 's) \<Rightarrow> cursor \<Rightarrow> 's \<Rightarrow> failure + 's" where
  "drive 0 handler c s = Inl Diverges"
| "drive (Suc fuel) handler c s =
     andthen (next_frame c) (\<lambda>(st, out, c').
       case out of
         Some f \<Rightarrow> andthen (dispatch handler f s) (\<lambda>(_, s'). drive fuel handler c' s')
       | None \<Rightarrow> Inr s)"

definition outcome_report :: "('b, replay_observer) builder \<Rightarrow> replay_outcome" where
  "outcome_report b =
     (let r = bb_observer b in
      \<lparr>ou_digest = digest_value (ro_digest r), ou_applied = ro_applied r, ou_messages = bs_messages (bb_stats b),
       ou_crossed = ro_crossed_states r, ou_validations = ro_full_validations r, ou_peak_orders = ro_peak_orders r,
       ou_peak_levels = ro_peak_levels r, ou_symbol = bb_symbol b\<rparr>)"

definition replay_once :: "'b book_ops \<Rightarrow> 'b \<Rightarrow> u8 list \<Rightarrow> string \<Rightarrow> u64 \<Rightarrow> bool \<Rightarrow> failure + replay_outcome \<times> 'b" where
  "replay_once ops book bytes symbol validate_every strict =
     andthen (drive (Suc (length bytes)) (builder_on ops (replay_hooks ops)) (cursor_of bytes)
       (builder_new book symbol (observer_new validate_every strict))) (\<lambda>b.
     andthen (bo_validate ops (bb_book b)) (\<lambda>_. Inr (outcome_report b, bb_book b)))"

end
