(* ===== verification/Replay_Laws.thy ===== *)
theory Replay_Laws
  imports Replay Book_Runs
begin

text \<open>
  What a replay is: the loop over the frames runs the handlers on the messages of the feed;
  the builder over any order book does what it does over the list of resting orders; and
  the journal is the same over every book and for every validation interval.
\<close>

section \<open>The loop over the frames\<close>

fun handle_all :: "(event \<Rightarrow> 's \<Rightarrow> failure + 's) \<Rightarrow> event list \<Rightarrow> 's \<Rightarrow> failure + 's" where
  "handle_all h [] s = Inr s"
| "handle_all h (e # es) s = andthen (h e s) (handle_all h es)"

text \<open>The messages of a byte string: those of its whole frames up to the first fault.\<close>

definition messages_of :: "u8 list \<Rightarrow> event list" where
  "messages_of bs = map (\<lambda>f. the (event_at f)) (fst (frames_of bs))"

lemma parse_event:
  assumes "parse bs = (Ok, er, body)"
  shows "event_at body \<noteq> None"
proof -
  have p: "body = take (length body) (drop 2 bs)" "is_known_type (load_char (drop 2 bs))" "body \<noteq> []"
    using parse_cases [OF assms] by auto
  then have "drop 2 bs = body @ drop (length body) (drop 2 bs)" by (metis append_take_drop_id)
  then have "load_char (drop 2 bs) = load_char body" using load_char_append [OF p(3)] by metis
  then show ?thesis using p(2) unfolding event_at_known by simp
qed

lemma drive_messages:
  assumes "within c" and "length (cursor_rest c) < fuel"
  shows "drive fuel h c s = handle_all h (messages_of (cursor_rest c)) s"
  using assms
proof (induction fuel arbitrary: c s)
  case (Suc fuel)
  obtain st er body where p: "parse (cursor_rest c) = (st, er, body)" by (metis prod_cases3)
  note step = next_frame_parse [OF Suc.prems(1), unfolded p, simplified]
  show ?case
  proof (cases "st = Ok")
    case False
    then show ?thesis by (simp add: step messages_of_def frames_of.simps [of "cursor_rest c"] p)
  next
    case True
    let ?c = "c\<lparr>cur_error := er, cur_pos := Suc (Suc (cur_pos c + length body))\<rparr>"
    have le: "2 + length body \<le> length (cursor_rest c)" using parse_size p True by blast
    have rest: "cursor_rest ?c = drop (Suc (Suc (length body))) (cursor_rest c)"
      by (simp add: cursor_rest_def add.commute add.left_commute)
    have ih: "drive fuel h ?c s' = handle_all h (messages_of (cursor_rest ?c)) s'" for s'
      using Suc.prems le unfolding rest
      by (subst Suc.IH) (auto simp: within_def cursor_rest_def rest [unfolded cursor_rest_def] add.commute)
    obtain e where e: "event_at body = Some e" using parse_event p True by blast
    have m: "messages_of (cursor_rest c) = e # messages_of (cursor_rest ?c)"
      using p True e unfolding rest
      by (simp add: messages_of_def frames_of.simps [of "cursor_rest c"] split: prod.split)
    show ?thesis
      unfolding m by (cases "h e s") (simp_all add: step True dispatch_def e ih)
  qed
qed simp

lemma messages_of_events:
  assumes "\<forall>e \<in> set es. event_fits e"
  shows "messages_of (concat (map (\<lambda>e. frame (event_bytes e)) es)) = es"
proof -
  have "frames_of (concat (map frame (map event_bytes es))) = (map event_bytes es, EndOfInput, No_error)"
    using assms by (intro frames_of_frames) (auto intro: event_well_framed)
  moreover have "map (\<lambda>e. the (event_at (event_bytes e))) es = es"
    using assms event_round_trip [of _ "[]"] by (intro map_idI) auto
  ultimately show ?thesis by (simp add: messages_of_def comp_def)
qed

lemma drive_start: "drive (Suc (length bs)) h (cursor_of bs) s = handle_all h (messages_of bs) s"
  by (subst drive_messages) (simp_all add: within_def cursor_of_def cursor_rest_def)

section \<open>The builder over any order book\<close>

text \<open>The messages a book with room for \<open>n\<close> orders is meant for, in the state they meet.\<close>

fun event_room :: "nat \<Rightarrow> (price \<Rightarrow> bool) \<Rightarrow> event \<Rightarrow> (naive_book, 'o) builder \<Rightarrow> bool" where
  "event_room n ok (on_add_order v) b = (mine (AddOrder_stock_locate v) b \<longrightarrow> length (bb_book b) < n \<and> ok (AddOrder_price v))"
| "event_room n ok (on_add_order_with_mpid v) b =
     (mine (AddOrderWithMpid_stock_locate v) b \<longrightarrow> length (bb_book b) < n \<and> ok (AddOrderWithMpid_price v))"
| "event_room n ok (on_order_replace v) b = (mine (OrderReplace_stock_locate v) b \<longrightarrow> ok (OrderReplace_price v))"
| "event_room n ok _ b = True"

fun feed_room :: "nat \<Rightarrow> (price \<Rightarrow> bool) \<Rightarrow> (naive_book, 'o) observer_ops \<Rightarrow> event list \<Rightarrow> (naive_book, 'o) builder \<Rightarrow> bool" where
  "feed_room n ok obs [] b = True"
| "feed_room n ok obs (e # es) b =
     (event_room n ok e b \<and>
      (case builder_on naive_ops obs e b of Inl _ \<Rightarrow> True | Inr b' \<Rightarrow> feed_room n ok obs es b'))"

definition same_but :: "('b \<Rightarrow> naive_book \<Rightarrow> bool) \<Rightarrow> ('o \<Rightarrow> 'o \<Rightarrow> bool) \<Rightarrow> ('b, 'o) builder \<Rightarrow> (naive_book, 'o) builder \<Rightarrow> bool" where
  "same_but R Q b n \<longleftrightarrow> R (bb_book b) (bb_book n) \<and> Q (bb_observer b) (bb_observer n) \<and> bb_symbol b = bb_symbol n \<and>
     bb_locate b = bb_locate n \<and> bb_resolved b = bb_resolved n \<and> bb_stats b = bb_stats n"

lemma same_butD: "same_but R Q b n \<Longrightarrow> R (bb_book b) (bb_book n)" "same_but R Q b n \<Longrightarrow> Q (bb_observer b) (bb_observer n)"
  by (simp_all add: same_but_def)

lemma same_seen [simp]: "same_but R Q b n \<Longrightarrow> same_but R Q (seen ts b) (seen ts n)"
  by (simp add: same_but_def seen_def count_stat_def Let_def)

lemma same_mine: "same_but R Q b n \<Longrightarrow> mine l b = mine l n"
  by (simp add: same_but_def mine_def)

lemma same_count: "same_but R Q b n \<Longrightarrow> S x y \<Longrightarrow>
    same_but S Q (count_stat f (b\<lparr>bb_book := x\<rparr>)) (count_stat f (n\<lparr>bb_book := y\<rparr>))"
  by (simp add: same_but_def count_stat_def)

lemma same_count' [simp]: "same_but R Q b n \<Longrightarrow> same_but R Q (count_stat f b) (count_stat f n)"
  by (simp add: same_but_def count_stat_def)

lemma seen_book [simp]: "bb_book (seen ts b) = bb_book b" "bb_observer (seen ts b) = bb_observer b" "mine l (seen ts b) = mine l b"
  by (simp_all add: seen_def count_stat_def Let_def mine_def)

lemma observe_rel:
  assumes "same_but R Q b n" and "rel_sum (=) Q (hook (bb_observer b)) (hook' (bb_observer n))"
  shows "rel_sum (=) (same_but R Q) (observe hook b) (observe hook' n)"
  unfolding observe_def by (rule rel_sum_andthen [OF assms(2)]) (use assms(1) in \<open>simp add: same_but_def\<close>)

lemma rel_sum_query: "(\<And>a. rel_sum (=) S (f a) (g a)) \<Longrightarrow> rel_sum (=) S (andthen q f) (andthen q g)"
  by (cases q) auto

text \<open>
  Two observers, of the book and of the list, that cannot tell the two apart: what they
  return is related by \<open>alike\<close> whenever what they are given is.
\<close>

locale observed = order_book ops rep limit ok_price
  for ops :: "'b book_ops" and rep and limit and ok_price +
  fixes obs :: "('b, 'o) observer_ops"
    and nobs :: "(naive_book, 'o) observer_ops"
    and alike :: "'o \<Rightarrow> 'o \<Rightarrow> bool"
  assumes before_agree: "rep b rs \<Longrightarrow> alike x y \<Longrightarrow> rel_sum (=) alike (ob_before_add obs b s p q x) (ob_before_add nobs rs s p q y)"
    and note_agree: "alike x y \<Longrightarrow> rel_sum (=) alike (ob_note_reduction obs s q x) (ob_note_reduction nobs s q y)"
    and after_agree: "rep b rs \<Longrightarrow> alike x y \<Longrightarrow> rel_sum (=) alike (ob_after_apply obs b ts x) (ob_after_apply nobs rs ts y)"
begin

definition keeps :: "nat \<Rightarrow> 'b \<Rightarrow> naive_book \<Rightarrow> bool" where
  "keeps k b rs \<longleftrightarrow> rep b rs \<and> limit b = k \<and> length rs \<le> k"

lemma keepsD: "keeps k b rs \<Longrightarrow> rep b rs" "keeps k b rs \<Longrightarrow> limit b = k" "keeps k b rs \<Longrightarrow> length rs \<le> k"
  by (simp_all add: keeps_def)

definition tracks :: "nat \<Rightarrow> ('b, 'o) builder \<Rightarrow> (naive_book, 'o) builder \<Rightarrow> bool" where
  "tracks k = same_but (keeps k) alike"

lemma tracksD: "tracks k b n \<Longrightarrow> keeps k (bb_book b) (bb_book n)" "tracks k b n \<Longrightarrow> rep (bb_book b) (bb_book n)"
  "tracks k b n \<Longrightarrow> alike (bb_observer b) (bb_observer n)"
  using keepsD by (auto simp: tracks_def same_but_def)

lemma observe_before: "tracks k b n \<Longrightarrow>
    rel_sum (=) (tracks k) (observe (ob_before_add obs (bb_book b) s p q) b) (observe (ob_before_add nobs (bb_book n) s p q) n)"
  using before_agree [OF tracksD(2,3)] unfolding tracks_def by (intro observe_rel)

lemma observe_note: "tracks k b n \<Longrightarrow>
    rel_sum (=) (tracks k) (observe (ob_note_reduction obs s q) b) (observe (ob_note_reduction nobs s q) n)"
  using note_agree [OF tracksD(3)] unfolding tracks_def by (intro observe_rel)

lemma observe_after: "tracks k b n \<Longrightarrow>
    rel_sum (=) (tracks k) (observe (ob_after_apply obs (bb_book b) ts) b) (observe (ob_after_apply nobs (bb_book n) ts) n)"
  using after_agree [OF tracksD(2,3)] unfolding tracks_def by (intro observe_rel)

lemma tracks_count: "tracks k b n \<Longrightarrow> keeps k x y \<Longrightarrow>
    tracks k (count_stat f (b\<lparr>bb_book := x\<rparr>)) (count_stat f (n\<lparr>bb_book := y\<rparr>))"
  unfolding tracks_def by (rule same_count)

text \<open>The operations of the book, keeping the room.\<close>

lemma op_keeps:
  assumes "keeps k b rs" and "room_for k ok_price x rs"
  shows "rel_sum (=) (keeps k) (apply_op ops x b) (apply_op naive_ops x rs)"
proof (rule rel_sum_strengthen)
  show "rel_sum (=) (\<lambda>b' rs'. rep b' rs' \<and> limit b' = limit b \<and> length rs' \<le> limit b) (apply_op ops x b) (apply_op naive_ops x rs)"
    using assms by (intro apply_op_refines) (simp_all add: keeps_def)
qed (use assms in \<open>simp add: keeps_def\<close>)

lemma execute_keeps:
  assumes "keeps k b rs"
  shows "rel_sum (=) (\<lambda>(b', m') (rs', m). keeps k b' rs' \<and> m' = m) (bo_execute ops ref n b) (sb_execute ref n rs)"
  using execute_law [OF keepsD(1) [OF assms], of ref n] op_keeps [OF assms, of "Execute ref n"]
  by (cases "bo_execute ops ref n b"; cases "sb_execute ref n rs") (auto split: prod.splits)

text \<open>The tail of every handler: the new book, the counters, and the observer's last hook.\<close>

lemma finish_rel:
  assumes "tracks k x y" and "rel_sum (=) (keeps k) u v"
  shows "rel_sum (=) (tracks k)
      (andthen u (\<lambda>book. observe (ob_after_apply obs (bb_book (count_stat f (x\<lparr>bb_book := book\<rparr>))) ts) (count_stat f (x\<lparr>bb_book := book\<rparr>))))
      (andthen v (\<lambda>book. observe (ob_after_apply nobs (bb_book (count_stat f (y\<lparr>bb_book := book\<rparr>))) ts) (count_stat f (y\<lparr>bb_book := book\<rparr>))))"
  by (rule rel_sum_andthen [OF assms(2)]) (intro observe_after tracks_count [OF assms(1)])

lemma finish_execute_rel:
  assumes s: "tracks k x y"
  shows "rel_sum (=) (tracks k)
      (andthen (bo_execute ops ref q (bb_book x)) (\<lambda>(book, _).
        observe (ob_after_apply obs (bb_book (count_stat f (x\<lparr>bb_book := book\<rparr>))) ts) (count_stat f (x\<lparr>bb_book := book\<rparr>))))
      (andthen (bo_execute naive_ops ref q (bb_book y)) (\<lambda>(book, _).
        observe (ob_after_apply nobs (bb_book (count_stat f (y\<lparr>bb_book := book\<rparr>))) ts) (count_stat f (y\<lparr>bb_book := book\<rparr>))))"
proof -
  have "rel_sum (=) (\<lambda>(b', m') (rs', m). keeps k b' rs' \<and> m' = m) (bo_execute ops ref q (bb_book x)) (bo_execute naive_ops ref q (bb_book y))"
    using execute_keeps [OF tracksD(1) [OF s]] by simp
  then show ?thesis
    by (rule rel_sum_andthen) (use s in \<open>auto intro!: observe_after tracks_count\<close>)
qed

lemma do_add_rel:
  assumes s: "tracks k b n" and room: "length (bb_book n) < k" "ok_price p"
  shows "rel_sum (=) (tracks k) (do_add ops obs ref ind p q ts b) (do_add naive_ops nobs ref ind p q ts n)"
proof -
  let ?s = "if ind = CHR ''B'' then Buy else Sell"
  have before: "rel_sum (=) (\<lambda>x y. tracks k x y \<and> bb_book y = bb_book n)
      (observe (ob_before_add obs (bb_book b) ?s p q) b) (observe (ob_before_add nobs (bb_book n) ?s p q) n)"
    by (rule rel_sum_strengthen [OF observe_before [OF s]]) (auto simp: observe_def andthen_eq_Inr)
  have add: "rel_sum (=) (keeps k) (bo_add ops ref ?s p q 0 (bb_book x)) (bo_add naive_ops ref ?s p q 0 (bb_book y))"
    if "tracks k x y \<and> bb_book y = bb_book n" for x y
    using op_keeps [OF tracksD(1) [of k x y], of "Add ref ?s p q 0"] room that by simp
  show ?thesis
    unfolding do_add_def Let_def
    by (rule rel_sum_andthen [OF rel_sum_refl], rule rel_sum_andthen [OF before], rule finish_rel [OF conjunct1 add])
qed

lemma query_rel:
  assumes "tracks k b n"
  shows "bo_side_of ops (bb_book b) ref = bo_side_of naive_ops (bb_book n) ref"
    and "bo_qty_of ops (bb_book b) ref = bo_qty_of naive_ops (bb_book n) ref"
  using side_of_eq qty_of_eq tracksD(2) [OF assms] by blast+

lemma do_execute_rel:
  assumes s: "tracks k b n"
  shows "rel_sum (=) (tracks k) (do_execute ops obs ref q ts b) (do_execute naive_ops nobs ref q ts n)"
  unfolding do_execute_def Let_def query_rel [OF s]
  by (rule rel_sum_query, rule rel_sum_andthen [OF observe_note [OF s]], rule finish_execute_rel)

lemma do_cancel_rel:
  assumes s: "tracks k b n"
  shows "rel_sum (=) (tracks k) (do_cancel ops obs ref q ts b) (do_cancel naive_ops nobs ref q ts n)"
proof -
  have op: "rel_sum (=) (keeps k) (bo_cancel ops ref q (bb_book x)) (bo_cancel naive_ops ref q (bb_book y))"
    if "tracks k x y" for x y
    using op_keeps [OF tracksD(1) [OF that], of "Cancel ref q"] by simp
  show ?thesis
    unfolding do_cancel_def Let_def query_rel [OF s]
    by (rule rel_sum_query, rule rel_sum_andthen [OF observe_note [OF s]], rule finish_rel [OF _ op])
qed

lemma do_delete_rel:
  assumes s: "tracks k b n"
  shows "rel_sum (=) (tracks k) (do_delete ops obs ref ts b) (do_delete naive_ops nobs ref ts n)"
proof -
  have op: "rel_sum (=) (keeps k) (bo_remove ops ref (bb_book x)) (bo_remove naive_ops ref (bb_book y))"
    if "tracks k x y" for x y
    using op_keeps [OF tracksD(1) [OF that], of "Delete ref"] by simp
  show ?thesis
    unfolding do_delete_def Let_def query_rel [OF s]
    by (rule rel_sum_query, rule rel_sum_query, rule rel_sum_andthen [OF observe_note [OF s]], rule finish_rel [OF _ op])
qed

lemma do_replace_rel:
  assumes s: "tracks k b n" and p: "ok_price p"
  shows "rel_sum (=) (tracks k) (do_replace ops obs ref new_ref p q ts b) (do_replace naive_ops nobs ref new_ref p q ts n)"
proof -
  have op: "rel_sum (=) (keeps k) (bo_replace ops ref new_ref p q (bb_book x)) (bo_replace naive_ops ref new_ref p q (bb_book y))"
    if "tracks k x y" for x y
    using op_keeps [OF tracksD(1) [OF that], of "Replace ref new_ref p q"] p by simp
  show ?thesis
    unfolding do_replace_def Let_def query_rel [OF s]
    by (rule rel_sum_query, rule rel_sum_query, rule rel_sum_andthen [OF observe_note [OF s]],
        rule rel_sum_andthen [OF observe_before], assumption, rule finish_rel [OF _ op])
qed

text \<open>A step of the builder, and a whole feed.\<close>

lemma builder_on_rel:
  assumes s: "tracks k b n" and room: "event_room k ok_price e n"
  shows "rel_sum (=) (tracks k) (builder_on ops obs e b) (builder_on naive_ops nobs e n)"
proof -
  have s': "tracks k (seen ts b) (seen ts n)" for ts using s by (simp add: tracks_def)
  note m = same_mine [OF s [unfolded tracks_def]]
  show ?thesis
  proof (cases e)
    case (on_stock_directory v)
    then show ?thesis
      using s' [of "StockDirectory_timestamp v"] by (auto simp: stock_directory_def Let_def tracks_def same_but_def)
  next
    case (on_add_order v)
    then show ?thesis
      using s' m room do_add_rel [OF s'] by (simp add: add_order_def Let_def)
  next
    case (on_add_order_with_mpid v)
    then show ?thesis
      using s' m room do_add_rel [OF s'] by (simp add: add_order_with_mpid_def Let_def)
  next
    case (on_order_executed v)
    then show ?thesis using s' m do_execute_rel [OF s'] by (simp add: order_executed_def Let_def)
  next
    case (on_order_executed_with_price v)
    then show ?thesis using s' m do_execute_rel [OF s'] by (simp add: order_executed_with_price_def Let_def)
  next
    case (on_order_cancel v)
    then show ?thesis using s' m do_cancel_rel [OF s'] by (simp add: order_cancel_def Let_def)
  next
    case (on_order_delete v)
    then show ?thesis using s' m do_delete_rel [OF s'] by (simp add: order_delete_def Let_def)
  next
    case (on_order_replace v)
    then show ?thesis using s' m room do_replace_rel [OF s'] by (simp add: order_replace_def Let_def)
  next
    case (on_trade_non_cross v)
    then show ?thesis using s' m by (simp add: trade_non_cross_def Let_def tracks_def)
  next
    case (on_cross_trade v)
    then show ?thesis using s' m by (simp add: cross_trade_def Let_def tracks_def)
  next
    case (on_broken_trade v)
    then show ?thesis using s' m by (simp add: broken_trade_def Let_def tracks_def)
  qed (use s in simp_all)
qed

lemma feed_rel:
  assumes "tracks k b n" and "feed_room k ok_price nobs es n"
  shows "rel_sum (=) (tracks k) (handle_all (builder_on ops obs) es b) (handle_all (builder_on naive_ops nobs) es n)"
  using assms
proof (induction es arbitrary: b n)
  case (Cons e es)
  have step: "rel_sum (=) (tracks k) (builder_on ops obs e b) (builder_on naive_ops nobs e n)"
    using builder_on_rel Cons.prems by simp
  show ?case
  proof (cases "builder_on naive_ops nobs e n")
    case (Inl f)
    with step show ?thesis by (cases "builder_on ops obs e b") simp_all
  next
    case (Inr n')
    with step obtain b' where "builder_on ops obs e b = Inr b'" "tracks k b' n'"
      by (cases "builder_on ops obs e b") auto
    then show ?thesis using Cons.IH [of b' n'] Cons.prems(2) Inr by simp
  qed
qed simp

end

section \<open>The observer agrees on books that agree\<close>

context order_book
begin

lemma ro_after_apply_agree:
  assumes rep: "rep b rs"
  shows "ro_after_apply ops b ts r = ro_after_apply naive_ops rs ts r"
proof -
  have "ro_crossed_check ops b = ro_crossed_check naive_ops rs"
    by (rule ext) (simp add: ro_crossed_check_def empty_eq [OF rep] best_eq [OF rep])
  moreover have "ro_peaks ops b = ro_peaks naive_ops rs"
    by (rule ext) (simp add: ro_peaks_def count_eq [OF rep] level_count_eq [OF rep] nb_order_count_def)
  moreover have "ro_journal ops b ts = ro_journal naive_ops rs ts"
    by (rule ext) (simp add: ro_journal_def empty_eq [OF rep] best_eq [OF rep] count_eq [OF rep] level_count_eq [OF rep]
        total_qty_eq [OF rep] nb_order_count_def)
  moreover have "ro_structural ops b = ro_structural naive_ops rs"
    by (rule ext) (simp add: ro_structural_def digest_eq [OF rep])
  moreover have "ro_validation ops b = ro_validation naive_ops rs"
    by (rule ext) (simp add: ro_validation_def validate_ok [OF rep])
  moreover have "bo_total_qty ops b = bo_total_qty naive_ops rs" by (simp add: total_qty_eq [OF rep])
  ultimately show ?thesis by (simp only: ro_after_apply_def)
qed

end

text \<open>The interval of the validations is no part of what the observer sees.\<close>

definition tuned :: "replay_observer \<Rightarrow> replay_observer" where
  "tuned r = r\<lparr>ro_full_validations := 0, ro_validate_every := 0\<rparr>"

definition same_journal :: "replay_observer \<Rightarrow> replay_observer \<Rightarrow> bool" where
  "same_journal r r' \<longleftrightarrow> tuned r = tuned r'"

lemma same_journalD:
  "same_journal r r' \<Longrightarrow> ro_expected_qty r = ro_expected_qty r'" "same_journal r r' \<Longrightarrow> ro_digest r = ro_digest r'"
  "same_journal r r' \<Longrightarrow> ro_applied r = ro_applied r'" "same_journal r r' \<Longrightarrow> ro_strict r = ro_strict r'"
  "same_journal r r' \<Longrightarrow> ro_crossed_states r = ro_crossed_states r'" "same_journal r r' \<Longrightarrow> ro_peak_orders r = ro_peak_orders r'"
  "same_journal r r' \<Longrightarrow> ro_peak_levels r = ro_peak_levels r'"
  by (cases r; cases r'; simp add: same_journal_def tuned_def)+

lemma same_journalI:
  "ro_expected_qty r = ro_expected_qty r' \<Longrightarrow> ro_digest r = ro_digest r' \<Longrightarrow> ro_applied r = ro_applied r' \<Longrightarrow>
   ro_strict r = ro_strict r' \<Longrightarrow> ro_crossed_states r = ro_crossed_states r' \<Longrightarrow> ro_peak_orders r = ro_peak_orders r' \<Longrightarrow>
   ro_peak_levels r = ro_peak_levels r' \<Longrightarrow> same_journal r r'"
  by (cases r; cases r'; simp add: same_journal_def tuned_def)

lemma same_journal_refl [simp]: "same_journal r r"
  by (simp add: same_journal_def)

lemma naive_after_journal:
  assumes "same_journal r r'"
  shows "rel_sum (=) same_journal (ro_after_apply naive_ops rs ts r) (ro_after_apply naive_ops rs ts r')"
proof -
  have crossed: "rel_sum (=) same_journal (ro_crossed_check naive_ops rs r) (ro_crossed_check naive_ops rs r')"
    if "same_journal r r'" for r r'
    using same_journalD [OF that] by (auto simp: ro_crossed_check_def Let_def ensure_def intro!: same_journalI)
  have structural: "rel_sum (=) same_journal (ro_structural naive_ops rs r) (ro_structural naive_ops rs r')"
    if "same_journal r r'" for r r'
    using same_journalD [OF that] by (cases "book_digest naive_ops rs") (auto simp: ro_structural_def intro!: same_journalI)
  have validation: "rel_sum (=) same_journal (ro_validation naive_ops rs r) (ro_validation naive_ops rs r')"
    if "same_journal r r'" for r r'
    using same_journalD [OF that] by (auto simp: ro_validation_def intro!: same_journalI)
  have "same_journal (r\<lparr>ro_applied := ro_applied r + 1\<rparr>) (r'\<lparr>ro_applied := ro_applied r' + 1\<rparr>)"
    using same_journalD [OF assms] by (intro same_journalI) simp_all
  then have c: "rel_sum (=) same_journal (ro_crossed_check naive_ops rs (r\<lparr>ro_applied := ro_applied r + 1\<rparr>))
      (ro_crossed_check naive_ops rs (r'\<lparr>ro_applied := ro_applied r' + 1\<rparr>))" by (rule crossed)
  show ?thesis
    unfolding ro_after_apply_def Let_def
  proof (rule rel_sum_andthen [OF c])
    fix x y
    assume xy: "same_journal x y"
    have "same_journal ((ro_peaks naive_ops rs x)\<lparr>ro_digest := ro_journal naive_ops rs ts (ro_digest (ro_peaks naive_ops rs x))\<rparr>)
        ((ro_peaks naive_ops rs y)\<lparr>ro_digest := ro_journal naive_ops rs ts (ro_digest (ro_peaks naive_ops rs y))\<rparr>)"
      using same_journalD [OF xy] by (intro same_journalI) (simp_all add: ro_peaks_def Let_def)
    from rel_sum_andthen [OF structural [OF this] validation]
    show "rel_sum (=) same_journal
      (andthen (ensure (bo_total_qty naive_ops rs Buy = ro_expected_qty x Buy \<and> bo_total_qty naive_ops rs Sell = ro_expected_qty x Sell)
         (ReplayF NotConserved)) (\<lambda>_. andthen (ro_structural naive_ops rs
           ((ro_peaks naive_ops rs x)\<lparr>ro_digest := ro_journal naive_ops rs ts (ro_digest (ro_peaks naive_ops rs x))\<rparr>)) (ro_validation naive_ops rs)))
      (andthen (ensure (bo_total_qty naive_ops rs Buy = ro_expected_qty y Buy \<and> bo_total_qty naive_ops rs Sell = ro_expected_qty y Sell)
         (ReplayF NotConserved)) (\<lambda>_. andthen (ro_structural naive_ops rs
           ((ro_peaks naive_ops rs y)\<lparr>ro_digest := ro_journal naive_ops rs ts (ro_digest (ro_peaks naive_ops rs y))\<rparr>)) (ro_validation naive_ops rs)))"
      unfolding same_journalD(1) [OF xy] by (intro rel_sum_query)
  qed
qed

lemma before_journal: "same_journal r r' \<Longrightarrow> same_journal (ro_before_add s q r) (ro_before_add s q r')"
  by (intro same_journalI) (auto simp: ro_before_add_def dest: same_journalD)

lemma note_journal:
  "same_journal r r' \<Longrightarrow> rel_sum (=) same_journal (ro_note_reduction s q r) (ro_note_reduction s q r')"
  unfolding ro_note_reduction_def by (frule same_journalD(1), simp, rule rel_sum_query) (auto dest: same_journalD intro!: same_journalI)

sublocale order_book \<subseteq> replayed: observed ops rep limit ok_price "replay_hooks ops" "replay_hooks naive_ops" same_journal
  by unfold_locales (simp_all add: replay_hooks_def ro_after_apply_agree naive_after_journal before_journal note_journal)

sublocale order_book \<subseteq> plain: observed ops rep limit ok_price null_observer null_observer "(=)"
  by unfold_locales (simp_all add: null_observer_def)

section \<open>The replay over any order book\<close>

definition start_of :: "'b \<Rightarrow> string \<Rightarrow> u64 \<Rightarrow> bool \<Rightarrow> ('b, replay_observer) builder" where
  "start_of book symbol every strict = builder_new book symbol (observer_new every strict)"

text \<open>The feeds a book with room for \<open>n\<close> orders is meant for.\<close>

definition replay_room :: "nat \<Rightarrow> (price \<Rightarrow> bool) \<Rightarrow> u8 list \<Rightarrow> string \<Rightarrow> bool \<Rightarrow> bool" where
  "replay_room n ok bytes symbol strict =
     feed_room n ok (replay_hooks naive_ops) (messages_of bytes) (start_of [] symbol 0 strict)"

definition same_outcome :: "replay_outcome \<Rightarrow> replay_outcome \<Rightarrow> bool" where
  "same_outcome x y \<longleftrightarrow> x\<lparr>ou_validations := 0\<rparr> = y\<lparr>ou_validations := 0\<rparr>"

lemma replay_once_messages:
  "replay_once ops book bytes symbol every strict =
     andthen (handle_all (builder_on ops (replay_hooks ops)) (messages_of bytes) (start_of book symbol every strict)) (\<lambda>b.
     andthen (bo_validate ops (bb_book b)) (\<lambda>_. Inr (outcome_report b, bb_book b)))"
  by (simp only: replay_once_def start_of_def drive_start)

lemma same_start: "R book rs \<Longrightarrow> same_but R same_journal (start_of book symbol every strict) (start_of rs symbol every' strict)"
  by (auto simp: same_but_def start_of_def builder_new_def observer_new_def intro: same_journalI)

lemma same_report: "same_but R same_journal b n \<Longrightarrow> same_outcome (outcome_report b) (outcome_report n)"
  unfolding same_but_def by (auto simp: same_outcome_def outcome_report_def Let_def dest: same_journalD)

context order_book
begin

theorem replay_rel:
  assumes "rep book []" and "replay_room (limit book) ok_price bytes symbol strict"
  shows "rel_sum (=) (\<lambda>(o1, b) (o2, rs). same_outcome o1 o2 \<and> rep b rs)
    (replay_once ops book bytes symbol every strict) (replay_once naive_ops [] bytes symbol 0 strict)"
proof -
  have "replayed.keeps (limit book) book []" using assms(1) by (simp add: replayed.keeps_def)
  then have run: "rel_sum (=) (replayed.tracks (limit book))
      (handle_all (builder_on ops (replay_hooks ops)) (messages_of bytes) (start_of book symbol every strict))
      (handle_all (builder_on naive_ops (replay_hooks naive_ops)) (messages_of bytes) (start_of [] symbol 0 strict))"
    using assms(2) by (intro replayed.feed_rel) (simp_all add: replay_room_def replayed.tracks_def same_start)
  show ?thesis
    unfolding replay_once_messages
  proof (rule rel_sum_andthen [OF run])
    fix b :: "('b, replay_observer) builder" and n :: "(naive_book, replay_observer) builder"
    assume s: "replayed.tracks (limit book) b n"
    then show "rel_sum (=) (\<lambda>(o1, b) (o2, rs). same_outcome o1 o2 \<and> rep b rs)
        (andthen (bo_validate ops (bb_book b)) (\<lambda>_. Inr (outcome_report b, bb_book b)))
        (andthen (bo_validate naive_ops (bb_book n)) (\<lambda>_. Inr (outcome_report n, bb_book n)))"
      using same_report [OF s [unfolded replayed.tracks_def]] replayed.tracksD(2) [OF s] by (simp add: validate_ok)
  qed
qed

end

end
