(* ===== verification/Replay_Feed.thy ===== *)
theory Replay_Feed
  imports Replay_Laws
begin

text \<open>
  What a feed spells: the operations it asks of the book of one symbol, which are exactly
  those the builder performs; and the conservation of quantity that the observer asserts.
\<close>

section \<open>The operations a feed spells\<close>

definition side_of_indicator :: "char \<Rightarrow> side" where
  "side_of_indicator c = (if c = CHR ''B'' then Buy else Sell)"

text \<open>The locate code of a message about the book, and what it asks for.\<close>

fun event_op :: "event \<Rightarrow> (u16 \<times> book_op) option" where
  "event_op (on_add_order v) = Some (AddOrder_stock_locate v,
     Add (AddOrder_order_reference_number v) (side_of_indicator (AddOrder_buy_sell_indicator v)) (AddOrder_price v) (AddOrder_shares v) 0)"
| "event_op (on_add_order_with_mpid v) = Some (AddOrderWithMpid_stock_locate v,
     Add (AddOrderWithMpid_order_reference_number v) (side_of_indicator (AddOrderWithMpid_buy_sell_indicator v))
       (AddOrderWithMpid_price v) (AddOrderWithMpid_shares v) 0)"
| "event_op (on_order_executed v) = Some (OrderExecuted_stock_locate v,
     Execute (OrderExecuted_order_reference_number v) (OrderExecuted_executed_shares v))"
| "event_op (on_order_executed_with_price v) = Some (OrderExecutedWithPrice_stock_locate v,
     Execute (OrderExecutedWithPrice_order_reference_number v) (OrderExecutedWithPrice_executed_shares v))"
| "event_op (on_order_cancel v) = Some (OrderCancel_stock_locate v,
     Cancel (OrderCancel_order_reference_number v) (OrderCancel_cancelled_shares v))"
| "event_op (on_order_delete v) = Some (OrderDelete_stock_locate v, Delete (OrderDelete_order_reference_number v))"
| "event_op (on_order_replace v) = Some (OrderReplace_stock_locate v,
     Replace (OrderReplace_original_order_reference_number v) (OrderReplace_new_order_reference_number v)
       (OrderReplace_price v) (OrderReplace_shares v))"
| "event_op _ = None"

text \<open>
  The first directory message for the symbol (any one, when no symbol is asked for) fixes
  the locate code; the book messages with that code are the operations.
\<close>

fun feed_ops :: "string \<Rightarrow> u16 option \<Rightarrow> event list \<Rightarrow> book_op list" where
  "feed_ops symbol locate [] = []"
| "feed_ops symbol None (on_stock_directory v # es) =
     (if symbol = [] \<or> trim_alpha (StockDirectory_stock v) = symbol
      then feed_ops (trim_alpha (StockDirectory_stock v)) (Some (StockDirectory_stock_locate v)) es
      else feed_ops symbol None es)"
| "feed_ops symbol locate (e # es) =
     (case event_op e of
        Some (l, x) \<Rightarrow> if locate = Some l then x # feed_ops symbol locate es else feed_ops symbol locate es
      | None \<Rightarrow> feed_ops symbol locate es)"

definition locate_of :: "('b, 'o) builder \<Rightarrow> u16 option" where
  "locate_of b = (if bb_resolved b then Some (bb_locate b) else None)"

lemma mine_locate: "mine l b \<longleftrightarrow> locate_of b = Some l"
  by (auto simp: mine_def locate_of_def)

text \<open>A step that succeeds: the operation of the message, when it is of the symbol.\<close>

definition applied_of :: "('b, 'o) builder \<Rightarrow> u64" where
  "applied_of b = bs_applied (bb_stats b)"

definition moved :: "'b book_ops \<Rightarrow> book_op option \<Rightarrow> ('b, 'o) builder \<Rightarrow> ('b, 'o) builder \<Rightarrow> bool" where
  "moved ops x b b' \<longleftrightarrow> bb_symbol b' = bb_symbol b \<and> locate_of b' = locate_of b \<and>
     (case x of None \<Rightarrow> bb_book b' = bb_book b \<and> applied_of b' = applied_of b
      | Some x \<Rightarrow> apply_op ops x (bb_book b) = Inr (bb_book b') \<and> applied_of b' = applied_of b + 1)"

lemma observe_fields:
  assumes "observe hook b = Inr b'"
  shows "bb_book b' = bb_book b" and "bb_symbol b' = bb_symbol b" and "locate_of b' = locate_of b" and "bb_stats b' = bb_stats b"
  using assms by (auto simp: observe_def andthen_eq_Inr locate_of_def)

lemma seen_fields [simp]: "bb_symbol (seen ts b) = bb_symbol b" "locate_of (seen ts b) = locate_of b" "applied_of (seen ts b) = applied_of b"
  by (simp_all add: seen_def count_stat_def Let_def locate_of_def applied_of_def)

lemma count_fields [simp]:
  "bb_book (count_stat f b) = bb_book b" "bb_symbol (count_stat f b) = bb_symbol b" "locate_of (count_stat f b) = locate_of b"
  "bb_stats (count_stat f b) = f (bb_stats b)"
  by (simp_all add: count_stat_def locate_of_def)

lemma book_update_fields [simp]:
  "locate_of (b\<lparr>bb_book := x\<rparr>) = locate_of b"
  by (simp add: locate_of_def)

lemma moved_none [simp]: "moved ops None b (seen ts b)"
  by (simp add: moved_def)

lemma moved_seen: "moved ops x (seen ts b) b' \<Longrightarrow> moved ops x b b'"
  by (auto simp: moved_def split: option.splits)

text \<open>A successful tail of a handler.\<close>

lemma applied_update [simp]: "bs_applied (st\<lparr>bs_applied := n\<rparr>) = n" for st :: builder_stats
  by (cases st) simp

lemma seen_applied [simp]: "bs_applied (bb_stats (seen ts b)) = bs_applied (bb_stats b)"
  by (simp add: seen_def count_stat_def Let_def)

lemma finish_moved:
  assumes "observe hook0 b = Inr b1" and "apply_op ops x (bb_book b1) = Inr book"
    and "observe hook (count_stat f (b1\<lparr>bb_book := book\<rparr>)) = Inr b'" and "\<And>st. bs_applied (f st) = bs_applied st + 1"
  shows "moved ops (Some x) b b'"
  using observe_fields [OF assms(1)] observe_fields [OF assms(3)] assms(2,4) by (simp add: moved_def applied_of_def)

lemma do_moved:
  "do_add ops obs ref ind p q ts b = Inr b' \<Longrightarrow> moved ops (Some (Add ref (side_of_indicator ind) p q 0)) b b'"
  "do_execute ops obs ref q ts b = Inr b' \<Longrightarrow> moved ops (Some (Execute ref q)) b b'"
  "do_cancel ops obs ref q ts b = Inr b' \<Longrightarrow> moved ops (Some (Cancel ref q)) b b'"
  "do_delete ops obs ref ts b = Inr b' \<Longrightarrow> moved ops (Some (Delete ref)) b b'"
proof -
  show "moved ops (Some (Add ref (side_of_indicator ind) p q 0)) b b'" if a: "do_add ops obs ref ind p q ts b = Inr b'"
  proof -
    obtain b1 book where d: "observe (ob_before_add obs (bb_book b) (side_of_indicator ind) p q) b = Inr b1"
      "bo_add ops ref (side_of_indicator ind) p q 0 (bb_book b1) = Inr book"
      "observe (ob_after_apply obs book ts)
         (count_stat (\<lambda>st. st\<lparr>bs_adds := bs_adds st + 1, bs_applied := bs_applied st + 1\<rparr>) (b1\<lparr>bb_book := book\<rparr>)) = Inr b'"
      using a unfolding do_add_def Let_def result_dest side_of_indicator_def [symmetric] by auto
    show ?thesis by (rule finish_moved [OF d(1) _ d(3)], simp add: d(2), simp (no_asm))
  qed
  show "moved ops (Some (Execute ref q)) b b'" if "do_execute ops obs ref q ts b = Inr b'"
    using that unfolding do_execute_def Let_def result_dest split_paired_Ex prod.case
    by (elim exE conjE, intro finish_moved) (assumption | simp (no_asm) | simp)+
  show "moved ops (Some (Cancel ref q)) b b'" if "do_cancel ops obs ref q ts b = Inr b'"
    using that unfolding do_cancel_def Let_def result_dest
    by (elim exE conjE, intro finish_moved) (assumption | simp (no_asm) | simp)+
  show "moved ops (Some (Delete ref)) b b'" if "do_delete ops obs ref ts b = Inr b'"
    using that unfolding do_delete_def Let_def result_dest
    by (elim exE conjE, intro finish_moved) (assumption | simp (no_asm) | simp)+
qed

lemma do_replace_moved:
  assumes "do_replace ops obs ref new_ref p q ts b = Inr b'"
  shows "moved ops (Some (Replace ref new_ref p q)) b b'"
proof -
  obtain side held b1 b2 book where d: "observe (ob_note_reduction obs side held) b = Inr b1"
    "observe (ob_before_add obs (bb_book b1) side p q) b1 = Inr b2" "bo_replace ops ref new_ref p q (bb_book b2) = Inr book"
    "observe (ob_after_apply obs book ts)
       (count_stat (\<lambda>st. st\<lparr>bs_replaces := bs_replaces st + 1, bs_applied := bs_applied st + 1\<rparr>) (b2\<lparr>bb_book := book\<rparr>)) = Inr b'"
    using assms unfolding do_replace_def Let_def result_dest by auto
  have "moved ops (Some (Replace ref new_ref p q)) b1 b'" by (rule finish_moved [OF d(2) _ d(4)], simp add: d(3), simp (no_asm))
  then show ?thesis using observe_fields [OF d(1)] by (simp add: moved_def applied_of_def)
qed

definition step_op :: "event \<Rightarrow> ('b, 'o) builder \<Rightarrow> book_op option" where
  "step_op e b = (case event_op e of Some (l, x) \<Rightarrow> if locate_of b = Some l then Some x else None | None \<Rightarrow> None)"

lemma builder_on_moved:
  assumes "builder_on ops obs e b = Inr b'" and "\<And>v. e \<noteq> on_stock_directory v"
  shows "moved ops (step_op e b) b b'"
  using assms
  by (cases e)
    (auto simp: step_op_def mine_locate add_order_def add_order_with_mpid_def order_executed_def order_executed_with_price_def
      order_cancel_def order_delete_def order_replace_def trade_non_cross_def cross_trade_def broken_trade_def Let_def
      moved_def [of _ None] applied_of_def
      intro!: moved_seen [OF do_moved(1)] moved_seen [OF do_moved(2)] moved_seen [OF do_moved(3)] moved_seen [OF do_moved(4)]
        moved_seen [OF do_replace_moved] split: if_splits)

text \<open>A whole feed performs the operations it spells.\<close>

lemma stock_directory_ops:
  assumes "stock_directory v b = Inr b'"
  shows "bb_book b' = bb_book b" and "applied_of b' = applied_of b"
    and "feed_ops (bb_symbol b) (locate_of b) (on_stock_directory v # es) = feed_ops (bb_symbol b') (locate_of b') es"
  using assms by (auto simp: stock_directory_def Let_def locate_of_def applied_of_def seen_def count_stat_def split: if_splits)

lemma feed_ops_step:
  assumes "\<And>v. e \<noteq> on_stock_directory v"
  shows "feed_ops (bb_symbol b) (locate_of b) (e # es) =
    (case step_op e b of Some x \<Rightarrow> x # feed_ops (bb_symbol b) (locate_of b) es | None \<Rightarrow> feed_ops (bb_symbol b) (locate_of b) es)"
proof -
  have "feed_ops sy lo (e # es) = (case event_op e of
      Some (l, x) \<Rightarrow> if lo = Some l then x # feed_ops sy lo es else feed_ops sy lo es | None \<Rightarrow> feed_ops sy lo es)" for sy lo
    using assms by (cases e; cases lo) simp_all
  then show ?thesis by (simp add: step_op_def split: option.splits)
qed

theorem handle_all_ops:
  assumes "handle_all (builder_on ops obs) es b = Inr b'"
  shows "run_ops ops (feed_ops (bb_symbol b) (locate_of b) es) (bb_book b) = Inr (bb_book b') \<and>
    applied_of b' = applied_of b + of_nat (length (feed_ops (bb_symbol b) (locate_of b) es))"
  using assms
proof (induction es arbitrary: b)
  case (Cons e es)
  obtain b1 where b1: "builder_on ops obs e b = Inr b1" "handle_all (builder_on ops obs) es b1 = Inr b'"
    using Cons.prems by (auto simp: andthen_eq_Inr)
  note ih = Cons.IH [OF b1(2)]
  show ?case
  proof (cases "\<exists>v. e = on_stock_directory v")
    case True
    then obtain v where e: "e = on_stock_directory v" by blast
    then have "stock_directory v b = Inr b1" using b1(1) by simp
    from stock_directory_ops(1,2) [OF this] stock_directory_ops(3) [OF this, of es] ih show ?thesis by (simp only: e)
  next
    case False
    then have n: "\<And>v. e \<noteq> on_stock_directory v" by blast
    have "moved ops (step_op e b) b b1" by (rule builder_on_moved [OF b1(1) n])
    then show ?thesis
      using ih unfolding feed_ops_step [OF n] moved_def by (auto split: option.splits)
  qed
qed simp

section \<open>Conservation of quantity\<close>

text \<open>Never stopping at the assertion that the book holds what the messages left.\<close>

definition safe :: "('a \<Rightarrow> bool) \<Rightarrow> failure + 'a \<Rightarrow> bool" where
  "safe P r \<longleftrightarrow> (case r of Inl e \<Rightarrow> e \<noteq> ReplayF NotConserved | Inr x \<Rightarrow> P x)"

lemma safe_simps [simp]: "safe P (Inr x) = P x" "safe P (Inl e) \<longleftrightarrow> e \<noteq> ReplayF NotConserved"
  by (simp_all add: safe_def)

lemma safe_andthen: "safe P m \<Longrightarrow> (\<And>x. m = Inr x \<Longrightarrow> P x \<Longrightarrow> safe Q (f x)) \<Longrightarrow> safe Q (andthen m f)"
  by (cases m) auto

lemma safe_ensure: "(c \<Longrightarrow> safe Q (f ())) \<Longrightarrow> e \<noteq> ReplayF NotConserved \<Longrightarrow> safe Q (andthen (ensure c e) f)"
  by (cases c) simp_all

definition conserved :: "(naive_book, replay_observer) builder \<Rightarrow> bool" where
  "conserved b \<longleftrightarrow> wf_book (bb_book b) \<and> ro_expected_qty (bb_observer b) = nb_total_qty (bb_book b)"

lemma sb_require_Inr: "sb_require rs ref what = Inr x \<longleftrightarrow> nb_find rs ref = Some x"
  by (simp add: sb_require_def split: option.splits)

lemma safe_require: "safe (\<lambda>x. nb_find rs ref = Some x) (sb_require rs ref what)"
  by (simp add: sb_require_def split: option.splits)

lemma totals:
  assumes "wf_book rs"
  shows "sb_add ref s p q ow rs = Inr rs' \<Longrightarrow> wf_book rs' \<and> nb_total_qty rs' = (nb_total_qty rs)(s := nb_total_qty rs s + ucast q)"
    and "nb_find rs ref = Some x \<Longrightarrow> n \<le> r_qty x \<Longrightarrow> wf_book (nb_cancel ref n rs) \<and>
      nb_total_qty (nb_cancel ref n rs) = (nb_total_qty rs)(r_side x := nb_total_qty rs (r_side x) - ucast n)"
    and "nb_find rs ref = Some x \<Longrightarrow> wf_book (nb_erase ref rs) \<and>
      nb_total_qty (nb_erase ref rs) = (nb_total_qty rs)(r_side x := nb_total_qty rs (r_side x) - ucast (r_qty x))"
proof -
  show "wf_book rs' \<and> nb_total_qty rs' = (nb_total_qty rs)(s := nb_total_qty rs s + ucast q)" if a: "sb_add ref s p q ow rs = Inr rs'"
    using a assms
    by (auto simp: sb_add_def nb_contains_iff nb_total_qty_def on_side_add fun_eq_iff intro: wf_nb_add split: if_splits)
  show e: "wf_book (nb_erase ref rs) \<and>
      nb_total_qty (nb_erase ref rs) = (nb_total_qty rs)(r_side x := nb_total_qty rs (r_side x) - ucast (r_qty x))"
    if a: "nb_find rs ref = Some x" for x
    using a wf_nb_erase [OF assms] total_erase [OF assms, of x] nb_find_Some [OF assms] by auto
  show "wf_book (nb_cancel ref n rs) \<and>
      nb_total_qty (nb_cancel ref n rs) = (nb_total_qty rs)(r_side x := nb_total_qty rs (r_side x) - ucast n)"
    if a: "nb_find rs ref = Some x" "n \<le> r_qty x"
  proof -
    have x: "x \<in> set rs" "r_ref x = ref" using a(1) nb_find_Some [OF assms] by auto
    show ?thesis
      using wf_nb_cancel [OF assms x, of n] nb_cancel_cases [OF assms x, of n] e [OF a(1)] total_take [OF assms x(1) a(2)] x(2) by auto
  qed
qed

lemma after_apply_safe:
  assumes "ro_expected_qty r = nb_total_qty rs"
  shows "safe (\<lambda>r'. ro_expected_qty r' = nb_total_qty rs) (ro_after_apply naive_ops rs ts r)"
  using assms
  by (auto simp: ro_after_apply_def Let_def ro_crossed_check_def ensure_def ro_peaks_def ro_structural_def ro_validation_def
      book_digest_def feed_side_def)

lemma observe_safe:
  "safe (\<lambda>o'. P (b\<lparr>bb_observer := o'\<rparr>)) (hook (bb_observer b)) \<Longrightarrow> safe P (observe hook b)"
  unfolding observe_def by (erule safe_andthen) simp

lemma tail_safe:
  assumes "wf_book book" and "ro_expected_qty (bb_observer b) = nb_total_qty book"
  shows "safe conserved (observe (ob_after_apply (replay_hooks naive_ops) book ts) (count_stat f (b\<lparr>bb_book := book\<rparr>)))"
  using assms after_apply_safe [of "bb_observer b" book ts]
  by (intro observe_safe) (simp add: replay_hooks_def conserved_def count_stat_def)

lemma note_safe:
  "safe (\<lambda>b'. bb_book b' = bb_book b \<and> ro_expected_qty (bb_observer b') =
      (ro_expected_qty (bb_observer b))(s := ro_expected_qty (bb_observer b) s - ucast q))
    (observe (ob_note_reduction (replay_hooks naive_ops) s q) b)"
  by (rule observe_safe) (simp add: replay_hooks_def ro_note_reduction_def ensure_def)

lemma before_safe:
  "safe (\<lambda>b'. bb_book b' = bb_book b \<and> ro_expected_qty (bb_observer b') =
      (ro_expected_qty (bb_observer b))(s := ro_expected_qty (bb_observer b) s + ucast q))
    (observe (ob_before_add (replay_hooks naive_ops) rs s p q) b)"
  by (rule observe_safe) (simp add: replay_hooks_def ro_before_add_def)

lemma do_safe:
  assumes c: "conserved b"
  shows "safe conserved (do_add naive_ops (replay_hooks naive_ops) ref ind p q ts b)"
    and "safe conserved (do_execute naive_ops (replay_hooks naive_ops) ref q ts b)"
    and "safe conserved (do_cancel naive_ops (replay_hooks naive_ops) ref q ts b)"
    and "safe conserved (do_delete naive_ops (replay_hooks naive_ops) ref ts b)"
    and "safe conserved (do_replace naive_ops (replay_hooks naive_ops) ref new_ref p q ts b)"
proof -
  have wf: "wf_book (bb_book b)" and ex: "ro_expected_qty (bb_observer b) = nb_total_qty (bb_book b)"
    using c by (simp_all add: conserved_def)
  have side: "safe (\<lambda>s. \<exists>x. nb_find (bb_book b) ref = Some x \<and> s = r_side x) (bo_side_of naive_ops (bb_book b) ref)"
    by (simp, rule safe_andthen [OF safe_require]) simp
  have held: "safe (\<lambda>n. \<exists>x. nb_find (bb_book b) ref = Some x \<and> n = r_qty x) (bo_qty_of naive_ops (bb_book b) ref)"
    by (simp, rule safe_andthen [OF safe_require]) simp
  have add: "safe (\<lambda>rs'. sb_add r s p q ow rs = Inr rs') (sb_add r s p q ow rs)" for r s p q ow rs
    by (simp add: sb_add_def)
  have swap: "safe (\<lambda>y. wf_book y \<and> nb_total_qty y = (nb_total_qty (bb_book b))
      (r_side x := nb_total_qty (bb_book b) (r_side x) - ucast (r_qty x) + ucast q)) (sb_replace ref new_ref p q (bb_book b))"
    if f: "nb_find (bb_book b) ref = Some x" for x
    using totals(3) [OF wf f] totals(1) [of "nb_erase ref (bb_book b)"] add [of new_ref "r_side x" p q "r_owner x" "nb_erase ref (bb_book b)"]
    by (cases "sb_add new_ref (r_side x) p q (r_owner x) (nb_erase ref (bb_book b))") (simp_all add: sb_replace_def sb_require_def f)
  show "safe conserved (do_add naive_ops (replay_hooks naive_ops) ref ind p q ts b)"
    unfolding do_add_def Let_def
    by (rule safe_ensure, rule safe_andthen [OF before_safe], simp only: naive_ops_simps, rule safe_andthen [OF add])
      (use ex totals(1) [OF wf] in \<open>auto intro!: tail_safe\<close>)
  show "safe conserved (do_execute naive_ops (replay_hooks naive_ops) ref q ts b)"
    unfolding do_execute_def Let_def
    by (rule safe_andthen [OF side], rule safe_andthen [OF note_safe])
      (use ex totals(2) [OF wf] in \<open>auto simp: sb_execute_def sb_require_def intro!: tail_safe\<close>)
  show "safe conserved (do_cancel naive_ops (replay_hooks naive_ops) ref q ts b)"
    unfolding do_cancel_def Let_def
    by (rule safe_andthen [OF side], rule safe_andthen [OF note_safe])
      (use ex totals(2) [OF wf] in \<open>auto simp: sb_cancel_def sb_require_def intro!: tail_safe\<close>)
  show "safe conserved (do_delete naive_ops (replay_hooks naive_ops) ref ts b)"
    unfolding do_delete_def Let_def
    by (rule safe_andthen [OF side], rule safe_andthen [OF held], rule safe_andthen [OF note_safe])
      (use ex totals(3) [OF wf] in \<open>auto simp: sb_remove_def sb_require_def intro!: tail_safe\<close>)
  show "safe conserved (do_replace naive_ops (replay_hooks naive_ops) ref new_ref p q ts b)"
    unfolding do_replace_def Let_def
    by (rule safe_andthen [OF side], rule safe_andthen [OF held], rule safe_andthen [OF note_safe], rule safe_andthen [OF before_safe],
        elim exE conjE, simp only: naive_ops_simps, rule safe_andthen [OF swap])
      (use ex in \<open>auto intro!: tail_safe\<close>)
qed

lemma seen_conserved [simp]: "conserved (seen ts b) = conserved b"
  by (simp add: conserved_def)

lemma builder_on_safe:
  assumes "conserved b"
  shows "safe conserved (builder_on naive_ops (replay_hooks naive_ops) e b)"
proof -
  have c: "conserved (seen ts b)" for ts using assms by simp
  have k: "conserved (count_stat f b)" if "conserved b" for f and b :: "(naive_book, replay_observer) builder"
    using that by (simp add: conserved_def count_stat_def)
  show ?thesis
    using assms c k do_safe [OF c]
    by (cases e) (auto simp: stock_directory_def add_order_def add_order_with_mpid_def order_executed_def order_executed_with_price_def
        order_cancel_def order_delete_def order_replace_def trade_non_cross_def cross_trade_def broken_trade_def Let_def conserved_def)
qed

lemma handle_all_safe: "conserved b \<Longrightarrow> safe conserved (handle_all (builder_on naive_ops (replay_hooks naive_ops)) es b)"
proof (induction es arbitrary: b)
  case (Cons e es)
  show ?case by (simp, rule safe_andthen [OF builder_on_safe [OF Cons.prems]]) (rule Cons.IH)
qed simp

end
