(* ===== verification/Replay_Complete.thy ===== *)
theory Replay_Complete
  imports Replay_Feed Matching_Engine_Laws
begin

text \<open>
  Which feeds are replayed to their end. Over the list of resting orders the replay ends
  exactly when the list accepts the operations of the feed and, if the observer is strict,
  none of them leaves the book crossed; the outcome then counts the operations.
\<close>

section \<open>What the observer keeps\<close>

text \<open>The observer has counted what the builder applied, and lets crossed books pass.\<close>

definition counted :: "('b, replay_observer) builder \<Rightarrow> bool" where
  "counted b \<longleftrightarrow> ro_applied (bb_observer b) = applied_of b"

definition relaxed :: "('b, replay_observer) builder \<Rightarrow> bool" where
  "relaxed b \<longleftrightarrow> \<not> ro_strict (bb_observer b)"

lemma observer_keeps:
  "ro_note_reduction s q r = Inr r' \<Longrightarrow> ro_applied r' = ro_applied r \<and> ro_strict r' = ro_strict r"
  "ro_applied (ro_before_add s q r) = ro_applied r" "ro_strict (ro_before_add s q r) = ro_strict r"
  "ro_after_apply ops b ts r = Inr r' \<Longrightarrow> ro_applied r' = ro_applied r + 1 \<and> ro_strict r' = ro_strict r"
  by (auto simp: ro_note_reduction_def ro_before_add_def ro_after_apply_def Let_def result_dest ro_crossed_check_def
      ro_peaks_def ro_structural_def ro_validation_def split: if_splits)

lemma hooks_keep:
  "observe (ob_note_reduction (replay_hooks ops) s q) b = Inr b1 \<Longrightarrow>
     ro_applied (bb_observer b1) = ro_applied (bb_observer b) \<and> ro_strict (bb_observer b1) = ro_strict (bb_observer b)"
  "observe (ob_before_add (replay_hooks ops) rs s p q) b = Inr b1 \<Longrightarrow>
     ro_applied (bb_observer b1) = ro_applied (bb_observer b) \<and> ro_strict (bb_observer b1) = ro_strict (bb_observer b)"
  "observe (ob_after_apply (replay_hooks ops) rs ts) b = Inr b1 \<Longrightarrow>
     ro_applied (bb_observer b1) = ro_applied (bb_observer b) + 1 \<and> ro_strict (bb_observer b1) = ro_strict (bb_observer b)"
  by (auto simp: observe_def replay_hooks_def andthen_eq_Inr observer_keeps(2,3) dest: observer_keeps(1,4))

text \<open>The tail of a handler, from the state the earlier hooks left.\<close>

definition kept :: "('b, replay_observer) builder \<Rightarrow> ('b, replay_observer) builder \<Rightarrow> bool" where
  "kept b b1 \<longleftrightarrow> ro_applied (bb_observer b1) = ro_applied (bb_observer b) \<and> ro_strict (bb_observer b1) = ro_strict (bb_observer b)"

text \<open>An observer that is not strict lets any book pass, a strict one an uncrossed book.\<close>

definition lets_pass :: "('b, replay_observer) builder \<Rightarrow> naive_book \<Rightarrow> bool" where
  "lets_pass b rs \<longleftrightarrow> ro_strict (bb_observer b) \<longrightarrow> \<not> nb_crossed rs"

definition advanced :: "('b, replay_observer) builder \<Rightarrow> ('b, replay_observer) builder \<Rightarrow> bool" where
  "advanced b b' \<longleftrightarrow> ro_applied (bb_observer b') = ro_applied (bb_observer b) + 1 \<and> ro_strict (bb_observer b') = ro_strict (bb_observer b)"

lemma tail_advanced:
  assumes "kept b b1" and "observe (ob_after_apply (replay_hooks ops) book ts) (count_stat f (b1\<lparr>bb_book := x\<rparr>)) = Inr b'"
  shows "advanced b b'"
  using assms(1) hooks_keep(3) [OF assms(2)] by (simp add: kept_def advanced_def count_stat_def)

lemma kept_hooks:
  "observe (ob_note_reduction (replay_hooks ops) s q) b = Inr b1 \<Longrightarrow> kept b b1"
  "observe (ob_before_add (replay_hooks ops) rs s p q) b = Inr b1 \<Longrightarrow> kept b b1"
  "kept b b1 \<Longrightarrow> observe (ob_before_add (replay_hooks ops) rs s p q) b1 = Inr b2 \<Longrightarrow> kept b b2"
  using hooks_keep(1) [of ops s q b b1] hooks_keep(2) [of ops rs s p q b b1] hooks_keep(2) [of ops rs s p q b1 b2]
  by (auto simp: kept_def)

lemma do_advanced:
  "do_add ops (replay_hooks ops) ref ind p q ts b = Inr b' \<Longrightarrow> advanced b b'"
  "do_execute ops (replay_hooks ops) ref q ts b = Inr b' \<Longrightarrow> advanced b b'"
  "do_cancel ops (replay_hooks ops) ref q ts b = Inr b' \<Longrightarrow> advanced b b'"
  "do_delete ops (replay_hooks ops) ref ts b = Inr b' \<Longrightarrow> advanced b b'"
  "do_replace ops (replay_hooks ops) ref new_ref p q ts b = Inr b' \<Longrightarrow> advanced b b'"
  unfolding do_add_def do_execute_def do_cancel_def do_delete_def do_replace_def Let_def result_dest split_paired_Ex prod.case
  by (elim exE conjE, rule tail_advanced [rotated], assumption, blast intro: kept_hooks)+

lemma seen_observer [simp]: "advanced (seen ts b) b' = advanced b b'" "counted (seen ts b) = counted b"
  by (simp_all add: advanced_def counted_def)

lemma builder_on_counted:
  assumes "builder_on ops (replay_hooks ops) e b = Inr b'" and "counted b"
  shows "counted b'" and "relaxed b' = relaxed b"
proof -
  have "counted b' \<and> relaxed b' = relaxed b"
  proof (cases "\<exists>v. e = on_stock_directory v")
    case True
    then show ?thesis
      using assms by (auto simp: stock_directory_def Let_def counted_def relaxed_def applied_of_def split: if_splits)
  next
    case False
    then have m: "moved ops (step_op e b) b b'" using builder_on_moved [OF assms(1)] by blast
    show ?thesis
    proof (cases "step_op e b")
      case None
      then have "bb_observer b' = bb_observer b"
        using assms(1) False
        by (cases e) (auto simp: step_op_def mine_locate add_order_def add_order_with_mpid_def order_executed_def
            order_executed_with_price_def order_cancel_def order_delete_def order_replace_def trade_non_cross_def
            cross_trade_def broken_trade_def count_stat_def Let_def split: if_splits)
      with m None assms(2) show ?thesis by (simp add: counted_def relaxed_def moved_def)
    next
      case (Some x)
      then have "advanced b b'"
        using assms(1)
        by (cases e) (auto simp: step_op_def mine_locate add_order_def add_order_with_mpid_def order_executed_def
            order_executed_with_price_def order_cancel_def order_delete_def order_replace_def Let_def
            dest: do_advanced split: if_splits)
      with m Some assms(2) show ?thesis by (simp add: counted_def relaxed_def advanced_def moved_def)
    qed
  qed
  then show "counted b'" "relaxed b' = relaxed b" by blast+
qed

lemma handle_all_counted:
  "handle_all (builder_on ops (replay_hooks ops)) es b = Inr b' \<Longrightarrow> counted b \<Longrightarrow> counted b' \<and> relaxed b' = relaxed b"
  by (induction es arbitrary: b) (auto simp: andthen_eq_Inr dest: builder_on_counted)

section \<open>A feed the list accepts\<close>

text \<open>The buy or sell indicator of an add is one of the two letters.\<close>

fun indicator_ok :: "event \<Rightarrow> bool" where
  "indicator_ok (on_add_order v) \<longleftrightarrow> AddOrder_buy_sell_indicator v \<in> {CHR ''B'', CHR ''S''}"
| "indicator_ok (on_add_order_with_mpid v) \<longleftrightarrow> AddOrderWithMpid_buy_sell_indicator v \<in> {CHR ''B'', CHR ''S''}"
| "indicator_ok _ \<longleftrightarrow> True"

definition returns :: "('a \<Rightarrow> bool) \<Rightarrow> failure + 'a \<Rightarrow> bool" where
  "returns P r \<longleftrightarrow> (\<exists>x. r = Inr x \<and> P x)"

lemma returns_simps [simp]: "returns P (Inr x) = P x" "returns P (Inl e) = False"
  by (simp_all add: returns_def)

lemma returns_andthen: "returns P m \<Longrightarrow> (\<And>x. P x \<Longrightarrow> returns Q (f x)) \<Longrightarrow> returns Q (andthen m f)"
  by (auto simp: returns_def)

lemma returns_observe: "returns (\<lambda>o'. P (b\<lparr>bb_observer := o'\<rparr>)) (hook (bb_observer b)) \<Longrightarrow> returns P (observe hook b)"
  by (auto simp: returns_def observe_def)

lemma after_apply_returns:
  assumes "ro_expected_qty r = nb_total_qty rs" and "ro_strict r \<longrightarrow> \<not> nb_crossed rs"
  shows "returns (\<lambda>_. True) (ro_after_apply naive_ops rs ts r)"
  using assms
  by (auto simp: ro_after_apply_def Let_def ro_crossed_check_def ro_peaks_def ro_structural_def ro_validation_def
      book_digest_def feed_side_def nb_crossed_def)

text \<open>Where the handler of an operation stands after its earlier hooks.\<close>

definition staged :: "(side \<Rightarrow> u64) \<Rightarrow> ('b, replay_observer) builder \<Rightarrow> ('b, replay_observer) builder \<Rightarrow> bool" where
  "staged t b b1 \<longleftrightarrow> bb_book b1 = bb_book b \<and> ro_expected_qty (bb_observer b1) = t \<and> ro_strict (bb_observer b1) = ro_strict (bb_observer b)"

lemma tail_returns:
  assumes "staged (nb_total_qty book) b b1" and "lets_pass b book"
  shows "returns (\<lambda>_. True) (observe (ob_after_apply (replay_hooks naive_ops) book ts) (count_stat f (b1\<lparr>bb_book := book\<rparr>)))"
  using assms by (intro returns_observe) (simp add: replay_hooks_def count_stat_def staged_def lets_pass_def after_apply_returns)

lemma before_returns:
  assumes "staged t b b1"
  shows "returns (staged (t(s := t s + ucast q)) b) (observe (ob_before_add (replay_hooks naive_ops) rs s p q) b1)"
  using assms by (intro returns_observe) (simp add: replay_hooks_def staged_def ro_before_add_def)

lemma note_returns:
  assumes "ucast q \<le> ro_expected_qty (bb_observer b) s"
  shows "returns (staged ((ro_expected_qty (bb_observer b))(s := ro_expected_qty (bb_observer b) s - ucast q)) b)
    (observe (ob_note_reduction (replay_hooks naive_ops) s q) b)"
  using assms by (intro returns_observe) (simp add: replay_hooks_def staged_def ro_note_reduction_def)

lemma total_ge:
  assumes "wf_book rs" and "length rs < 2 ^ 32" and "nb_find rs ref = Some x" and "q \<le> r_qty x"
  shows "ucast q \<le> nb_total_qty rs (r_side x)"
proof -
  have "x \<in> set (on_side (r_side x) rs)" using assms(1,3) by (simp add: nb_find_Some on_side_def)
  moreover have "length (on_side (r_side x) rs) < 2 ^ 32"
    using assms(2) length_filter_le [of _ rs] unfolding on_side_def by (rule order.strict_trans1 [rotated])
  ultimately have "ucast (r_qty x) \<le> nb_total_qty rs (r_side x)" unfolding nb_total_qty_def by (intro qsum_ge)
  moreover have "(ucast q :: u64) \<le> ucast (r_qty x)" using assms(4) by (simp add: word_le_nat_alt unat_ucast64)
  ultimately show ?thesis by (rule order.trans [rotated])
qed

lemma do_returns:
  assumes c: "conserved b" and r: "lets_pass b rs'" and n: "length (bb_book b) < 2 ^ 32"
  shows "ind \<in> {CHR ''B'', CHR ''S''} \<Longrightarrow> apply_op naive_ops (Add ref (side_of_indicator ind) p q 0) (bb_book b) = Inr rs' \<Longrightarrow>
      returns (\<lambda>_. True) (do_add naive_ops (replay_hooks naive_ops) ref ind p q ts b)"
    and "apply_op naive_ops (Execute ref q) (bb_book b) = Inr rs' \<Longrightarrow>
      returns (\<lambda>_. True) (do_execute naive_ops (replay_hooks naive_ops) ref q ts b)"
    and "apply_op naive_ops (Cancel ref q) (bb_book b) = Inr rs' \<Longrightarrow>
      returns (\<lambda>_. True) (do_cancel naive_ops (replay_hooks naive_ops) ref q ts b)"
    and "apply_op naive_ops (Delete ref) (bb_book b) = Inr rs' \<Longrightarrow>
      returns (\<lambda>_. True) (do_delete naive_ops (replay_hooks naive_ops) ref ts b)"
    and "apply_op naive_ops (Replace ref new_ref p q) (bb_book b) = Inr rs' \<Longrightarrow>
      returns (\<lambda>_. True) (do_replace naive_ops (replay_hooks naive_ops) ref new_ref p q ts b)"
proof -
  have wf: "wf_book (bb_book b)" and ex: "ro_expected_qty (bb_observer b) = nb_total_qty (bb_book b)"
    using c by (simp_all add: conserved_def)
  have start: "staged (nb_total_qty (bb_book b)) b b" by (simp add: staged_def ex)
  have noted: "returns (staged ((nb_total_qty (bb_book b))(r_side x := nb_total_qty (bb_book b) (r_side x) - ucast q)) b)
      (observe (ob_note_reduction (replay_hooks naive_ops) (r_side x) q) b)"
    if "nb_find (bb_book b) ref = Some x" "q \<le> r_qty x" for x q
    using note_returns [of q b "r_side x"] total_ge [OF wf n that] by (simp add: ex)
  note tail = tail_returns [OF _ r]
  show "returns (\<lambda>_. True) (do_add naive_ops (replay_hooks naive_ops) ref ind p q ts b)"
    if a: "ind \<in> {CHR ''B'', CHR ''S''}" "apply_op naive_ops (Add ref (side_of_indicator ind) p q 0) (bb_book b) = Inr rs'"
    unfolding do_add_def Let_def ensure_True [OF a(1) [simplified]] andthen_Inr side_of_indicator_def [symmetric]
    by (rule returns_andthen [OF before_returns [OF start]])
      (use a(2) totals(1) [OF wf] in \<open>auto simp: staged_def intro!: tail\<close>)
  show "returns (\<lambda>_. True) (do_execute naive_ops (replay_hooks naive_ops) ref q ts b)"
    if a: "apply_op naive_ops (Execute ref q) (bb_book b) = Inr rs'"
  proof -
    obtain x where x: "nb_find (bb_book b) ref = Some x" "q \<le> r_qty x" "rs' = nb_cancel ref q (bb_book b)"
      using a by (auto simp: sb_execute_def sb_require_def andthen_eq_Inr split: option.splits if_splits)
    show ?thesis
      unfolding do_execute_def Let_def
      by (simp add: sb_require_def x(1), rule returns_andthen [OF noted [OF x(1,2)]])
        (use x totals(2) [OF wf x(1,2)] in \<open>auto simp: sb_execute_def sb_require_def staged_def intro!: tail_returns [OF _ r [unfolded x(3)]]\<close>)
  qed
  show "returns (\<lambda>_. True) (do_cancel naive_ops (replay_hooks naive_ops) ref q ts b)"
    if a: "apply_op naive_ops (Cancel ref q) (bb_book b) = Inr rs'"
  proof -
    obtain x where x: "nb_find (bb_book b) ref = Some x" "q \<le> r_qty x" "rs' = nb_cancel ref q (bb_book b)"
      using a by (auto simp: sb_cancel_def sb_require_def andthen_eq_Inr split: option.splits if_splits)
    show ?thesis
      unfolding do_cancel_def Let_def
      by (simp add: sb_require_def x(1), rule returns_andthen [OF noted [OF x(1,2)]])
        (use x totals(2) [OF wf x(1,2)] in \<open>auto simp: sb_cancel_def sb_require_def staged_def intro!: tail_returns [OF _ r [unfolded x(3)]]\<close>)
  qed
  show "returns (\<lambda>_. True) (do_delete naive_ops (replay_hooks naive_ops) ref ts b)"
    if a: "apply_op naive_ops (Delete ref) (bb_book b) = Inr rs'"
  proof -
    obtain x where x: "nb_find (bb_book b) ref = Some x" "rs' = nb_erase ref (bb_book b)"
      using a by (auto simp: sb_remove_def sb_require_def andthen_eq_Inr split: option.splits)
    show ?thesis
      unfolding do_delete_def Let_def
      by (simp add: sb_require_def x(1), rule returns_andthen [OF noted [OF x(1) order.refl]])
        (use x(1) totals(3) [OF wf x(1)] in \<open>auto simp: sb_remove_def sb_require_def staged_def intro!: tail_returns [OF _ r [unfolded x(2)]]\<close>)
  qed
  show "returns (\<lambda>_. True) (do_replace naive_ops (replay_hooks naive_ops) ref new_ref p q ts b)"
    if a: "apply_op naive_ops (Replace ref new_ref p q) (bb_book b) = Inr rs'"
  proof -
    obtain x where x: "nb_find (bb_book b) ref = Some x"
      "sb_add new_ref (r_side x) p q (r_owner x) (nb_erase ref (bb_book b)) = Inr rs'"
      using a by (auto simp: sb_replace_def sb_require_def andthen_eq_Inr split: option.splits)
    have e: "nb_total_qty rs' = (nb_total_qty (bb_book b))
        (r_side x := nb_total_qty (bb_book b) (r_side x) - ucast (r_qty x) + ucast q)"
      using totals(3) [OF wf x(1)] totals(1) [OF _ x(2)] by simp
    show ?thesis
      unfolding do_replace_def Let_def
      by (simp add: sb_require_def x(1), rule returns_andthen [OF noted [OF x(1) order.refl]],
          erule returns_andthen [OF before_returns])
        (use x e in \<open>auto simp: sb_replace_def sb_require_def staged_def intro!: tail\<close>)
  qed
qed

lemma seen_passes [simp]: "relaxed (seen ts b) = relaxed b" "lets_pass (seen ts b) rs = lets_pass b rs"
  by (simp_all add: relaxed_def lets_pass_def)

lemma builder_on_returns:
  assumes "conserved b" and "length (bb_book b) < 2 ^ 32" and "indicator_ok e"
    and "\<And>x. step_op e b = Some x \<Longrightarrow> \<exists>rs'. apply_op naive_ops x (bb_book b) = Inr rs' \<and> lets_pass b rs'"
  shows "returns (\<lambda>_. True) (builder_on naive_ops (replay_hooks naive_ops) e b)"
proof -
  have s: "conserved (seen ts b)" "length (bb_book (seen ts b)) < 2 ^ 32" for ts using assms(1,2) by simp_all
  show ?thesis
  proof (cases "step_op e b")
    case None
    then show ?thesis
      by (cases e) (auto simp: step_op_def mine_locate stock_directory_def add_order_def add_order_with_mpid_def order_executed_def
          order_executed_with_price_def order_cancel_def order_delete_def order_replace_def trade_non_cross_def
          cross_trade_def broken_trade_def Let_def split: if_splits)
  next
    case (Some x)
    with assms(4) obtain rs' where a: "apply_op naive_ops x (bb_book b) = Inr rs'" "lets_pass b rs'" by blast
    have "lets_pass (seen ts b) rs'" for ts using a(2) by simp
    note d = do_returns [OF s(1) this s(2)]
    from Some a(1) assms(3) show ?thesis
      by (cases e) (auto simp: step_op_def mine_locate add_order_def add_order_with_mpid_def order_executed_def
          order_executed_with_price_def order_cancel_def order_delete_def order_replace_def Let_def
          simp del: apply_op.simps intro: d split: if_splits)
  qed
qed

lemma naive_op_length:
  assumes "wf_book rs" and "length rs \<le> n" and "room_for n ok x rs" and "apply_op naive_ops x rs = Inr rs'"
  shows "length rs' \<le> n"
  using assms(2-4) sb_lengths [OF assms(1)] by (cases x) (fastforce simp: andthen_eq_Inr)+

text \<open>What is left of the operations of a feed after one of its messages.\<close>

lemma feed_step:
  assumes "builder_on ops obs e b = Inr b'"
  obtains (none) "step_op e b = None" "bb_book b' = bb_book b"
    "feed_ops (bb_symbol b) (locate_of b) (e # es) = feed_ops (bb_symbol b') (locate_of b') es"
  | (step) x where "step_op e b = Some x" "apply_op ops x (bb_book b) = Inr (bb_book b')"
    "feed_ops (bb_symbol b) (locate_of b) (e # es) = x # feed_ops (bb_symbol b') (locate_of b') es"
proof (cases "\<exists>v. e = on_stock_directory v")
  case True
  then obtain v where v: "e = on_stock_directory v" by blast
  then have d: "stock_directory v b = Inr b'" using assms by simp
  have "step_op e b = None" by (simp add: v step_op_def)
  then show ?thesis using none stock_directory_ops(1) [OF d] stock_directory_ops(3) [OF d, of es] v by blast
next
  case False
  then have n: "\<And>v. e \<noteq> on_stock_directory v" by blast
  have m: "moved ops (step_op e b) b b'" by (rule builder_on_moved [OF assms n])
  show ?thesis
    using m feed_ops_step [OF n, of b es] none step by (cases "step_op e b") (simp_all add: moved_def)
qed

lemma step_heads_feed:
  assumes "step_op e b = Some x"
  shows "\<exists>xs. feed_ops (bb_symbol b) (locate_of b) (e # es) = x # xs"
proof -
  have "\<And>v. e \<noteq> on_stock_directory v" using assms by (auto simp: step_op_def)
  from feed_ops_step [OF this, of b es] assms show ?thesis by simp
qed

text \<open>Room for the operations of a feed is room for its messages.\<close>

lemma event_room_step:
  "(case step_op e b of None \<Rightarrow> True | Some x \<Rightarrow> room_for n ok x (bb_book b)) \<Longrightarrow> event_room n ok e b"
  by (cases e) (auto simp: step_op_def mine_locate split: if_splits)

lemma feed_room_ops:
  "room_for_all n ok (feed_ops (bb_symbol b) (locate_of b) es) (bb_book b) \<Longrightarrow> feed_room n ok obs es b"
proof (induction es arbitrary: b)
  case (Cons e es)
  have "case step_op e b of None \<Rightarrow> True | Some x \<Rightarrow> room_for n ok x (bb_book b)"
    using Cons.prems step_heads_feed [of e b _ es] by (auto split: option.splits)
  then have here: "event_room n ok e b" by (rule event_room_step)
  show ?case
  proof (cases "builder_on naive_ops obs e b")
    case (Inr b')
    have "room_for_all n ok (feed_ops (bb_symbol b') (locate_of b') es) (bb_book b')"
      using Inr by (rule feed_step [where es = es]) (use Cons.prems in auto)
    with Inr here Cons.IH show ?thesis by simp
  qed (use here in simp)
qed simp

text \<open>No operation of the run leaves the book crossed.\<close>

fun uncrossed_along :: "book_op list \<Rightarrow> naive_book \<Rightarrow> bool" where
  "uncrossed_along [] rs \<longleftrightarrow> True"
| "uncrossed_along (x # xs) rs \<longleftrightarrow>
     (case apply_op naive_ops x rs of Inl f \<Rightarrow> True | Inr rs' \<Rightarrow> \<not> nb_crossed rs' \<and> uncrossed_along xs rs')"

theorem feed_returns:
  assumes "conserved b" and "counted b" and "relaxed b \<or> uncrossed_along (feed_ops (bb_symbol b) (locate_of b) es) (bb_book b)"
    and "length (bb_book b) \<le> n" and "n < 2 ^ 32" and "\<forall>e \<in> set es. indicator_ok e"
    and "room_for_all n ok (feed_ops (bb_symbol b) (locate_of b) es) (bb_book b)"
    and "run_ops naive_ops (feed_ops (bb_symbol b) (locate_of b) es) (bb_book b) = Inr rs"
  shows "\<exists>b'. handle_all (builder_on naive_ops (replay_hooks naive_ops)) es b = Inr b'"
  using assms(1-4,6-)
proof (induction es arbitrary: b)
  case (Cons e es)
  have step: "\<exists>rs'. apply_op naive_ops x (bb_book b) = Inr rs' \<and> lets_pass b rs'" "room_for n ok x (bb_book b)"
    if "step_op e b = Some x" for x
    using step_heads_feed [OF that, of es] Cons.prems(3,6,7) by (auto simp: andthen_eq_Inr lets_pass_def relaxed_def)
  obtain b' where b': "builder_on naive_ops (replay_hooks naive_ops) e b = Inr b'"
    using builder_on_returns [OF Cons.prems(1) _ _ step(1)] Cons.prems(4,5) assms(5) by (auto simp: returns_def)
  have kept: "conserved b'" "counted b'" "relaxed b' = relaxed b"
    using builder_on_safe [OF Cons.prems(1), of e] builder_on_counted [OF b' Cons.prems(2)] b' by auto
  have wf: "wf_book (bb_book b)" using Cons.prems(1) by (simp add: conserved_def)
  have "length (bb_book b') \<le> n \<and> room_for_all n ok (feed_ops (bb_symbol b') (locate_of b') es) (bb_book b') \<and>
      run_ops naive_ops (feed_ops (bb_symbol b') (locate_of b') es) (bb_book b') = Inr rs \<and>
      (relaxed b \<or> uncrossed_along (feed_ops (bb_symbol b') (locate_of b') es) (bb_book b'))"
    using b'
  proof (rule feed_step [where es = es])
    fix x
    assume x: "step_op e b = Some x" "apply_op naive_ops x (bb_book b) = Inr (bb_book b')"
      "feed_ops (bb_symbol b) (locate_of b) (e # es) = x # feed_ops (bb_symbol b') (locate_of b') es"
    then show ?thesis using Cons.prems(3,6,7) naive_op_length [OF wf Cons.prems(4) step(2) x(2)] by auto
  qed (use Cons.prems in simp)
  with Cons.IH [OF kept(1,2)] kept(3) Cons.prems(5) show ?case using b' by simp
qed simp

text \<open>And a replay with a strict observer that ends has left no book crossed.\<close>

lemma strict_tail:
  assumes "kept b b1" and "observe (ob_after_apply (replay_hooks naive_ops) (x :: naive_book) ts) (count_stat f (b1\<lparr>bb_book := x\<rparr>)) = Inr b'"
  shows "lets_pass b (bb_book b')"
proof -
  have "bb_book b' = x" using observe_fields(1) [OF assms(2)] by simp
  moreover have "ro_strict (bb_observer b1) \<longrightarrow> \<not> nb_crossed x"
    using assms(2)
    by (auto simp: observe_def replay_hooks_def andthen_eq_Inr count_stat_def ro_after_apply_def Let_def
        ro_crossed_check_def nb_crossed_def split: if_splits)
  ultimately show ?thesis using assms(1) by (simp add: lets_pass_def kept_def)
qed

lemma do_strict:
  "do_add naive_ops (replay_hooks naive_ops) ref ind p q ts b = Inr b' \<Longrightarrow> lets_pass b (bb_book b')"
  "do_execute naive_ops (replay_hooks naive_ops) ref q ts b = Inr b' \<Longrightarrow> lets_pass b (bb_book b')"
  "do_cancel naive_ops (replay_hooks naive_ops) ref q ts b = Inr b' \<Longrightarrow> lets_pass b (bb_book b')"
  "do_delete naive_ops (replay_hooks naive_ops) ref ts b = Inr b' \<Longrightarrow> lets_pass b (bb_book b')"
  "do_replace naive_ops (replay_hooks naive_ops) ref new_ref p q ts b = Inr b' \<Longrightarrow> lets_pass b (bb_book b')"
  unfolding do_add_def do_execute_def do_cancel_def do_delete_def do_replace_def Let_def result_dest split_paired_Ex prod.case
  by (elim exE conjE, rule strict_tail [rotated], simp, blast intro: kept_hooks)+

lemma builder_on_strict:
  assumes "builder_on naive_ops (replay_hooks naive_ops) e b = Inr b'" and "step_op e b = Some x"
  shows "lets_pass b (bb_book b')"
proof -
  have "lets_pass (seen ts b) rs \<Longrightarrow> lets_pass b rs" for ts rs by simp
  then show ?thesis
    using assms
    by (cases e) (auto simp: step_op_def mine_locate add_order_def add_order_with_mpid_def order_executed_def
        order_executed_with_price_def order_cancel_def order_delete_def order_replace_def Let_def
        simp del: seen_passes dest: do_strict split: if_splits)
qed

theorem strict_uncrossed:
  assumes "handle_all (builder_on naive_ops (replay_hooks naive_ops)) es b = Inr b'" and "counted b"
  shows "relaxed b \<or> uncrossed_along (feed_ops (bb_symbol b) (locate_of b) es) (bb_book b)"
  using assms
proof (induction es arbitrary: b)
  case (Cons e es)
  obtain b1 where b1: "builder_on naive_ops (replay_hooks naive_ops) e b = Inr b1"
    "handle_all (builder_on naive_ops (replay_hooks naive_ops)) es b1 = Inr b'"
    using Cons.prems(1) by (auto simp: andthen_eq_Inr)
  note k = builder_on_counted [OF b1(1) Cons.prems(2)]
  have "relaxed b \<or> uncrossed_along (feed_ops (bb_symbol b1) (locate_of b1) es) (bb_book b1)"
    using Cons.IH [OF b1(2) k(1)] k(2) by simp
  with b1(1) show ?case
    by (rule_tac feed_step [OF b1(1), where es = es])
      (auto simp: lets_pass_def relaxed_def dest: builder_on_strict [OF b1(1)])
qed simp

end
