(* ===== verification/Book_Family.thy ===== *)
theory Book_Family
  imports Samples Avl_Book Map_Book_Laws Replay_Complete
begin

text \<open>
  The three books side by side: what every implementation of the contract does with a run of
  operations and with the replay of a feed, and the depth of the AVL trees.
\<close>

section \<open>Room under weaker demands\<close>

lemma room_for_all_weaken:
  "room_for_all m ok xs rs \<Longrightarrow> m \<le> n \<Longrightarrow> (\<And>p. ok p \<Longrightarrow> ok' p) \<Longrightarrow> room_for_all n ok' xs rs"
proof (induction xs arbitrary: rs)
  case (Cons x xs)
  then have "room_for n ok' x rs" by (cases x) auto
  with Cons show ?case by (auto split: sum.splits)
qed simp

lemma feed_room_weaken:
  "feed_room m ok obs es b \<Longrightarrow> m \<le> n \<Longrightarrow> (\<And>p. ok p \<Longrightarrow> ok' p) \<Longrightarrow> feed_room n ok' obs es b"
proof (induction es arbitrary: b)
  case (Cons e es)
  have "event_room m ok e b" using Cons.prems(1) by simp
  then have "event_room n ok' e b" using Cons.prems(2,3) by (cases e) auto
  with Cons show ?case by (auto split: sum.splits)
qed simp

lemma ladder_avl_price: "ladder_price p \<Longrightarrow> avl_price p"
  using ladder_price_nonzero by (simp add: avl_price_def)

lemma ladder_map_price: "ladder_price p \<Longrightarrow> p \<noteq> kNoPrice"
  using ladder_price_nonzero by simp

lemma book_room_map: "book_room oc lc ic \<le> map_limit b"
proof -
  have "unat oc < 2 ^ 32" using unsigned_less [of oc] by simp
  then show ?thesis by (simp add: book_room_def map_limit_def)
qed

section \<open>Runs and replays over any book\<close>

text \<open>The bytes of a feed.\<close>

definition feed_of :: "event list \<Rightarrow> u8 list" where
  "feed_of es = concat (map (\<lambda>e. frame (event_bytes e)) es)"

lemma start_facts [simp]:
  "bb_book (start_of book symbol every strict) = book" "bb_symbol (start_of book symbol every strict) = symbol"
  "locate_of (start_of book symbol every strict) = None" "applied_of (start_of book symbol every strict) = 0"
  "counted (start_of book symbol every strict)" "relaxed (start_of book symbol every strict) \<longleftrightarrow> \<not> strict"
  by (simp_all add: start_of_def builder_new_def locate_of_def applied_of_def counted_def relaxed_def observer_new_def)

lemma start_conserved [simp]: "conserved (start_of [] symbol every strict)"
  by (simp add: conserved_def) (simp add: start_of_def builder_new_def observer_new_def nb_total_qty_def on_side_def fun_eq_iff)

text \<open>What a replay that ends has done, over any book.\<close>

lemma replay_end:
  assumes "replay_once ops book bytes symbol every strict = Inr (out, b')"
  shows "run_ops ops (feed_ops symbol None (messages_of bytes)) book = Inr b' \<and>
    ou_applied out = of_nat (length (feed_ops symbol None (messages_of bytes)))"
proof -
  obtain b where b: "handle_all (builder_on ops (replay_hooks ops)) (messages_of bytes) (start_of book symbol every strict) = Inr b"
    "bb_book b = b'" "outcome_report b = out"
    using assms by (auto simp: replay_once_messages andthen_eq_Inr)
  have "counted b" using handle_all_counted [OF b(1)] by simp
  then have "ou_applied out = applied_of b" using b(3) by (auto simp: outcome_report_def Let_def counted_def)
  then show ?thesis using handle_all_ops [OF b(1)] b(2) by simp
qed

text \<open>
  Over the list of resting orders a replay ends exactly when the list accepts the operations
  of the feed and, if crossed books are fatal, none of them crosses the book.
\<close>

lemma replay_over_list:
  assumes "\<forall>e \<in> set (messages_of bytes). indicator_ok e" and "n < 2 ^ 32"
    and "room_for_all n ok (feed_ops symbol None (messages_of bytes)) []"
    and "run_ops naive_ops (feed_ops symbol None (messages_of bytes)) [] = Inr rs"
    and "strict \<longrightarrow> uncrossed_along (feed_ops symbol None (messages_of bytes)) []"
  shows "\<exists>out. replay_once naive_ops [] bytes symbol every strict = Inr (out, rs)"
proof -
  let ?b = "start_of [] symbol every strict :: (naive_book, replay_observer) builder"
  obtain b' where b': "handle_all (builder_on naive_ops (replay_hooks naive_ops)) (messages_of bytes) ?b = Inr b'"
    using feed_returns [of ?b "messages_of bytes" n ok rs] assms by auto
  then have "replay_once naive_ops [] bytes symbol every strict = Inr (outcome_report b', bb_book b')"
    by (simp add: replay_once_messages)
  with replay_end [OF this] assms(4) show ?thesis by simp
qed

lemma replay_list_ended:
  assumes "replay_once naive_ops [] bytes symbol every strict = Inr (out, rs)"
  shows "run_ops naive_ops (feed_ops symbol None (messages_of bytes)) [] = Inr rs"
    and "strict \<longrightarrow> uncrossed_along (feed_ops symbol None (messages_of bytes)) []"
proof -
  show "run_ops naive_ops (feed_ops symbol None (messages_of bytes)) [] = Inr rs" using replay_end [OF assms] by blast
  obtain b where "handle_all (builder_on naive_ops (replay_hooks naive_ops)) (messages_of bytes) (start_of [] symbol every strict) = Inr b"
    using assms by (auto simp: replay_once_messages andthen_eq_Inr)
  from strict_uncrossed [OF this] show "strict \<longrightarrow> uncrossed_along (feed_ops symbol None (messages_of bytes)) []" by simp
qed

context order_book
begin

lemma run_answers:
  assumes "rep b []" and "n \<le> limit b" and "room_for_all n ok_price xs []"
  shows "rel_sum (=) (answers_as ops) (run_ops ops xs b) (run_ops naive_ops xs [])"
proof (rule rel_sum_strengthen)
  show "rel_sum (=) (\<lambda>b' rs. rep b' rs \<and> limit b' = limit b \<and> length rs \<le> limit b) (run_ops ops xs b) (run_ops naive_ops xs [])"
    using room_for_all_mono [OF assms(2,3)] by (intro run_ops_refines [OF assms(1)]) auto
qed (simp add: rep_answers)

lemma replay_answers:
  assumes "rep book []" and "n \<le> limit book" and "replay_room n ok_price bytes symbol strict"
  shows "rel_sum (=) (\<lambda>(o1, b) (o2, rs). same_outcome o1 o2 \<and> answers_as ops b rs)
    (replay_once ops book bytes symbol every strict) (replay_once naive_ops [] bytes symbol 0 strict)"
proof (rule rel_sum_strengthen)
  have "replay_room (limit book) ok_price bytes symbol strict"
    using feed_room_weaken [OF assms(3) [unfolded replay_room_def] assms(2)] by (simp add: replay_room_def)
  from replay_rel [OF assms(1) this]
  show "rel_sum (=) (\<lambda>(o1, b) (o2, rs). same_outcome o1 o2 \<and> rep b rs)
    (replay_once ops book bytes symbol every strict) (replay_once naive_ops [] bytes symbol 0 strict)" .
qed (auto intro: rep_answers)

end

lemma replay_conserved_list: "replay_once naive_ops [] bytes symbol every strict \<noteq> Inl (ReplayF NotConserved)"
proof -
  have "safe conserved (handle_all (builder_on naive_ops (replay_hooks naive_ops)) (messages_of bytes) (start_of [] symbol every strict))"
    by (rule handle_all_safe) simp
  then show ?thesis
    by (cases "handle_all (builder_on naive_ops (replay_hooks naive_ops)) (messages_of bytes) (start_of [] symbol every strict)")
      (auto simp: replay_once_messages)
qed

lemma replay_room_ops:
  "room_for_all n ok (feed_ops symbol None (messages_of bytes)) [] \<Longrightarrow> replay_room n ok bytes symbol strict"
  unfolding replay_room_def by (rule feed_room_ops) simp

section \<open>The three books, newly made\<close>

text \<open>New books of the given capacities agree with the list on every replay with room.\<close>

lemma replay_three:
  assumes "capacities_ok oc lc ic" and "replay_room (book_room oc lc ic) ladder_price bytes symbol strict"
  shows "\<exists>b1 b2. book_new ladder_ops oc lc ic = Inr b1 \<and> book_new avl_ops oc lc ic = Inr b2 \<and>
    rel_sum (=) (\<lambda>(o1, b) (o2, rs). same_outcome o1 o2 \<and> answers_as (flat_ops ladder_ops H) b rs)
      (replay_once (flat_ops ladder_ops H) b1 bytes symbol every strict) (replay_once naive_ops [] bytes symbol 0 strict) \<and>
    rel_sum (=) (\<lambda>(o1, b) (o2, rs). same_outcome o1 o2 \<and> answers_as (flat_ops avl_ops H) b rs)
      (replay_once (flat_ops avl_ops H) b2 bytes symbol every strict) (replay_once naive_ops [] bytes symbol 0 strict) \<and>
    rel_sum (=) (\<lambda>(o1, b) (o2, rs). same_outcome o1 o2 \<and> answers_as map_ops b rs)
      (replay_once map_ops mb_new bytes symbol every strict) (replay_once naive_ops [] bytes symbol 0 strict)"
proof -
  have avl: "replay_room (book_room oc lc ic) avl_price bytes symbol strict"
    and map: "replay_room (book_room oc lc ic) (\<lambda>p. p \<noteq> kNoPrice) bytes symbol strict"
    using feed_room_weaken [OF assms(2) [unfolded replay_room_def] order.refl ladder_avl_price]
      feed_room_weaken [OF assms(2) [unfolded replay_room_def] order.refl ladder_map_price] by (simp_all add: replay_room_def)
  obtain b1 where b1: "book_new ladder_ops oc lc ic = Inr b1" "ladder.rep H b1 []" "book_room oc lc ic \<le> bk_limit b1"
    using ladder.flat_start [OF assms(1)] by blast
  obtain b2 where b2: "book_new avl_ops oc lc ic = Inr b2" "avl.rep H b2 []" "book_room oc lc ic \<le> bk_limit b2"
    using avl.flat_start [OF assms(1)] by blast
  show ?thesis
    by (intro exI [of _ b1] exI [of _ b2] conjI b1(1) b2(1) ladder.flat.replay_answers [OF b1(2,3) assms(2)]
        avl.flat.replay_answers [OF b2(2,3) avl] mapb.replay_answers [OF mb_new_rep book_room_map map])
qed

lemma runs_three:
  assumes "capacities_ok oc lc ic" and "room_for_all (book_room oc lc ic) ladder_price xs []"
  shows "\<exists>b1 b2. book_new ladder_ops oc lc ic = Inr b1 \<and> book_new avl_ops oc lc ic = Inr b2 \<and>
    rel_sum (=) (answers_as (flat_ops ladder_ops H)) (run_ops (flat_ops ladder_ops H) xs b1) (run_ops naive_ops xs []) \<and>
    rel_sum (=) (answers_as (flat_ops avl_ops H)) (run_ops (flat_ops avl_ops H) xs b2) (run_ops naive_ops xs []) \<and>
    rel_sum (=) (answers_as map_ops) (run_ops map_ops xs mb_new) (run_ops naive_ops xs [])"
proof -
  have avl: "room_for_all (book_room oc lc ic) avl_price xs []"
    and map: "room_for_all (book_room oc lc ic) (\<lambda>p. p \<noteq> kNoPrice) xs []"
    using room_for_all_weaken [OF assms(2) order.refl ladder_avl_price] room_for_all_weaken [OF assms(2) order.refl ladder_map_price]
    by simp_all
  obtain b1 where b1: "book_new ladder_ops oc lc ic = Inr b1" "ladder.rep H b1 []" "book_room oc lc ic \<le> bk_limit b1"
    using ladder.flat_start [OF assms(1)] by blast
  obtain b2 where b2: "book_new avl_ops oc lc ic = Inr b2" "avl.rep H b2 []" "book_room oc lc ic \<le> bk_limit b2"
    using avl.flat_start [OF assms(1)] by blast
  show ?thesis
    by (intro exI [of _ b1] exI [of _ b2] conjI b1(1) b2(1) ladder.flat.run_answers [OF b1(2,3) assms(2)]
        avl.flat.run_answers [OF b2(2,3) avl] mapb.run_answers [OF mb_new_rep book_room_map map])
qed

text \<open>The AVL book and the ordered maps do so at every price but zero.\<close>

lemma replay_two:
  assumes "capacities_ok oc lc ic" and "replay_room (book_room oc lc ic) avl_price bytes symbol strict"
    and "book_new avl_ops oc lc ic = Inr b"
  shows "rel_sum (=) (\<lambda>(o1, b) (o2, rs). same_outcome o1 o2 \<and> answers_as (flat_ops avl_ops H) b rs)
      (replay_once (flat_ops avl_ops H) b bytes symbol every strict) (replay_once naive_ops [] bytes symbol 0 strict)"
    and "rel_sum (=) (\<lambda>(o1, b) (o2, rs). same_outcome o1 o2 \<and> answers_as map_ops b rs)
      (replay_once map_ops mb_new bytes symbol every strict) (replay_once naive_ops [] bytes symbol 0 strict)"
proof -
  have map: "replay_room (book_room oc lc ic) (\<lambda>p. p \<noteq> kNoPrice) bytes symbol strict"
    using feed_room_weaken [OF assms(2) [unfolded replay_room_def] order.refl] by (simp add: replay_room_def avl_price_def)
  obtain c where c: "book_new avl_ops oc lc ic = Inr c" "avl.rep H c []" "book_room oc lc ic \<le> bk_limit c"
    using avl.flat_start [OF assms(1)] by blast
  show "rel_sum (=) (\<lambda>(o1, b) (o2, rs). same_outcome o1 o2 \<and> answers_as (flat_ops avl_ops H) b rs)
      (replay_once (flat_ops avl_ops H) b bytes symbol every strict) (replay_once naive_ops [] bytes symbol 0 strict)"
    using avl.flat.replay_answers [OF c(2,3) assms(2)] c(1) assms(3) by simp
  show "rel_sum (=) (\<lambda>(o1, b) (o2, rs). same_outcome o1 o2 \<and> answers_as map_ops b rs)
      (replay_once map_ops mb_new bytes symbol every strict) (replay_once naive_ops [] bytes symbol 0 strict)"
    by (rule mapb.replay_answers [OF mb_new_rep book_room_map map])
qed

lemma runs_two:
  assumes "capacities_ok oc lc ic" and "room_for_all (book_room oc lc ic) avl_price xs []"
    and "book_new avl_ops oc lc ic = Inr b"
  shows "rel_sum (=) (answers_as (flat_ops avl_ops H)) (run_ops (flat_ops avl_ops H) xs b) (run_ops naive_ops xs [])"
    and "rel_sum (=) (answers_as map_ops) (run_ops map_ops xs mb_new) (run_ops naive_ops xs [])"
proof -
  have map: "room_for_all (book_room oc lc ic) (\<lambda>p. p \<noteq> kNoPrice) xs []"
    using room_for_all_weaken [OF assms(2) order.refl] by (simp add: avl_price_def)
  obtain c where c: "book_new avl_ops oc lc ic = Inr c" "avl.rep H c []" "book_room oc lc ic \<le> bk_limit c"
    using avl.flat_start [OF assms(1)] by blast
  show "rel_sum (=) (answers_as (flat_ops avl_ops H)) (run_ops (flat_ops avl_ops H) xs b) (run_ops naive_ops xs [])"
    using avl.flat.run_answers [OF c(2,3) assms(2)] c(1) assms(3) by simp
  show "rel_sum (=) (answers_as map_ops) (run_ops map_ops xs mb_new) (run_ops naive_ops xs [])"
    by (rule mapb.run_answers [OF mb_new_rep book_room_map map])
qed

section \<open>The depth of the AVL trees\<close>

lemma balanced_size: "balanced T \<Longrightarrow> 2 ^ (ht T div 2) \<le> Suc (length (indices T))"
proof (induction T)
  case (Bin l i p h r)
  let ?m = "min (ht l) (ht r)"
  have "ht l div 2 \<ge> ?m div 2" "ht r div 2 \<ge> ?m div 2" by (simp_all add: div_le_mono)
  then have "2 ^ (?m div 2) \<le> (2::nat) ^ (ht l div 2)" "2 ^ (?m div 2) \<le> (2::nat) ^ (ht r div 2)"
    by (simp_all add: power_increasing)
  moreover have "2 ^ (ht l div 2) \<le> Suc (length (indices l))" "2 ^ (ht r div 2) \<le> Suc (length (indices r))"
    using Bin by simp_all
  moreover have "2 ^ Suc (?m div 2) = (2::nat) ^ (?m div 2) + 2 ^ (?m div 2)"
    "length (indices (Bin l i p h r)) = Suc (length (indices l) + length (indices r))" by simp_all
  ultimately have "2 ^ Suc (?m div 2) \<le> Suc (length (indices (Bin l i p h r)))" by linarith
  moreover have "ht (Bin l i p h r) div 2 \<le> Suc (?m div 2)" using Bin.prems by (auto simp: max_def min_def)
  then have "2 ^ (ht (Bin l i p h r) div 2) \<le> (2::nat) ^ Suc (?m div 2)" by (rule power_increasing) simp
  ultimately show ?case by (rule order.trans [rotated])
qed simp

lemma avl_height_bound:
  assumes "avl_inv s t"
  shows "unat (am_size t) = card (dom (avl_content t)) \<and> 2 ^ (unat (height_of t (am_root t)) div 2) \<le> unat (am_size t) + 1"
proof -
  obtain T F where T: "avl_rep t T F" "avl_good T" "card (dom (avl_content t)) = length (indices T)"
    using assms by (rule avl_inv_rep)
  note f = avl_rep_facts [OF T(1)]
  have small: "length (indices T) < 2 ^ 32" using f(7) by (simp add: max_levels_def)
  then have size: "unat (am_size t) = length (indices T)" using T(1) by (simp add: avl_rep_def unsigned_of_nat take_bit_nat_eq_self)
  have "ht T < 2 ^ 32" using ht_le_indices [of T] small by linarith
  then have "unat (height_of t (am_root t)) = ht T" using height_of_root [OF f(1)] f(5) by (simp add: unsigned_of_nat take_bit_nat_eq_self)
  with size balanced_size T(2,3) show ?thesis by (simp add: avl_good_def)
qed

lemma lived_levels:
  assumes "lived avl_ops avl_price H n xs b rs"
  shows "avl_inv s (bk_ladders b s)" and "dom (avl_content (bk_ladders b s)) = prices s rs"
  using avl.lived_rep(1) [OF assms] by (simp_all add: rep_book_def storage_ok_def)

section \<open>Sessions of the engine over the three books\<close>

lemma priced_weaken: "priced ok r \<Longrightarrow> (\<And>p. ok p \<Longrightarrow> ok' p) \<Longrightarrow> priced ok' r"
  by (cases r) auto

context order_book
begin

lemma session_answers:
  assumes "rep b []" and "length rs \<le> limit b" and "limit b < 2 ^ 63" and "\<forall>r \<in> set rs. priced ok_price r"
  shows "rel_sum (=) (\<lambda>(e, fs) (n, gs). fs = gs \<and> answers_as ops (en_book e) (en_book n))
    (serve_all ops rs (engine_new b stp)) (serve_all naive_ops rs (engine_new [] stp))"
proof (rule rel_sum_strengthen)
  have "in_step (limit b) (engine_new b stp) (engine_new [] stp)"
    using assms(1) by (simp add: in_step_def engine_rel_def engine_new_def)
  then show "rel_sum (=) (\<lambda>(e', fs) (n', fs'). in_step (limit b) e' n' \<and> fs = fs')
      (serve_all ops rs (engine_new b stp)) (serve_all naive_ops rs (engine_new [] stp))"
    using assms(2-4) engine_new_ok by (intro serve_all_refines) (simp_all add: engine_new_def)
qed (auto intro: rep_answers dest: in_stepD)

end

lemma sessions_three:
  assumes "capacities_ok oc lc ic" and "length rs \<le> book_room oc lc ic" and "\<forall>r \<in> set rs. priced ladder_price r"
    and "book_new ladder_ops oc lc ic = Inr b1" and "book_new avl_ops oc lc ic = Inr b2"
  shows "rel_sum (=) (\<lambda>(e, fs) (n, gs). fs = gs \<and> answers_as (flat_ops ladder_ops H) (en_book e) (en_book n))
      (serve_all (flat_ops ladder_ops H) rs (engine_new b1 stp)) (serve_all naive_ops rs (engine_new [] stp))"
    and "rel_sum (=) (\<lambda>(e, fs) (n, gs). fs = gs \<and> answers_as (flat_ops avl_ops H) (en_book e) (en_book n))
      (serve_all (flat_ops avl_ops H) rs (engine_new b2 stp)) (serve_all naive_ops rs (engine_new [] stp))"
    and "rel_sum (=) (\<lambda>(e, fs) (n, gs). fs = gs \<and> answers_as map_ops (en_book e) (en_book n))
      (serve_all map_ops rs (engine_new mb_new stp)) (serve_all naive_ops rs (engine_new [] stp))"
proof -
  have avl: "\<forall>r \<in> set rs. priced avl_price r" and map: "\<forall>r \<in> set rs. priced (\<lambda>p. p \<noteq> kNoPrice) r"
    using assms(3) priced_weaken [of ladder_price _ avl_price] priced_weaken [of ladder_price _ "\<lambda>p. p \<noteq> kNoPrice"]
      ladder_avl_price ladder_map_price by simp_all
  obtain c1 where c1: "book_new ladder_ops oc lc ic = Inr c1" "ladder.rep H c1 []" "book_room oc lc ic \<le> bk_limit c1"
    using ladder.flat_start [OF assms(1)] by blast
  obtain c2 where c2: "book_new avl_ops oc lc ic = Inr c2" "avl.rep H c2 []" "book_room oc lc ic \<le> bk_limit c2"
    using avl.flat_start [OF assms(1)] by blast
  have small: "bk_limit c1 < 2 ^ 63" "bk_limit c2 < 2 ^ 63" "map_limit mb_new < 2 ^ 63"
    using ladder.bk_limit_small [OF c1(2)] avl.bk_limit_small [OF c2(2)] by (simp_all add: map_limit_def)
  show "rel_sum (=) (\<lambda>(e, fs) (n, gs). fs = gs \<and> answers_as (flat_ops ladder_ops H) (en_book e) (en_book n))
      (serve_all (flat_ops ladder_ops H) rs (engine_new b1 stp)) (serve_all naive_ops rs (engine_new [] stp))"
    using ladder.flat.session_answers [OF c1(2) _ small(1) assms(3)] assms(2,4) c1(1,3) by simp
  show "rel_sum (=) (\<lambda>(e, fs) (n, gs). fs = gs \<and> answers_as (flat_ops avl_ops H) (en_book e) (en_book n))
      (serve_all (flat_ops avl_ops H) rs (engine_new b2 stp)) (serve_all naive_ops rs (engine_new [] stp))"
    using avl.flat.session_answers [OF c2(2) _ small(2) avl] assms(2,5) c2(1,3) by simp
  show "rel_sum (=) (\<lambda>(e, fs) (n, gs). fs = gs \<and> answers_as map_ops (en_book e) (en_book n))
      (serve_all map_ops rs (engine_new mb_new stp)) (serve_all naive_ops rs (engine_new [] stp))"
    using mapb.session_answers [OF mb_new_rep _ small(3) map] assms(2) book_room_map [of oc lc ic mb_new] by simp
qed

lemma sessions_two:
  assumes "capacities_ok oc lc ic" and "length rs \<le> book_room oc lc ic" and "\<forall>r \<in> set rs. priced avl_price r"
    and "book_new avl_ops oc lc ic = Inr b"
  shows "rel_sum (=) (\<lambda>(e, fs) (n, gs). fs = gs \<and> answers_as (flat_ops avl_ops H) (en_book e) (en_book n))
      (serve_all (flat_ops avl_ops H) rs (engine_new b stp)) (serve_all naive_ops rs (engine_new [] stp))"
    and "rel_sum (=) (\<lambda>(e, fs) (n, gs). fs = gs \<and> answers_as map_ops (en_book e) (en_book n))
      (serve_all map_ops rs (engine_new mb_new stp)) (serve_all naive_ops rs (engine_new [] stp))"
proof -
  have map: "\<forall>r \<in> set rs. priced (\<lambda>p. p \<noteq> kNoPrice) r" using assms(3) unfolding avl_price_def .
  obtain c where c: "book_new avl_ops oc lc ic = Inr c" "avl.rep H c []" "book_room oc lc ic \<le> bk_limit c"
    using avl.flat_start [OF assms(1)] by blast
  have small: "bk_limit c < 2 ^ 63" "map_limit mb_new < 2 ^ 63" using avl.bk_limit_small [OF c(2)] by (simp_all add: map_limit_def)
  show "rel_sum (=) (\<lambda>(e, fs) (n, gs). fs = gs \<and> answers_as (flat_ops avl_ops H) (en_book e) (en_book n))
      (serve_all (flat_ops avl_ops H) rs (engine_new b stp)) (serve_all naive_ops rs (engine_new [] stp))"
    using avl.flat.session_answers [OF c(2) _ small(1) assms(3)] assms(2,4) c(1,3) by simp
  show "rel_sum (=) (\<lambda>(e, fs) (n, gs). fs = gs \<and> answers_as map_ops (en_book e) (en_book n))
      (serve_all map_ops rs (engine_new mb_new stp)) (serve_all naive_ops rs (engine_new [] stp))"
    using mapb.session_answers [OF mb_new_rep _ small(2) map] assms(2) book_room_map [of oc lc ic mb_new] by simp
qed

text \<open>Two sides that each agree with the list agree with one another.\<close>

lemma rel_sum_meet:
  "rel_sum (=) S x z \<Longrightarrow> rel_sum (=) T y z \<Longrightarrow> (\<And>a b c. S a c \<Longrightarrow> T b c \<Longrightarrow> R a b) \<Longrightarrow> rel_sum (=) R x y"
  by (cases x; cases y; cases z) auto

definition same_book :: "'a book_ops \<Rightarrow> 'a \<Rightarrow> 'b book_ops \<Rightarrow> 'b \<Rightarrow> bool" where
  "same_book ops1 b1 ops2 b2 \<longleftrightarrow> book_digest ops1 b1 = book_digest ops2 b2 \<and>
     (\<forall>s. bo_best ops1 b1 s = bo_best ops2 b2 s \<and> bo_levels ops1 b1 s = bo_levels ops2 b2 s)"

lemma answers_same: "answers_as ops1 b1 rs \<Longrightarrow> answers_as ops2 b2 rs \<Longrightarrow> same_book ops1 b1 ops2 b2"
  by (simp add: answers_as_def same_book_def)

section \<open>A short feed\<close>

definition sample_directory :: event where
  "sample_directory = on_stock_directory \<lparr>StockDirectory_stock_locate = 7, StockDirectory_tracking_number = 0,
     StockDirectory_timestamp = 10, StockDirectory_stock = ''ABCD    '', StockDirectory_market_category = CHR ''Q'',
     StockDirectory_financial_status_indicator = CHR ''N'', StockDirectory_round_lot_size = 100,
     StockDirectory_round_lots_only = CHR ''N'', StockDirectory_issue_classification = CHR ''C'',
     StockDirectory_issue_sub_type = ''Z '', StockDirectory_authenticity = CHR ''P'',
     StockDirectory_short_sale_threshold_indicator = CHR ''N'', StockDirectory_ipo_flag = CHR ''N'',
     StockDirectory_luld_reference_price_tier = CHR ''1'', StockDirectory_etp_flag = CHR ''N'',
     StockDirectory_etp_leverage_factor = 0, StockDirectory_inverse_indicator = CHR ''N''\<rparr>"

definition sample_add :: "u16 \<Rightarrow> order_ref \<Rightarrow> char \<Rightarrow> qty \<Rightarrow> price \<Rightarrow> event" where
  "sample_add locate ref ind q p = on_add_order \<lparr>AddOrder_stock_locate = locate, AddOrder_tracking_number = 0,
     AddOrder_timestamp = 20, AddOrder_order_reference_number = ref, AddOrder_buy_sell_indicator = ind,
     AddOrder_shares = q, AddOrder_stock = ''ABCD    '', AddOrder_price = p\<rparr>"

text \<open>The symbol's directory message, two orders of the symbol with one of another between them, an execution.\<close>

definition sample_feed :: "event list" where
  "sample_feed = [sample_directory, sample_add 7 1 CHR ''B'' 100 1000000, sample_add 8 2 CHR ''B'' 50 1000000,
     sample_add 7 3 CHR ''S'' 40 1010000,
     on_order_executed \<lparr>OrderExecuted_stock_locate = 7, OrderExecuted_tracking_number = 0, OrderExecuted_timestamp = 30,
       OrderExecuted_order_reference_number = 1, OrderExecuted_executed_shares = 30, OrderExecuted_match_number = 5\<rparr>]"

lemma sample_feed_ok: "\<forall>e \<in> set sample_feed. event_fits e \<and> indicator_ok e"
  by (simp add: sample_feed_def sample_directory_def sample_add_def StockDirectory_fits_def AddOrder_fits_def OrderExecuted_fits_def)

lemma sample_feed_ops:
  "feed_ops ''ABCD'' None sample_feed = [Add 1 Buy 1000000 100 0, Add 3 Sell 1010000 40 0, Execute 1 30]"
  by (simp add: sample_feed_def sample_directory_def sample_add_def side_of_indicator_def trim_alpha.simps)

lemma sample_feed_run:
  "run_ops naive_ops (feed_ops ''ABCD'' None sample_feed) [] =
     Inr [\<lparr>r_ref = 1, r_side = Buy, r_price = 1000000, r_qty = 70, r_owner = 0\<rparr>,
          \<lparr>r_ref = 3, r_side = Sell, r_price = 1010000, r_qty = 40, r_owner = 0\<rparr>]"
  unfolding sample_feed_ops by code_simp

lemma sample_feed_room: "room_for_all 8 ladder_price (feed_ops ''ABCD'' None sample_feed) []"
  unfolding sample_feed_ops ladder_price_word by code_simp

lemma sample_messages: "messages_of (feed_of sample_feed) = sample_feed"
  unfolding feed_of_def by (rule messages_of_events) (use sample_feed_ok in blast)

lemma sample_books: "\<exists>b1 b2. book_new ladder_ops 8 8 8 = Inr b1 \<and> book_new avl_ops 8 8 8 = Inr b2"
  using ladder.flat_start [OF sample_capacity(1)] avl.flat_start [OF sample_capacity(1)] by blast

end
