(* ===== verification/Book_Views.thy ===== *)
theory Book_Views
  imports Book_Family
begin

text \<open>
  \<open>snapshot\<close> and \<open>crossed\<close> of the books, which are not part of the contract the engine and the
  replay use: of any book that answers as the list of resting orders, the snapshot is the
  list's levels cut at the depth asked for, zero meaning all of them, and the book is crossed
  when the list is.
\<close>

text \<open>The prices the ladder takes, written out: from 20.48 to just below the top of the range.\<close>

lemma ladder_price_range: "(\<lambda>p. 204800 \<le> unat p \<and> unat p < 2 ^ 32 - 204800) = ladder_price"
  by (simp add: fun_eq_iff ladder_price_def)

definition nb_snapshot :: "naive_book \<Rightarrow> side \<Rightarrow> nat \<Rightarrow> (price \<times> u64 \<times> u32) list" where
  "nb_snapshot rs s depth =
     map (\<lambda>p. (p, nb_qty_at rs s p, nb_orders_at rs s p))
       (if depth = 0 then level_prices s rs else take depth (level_prices s rs))"

lemma snapshot_levels:
  "map (\<lambda>(p, q, n, refs). (p, q, n)) (sb_levels rs s) = map (\<lambda>p. (p, nb_qty_at rs s p, nb_orders_at rs s p)) (level_prices s rs)"
  by (simp add: sb_levels_def nb_levels_def)

lemma map_book_views:
  assumes "answers_as map_ops b rs"
  shows "mb_snapshot b s depth = nb_snapshot rs s depth" and "mb_crossed b = nb_crossed rs"
proof -
  have "mb_levels b s = sb_levels rs s" using assms by (simp add: answers_as_def map_ops_def)
  then show "mb_snapshot b s depth = nb_snapshot rs s depth"
    by (simp add: mb_snapshot_def Let_def nb_snapshot_def snapshot_levels [of rs s] take_map)
  show "mb_crossed b = nb_crossed rs"
    using assms by (simp add: answers_as_def map_ops_def mb_crossed_def nb_crossed_def mb_empty_def)
qed

text \<open>The flat books read each level through its handle, with or without its queue.\<close>

lemma gather_part:
  assumes "gather f xs = Inr ys" and "\<And>x y. f x = Inr y \<Longrightarrow> g x = Inr (h y)"
  shows "gather g xs = Inr (map h ys)"
  using assms(1) by (induction xs arbitrary: ys) (auto simp: andthen_eq_Inr assms(2))

lemma flat_book_views:
  assumes "answers_as (flat_ops L H) b rs"
  shows "bk_snapshot L b s depth = Inr (nb_snapshot rs s depth)" and "bk_crossed L b = nb_crossed rs"
proof -
  have "bk_levels_of L b s = Inr (sb_levels rs s)" using assms by (simp add: answers_as_def flat_ops_def)
  then obtain xs where xs: "lm_levels L (bk_ladders b s) = Inr xs"
    "gather (\<lambda>(p, lh). andthen (pool_ref level_slot (bk_levels b) lh) (\<lambda>v.
       andthen (order_range (bk_orders b) (length (slots (bk_orders b))) (l_head v)) (\<lambda>refs.
         Inr (p, l_total_qty v, l_order_count v, refs)))) xs = Inr (sb_levels rs s)"
    by (auto simp: bk_levels_of_def andthen_eq_Inr)
  have "gather (\<lambda>(p, lh). andthen (pool_ref level_slot (bk_levels b) lh) (\<lambda>v. Inr (p, l_total_qty v, l_order_count v))) xs =
      Inr (map (\<lambda>(p, q, n, refs). (p, q, n)) (sb_levels rs s))"
    by (rule gather_part [OF xs(2)]) (auto simp: andthen_eq_Inr)
  then show "bk_snapshot L b s depth = Inr (nb_snapshot rs s depth)"
    by (simp add: bk_snapshot_def xs(1) nb_snapshot_def snapshot_levels [of rs s] take_map)
  show "bk_crossed L b = nb_crossed rs"
    using assms by (simp add: answers_as_def flat_ops_def bk_crossed_def nb_crossed_def)
qed

end
