(* ===== verification/Streamed.thy ===== *)
theory Streamed
  imports Replay_Laws Frame_Reader
begin

text \<open>
  The loop the tools run over a buffered reader (\<open>drive_stream\<close> of apps/itch_histogram.cpp,
  the gzip branch of \<open>load_workload\<close>), and its agreement with the loop over a file in memory.
\<close>

fun drive_stream :: "('r \<Rightarrow> nat \<Rightarrow> u8 list \<times> 'r) \<Rightarrow> nat \<Rightarrow> nat \<Rightarrow> (event \<Rightarrow> 's \<Rightarrow> failure + 's) \<Rightarrow> 'r reader \<Rightarrow> 's \<Rightarrow> failure + 's" where
  "drive_stream read turns 0 handler r s = Inl Diverges"
| "drive_stream read turns (Suc fuel) handler r s =
     andthen (reader_next read turns r) (\<lambda>(st, out, r').
       case out of
         Some f \<Rightarrow> andthen (dispatch handler f s) (\<lambda>(_, s'). drive_stream read turns fuel handler r' s')
       | None \<Rightarrow> Inr s)"

lemma drive_stream_drain:
  assumes "reader_drain read turns fuel r = Inr (fs, st, r')"
  shows "drive_stream read turns fuel h r s =
    handle_all h (map (\<lambda>f. the (event_at f)) (filter (\<lambda>f. event_at f \<noteq> None) fs)) s"
  using assms
proof (induction fuel arbitrary: r s fs)
  case (Suc fuel)
  obtain st1 out r1 where n: "reader_next read turns r = Inr (st1, out, r1)" using Suc.prems by (auto simp: andthen_eq_Inr)
  show ?case
  proof (cases out)
    case None
    then show ?thesis using Suc.prems by (simp add: n)
  next
    case (Some f)
    with Suc.prems n obtain fs1 where fs1: "reader_drain read turns fuel r1 = Inr (fs1, st, r')" "fs = f # fs1"
      by (auto simp: andthen_eq_Inr)
    show ?thesis
      using Suc.IH [OF fs1(1)]
      by (cases "event_at f"; cases "h (the (event_at f)) s") (simp_all add: n Some fs1(2) dispatch_def)
  qed
qed simp

lemma frames_of_events: "f \<in> set (fst (frames_of bs)) \<Longrightarrow> event_at f \<noteq> None"
proof (induction bs rule: frames_of.induct)
  case (1 bs)
  obtain st er body where p: "parse bs = (st, er, body)" by (metis prod_cases3)
  show ?case
  proof (cases "st = Ok")
    case True
    then show ?thesis using 1 p parse_event [of bs er body] by (auto simp: frames_of.simps [of bs] case_prod_beta)
  qed (use 1 p in \<open>simp add: frames_of.simps [of bs]\<close>)
qed

context byte_source
begin

lemma drive_stream_pending:
  assumes "reader_ok r" and "length (pending r) < fuel" and "length (pending r) < turns"
  shows "drive_stream read turns fuel h r s = handle_all h (messages_of (pending r)) s"
proof -
  obtain st r' where d: "reader_drain read turns fuel r = Inr (fst (frames_of (pending r)), st, r')"
    using reader_drain_run [OF assms] by blast
  have "filter (\<lambda>f. event_at f \<noteq> None) (fst (frames_of (pending r))) = fst (frames_of (pending r))"
    using frames_of_events by (intro filter_True) blast
  then show ?thesis by (simp only: drive_stream_drain [OF d] messages_of_def)
qed

end

text \<open>A reader just made over a memory source.\<close>

lemma memory_reader:
  assumes "kMinBufferSize \<le> capacity"
  obtains r where "reader_new (memory_source bs chunk) capacity = Inr r" and "reader_ok r" and "memory.pending r = bs"
    and "length (rd_buf r) = capacity" and "bytes_consumed r = 0"
  using assms
  by (auto simp: reader_new_def reader_ok_def memory.pending_def cursor_of_def cursor_rest_def
      memory_left_def memory_source_def bytes_consumed_def)

end
