(* ===== verification/Replay_Streamed.thy ===== *)
theory Replay_Streamed
  imports Streamed Book_Views
begin

text \<open>
  apps/itch_replay.cpp over a stream: the branches of \<open>drive\<close> for standard input and for a
  path that ends in .gz run the builder from a buffered reader. A replay from a reader is the
  replay of the bytes that the reader has yet to deliver.
\<close>

definition replay_streamed :: "'b book_ops \<Rightarrow> 'b \<Rightarrow> ('r \<Rightarrow> nat \<Rightarrow> u8 list \<times> 'r) \<Rightarrow> nat \<Rightarrow> nat \<Rightarrow> 'r reader \<Rightarrow>
    string \<Rightarrow> u64 \<Rightarrow> bool \<Rightarrow> failure + replay_outcome \<times> 'b" where
  "replay_streamed ops book read turns fuel r symbol validate_every strict =
     andthen (drive_stream read turns fuel (builder_on ops (replay_hooks ops)) r
       (builder_new book symbol (observer_new validate_every strict))) (\<lambda>b.
     andthen (bo_validate ops (bb_book b)) (\<lambda>_. Inr (outcome_report b, bb_book b)))"

context byte_source
begin

lemma replay_streamed_pending:
  assumes "reader_ok r" and "length (pending r) < fuel" and "length (pending r) < turns"
  shows "replay_streamed ops book read turns fuel r symbol every strict = replay_once ops book (pending r) symbol every strict"
  by (simp only: replay_streamed_def replay_once_messages start_of_def drive_stream_pending [OF assms])

end

lemma replay_from_memory:
  assumes "kMinBufferSize \<le> capacity" and "length bytes < turns"
  shows "\<exists>r. reader_new (memory_source bytes chunk) capacity = Inr r \<and>
    replay_streamed ops book memory_read turns turns r symbol every strict = replay_once ops book bytes symbol every strict"
proof -
  obtain r where r: "reader_new (memory_source bytes chunk) capacity = Inr r" "reader_ok r" "memory.pending r = bytes"
    using memory_reader [OF assms(1)] by metis
  show ?thesis using memory.replay_streamed_pending [OF r(2), of turns turns] assms(2) r(1,3) by auto
qed

text \<open>Which replays of an encoded feed end, over a book that agrees with the list.\<close>

lemma replay_ends:
  assumes "rel_sum (=) (\<lambda>(o1, b) (o2, rs). same_outcome o1 o2 \<and> answers_as ops b rs)
      (replay_once ops book bytes symbol every strict) (replay_once naive_ops [] bytes symbol 0 strict)"
    and "\<forall>e \<in> set (messages_of bytes). indicator_ok e" and "n < 2 ^ 32"
    and "room_for_all n ok (feed_ops symbol None (messages_of bytes)) []"
  shows "(\<exists>x. replay_once ops book bytes symbol every strict = Inr x) \<longleftrightarrow>
      (\<exists>rs. run_ops naive_ops (feed_ops symbol None (messages_of bytes)) [] = Inr rs) \<and>
      (strict \<longrightarrow> uncrossed_along (feed_ops symbol None (messages_of bytes)) [])"
    and "replay_once ops book bytes symbol every strict = Inr (out, b') \<Longrightarrow>
      \<exists>rs. run_ops naive_ops (feed_ops symbol None (messages_of bytes)) [] = Inr rs \<and> answers_as ops b' rs"
    and "replay_once ops book bytes symbol every strict = Inl f \<longleftrightarrow> replay_once naive_ops [] bytes symbol 0 strict = Inl f"
proof -
  show "replay_once ops book bytes symbol every strict = Inl f \<longleftrightarrow> replay_once naive_ops [] bytes symbol 0 strict = Inl f" for f
    using assms(1) by (cases "replay_once ops book bytes symbol every strict"; cases "replay_once naive_ops [] bytes symbol 0 strict") auto
  show "\<exists>rs. run_ops naive_ops (feed_ops symbol None (messages_of bytes)) [] = Inr rs \<and> answers_as ops b' rs"
    if "replay_once ops book bytes symbol every strict = Inr (out, b')"
  proof -
    from assms(1) that obtain out2 rs where "replay_once naive_ops [] bytes symbol 0 strict = Inr (out2, rs)" "answers_as ops b' rs"
      by (cases "replay_once naive_ops [] bytes symbol 0 strict") auto
    with replay_list_ended(1) show ?thesis by blast
  qed
  have "(\<exists>x. replay_once naive_ops [] bytes symbol 0 strict = Inr x) \<longleftrightarrow>
      (\<exists>rs. run_ops naive_ops (feed_ops symbol None (messages_of bytes)) [] = Inr rs) \<and>
      (strict \<longrightarrow> uncrossed_along (feed_ops symbol None (messages_of bytes)) [])"
    using replay_over_list [OF assms(2-4)] replay_list_ended [of bytes symbol 0 strict] by (metis surj_pair)
  moreover have "(\<exists>x. replay_once ops book bytes symbol every strict = Inr x) \<longleftrightarrow> (\<exists>x. replay_once naive_ops [] bytes symbol 0 strict = Inr x)"
    using assms(1) by (cases "replay_once ops book bytes symbol every strict"; cases "replay_once naive_ops [] bytes symbol 0 strict") auto
  ultimately show "(\<exists>x. replay_once ops book bytes symbol every strict = Inr x) \<longleftrightarrow>
      (\<exists>rs. run_ops naive_ops (feed_ops symbol None (messages_of bytes)) [] = Inr rs) \<and>
      (strict \<longrightarrow> uncrossed_along (feed_ops symbol None (messages_of bytes)) [])" by blast
qed

text \<open>The operations of the short feed leave no crossed book.\<close>

lemma sample_feed_uncrossed: "uncrossed_along (feed_ops ''ABCD'' None sample_feed) []"
  unfolding sample_feed_ops by code_simp

end
