(* ===== verification/Session_Laws.thy ===== *)
theory Session_Laws
  imports Ladder_Book Avl_Book Map_Book_Laws
begin

text \<open>
  What a client of the engine may rely on over any flat book, in the middle of any session:
  how its submissions are reported and filled, what they leave in the book, and which of them
  are refused. Each law is proved once for any level map; the ladder and the AVL tree give
  it at the prices each of them takes.
\<close>

section \<open>The quantity in the book\<close>

lemma qsum_priority: "qsum (priority s rs) = nb_total_qty rs s"
proof -
  have "qsum (concat (map (\<lambda>p. queue s p rs) ps)) = sum_list (map (\<lambda>p. qsum (queue s p rs)) ps)" for ps
    by (induction ps) simp_all
  then have "qsum (priority s rs) = sum_list (map (\<lambda>p. nb_qty_at rs s p) (level_prices s rs))"
    by (simp add: priority_def nb_qty_at_def)
  then show ?thesis by (simp only: queue_split_sum)
qed

text \<open>A sweep that pulls no order takes from the book what it fills, and nothing else.\<close>

lemma sweep_totals:
  "sw_pulled (sweep stp o' xs q) = 0 \<Longrightarrow>
    qsum (sw_book (sweep stp o' xs q)) + sum_list (map (\<lambda>f. ucast (f_qty f)) (sw_fills (sweep stp o' xs q))) = qsum xs"
proof (induction stp o' xs q rule: sweep.induct)
  case (2 stp o' x xs q)
  have "ucast q + ucast (r_qty x - q) = (ucast (r_qty x) :: u64)" if "q < r_qty x"
    using ucast_minus_le [of q "r_qty x"] that by simp
  with 2 show ?case by (auto simp: Let_def fill_of_def ac_simps split: if_splits)
qed simp

lemma fills_total: "sum_list (map (\<lambda>f. ucast (f_qty f)) fs) = (of_nat (sum_list (map (\<lambda>f. unat (f_qty f)) fs)) :: u64)"
  by (induction fs) simp_all

lemma sweep_pulls_none: "stp \<in> {Off, CancelNewest} \<Longrightarrow> sw_pulled (sweep stp o' xs q) = 0"
  by (induction stp o' xs q rule: sweep.induct) (auto simp: Let_def own_order_def)

lemma submit_totals:
  assumes ok: "engine_ok e" and acc: "accepted o'" and room: "en_next_ref e + 1 \<noteq> 0"
    and run: "submit naive_ops o' [] e = Inr (e', rp, fs)"
  shows "nb_total_qty (en_book e') (no_side o') = nb_total_qty (en_book e) (no_side o') + ucast (rp_resting_qty rp)"
    and "en_stp e \<in> {Off, CancelNewest} \<Longrightarrow>
      nb_total_qty (en_book e') (opposite (no_side o')) + ucast (rp_filled rp) = nb_total_qty (en_book e) (opposite (no_side o'))"
proof -
  let ?s = "no_side o'" and ?w = "sweep_of o' e"
  have w: "?w = sweep (en_stp e) o' (priority (opposite ?s) (en_book e)) (no_qty o')" by (simp add: sweep_of_def)
  obtain rs1 where r: "priority (opposite ?s) rs1 = sw_book ?w" "priority ?s rs1 = priority ?s (en_book e)"
    "rp = report_of o' (en_next_ref e) ?w" "fs = sw_fills ?w"
    "en_book e' = (if outcome_of o' ?w = Rested
      then nb_add (en_next_ref e) ?s (no_price o') (sw_left ?w) (no_owner o') rs1 else rs1)"
    using submit_naive [OF ok acc room, of "[]"] run by auto
  have own: "nb_total_qty rs1 ?s = nb_total_qty (en_book e) ?s"
    and other: "nb_total_qty rs1 (opposite ?s) = qsum (sw_book ?w)"
    using r(1,2) by (simp_all flip: qsum_priority)
  have added: "nb_total_qty (en_book e') t = nb_total_qty rs1 t + (if t = ?s then ucast (rp_resting_qty rp) else 0)" for t
    by (simp add: r(3,5) report_of_def nb_total_qty_def nb_add_def on_side_def)
  from added [of ?s] own show "nb_total_qty (en_book e') ?s = nb_total_qty (en_book e) ?s + ucast (rp_resting_qty rp)" by simp
  assume "en_stp e \<in> {Off, CancelNewest}"
  then have "qsum (sw_book ?w) + sum_list (map (\<lambda>f. ucast (f_qty f)) (sw_fills ?w)) = nb_total_qty (en_book e) (opposite ?s)"
    unfolding w using sweep_totals [OF sweep_pulls_none] by (simp add: qsum_priority)
  moreover have "sum_list (map (\<lambda>f. ucast (f_qty f)) (sw_fills ?w)) = (ucast (rp_filled rp) :: u64)"
    using sweep_filled(3) [of "en_stp e" o' "priority (opposite ?s) (en_book e)" "no_qty o'"]
    by (simp add: fills_total w r(3) report_of_def)
  ultimately show "nb_total_qty (en_book e') (opposite ?s) + ucast (rp_filled rp) = nb_total_qty (en_book e) (opposite ?s)"
    using added [of "opposite ?s"] other by simp
qed

lemma sweep_stopped_left: "sw_stopped (sweep stp o' xs q) \<Longrightarrow> sw_left (sweep stp o' xs q) \<noteq> 0"
  by (induction stp o' xs q rule: sweep.induct) (auto simp: Let_def split: if_splits)

text \<open>
  What a report accounts for: the fills add up to the filled quantity; an order is filled in
  full, or rests with exactly the rest, or is cut short for the reason its outcome names; the
  total quantity of its side of the book grows by what rested, and the other side's falls by
  what was filled, unless the prevention mode pulls resting orders.
\<close>

definition accounted :: "stp_mode \<Rightarrow> new_order \<Rightarrow> report \<Rightarrow> fill list \<Rightarrow> (side \<Rightarrow> u64) \<Rightarrow> (side \<Rightarrow> u64) \<Rightarrow> bool" where
  "accounted stp o' rp fs before after \<longleftrightarrow>
     sum_list (map (\<lambda>f. unat (f_qty f)) fs) = unat (rp_filled rp) \<and>
     (case rp_outcome rp of
        FilledComplete \<Rightarrow> rp_filled rp = no_qty o' \<and> rp_resting_qty rp = 0
      | Rested \<Rightarrow> rp_resting_qty rp \<noteq> 0 \<and> unat (rp_filled rp) + unat (rp_resting_qty rp) = unat (no_qty o')
      | Cancelled \<Rightarrow> rp_filled rp < no_qty o' \<and> rp_resting_qty rp = 0 \<and> (no_type o' = Market \<or> no_tif o' = Ioc)
      | StpRejected \<Rightarrow> rp_filled rp < no_qty o' \<and> rp_resting_qty rp = 0 \<and> stp \<noteq> Off) \<and>
     after (no_side o') = before (no_side o') + ucast (rp_resting_qty rp) \<and>
     (stp \<in> {Off, CancelNewest} \<longrightarrow>
        after (opposite (no_side o')) + ucast (rp_filled rp) = before (opposite (no_side o')))"

section \<open>Over any flat book\<close>

context level_map
begin

lemma runs_refine:
  assumes "capacities_ok oc lc ic" and "room_for_all (book_room oc lc ic) ok_price xs []" and "book_new ops oc lc ic = Inr b"
  shows "case run_ops naive_ops xs [] of
      Inl f \<Rightarrow> run_ops (flat_ops ops H) xs b = Inl f
    | Inr rs \<Rightarrow> \<exists>b'. run_ops (flat_ops ops H) xs b = Inr b' \<and> answers_as (flat_ops ops H) b' rs"
proof -
  have "rel_sum (=) (\<lambda>b' rs. rep H b' rs \<and> answers_as (flat_ops ops H) b' rs)
      (run_ops (flat_ops ops H) xs b) (run_ops naive_ops xs [])"
    using flat_runs [OF assms(1,2), of H] assms(3) by auto
  from rel_sum_answer [OF this] show ?thesis by (auto split: sum.splits)
qed

lemma session_refines:
  assumes "capacities_ok oc lc ic" and "length rs \<le> book_room oc lc ic" and "\<forall>r \<in> set rs. priced ok_price r"
    and "book_new ops oc lc ic = Inr b"
  shows "rel_sum (=) (\<lambda>(e, fs) (n, gs). fs = gs \<and> answers_as (flat_ops ops H) (en_book e) (en_book n))
      (serve_all (flat_ops ops H) rs (engine_new b stp)) (serve_all naive_ops rs (engine_new [] stp))"
proof (rule rel_sum_strengthen)
  show "rel_sum (=) (\<lambda>(e, fs) (n, gs). fs = gs \<and> \<not> nb_crossed (en_book n) \<and> answers_as (flat_ops ops H) (en_book e) (en_book n))
      (serve_all (flat_ops ops H) rs (engine_new b stp)) (serve_all naive_ops rs (engine_new [] stp))"
    using flat_sessions [OF assms(1-3), of H stp] assms(4) by auto
qed auto

text \<open>A session the list serves to its end is served by a new book of any sufficient capacity.\<close>

lemma session_served:
  assumes "serve_all naive_ops rs (engine_new [] stp) = Inr (n, fs)" and "capacities_ok oc lc ic"
    and "length rs < book_room oc lc ic" and "\<forall>r \<in> set rs. priced ok_price r"
  shows "\<exists>e. served ops ok_price H stp rs e n"
proof -
  obtain b where b: "book_new ops oc lc ic = Inr b" using flat_start [OF assms(2)] by blast
  from session_refines [OF assms(2) less_imp_le [OF assms(3)] assms(4) b, of H stp]
  obtain e where "serve_all (flat_ops ops H) rs (engine_new b stp) = Inr (e, fs)"
    unfolding assms(1) by (cases "serve_all (flat_ops ops H) rs (engine_new b stp)") auto
  with b assms show ?thesis unfolding served_def by blast
qed

lemma touch_uncrossed:
  assumes "served ops ok_price H stp rs e n"
    and "\<not> bk_empty ops (en_book e) Buy" and "\<not> bk_empty ops (en_book e) Sell"
  shows "bk_best_price (en_book e) Buy < bk_best_price (en_book e) Sell"
  using served_state(3,7) [OF assms(1)] assms(2,3)
  by (simp add: answers_as_def flat_ops_def nb_crossed_def not_le)

lemma submit_returns:
  assumes "served ops ok_price H stp rs e n" and "accepted o'" and "priced ok_price (Submit o')"
  shows "\<exists>e'. submit (flat_ops ops H) o' fills e =
    Inr (e', report_of o' (en_next_ref e) (sweep_of o' n), fills @ sw_fills (sweep_of o' n))"
  using served_submit [OF assms, of fills] by blast

lemma report_adds_up:
  assumes "served ops ok_price H stp rs e n" and "priced ok_price (Submit o')"
    and "submit (flat_ops ops H) o' [] e = Inr (e', rp, fs)"
  defines "w \<equiv> sweep_of o' n"
  shows "sum_list (map (\<lambda>f. unat (f_qty f)) fs) = unat (rp_filled rp)"
    and "unat (rp_filled rp) + unat (sw_left w) = unat (no_qty o')"
    and "rp_outcome rp = outcome_of o' w" and "rp_resting_qty rp = (if outcome_of o' w = Rested then sw_left w else 0)"
    and "sw_stopped w \<Longrightarrow> sw_left w \<noteq> 0 \<and> stp \<noteq> Off"
proof -
  note r = served_report [OF assms(1-3)]
  have w: "w = sweep stp o' (priority (opposite (no_side o')) (en_book n)) (no_qty o')"
    using served_state(4) [OF assms(1)] by (simp add: w_def sweep_of_def)
  note filled = sweep_filled [of stp o' "priority (opposite (no_side o')) (en_book n)" "no_qty o'", folded w]
  show "sum_list (map (\<lambda>f. unat (f_qty f)) fs) = unat (rp_filled rp)"
    using filled(3) by (simp add: r report_of_def flip: w_def)
  show "unat (rp_filled rp) + unat (sw_left w) = unat (no_qty o')"
    using filled(1,2) by (simp add: r report_of_def flip: w_def)
  show "rp_outcome rp = outcome_of o' w" "rp_resting_qty rp = (if outcome_of o' w = Rested then sw_left w else 0)"
    by (simp_all add: r(1) report_of_def flip: w_def)
  show "sw_left w \<noteq> 0 \<and> stp \<noteq> Off" if "sw_stopped w"
    using that sweep_stopped_left sweep_off unfolding w by blast
qed

lemma book_adds_up:
  assumes "served ops ok_price H stp rs e n" and "priced ok_price (Submit o')"
    and "submit (flat_ops ops H) o' [] e = Inr (e', rp, fs)"
  shows "bk_total_qty (en_book e') (no_side o') = bk_total_qty (en_book e) (no_side o') + ucast (rp_resting_qty rp)"
    and "stp \<in> {Off, CancelNewest} \<Longrightarrow>
      bk_total_qty (en_book e') (opposite (no_side o')) + ucast (rp_filled rp) = bk_total_qty (en_book e) (opposite (no_side o'))"
proof -
  note st = served_state [OF assms(1)]
  have acc: "accepted o'" by (rule submit_accepts [OF assms(3)])
  obtain n' where n': "submit naive_ops o' [] n = Inr (n', rp, fs)" "answers_as (flat_ops ops H) (en_book e') (en_book n')"
    using served_submit [OF assms(1) acc assms(2), of "[]"] assms(3) by auto
  have t: "bk_total_qty (en_book e) s = nb_total_qty (en_book n) s" "bk_total_qty (en_book e') s = nb_total_qty (en_book n') s" for s
    using st(7) n'(2) by (simp_all add: answers_as_def flat_ops_def)
  note u = submit_totals [OF st(2) acc st(6) n'(1)]
  from u(1) show "bk_total_qty (en_book e') (no_side o') = bk_total_qty (en_book e) (no_side o') + ucast (rp_resting_qty rp)"
    by (simp add: t)
  from u(2) st(4) show "stp \<in> {Off, CancelNewest} \<Longrightarrow>
      bk_total_qty (en_book e') (opposite (no_side o')) + ucast (rp_filled rp) = bk_total_qty (en_book e) (opposite (no_side o'))"
    by (simp add: t)
qed

lemma submission_accounted:
  assumes "served ops ok_price H stp rs e n" and "priced ok_price (Submit o')"
    and "submit (flat_ops ops H) o' [] e = Inr (e', rp, fs)"
  shows "accounted stp o' rp fs (bk_total_qty (en_book e)) (bk_total_qty (en_book e'))"
proof -
  note r = report_adds_up [OF assms]
  have "rp_filled rp < no_qty o'" if "sw_left (sweep_of o' n) \<noteq> 0"
  proof -
    have "0 < unat (sw_left (sweep_of o' n))" using that by (simp add: unat_gt_0)
    with r(2) show ?thesis unfolding word_less_nat_alt by linarith
  qed
  moreover have "rp_filled rp = no_qty o'" if "sw_left (sweep_of o' n) = 0"
    using that r(2) by (simp add: word_unat_eq_iff)
  ultimately show ?thesis
    using r book_adds_up [OF assms] unfolding accounted_def by (auto simp: outcome_of_def)
qed

lemma fills_in_priority:
  assumes "served ops ok_price H Off rs e n" and "priced ok_price (Submit o')"
    and "submit (flat_ops ops H) o' [] e = Inr (e', rp, fs)"
  defines "xs \<equiv> priority (opposite (no_side o')) (en_book n)"
  shows "\<exists>k q. fs = whole_fills o' (take k xs) \<or>
      (k < length xs \<and> q \<noteq> 0 \<and> q < r_qty (xs ! k) \<and> fs = whole_fills o' (take k xs) @ [fill_of o' (xs ! k) q])"
    and "\<forall>f \<in> set fs. crosses o' (f_price f)"
proof -
  have w: "sweep_of o' n = sweep Off o' xs (no_qty o')"
    using served_state(4) [OF assms(1)] by (simp add: sweep_of_def xs_def)
  have fs: "fs = sw_fills (sweep Off o' xs (no_qty o'))"
    using served_report(2) [OF assms(1-3)] w by simp
  have "\<forall>x \<in> set xs. r_qty x \<noteq> 0" unfolding xs_def by (rule served_quantities [OF assms(1)])
  then show "\<forall>f \<in> set fs. crosses o' (f_price f)"
    unfolding fs using sweep_fills by (force simp: fill_of_def)
  from sweep_off_fills [of o' xs "no_qty o'"] fs
  show "\<exists>k q. fs = whole_fills o' (take k xs) \<or>
      (k < length xs \<and> q \<noteq> 0 \<and> q < r_qty (xs ! k) \<and> fs = whole_fills o' (take k xs) @ [fill_of o' (xs ! k) q])"
    by blast
qed

lemma depth_fills:
  assumes "served ops ok_price H Off rs e n" and "accepted o'" and "priced ok_price (Submit o')"
    and "unat (no_qty o') \<le> depth_for o' (priority (opposite (no_side o')) (en_book n))"
  shows "\<exists>e' rp fs. submit (flat_ops ops H) o' fills e = Inr (e', rp, fs) \<and>
    rp_outcome rp = FilledComplete \<and> rp_filled rp = no_qty o'"
proof -
  let ?w = "sweep_of o' n"
  have w: "?w = sweep Off o' (priority (opposite (no_side o')) (en_book n)) (no_qty o')"
    using served_state(4) [OF assms(1)] by (simp add: sweep_of_def)
  have left: "sw_left ?w = 0" "\<not> sw_stopped ?w"
    unfolding w by (rule sweep_depth [OF assms(4)]) (simp add: sweep_off)
  have "unat (sum_list (map f_qty (sw_fills ?w))) = unat (no_qty o')"
    using sweep_filled(1) left(1) unfolding w by simp
  then have "sum_list (map f_qty (sw_fills ?w)) = no_qty o'" by (simp add: word_unat_eq_iff)
  with left served_submit [OF assms(1-3), of fills] show ?thesis
    by (auto simp: report_of_def outcome_of_def)
qed

lemma withdraw_missing:
  assumes "served ops ok_price H stp rs e n" and "ref \<notin> r_ref ` set (en_book n)"
  shows "engine_cancel (flat_ops ops H) ref e = Inl (BookF DeleteMissing)"
proof -
  have rep: "rep H (en_book e) (en_book n)"
    using served_state(1) [OF assms(1)] by (simp add: engine_rel_def)
  have "sb_remove ref (en_book n) = Inl (BookF DeleteMissing)"
    using sb_require_missing [OF flat.rep_book_wf [OF rep] assms(2)] by (simp add: sb_remove_def)
  then show ?thesis
    using flat.remove_law [OF rep, of ref] unfolding engine_cancel_def
    by (cases "bo_remove (flat_ops ops H) ref (en_book e)") auto
qed

end

end
