(* ===== verification/Low_Prices.thy ===== *)
theory Low_Prices
  imports Session_Laws Samples Avl_Book
begin

text \<open>
  A session at prices the ladder's window cannot hold, over the AVL book: asks at 100.00 and
  then at 10.00, the levels of which the ladder loses the second.
\<close>

definition low_asks :: "request list" where
  "low_asks =
     [Submit \<lparr>no_client_id = 11, no_owner = 7, no_side = Sell, no_type = Limit, no_tif = Day, no_price = 1000000, no_qty = 100\<rparr>,
      Submit \<lparr>no_client_id = 12, no_owner = 8, no_side = Sell, no_type = Limit, no_tif = Day, no_price = 100000, no_qty = 50\<rparr>]"

definition low_book :: naive_book where
  "low_book =
     [\<lparr>r_ref = 1, r_side = Sell, r_price = 1000000, r_qty = 100, r_owner = 7\<rparr>,
      \<lparr>r_ref = 2, r_side = Sell, r_price = 100000, r_qty = 50, r_owner = 8\<rparr>]"

lemma low_asks_run:
  "\<exists>n. serve_all naive_ops low_asks (engine_new [] stp) = Inr (n, []) \<and> en_book n = low_book"
proof -
  have "serve_all naive_ops low_asks (engine_new [] stp) =
     Inr (\<lparr>en_book = low_book, en_stp = stp, en_next_ref = 3,
       en_stats = \<lparr>es_submitted = 2, es_fills = 0, es_filled_qty = 0, es_rested = 2, es_cancelled = 0, es_stp_events = 0\<rparr>\<rparr>, [])"
    by (cases stp) code_simp+
  then show ?thesis by simp
qed

lemma low_asks_priced: "\<forall>r \<in> set low_asks. priced avl_price r"
  by (simp add: low_asks_def avl_price_def kNoPrice_def)

lemma low_served: "\<exists>e n. served avl_ops avl_price H stp low_asks e n \<and> en_book n = low_book"
proof -
  have "length low_asks < book_room 8 8 8" by (simp add: low_asks_def sample_capacity)
  then show ?thesis
    using low_asks_run avl.session_served [OF _ sample_capacity(1) _ low_asks_priced] by metis
qed

text \<open>The same with a bid at 5.00.\<close>

definition low_both :: "request list" where
  "low_both = low_asks @ [Submit (sample_bid Limit 50000 10 9)]"

definition low_two_sided :: naive_book where
  "low_two_sided = low_book @ [\<lparr>r_ref = 3, r_side = Buy, r_price = 50000, r_qty = 10, r_owner = 9\<rparr>]"

lemma low_both_run:
  "\<exists>n. serve_all naive_ops low_both (engine_new [] Off) = Inr (n, []) \<and> en_book n = low_two_sided"
proof -
  have "serve_all naive_ops low_both (engine_new [] Off) =
     Inr (\<lparr>en_book = low_two_sided, en_stp = Off, en_next_ref = 4,
       en_stats = \<lparr>es_submitted = 3, es_fills = 0, es_filled_qty = 0, es_rested = 3, es_cancelled = 0, es_stp_events = 0\<rparr>\<rparr>, [])"
    by code_simp
  then show ?thesis by simp
qed

lemma low_both_served: "\<exists>e n. served avl_ops avl_price H Off low_both e n \<and> en_book n = low_two_sided"
proof -
  have p: "\<forall>r \<in> set low_both. priced avl_price r" using low_asks_priced by (simp add: low_both_def sample_bid_def avl_price_def kNoPrice_def)
  have "length low_both < book_room 8 8 8" by (simp add: low_both_def low_asks_def sample_capacity)
  then show ?thesis using low_both_run avl.session_served [OF _ sample_capacity(1) _ p] by metis
qed

lemma low_priority: "priority Sell low_book = [low_book ! 1, low_book ! 0]"
  by code_simp

text \<open>A bid at 10.00 takes the second ask and rests with what is left.\<close>

lemma low_sweep:
  "sweep Off (sample_bid Limit 100000 60 9) (priority (opposite (no_side (sample_bid Limit 100000 60 9))) low_book) 60 =
    \<lparr>sw_fills = [fill_of (sample_bid Limit 100000 60 9) (low_book ! 1) 50], sw_left = 10, sw_stopped = False, sw_pulled = 0,
     sw_events = 0, sw_book = [low_book ! 0]\<rparr>"
  by code_simp

end
