(* ===== verification/Pool_Histories.thy ===== *)
theory Pool_Histories
  imports Records
begin

text \<open>
  What becomes of a handle after its slot has been freed. The pool only knows the generation
  of each slot, one step further with every allocation and every free of it; so a freed
  handle is refused after any further operations on the pool, until its slot has been handed
  out 128 times more and the 8-bit generation has come round.
\<close>

section \<open>One operation and the generations\<close>

context pool_slot
begin

lemma allocate_generations:
  assumes "pool_inv ops p" and "allocate ops p = Inr (p', x)"
  shows "pool_inv ops p' \<and> length (slots p') = length (slots p) \<and> even (pool_generation ops (slots p ! h_pos x)) \<and>
    (\<forall>j < length (slots p). pool_generation ops (slots p' ! j) =
       pool_generation ops (slots p ! j) + (if j = h_pos x then 1 else 0))"
proof -
  have "0 < pool_room p" using allocate_exhausted [OF assms(1)] assms(2) by fastforce
  moreover obtain fs0 where at0: "pool_inv_at ops p fs0" using assms(1) by (auto simp: pool_inv_def)
  ultimately obtain i fs where "fs0 = i # fs" by (cases fs0) (auto simp: pool_room_at)
  with at0 have at: "pool_inv_at ops p (i # fs)" by simp
  then have i: "i < length (slots p)" "even (pool_generation ops (slots p ! i))" by (auto simp: pool_inv_at_def)
  from allocate_at [OF at] assms(2) have a: "h_pos x = i" "pool_inv_at ops p' fs"
    "slots p' = (slots p)[i := set_pool_generation ops (pool_generation ops (slots p ! i) + 1) (slots p ! i)]" by auto
  then show ?thesis using i by (auto simp: pool_inv_def nth_list_update slot_laws)
qed

lemma free_generations:
  assumes "pool_inv ops p" and "pool_live ops p x" and run: "pool_free ops p x = Inr p'"
  shows "pool_inv ops p' \<and> length (slots p') = length (slots p) \<and> odd (pool_generation ops (slots p ! h_pos x)) \<and>
    (\<forall>j < length (slots p). pool_generation ops (slots p' ! j) =
       pool_generation ops (slots p ! j) + (if j = h_pos x then 1 else 0))"
proof -
  let ?p2 = "(pool_write p x (set_pool_generation ops (h_generation x + 1)))
      \<lparr>live := live (pool_write p x (set_pool_generation ops (h_generation x + 1))) - 1\<rparr>"
  obtain fs where at: "pool_inv_at ops p fs" using assms(1) by (auto simp: pool_inv_def)
  obtain q fs' where q: "pool_free ops p x = Inr q" "pool_inv_at ops q fs'" "length (slots q) = length (slots p)"
    "\<forall>j < length (slots p). pool_generation ops (slots q ! j) = pool_generation ops (slots ?p2 ! j) \<and>
       (odd (pool_generation ops (slots ?p2 ! j)) \<longrightarrow> slots q ! j = slots ?p2 ! j)"
    by (rule free_run [OF at assms(2)])
  have x: "h_pos x < length (slots p)" "pool_generation ops (slots p ! h_pos x) = h_generation x" "odd (h_generation x)"
    using assms(2) by (simp_all add: pool_live_def)
  then have "pool_generation ops (slots ?p2 ! j) = pool_generation ops (slots p ! j) + (if j = h_pos x then 1 else 0)" for j
    by (simp add: pool_write_def nth_list_update_if slot_laws)
  with q x run show ?thesis by (auto simp: pool_inv_def)
qed

lemma write_generations:
  assumes "pool_inv ops p" and "pool_live ops p x"
    and "pool_generation ops (f (slot_at p x)) = pool_generation ops (slot_at p x)"
  shows "pool_inv ops (pool_write p x f) \<and> length (slots (pool_write p x f)) = length (slots p) \<and>
    (\<forall>j < length (slots p). pool_generation ops (slots (pool_write p x f) ! j) = pool_generation ops (slots p ! j))"
  using write_ok(1) [of p x f, OF assms] assms(2,3) by (auto simp: pool_write_def slot_at_def nth_list_update pool_live_def)

end

section \<open>Runs of the pool\<close>

text \<open>What happened to the pool, oldest first: slots handed out, given back, written through.\<close>

datatype pool_event = Took order_handle | Gave order_handle | Wrote order_handle

inductive order_pool_runs :: "order_pool \<Rightarrow> pool_event list \<Rightarrow> order_pool \<Rightarrow> bool" for p where
  runs_start: "order_pool_runs p [] p"
| runs_take: "order_pool_runs p es q \<Longrightarrow> allocate order_slot q = Inr (q', x) \<Longrightarrow> order_pool_runs p (es @ [Took x]) q'"
| runs_give: "order_pool_runs p es q \<Longrightarrow> pool_live order_slot q x \<Longrightarrow> pool_free order_slot q x = Inr q' \<Longrightarrow>
    order_pool_runs p (es @ [Gave x]) q'"
| runs_write: "order_pool_runs p es q \<Longrightarrow> pool_live order_slot q x \<Longrightarrow> o_gen (f (slot_at q x)) = o_gen (slot_at q x) \<Longrightarrow>
    order_pool_runs p (es @ [Wrote x]) (pool_write q x f)"

definition times_taken :: "order_handle \<Rightarrow> pool_event list \<Rightarrow> nat" where
  "times_taken h es = length (filter (\<lambda>v. case v of Took x \<Rightarrow> h_pos x = h_pos h | _ \<Rightarrow> False) es)"

definition times_given :: "order_handle \<Rightarrow> pool_event list \<Rightarrow> nat" where
  "times_given h es = length (filter (\<lambda>v. case v of Gave x \<Rightarrow> h_pos x = h_pos h | _ \<Rightarrow> False) es)"

lemma times_simps [simp]:
  "times_taken h [] = 0" "times_given h [] = 0"
  "times_taken h (es @ [v]) = times_taken h es + (case v of Took x \<Rightarrow> if h_pos x = h_pos h then 1 else 0 | _ \<Rightarrow> 0)"
  "times_given h (es @ [v]) = times_given h es + (case v of Gave x \<Rightarrow> if h_pos x = h_pos h then 1 else 0 | _ \<Rightarrow> 0)"
  by (simp_all add: times_taken_def times_given_def split: pool_event.split)

lemma even_of_nat_u8: "even (of_nat n :: u8) \<longleftrightarrow> even n"
  by simp

text \<open>The slot of a freed handle is handed out and given back in turns.\<close>

definition gone :: "order_handle \<Rightarrow> pool_event list \<Rightarrow> order_pool \<Rightarrow> bool" where
  "gone h es q \<longleftrightarrow> pool_inv order_slot q \<and> h_pos h < length (slots q) \<and> odd (h_generation h) \<and>
     o_gen (slots q ! h_pos h) = h_generation h + 1 + of_nat (times_taken h es + times_given h es) \<and>
     (times_taken h es = times_given h es \<or> times_taken h es = Suc (times_given h es))"

lemma order_generation: "pool_generation order_slot = o_gen"
  by (simp add: order_slot_def)

lemma gone_runs:
  assumes "order_pool_runs p es q" and "gone h [] p"
  shows "gone h es q"
  using assms(1)
proof (induction rule: order_pool_runs.induct)
  case runs_start
  then show ?case by (rule assms(2))
next
  case (runs_take es q q' x)
  have g: "gone h es q" by (rule runs_take.IH)
  then have inv: "pool_inv order_slot q" by (simp add: gone_def)
  note s = order_pool.allocate_generations [OF inv runs_take.hyps(2), unfolded order_generation]
  have "times_taken h es = times_given h es" if "h_pos x = h_pos h"
  proof -
    have "even (h_generation h + 1 + of_nat (times_taken h es + times_given h es) :: u8)"
      using s that g by (auto simp: gone_def)
    then have "even (times_taken h es + times_given h es)"
      using g by (simp only: gone_def even_add even_of_nat_u8) simp
    then show ?thesis using g by (auto simp: gone_def)
  qed
  with g s show ?case by (auto simp: gone_def ac_simps)
next
  case (runs_give es q x q')
  have g: "gone h es q" by (rule runs_give.IH)
  then have inv: "pool_inv order_slot q" by (simp add: gone_def)
  note s = order_pool.free_generations [OF inv runs_give.hyps(2,3), unfolded order_generation]
  have "times_taken h es = Suc (times_given h es)" if "h_pos x = h_pos h"
  proof -
    have "odd (h_generation h + 1 + of_nat (times_taken h es + times_given h es) :: u8)"
      using s that g by (auto simp: gone_def)
    then have "odd (times_taken h es + times_given h es)"
      using g by (simp only: gone_def even_add even_of_nat_u8) simp
    then show ?thesis using g by (auto simp: gone_def)
  qed
  with g s show ?case by (auto simp: gone_def ac_simps)
next
  case (runs_write es q x f)
  have g: "gone h es q" by (rule runs_write.IH)
  then have inv: "pool_inv order_slot q" by (simp add: gone_def)
  have "pool_generation order_slot (f (slot_at q x)) = pool_generation order_slot (slot_at q x)"
    using runs_write.hyps(3) by (simp add: order_generation)
  note s = order_pool.write_generations [of q x f, OF inv runs_write.hyps(2) this, unfolded order_generation]
  from g s show ?case by (auto simp: gone_def)
qed

lemma gone_refused:
  assumes "gone h es q" and "times_taken h es = 0 \<or> \<not> 128 dvd times_taken h es"
  shows "pool_ref order_slot q h = Inl (PoolF StaleHandle)" and "pool_free order_slot q h = Inl (PoolF StaleHandle)"
proof -
  let ?n = "times_taken h es + times_given h es"
  have "\<not> 256 dvd Suc ?n"
  proof
    assume d: "256 dvd Suc ?n"
    have "(2 :: nat) dvd 256" by simp
    then have "even (Suc ?n)" using d by (rule dvd_trans)
    then have "times_taken h es = Suc (times_given h es)" using assms(1) by (auto simp: gone_def)
    with d have "256 dvd 2 * times_taken h es" "times_taken h es \<noteq> 0" by (simp_all add: mult_2)
    then show False using assms(2) by presburger
  qed
  then have "(of_nat (Suc ?n) :: u8) \<noteq> 0" using word_of_nat_eq_0_iff [of "Suc ?n", where 'a = 8] by simp
  moreover have "o_gen (slots q ! h_pos h) = h_generation h + of_nat (Suc ?n)"
    using assms(1) by (simp add: gone_def ac_simps)
  ultimately have "o_gen (slots q ! h_pos h) \<noteq> h_generation h" by (simp del: of_nat_Suc)
  then have "deref_checked order_slot q h = Inl (PoolF StaleHandle)"
    using assms(1) by (simp add: gone_def deref_checked_def order_generation)
  then show "pool_ref order_slot q h = Inl (PoolF StaleHandle)" "pool_free order_slot q h = Inl (PoolF StaleHandle)"
    by (simp_all add: pool_ref_def pool_free_def)
qed

lemma freed_gone:
  assumes "pool_inv order_slot p" and "pool_live order_slot p h" and "pool_free order_slot p h = Inr p'"
  shows "gone h [] p'"
  using order_pool.free_generations [OF assms] order_pool.free_generation [OF assms] assms(2)
  by (auto simp: gone_def order_generation pool_live_def)

text \<open>After \<open>n\<close> rounds of free and allocate the old handle is refused unless it names the slot again.\<close>

lemma recycled_refused:
  assumes "pool_inv order_slot p" and "pool_live order_slot p h" and "quarantine_limit p = 0"
    and run: "recycle order_slot n p h = Inr (p', h')"
  shows "pool_ref order_slot p' h = (if 128 dvd n then Inr (slot_at p' h) else Inl (PoolF StaleHandle))"
proof -
  have h': "pool_live order_slot p' h'" "h_index h' = h_index h"
    using order_pool.recycle_generation [OF assms(1-3), of n] run by auto
  have eq: "h' = h \<longleftrightarrow> 128 dvd n" by (rule order_pool.recycle_same_handle [OF assms])
  have pos: "h_pos h < length (slots p')" and gen: "o_gen (slots p' ! h_pos h) = h_generation h'"
    using h' by (simp_all add: pool_live_def order_generation h_pos_def)
  have "h_generation h' = h_generation h \<longleftrightarrow> h' = h" using h'(2) by (auto simp: handle_eq_iff)
  then show ?thesis
    using pos gen eq by (simp add: pool_ref_def deref_checked_def order_generation slot_at_def Let_def)
qed

end
