(* ===== verification/Endian_Values.thy ===== *)
theory Endian_Values
  imports Endian
begin

text \<open>
  The byte order on the wire: what the loads of include/itch/core/endian.hpp read is the
  number whose digits to base 256 are the bytes, the most significant first, and the stores
  write these digits, whatever the byte order of the machine.
\<close>

definition be_value :: "u8 list \<Rightarrow> nat" where
  "be_value bs = foldl (\<lambda>n b. 256 * n + unat b) 0 bs"

lemma be_value_snoc [simp]: "be_value [] = 0" "be_value (bs @ [b]) = 256 * be_value bs + unat b"
  by (simp_all add: be_value_def)

lemma be_value_bound: "be_value bs < 256 ^ length bs"
proof (induction bs rule: rev_induct)
  case (snoc b bs)
  have "unat b < 256" using unsigned_less [of b] by simp
  with snoc show ?case by simp
qed simp

lemma unat_word_of_le:
  assumes "8 * length bs \<le> LENGTH('a::len)"
  shows "unat (word_of_le bs :: 'a word) = be_value (rev bs)"
  using assms
proof (induction bs)
  case (Cons b bs)
  let ?w = "word_of_le bs :: 'a word"
  have IH: "unat ?w = be_value (rev bs)" using Cons by simp
  have len: "8 * Suc (length bs) \<le> LENGTH('a)" using Cons.prems by simp
  have small: "256 * be_value (rev bs) + unat b < 2 ^ LENGTH('a)"
  proof -
    have "unat b < 256" using unsigned_less [of b] by simp
    then have "256 * be_value (rev bs) + unat b < 256 * 256 ^ length bs"
      using be_value_bound [of "rev bs"] by simp
    also have "\<dots> = 2 ^ (8 * Suc (length bs))" by (simp add: power_add power_mult)
    also have "\<dots> \<le> 2 ^ LENGTH('a)" using len by (rule power_increasing) simp
    finally show ?thesis .
  qed
  have "ucast b OR push_bit 8 ?w = ucast b + push_bit 8 ?w"
    by (rule disjunctive_add [symmetric]) (auto simp: bit_simps dest: bit_imp_le_length)
  also have "\<dots> = of_nat (256 * be_value (rev bs) + unat b)"
    by (simp add: push_bit_eq_mult mult.commute add.commute flip: IH)
  finally show ?case using small by (simp only: word_of_le.simps rev.simps be_value_snoc unat_of_nat mod_less)
qed simp

text \<open>The laws at any width of a whole number of bytes; the byte order of the machine drops out.\<close>

lemma load_be_on_reads:
  assumes "8 dvd LENGTH('a::len)" and "LENGTH('a) div 8 \<le> length p"
  shows "unat (load_be_on native p :: 'a word) = be_value (take (LENGTH('a) div 8) p)"
  using assms unat_word_of_le [of "rev (take (LENGTH('a) div 8) p)", where 'a = 'a] by (simp add: load_be_on_value)

lemma store_be_on_writes:
  assumes "8 dvd LENGTH('a::len)"
  shows "length (store_be_on native (v :: 'a word)) = LENGTH('a) div 8" and "be_value (store_be_on native v) = unat v"
  using assms unat_word_of_le [of "le_bytes (LENGTH('a) div 8) v", where 'a = 'a]
  by (simp_all add: store_be_on_value word_of_le_bytes)

lemma load_store_be_on:
  assumes "8 dvd LENGTH('a::len)"
  shows "load_be_on native (store_be_on native' (v :: 'a word) @ rest) = v"
  using assms by (simp add: load_be_on_value store_be_on_value word_of_le_bytes)

lemma store_load_be_on:
  assumes "8 dvd LENGTH('a::len)" and "length bs = LENGTH('a) div 8"
  shows "store_be_on native (load_be_on native' bs :: 'a word) = bs"
  using assms le_bytes_word_of_le [of "rev bs", where 'a = 'a] by (simp add: load_be_on_value store_be_on_value)

lemma be_value_append: "be_value (xs @ ys) = 256 ^ length ys * be_value xs + be_value ys"
  by (induction ys rule: rev_induct) (simp_all add: algebra_simps flip: append_assoc)

text \<open>The 48-bit timestamps.\<close>

lemma load_be48_reads:
  assumes "6 \<le> length p"
  shows "unat (load_be48 p) = be_value (take 6 p)"
proof -
  let ?hi = "load_be p :: u16" and ?lo = "load_be (drop 2 p) :: u32"
  have hi: "unat ?hi = be_value (take 2 p)" and lo: "unat ?lo = be_value (take 4 (drop 2 p))"
    using assms load_be_on_reads [where 'a = 16, of p LittleEndian] load_be_on_reads [where 'a = 32, of "drop 2 p" LittleEndian]
    by (simp_all add: load_be_def)
  have "unat ?hi < 2 ^ 16" "unat ?lo < 2 ^ 32" using unsigned_less [of ?hi] unsigned_less [of ?lo] by simp_all
  then have small: "2 ^ 32 * unat ?hi + unat ?lo < 2 ^ LENGTH(64)" by simp
  have "load_be48 p = push_bit 32 (ucast ?hi) + ucast ?lo"
    unfolding load_be48_def Let_def
    by (rule disjunctive_add [symmetric]) (auto simp: bit_simps dest: bit_imp_le_length)
  also have "\<dots> = of_nat (2 ^ 32 * unat ?hi + unat ?lo)" by (simp add: push_bit_eq_mult mult.commute)
  finally have "unat (load_be48 p) = 2 ^ 32 * unat ?hi + unat ?lo" using small by (simp only: unat_of_nat mod_less)
  also have "\<dots> = be_value (take 2 p @ take 4 (drop 2 p))"
    using assms by (simp add: hi lo be_value_append)
  also have "take 2 p @ take 4 (drop 2 p) = take 6 p" using take_add [of 2 4 p] by simp
  finally show ?thesis .
qed

end
