(* ===== verification/Feed_Stats.thy ===== *)
theory Feed_Stats
  imports Frame_Reader
begin

text \<open>
  apps/itch_stats.cpp: the counts by type and by symbol of a feed, over the mapped file and
  over a stream, and the two formatters the applications share. The vectors of 65536
  elements indexed by a locate code and the array indexed by a type byte are functions of
  the index. The elapsed time and the printing are not modelled.
\<close>

section \<open>State\<close>

record symbol_table =
  sy_name :: "u16 \<Rightarrow> string"
  sy_book_messages :: "u16 \<Rightarrow> u64"
  sy_all_messages :: "u16 \<Rightarrow> u64"
  sy_enabled :: bool

record feed_stats =
  fs_by_type :: "u8 \<Rightarrow> u64"
  fs_symbols :: symbol_table
  fs_messages :: u64
  fs_payload_bytes :: u64
  fs_framed_bytes :: u64
  fs_first_timestamp :: timestamp
  fs_last_timestamp :: timestamp
  fs_saw_timestamp :: bool

definition stats_new :: "bool \<Rightarrow> feed_stats" where
  "stats_new enabled =
     \<lparr>fs_by_type = (\<lambda>_. 0),
      fs_symbols = \<lparr>sy_name = (\<lambda>_. []), sy_book_messages = (\<lambda>_. 0), sy_all_messages = (\<lambda>_. 0), sy_enabled = enabled\<rparr>,
      fs_messages = 0, fs_payload_bytes = 0, fs_framed_bytes = 0, fs_first_timestamp = 0, fs_last_timestamp = 0,
      fs_saw_timestamp = False\<rparr>"

definition moves_book :: "u8 \<Rightarrow> bool" where
  "moves_book t \<longleftrightarrow> char_of_byte t \<in> set ''AFECXDU''"

section \<open>One message\<close>

definition observe_symbol :: "u8 \<Rightarrow> u8 list \<Rightarrow> symbol_table \<Rightarrow> symbol_table" where
  "observe_symbol type f sy =
     (if \<not> sy_enabled sy then sy
      else
        let locate = load_be (drop 1 f);
            sy = sy\<lparr>sy_all_messages := (sy_all_messages sy)(locate := sy_all_messages sy locate + 1)\<rparr> in
        if moves_book type then
          sy\<lparr>sy_book_messages := (sy_book_messages sy)(locate := sy_book_messages sy locate + 1)\<rparr>
        else if char_of_byte type = CHR ''R'' then
          sy\<lparr>sy_name := (sy_name sy)(locate := trim_alpha (StockDirectory_stock (StockDirectoryView f)))\<rparr>
        else sy)"

definition observe_frame :: "u8 list \<Rightarrow> feed_stats \<Rightarrow> feed_stats" where
  "observe_frame f s =
     (let type = load_be f :: u8; ts = load_be48 (drop 5 f) in
      s\<lparr>fs_by_type := (fs_by_type s)(type := fs_by_type s type + 1), fs_messages := fs_messages s + 1,
        fs_payload_bytes := fs_payload_bytes s + of_nat (length f),
        fs_framed_bytes := fs_framed_bytes s + of_nat (length f + kLengthPrefixSize),
        fs_first_timestamp := (if fs_saw_timestamp s then fs_first_timestamp s else ts), fs_saw_timestamp := True,
        fs_last_timestamp := ts, fs_symbols := observe_symbol type f (fs_symbols s)\<rparr>)"

section \<open>A feed\<close>

record stats_outcome =
  so_status :: FrameStatus
  so_error :: FrameError
  so_offset :: u64
  so_trailing :: nat

fun run_mapped :: "nat \<Rightarrow> cursor \<Rightarrow> feed_stats \<Rightarrow> failure + stats_outcome \<times> feed_stats" where
  "run_mapped 0 c s = Inl Diverges"
| "run_mapped (Suc fuel) c s =
     andthen (next_frame c) (\<lambda>(st, out, c').
       case out of
         None \<Rightarrow> Inr (\<lparr>so_status = st, so_error = cur_error c', so_offset = of_nat (cur_pos c'),
           so_trailing = length (cursor_rest c')\<rparr>, s)
       | Some f \<Rightarrow> run_mapped fuel c' (observe_frame f s))"

fun run_streamed :: "('s \<Rightarrow> nat \<Rightarrow> u8 list \<times> 's) \<Rightarrow> nat \<Rightarrow> nat \<Rightarrow> 's reader \<Rightarrow> feed_stats \<Rightarrow>
    failure + stats_outcome \<times> feed_stats" where
  "run_streamed read turns 0 r s = Inl Diverges"
| "run_streamed read turns (Suc fuel) r s =
     andthen (reader_next read turns r) (\<lambda>(st, out, r').
       case out of
         None \<Rightarrow> Inr (\<lparr>so_status = st, so_error = reader_error r', so_offset = bytes_consumed r',
           so_trailing = trailing_bytes r'\<rparr>, s)
       | Some f \<Rightarrow> run_streamed read turns fuel r' (observe_frame f s))"

section \<open>The formatters\<close>

text \<open>\<open>std::to_string\<close>, and \<open>printf\<close>'s decimal of at least \<open>w\<close> digits.\<close>

definition digit_char :: "nat \<Rightarrow> char" where
  "digit_char d = ''0123456789'' ! (d mod 10)"

fun decimal :: "nat \<Rightarrow> string" where
  "decimal n = (if n < 10 then [digit_char n] else decimal (n div 10) @ [digit_char n])"

declare decimal.simps [simp del]

definition padded :: "nat \<Rightarrow> nat \<Rightarrow> string" where
  "padded w n = replicate (w - length (decimal n)) CHR ''0'' @ decimal n"

function commas_from :: "int \<Rightarrow> string \<Rightarrow> string" where
  "commas_from i s = (if 0 < i then commas_from (i - 3) (take (nat i) s @ CHR '','' # drop (nat i) s) else s)"
  by pat_completeness auto
termination
  by (relation "measure (\<lambda>(i, s). nat (i + 3))") auto

declare commas_from.simps [simp del]

definition commas :: "u64 \<Rightarrow> string" where
  "commas v = (let s = decimal (unat v) in commas_from (int (length s) - 3) s)"

definition time_of_day :: "timestamp \<Rightarrow> string" where
  "time_of_day ns =
     (let total_s = unat ns div 1000000000 in
      padded 2 (total_s div 3600) @ '':'' @ padded 2 ((total_s div 60) mod 60) @ '':'' @ padded 2 (total_s mod 60) @
      ''.'' @ padded 9 (unat ns mod 1000000000))"

section \<open>The header every message starts with\<close>

primrec event_stamp :: "event \<Rightarrow> u16 \<times> timestamp" where
  "event_stamp (on_system_event v) = (SystemEvent_stock_locate v, SystemEvent_timestamp v)"
| "event_stamp (on_stock_directory v) = (StockDirectory_stock_locate v, StockDirectory_timestamp v)"
| "event_stamp (on_stock_trading_action v) = (StockTradingAction_stock_locate v, StockTradingAction_timestamp v)"
| "event_stamp (on_reg_sho_restriction v) = (RegShoRestriction_stock_locate v, RegShoRestriction_timestamp v)"
| "event_stamp (on_market_participant_position v) = (MarketParticipantPosition_stock_locate v, MarketParticipantPosition_timestamp v)"
| "event_stamp (on_mwcb_decline_level v) = (MwcbDeclineLevel_stock_locate v, MwcbDeclineLevel_timestamp v)"
| "event_stamp (on_mwcb_status v) = (MwcbStatus_stock_locate v, MwcbStatus_timestamp v)"
| "event_stamp (on_ipo_quoting_period_update v) = (IpoQuotingPeriodUpdate_stock_locate v, IpoQuotingPeriodUpdate_timestamp v)"
| "event_stamp (on_luld_auction_collar v) = (LuldAuctionCollar_stock_locate v, LuldAuctionCollar_timestamp v)"
| "event_stamp (on_operational_halt v) = (OperationalHalt_stock_locate v, OperationalHalt_timestamp v)"
| "event_stamp (on_add_order v) = (AddOrder_stock_locate v, AddOrder_timestamp v)"
| "event_stamp (on_add_order_with_mpid v) = (AddOrderWithMpid_stock_locate v, AddOrderWithMpid_timestamp v)"
| "event_stamp (on_order_executed v) = (OrderExecuted_stock_locate v, OrderExecuted_timestamp v)"
| "event_stamp (on_order_executed_with_price v) = (OrderExecutedWithPrice_stock_locate v, OrderExecutedWithPrice_timestamp v)"
| "event_stamp (on_order_cancel v) = (OrderCancel_stock_locate v, OrderCancel_timestamp v)"
| "event_stamp (on_order_delete v) = (OrderDelete_stock_locate v, OrderDelete_timestamp v)"
| "event_stamp (on_order_replace v) = (OrderReplace_stock_locate v, OrderReplace_timestamp v)"
| "event_stamp (on_trade_non_cross v) = (TradeNonCross_stock_locate v, TradeNonCross_timestamp v)"
| "event_stamp (on_cross_trade v) = (CrossTrade_stock_locate v, CrossTrade_timestamp v)"
| "event_stamp (on_broken_trade v) = (BrokenTrade_stock_locate v, BrokenTrade_timestamp v)"
| "event_stamp (on_noii v) = (Noii_stock_locate v, Noii_timestamp v)"
| "event_stamp (on_retail_price_improvement v) = (RetailPriceImprovement_stock_locate v, RetailPriceImprovement_timestamp v)"
| "event_stamp (on_direct_listing_with_capital_raise v) = (DirectListingWithCapitalRaise_stock_locate v, DirectListingWithCapitalRaise_timestamp v)"

lemma stamp_offsets:
  "event_at f = Some e \<Longrightarrow> event_stamp e = (load_be (drop 1 f), load_be48 (drop 5 f))"
  unfolding event_at_def Let_def
  by (auto simp: SystemEventView_def SystemEvent_def StockDirectoryView_def StockDirectory_def StockTradingActionView_def StockTradingAction_def RegShoRestrictionView_def RegShoRestriction_def MarketParticipantPositionView_def MarketParticipantPosition_def MwcbDeclineLevelView_def MwcbDeclineLevel_def MwcbStatusView_def MwcbStatus_def IpoQuotingPeriodUpdateView_def IpoQuotingPeriodUpdate_def LuldAuctionCollarView_def LuldAuctionCollar_def OperationalHaltView_def OperationalHalt_def AddOrderView_def AddOrder_def AddOrderWithMpidView_def AddOrderWithMpid_def OrderExecutedView_def OrderExecuted_def OrderExecutedWithPriceView_def OrderExecutedWithPrice_def OrderCancelView_def OrderCancel_def OrderDeleteView_def OrderDelete_def OrderReplaceView_def OrderReplace_def TradeNonCrossView_def TradeNonCross_def CrossTradeView_def CrossTrade_def BrokenTradeView_def BrokenTrade_def NoiiView_def Noii_def RetailPriceImprovementView_def RetailPriceImprovement_def DirectListingWithCapitalRaiseView_def DirectListingWithCapitalRaise_def split: if_splits)

section \<open>What the counts are\<close>

definition framed_length :: "u8 list list \<Rightarrow> nat" where
  "framed_length fs = sum_list (map (\<lambda>f. 2 + length f) fs)"

lemma framed_length_simps [simp]: "framed_length [] = 0" "framed_length (f # fs) = 2 + length f + framed_length fs"
  by (simp_all add: framed_length_def)

text \<open>The counts after the frames \<open>fs\<close>.\<close>

definition counts :: "u8 list list \<Rightarrow> feed_stats \<Rightarrow> bool" where
  "counts fs s \<longleftrightarrow> fs_messages s = of_nat (length fs) \<and>
     (\<forall>t. fs_by_type s t = of_nat (length (filter (\<lambda>f. load_be f = t) fs))) \<and>
     fs_framed_bytes s = of_nat (framed_length fs) \<and> fs_framed_bytes s = fs_payload_bytes s + 2 * fs_messages s \<and>
     (fs_saw_timestamp s \<longleftrightarrow> fs \<noteq> []) \<and>
     (fs \<noteq> [] \<longrightarrow> fs_first_timestamp s = load_be48 (drop 5 (hd fs)) \<and> fs_last_timestamp s = load_be48 (drop 5 (last fs))) \<and>
     (sy_enabled (fs_symbols s) \<longrightarrow>
       (\<forall>l. sy_all_messages (fs_symbols s) l = of_nat (length (filter (\<lambda>f. load_be (drop 1 f) = l) fs)) \<and>
            sy_book_messages (fs_symbols s) l =
              of_nat (length (filter (\<lambda>f. load_be (drop 1 f) = l \<and> moves_book (load_be f)) fs))))"

lemma counts_new: "counts [] (stats_new enabled)"
  by (simp add: counts_def stats_new_def)

lemma counts_step:
  assumes "counts fs s"
  shows "counts (fs @ [f]) (observe_frame f s)"
proof -
  have c: "fs_messages s = of_nat (length fs)" "\<And>t. fs_by_type s t = of_nat (length (filter (\<lambda>f. load_be f = t) fs))"
    "fs_framed_bytes s = of_nat (framed_length fs)" "fs_framed_bytes s = fs_payload_bytes s + 2 * fs_messages s"
    "fs_saw_timestamp s \<longleftrightarrow> fs \<noteq> []"
    "fs \<noteq> [] \<longrightarrow> fs_first_timestamp s = load_be48 (drop 5 (hd fs))"
    "sy_enabled (fs_symbols s) \<longrightarrow>
       (\<forall>l. sy_all_messages (fs_symbols s) l = of_nat (length (filter (\<lambda>f. load_be (drop 1 f) = l) fs)) \<and>
            sy_book_messages (fs_symbols s) l =
              of_nat (length (filter (\<lambda>f. load_be (drop 1 f) = l \<and> moves_book (load_be f)) fs)))"
    using assms unfolding counts_def by blast+
  have sym: "sy_enabled (observe_symbol t f sy) = sy_enabled sy" for t sy
    by (simp add: observe_symbol_def Let_def)
  have "fs_framed_bytes (observe_frame f s) = of_nat (framed_length (fs @ [f]))"
    using c(3) by (simp add: observe_frame_def Let_def framed_length_def kLengthPrefixSize_def)
  moreover have "fs_framed_bytes (observe_frame f s) = fs_payload_bytes (observe_frame f s) + 2 * fs_messages (observe_frame f s)"
    using c(4) by (simp add: observe_frame_def Let_def kLengthPrefixSize_def)
  moreover have "fs_first_timestamp (observe_frame f s) = load_be48 (drop 5 (hd (fs @ [f])))"
    using c(5,6) by (cases fs) (simp_all add: observe_frame_def Let_def)
  moreover have "sy_enabled (fs_symbols s) \<longrightarrow>
      (\<forall>l. sy_all_messages (fs_symbols (observe_frame f s)) l = of_nat (length (filter (\<lambda>f. load_be (drop 1 f) = l) (fs @ [f]))) \<and>
           sy_book_messages (fs_symbols (observe_frame f s)) l =
             of_nat (length (filter (\<lambda>f. load_be (drop 1 f) = l \<and> moves_book (load_be f)) (fs @ [f]))))"
    using c(7) by (auto simp: observe_frame_def observe_symbol_def Let_def)
  ultimately show ?thesis
    using c(1,2) unfolding counts_def
    by (simp add: observe_frame_def Let_def sym)
qed

lemma counts_fold: "counts gs s \<Longrightarrow> counts (gs @ fs) (fold observe_frame fs s)"
proof (induction fs arbitrary: gs s)
  case (Cons f fs)
  from Cons.IH [OF counts_step [OF Cons.prems, of f]] show ?case by simp
qed simp

lemma counts_all: "counts fs (fold observe_frame fs (stats_new enabled))"
  using counts_fold [OF counts_new, of fs enabled] by simp

text \<open>The types partition the messages.\<close>

lemma by_type_sum: "(\<Sum>t\<in>UNIV. fs_by_type (fold observe_frame fs s) t) = (\<Sum>t\<in>UNIV. fs_by_type s t) + of_nat (length fs)"
proof (induction fs arbitrary: s)
  case (Cons f fs)
  have "(\<Sum>t\<in>UNIV. fs_by_type (observe_frame f s) t) = (\<Sum>t\<in>UNIV. fs_by_type s t) + 1"
    using sum.remove [of UNIV "load_be f" "fs_by_type (observe_frame f s)"] sum.remove [of UNIV "load_be f" "fs_by_type s"]
    by (simp add: observe_frame_def Let_def)
  then show ?case using Cons.IH [of "observe_frame f s"] by (simp add: add.commute add.left_commute)
qed simp

section \<open>The two loops\<close>

lemma framed_le: "framed_length (fst (frames_of bs)) \<le> length bs"
proof (induction bs rule: frames_of.induct)
  case (1 bs)
  obtain st er body where p: "parse bs = (st, er, body)" by (metis prod_cases3)
  show ?case
  proof (cases "st = Ok")
    case True
    with parse_size p have le: "2 + length body \<le> length bs" by blast
    have "framed_length (fst (frames_of (drop (2 + length body) bs))) \<le> length (drop (2 + length body) bs)"
      using 1 p True by simp
    then show ?thesis using p True le by (simp add: frames_of.simps [of bs] case_prod_beta)
  qed (simp add: frames_of.simps [of bs] p)
qed

lemma run_mapped_frames:
  assumes "within c" and "length (cursor_rest c) < fuel"
  shows "run_mapped fuel c s =
    (case frames_of (cursor_rest c) of (fs, st, er) \<Rightarrow>
       Inr (\<lparr>so_status = st, so_error = er, so_offset = of_nat (cur_pos c + framed_length fs),
         so_trailing = length (cursor_rest c) - framed_length fs\<rparr>, fold observe_frame fs s))"
  using assms
proof (induction fuel arbitrary: c s)
  case (Suc fuel)
  obtain st er body where p: "parse (cursor_rest c) = (st, er, body)" by (metis prod_cases3)
  note step = next_frame_parse [OF Suc.prems(1), unfolded p, simplified]
  show ?case
  proof (cases "st = Ok")
    case False
    then have "frames_of (cursor_rest c) = ([], st, er)" by (simp add: frames_of.simps [of "cursor_rest c"] p)
    moreover have "cursor_rest (c\<lparr>cur_error := er\<rparr>) = cursor_rest c" by (simp add: cursor_rest_def)
    ultimately show ?thesis using False by (simp add: step)
  next
    case True
    let ?c = "c\<lparr>cur_error := er, cur_pos := Suc (Suc (cur_pos c + length body))\<rparr>"
    have le: "2 + length body \<le> length (cursor_rest c)" using parse_size p True by blast
    have rest: "cursor_rest ?c = drop (Suc (Suc (length body))) (cursor_rest c)"
      by (simp add: cursor_rest_def add.commute add.left_commute)
    have "within ?c" using Suc.prems(1) le by (simp add: within_def cursor_rest_def)
    moreover have "length (cursor_rest ?c) < fuel"
      using Suc.prems(2) le unfolding rest length_drop by linarith
    ultimately have ih: "run_mapped fuel ?c (observe_frame body s) =
      (case frames_of (cursor_rest ?c) of (fs, st, er) \<Rightarrow>
         Inr (\<lparr>so_status = st, so_error = er, so_offset = of_nat (cur_pos ?c + framed_length fs),
           so_trailing = length (cursor_rest ?c) - framed_length fs\<rparr>, fold observe_frame fs (observe_frame body s)))"
      by (rule Suc.IH)
    have "frames_of (cursor_rest c) = (case frames_of (cursor_rest ?c) of (fs, st', er') \<Rightarrow> (body # fs, st', er'))"
      by (simp add: frames_of.simps [of "cursor_rest c"] p True rest)
    then show ?thesis using ih by (simp add: step True rest split: prod.splits)
  qed
qed simp

text \<open>The streamed loop is the reader's loop with the counting done on the way.\<close>

lemma run_streamed_drain:
  "run_streamed read turns fuel r s =
     andthen (reader_drain read turns fuel r) (\<lambda>(fs, st, r').
       Inr (\<lparr>so_status = st, so_error = reader_error r', so_offset = bytes_consumed r', so_trailing = trailing_bytes r'\<rparr>,
         fold observe_frame fs s))"
proof (induction fuel arbitrary: r s)
  case (Suc fuel)
  show ?case
  proof (cases "reader_next read turns r")
    case (Inr x)
    obtain st out r' where x: "x = (st, out, r')" by (cases x)
    show ?thesis
      using Suc.IH by (cases out; cases "reader_drain read turns fuel r'") (auto simp: Inr x)
  qed simp
qed simp

text \<open>Where a reader stands when it ends at the end of its source.\<close>

context byte_source
begin

lemma reader_next_trailing:
  assumes "reader_ok r" and "roomy (length (rd_buf r))" and "reader_next read fuel r = Inr (st, out, r')"
    and "st \<noteq> Ok" and "st \<noteq> Malformed"
  shows "trailing_bytes r' = length (pending r')"
  using assms
proof (induction fuel arbitrary: r)
  case (Suc fuel)
  obtain st1 out1 c where nf: "next_frame (rd_cursor r) = Inr (st1, out1, c)"
    using next_frame_parse [OF reader_ok_within [OF Suc.prems(1)]] by (auto split: prod.splits)
  have stop: "st1 \<noteq> Ok" "st1 \<noteq> Malformed" using Suc.prems(3-5) nf by auto
  let ?r = "r\<lparr>rd_cursor := c\<rparr>"
  have same: "cur_pos c = cur_pos (rd_cursor r)" "cur_buf c = cur_buf (rd_cursor r)"
    using nf stop next_frame_parse [OF reader_ok_within [OF Suc.prems(1)]]
    by (auto split: prod.splits if_splits)
  have ok: "reader_ok ?r" using Suc.prems(1) same by (simp add: reader_ok_def)
  obtain again r1 where rf: "refill read ?r = (again, r1)" by force
  note run = refill_run [OF ok rf]
  have room: "roomy (length (rd_buf r1))" using run(3) Suc.prems(2) by simp
  show ?case
  proof (cases again)
    case True
    then have "reader_next read fuel r1 = Inr (st, out, r')" using Suc.prems(3) stop by (simp add: nf rf)
    from Suc.IH [OF run(1) room this Suc.prems(4,5)] show ?thesis .
  next
    case False
    obtain st2 out2 c2 where nf2: "next_frame (rd_cursor r1) = Inr (st2, out2, c2)"
      using next_frame_parse [OF reader_ok_within [OF run(1)]] by (auto split: prod.splits)
    have r': "r' = r1\<lparr>rd_cursor := c2\<rparr>" and st: "st2 = st"
      using Suc.prems(3,4) stop False by (auto simp: nf rf nf2 Let_def split: if_splits)
    obtain er body where p: "parse (cursor_rest (rd_cursor r1)) = (st, er, body)"
      using next_frame_parse [OF reader_ok_within [OF run(1)]] nf2 st by (auto split: prod.splits)
    have c2: "cursor_rest c2 = cursor_rest (rd_cursor r1)"
      using nf2 st Suc.prems(4) next_frame_parse [OF reader_ok_within [OF run(1)]] p by (auto simp: cursor_rest_def)
    have "length (cursor_rest (rd_cursor r1)) \<noteq> length (rd_buf r1)"
    proof
      assume full: "length (cursor_rest (rd_cursor r1)) = length (rd_buf r1)"
      then have big: "2 + 65535 \<le> length (cursor_rest (rd_cursor r1))" using room by (simp add: roomy_def)
      show False
      proof (cases st)
        case NeedMore
        have "52 \<le> length (cursor_rest (rd_cursor r1))" using big by linarith
        from parse_need_more(2) [OF p [unfolded NeedMore] this] big show ?thesis by linarith
      next
        case EndOfInput
        then show ?thesis using p big by (auto simp: parse_def Let_def split: if_splits)
      qed (use Suc.prems(4,5) in simp_all)
    qed
    then have rem: "remaining (rd_source r1) = []" using run(8) False by blast
    have "length (cursor_rest (rd_cursor r1)) = rd_filled r1"
      using run(1,6) by (simp add: reader_ok_def)
    then show ?thesis by (simp add: trailing_bytes_def r' pending_def c2 rem)
  qed
qed simp

lemma reader_drain_trailing:
  assumes "reader_ok r" and "roomy (length (rd_buf r))" and "length (pending r) < fuel" and "length (pending r) < turns"
    and "reader_drain read turns fuel r = Inr (fs, st, r')"
  shows "length (pending r') + framed_length fs = length (pending r)"
    and "st \<noteq> Malformed \<Longrightarrow> trailing_bytes r' = length (pending r')"
proof -
  have "length (pending r') + framed_length fs = length (pending r) \<and> (st \<noteq> Malformed \<longrightarrow> trailing_bytes r' = length (pending r'))"
    using assms
  proof (induction fuel arbitrary: r fs)
    case (Suc fuel)
    have "length (remaining (rd_source r)) < turns" using Suc.prems(4) by (simp add: pending_def)
    then obtain st1 out r1 where next1: "reader_next read turns r = Inr (st1, out, r1)" and step: "reader_step r (st1, out, r1)"
      using reader_next_run [OF Suc.prems(1)] by force
    obtain pst per body where p: "parse (pending r) = (pst, per, body)" by (metis prod_cases3)
    show ?case
    proof (cases "pst = Ok")
      case False
      then have "st1 \<noteq> Ok" "out = None" "pending r1 = pending r" using step p by (auto simp: reader_step_def)
      moreover from this have "fs = []" "st = st1" "r' = r1" using Suc.prems(5) by (auto simp: next1)
      ultimately show ?thesis using reader_next_trailing [OF Suc.prems(1,2) next1] by simp
    next
      case True
      have r1: "out = Some body" "pending r1 = drop (2 + length body) (pending r)" "reader_ok r1" "length (rd_buf r1) = length (rd_buf r)"
        using step p True by (auto simp: reader_step_def)
      have le: "2 + length body \<le> length (pending r)" using parse_size p True by blast
      then have small: "length (pending r1) < fuel" "length (pending r1) < turns"
        using Suc.prems(3,4) by (simp_all add: r1(2))
      obtain fs1 where fs1: "reader_drain read turns fuel r1 = Inr (fs1, st, r')" "fs = body # fs1"
        using Suc.prems(5) by (auto simp: next1 r1(1) andthen_eq_Inr)
      have "roomy (length (rd_buf r1))" using r1(4) Suc.prems(2) by simp
      from Suc.IH [OF r1(3) this small fs1(1)] show ?thesis using le by (auto simp: fs1(2) r1(2))
    qed
  qed simp
  then show "length (pending r') + framed_length fs = length (pending r)"
    "st \<noteq> Malformed \<Longrightarrow> trailing_bytes r' = length (pending r')" by blast+
qed

text \<open>The streamed counts are the counts of the frames of the bytes of the source.\<close>

lemma run_streamed_frames:
  assumes "reader_ok r" and "roomy (length (rd_buf r))" and "length (pending r) < fuel" and "length (pending r) < turns"
    and "bytes_consumed r = 0" and "frames_of (pending r) = (fs, st, er)"
  shows "\<exists>out. run_streamed read turns fuel r s = Inr (out, fold observe_frame fs s) \<and> so_status out = st \<and> so_error out = er \<and>
    so_offset out = of_nat (framed_length fs) \<and> (st \<noteq> Malformed \<longrightarrow> so_trailing out = length (pending r) - framed_length fs)"
proof -
  obtain r' where d: "reader_drain read turns fuel r = Inr (fs, st, r')" "reader_error r' = er"
    "bytes_consumed r' + of_nat (length (pending r')) = of_nat (length (pending r))"
    using reader_drain_run [OF assms(1,3,4)] assms(2,5,6) by auto
  note t = reader_drain_trailing [OF assms(1-4) d(1)]
  have "(of_nat (length (pending r)) :: u64) = of_nat (length (pending r')) + of_nat (framed_length fs)"
    unfolding t(1) [symmetric] by simp
  then have "bytes_consumed r' = of_nat (framed_length fs)" using d(3) by simp
  moreover have "length (pending r') = length (pending r) - framed_length fs" using t(1) by linarith
  ultimately show ?thesis using d(1,2) t(2) by (simp add: run_streamed_drain)
qed

end

end
