(* ===== verification/Formats.thy ===== *)
theory Formats
  imports Feed_Stats
begin

text \<open>
  What the applications print of a number: \<open>commas\<close> groups the decimal digits by threes from
  the right and loses none of them, and \<open>time_of_day\<close> fits its buffer and can be read back.
\<close>

section \<open>Decimals\<close>

definition digit_value :: "char \<Rightarrow> nat" where
  "digit_value c = of_char c - 48"

definition decimal_value :: "string \<Rightarrow> nat" where
  "decimal_value = foldl (\<lambda>a c. 10 * a + digit_value c) 0"

lemma digits_table: "\<forall>d \<in> set [0..<10]. digit_value (digit_char d) = d \<and> digit_char d \<noteq> CHR '',''"
  by code_simp

lemma digit_value_char: "d < 10 \<Longrightarrow> digit_value (digit_char d) = d"
  using digits_table by simp

lemma digit_char_mod: "digit_char (n mod 10) = digit_char n"
  by (simp add: digit_char_def)

lemma digit_value_mod: "digit_value (digit_char n) = n mod 10"
  using digit_value_char [of "n mod 10"] by (simp add: digit_char_mod)

lemma digit_no_comma: "digit_char n \<noteq> CHR '',''"
proof -
  have "n mod 10 \<in> set [0..<10]" by simp
  with digits_table have "digit_char (n mod 10) \<noteq> CHR '',''" by blast
  then show ?thesis by (simp add: digit_char_mod)
qed

lemma decimal_value_decimal: "decimal_value (decimal n) = n"
proof (induction n rule: decimal.induct)
  case (1 n)
  then show ?case
    by (cases "n < 10") (simp_all add: decimal.simps [of n] decimal_value_def digit_value_char digit_value_mod)
qed

lemma decimal_no_comma: "CHR '','' \<notin> set (decimal n)"
proof (induction n rule: decimal.induct)
  case (1 n)
  then show ?case using digit_no_comma [of n] by (cases "n < 10") (auto simp: decimal.simps [of n])
qed

lemma decimal_length: "0 < k \<Longrightarrow> n < 10 ^ k \<Longrightarrow> length (decimal n) \<le> k"
proof (induction n arbitrary: k rule: decimal.induct)
  case (1 n)
  show ?case
  proof (cases "n < 10")
    case True
    then show ?thesis using 1 by (simp add: decimal.simps [of n])
  next
    case False
    with 1 obtain j where k: "k = Suc j" "0 < j" by (cases k; cases "k - 1") auto
    have "n div 10 < 10 ^ j" using 1(3) k by (simp add: less_mult_imp_div_less)
    then show ?thesis using 1(1) [OF False k(2)] False k(1) by (simp add: decimal.simps [of n])
  qed
qed

lemma decimal_value_zeros: "decimal_value (replicate m CHR ''0'' @ ds) = decimal_value ds"
  by (induction m) (simp_all add: decimal_value_def digit_value_def of_char_def)

lemma padded_value: "decimal_value (padded w n) = n"
  by (simp add: padded_def decimal_value_zeros decimal_value_decimal)

lemma padded_length: "0 < w \<Longrightarrow> n < 10 ^ w \<Longrightarrow> length (padded w n) = w"
  using decimal_length [of w n] by (simp add: padded_def)

section \<open>Commas\<close>

text \<open>Groups of three, from the end of the number.\<close>

function grouped :: "string \<Rightarrow> string" where
  "grouped r = (if length r \<le> 3 then r else take 3 r @ CHR '','' # grouped (drop 3 r))"
  by pat_completeness auto
termination
  by (relation "measure length") auto

declare grouped.simps [simp del]

lemma commas_from_grouped:
  assumes "length xs = nat i + 3" and "-3 < i"
  shows "commas_from i (xs @ ys) = rev (grouped (rev xs)) @ ys"
  using assms
proof (induction "nat i" arbitrary: i xs ys rule: less_induct)
  case less
  show ?case
  proof (cases "0 < i")
    case False
    then show ?thesis using less.prems by (simp add: commas_from.simps [of i] grouped.simps [of "rev xs"])
  next
    case True
    let ?a = "take (nat i) xs" and ?b = "drop (nat i) xs"
    have len: "length ?a = nat i" "length ?b = 3" using less.prems True by simp_all
    have "commas_from i (xs @ ys) = commas_from (i - 3) (?a @ CHR '','' # ?b @ ys)"
      using True less.prems by (simp add: commas_from.simps [of i])
    also have "\<dots> = rev (grouped (rev ?a)) @ CHR '','' # ?b @ ys"
    proof (cases "0 < i - 3 \<or> i = 3")
      case True
      then have "length ?a = nat (i - 3) + 3" using len(1) by auto
      then show ?thesis using less.hyps [of "i - 3" ?a "CHR '','' # ?b @ ys"] \<open>0 < i\<close> by simp
    next
      case False
      then have "i < 3" by linarith
      then have "nat i \<le> 3" by simp
      then have "length ?a \<le> 3" using len(1) by linarith
      then show ?thesis using False by (simp add: commas_from.simps [of "i - 3"] grouped.simps [of "rev ?a"])
    qed
    also have "\<dots> = rev (grouped (rev xs)) @ ys"
    proof -
      have "rev xs = rev ?b @ rev ?a" by (metis append_take_drop_id rev_append)
      then have "take 3 (rev xs) = rev ?b" "drop 3 (rev xs) = rev ?a" "\<not> length (rev xs) \<le> 3"
        using len True by simp_all
      then have "grouped (rev xs) = rev ?b @ CHR '','' # grouped (rev ?a)" by (simp only: grouped.simps [of "rev xs"] if_False)
      then show ?thesis by simp
    qed
    finally show ?thesis .
  qed
qed

lemma commas_grouped: "commas v = rev (grouped (rev (decimal (unat v))))"
proof (cases "length (decimal (unat v)) \<le> 3")
  case True
  then show ?thesis by (simp add: commas_def Let_def commas_from.simps grouped.simps [of "rev (decimal (unat v))"])
next
  case False
  let ?s = "decimal (unat v)"
  have "length ?s = nat (int (length ?s) - 3) + 3" using False by simp
  moreover have "-3 < int (length ?s) - 3" using False by linarith
  moreover note commas_from_grouped [of ?s "int (length ?s) - 3" "[]"]
  ultimately show ?thesis unfolding commas_def Let_def append_Nil2 by blast
qed

lemma grouped_digits: "CHR '','' \<notin> set r \<Longrightarrow> filter (\<lambda>c. c \<noteq> CHR '','') (grouped r) = r"
proof (induction r rule: grouped.induct)
  case (1 r)
  have f: "filter (\<lambda>c. c \<noteq> CHR '','') xs = xs" if "CHR '','' \<notin> set xs" for xs
    using that by (auto intro: filter_True)
  show ?case
  proof (cases "length r \<le> 3")
    case True
    then show ?thesis using f [OF 1(2)] by (simp add: grouped.simps [of r])
  next
    case False
    have "CHR '','' \<notin> set (take 3 r)" "CHR '','' \<notin> set (drop 3 r)" using 1(2) in_set_takeD in_set_dropD by fast+
    then show ?thesis using 1(1) [OF False] f [of "take 3 r"] False by (simp add: grouped.simps [of r])
  qed
qed

text \<open>One comma for every three digits that have a digit before them, so none in front.\<close>

lemma grouped_length: "length (grouped r) = length r + (length r - 1) div 3"
proof (induction r rule: grouped.induct)
  case (1 r)
  show ?case
  proof (cases "length r \<le> 3")
    case True
    then have "(length r - 1) div 3 = 0" by simp
    then show ?thesis using True by (simp add: grouped.simps [of r])
  next
    case False
    have "length (grouped (drop 3 r)) = length r - 3 + (length r - 3 - 1) div 3" using 1 False by simp
    moreover have "(length r - 1) div 3 = Suc ((length r - 3 - 1) div 3)" using False by (simp add: div_if)
    ultimately show ?thesis using False by (simp add: grouped.simps [of r])
  qed
qed

lemma grouped_last: "CHR '','' \<notin> set r \<Longrightarrow> r \<noteq> [] \<Longrightarrow> grouped r \<noteq> [] \<and> last (grouped r) \<noteq> CHR '',''"
proof (induction r rule: grouped.induct)
  case (1 r)
  show ?case
  proof (cases "length r \<le> 3")
    case True
    have "last r \<noteq> CHR '',''" using 1(2) last_in_set [OF 1(3)] by metis
    then show ?thesis using True 1(3) by (simp add: grouped.simps [of r])
  next
    case False
    have "CHR '','' \<notin> set (drop 3 r)" using 1(2) in_set_dropD by fast
    then show ?thesis using 1(1) [OF False] False by (simp add: grouped.simps [of r])
  qed
qed

lemma decimal_not_empty: "decimal n \<noteq> []"
  by (simp add: decimal.simps [of n])

lemma commas_hd: "hd (commas v) \<noteq> CHR '',''"
  using grouped_last [of "rev (decimal (unat v))"]
  by (simp add: commas_grouped hd_rev decimal_no_comma decimal_not_empty)

lemma grouped_commas: "CHR '','' \<notin> set r \<Longrightarrow> i < length (grouped r) \<Longrightarrow> grouped r ! i = CHR '','' \<longleftrightarrow> i mod 4 = 3"
proof (induction r arbitrary: i rule: grouped.induct)
  case (1 r)
  show ?case
  proof (cases "length r \<le> 3")
    case True
    then have g: "grouped r = r" by (simp add: grouped.simps [of r])
    have "i < length r" using 1(3) g by simp
    then have "r ! i \<noteq> CHR '',''" "i mod 4 \<noteq> 3" using nth_mem [of i r] 1(2) True by (metis, simp)
    then show ?thesis by (simp add: g)
  next
    case False
    have g: "grouped r = take 3 r @ CHR '','' # grouped (drop 3 r)" using False by (simp add: grouped.simps [of r])
    consider "i < 3" | "i = 3" | j where "i = j + 4"
    proof (cases "i \<le> 3")
      case False
      then have "i = (i - 4) + 4" by simp
      then show thesis using that(3) by blast
    qed (use that in linarith)
    then show ?thesis
    proof cases
      case 1
      then have "grouped r ! i = r ! i" "r ! i \<in> set r" using False by (simp_all add: g nth_append)
      then have "grouped r ! i \<noteq> CHR '',''" using \<open>CHR '','' \<notin> set r\<close> by metis
      then show ?thesis using 1 by simp
    next
      case 2
      then show ?thesis using False by (simp add: g nth_append)
    next
      case 3
      have "CHR '','' \<notin> set (drop 3 r)" using 1(2) in_set_dropD by fast
      moreover have "j < length (grouped (drop 3 r))" "grouped r ! i = grouped (drop 3 r) ! j"
        using 1(3) 3 False by (simp_all add: g nth_append)
      ultimately show ?thesis using 1(1) [OF False] 3 by simp
    qed
  qed
qed

section \<open>The time of day\<close>

lemma time_of_day_parts:
  obtains h m s where "h < 10 ^ 7" and "m < 60" and "s < 60" and "((h * 60 + m) * 60 + s) = unat ns div 1000000000"
    and "time_of_day ns = padded 2 h @ '':'' @ padded 2 m @ '':'' @ padded 2 s @ ''.'' @ padded 9 (unat ns mod 1000000000)"
proof -
  let ?t = "unat ns div 1000000000"
  have "unat ns < 2 ^ 64" using unsigned_less [of ns] by simp
  then have "?t div 3600 < 10 ^ 7" by simp
  moreover have "(?t div 3600 * 60 + ?t div 60 mod 60) * 60 + ?t mod 60 = ?t"
  proof -
    have "?t div 3600 = ?t div 60 div 60" by (simp add: div_mult2_eq)
    then have "?t div 3600 * 60 + ?t div 60 mod 60 = ?t div 60" using div_mult_mod_eq [of "?t div 60" 60] by simp
    then show ?thesis using div_mult_mod_eq [of ?t 60] by simp
  qed
  ultimately show thesis
    using that [of "?t div 3600" "?t div 60 mod 60" "?t mod 60"] by (simp add: time_of_day_def Let_def)
qed

lemma padded_length_le: "0 < k \<Longrightarrow> w \<le> k \<Longrightarrow> n < 10 ^ k \<Longrightarrow> length (padded w n) \<le> k"
  using decimal_length [of k n] by (simp add: padded_def)

lemma time_of_day_length: "length (time_of_day ns) \<le> 23"
proof -
  obtain h m s where t: "h < 10 ^ 7" "m < 60" "s < 60"
    "time_of_day ns = padded 2 h @ '':'' @ padded 2 m @ '':'' @ padded 2 s @ ''.'' @ padded 9 (unat ns mod 1000000000)"
    by (rule time_of_day_parts [of ns])
  have "length (padded 2 h) \<le> 7" using t(1) by (intro padded_length_le) simp_all
  moreover have "length (padded 2 m) = 2" "length (padded 2 s) = 2" "length (padded 9 (unat ns mod 1000000000)) = 9"
    using t(2,3) by (simp_all add: padded_length)
  ultimately show ?thesis by (simp add: t(4))
qed

text \<open>Reading \<open>hh:mm:ss.nnnnnnnnn\<close> back.\<close>

definition parse_time :: "string \<Rightarrow> nat" where
  "parse_time s = ((decimal_value (take 2 s) * 60 + decimal_value (take 2 (drop 3 s))) * 60 + decimal_value (take 2 (drop 6 s))) * 1000000000 +
     decimal_value (drop 9 s)"

lemma parse_time_of_day:
  assumes "unat ns < 2 ^ 48"
  shows "length (time_of_day ns) = 18 \<and> parse_time (time_of_day ns) = unat ns"
proof -
  obtain h m s where t: "m < 60" "s < 60" "((h * 60 + m) * 60 + s) = unat ns div 1000000000"
    "time_of_day ns = padded 2 h @ '':'' @ padded 2 m @ '':'' @ padded 2 s @ ''.'' @ padded 9 (unat ns mod 1000000000)"
    by (rule time_of_day_parts [of ns])
  have "unat ns div 1000000000 < 360000" using assms by simp
  then have "h < 10 ^ 2" using t(3) by simp
  then have l: "length (padded 2 h) = 2" "length (padded 2 m) = 2" "length (padded 2 s) = 2"
    "length (padded 9 (unat ns mod 1000000000)) = 9"
    using t(1,2) by (simp_all add: padded_length)
  then have "take 2 (time_of_day ns) = padded 2 h" "take 2 (drop 3 (time_of_day ns)) = padded 2 m"
    "take 2 (drop 6 (time_of_day ns)) = padded 2 s" "drop 9 (time_of_day ns) = padded 9 (unat ns mod 1000000000)"
    by (simp_all add: t(4))
  then have "parse_time (time_of_day ns) = unat ns div 1000000000 * 1000000000 + unat ns mod 1000000000"
    by (simp only: parse_time_def padded_value t(3))
  also have "\<dots> = unat ns" by (rule div_mult_mod_eq)
  finally show ?thesis using l by (simp add: t(4))
qed

end
