(* ===== verification/Histogram.thy ===== *)
theory Histogram
  imports Book_Family Formats Streamed "HOL-Library.Signed_Division"
begin

text \<open>
  apps/itch_histogram.cpp: the \<open>Collector\<close>, an observer of the builder that counts how far
  from the inside the new orders land, and the tool's loops over a mapped and a streamed
  feed. The vector of counts by distance is a function of the index; the \<open>i64\<close> distances are
  integers, differences of two 32-bit prices divided as C++ divides. The percentages, means
  and quantile targets the report computes in floating point are not modelled.
\<close>

section \<open>The collector\<close>

definition kMaxTracked :: nat where
  "kMaxTracked = 65536"

record collector =
  co_adds :: u64
  co_measured :: u64
  co_improving :: u64
  co_no_inside :: u64
  co_beyond :: u64
  co_sub_penny :: u64
  co_max_distance :: int
  co_peak_levels :: u64
  co_peak_orders :: u64
  co_peak_qty :: u64
  co_level_sum :: u64
  co_order_sum :: u64
  co_samples :: u64
  co_crossed :: u64
  co_min_price :: price
  co_max_price :: price
  co_min_bid :: price
  co_max_bid :: price
  co_distance :: "nat \<Rightarrow> u64"

definition collector_new :: collector where
  "collector_new =
     \<lparr>co_adds = 0, co_measured = 0, co_improving = 0, co_no_inside = 0, co_beyond = 0, co_sub_penny = 0, co_max_distance = 0,
      co_peak_levels = 0, co_peak_orders = 0, co_peak_qty = 0, co_level_sum = 0, co_order_sum = 0, co_samples = 0,
      co_crossed = 0, co_min_price = 0, co_max_price = 0, co_min_bid = 0, co_max_bid = 0, co_distance = (\<lambda>_. 0)\<rparr>"

text \<open>Positive means further from the inside, negative means the order improves it.\<close>

definition ticks_from :: "side \<Rightarrow> price \<Rightarrow> price \<Rightarrow> int" where
  "ticks_from s best p =
     (let raw = (if s = Buy then uint best - uint p else uint p - uint best) in raw sdiv uint kPennyUnits)"

definition co_measure :: "int \<Rightarrow> collector \<Rightarrow> collector" where
  "co_measure ticks c =
     (let c = c\<lparr>co_measured := co_measured c + 1\<rparr>;
          c = (if ticks < 0 then c\<lparr>co_improving := co_improving c + 1\<rparr> else c);
          mag = (if ticks < 0 then - ticks else ticks);
          c = c\<lparr>co_max_distance := max (co_max_distance c) mag\<rparr> in
      if mag < int kMaxTracked then c\<lparr>co_distance := (co_distance c)(nat mag := co_distance c (nat mag) + 1)\<rparr>
      else c\<lparr>co_beyond := co_beyond c + 1\<rparr>)"

definition co_before_add :: "'b book_ops \<Rightarrow> 'b \<Rightarrow> side \<Rightarrow> price \<Rightarrow> qty \<Rightarrow> collector \<Rightarrow> collector" where
  "co_before_add ops b s p q c =
     (let c = c\<lparr>co_adds := co_adds c + 1, co_peak_qty := max (co_peak_qty c) (ucast q)\<rparr>;
          c = (if p mod kPennyUnits \<noteq> 0 then c\<lparr>co_sub_penny := co_sub_penny c + 1\<rparr> else c);
          c = c\<lparr>co_min_price := (if co_min_price c = 0 then p else min (co_min_price c) p),
                co_max_price := max (co_max_price c) p\<rparr> in
      if bo_empty ops b s then c\<lparr>co_no_inside := co_no_inside c + 1\<rparr>
      else co_measure (ticks_from s (bo_best ops b s) p) c)"

definition co_after_apply :: "'b book_ops \<Rightarrow> 'b \<Rightarrow> collector \<Rightarrow> collector" where
  "co_after_apply ops b c =
     (let levels = bo_level_count ops b Buy + bo_level_count ops b Sell;
          orders = of_nat (bo_count ops b) :: u64;
          c = c\<lparr>co_peak_levels := max (co_peak_levels c) (ucast levels), co_peak_orders := max (co_peak_orders c) orders,
                co_level_sum := co_level_sum c + ucast levels, co_order_sum := co_order_sum c + orders,
                co_samples := co_samples c + 1\<rparr>;
          c = (if \<not> bo_empty ops b Buy
               then c\<lparr>co_min_bid := (if co_min_bid c = 0 then bo_best ops b Buy else min (co_min_bid c) (bo_best ops b Buy)),
                      co_max_bid := max (co_max_bid c) (bo_best ops b Buy)\<rparr>
               else c) in
      if \<not> bo_empty ops b Buy \<and> \<not> bo_empty ops b Sell \<and> bo_best ops b Sell \<le> bo_best ops b Buy
      then c\<lparr>co_crossed := co_crossed c + 1\<rparr> else c)"

definition collector_hooks :: "'b book_ops \<Rightarrow> ('b, collector) observer_ops" where
  "collector_hooks ops =
     \<lparr>ob_before_add = (\<lambda>b s p q c. Inr (co_before_add ops b s p q c)), ob_note_reduction = (\<lambda>s q c. Inr c),
      ob_after_apply = (\<lambda>b ts c. Inr (co_after_apply ops b c))\<rparr>"

text \<open>
  The loop of \<open>quantile\<close>, for the target computed from the fraction; the answer past the
  last slot is \<open>kMaxTracked\<close>.
\<close>

fun quantile_from :: "(nat \<Rightarrow> u64) \<Rightarrow> u64 \<Rightarrow> nat \<Rightarrow> nat \<Rightarrow> u64 \<Rightarrow> nat" where
  "quantile_from d target 0 i acc = i"
| "quantile_from d target (Suc n) i acc =
     (let acc = acc + d i in if target \<le> acc then i else quantile_from d target n (i + 1) acc)"

definition co_quantile :: "u64 \<Rightarrow> collector \<Rightarrow> nat" where
  "co_quantile target c = quantile_from (co_distance c) target kMaxTracked 0 0"

text \<open>The tool calls \<open>within\<close> with positive distances only.\<close>

definition co_within :: "nat \<Rightarrow> collector \<Rightarrow> u64" where
  "co_within ticks c = foldl (\<lambda>acc i. acc + co_distance c i) 0 [0..<min (ticks + 1) kMaxTracked]"

section \<open>The tool\<close>

datatype histogram_end =
    NeverListed
  | NoActivity
  | Measured collector builder_stats

definition histogram_report :: "('b, collector) builder \<Rightarrow> histogram_end" where
  "histogram_report b =
     (if \<not> bb_resolved b then NeverListed
      else if co_measured (bb_observer b) = 0 then NoActivity
      else Measured (bb_observer b) (bb_stats b))"

definition histogram_mapped :: "'b book_ops \<Rightarrow> 'b \<Rightarrow> string \<Rightarrow> u8 list \<Rightarrow> failure + histogram_end" where
  "histogram_mapped ops book symbol bytes =
     andthen (drive (Suc (length bytes)) (builder_on ops (collector_hooks ops)) (cursor_of bytes)
       (builder_new book symbol collector_new)) (\<lambda>b. Inr (histogram_report b))"

definition histogram_streamed :: "'b book_ops \<Rightarrow> 'b \<Rightarrow> string \<Rightarrow> ('r \<Rightarrow> nat \<Rightarrow> u8 list \<times> 'r) \<Rightarrow> nat \<Rightarrow> nat \<Rightarrow> 'r reader \<Rightarrow>
    failure + histogram_end" where
  "histogram_streamed ops book symbol read turns fuel r =
     andthen (drive_stream read turns fuel (builder_on ops (collector_hooks ops)) r
       (builder_new book symbol collector_new)) (\<lambda>b. Inr (histogram_report b))"

definition dollars :: "price \<Rightarrow> string" where
  "dollars p = decimal (unat (p div kPriceScale)) @ ''.'' @ padded 4 (unat (p mod kPriceScale))"

section \<open>What the collector keeps\<close>

definition accounts :: "collector \<Rightarrow> bool" where
  "accounts c \<longleftrightarrow> co_adds c = co_measured c + co_no_inside c \<and>
     co_measured c = (\<Sum>i<kMaxTracked. co_distance c i) + co_beyond c \<and>
     0 \<le> co_max_distance c \<and> co_max_distance c \<le> 2 ^ 32 div 100 \<and>
     (\<forall>i. co_distance c i \<noteq> 0 \<longrightarrow> int i \<le> co_max_distance c) \<and>
     (co_max_distance c < int kMaxTracked \<longrightarrow> co_beyond c = 0)"

lemma ticks_bound: "\<bar>ticks_from s best p\<bar> \<le> 2 ^ 32 div 100"
proof -
  let ?raw = "if s = Buy then uint best - uint p else uint p - uint best"
  have "uint w < 2 ^ 32" for w :: price using uint_bounded [of w] by simp
  from this [of best] this [of p] have "\<bar>?raw\<bar> \<le> 2 ^ 32"
    using uint_ge_0 [of best] uint_ge_0 [of p] by (simp only: abs_le_iff split: if_split) linarith
  then have "\<bar>?raw\<bar> div 100 \<le> 2 ^ 32 div 100" by (intro zdiv_mono1) simp_all
  moreover have "\<bar>r sdiv 100\<bar> \<le> \<bar>r\<bar> div 100" for r :: int
    by (cases "r < 0"; cases "r = 0") (simp_all add: signed_divide_int_def sgn_if pos_imp_zdiv_nonneg_iff)
  from this [of ?raw] have "\<bar>ticks_from s best p\<bar> \<le> \<bar>?raw\<bar> div 100" by (simp add: ticks_from_def kPennyUnits_def)
  ultimately show ?thesis by linarith
qed

lemma sum_bump: "n < m \<Longrightarrow> (\<Sum>i<m. ((d::nat \<Rightarrow> u64)(n := d n + 1)) i) = (\<Sum>i<m. d i) + 1"
  using sum.remove [of "{..<m}" n "d(n := d n + 1)"] sum.remove [of "{..<m}" n d] by simp

lemma accounts_new: "accounts collector_new"
  by (simp add: accounts_def collector_new_def)


lemma accounts_measure:
  assumes c: "accounts c" and t: "\<bar>ticks\<bar> \<le> 2 ^ 32 div 100"
  shows "accounts (co_measure ticks (c\<lparr>co_adds := co_adds c + 1\<rparr>))"
proof -
  have c': "co_adds c = co_measured c + co_no_inside c" "co_measured c = (\<Sum>i<kMaxTracked. co_distance c i) + co_beyond c"
    "0 \<le> co_max_distance c" "co_max_distance c \<le> 2 ^ 32 div 100"
    "\<And>i. co_distance c i \<noteq> 0 \<Longrightarrow> int i \<le> co_max_distance c"
    "co_max_distance c < int kMaxTracked \<Longrightarrow> co_beyond c = 0"
    using c unfolding accounts_def by blast+
  define mag where "mag = (if ticks < 0 then - ticks else ticks)"
  have mag: "0 \<le> mag" "mag \<le> 2 ^ 32 div 100" using t by (simp_all add: mag_def abs_if split: if_splits)
  define c1 where "c1 = co_measure ticks (c\<lparr>co_adds := co_adds c + 1\<rparr>)"
  have f: "co_adds c1 = co_adds c + 1" "co_measured c1 = co_measured c + 1" "co_no_inside c1 = co_no_inside c"
    "co_max_distance c1 = max (co_max_distance c) mag"
    "co_distance c1 = (if mag < int kMaxTracked then (co_distance c)(nat mag := co_distance c (nat mag) + 1) else co_distance c)"
    "co_beyond c1 = (if mag < int kMaxTracked then co_beyond c else co_beyond c + 1)"
    by (simp_all add: c1_def co_measure_def Let_def mag_def)
  have sum: "co_measured c1 = (\<Sum>i<kMaxTracked. co_distance c1 i) + co_beyond c1"
  proof (cases "mag < int kMaxTracked")
    case True
    then have "nat mag < kMaxTracked" using mag(1) by linarith
    from sum_bump [OF this] show ?thesis using True c'(2) by (simp only: f if_True) simp
  qed (simp only: f c'(2), simp)
  have "accounts c1"
    unfolding accounts_def
  proof (intro conjI allI impI sum)
    show "co_adds c1 = co_measured c1 + co_no_inside c1" using c'(1) by (simp add: f)
    show "0 \<le> co_max_distance c1" "co_max_distance c1 \<le> 2 ^ 32 div 100" using c'(3,4) mag by (simp_all only: f)
    show "int i \<le> co_max_distance c1" if "co_distance c1 i \<noteq> 0" for i
      using that c'(5) [of i] mag by (auto simp: f split: if_splits)
    show "co_beyond c1 = 0" if "co_max_distance c1 < int kMaxTracked"
      using that c'(6) by (simp add: f)
  qed
  then show ?thesis by (simp add: c1_def)
qed

lemma accounts_before:
  assumes "accounts c"
  shows "accounts (co_before_add ops b s p q c)" and "co_adds (co_before_add ops b s p q c) = co_adds c + 1"
    and "co_samples (co_before_add ops b s p q c) = co_samples c"
proof -
  let ?set = "\<lambda>c :: collector. c\<lparr>co_peak_qty := max (co_peak_qty c) (ucast q),
    co_sub_penny := (if p mod kPennyUnits \<noteq> 0 then co_sub_penny c + 1 else co_sub_penny c),
    co_min_price := (if co_min_price c = 0 then p else min (co_min_price c) p), co_max_price := max (co_max_price c) p\<rparr>"
  let ?c = "?set c"
  have a: "accounts ?c" using assms by (simp add: accounts_def)
  have e: "co_before_add ops b s p q c =
      (if bo_empty ops b s then ?c\<lparr>co_adds := co_adds ?c + 1, co_no_inside := co_no_inside ?c + 1\<rparr>
       else co_measure (ticks_from s (bo_best ops b s) p) (?c\<lparr>co_adds := co_adds ?c + 1\<rparr>))"
    by (cases c) (simp add: co_before_add_def Let_def)
  show "accounts (co_before_add ops b s p q c)"
    unfolding e using accounts_measure [OF a ticks_bound] a by (simp add: accounts_def)
  show "co_adds (co_before_add ops b s p q c) = co_adds c + 1" "co_samples (co_before_add ops b s p q c) = co_samples c"
    unfolding e by (simp_all add: co_measure_def Let_def)
qed

lemma accounts_after:
  assumes "accounts c"
  shows "accounts (co_after_apply ops b c)" and "co_adds (co_after_apply ops b c) = co_adds c"
    and "co_samples (co_after_apply ops b c) = co_samples c + 1"
  using assms by (simp_all add: co_after_apply_def Let_def accounts_def)


section \<open>Quantiles and coverage\<close>

lemma co_within_sum: "co_within k c = (\<Sum>i<min (Suc k) kMaxTracked. co_distance c i)"
proof -
  have "foldl (\<lambda>acc i. acc + d i) a xs = a + sum_list (map d xs)" for d :: "nat \<Rightarrow> u64" and a xs
    by (induction xs arbitrary: a) (simp_all add: add.assoc)
  then show ?thesis by (simp add: co_within_def interv_sum_list_conv_sum_set_nat atLeast0LessThan)
qed

lemma quantile_from_least:
  assumes "acc = (\<Sum>j<i. d j)"
  shows "\<exists>k. quantile_from d target n i acc = k \<and> i \<le> k \<and> k \<le> i + n \<and> (k < i + n \<longrightarrow> target \<le> (\<Sum>j<Suc k. d j)) \<and>
    (\<forall>j. i \<le> j \<and> j < k \<longrightarrow> (\<Sum>m<Suc j. d m) < target)"
  using assms
proof (induction n arbitrary: i acc)
  case (Suc n)
  have acc: "acc + d i = (\<Sum>j<Suc i. d j)" using Suc.prems by simp
  show ?case
  proof (cases "target \<le> acc + d i")
    case True
    then show ?thesis using acc by auto
  next
    case False
    obtain k where k: "quantile_from d target n (Suc i) (acc + d i) = k" "Suc i \<le> k" "k \<le> Suc i + n"
      "k < Suc i + n \<longrightarrow> target \<le> (\<Sum>j<Suc k. d j)" "\<forall>j. Suc i \<le> j \<and> j < k \<longrightarrow> (\<Sum>m<Suc j. d m) < target"
      using Suc.IH [OF acc] by blast
    have "(\<Sum>m<Suc j. d m) < target" if "i \<le> j" "j < k" for j
    proof (cases "j = i")
      case True
      then show ?thesis using False acc by simp
    next
      case False
      then show ?thesis using k(5) that by (metis Suc_leI le_neq_implies_less)
    qed
    then show ?thesis using False k(1-4) by (intro exI [of _ k]) (auto simp: Let_def)
  qed
qed auto

text \<open>The quantile is the least distance that covers the target.\<close>

lemma co_quantile_least:
  "co_quantile target c \<le> kMaxTracked"
  "co_quantile target c < kMaxTracked \<Longrightarrow> target \<le> co_within (co_quantile target c) c"
  "j < co_quantile target c \<Longrightarrow> co_within j c < target"
proof -
  obtain k where k: "co_quantile target c = k" "k \<le> kMaxTracked" "k < kMaxTracked \<longrightarrow> target \<le> (\<Sum>j<Suc k. co_distance c j)"
    "\<forall>j. j < k \<longrightarrow> (\<Sum>m<Suc j. co_distance c m) < target"
    using quantile_from_least [of 0 "co_distance c" 0 target kMaxTracked] unfolding co_quantile_def by auto
  then show "co_quantile target c \<le> kMaxTracked" by simp
  show "target \<le> co_within (co_quantile target c) c" if "co_quantile target c < kMaxTracked"
    using that k(1,3) by (simp add: co_within_sum min_def Suc_le_eq del: sum.lessThan_Suc)
  show "co_within j c < target" if "j < co_quantile target c"
    using that k(1,2,4) by (simp add: co_within_sum min_def Suc_le_eq del: sum.lessThan_Suc)
qed

section \<open>The collector beside the builder\<close>

text \<open>Every add the book was given is on the ledger, and every change of the book was sampled.\<close>

definition ledger :: "('b, collector) builder \<Rightarrow> bool" where
  "ledger b \<longleftrightarrow> accounts (bb_observer b) \<and> co_adds (bb_observer b) = bs_adds (bb_stats b) + bs_replaces (bb_stats b) \<and>
     co_samples (bb_observer b) = bs_applied (bb_stats b)"

lemma collector_observe [simp]:
  "observe (ob_note_reduction (collector_hooks ops) s q) b = Inr b"
  "observe (ob_before_add (collector_hooks ops) book s p q) b = Inr (b\<lparr>bb_observer := co_before_add ops book s p q (bb_observer b)\<rparr>)"
  "observe (ob_after_apply (collector_hooks ops) book ts) b = Inr (b\<lparr>bb_observer := co_after_apply ops book (bb_observer b)\<rparr>)"
  by (simp_all add: observe_def collector_hooks_def)

lemma ledger_other [simp]:
  "ledger (seen ts b) = ledger b" "ledger (b\<lparr>bb_symbol := sy, bb_locate := l, bb_resolved := x\<rparr>) = ledger b"
  "ledger (count_stat (\<lambda>st. st\<lparr>bs_trades_ignored := f st\<rparr>) b) = ledger b"
  "ledger (count_stat (\<lambda>st. st\<lparr>bs_crosses_ignored := f st\<rparr>) b) = ledger b"
  by (simp_all add: ledger_def seen_def count_stat_def Let_def)

lemma do_ledger:
  assumes "ledger b"
  shows "do_add ops (collector_hooks ops) ref ind p q ts b = Inr b' \<Longrightarrow> ledger b'"
    and "do_execute ops (collector_hooks ops) ref q ts b = Inr b' \<Longrightarrow> ledger b'"
    and "do_cancel ops (collector_hooks ops) ref q ts b = Inr b' \<Longrightarrow> ledger b'"
    and "do_delete ops (collector_hooks ops) ref ts b = Inr b' \<Longrightarrow> ledger b'"
    and "do_replace ops (collector_hooks ops) ref new_ref p q ts b = Inr b' \<Longrightarrow> ledger b'"
  using assms
  by (auto simp: do_add_def do_execute_def do_cancel_def do_delete_def do_replace_def Let_def result_dest ledger_def count_stat_def
      accounts_before accounts_after)

lemma builder_on_ledger:
  assumes "ledger b" and "builder_on ops (collector_hooks ops) e b = Inr b'"
  shows "ledger b'"
proof -
  have c: "ledger (seen ts b)" for ts using assms(1) by simp
  show ?thesis
    using assms
    by (cases e) (auto simp: stock_directory_def add_order_def add_order_with_mpid_def order_executed_def order_executed_with_price_def
        order_cancel_def order_delete_def order_replace_def trade_non_cross_def cross_trade_def broken_trade_def Let_def
        split: if_splits intro: do_ledger [OF c])
qed


lemma ledger_new: "ledger (builder_new book symbol collector_new)"
  using accounts_new by (simp add: ledger_def builder_new_def collector_new_def)

lemma handle_all_ledger:
  "handle_all (builder_on ops (collector_hooks ops)) es b = Inr b' \<Longrightarrow> ledger b \<Longrightarrow> ledger b'"
proof (induction es arbitrary: b)
  case (Cons e es)
  then obtain b1 where "builder_on ops (collector_hooks ops) e b = Inr b1"
    "handle_all (builder_on ops (collector_hooks ops)) es b1 = Inr b'" by (auto simp: andthen_eq_Inr)
  with Cons.IH builder_on_ledger Cons.prems(2) show ?case by blast
qed simp

section \<open>The collector over any order book\<close>

context order_book
begin

lemma collector_agrees:
  assumes rep: "rep b rs"
  shows "co_before_add ops b s p q c = co_before_add naive_ops rs s p q c"
    and "co_after_apply ops b c = co_after_apply naive_ops rs c"
  unfolding co_before_add_def co_after_apply_def empty_eq [OF rep] best_eq [OF rep] level_count_eq [OF rep] count_eq [OF rep]
    nb_order_count_def naive_ops_simps by (rule refl)+

end

sublocale order_book \<subseteq> collected: observed ops rep limit ok_price "collector_hooks ops" "collector_hooks naive_ops" "(=)"
  by unfold_locales (simp_all add: collector_hooks_def collector_agrees)

lemma histogram_mapped_messages: "histogram_mapped ops book symbol bytes =
    andthen (handle_all (builder_on ops (collector_hooks ops)) (messages_of bytes) (builder_new book symbol collector_new))
      (\<lambda>b. Inr (histogram_report b))"
  by (simp only: histogram_mapped_def drive_start)

context order_book
begin

lemma histogram_agrees:
  assumes "rep book []" and "room_for_all (limit book) ok_price (feed_ops symbol None (messages_of bytes)) []"
  shows "histogram_mapped ops book symbol bytes = histogram_mapped naive_ops [] symbol bytes"
proof -
  let ?b = "builder_new book symbol collector_new" and ?n = "builder_new [] symbol collector_new :: (naive_book, collector) builder"
  have t: "collected.tracks (limit book) ?b ?n"
    using assms(1) by (simp add: collected.tracks_def collected.keeps_def same_but_def builder_new_def)
  have "feed_room (limit book) ok_price (collector_hooks naive_ops) (messages_of bytes) ?n"
    by (rule feed_room_ops) (use assms(2) in \<open>simp add: builder_new_def locate_of_def\<close>)
  from collected.feed_rel [OF t this] show ?thesis
    by (cases "handle_all (builder_on ops (collector_hooks ops)) (messages_of bytes) ?b";
        cases "handle_all (builder_on naive_ops (collector_hooks naive_ops)) (messages_of bytes) ?n")
      (auto simp: histogram_mapped_messages collected.tracks_def same_but_def histogram_report_def)
qed

end

text \<open>What a finished measurement adds up to.\<close>

lemma histogram_ledger:
  assumes "histogram_mapped ops book symbol bytes = Inr (Measured c st)"
  shows "accounts c" and "co_adds c = bs_adds st + bs_replaces st" and "co_samples c = bs_applied st"
    and "co_samples c = of_nat (length (feed_ops symbol None (messages_of bytes)))"
proof -
  obtain b where b: "handle_all (builder_on ops (collector_hooks ops)) (messages_of bytes) (builder_new book symbol collector_new) = Inr b"
    "histogram_report b = Measured c st"
    using assms by (auto simp: histogram_mapped_messages andthen_eq_Inr)
  have c: "c = bb_observer b" "st = bb_stats b" using b(2) by (auto simp: histogram_report_def split: if_splits)
  have l: "ledger b" by (rule handle_all_ledger [OF b(1) ledger_new])
  then show "accounts c" "co_adds c = bs_adds st + bs_replaces st" "co_samples c = bs_applied st"
    by (simp_all add: c ledger_def)
  then show "co_samples c = of_nat (length (feed_ops symbol None (messages_of bytes)))"
    using handle_all_ops [OF b(1)] by (simp add: c applied_of_def builder_new_def locate_of_def)
qed

section \<open>The streamed tool\<close>

context byte_source
begin

lemma histogram_streamed_pending:
  assumes "reader_ok r" and "length (pending r) < fuel" and "length (pending r) < turns"
  shows "histogram_streamed ops book symbol read turns fuel r = histogram_mapped ops book symbol (pending r)"
  by (simp only: histogram_streamed_def histogram_mapped_messages drive_stream_pending [OF assms])

end

end
