(* ===== verification/Workload.thy ===== *)
theory Workload
  imports Replay_Feed Streamed
begin

text \<open>
  bench/workload.hpp: the stream of book operations a benchmark replays, recorded from the
  messages of one symbol, and its application to a book. The recording of a feed is shown to
  be the operations the replay performs.
\<close>

section \<open>State\<close>

datatype wl_kind = OpAdd | OpCancel | OpExecute | OpDelete | OpReplace

record workload_op =
  wo_ref :: order_ref
  wo_new_ref :: order_ref
  wo_price :: price
  wo_qty :: qty
  wo_op :: wl_kind
  wo_side :: u8
  wo_pad :: u16

record workload =
  wl_symbol :: string
  wl_locate :: u16
  wl_ops :: "workload_op list"
  wl_adds :: u64
  wl_cancels :: u64
  wl_executes :: u64
  wl_deletes :: u64
  wl_replaces :: u64

text \<open>The recorder and the workload it writes to, a reference in the class.\<close>

record recorder =
  rc_workload :: workload
  rc_resolved :: bool

definition recorder_new :: "string \<Rightarrow> recorder" where
  "recorder_new symbol =
     \<lparr>rc_workload = \<lparr>wl_symbol = symbol, wl_locate = 0, wl_ops = [], wl_adds = 0, wl_cancels = 0, wl_executes = 0,
        wl_deletes = 0, wl_replaces = 0\<rparr>, rc_resolved = False\<rparr>"

definition rc_mine :: "u16 \<Rightarrow> recorder \<Rightarrow> bool" where
  "rc_mine locate r \<longleftrightarrow> rc_resolved r \<and> locate = wl_locate (rc_workload r)"

definition rc_push :: "wl_kind \<Rightarrow> order_ref \<Rightarrow> order_ref \<Rightarrow> price \<Rightarrow> qty \<Rightarrow> side \<Rightarrow> workload \<Rightarrow> workload" where
  "rc_push op ref new_ref p q s w =
     w\<lparr>wl_ops := wl_ops w @ [\<lparr>wo_ref = ref, wo_new_ref = new_ref, wo_price = p, wo_qty = q, wo_op = op,
         wo_side = side_to_u8 s, wo_pad = 0\<rparr>]\<rparr>"

definition rc_update :: "u16 \<Rightarrow> (workload \<Rightarrow> workload) \<Rightarrow> recorder \<Rightarrow> recorder" where
  "rc_update locate f r = (if \<not> rc_mine locate r then r else r\<lparr>rc_workload := f (rc_workload r)\<rparr>)"

section \<open>The handlers\<close>

definition rc_stock_directory :: "StockDirectory_view \<Rightarrow> recorder \<Rightarrow> recorder" where
  "rc_stock_directory v r =
     (if rc_resolved r then r
      else
        let sym = trim_alpha (StockDirectory_stock v); w = rc_workload r in
        if wl_symbol w = [] \<or> sym = wl_symbol w then
          r\<lparr>rc_workload := w\<lparr>wl_symbol := sym, wl_locate := StockDirectory_stock_locate v\<rparr>, rc_resolved := True\<rparr>
        else r)"

definition rc_add_order :: "AddOrder_view \<Rightarrow> recorder \<Rightarrow> recorder" where
  "rc_add_order v = rc_update (AddOrder_stock_locate v) (\<lambda>w.
     let w = rc_push OpAdd (AddOrder_order_reference_number v) 0 (AddOrder_price v) (AddOrder_shares v)
               (if AddOrder_buy_sell_indicator v = CHR ''B'' then Buy else Sell) w in
     w\<lparr>wl_adds := wl_adds w + 1\<rparr>)"

definition rc_add_order_with_mpid :: "AddOrderWithMpid_view \<Rightarrow> recorder \<Rightarrow> recorder" where
  "rc_add_order_with_mpid v = rc_update (AddOrderWithMpid_stock_locate v) (\<lambda>w.
     let w = rc_push OpAdd (AddOrderWithMpid_order_reference_number v) 0 (AddOrderWithMpid_price v) (AddOrderWithMpid_shares v)
               (if AddOrderWithMpid_buy_sell_indicator v = CHR ''B'' then Buy else Sell) w in
     w\<lparr>wl_adds := wl_adds w + 1\<rparr>)"

definition rc_order_executed :: "OrderExecuted_view \<Rightarrow> recorder \<Rightarrow> recorder" where
  "rc_order_executed v = rc_update (OrderExecuted_stock_locate v) (\<lambda>w.
     let w = rc_push OpExecute (OrderExecuted_order_reference_number v) 0 0 (OrderExecuted_executed_shares v) Buy w in
     w\<lparr>wl_executes := wl_executes w + 1\<rparr>)"

definition rc_order_executed_with_price :: "OrderExecutedWithPrice_view \<Rightarrow> recorder \<Rightarrow> recorder" where
  "rc_order_executed_with_price v = rc_update (OrderExecutedWithPrice_stock_locate v) (\<lambda>w.
     let w = rc_push OpExecute (OrderExecutedWithPrice_order_reference_number v) 0 0
               (OrderExecutedWithPrice_executed_shares v) Buy w in
     w\<lparr>wl_executes := wl_executes w + 1\<rparr>)"

definition rc_order_cancel :: "OrderCancel_view \<Rightarrow> recorder \<Rightarrow> recorder" where
  "rc_order_cancel v = rc_update (OrderCancel_stock_locate v) (\<lambda>w.
     let w = rc_push OpCancel (OrderCancel_order_reference_number v) 0 0 (OrderCancel_cancelled_shares v) Buy w in
     w\<lparr>wl_cancels := wl_cancels w + 1\<rparr>)"

definition rc_order_delete :: "OrderDelete_view \<Rightarrow> recorder \<Rightarrow> recorder" where
  "rc_order_delete v = rc_update (OrderDelete_stock_locate v) (\<lambda>w.
     let w = rc_push OpDelete (OrderDelete_order_reference_number v) 0 0 0 Buy w in
     w\<lparr>wl_deletes := wl_deletes w + 1\<rparr>)"

definition rc_order_replace :: "OrderReplace_view \<Rightarrow> recorder \<Rightarrow> recorder" where
  "rc_order_replace v = rc_update (OrderReplace_stock_locate v) (\<lambda>w.
     let w = rc_push OpReplace (OrderReplace_original_order_reference_number v) (OrderReplace_new_order_reference_number v)
               (OrderReplace_price v) (OrderReplace_shares v) Buy w in
     w\<lparr>wl_replaces := wl_replaces w + 1\<rparr>)"

text \<open>What \<open>dispatch\<close> finds in the class.\<close>

fun recorder_on :: "event \<Rightarrow> recorder \<Rightarrow> failure + recorder" where
  "recorder_on (on_stock_directory v) r = Inr (rc_stock_directory v r)"
| "recorder_on (on_add_order v) r = Inr (rc_add_order v r)"
| "recorder_on (on_add_order_with_mpid v) r = Inr (rc_add_order_with_mpid v r)"
| "recorder_on (on_order_executed v) r = Inr (rc_order_executed v r)"
| "recorder_on (on_order_executed_with_price v) r = Inr (rc_order_executed_with_price v r)"
| "recorder_on (on_order_cancel v) r = Inr (rc_order_cancel v r)"
| "recorder_on (on_order_delete v) r = Inr (rc_order_delete v r)"
| "recorder_on (on_order_replace v) r = Inr (rc_order_replace v r)"
| "recorder_on _ r = Inr r"

definition load_workload :: "u8 list \<Rightarrow> string \<Rightarrow> failure + workload" where
  "load_workload bytes symbol =
     andthen (drive (Suc (length bytes)) recorder_on (cursor_of bytes) (recorder_new symbol)) (\<lambda>r. Inr (rc_workload r))"

text \<open>A path that ends in .gz is read through a reader.\<close>

definition load_workload_streamed :: "('s \<Rightarrow> nat \<Rightarrow> u8 list \<times> 's) \<Rightarrow> nat \<Rightarrow> nat \<Rightarrow> 's reader \<Rightarrow> string \<Rightarrow> failure + workload" where
  "load_workload_streamed read turns fuel r symbol =
     andthen (drive_stream read turns fuel recorder_on r (recorder_new symbol)) (\<lambda>r. Inr (rc_workload r))"

definition ends_with :: "string \<Rightarrow> string \<Rightarrow> bool" where
  "ends_with s suf \<longleftrightarrow> (let n = length suf in n \<le> length s \<and> take n (drop (length s - n) s) = suf)"

lemma ends_with_iff: "ends_with s suf \<longleftrightarrow> (\<exists>p. s = p @ suf)"
  by (auto simp: ends_with_def Let_def) (metis append_take_drop_id)

text \<open>\<open>apply\<close>: one operation on any book.\<close>

definition apply_workload :: "'b book_ops \<Rightarrow> workload_op \<Rightarrow> 'b \<Rightarrow> failure + 'b" where
  "apply_workload ops x b =
     (case wo_op x of
        OpAdd \<Rightarrow> bo_add ops (wo_ref x) (side_of_u8 (wo_side x)) (wo_price x) (wo_qty x) 0 b
      | OpCancel \<Rightarrow> bo_cancel ops (wo_ref x) (wo_qty x) b
      | OpExecute \<Rightarrow> andthen (bo_execute ops (wo_ref x) (wo_qty x) b) (\<lambda>(b', _). Inr b')
      | OpDelete \<Rightarrow> bo_remove ops (wo_ref x) b
      | OpReplace \<Rightarrow> bo_replace ops (wo_ref x) (wo_new_ref x) (wo_price x) (wo_qty x) b)"

fun apply_all :: "'b book_ops \<Rightarrow> workload_op list \<Rightarrow> 'b \<Rightarrow> failure + 'b" where
  "apply_all ops [] b = Inr b"
| "apply_all ops (x # xs) b = andthen (apply_workload ops x b) (apply_all ops xs)"

section \<open>The recording is the feed's operations\<close>

definition op_of :: "workload_op \<Rightarrow> book_op" where
  "op_of x =
     (case wo_op x of
        OpAdd \<Rightarrow> Add (wo_ref x) (side_of_u8 (wo_side x)) (wo_price x) (wo_qty x) 0
      | OpCancel \<Rightarrow> Cancel (wo_ref x) (wo_qty x)
      | OpExecute \<Rightarrow> Execute (wo_ref x) (wo_qty x)
      | OpDelete \<Rightarrow> Delete (wo_ref x)
      | OpReplace \<Rightarrow> Replace (wo_ref x) (wo_new_ref x) (wo_price x) (wo_qty x))"

lemma apply_workload_op: "apply_workload ops x b = apply_op ops (op_of x) b"
  by (simp add: apply_workload_def op_of_def split: wl_kind.split)

lemma apply_all_ops: "apply_all ops xs b = run_ops ops (map op_of xs) b"
  by (induction xs arbitrary: b) (simp_all add: apply_workload_op cong: andthen_cong)

definition kinds :: "wl_kind \<Rightarrow> workload \<Rightarrow> nat" where
  "kinds k w = length (filter (\<lambda>x. wo_op x = k) (wl_ops w))"

definition tallied :: "workload \<Rightarrow> bool" where
  "tallied w \<longleftrightarrow> wl_adds w = of_nat (kinds OpAdd w) \<and> wl_cancels w = of_nat (kinds OpCancel w) \<and>
     wl_executes w = of_nat (kinds OpExecute w) \<and> wl_deletes w = of_nat (kinds OpDelete w) \<and>
     wl_replaces w = of_nat (kinds OpReplace w)"

definition recorded_locate :: "recorder \<Rightarrow> u16 option" where
  "recorded_locate r = (if rc_resolved r then Some (wl_locate (rc_workload r)) else None)"

lemma rc_mine_locate: "rc_mine l r \<longleftrightarrow> recorded_locate r = Some l"
  by (auto simp: rc_mine_def recorded_locate_def)

definition recorded :: "recorder \<Rightarrow> book_op list" where
  "recorded r = map op_of (wl_ops (rc_workload r))"

lemma recorder_step:
  assumes "recorder_on e r = Inr r'"
  shows "recorded r @ feed_ops (wl_symbol (rc_workload r)) (recorded_locate r) (e # es) =
    recorded r' @ feed_ops (wl_symbol (rc_workload r')) (recorded_locate r') es"
    and "tallied (rc_workload r) \<Longrightarrow> tallied (rc_workload r')"
proof -
  show "recorded r @ feed_ops (wl_symbol (rc_workload r)) (recorded_locate r) (e # es) =
    recorded r' @ feed_ops (wl_symbol (rc_workload r')) (recorded_locate r') es"
    using assms
    by (cases e; cases "recorded_locate r")
      (auto simp: rc_stock_directory_def rc_add_order_def rc_add_order_with_mpid_def rc_order_executed_def
        rc_order_executed_with_price_def rc_order_cancel_def rc_order_delete_def rc_order_replace_def rc_update_def
        rc_mine_locate Let_def recorded_def rc_push_def op_of_def side_of_indicator_def side_of_u8_def recorded_locate_def split: if_splits)
  show "tallied (rc_workload r')" if "tallied (rc_workload r)"
    using assms that
    by (cases e)
      (auto simp: rc_stock_directory_def rc_add_order_def rc_add_order_with_mpid_def rc_order_executed_def
        rc_order_executed_with_price_def rc_order_cancel_def rc_order_delete_def rc_order_replace_def rc_update_def
        Let_def rc_push_def tallied_def kinds_def split: if_splits)
qed

lemma recorder_all:
  "\<exists>r'. handle_all recorder_on es r = Inr r' \<and>
     recorded r' = recorded r @ feed_ops (wl_symbol (rc_workload r)) (recorded_locate r) es \<and>
     (tallied (rc_workload r) \<longrightarrow> tallied (rc_workload r'))"
proof (induction es arbitrary: r)
  case (Cons e es)
  obtain r1 where r1: "recorder_on e r = Inr r1" by (cases e) simp_all
  from Cons.IH [of r1] recorder_step [OF r1] r1 show ?case by auto
qed simp

theorem load_workload_ops:
  "\<exists>w. load_workload bytes symbol = Inr w \<and> map op_of (wl_ops w) = feed_ops symbol None (messages_of bytes) \<and> tallied w"
proof -
  obtain r where "handle_all recorder_on (messages_of bytes) (recorder_new symbol) = Inr r"
    "recorded r = recorded (recorder_new symbol) @ feed_ops (wl_symbol (rc_workload (recorder_new symbol)))
       (recorded_locate (recorder_new symbol)) (messages_of bytes)"
    "tallied (rc_workload (recorder_new symbol)) \<longrightarrow> tallied (rc_workload r)"
    using recorder_all by blast
  then show ?thesis
    unfolding load_workload_def drive_start
    by (simp add: recorded_def) (simp add: recorder_new_def recorded_locate_def tallied_def kinds_def)
qed

context byte_source
begin

lemma load_streamed_pending:
  assumes "reader_ok r" and "length (pending r) < fuel" and "length (pending r) < turns"
  shows "load_workload_streamed read turns fuel r symbol = load_workload (pending r) symbol"
  by (simp only: load_workload_streamed_def load_workload_def drive_stream_pending [OF assms] drive_start)

end

end
