(* ===== verification/Gzip_Source.thy ===== *)
theory Gzip_Source
  imports Frame_Reader
begin

text \<open>
  include/itch/wire/gzip_source.hpp: \<open>GzipSource\<close> over any inner source. zlib is a parameter:
  \<open>inflate z bs n\<close> is the call with the stream \<open>z\<close>, the unread input \<open>bs\<close> and room for \<open>n\<close>
  bytes, and gives the return code, the bytes written, the number of bytes read and the
  stream. The calls that set the stream up and tear it down are not modelled. \<open>inflate_ok\<close>
  names what zlib documents and the loop relies on.
\<close>

section \<open>State\<close>

datatype inflate_code = Z_OK | Z_STREAM_END | Z_BUF_ERROR | Z_ERROR string

datatype gzip_error =
    EndedMidMember
  | NoProgress
  | InflateFailed string
  | TurnsSpent

record ('z, 's) gzip =
  gz_inner :: 's
  gz_stream :: 'z
  gz_in :: "u8 list"
  gz_allow_truncated :: bool
  gz_finished :: bool
  gz_out_total :: u64

definition kInputChunk :: nat where
  "kInputChunk = 2 ^ 18"

definition gzip_new :: "'z \<Rightarrow> 's \<Rightarrow> bool \<Rightarrow> ('z, 's) gzip" where
  "gzip_new z inner allow_truncated =
     \<lparr>gz_inner = inner, gz_stream = z, gz_in = [], gz_allow_truncated = allow_truncated, gz_finished = False, gz_out_total = 0\<rparr>"

section \<open>Reading\<close>

text \<open>The refill of the input; the flag says that the compressed input ran out.\<close>

definition gzip_input :: "('s \<Rightarrow> nat \<Rightarrow> u8 list \<times> 's) \<Rightarrow> ('z, 's) gzip \<Rightarrow> gzip_error + bool \<times> ('z, 's) gzip" where
  "gzip_input read g =
     (if gz_in g = [] then
        (case read (gz_inner g) kInputChunk of (got, inner) \<Rightarrow>
           if got = [] then
             if \<not> gz_allow_truncated g then Inl EndedMidMember
             else Inr (True, g\<lparr>gz_inner := inner, gz_finished := True\<rparr>)
           else Inr (False, g\<lparr>gz_inner := inner, gz_in := got\<rparr>))
      else Inr (False, g))"

text \<open>The loop, with the room \<open>out\<close> left in the destination: the bytes it writes.\<close>

fun gzip_fill :: "('z \<Rightarrow> u8 list \<Rightarrow> nat \<Rightarrow> inflate_code \<times> u8 list \<times> nat \<times> 'z) \<Rightarrow> ('s \<Rightarrow> nat \<Rightarrow> u8 list \<times> 's) \<Rightarrow> nat \<Rightarrow>
    nat \<Rightarrow> ('z, 's) gzip \<Rightarrow> gzip_error + u8 list \<times> ('z, 's) gzip" where
  "gzip_fill inflate read 0 out g = Inl TurnsSpent"
| "gzip_fill inflate read (Suc fuel) out g =
     (if out = 0 then Inr ([], g)
      else andthen (gzip_input read g) (\<lambda>(dry, g).
        if dry then Inr ([], g)
        else
          case inflate (gz_stream g) (gz_in g) out of (rc, bytes, used, z) \<Rightarrow>
            let g = g\<lparr>gz_stream := z, gz_in := drop used (gz_in g)\<rparr>;
                again = andthen (gzip_fill inflate read fuel (out - length bytes) g) (\<lambda>(bs, g). Inr (bytes @ bs, g)) in
            (case rc of
               Z_STREAM_END \<Rightarrow> Inr (bytes, g\<lparr>gz_finished := True\<rparr>)
             | Z_BUF_ERROR \<Rightarrow> if gz_in g \<noteq> [] then Inl NoProgress else again
             | Z_OK \<Rightarrow> again
             | Z_ERROR msg \<Rightarrow> Inl (InflateFailed msg))))"

text \<open>
  \<open>read\<close>: the number it returns, the bytes it writes, the source. The room is the 32-bit
  \<open>avail_out\<close> of zlib, the low bits of \<open>n\<close>.
\<close>

definition gzip_read :: "('z \<Rightarrow> u8 list \<Rightarrow> nat \<Rightarrow> inflate_code \<times> u8 list \<times> nat \<times> 'z) \<Rightarrow> ('s \<Rightarrow> nat \<Rightarrow> u8 list \<times> 's) \<Rightarrow> nat \<Rightarrow>
    ('z, 's) gzip \<Rightarrow> nat \<Rightarrow> gzip_error + nat \<times> u8 list \<times> ('z, 's) gzip" where
  "gzip_read inflate read fuel g n =
     (if gz_finished g \<or> n = 0 then Inr (0, [], g)
      else
        let room = n mod 2 ^ 32 in
        andthen (gzip_fill inflate read fuel room g) (\<lambda>(bs, g).
          let produced = n - (room - length bs) in
          Inr (produced, bs, g\<lparr>gz_out_total := gz_out_total g + of_nat produced\<rparr>)))"

section \<open>What it relies on\<close>

text \<open>
  \<open>inflate\<close> reads no more than it is given, writes no more than there is room for, and a
  return of \<open>Z_OK\<close> means that some progress was made.
\<close>

definition inflate_ok :: "('z \<Rightarrow> u8 list \<Rightarrow> nat \<Rightarrow> inflate_code \<times> u8 list \<times> nat \<times> 'z) \<Rightarrow> bool" where
  "inflate_ok inflate \<longleftrightarrow> (\<forall>z bs n. case inflate z bs n of (rc, bytes, used, z') \<Rightarrow>
     used \<le> length bs \<and> length bytes \<le> n \<and> (rc = Z_OK \<longrightarrow> 0 < used \<or> bytes \<noteq> []))"

lemma inflate_okD:
  assumes "inflate_ok inflate" and "inflate z bs n = (rc, bytes, used, z')"
  shows "used \<le> length bs" and "length bytes \<le> n" and "rc = Z_OK \<Longrightarrow> 0 < used \<or> bytes \<noteq> []"
proof -
  have "case inflate z bs n of (rc, bytes, used, z') \<Rightarrow>
      used \<le> length bs \<and> length bytes \<le> n \<and> (rc = Z_OK \<longrightarrow> 0 < used \<or> bytes \<noteq> [])"
    using assms(1) unfolding inflate_ok_def by (elim allE)
  then show "used \<le> length bs" "length bytes \<le> n" "rc = Z_OK \<Longrightarrow> 0 < used \<or> bytes \<noteq> []" using assms(2) by auto
qed

section \<open>The loop ends\<close>

text \<open>The stream is at the end zlib found.\<close>

definition ended_at :: "('z \<Rightarrow> u8 list \<Rightarrow> nat \<Rightarrow> inflate_code \<times> u8 list \<times> nat \<times> 'z) \<Rightarrow> 'z \<Rightarrow> bool" where
  "ended_at inflate z' \<longleftrightarrow> (\<exists>z inp n bytes used. inflate z inp n = (Z_STREAM_END, bytes, used, z'))"

lemma ended_atI: "inflate z inp n = (Z_STREAM_END, bytes, used, z') \<Longrightarrow> ended_at inflate z'"
  unfolding ended_at_def by blast

text \<open>How a fill ends: every error but the spent turns has its cause, and a fill that falls short has finished.\<close>

definition fill_end :: "('z \<Rightarrow> u8 list \<Rightarrow> nat \<Rightarrow> inflate_code \<times> u8 list \<times> nat \<times> 'z) \<Rightarrow> nat \<Rightarrow> ('z, 's) gzip \<Rightarrow>
    gzip_error + u8 list \<times> ('z, 's) gzip \<Rightarrow> bool" where
  "fill_end inflate out g r \<longleftrightarrow>
     (case r of
        Inl e \<Rightarrow> e \<noteq> TurnsSpent \<and> (e = EndedMidMember \<longrightarrow> \<not> gz_allow_truncated g)
      | Inr (bs, g') \<Rightarrow> length bs \<le> out \<and> (length bs < out \<longrightarrow> gz_finished g') \<and>
          gz_allow_truncated g' = gz_allow_truncated g \<and> gz_out_total g' = gz_out_total g \<and>
          (gz_finished g' \<and> \<not> gz_finished g \<and> \<not> gz_allow_truncated g \<longrightarrow> ended_at inflate (gz_stream g')))"

context byte_source
begin

definition gzip_left :: "('z, 's) gzip \<Rightarrow> nat" where
  "gzip_left g = length (gz_in g) + length (remaining (gz_inner g))"

lemma gzip_input_run:
  "gzip_input read g = Inr (dry, g') \<Longrightarrow>
     gz_allow_truncated g' = gz_allow_truncated g \<and> gz_out_total g' = gz_out_total g \<and>
     (if dry then gz_allow_truncated g \<and> gz_finished g'
      else gz_in g' \<noteq> [] \<and> gz_finished g' = gz_finished g \<and> gzip_left g' = gzip_left g)"
  "gzip_input read g = Inl e \<Longrightarrow> e = EndedMidMember \<and> \<not> gz_allow_truncated g"
  using read_splits [of "gz_inner g" kInputChunk]
  by (auto simp: gzip_input_def gzip_left_def split: if_splits prod.splits)

lemma gzip_fill_end:
  assumes "inflate_ok inflate" and "gzip_left g + out < fuel"
  shows "fill_end inflate out g (gzip_fill inflate read fuel out g)"
  using assms(2)
proof (induction fuel arbitrary: out g)
  case (Suc fuel)
  consider "out = 0" | e where "out \<noteq> 0" "gzip_input read g = Inl e" | g1 where "out \<noteq> 0" "gzip_input read g = Inr (True, g1)"
    | g1 where "out \<noteq> 0" "gzip_input read g = Inr (False, g1)"
  proof (cases "gzip_input read g")
    case (Inr x)
    then show thesis using that by (cases x; cases "fst x") auto
  qed (use that in blast)
  then show ?case
  proof cases
    case 4
    note in1 = gzip_input_run(1) [OF 4(2), simplified]
    obtain rc bytes used z where call: "inflate (gz_stream g1) (gz_in g1) out = (rc, bytes, used, z)" by (metis prod_cases4)
    note ok = inflate_okD [OF assms(1) call]
    let ?g = "g1\<lparr>gz_stream := z, gz_in := drop used (gz_in g1)\<rparr>"
    let ?rest = "gzip_fill inflate read fuel (out - length bytes) ?g"
    have left: "gzip_left ?g + used = gzip_left g" using ok(1) in1 by (simp add: gzip_left_def)
    show ?thesis
    proof (cases rc)
      case Z_STREAM_END
      then show ?thesis using 4 in1 call ok(2) by (auto simp: fill_end_def dest: ended_atI)
    next
      case (Z_ERROR msg)
      then show ?thesis using 4 call by (simp add: fill_end_def)
    next
      case other: Z_OK
      then have "gzip_left ?g + (out - length bytes) < fuel" using left ok Suc.prems by (cases bytes) auto
      from Suc.IH [OF this] show ?thesis using 4 in1 call ok(2) other by (auto simp: fill_end_def split: sum.splits)
    next
      case other: Z_BUF_ERROR
      show ?thesis
      proof (cases "drop used (gz_in g1) = []")
        case True
        then have "0 < used" using in1 by (cases used) auto
        then have "gzip_left ?g + (out - length bytes) < fuel" using left Suc.prems by linarith
        from Suc.IH [OF this] show ?thesis using 4 in1 call ok(2) other True by (auto simp: fill_end_def split: sum.splits)
      qed (use 4 call other in \<open>simp add: fill_end_def\<close>)
    qed
  qed (auto simp: fill_end_def dest: gzip_input_run)
qed simp

text \<open>One read of less than 4 GiB.\<close>

lemma gzip_read_end:
  assumes "inflate_ok inflate" and "gzip_left g + n < fuel" and "n < 2 ^ 32"
  shows "case gzip_read inflate read fuel g n of
      Inl e \<Rightarrow> e \<noteq> TurnsSpent \<and> (e = EndedMidMember \<longrightarrow> \<not> gz_allow_truncated g)
    | Inr (k, bs, g') \<Rightarrow> k = length bs \<and> k \<le> n \<and> (k < n \<longrightarrow> gz_finished g') \<and> (gz_finished g \<longrightarrow> bs = [] \<and> g' = g) \<and>
        gz_out_total g' = gz_out_total g + of_nat k \<and>
        (gz_finished g' \<and> \<not> gz_finished g \<and> \<not> gz_allow_truncated g \<longrightarrow> ended_at inflate (gz_stream g'))"
proof (cases "gz_finished g \<or> n = 0")
  case True
  then show ?thesis by (auto simp: gzip_read_def)
next
  case False
  have e: "fill_end inflate n g (gzip_fill inflate read fuel n g)" by (rule gzip_fill_end [OF assms(1,2)])
  have m: "n mod 4294967296 = n" using assms(3) by simp
  show ?thesis
  proof (cases "gzip_fill inflate read fuel n g")
    case (Inl x)
    then show ?thesis using e False by (simp add: gzip_read_def m fill_end_def)
  next
    case (Inr x)
    obtain bs g' where x: "x = (bs, g')" by (cases x)
    then show ?thesis using e False Inr by (simp add: gzip_read_def m fill_end_def Let_def)
  qed
qed

end

text \<open>A read of exactly 4 GiB has no room in zlib's count, writes nothing and returns 4 GiB.\<close>

lemma gzip_read_wide:
  "\<not> gz_finished g \<Longrightarrow> gzip_read inflate read (Suc fuel) g (2 ^ 32) =
     Inr (2 ^ 32, [], g\<lparr>gz_out_total := gz_out_total g + 2 ^ 32\<rparr>)"
  by (simp add: gzip_read_def Let_def)

section \<open>An instance\<close>

text \<open>A stream of stored bytes that ends at a zero.\<close>

definition stored :: "unit \<Rightarrow> u8 list \<Rightarrow> nat \<Rightarrow> inflate_code \<times> u8 list \<times> nat \<times> unit" where
  "stored z bs n =
     (if bs = [] \<or> n = 0 then (Z_BUF_ERROR, [], 0, z)
      else if hd bs = 0 then (Z_STREAM_END, [], 1, z) else (Z_OK, [hd bs], 1, z))"

lemma stored_ok: "inflate_ok stored"
  by (auto simp: inflate_ok_def stored_def Suc_le_eq)

end
