(* ===== verification/Fd_Source.thy ===== *)
theory Fd_Source
  imports Frame_Reader
begin

text \<open>
  include/itch/wire/source.hpp: \<open>FdSource::read\<close>. The system call is a parameter:
  \<open>sys k n\<close> asks the kernel in the state \<open>k\<close> for \<open>n\<close> bytes and gives what it returned and
  the kernel's new state. Opening and closing the descriptor are not modelled. \<open>file_ok\<close>
  names what POSIX documents of \<open>read\<close> on an open file without errors, and that signals
  interrupt it finitely often.
\<close>

section \<open>The loop\<close>

datatype sys_result = Got "u8 list" | Failed int

datatype read_error = ReadFailed int | InterruptedForever

definition EINTR :: int where
  "EINTR = 4"

text \<open>With \<open>n\<close> bytes still to fill: the bytes written from there on.\<close>

fun fd_read :: "('k \<Rightarrow> nat \<Rightarrow> sys_result \<times> 'k) \<Rightarrow> nat \<Rightarrow> nat \<Rightarrow> 'k \<Rightarrow> read_error + u8 list \<times> 'k" where
  "fd_read sys 0 n k = Inl InterruptedForever"
| "fd_read sys (Suc fuel) n k =
     (if n = 0 then Inr ([], k)
      else
        case sys k n of
          (Failed e, k') \<Rightarrow> if e = EINTR then fd_read sys fuel n k' else Inl (ReadFailed e)
        | (Got bs, k') \<Rightarrow>
            if bs = [] then Inr ([], k')
            else andthen (fd_read sys fuel (n - length bs) k') (\<lambda>(rest, k''). Inr (bs @ rest, k'')))"

section \<open>Over a file\<close>

definition file_ok :: "('k \<Rightarrow> nat \<Rightarrow> sys_result \<times> 'k) \<Rightarrow> ('k \<Rightarrow> u8 list) \<Rightarrow> ('k \<Rightarrow> nat) \<Rightarrow> bool" where
  "file_ok sys left interrupts \<longleftrightarrow> (\<forall>k n. 0 < n \<longrightarrow> (case sys k n of
       (Got bs, k') \<Rightarrow> left k = bs @ left k' \<and> length bs \<le> n \<and> (bs = [] \<longrightarrow> left k = []) \<and> interrupts k' \<le> interrupts k
     | (Failed e, k') \<Rightarrow> e = EINTR \<and> left k' = left k \<and> interrupts k' < interrupts k))"

lemma file_okD:
  assumes "file_ok sys left interrupts" and "0 < n"
  shows "sys k n = (Got bs, k') \<Longrightarrow> left k = bs @ left k' \<and> length bs \<le> n \<and> (bs = [] \<longrightarrow> left k = []) \<and> interrupts k' \<le> interrupts k"
    and "sys k n = (Failed e, k') \<Longrightarrow> e = EINTR \<and> left k' = left k \<and> interrupts k' < interrupts k"
  using assms(1) [unfolded file_ok_def, THEN spec, THEN spec, THEN mp, OF assms(2), of k] by auto

text \<open>Short reads and interrupts are hidden: a read fills the destination unless the file ends.\<close>

lemma fd_read_fills:
  assumes "file_ok sys left interrupts" and "n + interrupts k < fuel"
  shows "\<exists>k'. fd_read sys fuel n k = Inr (take n (left k), k') \<and> left k' = drop n (left k)"
  using assms(2)
proof (induction fuel arbitrary: n k)
  case (Suc fuel)
  show ?case
  proof (cases "n = 0")
    case False
    then have n: "0 < n" by simp
    obtain r k1 where call: "sys k n = (r, k1)" by force
    show ?thesis
    proof (cases r)
      case (Failed e)
      note f = file_okD(2) [OF assms(1) n call [unfolded Failed]]
      then have "n + interrupts k1 < fuel" using Suc.prems by linarith
      from Suc.IH [OF this] f show ?thesis using n by (auto simp: call Failed)
    next
      case (Got bs)
      note g = file_okD(1) [OF assms(1) n call [unfolded Got]]
      show ?thesis
      proof (cases "bs = []")
        case True
        then show ?thesis using g n by (auto simp: call Got)
      next
        case ne: False
        then have "0 < length bs" by simp
        then have "(n - length bs) + interrupts k1 < fuel" using Suc.prems g by linarith
        from Suc.IH [OF this] obtain k' where "fd_read sys fuel (n - length bs) k1 = Inr (take (n - length bs) (left k1), k')"
          "left k' = drop (n - length bs) (left k1)" by blast
        with g ne n show ?thesis by (auto simp: call Got)
      qed
    qed
  qed simp
qed simp

text \<open>So a file is a byte source of the reader.\<close>

definition fd_source :: "('k \<Rightarrow> nat \<Rightarrow> sys_result \<times> 'k) \<Rightarrow> ('k \<Rightarrow> nat) \<Rightarrow> 'k \<Rightarrow> nat \<Rightarrow> u8 list \<times> 'k" where
  "fd_source sys interrupts k n = (case fd_read sys (Suc (n + interrupts k)) n k of Inr x \<Rightarrow> x | Inl _ \<Rightarrow> ([], k))"

lemma fd_byte_source:
  assumes "file_ok sys left interrupts"
  shows "byte_source (fd_source sys interrupts) left"
proof -
  have s: "\<exists>k'. fd_source sys interrupts k n = (take n (left k), k') \<and> left k' = drop n (left k)" for k n
    using fd_read_fills [OF assms lessI, of n k] by (auto simp: fd_source_def)
  show ?thesis
  proof unfold_locales
    fix k n bs k'
    assume r: "fd_source sys interrupts k n = (bs, k')"
    then show "left k = bs @ left k'" "length bs \<le> n" using s [of k n] by auto
  next
    fix k n k'
    assume "fd_source sys interrupts k n = ([], k')"
    then show "n = 0 \<or> left k = []" using s [of k n] by auto
  qed
qed

section \<open>A file on a disk\<close>

record disk =
  dk_data :: "u8 list"
  dk_page :: nat
  dk_signals :: nat

text \<open>Reads come a page at a time at most, after the pending signals have interrupted.\<close>

definition disk_read :: "disk \<Rightarrow> nat \<Rightarrow> sys_result \<times> disk" where
  "disk_read d n =
     (if 0 < dk_signals d then (Failed EINTR, d\<lparr>dk_signals := dk_signals d - 1\<rparr>)
      else let got = min n (Suc (dk_page d)) in (Got (take got (dk_data d)), d\<lparr>dk_data := drop got (dk_data d)\<rparr>))"

lemma disk_ok: "file_ok disk_read dk_data dk_signals"
  by (auto simp: file_ok_def disk_read_def Let_def min_def)

interpretation disk_file: byte_source "fd_source disk_read dk_signals" dk_data
  by (rule fd_byte_source [OF disk_ok])

end
