(* ===== verification/Tool_Samples.thy ===== *)
theory Tool_Samples
  imports Histogram Workload Gzip_Source Fd_Source
begin

text \<open>
  Short feeds, a measurement and a stored stream for the tools, evaluated, and a malformed feed.
\<close>

lemma sample_frames: "frames_of (feed_of sample_feed) = (map event_bytes sample_feed, EndOfInput, No_error)"
proof -
  have "feed_of sample_feed = concat (map frame (map event_bytes sample_feed))" by (simp add: feed_of_def comp_def)
  then show ?thesis using sample_feed_ok by (simp only:) (intro frames_of_frames, auto intro: event_well_framed)
qed

text \<open>Two buy orders, the second a dollar further from the inside.\<close>

definition near_feed :: "event list" where
  "near_feed = [sample_directory, sample_add 7 1 CHR ''B'' 100 1000000, sample_add 7 2 CHR ''B'' 50 990000]"

lemma near_messages: "messages_of (feed_of near_feed) = near_feed"
  unfolding feed_of_def
  by (rule messages_of_events) (simp add: near_feed_def sample_directory_def sample_add_def StockDirectory_fits_def AddOrder_fits_def)

lemma near_ops: "feed_ops ''ABCD'' None near_feed = [Add 1 Buy 1000000 100 0, Add 2 Buy 990000 50 0]"
  by (simp add: near_feed_def sample_directory_def sample_add_def side_of_indicator_def trim_alpha.simps)

lemma near_room: "room_for_all (2 ^ 32 - 1) (\<lambda>p. p \<noteq> kNoPrice) (feed_ops ''ABCD'' None near_feed) []"
  unfolding near_ops by (simp add: sb_add_def nb_contains_def nb_add_def kNoPrice_def)

lemma co_measured_hooks [simp]:
  "co_measured (co_after_apply ops b c) = co_measured c"
  "co_measured (co_before_add ops b s p q c) = (if bo_empty ops b s then co_measured c else co_measured c + 1)"
  by (simp_all add: co_after_apply_def co_before_add_def co_measure_def Let_def)

lemma near_run:
  "case handle_all (builder_on naive_ops (collector_hooks naive_ops)) near_feed (builder_new [] ''ABCD'' collector_new) of
     Inl e \<Rightarrow> False
   | Inr b \<Rightarrow> bb_resolved b \<and> co_measured (bb_observer b) = 1"
  by (simp add: near_feed_def sample_directory_def sample_add_def stock_directory_def add_order_def do_add_def Let_def seen_def
      count_stat_def mine_def builder_new_def trim_alpha.simps sb_add_def nb_contains_def nb_add_def nb_empty_def on_side_def
      collector_new_def ensure_def kNoPrice_def)

lemma near_measured: "\<exists>c st. histogram_mapped naive_ops [] ''ABCD'' (feed_of near_feed) = Inr (Measured c st)"
  using near_run
  by (auto simp: histogram_mapped_messages near_messages histogram_report_def split: sum.splits)

definition stored_file :: "(unit, disk) gzip" where
  "stored_file = gzip_new () \<lparr>dk_data = [5, 6, 0], dk_page = 2, dk_signals = 2\<rparr> False"

lemma stored_run:
  "\<exists>k g. gzip_read stored (fd_source disk_read dk_signals) (Suc (Suc (Suc (Suc m)))) stored_file 4 = Inr (k, [5, 6], g)"
proof -
  let ?d = "\<lparr>dk_data = [5, 6, 0], dk_page = 2, dk_signals = 2\<rparr>"
  obtain d where "fd_read disk_read (Suc (kInputChunk + dk_signals ?d)) kInputChunk ?d = Inr (take kInputChunk (dk_data ?d), d)"
    using fd_read_fills [OF disk_ok lessI] by blast
  then have r: "fd_source disk_read dk_signals ?d kInputChunk = ([5, 6, 0], d)" by (simp add: fd_source_def kInputChunk_def)
  show ?thesis by (simp add: gzip_read_def gzip_input_def stored_def stored_file_def gzip_new_def r Let_def)
qed

text \<open>A frame, and then a length of zero.\<close>

definition malformed_feed :: "u8 list" where
  "malformed_feed = [0, 12, 83, 0, 0, 0, 0, 0, 0, 0, 0, 0, 0, 79, 0, 0, 7, 7]"

end
