(* ===== verification/Trailing.thy ===== *)
theory Trailing
  imports Feed_Stats
begin

text \<open>
  What \<open>trailing_bytes\<close> of include/itch/wire/source.hpp is after a malformed frame: the
  reader has not moved the frames it returned since its last refill out of its buffer, and
  counts them.
\<close>

text \<open>Frames that are in the buffer are returned, and a malformed one is met, without a refill.\<close>

lemma drain_stays:
  assumes "reader_ok r" and "frames_of (cursor_rest (rd_cursor r)) = (fs, Malformed, er)" and "length fs < fuel" and "0 < turns"
  shows "\<exists>r'. reader_drain read turns fuel r = Inr (fs, Malformed, r') \<and> rd_filled r' = rd_filled r"
  using assms
proof (induction fuel arbitrary: r fs)
  case (Suc fuel)
  obtain st per body where p: "parse (cursor_rest (rd_cursor r)) = (st, per, body)" by (metis prod_cases3)
  note nf = next_frame_parse [OF reader_ok_within [OF Suc.prems(1)], unfolded p, simplified]
  obtain t where t: "turns = Suc t" using Suc.prems(4) by (cases turns) auto
  show ?case
  proof (cases "st = Ok")
    case False
    then have "fs = []" "st = Malformed" using Suc.prems(2) by (simp_all add: frames_of.simps [of "cursor_rest (rd_cursor r)"] p)
    then show ?thesis by (simp add: t nf)
  next
    case True
    let ?c = "(rd_cursor r)\<lparr>cur_error := per, cur_pos := Suc (Suc (cur_pos (rd_cursor r) + length body))\<rparr>"
    let ?r = "r\<lparr>rd_cursor := ?c, rd_frames := rd_frames r + 1\<rparr>"
    have le: "2 + length body \<le> length (cursor_rest (rd_cursor r))" using parse_size p True by blast
    have rest: "cursor_rest ?c = drop (2 + length body) (cursor_rest (rd_cursor r))"
      by (simp add: cursor_rest_def add.commute add.left_commute)
    have ok: "reader_ok ?r" using Suc.prems(1) le by (auto simp: reader_ok_def cursor_rest_def)
    obtain fs1 where fs1: "frames_of (cursor_rest ?c) = (fs1, Malformed, er)" "fs = body # fs1"
      using Suc.prems(2) True unfolding rest
      by (auto simp: frames_of.simps [of "cursor_rest (rd_cursor r)"] p split: prod.splits)
    have "length fs1 < fuel" using Suc.prems(3) fs1(2) by simp
    from Suc.IH [OF ok _ this Suc.prems(4)] fs1(1)
    obtain r' where "reader_drain read turns fuel ?r = Inr (fs1, Malformed, r')" "rd_filled r' = rd_filled r" by auto
    then show ?thesis using True by (simp add: t nf fs1(2))
  qed
qed simp

text \<open>A reader whose buffer takes the whole input takes it in its first read.\<close>

lemma reader_swallows:
  assumes "bytes \<noteq> []" and "length bytes \<le> capacity" and "chunk = 0 \<or> length bytes \<le> chunk"
    and "reader_new (memory_source bytes chunk) capacity = Inr r"
  obtains r1 where "reader_ok r1" and "cursor_rest (rd_cursor r1) = bytes" and "rd_filled r1 = length bytes"
    and "bytes_consumed r1 = 0" and "\<And>t. reader_next memory_read (Suc t) r = reader_next memory_read t r1"
proof -
  let ?c = "cursor_reset bytes (cursor_of [])"
  let ?r1 = "\<lparr>rd_source = (memory_source bytes chunk)\<lparr>ms_pos := length bytes\<rparr>, rd_buf = bytes @ replicate (capacity - length bytes) 0,
    rd_cursor = ?c, rd_filled = length bytes, rd_frames = 0, rd_consumed = 0\<rparr>"
  have new: "kMinBufferSize \<le> capacity" "r = \<lparr>rd_source = memory_source bytes chunk, rd_buf = replicate capacity 0,
      rd_cursor = cursor_of [], rd_filled = 0, rd_frames = 0, rd_consumed = 0\<rparr>"
    using assms(4) by (simp_all add: reader_new_def ensure_def split: if_splits)
  have got: "memory_read (memory_source bytes chunk) capacity = (bytes, (memory_source bytes chunk)\<lparr>ms_pos := length bytes\<rparr>)"
    using assms(1-3) by (auto simp: memory_read_def memory_source_def Let_def)
  have "next_frame (cursor_of []) = Inr (EndOfInput, None, cursor_of [])"
    by (simp add: next_frame_def cursor_of_def Let_def)
  moreover have "refill memory_read r = (True, ?r1)"
    using assms(1) by (simp add: refill_def new(2) got cursor_of_def Let_def cursor_reset_def)
  moreover have "r\<lparr>rd_cursor := cursor_of []\<rparr> = r" by (simp add: new(2))
  ultimately have "reader_next memory_read (Suc t) r = reader_next memory_read t ?r1" for t
    by (simp add: new(2))
  moreover have "reader_ok ?r1" using new(1) assms(2) by (simp add: reader_ok_def cursor_reset_def)
  ultimately show thesis
    by (intro that [of ?r1]) (simp_all add: cursor_reset_def cursor_rest_def bytes_consumed_def)
qed

lemma frames_fit: "length fs \<le> framed_length fs"
  by (induction fs) simp_all

lemma framed_none: "framed_length fs = 0 \<longleftrightarrow> fs = []"
  by (cases fs) simp_all

text \<open>The streamed run over an input that fits in the buffer and ends in a malformed frame.\<close>

lemma next_without_refill:
  assumes "reader_ok r" and "frames_of (cursor_rest (rd_cursor r)) = (fs, Malformed, er)"
  shows "reader_next read (Suc t) r = reader_next read (Suc u) r"
proof -
  obtain st per body where p: "parse (cursor_rest (rd_cursor r)) = (st, per, body)" by (metis prod_cases3)
  have "st = Ok \<or> st = Malformed" using assms(2) by (auto simp: frames_of.simps [of "cursor_rest (rd_cursor r)"] p split: if_splits)
  then show ?thesis using next_frame_parse [OF reader_ok_within [OF assms(1)], unfolded p] by auto
qed

lemma drain_malformed:
  assumes "frames_of bytes = (fs, Malformed, er)" and "length bytes \<le> capacity" and "chunk = 0 \<or> length bytes \<le> chunk"
    and "length bytes < turns" and "reader_new (memory_source bytes chunk) capacity = Inr r"
  obtains r' where "reader_drain memory_read turns turns r = Inr (fs, Malformed, r')" and "trailing_bytes r' = length bytes"
proof -
  have ne: "bytes \<noteq> []" using assms(1) by (auto simp: frames_of.simps [of "[]"] parse_def)
  obtain r1 where r1: "reader_ok r1" "cursor_rest (rd_cursor r1) = bytes" "rd_filled r1 = length bytes"
    "\<And>t. reader_next memory_read (Suc t) r = reader_next memory_read t r1"
    using reader_swallows [OF ne assms(2,3,5)] by metis
  obtain t where t: "turns = Suc (Suc t)"
    using assms(4) ne by (cases turns; cases "turns - 1"; cases bytes) auto
  have m: "frames_of (cursor_rest (rd_cursor r1)) = (fs, Malformed, er)" using assms(1) r1(2) by simp
  have "reader_next memory_read turns r = reader_next memory_read turns r1"
    using r1(4) next_without_refill [OF r1(1) m] unfolding t by metis
  then have same: "reader_drain memory_read turns turns r = reader_drain memory_read turns turns r1" by (simp only: t reader_drain.simps)
  have "length fs < turns" using frames_fit [of fs] framed_le [of bytes] assms(1,4) by simp
  from drain_stays [OF r1(1) m this, of turns memory_read] obtain r' where
    "reader_drain memory_read turns turns r1 = Inr (fs, Malformed, r')" "rd_filled r' = length bytes" using t r1(3) by auto
  then show thesis by (intro that [of r']) (simp_all add: same trailing_bytes_def)
qed

end
