(* ===== verification/Bench_Support.thy ===== *)
theory Bench_Support
  imports Hash "HOL-Library.Multiset"
begin

text \<open>
  bench/bench_support.hpp: the parts of the timing harness that compute: the generator of
  synthetic flows, the samples with their percentiles, the schedule of the open loop, and the
  resolution of the timer. The clock is a list of readings. What the harness computes in
  floating point (the index of a percentile, the interval of a rate) is an argument.
\<close>

unbundle bit_operations_syntax

section \<open>The generator\<close>

text \<open>A draw gives the value and the new state.\<close>

definition rng_next :: "u64 \<Rightarrow> u64 \<times> u64" where
  "rng_next s =
     (let s = s + 0x9e3779b97f4a7c15;
          z = s;
          z = (z XOR drop_bit 30 z) * 0xbf58476d1ce4e5b9;
          z = (z XOR drop_bit 27 z) * 0x94d049bb133111eb
      in (z XOR drop_bit 31 z, s))"

definition rng_range :: "u64 \<Rightarrow> u64 \<Rightarrow> u64 \<Rightarrow> u64 \<times> u64" where
  "rng_range lo hi s =
     (let span = hi - lo + 1; (z, s) = rng_next s in
      (lo + ucast (drop_bit 64 (ucast z * ucast span :: 128 word)), s))"

definition rng_chance :: "u32 \<Rightarrow> u64 \<Rightarrow> bool \<times> u64" where
  "rng_chance percent s = (case rng_range 0 99 s of (x, s) \<Rightarrow> (x < ucast percent, s))"

lemma rng_next_mix: "rng_next s = (mix64 s, s + 0x9e3779b97f4a7c15)"
  by (simp add: rng_next_def mix64_def Let_def)

lemma unat_up: "unat (ucast x :: 128 word) = unat x" "unat (ucast y :: u64) = unat y" for x :: u64 and y :: u32
proof -
  have "unat x < 2 ^ 64" "unat y < 2 ^ 32" using unsigned_less [of x] unsigned_less [of y] by simp_all
  then have "unat x < 2 ^ 128" "unat y < 2 ^ 64" by simp_all
  then show "unat (ucast x :: 128 word) = unat x" "unat (ucast y :: u64) = unat y"
    by (simp_all add: unsigned_ucast_eq take_bit_nat_eq_self)
qed

lemma high_product:
  fixes z n :: u64
  assumes "n \<noteq> 0"
  shows "ucast (drop_bit 64 (ucast z * ucast n :: 128 word)) < n"
proof -
  have z: "unat z < 2 ^ 64" and n: "unat n < 2 ^ 64" "0 < unat n"
    using unsigned_less [of z] unsigned_less [of n] assms by (simp_all add: unat_gt_0)
  have zn: "unat z * unat n < 2 ^ 64 * unat n" using z n(2) by (simp only: mult_less_mono1)
  have "2 ^ 64 * unat n < 2 ^ 64 * 2 ^ 64" using n(1) by simp
  moreover have "(2 ^ 64 * 2 ^ 64 :: nat) = 2 ^ 128" by simp
  ultimately have "unat z * unat n < 2 ^ 128" using zn by (simp only: less_trans)
  then have "unat (ucast z * ucast n :: 128 word) = unat z * unat n"
    by (simp add: unat_word_ariths unat_up)
  then have "unat (drop_bit 64 (ucast z * ucast n :: 128 word)) = unat z * unat n div 2 ^ 64"
    by (simp only: unat_drop_bit_eq) (simp only: drop_bit_eq_div)
  moreover have "unat z * unat n div 2 ^ 64 < unat n" using zn less_mult_imp_div_less [of "unat z * unat n" "unat n" "2 ^ 64"] by (simp only: mult.commute)
  ultimately have less: "unat (drop_bit 64 (ucast z * ucast n :: 128 word)) < unat n" by simp
  then have "unat (drop_bit 64 (ucast z * ucast n :: 128 word)) < 2 ^ 64" using n(1) by (rule order.strict_trans)
  then have "unat (ucast (drop_bit 64 (ucast z * ucast n :: 128 word)) :: u64) = unat (drop_bit 64 (ucast z * ucast n :: 128 word))"
    by (simp only: unsigned_ucast_eq) (intro take_bit_nat_eq_self, simp)
  with less show ?thesis by (simp only: word_less_nat_alt)
qed

text \<open>
  A range that is not all of the 64-bit values is respected; for the whole of them the span
  wraps to nothing and every draw is \<open>lo\<close>.
\<close>

lemma rng_range_bounds:
  assumes "lo \<le> hi" and "hi - lo \<noteq> - 1"
  shows "lo \<le> fst (rng_range lo hi s)" and "fst (rng_range lo hi s) \<le> hi"
proof -
  obtain z s' where d: "rng_next s = (z, s')" by force
  let ?off = "ucast (drop_bit 64 (ucast z * ucast (hi - lo + 1) :: 128 word)) :: u64"
  have "hi - lo + 1 \<noteq> 0" using assms(2) by (simp add: add_eq_0_iff2)
  moreover from this have "unat (hi - lo + 1) = Suc (unat (hi - lo))" using unatSuc [of "hi - lo"] by (simp add: add.commute)
  ultimately have "?off \<le> hi - lo" using high_product [of "hi - lo + 1" z] by (simp add: word_less_nat_alt word_le_nat_alt)
  moreover have "fst (rng_range lo hi s) = lo + ?off" by (simp add: rng_range_def d)
  ultimately have r: "fst (rng_range lo hi s) = lo + ?off" "unat ?off \<le> unat hi - unat lo"
    using assms(1) by (simp_all add: word_le_nat_alt unat_sub)
  have "unat hi < 2 ^ 64" using unsigned_less [of hi] by simp
  then have "unat (lo + ?off) = unat lo + unat ?off" using r(2) assms(1) by (subst unat_add_lem [THEN iffD1]) (auto simp: word_le_nat_alt)
  then show "lo \<le> fst (rng_range lo hi s)" "fst (rng_range lo hi s) \<le> hi"
    using r assms(1) by (simp_all add: word_le_nat_alt)
qed

lemma rng_range_whole: "fst (rng_range 0 (- 1) s) = 0"
  by (simp add: rng_range_def split: prod.splits)

lemma rng_chance_bounds: "\<not> fst (rng_chance 0 s)" "100 \<le> percent \<Longrightarrow> fst (rng_chance percent s)"
proof -
  obtain x s' where d: "rng_range 0 99 s = (x, s')" by force
  have "x \<le> 99" using rng_range_bounds(2) [of 0 99 s] by (simp add: d)
  moreover have "(99 :: u64) < ucast percent" if "100 \<le> percent"
    using that by (simp add: word_le_nat_alt word_less_nat_alt unat_up)
  ultimately show "\<not> fst (rng_chance 0 s)" "100 \<le> percent \<Longrightarrow> fst (rng_chance percent s)"
    by (auto simp: rng_chance_def d)
qed

text \<open>The state steps by an odd constant and the mixer loses nothing, so no value repeats within \<open>2 ^ 64\<close> draws.\<close>

fun rng_draws :: "nat \<Rightarrow> u64 \<Rightarrow> u64" where
  "rng_draws 0 s = fst (rng_next s)"
| "rng_draws (Suc n) s = rng_draws n (snd (rng_next s))"

lemma rng_draws_mix: "rng_draws n s = mix64 (s + of_nat n * 0x9e3779b97f4a7c15)"
  by (induction n arbitrary: s) (simp_all add: rng_next_mix algebra_simps)

lemma rng_period:
  assumes "i < 2 ^ 64" and "j < 2 ^ 64" and "rng_draws i s = rng_draws j s"
  shows "i = j"
proof -
  have "(of_nat i :: u64) * 0x9e3779b97f4a7c15 = of_nat j * 0x9e3779b97f4a7c15"
    using assms(3) by (simp add: rng_draws_mix)
  moreover have "(0x9e3779b97f4a7c15 :: u64) * 0xf1de83e19937733d = 1" by simp
  ultimately have "(of_nat i :: u64) = of_nat j" using times_odd_inj by blast
  then have "unat (of_nat i :: u64) = unat (of_nat j :: u64)" by simp
  then show ?thesis using assms(1,2) by (simp add: unsigned_of_nat take_bit_nat_eq_self)
qed

section \<open>The samples\<close>

record samples =
  sa_v :: "u32 list"
  sa_sorted :: bool

definition samples_new :: samples where
  "samples_new = \<lparr>sa_v = [], sa_sorted = False\<rparr>"

definition samples_add :: "u64 \<Rightarrow> samples \<Rightarrow> samples" where
  "samples_add ns sa = sa\<lparr>sa_v := sa_v sa @ [ucast (min ns 0xFFFFFFFF)]\<rparr>"

definition samples_clear :: "samples \<Rightarrow> samples" where
  "samples_clear sa = sa\<lparr>sa_v := [], sa_sorted := False\<rparr>"

definition samples_sort :: "samples \<Rightarrow> samples" where
  "samples_sort sa = (if \<not> sa_sorted sa then sa\<lparr>sa_v := sort (sa_v sa), sa_sorted := True\<rparr> else sa)"

text \<open>\<open>percentile\<close>, for the index computed from the fraction.\<close>

definition samples_percentile :: "nat \<Rightarrow> samples \<Rightarrow> u32 \<times> samples" where
  "samples_percentile i sa =
     (let sa = samples_sort sa in
      if sa_v sa = [] then (0, sa) else (sa_v sa ! min i (length (sa_v sa) - 1), sa))"

text \<open>A sample is the latency, cut at the greatest 32-bit value.\<close>

lemma samples_add_value: "unat (ucast (min ns 0xFFFFFFFF) :: u32) = min (unat ns) (2 ^ 32 - 1)" for ns :: u64
proof (cases "ns \<le> 0xFFFFFFFF")
  case True
  then have "unat ns \<le> 2 ^ 32 - 1" by (simp add: word_le_nat_alt)
  then have "take_bit 32 (unat ns) = unat ns" by (intro take_bit_nat_eq_self) simp
  then show ?thesis using True \<open>unat ns \<le> 2 ^ 32 - 1\<close> by (simp add: min_def unsigned_ucast_eq)
next
  case False
  then have "2 ^ 32 - 1 < unat ns" by (simp add: word_le_nat_alt)
  then show ?thesis using False by (simp add: min_def)
qed

text \<open>Marked as sorted means sorted, as long as nothing is added after the first percentile.\<close>

definition samples_ok :: "samples \<Rightarrow> bool" where
  "samples_ok sa \<longleftrightarrow> (sa_sorted sa \<longrightarrow> sorted (sa_v sa))"

lemma samples_ok_simps [simp]: "samples_ok samples_new" "samples_ok (samples_clear sa)"
  "samples_ok sa \<Longrightarrow> samples_ok (samples_sort sa)" "\<not> sa_sorted sa \<Longrightarrow> samples_ok (samples_add ns sa)"
  by (simp_all add: samples_ok_def samples_new_def samples_clear_def samples_sort_def samples_add_def)

lemma samples_percentile_exact:
  assumes "samples_ok sa"
  shows "fst (samples_percentile i sa) = (if sa_v sa = [] then 0 else sort (sa_v sa) ! min i (length (sa_v sa) - 1))"
    and "samples_ok (snd (samples_percentile i sa))" and "mset (sa_v (snd (samples_percentile i sa))) = mset (sa_v sa)"
proof -
  have s: "sa_v (samples_sort sa) = sort (sa_v sa)"
    using assms by (auto simp: samples_sort_def samples_ok_def sorted_sort_id)
  then have e: "sa_v (samples_sort sa) = [] \<longleftrightarrow> sa_v sa = []" by (metis length_0_conv length_sort)
  show "fst (samples_percentile i sa) = (if sa_v sa = [] then 0 else sort (sa_v sa) ! min i (length (sa_v sa) - 1))"
    unfolding samples_percentile_def Let_def by (simp add: e) (simp add: s)
  have p: "snd (samples_percentile i sa) = samples_sort sa" by (simp add: samples_percentile_def Let_def)
  show "samples_ok (snd (samples_percentile i sa))" "mset (sa_v (snd (samples_percentile i sa))) = mset (sa_v sa)"
    unfolding p using assms by (simp_all add: s)
qed

lemma samples_percentile_mono:
  assumes "samples_ok sa" and "i \<le> j"
  shows "fst (samples_percentile i sa) \<le> fst (samples_percentile j sa)"
proof (cases "sa_v sa = []")
  case False
  then have "min j (length (sa_v sa) - 1) < length (sort (sa_v sa))" by (cases "sa_v sa") (simp_all add: min_def)
  then show ?thesis using assms False by (simp add: samples_percentile_exact(1) [OF assms(1)] sorted_nth_mono min_le_iff_disj)
qed (simp add: samples_percentile_exact(1) [OF assms(1)])

text \<open>A sample added after a percentile is not sorted in: the greatest is then read as 5.\<close>

lemma samples_stale:
  "fst (samples_percentile 1 (samples_add 5 (snd (samples_percentile 0 (samples_add 9 samples_new))))) = 5"
  by (simp add: samples_percentile_def samples_sort_def samples_add_def samples_new_def Let_def min_def)

section \<open>The schedule and the clock\<close>

record pacer =
  pa_interval :: u64
  pa_start :: u64

definition pacer_due :: "u64 \<Rightarrow> pacer \<Rightarrow> u64" where
  "pacer_due i p = pa_start p + i * pa_interval p"

text \<open>The latency of the open loop counts from the time an operation was due.\<close>

definition open_loop_sample :: "u64 \<Rightarrow> u64 \<Rightarrow> u64" where
  "open_loop_sample due finished = (if due < finished then finished - due else 0)"

fun resolution_from :: "u64 \<Rightarrow> u64 \<Rightarrow> u64 list \<Rightarrow> u64" where
  "resolution_from best prev [] = (if best = - 1 then 0 else best)"
| "resolution_from best prev (t # ts) =
     (let d = t - prev in resolution_from (if d \<noteq> 0 \<and> d < best then d else best) t ts)"

text \<open>The first reading, and the readings of the loop.\<close>

definition timer_resolution :: "u64 \<Rightarrow> u64 list \<Rightarrow> u64" where
  "timer_resolution prev readings = resolution_from (- 1) prev readings"

fun differences :: "u64 \<Rightarrow> u64 list \<Rightarrow> u64 list" where
  "differences prev [] = []"
| "differences prev (t # ts) = (t - prev) # differences t ts"

text \<open>The resolution is the least nonzero step of the clock; it is 0 when the clock never stepped.\<close>

lemma resolution_from_least:
  assumes "best \<noteq> 0"
  shows "resolution_from best prev ts \<le> best \<and>
    (\<forall>d \<in> set (differences prev ts). d \<noteq> 0 \<longrightarrow> resolution_from best prev ts \<le> d) \<and>
    resolution_from best prev ts \<in> insert 0 (insert best (set (differences prev ts)))"
  using assms
proof (induction ts arbitrary: best prev)
  case (Cons t ts)
  let ?b = "if t - prev \<noteq> 0 \<and> t - prev < best then t - prev else best"
  let ?r = "resolution_from ?b t ts"
  have b: "?b \<noteq> 0" "?b \<le> best" "t - prev \<noteq> 0 \<Longrightarrow> ?b \<le> t - prev" using Cons.prems by auto
  have r: "resolution_from best prev (t # ts) = ?r" by (simp add: Let_def)
  have ih: "?r \<le> ?b" "\<forall>d \<in> set (differences t ts). d \<noteq> 0 \<longrightarrow> ?r \<le> d" "?r \<in> insert 0 (insert ?b (set (differences t ts)))"
    using Cons.IH [OF b(1), of t] by blast+
  have "?r \<le> best" using ih(1) b(2) by (rule order.trans)
  moreover have "?r \<le> t - prev" if "t - prev \<noteq> 0" using ih(1) b(3) [OF that] by (rule order.trans)
  moreover have "?b \<in> {best, t - prev}" by simp
  ultimately show ?case unfolding r using ih(2,3) by auto
qed simp

lemma timer_resolution_least:
  "d \<in> set (differences prev readings) \<Longrightarrow> d \<noteq> 0 \<Longrightarrow> timer_resolution prev readings \<le> d"
  "timer_resolution prev readings \<noteq> 0 \<Longrightarrow> timer_resolution prev readings \<noteq> - 1 \<Longrightarrow>
    timer_resolution prev readings \<in> set (differences prev readings)"
  using resolution_from_least [of "- 1" prev readings] unfolding timer_resolution_def by auto

end
