(* ===== verification/Spec2Isabelle.thy ===== *)
theory Spec2Isabelle
  imports Order_Index_Laws Records Hash Frame_Reader Book_Family Book_Views Replay_Streamed Low_Prices Pool_Histories Endian_Values Tool_Samples Trailing Bench_Support
begin

text \<open>
  A verification of itch-exchange: a decoder of the NASDAQ ITCH 5.0 feed, three limit order
  books, a price-time priority matching engine, and the tools that replay, count and measure
  a feed. File names are relative to src/.

  The program. A byte source (a mapped file, a descriptor, a gzip stream, memory) is cut into
  length-prefixed frames by \<open>FrameCursor\<close> or \<open>FrameReader\<close>; \<open>dispatch\<close> gives each
  frame to the handler of its type as a view that decodes big-endian fields in place;
  \<open>BookBuilder\<close> turns the messages of one symbol into calls of an order book and tells an
  observer before and after each. The books are \<open>FlatBook\<close> (pools of orders and levels, an
  open-addressed index of references, and per side a price ladder), \<open>AvlBook\<close> (the same over
  AVL trees) and \<open>MapBook\<close> (ordered maps and lists, the reference). \<open>MatchingEngine\<close>
  runs over any of them. tests/naive_book.hpp, a plain list of resting orders, is the
  specification all of them are measured against, in the tests and here.

  Conventions. Machine integers are words of their width, so that arithmetic wraps as in C++.
  Every assertion is a constructor of \<open>failure\<close> (Assertions), and an operation that may
  stop at one returns \<open>failure + 'a\<close>; invariant level 1 (the release-checked build) is
  modelled. Classes are records and members are functions from state to state. A vector
  indexed by a whole machine type is a function of the index. Template parameters
  are locale parameters (what the code asks of them) or records of operations
  (\<open>level_ops\<close>, \<open>book_ops\<close>, \<open>observer_ops\<close>).

  The theories, from the bottom.

  \<^item> Prelude, Assertions, Core_Types, Endian, Endian_Values, Hash: include/itch/core and src/assert.cpp. Endian_Values:
    on either kind of host loads and stores read and write the base-256 digits, the most
    significant first, and invert each other; \<open>mix64\<close> is a bijection.

  \<^item> Handles, Pool, Records, Pool_Histories: handle.hpp, pool.hpp, records.hpp. The locale \<open>pool_slot\<close> is the
    concept \<open>PoolSlot\<close>, interpreted for orders and levels; every reachable pool is valid;
    Pool_Histories follows a freed handle through any later use of the pool: it is refused
    until its slot has been reused 128 times, and then accepted again.

  \<^item> Order_Index, _Find, _Erase, _Laws: order_index.hpp. Linear probing with backward-shift
    deletion is a finite map (locale \<open>ref_index\<close>, interpretation \<open>order_ix\<close>).

  \<^item> Messages, Views, Framing, Frame_Reader: wire/messages.hpp, views.hpp, framing.hpp,
    source.hpp. All 23 layouts, accessors and \<open>dispatch\<close>; encoding and decoding are inverse;
    \<open>frames_of\<close> is what a byte string holds, and cursor and reader yield it (locale
    \<open>byte_source\<close>, interpretations \<open>memory\<close> and \<open>disk_file\<close>).
    Fd_Source is \<open>FdSource::read\<close> over the system call as a parameter, Gzip_Source is
    wire/gzip_source.hpp over zlib's \<open>inflate\<close> as a parameter.

  \<^item> Naive_Book, Book_Spec: the list of resting orders, and the contract \<open>order_book\<close> of an
    order book against it: what each operation does or refuses, and every query.

  \<^item> Level_Map: the contract of \<open>BookT\<close>'s template parameter (locale \<open>level_map\<close>).
    Flat_Book is flat_book.hpp over any level map and index hash; Flat_Book_Queue, _Rep, _Add,
    _Reduce and _Ops prove from \<open>level_map\<close> that it is an \<open>order_book\<close> (a sublocale).

  \<^item> Price_Ladder, Ladder_Bits, Price_Ladder_Laws, Ladder_Book: price_ladder.hpp, with its
    bitmap, its overflow map and its rebasing; the interpretation \<open>ladder\<close> makes \<open>FlatBook\<close>.

  \<^item> Avl_Level_Map, Avl_Tree, Avl_Nodes, Avl_Update, Avl_Laws, Avl_Book: avl_level_map.hpp, nodes in
    a vector with a free list, related to pure balanced trees; the interpretation \<open>avl\<close> makes
    \<open>AvlBook\<close>.

  \<^item> Map_Book, Map_Book_Laws: map_book.hpp, interpretation \<open>mapb\<close> of \<open>order_book\<close>.

  \<^item> Book_Views: the price range \<open>ladder_price\<close> accepts in numbers, and what snapshots and
    the crossed test answer, in the books and in the list.

  \<^item> Priority, Matching_Engine, Matching_Laws, Matching_Engine_Laws, Engine_Session, Book_Runs:
    engine/matching_engine.hpp. The loop of \<open>submit\<close> ends and is the sweep of the other side in
    price-time priority; conservation, priority, self-trade prevention, an uncrossed book and
    refusals over whole sessions, over the list and, by simulation, over any book.
    Session_Laws states them once for a book over any level map (what was submitted is filled,
    rests, was pulled or was given up, in the report and in the book), Low_Prices has the sessions
    at prices that only \<open>AvlBook\<close> takes.

  \<^item> Book_Builder, Replay, Replay_Laws, Replay_Feed, Replay_Complete, Replay_Streamed: replay/book_builder.hpp,
    replay/invariants.hpp and the replay of apps/itch_replay.cpp. A feed spells a list of book
    operations and the builder performs them; the locale \<open>observed\<close> says when an observer
    cannot tell a book from the list, and is a sublocale of \<open>order_book\<close> for the replay's
    observer, for none and for the histogram's collector; quantity is conserved. A replay ends
    exactly when the list applies every operation of the feed and, in the strict mode, no
    operation leaves it crossed; a replay from a reader (standard input and .gz) is the
    replay of the bytes it delivers.

  \<^item> Book_Family: the three books side by side: runs, sessions and replays agree, and the depth
    of the AVL trees.

  \<^item> Streamed, Workload, Feed_Stats, Formats, Trailing, Histogram: the loops over a reader, the recorder of
    bench/workload.hpp, apps/itch_stats.cpp with its formatters, apps/itch_histogram.cpp. What
    they count is what the frames and operations of the feed add up to, and reading a stream
    gives what reading the mapped file gives, but for the trailing bytes after a malformed
    frame (Trailing).

  \<^item> Bench_Support: the generator, the samples, the schedule and the timer of
    bench/bench_support.hpp. A draw stays in its range and no value repeats in \<open>2 ^ 64\<close>
    draws; a percentile is the exact one unless a sample was added after the first was taken.

  \<^item> Samples, Tool_Samples: concrete books, sessions, feeds and streams for the witnesses.

  Fuel. A loop whose end is a theorem takes fuel and returns \<open>Diverges\<close> without it: probing,
  the capacity of the table; the walks of a pooled book and of the trees, the number of
  slots or nodes; the matching loop, one unit for each resting order and one more; \<open>drive\<close> and the other
  loops over frames, the length of the input and one more, since every frame takes at least
  three bytes; a read of the gzip source, the bytes of compressed input left and of room asked
  for and one more; a read of a descriptor, the bytes asked for, the interrupts to come and
  one more. The theorems show that these are enough.

  Bounds. A pool has at most \<open>2 ^ 24\<close> slots and an index fills at most half its table; the
  theorems about runs ask for room (\<open>room_for_all\<close>, \<open>feed_room\<close>). The ladder's theorems
  hold for the prices \<open>ladder_price\<close> accepts, half a window away from the ends of the 32-bit
  range: \<open>204800 \<le> p < 2 ^ 32 - 204800\<close>, from 20.48 up. Nearer to the lower end the ladder can
  lose a level, as a property below shows, so that the properties of \<open>FlatBook\<close> state this range;
  those of \<open>AvlBook\<close> and \<open>MapBook\<close> hold for every price but zero. \<open>MapBook\<close> is for fewer than \<open>2 ^ 32\<close> orders, whose
  number is a 32-bit counter.

  Not modelled. zlib and the system calls behind \<open>MappedFile\<close>, opening, moving and closing of
  descriptors (parameters or left out: their code is not in the repository); \<open>prefault\<close>, which
  writes bytes to themselves; the write-only counters of probes and lookups; the field order
  and padding that the record layouts switch; command lines, printing, elapsed time and the
  shares and quantile targets computed in floating point; the timing harnesses
  bench/bench_*.cpp and the hardware counters of bench_support.hpp, whose results are of a
  clock and a machine; tests and the generator of views, whose output is what Messages and Views model.
  Aliasing of a view with the buffer it points into is not modelled: a frame is the bytes it
  had when it was returned.
\<close>

text \<open>
  C1. The production book refines its specification: a \<open>FlatBook\<close> on price ladders, with
  either index hash, constructed with capacities its tables allow and run through any
  operations that find room and whose prices \<open>p\<close> satisfy \<open>204800 \<le> p < 2 ^ 32 - 204800\<close> (20.48
  dollars up to just below the top of the range), stops exactly where the list of resting
  orders refuses, with the same assertion, and otherwise answers every query, the snapshots
  at every depth, \<open>crossed\<close> and the digest as the list does and passes \<open>validate\<close>. No pool,
  index or ladder assertion fires. Below 20.48 this is false of the code, as \<open>ladder_level_stranded\<close>
  shows.
\<close>

theorem flat_book_refines:
  assumes "capacities_ok oc lc ic"
    and "room_for_all (book_room oc lc ic) (\<lambda>p. 204800 \<le> unat p \<and> unat p < 2 ^ 32 - 204800) xs []"
  shows "\<exists>b. book_new ladder_ops oc lc ic = Inr b \<and>
    (case run_ops naive_ops xs [] of
       Inl f \<Rightarrow> run_ops (flat_ops ladder_ops H) xs b = Inl f
     | Inr rs \<Rightarrow> \<exists>b'. run_ops (flat_ops ladder_ops H) xs b = Inr b' \<and> answers_as (flat_ops ladder_ops H) b' rs \<and>
         bk_crossed ladder_ops b' = nb_crossed rs \<and>
         (\<forall>s depth. bk_snapshot ladder_ops b' s depth = Inr (nb_snapshot rs s depth)))"
proof -
  have room: "room_for_all (book_room oc lc ic) ladder_price xs []" using assms(2) unfolding ladder_price_range .
  obtain b where b: "book_new ladder_ops oc lc ic = Inr b" using ladder.flat_start [OF assms(1)] by blast
  from ladder.runs_refine [OF assms(1) room b, of H] b show ?thesis
    by (intro exI [of _ b]) (auto simp: flat_book_views split: sum.splits)
qed

theorem flat_book_refines_witness:
  "\<exists>b b'. book_new ladder_ops 8 8 8 = Inr b \<and> run_ops (flat_ops ladder_ops Mixed) sample_ops b = Inr b' \<and>
     bo_best (flat_ops ladder_ops Mixed) b' Buy = 1000000 \<and> bo_validate (flat_ops ladder_ops Mixed) b' = Inr () \<and>
     bk_snapshot ladder_ops b' Buy 1 = Inr [(1000000, 70, 1)]"
proof -
  let ?rs = "[\<lparr>r_ref = 1, r_side = Buy, r_price = 1000000, r_qty = 70, r_owner = 7\<rparr>,
     \<lparr>r_ref = 3, r_side = Buy, r_price = 990000, r_qty = 40, r_owner = 8\<rparr>] :: naive_book"
  have "room_for_all (book_room 8 8 8) (\<lambda>p. 204800 \<le> unat p \<and> unat p < 2 ^ 32 - 204800) sample_ops []"
    using sample_room sample_capacity by (simp only: ladder_price_range)
  from flat_book_refines [OF sample_capacity(1) this, of Mixed] obtain b b' where
    b: "book_new ladder_ops 8 8 8 = Inr b" "run_ops (flat_ops ladder_ops Mixed) sample_ops b = Inr b'"
      "answers_as (flat_ops ladder_ops Mixed) b' ?rs" "bk_snapshot ladder_ops b' Buy 1 = Inr (nb_snapshot ?rs Buy 1)"
    unfolding sample_ops_run by auto
  have "nb_snapshot ?rs Buy 1 = [(1000000, 70, 1)]" "nb_best ?rs Buy = 1000000" by code_simp+
  with b show ?thesis by (auto simp: answers_as_def)
qed

text \<open>
  C2. The error behaviour of the book, on every state it can live into: an operation on a
  reference that does not rest stops with that operation's own message; taking more than an
  order has stops with "too much"; adding nothing, or a reference that rests, is refused.
  The adds concerned are at prices the book accepts and find room.
\<close>

theorem flat_book_refusals:
  assumes "lived ladder_ops ladder_price H n xs b rs"
  shows "(\<forall>ref q. ref \<notin> r_ref ` set rs \<longrightarrow>
      bk_cancel ladder_ops H ref q b = Inl (BookF CancelMissing) \<and>
      bk_execute ladder_ops H ref q b = Inl (BookF ExecuteMissing) \<and>
      bk_remove ladder_ops H ref b = Inl (BookF DeleteMissing) \<and>
      (\<forall>p new. ladder_price p \<longrightarrow> length rs \<le> n \<longrightarrow>
        bk_replace ladder_ops H ref new p q b = Inl (BookF ReplaceMissing))) \<and>
    (\<forall>x \<in> set rs. \<forall>q. r_qty x < q \<longrightarrow>
      bk_cancel ladder_ops H (r_ref x) q b = Inl (BookF CancelTooMuch) \<and>
      bk_execute ladder_ops H (r_ref x) q b = Inl (BookF ExecuteTooMuch)) \<and>
    (\<forall>ref s p q ow. ladder_price p \<longrightarrow> length rs < n \<longrightarrow>
      bk_add ladder_ops H ref s p 0 ow b = Inl (BookF NoQuantity) \<and>
      (ref \<in> r_ref ` set rs \<longrightarrow> q \<noteq> 0 \<longrightarrow> bk_add ladder_ops H ref s p q ow b = Inl (BookF AddedTwice)))"
proof -
  note rep = ladder.lived_rep [OF assms]
  note wf = ladder.flat.rep_book_wf [OF rep(1)]
  note laws = ladder.flat.cancel_law [OF rep(1)] ladder.flat.execute_law [OF rep(1)]
    ladder.flat.remove_law [OF rep(1)] ladder.flat.replace_law [OF rep(1)] ladder.flat.add_law [OF rep(1)]
  have missing: "sb_require rs ref what = Inl (BookF what)" if "ref \<notin> r_ref ` set rs" for ref what
    by (rule sb_require_missing [OF wf that])
  have there: "sb_require rs (r_ref x) what = Inr x" if "x \<in> set rs" for x what
    by (rule sb_require_front [OF wf that])
  have refused: "rel_sum (=) R y (Inl f) \<Longrightarrow> y = Inl f" for R y and f :: failure by (cases y) auto
  show ?thesis
  proof (intro conjI allI impI ballI)
    fix ref q new p
    assume ref: "ref \<notin> r_ref ` set rs"
    show "bk_cancel ladder_ops H ref q b = Inl (BookF CancelMissing)"
      using laws(1) [of ref q] by (auto simp: sb_cancel_def missing [OF ref] flat_ops_def dest: refused)
    show "bk_execute ladder_ops H ref q b = Inl (BookF ExecuteMissing)"
      using laws(2) [of ref q] by (auto simp: sb_execute_def missing [OF ref] flat_ops_def dest: refused)
    show "bk_remove ladder_ops H ref b = Inl (BookF DeleteMissing)"
      using laws(3) [of ref] by (auto simp: sb_remove_def missing [OF ref] flat_ops_def dest: refused)
    assume "ladder_price p" "length rs \<le> n"
    then show "bk_replace ladder_ops H ref new p q b = Inl (BookF ReplaceMissing)"
      using laws(4) [of p ref new q] rep(2) by (auto simp: sb_replace_def missing [OF ref] flat_ops_def dest: refused)
  next
    fix x q
    assume "x \<in> set rs" "r_qty x < q"
    then have "x \<in> set rs" "\<not> q \<le> r_qty x" by simp_all
    then show "bk_cancel ladder_ops H (r_ref x) q b = Inl (BookF CancelTooMuch)"
      "bk_execute ladder_ops H (r_ref x) q b = Inl (BookF ExecuteTooMuch)"
      using laws(1) [of "r_ref x" q] laws(2) [of "r_ref x" q]
      by (auto simp: sb_cancel_def sb_execute_def there flat_ops_def dest: refused)
  next
    fix ref s p ow and q :: qty
    assume p: "ladder_price p" "length rs < n"
    then show "bk_add ladder_ops H ref s p 0 ow b = Inl (BookF NoQuantity)"
      using laws(5) [of p ref s 0 ow] rep(2) by (auto simp: sb_add_def flat_ops_def dest: refused)
    assume "ref \<in> r_ref ` set rs" "q \<noteq> 0"
    then show "bk_add ladder_ops H ref s p q ow b = Inl (BookF AddedTwice)"
      using laws(5) [of p ref s q ow] rep(2) p by (auto simp: sb_add_def nb_contains_iff flat_ops_def dest: refused)
  qed
qed

theorem flat_book_refusals_witness:
  "\<exists>b. bk_cancel ladder_ops Identity 2 5 b = Inl (BookF CancelMissing) \<and>
     bk_remove ladder_ops Identity 9 b = Inl (BookF DeleteMissing) \<and>
     bk_execute ladder_ops Identity 1 71 b = Inl (BookF ExecuteTooMuch) \<and>
     bk_add ladder_ops Identity 3 Sell 1000000 5 0 b = Inl (BookF AddedTwice)"
proof -
  let ?rs = "[\<lparr>r_ref = 1, r_side = Buy, r_price = 1000000, r_qty = 70, r_owner = 7\<rparr>,
     \<lparr>r_ref = 3, r_side = Buy, r_price = 990000, r_qty = 40, r_owner = 8\<rparr>] :: naive_book"
  obtain b where b: "lived ladder_ops ladder_price Identity 8 sample_ops b ?rs" using sample_lived by blast
  have "ladder_price 1000000" by (simp add: ladder_price_def)
  with flat_book_refusals [OF b] show ?thesis by (intro exI [of _ b]) simp
qed

text \<open>
  C3. \<open>FlatBookMixed\<close> and \<open>FlatBookIdentity\<close> are the same book: any run that finds room
  ends at the same assertion in both, or in books with the same digest, depth and best prices.
\<close>

theorem index_hash_irrelevant:
  assumes "capacities_ok oc lc ic" and "room_for_all (book_room oc lc ic) ladder_price xs []"
    and "book_new ladder_ops oc lc ic = Inr b"
  shows "rel_sum (=) (\<lambda>b1 b2. book_digest (flat_ops ladder_ops Mixed) b1 = book_digest (flat_ops ladder_ops Identity) b2 \<and>
      (\<forall>s. bk_best_price b1 s = bk_best_price b2 s \<and> bk_levels_of ladder_ops b1 s = bk_levels_of ladder_ops b2 s))
    (run_ops (flat_ops ladder_ops Mixed) xs b) (run_ops (flat_ops ladder_ops Identity) xs b)"
proof -
  have run: "rel_sum (=) (\<lambda>b' rs. answers_as (flat_ops ladder_ops H) b' rs)
      (run_ops (flat_ops ladder_ops H) xs b) (run_ops naive_ops xs [])" for H
    using ladder.flat_runs [OF assms(1,2), of H] assms(3) by (auto intro: rel_sum_strengthen)
  show ?thesis
    using run [of Mixed] run [of Identity]
    by (cases "run_ops (flat_ops ladder_ops Mixed) xs b"; cases "run_ops (flat_ops ladder_ops Identity) xs b";
        cases "run_ops naive_ops xs []") (simp_all add: answers_as_def flat_ops_def)
qed

theorem index_hash_irrelevant_witness:
  "\<exists>b. book_new ladder_ops 8 8 8 = Inr b \<and>
    rel_sum (=) (\<lambda>b1 b2. book_digest (flat_ops ladder_ops Mixed) b1 = book_digest (flat_ops ladder_ops Identity) b2 \<and>
      (\<forall>s. bk_best_price b1 s = bk_best_price b2 s \<and> bk_levels_of ladder_ops b1 s = bk_levels_of ladder_ops b2 s))
    (run_ops (flat_ops ladder_ops Mixed) sample_ops b) (run_ops (flat_ops ladder_ops Identity) sample_ops b)"
proof -
  have "room_for_all (book_room 8 8 8) ladder_price sample_ops []" using sample_room sample_capacity by simp
  moreover obtain b where "book_new ladder_ops 8 8 8 = Inr b"
    using ladder.flat_start [OF sample_capacity(1)] by blast
  ultimately show ?thesis using index_hash_irrelevant [OF sample_capacity(1)] by blast
qed

text \<open>
  C4. Below 20.48 the ladder loses levels: inserting an ask level at 100.00 and then one
  at 10.00 into a new ladder succeeds and leaves two levels of which the second is the best,
  yet \<open>find\<close> answers null for it and \<open>validate\<close> stops, because the bound \<open>lo_price\<close> of
  the walk over the ordered map wrapped below zero.
\<close>

theorem ladder_level_stranded:
  "\<exists>l1 l. ladder_insert (ladder_new Sell) 1000000 (Handle 257) = Inr l1 \<and>
     ladder_insert l1 100000 (Handle 513) = Inr l \<and> pl_levels l = 2 \<and> ladder_best l = Inr 100000 \<and>
     ladder_find l 100000 = null_handle \<and> ladder_validate l = Inl (LevelsF InWindowOverflow)"
  using insert_first insert_second stranded_level by (auto simp: second_level_def)

text \<open>
  C5. The engine over the production books: a session of at most as many requests as the
  book has room for yields the same fills in the same order as over the list of resting
  orders, or stops at the same assertion, and the book it leaves answers as the list and
  passes \<open>validate\<close>. Over \<open>FlatBook\<close> this is claimed of limit prices \<open>p\<close> with
  \<open>204800 \<le> p < 2 ^ 32 - 204800\<close>, from 20.48 up (\<open>ladder_price\<close>): below, the ladder can lose a
  level and the engine then asserts where the list fills. Over \<open>AvlBook\<close> it holds of every
  nonzero price (\<open>avl_price\<close>). Market and immediate-or-cancel orders are not restricted.
\<close>

theorem sessions_refine:
  assumes "capacities_ok oc lc ic" and "length rs \<le> book_room oc lc ic"
    and "book_new ladder_ops oc lc ic = Inr b1" and "book_new avl_ops oc lc ic = Inr b2"
  shows "((\<forall>r \<in> set rs. priced ladder_price r) \<longrightarrow>
      rel_sum (=) (\<lambda>(e, fs) (n, gs). fs = gs \<and> answers_as (flat_ops ladder_ops H) (en_book e) (en_book n))
        (serve_all (flat_ops ladder_ops H) rs (engine_new b1 stp)) (serve_all naive_ops rs (engine_new [] stp))) \<and>
    ((\<forall>r \<in> set rs. priced avl_price r) \<longrightarrow>
      rel_sum (=) (\<lambda>(e, fs) (n, gs). fs = gs \<and> answers_as (flat_ops avl_ops H) (en_book e) (en_book n))
        (serve_all (flat_ops avl_ops H) rs (engine_new b2 stp)) (serve_all naive_ops rs (engine_new [] stp)))"
  using ladder.session_refines [OF assms(1,2) _ assms(3)] avl.session_refines [OF assms(1,2) _ assms(4)] by blast

theorem sessions_refine_witness:
  "\<exists>b1 b2. book_new ladder_ops 8 8 8 = Inr b1 \<and> book_new avl_ops 8 8 8 = Inr b2 \<and>
    rel_sum (=) (\<lambda>(e, fs) (n, gs). fs = gs \<and> answers_as (flat_ops ladder_ops Mixed) (en_book e) (en_book n))
      (serve_all (flat_ops ladder_ops Mixed) sample_asks (engine_new b1 CancelOldest))
      (serve_all naive_ops sample_asks (engine_new [] CancelOldest)) \<and>
    rel_sum (=) (\<lambda>(e, fs) (n, gs). fs = gs \<and> answers_as (flat_ops avl_ops Mixed) (en_book e) (en_book n))
      (serve_all (flat_ops avl_ops Mixed) low_asks (engine_new b2 CancelOldest))
      (serve_all naive_ops low_asks (engine_new [] CancelOldest))"
proof -
  obtain b1 b2 where b: "book_new ladder_ops 8 8 8 = Inr b1" "book_new avl_ops 8 8 8 = Inr b2" using sample_books by blast
  have "length sample_asks \<le> book_room 8 8 8" "length low_asks \<le> book_room 8 8 8"
    "\<forall>r \<in> set sample_asks. priced ladder_price r"
    by (simp_all add: sample_asks_def low_asks_def sample_capacity ladder_price_def)
  with sessions_refine [OF sample_capacity(1) _ b] low_asks_priced b show ?thesis by blast
qed

text \<open>
  C6. Whatever a session submits and withdraws at the prices the book takes, when both
  sides of the book are occupied the best bid is below the best ask. The prices \<open>FlatBook\<close>
  takes are those with \<open>204800 \<le> p < 2 ^ 32 - 204800\<close>, from 20.48 up; below, a level the ladder
  has lost can leave a bid and an ask at the same price. Over \<open>AvlBook\<close> every nonzero price
  will do.
\<close>

theorem never_crossed:
  "(served ladder_ops ladder_price H stp rs e n \<longrightarrow>
      \<not> bk_empty ladder_ops (en_book e) Buy \<longrightarrow> \<not> bk_empty ladder_ops (en_book e) Sell \<longrightarrow>
      bk_best_price (en_book e) Buy < bk_best_price (en_book e) Sell) \<and>
   (served avl_ops avl_price H stp rs d n \<longrightarrow>
      \<not> bk_empty avl_ops (en_book d) Buy \<longrightarrow> \<not> bk_empty avl_ops (en_book d) Sell \<longrightarrow>
      bk_best_price (en_book d) Buy < bk_best_price (en_book d) Sell)"
  using ladder.touch_uncrossed avl.touch_uncrossed by blast

theorem never_crossed_witness:
  "(\<exists>e n. served ladder_ops ladder_price Mixed Off sample_both e n \<and>
     \<not> bk_empty ladder_ops (en_book e) Buy \<and> \<not> bk_empty ladder_ops (en_book e) Sell \<and>
     bk_best_price (en_book e) Buy < bk_best_price (en_book e) Sell) \<and>
   (\<exists>d n. served avl_ops avl_price Mixed Off low_both d n \<and>
     \<not> bk_empty avl_ops (en_book d) Buy \<and> \<not> bk_empty avl_ops (en_book d) Sell \<and>
     bk_best_price (en_book d) Buy < bk_best_price (en_book d) Sell)"
proof -
  obtain e n where s: "served ladder_ops ladder_price Mixed Off sample_both e n" "en_book n = sample_two_sided"
    using sample_served_both by blast
  then have "\<not> bk_empty ladder_ops (en_book e) Buy" "\<not> bk_empty ladder_ops (en_book e) Sell"
    using ladder.served_state(7) [OF s(1)] by (simp_all add: answers_as_def flat_ops_def nb_empty_def sample_two_sided_def sample_book_def)
  moreover obtain d m where t: "served avl_ops avl_price Mixed Off low_both d m" "en_book m = low_two_sided"
    using low_both_served by blast
  then have "\<not> bk_empty avl_ops (en_book d) Buy" "\<not> bk_empty avl_ops (en_book d) Sell"
    using avl.served_state(7) [OF t(1)] by (simp_all add: answers_as_def flat_ops_def nb_empty_def low_two_sided_def low_book_def)
  ultimately show ?thesis using s(1) t(1) never_crossed by blast
qed

text \<open>
  C7. \<open>submit\<close> is total and functional: in any state a session reaches with room for one
  more order, submitting an order with a quantity (and a price, if it is a limit order)
  returns, with the fuel the model gives its loop, and its report and its fills are exactly
  those of one sweep along the other side in price-time priority. The condition on prices:
  over \<open>FlatBook\<close> the limit orders of the session and the order itself, if it may rest, have
  \<open>204800 \<le> p < 2 ^ 32 - 204800\<close>, from 20.48 up; below, asks at 100.00 and then 10.00 make the
  next bid assert. Over \<open>AvlBook\<close> they have any price but zero.
\<close>

theorem submit_is_the_sweep:
  assumes "accepted o'"
  shows "(served ladder_ops ladder_price H stp rs e n \<and> priced ladder_price (Submit o') \<longrightarrow>
      (\<exists>e'. submit (flat_ops ladder_ops H) o' fills e =
        Inr (e', report_of o' (en_next_ref e) (sweep_of o' n), fills @ sw_fills (sweep_of o' n)))) \<and>
    (served avl_ops avl_price H stp rs d n \<and> priced avl_price (Submit o') \<longrightarrow>
      (\<exists>d'. submit (flat_ops avl_ops H) o' fills d =
        Inr (d', report_of o' (en_next_ref d) (sweep_of o' n), fills @ sw_fills (sweep_of o' n))))"
  using ladder.submit_returns [OF _ assms] avl.submit_returns [OF _ assms] by blast

theorem submit_is_the_sweep_witness:
  "(\<exists>e n e' rp fs. served ladder_ops ladder_price Mixed Off sample_asks e n \<and>
     submit (flat_ops ladder_ops Mixed) (sample_bid Limit 1010000 120 9) [] e = Inr (e', rp, fs) \<and>
     rp_outcome rp = FilledComplete \<and> map f_resting fs = [1, 2] \<and> map f_qty fs = [100, 20] \<and>
     map f_price fs = [1000000, 1010000]) \<and>
   (\<exists>d n d' rp fs. served avl_ops avl_price Mixed Off low_asks d n \<and>
     submit (flat_ops avl_ops Mixed) (sample_bid Limit 100000 60 9) [] d = Inr (d', rp, fs) \<and>
     rp_outcome rp = Rested \<and> map f_resting fs = [2] \<and> map f_price fs = [100000])"
proof
  let ?o = "sample_bid Limit 1010000 120 9"
  obtain e n where s: "served ladder_ops ladder_price Mixed Off sample_asks e n" "en_book n = sample_book"
    using sample_served by blast
  have w: "sw_fills (sweep_of ?o n) = [fill_of ?o (sample_book ! 0) 100, fill_of ?o (sample_book ! 1) 20]"
    "sw_left (sweep_of ?o n) = 0" "\<not> sw_stopped (sweep_of ?o n)"
    using sample_sweep(1) ladder.served_state(4) [OF s(1)] s(2) by (simp_all add: sweep_of_def)
  have "accepted ?o" "priced ladder_price (Submit ?o)" by (simp_all add: accepted_def sample_bid_def ladder_price_def)
  with submit_is_the_sweep [of ?o Mixed Off sample_asks e n "[]"] s(1)
  obtain e' where "submit (flat_ops ladder_ops Mixed) ?o [] e =
    Inr (e', report_of ?o (en_next_ref e) (sweep_of ?o n), sw_fills (sweep_of ?o n))" by auto
  moreover have "rp_outcome (report_of ?o (en_next_ref e) (sweep_of ?o n)) = FilledComplete"
    using w by (simp add: report_of_def outcome_of_def)
  moreover have "map f_resting (sw_fills (sweep_of ?o n)) = [1, 2]" "map f_qty (sw_fills (sweep_of ?o n)) = [100, 20]"
    "map f_price (sw_fills (sweep_of ?o n)) = [1000000, 1010000]"
    unfolding w(1) by (simp_all add: fill_of_def sample_book_def)
  ultimately show "\<exists>e n e' rp fs. served ladder_ops ladder_price Mixed Off sample_asks e n \<and>
     submit (flat_ops ladder_ops Mixed) ?o [] e = Inr (e', rp, fs) \<and>
     rp_outcome rp = FilledComplete \<and> map f_resting fs = [1, 2] \<and> map f_qty fs = [100, 20] \<and>
     map f_price fs = [1000000, 1010000]"
    using s(1) by (intro exI conjI)
next
  let ?o = "sample_bid Limit 100000 60 9"
  obtain d n where s: "served avl_ops avl_price Mixed Off low_asks d n" "en_book n = low_book"
    using low_served by blast
  have w: "sw_fills (sweep_of ?o n) = [fill_of ?o (low_book ! 1) 50]" "sw_left (sweep_of ?o n) = 10" "\<not> sw_stopped (sweep_of ?o n)"
    using low_sweep avl.served_state(4) [OF s(1)] s(2) by (simp_all add: sweep_of_def)
  have "accepted ?o" "priced avl_price (Submit ?o)" by (simp_all add: accepted_def sample_bid_def avl_price_def kNoPrice_def)
  with submit_is_the_sweep [of ?o Mixed Off low_asks _ n "[]" d] s(1)
  obtain d' where "submit (flat_ops avl_ops Mixed) ?o [] d =
    Inr (d', report_of ?o (en_next_ref d) (sweep_of ?o n), sw_fills (sweep_of ?o n))" by auto
  moreover have "rp_outcome (report_of ?o (en_next_ref d) (sweep_of ?o n)) = Rested"
    using w by (simp add: report_of_def outcome_of_def sample_bid_def)
  moreover have "map f_resting (sw_fills (sweep_of ?o n)) = [2]" "map f_price (sw_fills (sweep_of ?o n)) = [100000]"
    unfolding w(1) by (simp_all add: fill_of_def low_book_def)
  ultimately show "\<exists>d n d' rp fs. served avl_ops avl_price Mixed Off low_asks d n \<and>
     submit (flat_ops avl_ops Mixed) ?o [] d = Inr (d', rp, fs) \<and>
     rp_outcome rp = Rested \<and> map f_resting fs = [2] \<and> map f_price fs = [100000]"
    using s(1) by (intro exI conjI)
qed

text \<open>
  C8. Conservation (\<open>accounted\<close>): the fills of a submission add up, without wrapping, to the
  report's filled quantity; a filled order is filled to its full quantity; a rested one rests
  with exactly the rest; a cancelled one is a market or immediate-or-cancel order with some
  quantity left, a rejected one met self-trade prevention, and of neither anything rests. The
  book's total on the order's own side grows by the quantity rested, and, with prevention off
  or cancelling the newest, its total on the other side falls by the quantity filled. Prices
  are as everywhere: \<open>204800 \<le> p < 2 ^ 32 - 204800\<close> over \<open>FlatBook\<close>, nonzero over \<open>AvlBook\<close>.
\<close>

theorem nothing_lost:
  "(served ladder_ops ladder_price H stp rs e n \<and> priced ladder_price (Submit o') \<and>
      submit (flat_ops ladder_ops H) o' [] e = Inr (e', rp, fs) \<longrightarrow>
      accounted stp o' rp fs (bk_total_qty (en_book e)) (bk_total_qty (en_book e'))) \<and>
   (served avl_ops avl_price H stp rs d n \<and> priced avl_price (Submit o') \<and>
      submit (flat_ops avl_ops H) o' [] d = Inr (d', rp, fs) \<longrightarrow>
      accounted stp o' rp fs (bk_total_qty (en_book d)) (bk_total_qty (en_book d')))"
  using ladder.submission_accounted avl.submission_accounted by blast

theorem nothing_lost_witness:
  "\<exists>e n e' rp fs. served ladder_ops ladder_price Mixed Off sample_asks e n \<and>
     submit (flat_ops ladder_ops Mixed) (sample_bid Limit 1000000 120 9) [] e = Inr (e', rp, fs) \<and>
     accounted Off (sample_bid Limit 1000000 120 9) rp fs (bk_total_qty (en_book e)) (bk_total_qty (en_book e'))"
proof -
  let ?o = "sample_bid Limit 1000000 120 9"
  obtain e n where s: "served ladder_ops ladder_price Mixed Off sample_asks e n" using sample_served by blast
  have p: "accepted ?o" "priced ladder_price (Submit ?o)"
    by (simp_all add: accepted_def sample_bid_def ladder_price_def)
  from ladder.served_submit [OF s p, of "[]"] obtain e' rp fs where
    r: "submit (flat_ops ladder_ops Mixed) ?o [] e = Inr (e', rp, fs)" by blast
  with nothing_lost s p(2) show ?thesis by blast
qed

text \<open>
  C9. No trade-through: with prevention off, the fills of a submission are the first
  \<open>k\<close> resting orders of the other side in price-time priority, each in full, followed by
  at most one partial fill of the next; every fill is at the resting order's price, and that
  price is within the aggressor's limit. It holds over \<open>FlatBook\<close> when the limit prices are
  \<open>204800 \<le> p < 2 ^ 32 - 204800\<close>, from 20.48 up (below, the ladder can lose a level and serve its
  orders out of turn), and over \<open>AvlBook\<close> at every nonzero price.
\<close>

theorem price_time_priority:
  assumes "served ladder_ops ladder_price H Off rs e n \<and> priced ladder_price (Submit o') \<and>
        submit (flat_ops ladder_ops H) o' [] e = Inr (e', rp, fs) \<or>
      served avl_ops avl_price H Off rs d n \<and> priced avl_price (Submit o') \<and>
        submit (flat_ops avl_ops H) o' [] d = Inr (d', rp, fs)"
  defines "xs \<equiv> priority (opposite (no_side o')) (en_book n)"
  shows "(\<exists>k q. fs = whole_fills o' (take k xs) \<or>
      (k < length xs \<and> q \<noteq> 0 \<and> q < r_qty (xs ! k) \<and> fs = whole_fills o' (take k xs) @ [fill_of o' (xs ! k) q])) \<and>
    (\<forall>f \<in> set fs. crosses o' (f_price f))"
  using assms(1)
proof (elim disjE conjE)
  assume "served ladder_ops ladder_price H Off rs e n" "priced ladder_price (Submit o')"
    "submit (flat_ops ladder_ops H) o' [] e = Inr (e', rp, fs)"
  from ladder.fills_in_priority [OF this] show ?thesis unfolding xs_def by (rule conjI)
next
  assume "served avl_ops avl_price H Off rs d n" "priced avl_price (Submit o')"
    "submit (flat_ops avl_ops H) o' [] d = Inr (d', rp, fs)"
  from avl.fills_in_priority [OF this] show ?thesis unfolding xs_def by (rule conjI)
qed

theorem price_time_priority_witness:
  "\<exists>d n d' rp fs. served avl_ops avl_price Mixed Off low_asks d n \<and>
     submit (flat_ops avl_ops Mixed) (sample_bid Limit 100000 60 9) [] d = Inr (d', rp, fs) \<and>
     (\<forall>f \<in> set fs. f_price f \<le> 100000)"
proof -
  let ?o = "sample_bid Limit 100000 60 9"
  obtain d n where s: "served avl_ops avl_price Mixed Off low_asks d n" using low_served by blast
  have p: "accepted ?o" "priced avl_price (Submit ?o)"
    by (simp_all add: accepted_def sample_bid_def avl_price_def kNoPrice_def)
  from avl.served_submit [OF s p, of "[]"] obtain d' rp fs where
    r: "submit (flat_ops avl_ops Mixed) ?o [] d = Inr (d', rp, fs)" by blast
  have "\<forall>f \<in> set fs. crosses ?o (f_price f)" using price_time_priority s p(2) r by blast
  with s r show ?thesis by (auto simp: sample_bid_def crosses_def)
qed

text \<open>
  C10. Self-trade prevention works: in every mode but \<open>Off\<close> no fill has the aggressor's
  owner on both sides, unless that owner is zero.
\<close>

theorem no_self_trade:
  assumes "served ladder_ops ladder_price H stp rs e n" and "stp \<noteq> Off" and "priced ladder_price (Submit o')"
    and "submit (flat_ops ladder_ops H) o' [] e = Inr (e', rp, fs)"
  shows "\<forall>f \<in> set fs. f_aggressor_owner f = no_owner o' \<and> (f_resting_owner f = f_aggressor_owner f \<longrightarrow> f_aggressor_owner f = 0)"
proof -
  let ?xs = "priority (opposite (no_side o')) (en_book n)"
  have fs: "fs = sw_fills (sweep stp o' ?xs (no_qty o'))"
    using ladder.served_report(2) [OF assms(1,3,4)] ladder.served_state(4) [OF assms(1)] by (simp add: sweep_of_def)
  note q = ladder.served_quantities [OF assms(1), of "opposite (no_side o')"]
  show ?thesis
  proof
    fix f
    assume "f \<in> set fs"
    then obtain x m where "f = fill_of o' x m" "\<not> own_order stp o' x"
      using sweep_fills [OF _ q] unfolding fs by blast
    then show "f_aggressor_owner f = no_owner o' \<and> (f_resting_owner f = f_aggressor_owner f \<longrightarrow> f_aggressor_owner f = 0)"
      using assms(2) by (auto simp: fill_of_def own_order_def)
  qed
qed

theorem no_self_trade_witness:
  "\<exists>e n e' rp fs. served ladder_ops ladder_price Mixed CancelOldest sample_asks e n \<and>
     submit (flat_ops ladder_ops Mixed) (sample_bid Limit 1010000 120 7) [] e = Inr (e', rp, fs) \<and>
     fs \<noteq> [] \<and> (\<forall>f \<in> set fs. f_resting_owner f \<noteq> 7)"
proof -
  let ?o = "sample_bid Limit 1010000 120 7"
  obtain e n where s: "served ladder_ops ladder_price Mixed CancelOldest sample_asks e n" "en_book n = sample_book"
    using sample_served by blast
  have p: "accepted ?o" "priced ladder_price (Submit ?o)"
    by (simp_all add: accepted_def sample_bid_def ladder_price_def)
  have w: "sw_fills (sweep_of ?o n) \<noteq> []"
    using sample_sweep(2) ladder.served_state(4) [OF s(1)] s(2) by (simp add: sweep_of_def)
  from ladder.served_submit [OF s(1) p, of "[]"] obtain e' rp where
    r: "submit (flat_ops ladder_ops Mixed) ?o [] e = Inr (e', rp, sw_fills (sweep_of ?o n))" by fastforce
  have "\<forall>f \<in> set (sw_fills (sweep_of ?o n)). f_resting_owner f \<noteq> 7"
    using no_self_trade [OF s(1) _ p(2) r] by (auto simp: sample_bid_def)
  with s(1) r w show ?thesis by blast
qed

text \<open>
  C11. Progress: with prevention off, an order whose quantity is covered by the resting
  quantity within its limit is filled completely, whatever its type and time in force. Over
  \<open>FlatBook\<close> the limit prices are \<open>204800 \<le> p < 2 ^ 32 - 204800\<close>, from 20.48 up: with a level the
  ladder has lost the engine asserts although the depth is there. Over \<open>AvlBook\<close> they are
  nonzero.
\<close>

theorem enough_depth_fills:
  assumes "accepted o'" and "unat (no_qty o') \<le> depth_for o' (priority (opposite (no_side o')) (en_book n))"
  shows "(served ladder_ops ladder_price H Off rs e n \<and> priced ladder_price (Submit o') \<longrightarrow>
      (\<exists>e' rp fs. submit (flat_ops ladder_ops H) o' fills e = Inr (e', rp, fs) \<and>
        rp_outcome rp = FilledComplete \<and> rp_filled rp = no_qty o')) \<and>
    (served avl_ops avl_price H Off rs d n \<and> priced avl_price (Submit o') \<longrightarrow>
      (\<exists>d' rp fs. submit (flat_ops avl_ops H) o' fills d = Inr (d', rp, fs) \<and>
        rp_outcome rp = FilledComplete \<and> rp_filled rp = no_qty o'))"
  using ladder.depth_fills [OF _ assms(1) _ assms(2)] avl.depth_fills [OF _ assms(1) _ assms(2)] by blast

theorem enough_depth_fills_witness:
  "\<exists>e n e' rp fs. served ladder_ops ladder_price Mixed Off sample_asks e n \<and>
     submit (flat_ops ladder_ops Mixed) (sample_bid Market 0 150 9) [] e = Inr (e', rp, fs) \<and>
     rp_outcome rp = FilledComplete"
proof -
  obtain e n where s: "served ladder_ops ladder_price Mixed Off sample_asks e n" "en_book n = sample_book"
    using sample_served by blast
  have "depth_for (sample_bid Market 0 150 9) (priority Sell sample_book) = 150"
    unfolding sample_priority by (simp add: depth_for_def sample_book_def sample_bid_def crosses_def)
  then have d: "unat (no_qty (sample_bid Market 0 150 9)) \<le>
      depth_for (sample_bid Market 0 150 9) (priority (opposite (no_side (sample_bid Market 0 150 9))) (en_book n))"
    by (simp add: s(2) sample_bid_def)
  have "accepted (sample_bid Market 0 150 9)" "priced ladder_price (Submit (sample_bid Market 0 150 9))"
    by (simp_all add: accepted_def sample_bid_def)
  with enough_depth_fills [OF this(1) d, of Mixed sample_asks e "[]"] s(1) show ?thesis by blast
qed



text \<open>
  C13. The three books are one book where the ladder takes the prices, \<open>204800 \<le> p < 2 ^ 32 -
  204800\<close> (from 20.48 up): run from construction through any operations, as many orders as the
  capacities hold, the book on price ladders, the book on AVL trees and the book on ordered
  maps stop at the same assertion, or end with the same digest, the same best prices and the
  same levels, quantities and queues. Below 20.48, where cancelling on a level the ladder has
  lost asserts, only the other two agree, as they do at every nonzero price.
\<close>

theorem books_agree:
  assumes "capacities_ok oc lc ic"
    and "book_new ladder_ops oc lc ic = Inr b1" and "book_new avl_ops oc lc ic = Inr b2"
  shows "(room_for_all (book_room oc lc ic) ladder_price xs [] \<longrightarrow>
      rel_sum (=) (\<lambda>x y. same_book (flat_ops ladder_ops H) x (flat_ops avl_ops H) y)
        (run_ops (flat_ops ladder_ops H) xs b1) (run_ops (flat_ops avl_ops H) xs b2) \<and>
      rel_sum (=) (\<lambda>x y. same_book (flat_ops ladder_ops H) x map_ops y)
        (run_ops (flat_ops ladder_ops H) xs b1) (run_ops map_ops xs mb_new)) \<and>
    (room_for_all (book_room oc lc ic) avl_price xs [] \<longrightarrow>
      rel_sum (=) (\<lambda>x y. same_book (flat_ops avl_ops H) x map_ops y)
        (run_ops (flat_ops avl_ops H) xs b2) (run_ops map_ops xs mb_new))"
proof (intro conjI impI)
  assume room: "room_for_all (book_room oc lc ic) ladder_price xs []"
  have r: "rel_sum (=) (answers_as (flat_ops ladder_ops H)) (run_ops (flat_ops ladder_ops H) xs b1) (run_ops naive_ops xs [])"
    "rel_sum (=) (answers_as (flat_ops avl_ops H)) (run_ops (flat_ops avl_ops H) xs b2) (run_ops naive_ops xs [])"
    "rel_sum (=) (answers_as map_ops) (run_ops map_ops xs mb_new) (run_ops naive_ops xs [])"
    using runs_three [OF assms(1) room, of H] assms(2,3) by auto
  show "rel_sum (=) (\<lambda>x y. same_book (flat_ops ladder_ops H) x (flat_ops avl_ops H) y)
        (run_ops (flat_ops ladder_ops H) xs b1) (run_ops (flat_ops avl_ops H) xs b2)"
    by (rule rel_sum_meet [OF r(1,2)]) (rule answers_same)
  show "rel_sum (=) (\<lambda>x y. same_book (flat_ops ladder_ops H) x map_ops y)
        (run_ops (flat_ops ladder_ops H) xs b1) (run_ops map_ops xs mb_new)"
    by (rule rel_sum_meet [OF r(1,3)]) (rule answers_same)
next
  assume room: "room_for_all (book_room oc lc ic) avl_price xs []"
  show "rel_sum (=) (\<lambda>x y. same_book (flat_ops avl_ops H) x map_ops y)
        (run_ops (flat_ops avl_ops H) xs b2) (run_ops map_ops xs mb_new)"
    by (rule rel_sum_meet [OF runs_two [OF assms(1) room assms(3)]]) (rule answers_same)
qed

theorem books_agree_witness:
  "\<exists>b1 b2. book_new ladder_ops 8 8 8 = Inr b1 \<and> book_new avl_ops 8 8 8 = Inr b2 \<and>
    rel_sum (=) (\<lambda>x y. same_book (flat_ops ladder_ops Mixed) x map_ops y)
      (run_ops (flat_ops ladder_ops Mixed) sample_ops b1) (run_ops map_ops sample_ops mb_new) \<and>
    rel_sum (=) (\<lambda>x y. same_book (flat_ops avl_ops Mixed) x map_ops y)
      (run_ops (flat_ops avl_ops Mixed) [Add 1 Sell 1000000 10 0, Add 2 Sell 100000 5 0, Cancel 2 1] b2)
      (run_ops map_ops [Add 1 Sell 1000000 10 0, Add 2 Sell 100000 5 0, Cancel 2 1] mb_new)"
proof -
  let ?xs = "[Add 1 Sell 1000000 10 0, Add 2 Sell 100000 5 0, Cancel 2 1]"
  obtain b1 b2 where b: "book_new ladder_ops 8 8 8 = Inr b1" "book_new avl_ops 8 8 8 = Inr b2" using sample_books by blast
  have "room_for_all (book_room 8 8 8) ladder_price sample_ops []" using sample_room sample_capacity by simp
  moreover have "room_for_all (book_room 8 8 8) avl_price ?xs []"
    unfolding sample_capacity avl_price_def kNoPrice_def by code_simp
  ultimately show ?thesis using books_agree [OF sample_capacity(1) b] b by blast
qed

text \<open>
  C14. The book on AVL trees refines the list of resting orders at every price but zero, the
  low and the high prices that the ladder loses included: it stops exactly where the list
  refuses and otherwise answers every query as the list, and \<open>validate\<close>, which checks
  order, balance, stored heights and the count of the nodes, passes.
\<close>

theorem avl_book_refines:
  assumes "capacities_ok oc lc ic" and "room_for_all (book_room oc lc ic) avl_price xs []"
  shows "\<exists>b. book_new avl_ops oc lc ic = Inr b \<and>
    (case run_ops naive_ops xs [] of
       Inl e \<Rightarrow> run_ops (flat_ops avl_ops H) xs b = Inl e
     | Inr rs \<Rightarrow> \<exists>b'. run_ops (flat_ops avl_ops H) xs b = Inr b' \<and> answers_as (flat_ops avl_ops H) b' rs \<and>
         bk_crossed avl_ops b' = nb_crossed rs \<and>
         (\<forall>s depth. bk_snapshot avl_ops b' s depth = Inr (nb_snapshot rs s depth)))"
proof -
  obtain b where b: "book_new avl_ops oc lc ic = Inr b" using avl.flat_start [OF assms(1)] by blast
  from avl.runs_refine [OF assms b, of H] b show ?thesis
    by (intro exI [of _ b]) (auto simp: flat_book_views split: sum.splits)
qed

theorem avl_book_refines_witness:
  "\<exists>b b'. book_new avl_ops 8 8 8 = Inr b \<and>
     run_ops (flat_ops avl_ops Identity) [Add 1 Sell 1000000 10 0, Add 2 Sell 100000 5 0] b = Inr b' \<and>
     bo_best (flat_ops avl_ops Identity) b' Sell = 100000 \<and> bo_validate (flat_ops avl_ops Identity) b' = Inr ()"
proof -
  let ?xs = "[Add 1 Sell 1000000 10 0, Add 2 Sell 100000 5 0]"
  have room: "room_for_all (book_room 8 8 8) avl_price ?xs []"
    by (simp add: sample_capacity sb_add_def nb_contains_def nb_add_def avl_price_def kNoPrice_def)
  have run: "run_ops naive_ops ?xs [] = Inr [\<lparr>r_ref = 1, r_side = Sell, r_price = 1000000, r_qty = 10, r_owner = 0\<rparr>,
      \<lparr>r_ref = 2, r_side = Sell, r_price = 100000, r_qty = 5, r_owner = 0\<rparr>]" by code_simp
  have best: "nb_best [\<lparr>r_ref = 1, r_side = Sell, r_price = 1000000, r_qty = 10, r_owner = 0\<rparr>,
      \<lparr>r_ref = 2, r_side = Sell, r_price = 100000, r_qty = 5, r_owner = 0\<rparr>] Sell = 100000" by code_simp
  from avl_book_refines [OF sample_capacity(1) room, of Identity] obtain b b' where
    "book_new avl_ops 8 8 8 = Inr b" "run_ops (flat_ops avl_ops Identity) ?xs b = Inr b'"
    "answers_as (flat_ops avl_ops Identity) b' [\<lparr>r_ref = 1, r_side = Sell, r_price = 1000000, r_qty = 10, r_owner = 0\<rparr>,
      \<lparr>r_ref = 2, r_side = Sell, r_price = 100000, r_qty = 5, r_owner = 0\<rparr>]"
    unfolding run by auto
  then show ?thesis unfolding answers_as_def using best by metis
qed

text \<open>
  C15. The reference book refines the list of resting orders: at every price but zero and
  up to \<open>2 ^ 32 - 1\<close> resting orders, with no other limit of capacity. The queries are those of
  the contract (\<open>answers_as\<close>), the snapshot of a side, which is the list's levels with their
  quantities and counts, all of them at depth zero and otherwise the first \<open>depth\<close>, and
  \<open>crossed\<close>.
\<close>

theorem map_book_refines:
  assumes "room_for_all (2 ^ 32 - 1) (\<lambda>p. p \<noteq> kNoPrice) xs []"
  shows "case run_ops naive_ops xs [] of
      Inl f \<Rightarrow> run_ops map_ops xs mb_new = Inl f
    | Inr rs \<Rightarrow> \<exists>b. run_ops map_ops xs mb_new = Inr b \<and> answers_as map_ops b rs \<and>
        mb_crossed b = nb_crossed rs \<and> (\<forall>s depth. mb_snapshot b s depth = nb_snapshot rs s depth)"
proof -
  have "rel_sum (=) (answers_as map_ops) (run_ops map_ops xs mb_new) (run_ops naive_ops xs [])"
    using assms by (intro mapb.run_answers [OF mb_new_rep, of "2 ^ 32 - 1"]) (simp_all add: map_limit_def)
  from rel_sum_answer [OF this] show ?thesis by (auto simp: map_book_views split: sum.splits)
qed

theorem map_book_refines_witness:
  "\<exists>b. run_ops map_ops sample_ops mb_new = Inr b \<and> mb_best b Buy = 1000000 \<and> mb_validate b = Inr () \<and>
     \<not> mb_crossed b \<and> mb_snapshot b Buy 1 = [(1000000, 70, 1)] \<and>
     mb_snapshot b Buy 0 = [(1000000, 70, 1), (990000, 40, 1)]"
proof -
  let ?rs = "[\<lparr>r_ref = 1, r_side = Buy, r_price = 1000000, r_qty = 70, r_owner = 7\<rparr>,
     \<lparr>r_ref = 3, r_side = Buy, r_price = 990000, r_qty = 40, r_owner = 8\<rparr>] :: naive_book"
  have "room_for_all (2 ^ 32 - 1) (\<lambda>p. p \<noteq> kNoPrice) sample_ops []"
    by (rule room_for_all_weaken [OF sample_room]) (simp_all add: ladder_map_price)
  from map_book_refines [OF this] obtain b where b: "run_ops map_ops sample_ops mb_new = Inr b"
    "answers_as map_ops b ?rs" "mb_crossed b = nb_crossed ?rs" "\<forall>s depth. mb_snapshot b s depth = nb_snapshot ?rs s depth"
    unfolding sample_ops_run by auto
  have "nb_best ?rs Buy = 1000000" "\<not> nb_crossed ?rs" "nb_snapshot ?rs Buy 1 = [(1000000, 70, 1)]"
    "nb_snapshot ?rs Buy 0 = [(1000000, 70, 1), (990000, 40, 1)]" by code_simp+
  with b show ?thesis by (auto simp: answers_as_def map_ops_def)
qed

text \<open>
  C16. The depth of the trees is logarithmic: on every book that has lived through any
  operations, the height stored at the root of a side's tree is at most twice the binary
  logarithm of the number of its levels plus one, and the tree counts exactly the prices
  with resting orders.
\<close>

theorem avl_depth:
  assumes "lived avl_ops avl_price H n xs b rs"
  shows "2 ^ (unat (height_of (bk_ladders b s) (am_root (bk_ladders b s))) div 2) \<le> unat (am_size (bk_ladders b s)) + 1 \<and>
    unat (am_size (bk_ladders b s)) = card (prices s rs)"
  using avl_height_bound [OF lived_levels(1) [OF assms, of s]] lived_levels(2) [OF assms, of s] by simp

theorem avl_depth_witness:
  "\<exists>b :: avl_map book. 2 ^ (unat (height_of (bk_ladders b Buy) (am_root (bk_ladders b Buy))) div 2) \<le> (3 :: nat) \<and>
    unat (am_size (bk_ladders b Buy)) = 2"
proof -
  have room: "room_for_all 8 avl_price sample_ops []"
    by (rule room_for_all_weaken [OF sample_room order.refl ladder_avl_price])
  then have room': "room_for_all (book_room 8 8 8) avl_price sample_ops []" by (simp add: sample_capacity)
  obtain b where b: "book_new avl_ops 8 8 8 = Inr b"
    "rel_sum (=) (\<lambda>b' rs. avl.rep Mixed b' rs \<and> answers_as (flat_ops avl_ops Mixed) b' rs)
      (run_ops (flat_ops avl_ops Mixed) sample_ops b) (run_ops naive_ops sample_ops [])"
    using avl.flat_runs [OF sample_capacity(1) room'] by blast
  obtain b' where "run_ops (flat_ops avl_ops Mixed) sample_ops b = Inr b'"
    using rel_sum_Inr [OF b(2) [unfolded sample_ops_run]] by (elim exE conjE) (rule that)
  then have "lived avl_ops avl_price Mixed 8 sample_ops b'
      [\<lparr>r_ref = 1, r_side = Buy, r_price = 1000000, r_qty = 70, r_owner = 7\<rparr>,
       \<lparr>r_ref = 3, r_side = Buy, r_price = 990000, r_qty = 40, r_owner = 8\<rparr>]"
    unfolding lived_def using b(1) room sample_capacity sample_ops_run by metis
  moreover have "prices Buy [\<lparr>r_ref = 1, r_side = Buy, r_price = 1000000, r_qty = 70, r_owner = 7\<rparr>,
       \<lparr>r_ref = 3, r_side = Buy, r_price = 990000, r_qty = 40, r_owner = 8\<rparr>] = {1000000, 990000}"
    by (simp add: prices_def conj_disj_distribR Collect_disj_eq Collect_conv_if insert_commute cong: conj_cong)
  ultimately show ?thesis using avl_depth [of Mixed 8 sample_ops b' _ Buy] by (intro exI [of _ b']) fastforce
qed

text \<open>
  C17. The engine does not see which book it is given: the same session over the three
  books yields the same fills in the same order, or the same refusal, and leaves books with
  the same digest and depth, when its limit prices are \<open>204800 \<le> p < 2 ^ 32 - 204800\<close>, from 20.48
  up. Below, where the engine over \<open>FlatBook\<close> can assert on a level the ladder has lost, the
  other two still agree, at every nonzero price.
\<close>

theorem engines_agree:
  assumes "capacities_ok oc lc ic" and "length rs \<le> book_room oc lc ic"
    and "book_new ladder_ops oc lc ic = Inr b1" and "book_new avl_ops oc lc ic = Inr b2"
  shows "((\<forall>r \<in> set rs. priced ladder_price r) \<longrightarrow>
      rel_sum (=) (\<lambda>(e, fs) (e', gs). fs = gs \<and> same_book (flat_ops ladder_ops H) (en_book e) (flat_ops avl_ops H) (en_book e'))
        (serve_all (flat_ops ladder_ops H) rs (engine_new b1 stp)) (serve_all (flat_ops avl_ops H) rs (engine_new b2 stp)) \<and>
      rel_sum (=) (\<lambda>(e, fs) (e', gs). fs = gs \<and> same_book (flat_ops ladder_ops H) (en_book e) map_ops (en_book e'))
        (serve_all (flat_ops ladder_ops H) rs (engine_new b1 stp)) (serve_all map_ops rs (engine_new mb_new stp))) \<and>
    ((\<forall>r \<in> set rs. priced avl_price r) \<longrightarrow>
      rel_sum (=) (\<lambda>(e, fs) (e', gs). fs = gs \<and> same_book (flat_ops avl_ops H) (en_book e) map_ops (en_book e'))
        (serve_all (flat_ops avl_ops H) rs (engine_new b2 stp)) (serve_all map_ops rs (engine_new mb_new stp)))"
proof (intro conjI impI)
  assume p: "\<forall>r \<in> set rs. priced ladder_price r"
  note s = sessions_three [OF assms(1,2) p assms(3,4)]
  show "rel_sum (=) (\<lambda>(e, fs) (e', gs). fs = gs \<and> same_book (flat_ops ladder_ops H) (en_book e) (flat_ops avl_ops H) (en_book e'))
      (serve_all (flat_ops ladder_ops H) rs (engine_new b1 stp)) (serve_all (flat_ops avl_ops H) rs (engine_new b2 stp))"
    by (rule rel_sum_meet [OF s(1,2)]) (auto intro: answers_same)
  show "rel_sum (=) (\<lambda>(e, fs) (e', gs). fs = gs \<and> same_book (flat_ops ladder_ops H) (en_book e) map_ops (en_book e'))
      (serve_all (flat_ops ladder_ops H) rs (engine_new b1 stp)) (serve_all map_ops rs (engine_new mb_new stp))"
    by (rule rel_sum_meet [OF s(1,3)]) (auto intro: answers_same)
next
  assume p: "\<forall>r \<in> set rs. priced avl_price r"
  show "rel_sum (=) (\<lambda>(e, fs) (e', gs). fs = gs \<and> same_book (flat_ops avl_ops H) (en_book e) map_ops (en_book e'))
      (serve_all (flat_ops avl_ops H) rs (engine_new b2 stp)) (serve_all map_ops rs (engine_new mb_new stp))"
    by (rule rel_sum_meet [OF sessions_two [OF assms(1,2) p assms(4)]]) (auto intro: answers_same)
qed

theorem engines_agree_witness:
  "\<exists>b1 b2. book_new ladder_ops 8 8 8 = Inr b1 \<and> book_new avl_ops 8 8 8 = Inr b2 \<and>
    rel_sum (=) (\<lambda>(e, fs) (e', gs). fs = gs \<and> same_book (flat_ops ladder_ops Mixed) (en_book e) (flat_ops avl_ops Mixed) (en_book e'))
      (serve_all (flat_ops ladder_ops Mixed) sample_both (engine_new b1 Off)) (serve_all (flat_ops avl_ops Mixed) sample_both (engine_new b2 Off)) \<and>
    rel_sum (=) (\<lambda>(e, fs) (e', gs). fs = gs \<and> same_book (flat_ops avl_ops Mixed) (en_book e) map_ops (en_book e'))
      (serve_all (flat_ops avl_ops Mixed) low_asks (engine_new b2 Off)) (serve_all map_ops low_asks (engine_new mb_new Off))"
proof -
  obtain b1 b2 where b: "book_new ladder_ops 8 8 8 = Inr b1" "book_new avl_ops 8 8 8 = Inr b2" using sample_books by blast
  have "length sample_both \<le> book_room 8 8 8" "length low_asks \<le> book_room 8 8 8" "\<forall>r \<in> set sample_both. priced ladder_price r"
    by (simp_all add: sample_both_def sample_asks_def low_asks_def sample_bid_def sample_capacity ladder_price_def)
  with engines_agree [OF sample_capacity(1) _ b] low_asks_priced b show ?thesis by blast
qed

text \<open>
  C18. The journal is a function of the feed: replaying any bytes, malformed ones included,
  whose adds and replaces of the symbol find room and are at prices \<open>204800 \<le> p < 2 ^ 32 -
  204800\<close> (from 20.48 up), over the three books, each with its own validation interval, stops
  at the same assertion or reports the same digest, symbol, counts, crossed states and peaks
  and leaves the same book. Only the number of validations may differ. The condition on
  prices is needed for \<open>FlatBook\<close> alone: with the low stub quotes of a feed its \<open>validate\<close> can
  stop at some intervals and not at others. \<open>AvlBook\<close> and \<open>MapBook\<close> agree at every nonzero price.
\<close>

theorem replay_books_agree:
  assumes "capacities_ok oc lc ic"
    and "book_new ladder_ops oc lc ic = Inr b1" and "book_new avl_ops oc lc ic = Inr b2"
  shows "(replay_room (book_room oc lc ic) ladder_price bytes symbol strict \<longrightarrow>
      rel_sum (=) (\<lambda>(o1, x) (o2, y). same_outcome o1 o2 \<and> same_book (flat_ops ladder_ops H) x (flat_ops avl_ops H) y)
        (replay_once (flat_ops ladder_ops H) b1 bytes symbol every1 strict) (replay_once (flat_ops avl_ops H) b2 bytes symbol every2 strict) \<and>
      rel_sum (=) (\<lambda>(o1, x) (o2, y). same_outcome o1 o2 \<and> same_book (flat_ops ladder_ops H) x map_ops y)
        (replay_once (flat_ops ladder_ops H) b1 bytes symbol every1 strict) (replay_once map_ops mb_new bytes symbol every2 strict)) \<and>
    (replay_room (book_room oc lc ic) avl_price bytes symbol strict \<longrightarrow>
      rel_sum (=) (\<lambda>(o1, x) (o2, y). same_outcome o1 o2 \<and> same_book (flat_ops avl_ops H) x map_ops y)
        (replay_once (flat_ops avl_ops H) b2 bytes symbol every1 strict) (replay_once map_ops mb_new bytes symbol every2 strict))"
proof (intro conjI impI)
  assume room: "replay_room (book_room oc lc ic) ladder_price bytes symbol strict"
  have run: "rel_sum (=) (\<lambda>(o1, b) (o2, rs). same_outcome o1 o2 \<and> answers_as (flat_ops ladder_ops H) b rs)
      (replay_once (flat_ops ladder_ops H) b1 bytes symbol every strict) (replay_once naive_ops [] bytes symbol 0 strict)"
    "rel_sum (=) (\<lambda>(o1, b) (o2, rs). same_outcome o1 o2 \<and> answers_as (flat_ops avl_ops H) b rs)
      (replay_once (flat_ops avl_ops H) b2 bytes symbol every strict) (replay_once naive_ops [] bytes symbol 0 strict)"
    "rel_sum (=) (\<lambda>(o1, b) (o2, rs). same_outcome o1 o2 \<and> answers_as map_ops b rs)
      (replay_once map_ops mb_new bytes symbol every strict) (replay_once naive_ops [] bytes symbol 0 strict)" for every
    using replay_three [OF assms(1) room, of H every] assms(2,3) by auto
  show "rel_sum (=) (\<lambda>(o1, x) (o2, y). same_outcome o1 o2 \<and> same_book (flat_ops ladder_ops H) x (flat_ops avl_ops H) y)
      (replay_once (flat_ops ladder_ops H) b1 bytes symbol every1 strict) (replay_once (flat_ops avl_ops H) b2 bytes symbol every2 strict)"
    by (rule rel_sum_meet [OF run(1,2)]) (auto simp: same_outcome_def intro: answers_same)
  show "rel_sum (=) (\<lambda>(o1, x) (o2, y). same_outcome o1 o2 \<and> same_book (flat_ops ladder_ops H) x map_ops y)
      (replay_once (flat_ops ladder_ops H) b1 bytes symbol every1 strict) (replay_once map_ops mb_new bytes symbol every2 strict)"
    by (rule rel_sum_meet [OF run(1,3)]) (auto simp: same_outcome_def intro: answers_same)
next
  assume room: "replay_room (book_room oc lc ic) avl_price bytes symbol strict"
  show "rel_sum (=) (\<lambda>(o1, x) (o2, y). same_outcome o1 o2 \<and> same_book (flat_ops avl_ops H) x map_ops y)
      (replay_once (flat_ops avl_ops H) b2 bytes symbol every1 strict) (replay_once map_ops mb_new bytes symbol every2 strict)"
    by (rule rel_sum_meet [OF replay_two(1) [OF assms(1) room assms(3)] replay_two(2) [OF assms(1) room assms(3)]])
      (auto simp: same_outcome_def intro: answers_same)
qed

theorem replay_books_agree_witness:
  "\<exists>b1 b2. book_new ladder_ops 8 8 8 = Inr b1 \<and> book_new avl_ops 8 8 8 = Inr b2 \<and>
    rel_sum (=) (\<lambda>(o1, x) (o2, y). same_outcome o1 o2 \<and> same_book (flat_ops ladder_ops Mixed) x map_ops y)
      (replay_once (flat_ops ladder_ops Mixed) b1 (feed_of sample_feed) ''ABCD'' 0 True)
      (replay_once map_ops mb_new (feed_of sample_feed) ''ABCD'' 2 True)"
proof -
  obtain b1 b2 where b: "book_new ladder_ops 8 8 8 = Inr b1" "book_new avl_ops 8 8 8 = Inr b2" using sample_books by blast
  have "replay_room (book_room 8 8 8) ladder_price (feed_of sample_feed) ''ABCD'' True"
    using sample_feed_room by (intro replay_room_ops) (simp add: sample_messages sample_capacity)
  with replay_books_agree [OF sample_capacity(1) b, of "feed_of sample_feed" "''ABCD''" True Mixed 0 2] b show ?thesis by blast
qed

text \<open>
  C19. From bytes to book, strict or not: encode and frame a list of messages, whose buy or
  sell indicators are valid, and replay the bytes over \<open>FlatBook\<close>, where the operations that
  the messages with the symbol's locate code spell find room and are at prices
  \<open>204800 \<le> p < 2 ^ 32 - 204800\<close>, from 20.48 up. A replay that ends has performed these
  operations, all of them and no others, in order: the book agrees with the list of resting
  orders and the outcome counts them. It ends exactly when the list accepts them all and, if
  the observer is strict, none of them leaves the book crossed; no other assertion of the
  observer fires. Otherwise it stops, at the assertion at which the replay over the list
  stops. The replay from a buffered reader, as over standard input, is the same.
\<close>

theorem replay_applies_feed:
  fixes H :: index_hash and every :: u64 and strict :: bool
  assumes "\<forall>e \<in> set es. event_fits e \<and> indicator_ok e" and "capacities_ok oc lc ic"
    and "room_for_all (book_room oc lc ic) ladder_price (feed_ops symbol None es) []"
    and "book_new ladder_ops oc lc ic = Inr b" and "kMinBufferSize \<le> capacity" and "length (feed_of es) < turns"
  defines "xs \<equiv> feed_ops symbol None es"
    and "run \<equiv> replay_once (flat_ops ladder_ops H) b (feed_of es) symbol every strict"
  shows "(\<forall>out b'. run = Inr (out, b') \<longrightarrow> ou_applied out = of_nat (length xs) \<and>
        (\<exists>rs. run_ops naive_ops xs [] = Inr rs \<and> answers_as (flat_ops ladder_ops H) b' rs)) \<and>
    ((\<exists>x. run = Inr x) \<longleftrightarrow> (\<exists>rs. run_ops naive_ops xs [] = Inr rs) \<and> (strict \<longrightarrow> uncrossed_along xs [])) \<and>
    (\<forall>f. run = Inl f \<longleftrightarrow> replay_once naive_ops [] (feed_of es) symbol 0 strict = Inl f) \<and>
    (\<exists>r. reader_new (memory_source (feed_of es) chunk) capacity = Inr r \<and>
      replay_streamed (flat_ops ladder_ops H) b memory_read turns turns r symbol every strict = run)"
proof -
  have m: "messages_of (feed_of es) = es" unfolding feed_of_def by (rule messages_of_events) (use assms(1) in blast)
  have room: "replay_room (book_room oc lc ic) ladder_price (feed_of es) symbol strict"
    using assms(3) by (intro replay_room_ops) (simp add: m)
  have rep: "rel_sum (=) (\<lambda>(o1, x) (o2, rs). same_outcome o1 o2 \<and> answers_as (flat_ops ladder_ops H) x rs)
      run (replay_once naive_ops [] (feed_of es) symbol 0 strict)"
    using replay_three [OF assms(2) room, of H every] assms(4) by (auto simp: run_def)
  have small: "book_room oc lc ic < 2 ^ 32" using book_room_map [of oc lc ic mb_new] by (simp add: map_limit_def)
  have ind: "\<forall>e \<in> set (messages_of (feed_of es)). indicator_ok e" using assms(1) m by simp
  have room': "room_for_all (book_room oc lc ic) ladder_price (feed_ops symbol None (messages_of (feed_of es))) []"
    using assms(3) by (simp only: m)
  note ends = replay_ends [where ops = "flat_ops ladder_ops H" and book = b and bytes = "feed_of es" and symbol = symbol and
      every = every and strict = strict and n = "book_room oc lc ic" and ok = ladder_price, OF _ ind small room']
  have one: "(\<exists>x. run = Inr x) \<longleftrightarrow> (\<exists>rs. run_ops naive_ops xs [] = Inr rs) \<and> (strict \<longrightarrow> uncrossed_along xs [])"
    using ends(1) rep unfolding run_def xs_def m by blast
  have two: "\<exists>rs. run_ops naive_ops xs [] = Inr rs \<and> answers_as (flat_ops ladder_ops H) b' rs" if "run = Inr (out, b')" for out b'
    using ends(2) rep that unfolding run_def xs_def m by blast
  have three: "run = Inl f \<longleftrightarrow> replay_once naive_ops [] (feed_of es) symbol 0 strict = Inl f" for f
    using ends(3) rep unfolding run_def by blast
  have "ou_applied out = of_nat (length xs)" if "run = Inr (out, b')" for out b'
    using replay_end [OF that [unfolded run_def]] by (simp add: m xs_def)
  then show ?thesis
    using one two three replay_from_memory [OF assms(5,6), of chunk "flat_ops ladder_ops H" b symbol every strict, folded run_def] by blast
qed

theorem replay_applies_feed_witness:
  "\<exists>b out b'. replay_once (flat_ops ladder_ops Mixed) b (feed_of sample_feed) ''ABCD'' 1 True = Inr (out, b') \<and>
     ou_applied out = 3 \<and> bo_qty_at (flat_ops ladder_ops Mixed) b' Buy 1000000 = Inr 70"
proof -
  obtain b where b: "book_new ladder_ops 8 8 8 = Inr b" using sample_books by blast
  have room: "room_for_all (book_room 8 8 8) ladder_price (feed_ops ''ABCD'' None sample_feed) []"
    using sample_feed_room by (simp add: sample_capacity)
  have n: "length (feed_ops ''ABCD'' None sample_feed) = 3" by (simp add: sample_feed_ops)
  note t = replay_applies_feed [OF sample_feed_ok sample_capacity(1) room b order.refl lessI, of Mixed 1 True]
  have "\<exists>x. replay_once (flat_ops ladder_ops Mixed) b (feed_of sample_feed) ''ABCD'' 1 True = Inr x"
    using t sample_feed_uncrossed sample_feed_run by blast
  then obtain out b' where r: "replay_once (flat_ops ladder_ops Mixed) b (feed_of sample_feed) ''ABCD'' 1 True = Inr (out, b')" by auto
  with t obtain rs where "run_ops naive_ops (feed_ops ''ABCD'' None sample_feed) [] = Inr rs"
    "answers_as (flat_ops ladder_ops Mixed) b' rs" "ou_applied out = of_nat (length (feed_ops ''ABCD'' None sample_feed))"
    by blast
  with r show ?thesis unfolding sample_feed_run n
    by (intro exI [of _ b] exI [of _ out] exI [of _ b']) (auto simp: answers_as_def nb_qty_at_def queue_def)
qed

text \<open>
  C20. Quantity is conserved: whatever the bytes, the resting quantity of each side is at
  every step what the messages added less what they took away, so the assertion of the
  observer that compares the two never fires, over any of the three books.
\<close>

theorem replay_conserves:
  assumes "capacities_ok oc lc ic" and "replay_room (book_room oc lc ic) ladder_price bytes symbol strict"
    and "book_new ladder_ops oc lc ic = Inr b1" and "book_new avl_ops oc lc ic = Inr b2"
  shows "replay_once (flat_ops ladder_ops H) b1 bytes symbol every strict \<noteq> Inl (ReplayF NotConserved) \<and>
    replay_once (flat_ops avl_ops H) b2 bytes symbol every strict \<noteq> Inl (ReplayF NotConserved) \<and>
    replay_once map_ops mb_new bytes symbol every strict \<noteq> Inl (ReplayF NotConserved)"
proof -
  have never: "x \<noteq> Inl (ReplayF NotConserved)"
    if "rel_sum (=) R x (replay_once naive_ops [] bytes symbol 0 strict)" for R and x :: "failure + 'x"
    using that replay_conserved_list [of bytes symbol 0 strict]
    by (cases x; cases "replay_once naive_ops [] bytes symbol 0 strict") auto
  show ?thesis
    using replay_three [OF assms(1,2), of H every] assms(3,4) by (auto dest: never)
qed

theorem replay_conserves_witness:
  "\<exists>b1 b2. book_new ladder_ops 8 8 8 = Inr b1 \<and> book_new avl_ops 8 8 8 = Inr b2 \<and>
    replay_once (flat_ops ladder_ops Mixed) b1 (feed_of sample_feed) ''ABCD'' 0 True \<noteq> Inl (ReplayF NotConserved)"
proof -
  obtain b1 b2 where b: "book_new ladder_ops 8 8 8 = Inr b1" "book_new avl_ops 8 8 8 = Inr b2" using sample_books by blast
  have "replay_room (book_room 8 8 8) ladder_price (feed_of sample_feed) ''ABCD'' True"
    using sample_feed_room by (intro replay_room_ops) (simp add: sample_messages sample_capacity)
  from replay_conserves [OF sample_capacity(1) this b, of Mixed 0] b show ?thesis by blast
qed

text \<open>
  C21. An order index built for \<open>hint\<close> live orders is a finite map: whatever sequence of
  insertions (of absent references) and erasures (of present ones) is applied, never
  more than \<open>hint\<close> references at a time, no assertion fires, no probing or shifting loop
  runs for ever, every later lookup returns what the map holds, and \<open>validate\<close> finds no
  gap and no miscount.
\<close>

theorem index_refines_map:
  assumes "unat hint \<le> 2 ^ 30" and "legal_run (unat hint) xs Map.empty"
  shows "\<exists>ix. index_run H xs (oi_new hint) = Inr ix \<and> oi_validate H ix = Inr () \<and>
    (\<forall>r. oi_find H ix r =
       Inr (case content_run xs Map.empty r of None \<Rightarrow> null_handle | Some h \<Rightarrow> h))"
proof -
  have "legal_run (unat hint) xs (oi_map (oi_new hint))"
    using assms oi_new_ok(2) by simp
  moreover have "2 * (unat (ix_live (oi_new hint)) + unat hint) \<le> length (ix_slots (oi_new hint))"
    using oi_new_ok(3,4) [OF assms(1)] by simp
  ultimately obtain ix where "index_run H xs (oi_new hint) = Inr ix" "oi_inv H ix"
    "oi_map ix = content_run xs (oi_map (oi_new hint))"
    using index_run_refines [OF oi_new_ok(1) [OF assms(1)]] by blast
  then show ?thesis
    using oi_validate_inv order_ix.find_law oi_new_ok(2) [OF assms(1)] by auto
qed

theorem index_refines_map_witness:
  "\<exists>ix. index_run Identity [Put 3 (Handle 257), Put 19 (Handle 513), Drop 3] (oi_new 2) = Inr ix \<and>
     oi_validate Identity ix = Inr () \<and>
     (\<forall>r. oi_find Identity ix r =
        Inr (case content_run [Put 3 (Handle 257), Put 19 (Handle 513), Drop 3] Map.empty r of
               None \<Rightarrow> null_handle | Some h \<Rightarrow> h))"
  by (rule index_refines_map) (simp_all add: is_null_def kNullBits_def)

text \<open>
  C22. On every reachable order pool the structural check \<open>validate\<close> passes (the free list
  stays in the pool, has no cycle, holds no live slot, and live, free and quarantined slots
  add up to the capacity), and \<open>allocate\<close> returns exactly when a slot is free; otherwise it
  stops with "order pool exhausted".
\<close>

theorem order_pool_valid:
  assumes "order_pool_reach capacity limit p"
  shows "pool_validate order_slot p = Inr () \<and>
    (if pool_room p = 0 then allocate order_slot p = Inl (PoolF PoolExhausted)
     else (\<exists>p' h. allocate order_slot p = Inr (p', h) \<and> pool_live order_slot p' h \<and>
            \<not> pool_live order_slot p h))"
proof -
  have inv: "pool_inv order_slot p" using order_pool_reach_inv [OF assms] by blast
  have "if pool_room p = 0 then allocate order_slot p = Inl (PoolF PoolExhausted)
         else (\<exists>p' h. allocate order_slot p = Inr (p', h) \<and> pool_live order_slot p' h \<and>
                \<not> pool_live order_slot p h)"
    using order_pool.allocate_exhausted [OF inv] order_pool.allocate_ok [OF inv] by (metis neq0_conv)
  with order_pool.pool_validate_inv [OF inv] show ?thesis by simp
qed

theorem order_pool_valid_witness:
  "\<exists>p. order_pool_reach 3 0 p \<and> pool_validate order_slot p = Inr ()"
proof -
  obtain p where "pool_new order_slot blank_order 3 0 = Inr p"
    using order_pool.pool_new_ok [of 3 blank_order 0] by (auto simp: kMaxCapacity_def kNullIndex_def kIndexBits_def)
  then have "order_pool_reach 3 0 p" by (rule reach_new)
  with order_pool_valid show ?thesis by blast
qed

text \<open>
  C23. Use after free and double free are caught: freeing a handle in use succeeds and keeps
  every other handle and its slot as they were; and in every state the pool reaches from
  there, by whatever allocations, frees and writes, in whatever order, a dereference or a
  second free of the freed handle stops with "stale handle", while its slot has not been
  handed out again and also after, unless the times it was are a multiple of 128, when the
  8-bit generation has come round.
\<close>

theorem order_pool_stale:
  assumes "order_pool_reach capacity limit p" and "pool_live order_slot p h"
  shows "\<exists>p'. pool_free order_slot p h = Inr p' \<and>
    (\<forall>x. pool_live order_slot p x \<longrightarrow> x \<noteq> h \<longrightarrow> pool_ref order_slot p' x = pool_ref order_slot p x) \<and>
    (\<forall>es q. order_pool_runs p' es q \<longrightarrow> times_taken h es = 0 \<or> \<not> 128 dvd times_taken h es \<longrightarrow>
      pool_ref order_slot q h = Inl (PoolF StaleHandle) \<and> pool_free order_slot q h = Inl (PoolF StaleHandle))"
proof -
  have inv: "pool_inv order_slot p" using order_pool_reach_inv [OF assms(1)] by blast
  obtain p' where p': "pool_free order_slot p h = Inr p'"
    "\<And>x. pool_live order_slot p' x \<longleftrightarrow> pool_live order_slot p x \<and> x \<noteq> h"
    "\<And>x. pool_live order_slot p x \<Longrightarrow> x \<noteq> h \<Longrightarrow> slot_at p' x = slot_at p x"
    using order_pool.free_ok [OF inv assms(2)] by metis
  have "pool_ref order_slot q h = Inl (PoolF StaleHandle) \<and> pool_free order_slot q h = Inl (PoolF StaleHandle)"
    if "order_pool_runs p' es q" "times_taken h es = 0 \<or> \<not> 128 dvd times_taken h es" for es q
    using gone_refused [OF gone_runs [OF that(1) freed_gone [OF inv assms(2) p'(1)]] that(2)] by (rule conjI)
  moreover have "pool_ref order_slot p' x = pool_ref order_slot p x" if "pool_live order_slot p x" "x \<noteq> h" for x
    using that p'(2,3) by (simp add: pool_ref_live)
  ultimately show ?thesis using p'(1) by blast
qed

theorem order_pool_stale_witness:
  "\<exists>p h p' p2 k. order_pool_reach 3 0 p \<and> pool_live order_slot p h \<and> pool_free order_slot p h = Inr p' \<and>
     allocate order_slot p' = Inr (p2, k) \<and> h_pos k = h_pos h \<and> pool_ref order_slot p2 h = Inl (PoolF StaleHandle)"
proof -
  obtain p where new: "pool_new order_slot blank_order 3 0 = Inr p" "pool_inv order_slot p" "pool_room p = 3" "quarantine_limit p = 0"
    using order_pool.pool_new_ok [of 3 blank_order 0]
    by (auto simp: kMaxCapacity_def kNullIndex_def kIndexBits_def)
  obtain p1 h where p1: "allocate order_slot p = Inr (p1, h)" "pool_live order_slot p1 h" "pool_inv order_slot p1" "quarantine_limit p1 = 0"
    using order_pool.allocate_ok [of p] new by (metis zero_less_numeral)
  have reach: "order_pool_reach 3 0 p1" using reach_allocate [OF reach_new [OF new(1)] p1(1)] .
  obtain p' p2 k where r: "pool_free order_slot p1 h = Inr p'" "allocate order_slot p' = Inr (p2, k)" "h_index k = h_index h"
    using order_pool.free_allocate [OF p1(3,2,4)] by metis
  have "order_pool_runs p' [Took k] p2" using runs_take [OF runs_start r(2)] by simp
  moreover have "times_taken h [Took k] = 1" using r(3) by (simp add: times_taken_def h_pos_def)
  ultimately have "pool_ref order_slot p2 h = Inl (PoolF StaleHandle)"
    using order_pool_stale [OF reach p1(2)] r(1) by fastforce
  with reach p1(2) r show ?thesis by (metis h_pos_def)
qed

text \<open>
  C24. The detection window handle.hpp documents: with no quarantine a slot that is freed
  and allocated again \<open>n\<close> times is named by the very same handle exactly when 128
  divides \<open>n\<close>, because the 8-bit generation moves by two per reuse; a dereference of the
  handle held all along then succeeds, and in every other case stops with "stale handle".
\<close>

theorem order_pool_wraps:
  assumes "order_pool_reach capacity 0 p" and "pool_live order_slot p h"
  shows "\<exists>p' h'. recycle order_slot n p h = Inr (p', h') \<and> pool_live order_slot p' h' \<and>
    (h' = h \<longleftrightarrow> 128 dvd n) \<and>
    pool_ref order_slot p' h = (if 128 dvd n then Inr (slot_at p' h) else Inl (PoolF StaleHandle))"
proof -
  have inv: "pool_inv order_slot p" "quarantine_limit p = 0"
    using order_pool_reach_inv [OF assms(1)] by auto
  obtain p' h' where "recycle order_slot n p h = Inr (p', h')" "pool_live order_slot p' h'"
    using order_pool.recycle_generation [OF inv(1) assms(2) inv(2)] by blast
  with order_pool.recycle_same_handle [OF inv(1) assms(2) inv(2)] recycled_refused [OF inv(1) assms(2) inv(2)]
  show ?thesis by blast
qed

theorem order_pool_wraps_witness:
  "\<exists>p h. order_pool_reach 3 0 p \<and> pool_live order_slot p h \<and>
     (\<exists>p'. recycle order_slot 128 p h = Inr (p', h) \<and> pool_ref order_slot p' h = Inr (slot_at p' h)) \<and>
     (\<exists>p' h'. recycle order_slot 127 p h = Inr (p', h') \<and> pool_ref order_slot p' h = Inl (PoolF StaleHandle))"
proof -
  obtain p where new: "pool_new order_slot blank_order 3 0 = Inr p" "pool_inv order_slot p" "pool_room p = 3"
    using order_pool.pool_new_ok [of 3 blank_order 0]
    by (auto simp: kMaxCapacity_def kNullIndex_def kIndexBits_def)
  obtain p1 h where p1: "allocate order_slot p = Inr (p1, h)" "pool_live order_slot p1 h"
    using order_pool.allocate_ok [of p] new by (metis zero_less_numeral)
  have "order_pool_reach 3 0 p1" using reach_allocate [OF reach_new [OF new(1)] p1(1)] .
  with order_pool_wraps [OF this p1(2), of 128] order_pool_wraps [OF this p1(2), of 127] p1(2) show ?thesis by auto
qed

text \<open>
  C25. The two input paths agree: whatever the chunk size, the buffered reader returns the
  frames, in order, that the zero-copy cursor returns over the whole input; with a buffer
  that holds the longest length a prefix can announce (the default one does) it also stops
  with the same status and the same error.
\<close>

theorem reader_yields_cursor_frames:
  assumes "kMinBufferSize \<le> capacity" and "length bs < turns"
  shows "\<exists>r r' c' fs st st'. reader_new (memory_source bs chunk) capacity = Inr r \<and>
    reader_drain memory_read turns turns r = Inr (fs, st, r') \<and>
    drain turns (cursor_of bs) = Inr (fs, st', c') \<and>
    (2 + 65535 \<le> capacity \<longrightarrow> st = st' \<and> reader_error r' = cur_error c')"
proof -
  obtain r where r: "reader_new (memory_source bs chunk) capacity = Inr r" "reader_ok r"
    "memory.pending r = bs" "length (rd_buf r) = capacity"
    using memory_reader [OF assms(1)] by metis
  obtain st r' where rd: "reader_drain memory_read turns turns r = Inr (fst (frames_of bs), st, r')"
    "st = fst (snd (frames_of bs)) \<and> reader_error r' = snd (snd (frames_of bs)) \<or> \<not> roomy capacity"
    using memory.reader_drain_run [OF r(2), of turns turns] r(3,4) assms(2) by auto
  obtain c' where "drain turns (cursor_of bs) = Inr (fst (frames_of bs), fst (snd (frames_of bs)), c')"
    "cur_error c' = snd (snd (frames_of bs))"
    using drain_frames [of "cursor_of bs" turns] assms(2)
    by (auto simp: within_def cursor_of_def cursor_rest_def)
  with r(1) rd show ?thesis by (auto simp: roomy_def)
qed

theorem reader_yields_cursor_frames_witness:
  "\<exists>r r' c' fs st st'. reader_new (memory_source [0, 1, 83] 1) 65537 = Inr r \<and>
    reader_drain memory_read 4 4 r = Inr (fs, st, r') \<and> drain 4 (cursor_of [0, 1, 83]) = Inr (fs, st', c') \<and>
    st = st'"
  using reader_yields_cursor_frames [of 65537 "[0, 1, 83]" 4 1]
  by (auto simp: kMinBufferSize_def kLengthPrefixSize_def kMaxMessageLength_def)

text \<open>
  C26. Framing is lossless: the cursor over the concatenation of length-prefixed messages,
  each as long as its type declares, returns exactly these messages in order and then
  reports the end of the input without an error.
\<close>

theorem frames_round_trip:
  assumes "\<forall>m \<in> set ms. well_framed m" and "length (concat (map frame ms)) < turns"
  shows "\<exists>c'. drain turns (cursor_of (concat (map frame ms))) = Inr (ms, EndOfInput, c') \<and>
    cur_error c' = No_error"
  using drain_frames [of "cursor_of (concat (map frame ms))" turns] frames_of_frames [OF assms(1)] assms(2)
  by (auto simp: within_def cursor_of_def cursor_rest_def)

theorem frames_round_trip_witness:
  "\<exists>c'. drain 100 (cursor_of (concat (map frame [byte_of_char CHR ''D'' # replicate 18 7]))) =
     Inr ([byte_of_char CHR ''D'' # replicate 18 7], EndOfInput, c') \<and> cur_error c' = No_error"
  by (rule frames_round_trip)
    (simp_all add: well_framed_def load_char_def load_byte message_length_def OrderDelete_def frame_def)

text \<open>
  C27. The layout structs are what their static assertions say: for each of the 23 message
  types the members' offsets and lengths are the asserted ones, they tile the message (the
  sizes add up to the asserted size), \<open>message_length\<close> of the type byte is that size, and
  it fits in \<open>kMaxMessageLength\<close>; no other type byte is known.
\<close>

theorem layouts_match_assertions:
  "members (layout_of m) = asserted_of m \<and> sizeof (layout_of m) = asserted_size m \<and>
   message_length (type_char m) = asserted_size m \<and> asserted_size m \<le> kMaxMessageLength \<and>
   (is_known_type c \<longleftrightarrow> (\<exists>m. c = type_char m))"
  using layouts_asserted layouts_sized message_length_type asserted_size_bounds known_type_cases by simp

text \<open>
  C28. The wire is big endian whatever the host: with either byte order of the machine,
  \<open>load_be\<close> at the widths 16, 32 and 64 reads the number whose digits to base 256 are the first
  bytes, the most significant first (\<open>be_value\<close>), and \<open>store_be\<close> writes exactly these digits;
  loading what a machine of either kind stored gives the value back, and storing what was
  loaded gives the bytes back. The 48-bit load reads its six bytes in the same order.
\<close>

theorem byte_order_independent:
  "(2 \<le> length p \<longrightarrow> unat (load_be_on e p :: u16) = be_value (take 2 p)) \<and>
   (4 \<le> length p \<longrightarrow> unat (load_be_on e p :: u32) = be_value (take 4 p)) \<and>
   (8 \<le> length p \<longrightarrow> unat (load_be_on e p :: u64) = be_value (take 8 p)) \<and>
   (6 \<le> length p \<longrightarrow> unat (load_be48 p) = be_value (take 6 p)) \<and>
   length (store_be_on e (v16 :: u16)) = 2 \<and> be_value (store_be_on e v16) = unat v16 \<and>
   length (store_be_on e (v32 :: u32)) = 4 \<and> be_value (store_be_on e v32) = unat v32 \<and>
   length (store_be_on e (v64 :: u64)) = 8 \<and> be_value (store_be_on e v64) = unat v64 \<and>
   load_be_on e (store_be_on e' v16 @ rest) = v16 \<and> load_be_on e (store_be_on e' v32 @ rest) = v32 \<and>
   load_be_on e (store_be_on e' v64 @ rest) = v64 \<and>
   (length bs = 2 \<longrightarrow> store_be_on e (load_be_on e' bs :: u16) = bs) \<and>
   (length bs = 4 \<longrightarrow> store_be_on e (load_be_on e' bs :: u32) = bs) \<and>
   (length bs = 8 \<longrightarrow> store_be_on e (load_be_on e' bs :: u64) = bs)"
  using load_be_on_reads [where 'a = 16, of p e] load_be_on_reads [where 'a = 32, of p e]
    load_be_on_reads [where 'a = 64, of p e] load_be48_reads [of p]
    store_be_on_writes [where 'a = 16, of e v16] store_be_on_writes [where 'a = 32, of e v32] store_be_on_writes [where 'a = 64, of e v64]
  by (simp add: load_store_be_on store_load_be_on)

theorem byte_order_independent_witness:
  "unat (load_be_on LittleEndian [1, 2, 3, 4] :: u16) = 258 \<and> unat (load_be_on BigEndian [1, 2, 3, 4] :: u32) = 16909060 \<and>
   store_be_on BigEndian (load_be_on LittleEndian [1, 2] :: u16) = [1, 2]"
proof -
  have v: "be_value (take 2 [1, 2, 3, 4]) = 258" "be_value (take 4 [1, 2, 3, 4]) = 16909060"
    by (simp_all add: be_value_def)
  have l: "(2 :: nat) \<le> length [1, 2, 3, 4 :: u8]" "(4 :: nat) \<le> length [1, 2, 3, 4 :: u8]" "length [1, 2 :: u8] = 2" by simp_all
  have "unat (load_be_on LittleEndian [1, 2, 3, 4] :: u16) = be_value (take 2 [1, 2, 3, 4])"
    by (rule byte_order_independent [THEN conjunct1, THEN mp, OF l(1)])
  moreover have "unat (load_be_on BigEndian [1, 2, 3, 4] :: u32) = be_value (take 4 [1, 2, 3, 4])"
    by (rule byte_order_independent [THEN conjunct2, THEN conjunct1, THEN mp, OF l(2)])
  moreover have "store_be_on BigEndian (load_be_on LittleEndian [1, 2] :: u16) = [1, 2]"
    by (rule byte_order_independent [of "[]", THEN conjunct2, THEN conjunct2, THEN conjunct2, THEN conjunct2, THEN conjunct2, THEN conjunct2, THEN conjunct2, THEN conjunct2, THEN conjunct2, THEN conjunct2, THEN conjunct2, THEN conjunct2, THEN conjunct2, THEN conjunct1, THEN mp, OF l(3)])
  ultimately show ?thesis by (simp only: v)
qed

text \<open>
  C29. The replay digest has no collision on a single change: \<open>mix64\<close> is a bijection of the
  64-bit values, and two journals of the same length that differ in exactly one field end in
  different digests.
\<close>

theorem journal_tells_one_change:
  assumes "x \<noteq> y"
  shows "bij mix64 \<and> digest_value (foldl feed digest_new (xs @ x # ys)) \<noteq> digest_value (foldl feed digest_new (xs @ y # ys))"
proof (intro conjI notI)
  have "inj mix64" by (rule injI) (rule mix64_inj)
  then show "bij mix64" by (simp add: bij_def finite_UNIV_inj_surj)
next
  assume "digest_value (foldl feed digest_new (xs @ x # ys)) = digest_value (foldl feed digest_new (xs @ y # ys))"
  then have "foldl feed (feed (foldl feed digest_new xs) x) ys = foldl feed (feed (foldl feed digest_new xs) y) ys"
    by (simp add: digest_value_def)
  then show False using assms by (simp add: foldl_feed_state_iff feed_field_iff)
qed

theorem journal_tells_one_change_witness:
  "digest_value (foldl feed digest_new ([1] @ 2 # [3])) \<noteq> digest_value (foldl feed digest_new ([1] @ 4 # [3]))"
  using journal_tells_one_change [of 2 4 "[1]" "[3]"] by simp

text \<open>
  C30. \<open>itch_stats\<close> over a file in memory: the loop ends, and its counts are those of
  the frames of the file. Each type and each locate code has as many messages as the file
  has, the counts by type add up to the messages, the framed bytes are the payload and two
  bytes a message, the timestamps are those of the first and the last message, and the offset
  where it stopped and the bytes left over are the whole file.
\<close>

theorem stats_counts:
  assumes "frames_of bytes = (fs, st, er)"
  shows "\<exists>out s. run_mapped (Suc (length bytes)) (cursor_of bytes) (stats_new enabled) = Inr (out, s) \<and>
    counts fs s \<and> (\<Sum>t\<in>UNIV. fs_by_type s t) = fs_messages s \<and> so_status out = st \<and> so_error out = er \<and>
    so_offset out = of_nat (framed_length fs) \<and> framed_length fs + so_trailing out = length bytes"
proof -
  have c: "within (cursor_of bytes)" "cursor_rest (cursor_of bytes) = bytes" "cur_pos (cursor_of bytes) = 0"
    by (simp_all add: within_def cursor_of_def cursor_rest_def)
  have "(\<Sum>t\<in>UNIV. fs_by_type (fold observe_frame fs (stats_new enabled)) t) = of_nat (length fs)"
    using by_type_sum [of fs "stats_new enabled"] by (simp add: stats_new_def)
  moreover have "fs_messages (fold observe_frame fs (stats_new enabled)) = of_nat (length fs)"
    using counts_all [of fs enabled] by (simp add: counts_def)
  ultimately show ?thesis
    using run_mapped_frames [OF c(1), of "Suc (length bytes)" "stats_new enabled"] counts_all [of fs enabled] framed_le [of bytes]
    by (simp add: c assms)
qed

theorem stats_counts_witness:
  "\<exists>out s. run_mapped (Suc (length (feed_of sample_feed))) (cursor_of (feed_of sample_feed)) (stats_new True) = Inr (out, s) \<and>
     fs_messages s = 5 \<and> so_status out = EndOfInput \<and> so_trailing out = 0"
proof -
  note f = sample_frames
  obtain out s where r: "run_mapped (Suc (length (feed_of sample_feed))) (cursor_of (feed_of sample_feed)) (stats_new True) = Inr (out, s)"
    "counts (map event_bytes sample_feed) s" "so_status out = EndOfInput"
    "framed_length (map event_bytes sample_feed) + so_trailing out = length (feed_of sample_feed)"
    using stats_counts [OF f, of True] by blast
  moreover have "framed_length (map event_bytes sample_feed) = length (feed_of sample_feed)"
    by (simp add: framed_length_def feed_of_def length_concat comp_def frame_def)
  moreover have "length sample_feed = 5" by (simp add: sample_feed_def)
  ultimately show ?thesis by (simp add: counts_def)
qed

text \<open>
  C31. The two ways \<open>itch_stats\<close> reads a feed agree: over a reader with a buffer that
  holds the longest frame, however the source cuts its bytes, it ends with the counts, the
  status, the error and the offset of the run over the mapped file; the trailing bytes are
  the same too unless the input is malformed.
\<close>

theorem stats_streamed_agrees:
  assumes "2 + 65535 \<le> capacity" and "length bytes < turns"
  shows "\<exists>r out1 out2 s. reader_new (memory_source bytes chunk) capacity = Inr r \<and>
    run_streamed memory_read turns turns r (stats_new enabled) = Inr (out1, s) \<and>
    run_mapped turns (cursor_of bytes) (stats_new enabled) = Inr (out2, s) \<and>
    so_status out1 = so_status out2 \<and> so_error out1 = so_error out2 \<and> so_offset out1 = so_offset out2 \<and>
    (so_status out1 \<noteq> Malformed \<longrightarrow> so_trailing out1 = so_trailing out2)"
proof -
  have "kMinBufferSize \<le> capacity" using assms(1) by (simp add: kMinBufferSize_def kLengthPrefixSize_def kMaxMessageLength_def)
  then obtain r where r: "reader_new (memory_source bytes chunk) capacity = Inr r" "reader_ok r" "memory.pending r = bytes"
    "length (rd_buf r) = capacity" "bytes_consumed r = 0"
    by (rule memory_reader)
  obtain fs st er where f: "frames_of bytes = (fs, st, er)" by (metis prod_cases3)
  have m: "run_mapped turns (cursor_of bytes) (stats_new enabled) =
      Inr (\<lparr>so_status = st, so_error = er, so_offset = of_nat (framed_length fs), so_trailing = length bytes - framed_length fs\<rparr>,
        fold observe_frame fs (stats_new enabled))"
    using run_mapped_frames [of "cursor_of bytes" turns "stats_new enabled"] assms(2)
    by (simp add: within_def cursor_of_def cursor_rest_def f)
  obtain out where "run_streamed memory_read turns turns r (stats_new enabled) = Inr (out, fold observe_frame fs (stats_new enabled))"
    "so_status out = st" "so_error out = er" "so_offset out = of_nat (framed_length fs)"
    "st \<noteq> Malformed \<longrightarrow> so_trailing out = length bytes - framed_length fs"
    using memory.run_streamed_frames [OF r(2), of turns turns fs st er "stats_new enabled"] assms r(3-5) f by (auto simp: roomy_def)
  with r(1) m show ?thesis by auto
qed

theorem stats_streamed_agrees_witness:
  "\<exists>r out1 out2 s. reader_new (memory_source [0, 1, 83] 1) 65537 = Inr r \<and>
    run_streamed memory_read 4 4 r (stats_new True) = Inr (out1, s) \<and>
    run_mapped 4 (cursor_of [0, 1, 83]) (stats_new True) = Inr (out2, s) \<and> so_status out1 = so_status out2"
  using stats_streamed_agrees [of 65537 "[0, 1, 83]" 4 1 True] by auto

text \<open>
  C32. What \<open>itch_stats\<close> and the comment in it rely on: whatever type a frame is
  decoded as, its stock locate is the big-endian 16 bits at offset 1 and its timestamp the
  48 bits at offset 5.
\<close>

theorem header_offsets:
  assumes "event_at f = Some e"
  shows "event_stamp e = (load_be (drop 1 f), load_be48 (drop 5 f))"
  by (rule stamp_offsets [OF assms])

theorem header_offsets_witness:
  "load_be (drop 1 (event_bytes sample_directory)) = (7 :: u16) \<and> load_be48 (drop 5 (event_bytes sample_directory)) = 10"
proof -
  have "event_at (event_bytes sample_directory @ []) = Some sample_directory"
    using event_round_trip [of sample_directory "[]"] sample_feed_ok by (simp add: sample_feed_def)
  from header_offsets [OF this] show ?thesis by (simp add: sample_directory_def)
qed

text \<open>
  C33. The benchmarks replay the feed they were recorded from: recording never fails; its
  operations, applied to any book, do to the book what the operations of the symbol's
  messages do, refusals included; the five counters count the operations of each kind; and
  the recording through a buffered reader is the recording of the file in memory.
\<close>

theorem workload_is_feed:
  assumes "kMinBufferSize \<le> capacity" and "length bytes < turns"
  shows "\<exists>w r. load_workload bytes symbol = Inr w \<and> tallied w \<and>
    apply_all ops (wl_ops w) b = run_ops ops (feed_ops symbol None (messages_of bytes)) b \<and>
    reader_new (memory_source bytes chunk) capacity = Inr r \<and>
    load_workload_streamed memory_read turns turns r symbol = Inr w"
proof -
  obtain w where w: "load_workload bytes symbol = Inr w" "map op_of (wl_ops w) = feed_ops symbol None (messages_of bytes)" "tallied w"
    using load_workload_ops by blast
  obtain r where r: "reader_new (memory_source bytes chunk) capacity = Inr r" "reader_ok r" "memory.pending r = bytes"
    using memory_reader [OF assms(1)] by metis
  have "load_workload_streamed memory_read turns turns r symbol = Inr w"
    using memory.load_streamed_pending [OF r(2), of turns turns symbol] assms(2) w(1) r(3) by simp
  with w r(1) show ?thesis by (auto simp: apply_all_ops)
qed

theorem workload_is_feed_witness:
  "\<exists>w. load_workload (feed_of sample_feed) ''ABCD'' = Inr w \<and> tallied w \<and> (\<exists>rs. apply_all naive_ops (wl_ops w) [] = Inr rs \<and> length rs = 2)"
proof -
  have "kMinBufferSize \<le> 64" by (simp add: kMinBufferSize_def kLengthPrefixSize_def kMaxMessageLength_def)
  from workload_is_feed [OF this lessI, of "feed_of sample_feed" "''ABCD''" naive_ops "[]" 0] show ?thesis
    unfolding sample_messages sample_feed_run by force
qed

text \<open>
  C34. \<open>itch_histogram\<close> measures the book, not its representation: over \<open>MapBook\<close>
  it ends as over the list of resting orders, with the same collector and the same counts of
  the builder or at the same assertion, for every feed whose adds carry a price and fit in
  \<open>2 ^ 32 - 1\<close> orders; and reading the feed through a buffered reader changes nothing.
\<close>

theorem histogram_any_book:
  assumes "room_for_all (2 ^ 32 - 1) (\<lambda>p. p \<noteq> kNoPrice) (feed_ops symbol None (messages_of bytes)) []"
    and "kMinBufferSize \<le> capacity" and "length bytes < turns"
  shows "\<exists>r. reader_new (memory_source bytes chunk) capacity = Inr r \<and>
    histogram_streamed map_ops mb_new symbol memory_read turns turns r = histogram_mapped map_ops mb_new symbol bytes \<and>
    histogram_mapped map_ops mb_new symbol bytes = histogram_mapped naive_ops [] symbol bytes"
proof -
  obtain r where r: "reader_new (memory_source bytes chunk) capacity = Inr r" "reader_ok r" "memory.pending r = bytes"
    using memory_reader [OF assms(2)] by metis
  have "histogram_streamed map_ops mb_new symbol memory_read turns turns r = histogram_mapped map_ops mb_new symbol bytes"
    using memory.histogram_streamed_pending [OF r(2), of turns turns map_ops mb_new symbol] assms(3) r(3) by simp
  moreover have "histogram_mapped map_ops mb_new symbol bytes = histogram_mapped naive_ops [] symbol bytes"
    using mapb.histogram_agrees [OF mb_new_rep] assms(1) by (simp add: map_limit_def)
  ultimately show ?thesis using r(1) by blast
qed

theorem histogram_any_book_witness:
  "histogram_mapped map_ops mb_new ''ABCD'' (feed_of near_feed) = histogram_mapped naive_ops [] ''ABCD'' (feed_of near_feed)"
proof -
  have room: "room_for_all (2 ^ 32 - 1) (\<lambda>p. p \<noteq> kNoPrice) (feed_ops ''ABCD'' None (messages_of (feed_of near_feed))) []"
    unfolding near_messages by (rule near_room)
  have "kMinBufferSize \<le> 64" by (simp add: kMinBufferSize_def kLengthPrefixSize_def kMaxMessageLength_def)
  from histogram_any_book [OF room this lessI] show ?thesis by blast
qed

text \<open>
  C35. The ledger of a measurement that ends, over any book: the adds are the adds and
  replaces of the builder; each was measured or met an empty side; each measured distance is
  in a slot or past the last one; no slot above the greatest distance is used, and the
  greatest distance is what two 32-bit prices can make; and the samples are the operations of
  the symbol in the feed.
\<close>

theorem histogram_accounts:
  assumes "histogram_mapped ops book symbol bytes = Inr (Measured c st)"
  shows "co_adds c = bs_adds st + bs_replaces st \<and> co_adds c = co_measured c + co_no_inside c \<and>
    co_measured c = (\<Sum>i<kMaxTracked. co_distance c i) + co_beyond c \<and>
    (\<forall>i. co_distance c i \<noteq> 0 \<longrightarrow> int i \<le> co_max_distance c) \<and> 0 \<le> co_max_distance c \<and> co_max_distance c \<le> 2 ^ 32 div 100 \<and>
    co_samples c = bs_applied st \<and> co_samples c = of_nat (length (feed_ops symbol None (messages_of bytes)))"
  using histogram_ledger [OF assms] unfolding accounts_def by blast

theorem histogram_accounts_witness:
  "\<exists>c st. histogram_mapped naive_ops [] ''ABCD'' (feed_of near_feed) = Inr (Measured c st) \<and>
     co_adds c = co_measured c + co_no_inside c \<and> co_samples c = 2"
proof -
  obtain c st where m: "histogram_mapped naive_ops [] ''ABCD'' (feed_of near_feed) = Inr (Measured c st)"
    using near_measured by blast
  from histogram_accounts [OF m] have "co_adds c = co_measured c + co_no_inside c"
    "co_samples c = of_nat (length (feed_ops ''ABCD'' None (messages_of (feed_of near_feed))))" by blast+
  then show ?thesis using m by (simp add: near_messages near_ops)
qed

text \<open>
  C36. \<open>quantile\<close> is the least distance that covers its target, in the terms of
  \<open>within\<close>, the count the coverage table prints: everything below it covers less than
  the target, it covers the target, and \<open>kMaxTracked\<close> is the answer exactly when no
  tracked distance does.
\<close>

theorem quantile_least:
  "co_quantile target c =
     (if \<exists>k < kMaxTracked. target \<le> co_within k c then (LEAST k. k < kMaxTracked \<and> target \<le> co_within k c) else kMaxTracked)"
proof (cases "co_quantile target c < kMaxTracked")
  case True
  let ?q = "co_quantile target c"
  have "(LEAST k. k < kMaxTracked \<and> target \<le> co_within k c) = ?q"
    by (rule Least_equality) (use True co_quantile_least in \<open>auto simp: not_less [symmetric]\<close>)
  moreover have "\<exists>k < kMaxTracked. target \<le> co_within k c" using True co_quantile_least(2) by blast
  ultimately show ?thesis by simp
next
  case False
  then have q: "co_quantile target c = kMaxTracked" using co_quantile_least(1) [of target c] by simp
  then have "\<not> target \<le> co_within k c" if "k < kMaxTracked" for k
    using co_quantile_least(3) [of k target c] that by (simp add: not_le)
  then show ?thesis using q by auto
qed

text \<open>
  C37. The counts the reports print: \<open>commas\<close> has a comma at every fourth place from
  the right and nowhere else, none of them in front of the first digit, so that \<open>d\<close> digits
  take \<open>(d - 1) div 3\<close> commas; and without its commas it is the decimal of the number, whose
  value is the number.
\<close>

theorem commas_groups:
  "(let s = rev (commas v) in
      filter (\<lambda>c. c \<noteq> CHR '','') (rev s) = decimal (unat v) \<and> decimal_value (decimal (unat v)) = unat v \<and>
      {i. i < length s \<and> s ! i = CHR '',''} = {i. i < length s \<and> i mod 4 = 3} \<and>
      hd (commas v) \<noteq> CHR '','' \<and>
      length s = length (decimal (unat v)) + (length (decimal (unat v)) - 1) div 3)"
proof -
  let ?r = "rev (decimal (unat v))"
  have n: "CHR '','' \<notin> set ?r" by (simp add: decimal_no_comma)
  have "filter (\<lambda>c. c \<noteq> CHR '','') (commas v) = rev (filter (\<lambda>c. c \<noteq> CHR '','') (grouped ?r))"
    by (simp add: commas_grouped rev_filter)
  then have "filter (\<lambda>c. c \<noteq> CHR '','') (commas v) = decimal (unat v)" by (simp only: grouped_digits [OF n] rev_rev_ident)
  moreover have "length (commas v) = length (decimal (unat v)) + (length (decimal (unat v)) - 1) div 3"
    by (simp add: commas_grouped grouped_length)
  ultimately show ?thesis
    using grouped_commas [OF n] commas_hd [of v] by (auto simp: Let_def commas_grouped decimal_value_decimal)
qed

text \<open>
  C38. \<open>time_of_day\<close> prints at most 23 characters for every 64-bit argument, which with the
  terminating zero is at most 24 of the 32 bytes of its buffer, and it prints the 48-bit timestamps the wire carries in the fixed 18
  characters \<open>hh:mm:ss.nnnnnnnnn\<close>, from which the number of nanoseconds can be read.
\<close>

theorem time_of_day_reads:
  assumes "unat ns < 2 ^ 48"
  shows "length (time_of_day ns) = 18 \<and> parse_time (time_of_day ns) = unat ns \<and> (\<forall>any. length (time_of_day any) \<le> 23 \<and> Suc (length (time_of_day any)) \<le> 24)"
  using parse_time_of_day [OF assms] time_of_day_length by simp

theorem time_of_day_reads_witness:
  "parse_time (time_of_day 34200000000001) = 34200000000001 \<and> length (time_of_day 34200000000001) = 18"
  using time_of_day_reads [of 34200000000001] by simp

text \<open>
  C39. \<open>GzipSource::read\<close> over \<open>FdSource\<close>, the input of the tools, given that zlib's
  \<open>inflate\<close> stays within its buffers and that \<open>Z_OK\<close> means progress, and that the
  system's \<open>read\<close> delivers the file in pieces of any size with finitely many interrupts:
  the loop ends, within as many turns as there are compressed bytes left and room asked for.
  It throws that the stream ended mid-member only when truncation is not allowed; otherwise
  it returns as many bytes as it reports, fewer than asked only when it is finished, counts
  them, and a finished source reads nothing more. A source that does not allow truncation
  finishes only where zlib found the end of the stream.
\<close>

theorem gzip_read_ends:
  assumes "inflate_ok inflate" and "file_ok sys left interrupts"
    and "length (gz_in g) + length (left (gz_inner g)) + n < fuel" and "n < 2 ^ 32"
  shows "case gzip_read inflate (fd_source sys interrupts) fuel g n of
      Inl e \<Rightarrow> e \<noteq> TurnsSpent \<and> (e = EndedMidMember \<longrightarrow> \<not> gz_allow_truncated g)
    | Inr (k, bs, g') \<Rightarrow> k = length bs \<and> k \<le> n \<and> (k < n \<longrightarrow> gz_finished g') \<and> (gz_finished g \<longrightarrow> bs = [] \<and> g' = g) \<and>
        gz_out_total g' = gz_out_total g + of_nat k \<and>
        (gz_finished g' \<and> \<not> gz_finished g \<and> \<not> gz_allow_truncated g \<longrightarrow> ended_at inflate (gz_stream g'))"
proof -
  note fd_src = fd_byte_source [OF assms(2)]
  have "byte_source.gzip_left left g + n < fuel" using assms(3) by (simp add: byte_source.gzip_left_def [OF fd_src])
  from byte_source.gzip_read_end [OF fd_src assms(1) this assms(4)] show ?thesis .
qed

theorem gzip_read_ends_witness:
  "\<exists>k bs g'. gzip_read stored (fd_source disk_read dk_signals) 9 stored_file 4 = Inr (k, bs, g') \<and>
     bs = [5, 6] \<and> gz_finished g' \<and> gz_out_total g' = 2"
proof -
  obtain k g where run: "gzip_read stored (fd_source disk_read dk_signals) 9 stored_file 4 = Inr (k, [5, 6], g)"
    using stored_run [of 5] by auto
  have "length (gz_in stored_file) + length (dk_data (gz_inner stored_file)) + 4 < 9" by (simp add: stored_file_def gzip_new_def)
  from gzip_read_ends [OF stored_ok disk_ok this] run show ?thesis by (auto simp: stored_file_def gzip_new_def)
qed

text \<open>
  C40. \<open>trailing_bytes\<close>, documented as the bytes left over when the input ended
  mid-message, is the number of bytes in the reader's buffer. After a malformed frame nothing
  has moved the frames already returned out of it: of any input that ends in a malformed frame,
  fits in the buffer and is delivered in one read, the streamed run reports every byte as
  trailing, the mapped run the bytes after the last whole frame, and they agree only where the
  first frame is the malformed one. Both count the same frames.
\<close>

theorem trailing_differs:
  assumes "frames_of bytes = (fs, Malformed, er)" and "kMinBufferSize \<le> capacity" and "length bytes \<le> capacity"
    and "chunk = 0 \<or> length bytes \<le> chunk" and "length bytes < turns"
  shows "\<exists>r out1 out2 s. reader_new (memory_source bytes chunk) capacity = Inr r \<and>
    run_streamed memory_read turns turns r (stats_new enabled) = Inr (out1, s) \<and>
    run_mapped turns (cursor_of bytes) (stats_new enabled) = Inr (out2, s) \<and>
    so_status out1 = Malformed \<and> so_status out2 = Malformed \<and>
    so_trailing out1 = length bytes \<and> so_trailing out2 = length bytes - framed_length fs \<and>
    (so_trailing out1 = so_trailing out2 \<longleftrightarrow> fs = [])"
proof -
  obtain r where r: "reader_new (memory_source bytes chunk) capacity = Inr r" by (rule memory_reader [OF assms(2)])
  obtain r' where d: "reader_drain memory_read turns turns r = Inr (fs, Malformed, r')" "trailing_bytes r' = length bytes"
    by (rule drain_malformed [OF assms(1,3-5) r])
  have "run_mapped turns (cursor_of bytes) (stats_new enabled) =
      Inr (\<lparr>so_status = Malformed, so_error = er, so_offset = of_nat (framed_length fs), so_trailing = length bytes - framed_length fs\<rparr>,
        fold observe_frame fs (stats_new enabled))"
    using run_mapped_frames [of "cursor_of bytes" turns "stats_new enabled"] assms(1,5)
    by (simp add: within_def cursor_of_def cursor_rest_def)
  moreover have "framed_length fs \<le> length bytes" using framed_le [of bytes] assms(1) by simp
  ultimately show ?thesis using r d framed_none [of fs] by (auto simp: run_streamed_drain)
qed

theorem trailing_differs_witness:
  "\<exists>r out1 out2 s. reader_new (memory_source malformed_feed 0) 52 = Inr r \<and>
     run_streamed memory_read 19 19 r (stats_new False) = Inr (out1, s) \<and>
     run_mapped 19 (cursor_of malformed_feed) (stats_new False) = Inr (out2, s) \<and> so_trailing out1 = 18 \<and> so_trailing out2 = 4"
proof -
  have "frames_of malformed_feed = ([take 12 (drop 2 malformed_feed)], Malformed, ZeroLength)" by code_simp
  moreover have "length malformed_feed = 18" "kMinBufferSize \<le> 52" by code_simp+
  ultimately show ?thesis using trailing_differs [of malformed_feed _ _ 52 0 19 False] by fastforce
qed

end
